(* ===== verification/Prelude.thy ===== *)
theory Prelude
  imports Main "HOL-Library.Word"
begin

text \<open>
  The types and generic facts shared by the component theories.

  Machine integers are words of the source's width.  The targets (ESP32-S3, C3, C5) are
  32-bit, so \<open>size_t\<close> is a 32-bit word wherever a wrap-around or an overflow guard
  matters; a length or an index that the code keeps below the length of a buffer is a
  \<open>nat\<close>.

  A pointer to bytes that the code may compare with \<open>NULL\<close> is an option: \<open>None\<close> is
  \<open>NULL\<close>, \<open>Some bs\<close> a pointer to the readable bytes \<open>bs\<close>.  A pointer to the state an
  operation works on, and an out-parameter, always point to an object: the state is an
  argument and a result, an out-parameter is a component of the result.
\<close>

unbundle bit_operations_syntax

type_synonym u8 = "8 word"
type_synonym u16 = "16 word"
type_synonym u32 = "32 word"
type_synonym u64 = "64 word"
type_synonym bytes = "u8 list"

text \<open>The collection of rules that unfold a component's operations.\<close>

named_theorems step_defs
named_theorems inv_defs

section \<open>Buffers\<close>

text \<open>The first \<open>n\<close> bytes behind a pointer.\<close>

definition bytes_at :: "'a list option \<Rightarrow> nat \<Rightarrow> 'a list" where
  "bytes_at p n = (case p of None \<Rightarrow> [] | Some bs \<Rightarrow> take n bs)"

lemma bytes_at_simps [simp]:
  "bytes_at None n = []"
  "bytes_at (Some bs) n = take n bs"
  by (simp_all add: bytes_at_def)

text \<open>
  \<open>memcpy\<close> into a buffer at an offset; \<open>None\<close> is a write outside the buffer, which C
  leaves undefined.
\<close>

definition write_at :: "'a list \<Rightarrow> nat \<Rightarrow> 'a list \<Rightarrow> 'a list option" where
  "write_at buf off bs =
     (if off + length bs \<le> length buf
      then Some (take off buf @ bs @ drop (off + length bs) buf) else None)"

lemma write_at_in_range:
  "off + length bs \<le> length buf \<Longrightarrow>
   write_at buf off bs = Some (take off buf @ bs @ drop (off + length bs) buf)"
  by (simp add: write_at_def)

lemma write_at_length: "write_at buf off bs = Some buf' \<Longrightarrow> length buf' = length buf"
  by (auto simp: write_at_def split: if_splits)

lemma write_at_Nil [simp]: "off \<le> length buf \<Longrightarrow> write_at buf off [] = Some buf"
  by (simp add: write_at_def)

lemma write_at_extends:
  assumes "write_at buf off bs = Some buf'" and "take off buf = pre" and "off \<le> length buf"
  shows "take (off + length bs) buf' = pre @ bs"
  using assms by (auto simp: write_at_def split: if_splits)

text \<open>\<open>memmove\<close> inside one memory: the source bytes are read before any is written.\<close>

definition memmove :: "'a list \<Rightarrow> nat \<Rightarrow> nat \<Rightarrow> nat \<Rightarrow> 'a list" where
  "memmove mem dst src n = take dst mem @ take n (drop src mem) @ drop (dst + n) mem"

lemma length_memmove [simp]:
  "dst + n \<le> length mem \<Longrightarrow> src + n \<le> length mem \<Longrightarrow> length (memmove mem dst src n) = length mem"
  by (simp add: memmove_def)

lemma take_memmove:
  "k \<le> dst \<Longrightarrow> dst \<le> length mem \<Longrightarrow> take k (memmove mem dst src n) = take k mem"
  by (simp add: memmove_def min_def)

lemma drop_memmove:
  assumes "dst + n \<le> k" "dst + n \<le> length mem" "src + n \<le> length mem"
  shows "drop k (memmove mem dst src n) = drop k mem"
proof -
  have "length (take dst mem) = dst" "length (take n (drop src mem)) = n"
    using assms by simp_all
  then show ?thesis
    using assms by (simp add: memmove_def)
qed

lemma take_memmove_end:
  assumes "dst \<le> length mem" "src + n \<le> length mem"
  shows "take (dst + n) (memmove mem dst src n) = take dst mem @ take n (drop src mem)"
  using assms by (simp add: memmove_def)

section \<open>Lists updated by index\<close>

lemma take_update_last: "i < length xs \<Longrightarrow> take (Suc i) (xs[i := x]) = take i xs @ [x]"
  by (simp add: take_Suc_conv_app_nth)

lemma sum_list_update_nat:
  fixes xs :: "nat list"
  shows "i < length xs \<Longrightarrow> sum_list (xs[i := x]) + xs ! i = sum_list xs + x"
  by (induction xs arbitrary: i) (auto split: nat.splits)

lemma count_list_update:
  "i < length xs \<Longrightarrow>
   length (filter P (xs[i := x])) + (if P (xs ! i) then 1 else 0) =
   length (filter P xs) + (if P x then 1 else 0)"
proof (induction xs arbitrary: i)
  case (Cons y ys)
  show ?case
  proof (cases i)
    case (Suc j)
    with Cons.prems Cons.IH [of j] show ?thesis by (auto split: if_splits)
  qed simp
qed simp

text \<open>A loop over the indices that returns in the first turn whose condition holds is a \<open>find\<close>.\<close>

lemma find_index_None: "find P [0..<n] = None \<longleftrightarrow> (\<forall>i < n. \<not> P i)"
  by (auto simp: find_None_iff)

lemma find_index_Some: "find P [0..<n] = Some k \<Longrightarrow> k < n \<and> P k \<and> (\<forall>i < k. \<not> P i)"
  by (auto simp: find_Some_iff)

section \<open>Words\<close>

lemma unat_add_fits:
  fixes a b :: "'w::len word"
  shows "unat a + unat b < 2 ^ LENGTH('w) \<Longrightarrow> unat (a + b) = unat a + unat b"
  by (simp add: unat_word_ariths)

lemma unat_add_below:
  fixes a b c :: "'w::len word"
  assumes "unat a + unat b \<le> unat c"
  shows "unat (a + b) = unat a + unat b"
proof (rule unat_add_fits)
  have "unat c < 2 ^ LENGTH('w)" by (rule unsigned_less)
  with assms show "unat a + unat b < 2 ^ LENGTH('w)" by linarith
qed

lemma unat_sub_le: "b \<le> a \<Longrightarrow> unat (a - b) = unat a - unat (b :: 'w::len word)"
  by (simp add: unat_sub)

lemma word_sum_guard:
  fixes a b :: "'w::len word"
  shows "a \<le> - 1 - b \<longleftrightarrow> unat a + unat b < 2 ^ LENGTH('w)"
proof -
  have "unat (- 1 - b) = 2 ^ LENGTH('w) - 1 - unat b"
    by (simp add: unat_sub unsigned_minus_1_eq_mask mask_eq_exp_minus_1)
  moreover have "unat b < 2 ^ LENGTH('w)" by (rule unsigned_less)
  ultimately show ?thesis unfolding word_le_nat_alt by linarith
qed

lemma unat_ucast_up:
  fixes x :: "'a::len word"
  assumes "LENGTH('a) \<le> LENGTH('b)"
  shows "unat (ucast x :: 'b::len word) = unat x"
proof -
  have "unat x < 2 ^ LENGTH('a)" by (rule unsigned_less)
  also have "(2::nat) ^ LENGTH('a) \<le> 2 ^ LENGTH('b)" using assms by (intro power_increasing) simp_all
  finally show ?thesis by (simp add: unsigned_ucast_eq take_bit_nat_eq_self)
qed

lemma unat_ucast_16_32 [simp]: "unat (ucast (x :: u16) :: u32) = unat x"
  by (rule unat_ucast_up) simp

lemma unat_ucast_8_16 [simp]: "unat (ucast (x :: u8) :: u16) = unat x"
  by (rule unat_ucast_up) simp

lemma unat_ucast_8_32 [simp]: "unat (ucast (x :: u8) :: u32) = unat x"
  by (rule unat_ucast_up) simp

lemma unat_ucast_32_64 [simp]: "unat (ucast (x :: u32) :: u64) = unat x"
  by (rule unat_ucast_up) simp

lemma ucast_16_32_eq_0 [simp]: "(ucast (x :: u16) :: u32) = 0 \<longleftrightarrow> x = 0"
  by (simp flip: unat_eq_0)

lemma unat_drop_1: "unat (drop_bit (Suc 0) w) = unat w div 2" for w :: "'a::len word"
  unfolding unat_drop_bit_eq by (simp add: drop_bit_eq_div)

lemma unat_of_nat_lt: "n < 2 ^ LENGTH('a) \<Longrightarrow> unat (of_nat n :: 'a::len word) = n"
  by (simp add: unat_of_nat take_bit_nat_eq_self)

lemma unat_inc: "c < - 1 \<Longrightarrow> unat (c + 1) = Suc (unat c)" for c :: "'a::len word"
proof -
  assume "c < - 1"
  then have "unat c + 1 \<le> unat (- 1 :: 'a word)" by (simp add: word_less_nat_alt Suc_le_eq)
  then show ?thesis using unat_add_below [of c 1 "- 1"] by simp
qed

lemma unat_dec: "0 < c \<Longrightarrow> unat (c - 1) = unat c - 1" for c :: "'a::len word"
  using unat_sub_le [of 1 c] by (simp add: word_le_nat_alt word_less_nat_alt)

lemma inc_not_zero: "c < - 1 \<Longrightarrow> c + 1 \<noteq> 0" for c :: "'a::len word"
  by (metis Zero_not_Suc unat_inc unsigned_0)

lemma unat_add_guard: "b \<le> - 1 - a \<Longrightarrow> unat (a + b) = unat a + unat b" for a b :: "'a::len word"
  unfolding word_sum_guard by (rule unat_add_fits) (simp only: add.commute)

text \<open>The check that a span of \<open>l\<close> bytes from \<open>a\<close> does not wrap around.\<close>

lemma span_guard: "\<not> (- 1 - a < l) \<longleftrightarrow> unat a + unat l < 2 ^ 32" for a l :: u32
proof -
  have "\<not> (- 1 - a < l) \<longleftrightarrow> l \<le> - 1 - a" by (rule not_less)
  also have "\<dots> \<longleftrightarrow> unat l + unat a < 2 ^ LENGTH(32)" by (rule word_sum_guard)
  finally show ?thesis by (simp only: add.commute len_num1 len_bit0 len_bit1) simp
qed

section \<open>Errors\<close>

text \<open>The error codes of ESP-IDF that the code tells apart; a driver may return others.\<close>

datatype esp_err = ESP_OK | ESP_ERR_INVALID_ARG | ESP_ERR_INVALID_STATE | ESP_ERR_NO_MEM | ESP_ERR_TIMEOUT | ESP_ERR_OTHER int

end
