(* ===== verification/Rpc_Crc.thy ===== *)
theory Rpc_Crc
  imports Prelude
begin

text \<open>
  The CRC-32 of the RPC record (\<open>esp32_mquickjs_rpc_crc32\<close> and its streaming form in
  \<open>esp32_mquickjs_rpc_wire.c\<close>): the bitwise shift register with the reflected polynomial
  \<open>0xedb88320\<close>.  The lemmas show that the register is linear and injective, that the
  streaming form composes, and that a burst of at most 32 corrupted bits is detected.
\<close>

section \<open>The shift register\<close>

text \<open>One turn of the inner loop over \<open>bit\<close>.\<close>

definition crc_bit :: "u32 \<Rightarrow> u32" where
  "crc_bit crc =
     (if crc AND 1 \<noteq> 0 then 0xedb88320 XOR drop_bit 1 crc else drop_bit 1 crc)"

fun crc_bits :: "nat \<Rightarrow> u32 \<Rightarrow> u32" where
  "crc_bits 0 crc = crc"
| "crc_bits (Suc n) crc = crc_bits n (crc_bit crc)"

definition crc_byte :: "u32 \<Rightarrow> u8 \<Rightarrow> u32" where
  "crc_byte crc b = crc_bits 8 (crc XOR ucast b)"

fun crc_loop :: "u32 \<Rightarrow> bytes \<Rightarrow> u32" where
  "crc_loop crc [] = crc"
| "crc_loop crc (b # bs) = crc_loop (crc_byte crc b) bs"

definition rpc_crc32_update :: "u32 \<Rightarrow> bytes option \<Rightarrow> nat \<Rightarrow> u32" where
  "rpc_crc32_update state data len =
     (if data = None \<and> len \<noteq> 0 then 0 else crc_loop state (bytes_at data len))"

definition rpc_crc32 :: "bytes option \<Rightarrow> nat \<Rightarrow> u32" where
  "rpc_crc32 data len = rpc_crc32_update 0xffffffff data len XOR 0xffffffff"

abbreviation crc32_of :: "bytes \<Rightarrow> u32" where
  "crc32_of bs \<equiv> rpc_crc32 (Some bs) (length bs)"

section \<open>Linearity and injectivity\<close>

lemma lsb_bit: "(c AND 1 \<noteq> 0) = bit c 0" for c :: u32
  by (simp add: and_one_eq odd_iff_mod_2_eq_one bit_0 flip: odd_iff_mod_2_eq_one)

lemma crc_bit_xor: "crc_bit (a XOR b) = crc_bit a XOR crc_bit b"
  unfolding crc_bit_def lsb_bit by (simp add: bit_xor_iff ac_simps)

lemma crc_bits_xor: "crc_bits n (a XOR b) = crc_bits n a XOR crc_bits n b"
  by (induction n arbitrary: a b) (simp_all add: crc_bit_xor)


lemma crc_bit_eq_0: "crc_bit x = 0 \<Longrightarrow> x = 0"
proof (cases "x AND 1 \<noteq> 0")
  case True
  assume "crc_bit x = 0"
  with True have "\<not> bit ((0xedb88320 :: u32) XOR drop_bit 1 x) 31"
    by (simp add: crc_bit_def)
  moreover have "bit (0xedb88320 :: u32) 31" by simp
  moreover have "\<not> bit (drop_bit 1 x) 31"
    by (auto simp: bit_drop_bit_eq dest: bit_imp_le_length)
  ultimately show "x = 0" by (simp add: bit_xor_iff)
next
  case False
  assume "crc_bit x = 0"
  with False have shift: "drop_bit 1 x = 0" and "take_bit 1 x = 0"
    by (simp_all add: crc_bit_def take_bit_Suc and_one_eq)
  then show "x = 0" using bits_ident [of 1 x] by simp
qed

lemma crc_bits_eq_0: "crc_bits n x = 0 \<Longrightarrow> x = 0"
  by (induction n arbitrary: x) (auto dest: crc_bit_eq_0)

lemma crc_bits_inject: "crc_bits n a = crc_bits n b \<longleftrightarrow> a = b"
proof
  assume "crc_bits n a = crc_bits n b"
  then have "crc_bits n (a XOR b) = 0" by (simp add: crc_bits_xor)
  then have "a XOR b = 0" by (rule crc_bits_eq_0)
  then have "(a XOR b) XOR b = b" by simp
  then show "a = b" by (simp add: xor.assoc)
qed simp

lemma xor_left_cancel: "s XOR a = s XOR b \<longleftrightarrow> a = (b :: 'w::len word)"
  by (metis xor.assoc xor.left_neutral xor_self_eq)

lemma xor_right_cancel: "a XOR s = b XOR s \<longleftrightarrow> a = (b :: 'w::len word)"
  by (metis xor.commute xor_left_cancel)

lemma crc_loop_inject: "crc_loop s bs = crc_loop t bs \<longleftrightarrow> s = t"
  by (induction bs arbitrary: s t) (auto simp: crc_byte_def crc_bits_inject xor_right_cancel)

text \<open>The streaming form: the register after \<open>xs @ ys\<close> is the one after \<open>ys\<close>, started
  from the register after \<open>xs\<close>.\<close>

lemma crc_loop_append: "crc_loop s (xs @ ys) = crc_loop (crc_loop s xs) ys"
  by (induction xs arbitrary: s) simp_all

section \<open>Bursts of up to four bytes\<close>

lemma crc_bits_shift: "take_bit n x = 0 \<Longrightarrow> crc_bits n x = drop_bit n x"
proof (induction n arbitrary: x)
  case (Suc n)
  from Suc.prems have low: "\<not> bit x 0"
    using bit_take_bit_iff [of "Suc n" x 0] by simp
  then have step: "crc_bit x = drop_bit 1 x"
    unfolding crc_bit_def lsb_bit by simp
  have "take_bit n (drop_bit 1 x) = drop_bit 1 (take_bit (Suc n) x)"
    by (simp add: drop_bit_take_bit)
  with Suc have "crc_bits n (drop_bit 1 x) = drop_bit n (drop_bit 1 x)" by simp
  then show ?case by (simp add: step)
qed simp

fun le_word :: "bytes \<Rightarrow> u32" where
  "le_word [] = 0"
| "le_word (b # bs) = ucast b XOR push_bit 8 (le_word bs)"

lemma le_word_high: "8 * length bs \<le> k \<Longrightarrow> \<not> bit (le_word bs) k"
proof (induction bs arbitrary: k)
  case (Cons b bs)
  have "\<not> bit (ucast b :: u32) k"
    using Cons.prems by (auto simp: bit_ucast_iff dest: bit_imp_le_length)
  moreover have "\<not> bit (push_bit 8 (le_word bs)) k"
    using Cons.prems Cons.IH [of "k - 8"] by (simp add: bit_push_bit_iff)
  ultimately show ?case by (simp add: bit_xor_iff)
qed simp

lemma crc_bits_8_push: "length bs \<le> 3 \<Longrightarrow> crc_bits 8 (push_bit 8 (le_word bs)) = le_word bs"
proof -
  assume len: "length bs \<le> 3"
  have "crc_bits 8 (push_bit 8 (le_word bs)) = drop_bit 8 (push_bit 8 (le_word bs))"
    by (rule crc_bits_shift) (simp add: take_bit_push_bit)
  also have "\<dots> = le_word bs"
  proof (rule bit_word_eqI)
    fix n assume "n < LENGTH(32)"
    have "\<not> bit (le_word bs) n" if "24 \<le> n"
      using that len by (intro le_word_high) simp
    with \<open>n < LENGTH(32)\<close>
    show "bit (drop_bit 8 (push_bit 8 (le_word bs))) n \<longleftrightarrow> bit (le_word bs) n"
      by (cases "24 \<le> n") (auto simp: bit_drop_bit_eq bit_push_bit_iff)
  qed
  finally show ?thesis .
qed

lemma crc_loop_le_word:
  "length bs \<le> 4 \<Longrightarrow> crc_loop s bs = crc_bits (8 * length bs) (s XOR le_word bs)"
proof (induction bs arbitrary: s)
  case (Cons b bs)
  have add: "crc_bits (m + n) x = crc_bits n (crc_bits m x)" for m n x
    by (induction m arbitrary: x) simp_all
  have "crc_loop s (b # bs) = crc_bits (8 * length bs) (crc_bits 8 (s XOR ucast b) XOR le_word bs)"
    using Cons by (simp add: crc_byte_def)
  also have "le_word bs = crc_bits 8 (push_bit 8 (le_word bs))"
    using Cons.prems by (simp add: crc_bits_8_push)
  finally have "crc_loop s (b # bs) = crc_bits (8 + 8 * length bs) (s XOR le_word (b # bs))"
    unfolding add crc_bits_xor [symmetric] by (simp only: le_word.simps xor.assoc)
  then show ?case by simp
qed simp

lemma le_word_inject:
  "length xs = length ys \<Longrightarrow> length ys \<le> 4 \<Longrightarrow> le_word xs = le_word ys \<Longrightarrow> xs = ys"
proof (induction xs ys rule: list_induct2)
  case (Cons x xs y ys)
  have low: "take_bit 8 (le_word (b # bs)) = (ucast b :: u32)" for b bs
    by (rule bit_word_eqI)
      (auto simp: bit_take_bit_iff bit_xor_iff bit_push_bit_iff bit_ucast_iff dest: bit_imp_le_length)
  have "x = y"
  proof -
    have "(ucast x :: u32) = ucast y" using Cons.prems(2) low by metis
    then have same: "bit (ucast x :: u32) n \<longleftrightarrow> bit (ucast y :: u32) n" for n by simp
    show ?thesis
    proof (rule bit_word_eqI)
      fix n assume "n < LENGTH(8)"
      then show "bit x n \<longleftrightarrow> bit y n" using same [of n] by (simp add: bit_ucast_iff)
    qed
  qed
  moreover from this Cons.prems(2) have "push_bit 8 (le_word xs) = push_bit 8 (le_word ys)"
    by (simp add: xor_left_cancel)
  then have "crc_bits 8 (push_bit 8 (le_word xs)) = crc_bits 8 (push_bit 8 (le_word ys))"
    by simp
  with Cons have "xs = ys" by (simp add: crc_bits_8_push)
  ultimately show ?case by simp
qed simp

lemma crc_loop_burst:
  assumes "length x = length y" "length y \<le> 4" "x \<noteq> y"
  shows "crc_loop s (p @ x @ q) \<noteq> crc_loop s (p @ y @ q)"
proof
  assume "crc_loop s (p @ x @ q) = crc_loop s (p @ y @ q)"
  then have "crc_loop (crc_loop s p) x = crc_loop (crc_loop s p) y"
    by (simp add: crc_loop_append crc_loop_inject)
  then have "le_word x = le_word y"
    using assms(1,2) by (simp add: crc_loop_le_word crc_bits_inject xor_left_cancel)
  with assms show False using le_word_inject by blast
qed


text \<open>The published check value of CRC-32: the bytes of \<open>123456789\<close>.\<close>

lemma crc_byte_unroll:
  "crc_byte crc b =
   crc_bit (crc_bit (crc_bit (crc_bit (crc_bit (crc_bit (crc_bit (crc_bit (crc XOR ucast b))))))))"
  by (simp add: crc_byte_def numeral_eq_Suc)

lemmas crc_eval = rpc_crc32_def rpc_crc32_update_def crc_byte_unroll crc_bit_def

lemma crc32_check_value:
  "rpc_crc32 (Some [0x31, 0x32, 0x33, 0x34, 0x35, 0x36, 0x37, 0x38, 0x39]) 9 = 0xcbf43926"
  by (simp add: crc_eval)


section \<open>Properties\<close>

text \<open>Any corruption confined to four consecutive bytes of a message changes its
  CRC-32, wherever it stands and however long the message is.\<close>

lemma rpc_crc32_detects_burst:
  assumes "length x = length y" "length y \<le> 4" "x \<noteq> y"
  shows "rpc_crc32 (Some (p @ x @ q)) (length (p @ x @ q)) \<noteq>
    rpc_crc32 (Some (p @ y @ q)) (length (p @ y @ q))"
  using crc_loop_burst [OF assms, of "0xffffffff" p q] assms(1)
  by (simp add: rpc_crc32_def rpc_crc32_update_def xor_right_cancel)

theorem rpc_crc32_detects_burst_witness:
  "rpc_crc32 (Some ([0x45, 0x51] @ [0x52, 0, 1, 0x50] @ [7])) 7 \<noteq>
   rpc_crc32 (Some ([0x45, 0x51] @ [0x50, 0, 1, 0x52] @ [7])) 7"
  using rpc_crc32_detects_burst [of "[0x52, 0, 1, 0x50]" "[0x50, 0, 1, 0x52]" "[0x45, 0x51]" "[7]"]
  by (simp add: numeral_eq_Suc)

end
