(* ===== verification/Frame_Codec.thy ===== *)
theory Frame_Codec
  imports Prelude
begin

text \<open>
  The interface between a record protocol on a byte stream and the byte stuffing below it:
  the client encodes into a buffer, delimits the frame with a zero byte, and decodes a
  received frame over itself.  \<open>encoded\<close> is the frame a record has; the laws are what the
  record protocol relies on.
\<close>

locale frame_codec =
  fixes encode_into :: "bytes \<Rightarrow> bytes \<Rightarrow> nat \<times> bytes"
    and decode_in_place :: "nat \<Rightarrow> bytes \<Rightarrow> nat \<times> bytes"
    and encoded :: "bytes \<Rightarrow> bytes"
    and overhead :: "nat \<Rightarrow> nat"
  assumes encode_fits: "length (encoded x) \<le> length out \<Longrightarrow>
      encode_into x out = (length (encoded x), encoded x @ drop (length (encoded x)) out)"
    and encode_too_long: "length out < length (encoded x) \<Longrightarrow> fst (encode_into x out) = 0"
    and decode_encoded: "length x \<le> cap \<Longrightarrow>
      fst (decode_in_place cap (encoded x)) = length x \<and>
      take (length x) (snd (decode_in_place cap (encoded x))) = x"
    and decode_length: "length (snd (decode_in_place cap f)) = length f \<or> fst (decode_in_place cap f) = 0"
    and decode_shrinks: "fst (decode_in_place cap f) \<le> length f"
    and encoded_no_zero: "0 \<notin> set (encoded x)"
    and encoded_not_Nil: "encoded x \<noteq> []"
    and encoded_length: "length (encoded x) \<le> length x + overhead (length x)"
begin

text \<open>The frame the encoder leaves in its buffer is the one the decoder turns back.\<close>

lemma encode_decode:
  assumes "encode_into x out = (n, out')" "n \<noteq> 0" "length x \<le> cap"
  shows "take n out' = encoded x"
    "fst (decode_in_place cap (take n out')) = length x"
    "take (length x) (snd (decode_in_place cap (take n out'))) = x"
proof -
  have "length (encoded x) \<le> length out"
    using assms(1,2) encode_too_long [of out x] by (cases "length out < length (encoded x)") auto
  from encode_fits [OF this] assms(1) show frame: "take n out' = encoded x" by auto
  show "fst (decode_in_place cap (take n out')) = length x"
    "take (length x) (snd (decode_in_place cap (take n out'))) = x"
    unfolding frame using decode_encoded [OF assms(3)] by simp_all
qed

text \<open>A zero byte ends a frame and never stands inside one, so a receiver that cuts the
  stream at the zeros finds the frames.\<close>

lemma cut_frame:
  "takeWhile (\<lambda>b. b \<noteq> 0) (encoded x @ 0 # rest) = encoded x"
  "dropWhile (\<lambda>b. b \<noteq> 0) (encoded x @ 0 # rest) = 0 # rest"
proof -
  have "\<forall>b \<in> set (encoded x). b \<noteq> 0" using encoded_no_zero by auto
  then show "takeWhile (\<lambda>b. b \<noteq> 0) (encoded x @ 0 # rest) = encoded x"
    "dropWhile (\<lambda>b. b \<noteq> 0) (encoded x @ 0 # rest) = 0 # rest"
    by simp_all
qed

text \<open>Two records with the same frame are equal.\<close>

lemma encoded_inject: "encoded x = encoded y \<longleftrightarrow> x = y"
proof
  assume eq: "encoded x = encoded y"
  define cap where "cap = max (length x) (length y)"
  have len: "length x \<le> cap" "length y \<le> cap" by (simp_all add: cap_def)
  note dec = decode_encoded [OF len(1)] decode_encoded [OF len(2), folded eq]
  from dec have "length x = length y" by simp
  with dec show "x = y" by metis
qed simp

end

end
