(* ===== verification/Rpc_Cobs.thy ===== *)
theory Rpc_Cobs
  imports Frame_Codec
begin

text \<open>
  Consistent overhead byte stuffing as \<open>esp32_mquickjs_rpc_wire.c\<close> codes it: the
  encoder that leaves a place for each block's code byte and patches it when the block
  ends, and the decoder, which the record decoder runs in place, its output over its
  input.  Both are shown to compute reference functions on lists, and the reference
  functions to be inverse to each other.
\<close>

section \<open>The encoder\<close>

text \<open>
  The loop's state: the rest of the input, \<open>write_index\<close>, \<open>code_index\<close>, \<open>code\<close> and the
  output buffer, whose length is \<open>output_capacity\<close>.  The result is the returned size (0
  on failure) and the buffer.
\<close>

fun cobs_encode_loop :: "bytes \<Rightarrow> nat \<Rightarrow> nat \<Rightarrow> u8 \<Rightarrow> bytes \<Rightarrow> nat \<times> bytes" where
  "cobs_encode_loop [] wi ci code out =
     (if ci \<ge> length out then (0, out) else (wi, out[ci := code]))"
| "cobs_encode_loop (b # bs) wi ci code out =
     (if b = 0 then
        if ci \<ge> length out then (0, out)
        else let out = out[ci := code]; ci = wi; wi = wi + 1 in
          if wi > length out then (0, out) else cobs_encode_loop bs wi ci 1 out
      else if wi \<ge> length out then (0, out)
      else let out = out[wi := b]; wi = wi + 1; code = code + 1 in
        if code = 0xff then
          if ci \<ge> length out then (0, out)
          else let out = out[ci := code]; ci = wi; wi = wi + 1 in
            if wi > length out then (0, out) else cobs_encode_loop bs wi ci 1 out
        else cobs_encode_loop bs wi ci code out)"

definition rpc_cobs_encode :: "bytes option \<Rightarrow> nat \<Rightarrow> bytes \<Rightarrow> nat \<times> bytes" where
  "rpc_cobs_encode input input_len out =
     (if (input = None \<and> input_len \<noteq> 0) \<or> length out = 0 then (0, out)
      else cobs_encode_loop (bytes_at input input_len) 1 0 1 out)"

text \<open>The reference: \<open>blk\<close> holds the bytes of the block not yet closed.\<close>

fun cobs_ref :: "bytes \<Rightarrow> bytes \<Rightarrow> bytes" where
  "cobs_ref blk [] = of_nat (Suc (length blk)) # blk"
| "cobs_ref blk (b # bs) =
     (if b = 0 then of_nat (Suc (length blk)) # blk @ cobs_ref [] bs
      else if length blk = 253 then 0xff # blk @ b # cobs_ref [] bs
      else cobs_ref (blk @ [b]) bs)"

abbreviation cobs_of :: "bytes \<Rightarrow> bytes" where
  "cobs_of \<equiv> cobs_ref []"

section \<open>The decoder\<close>

text \<open>
  One memory holds the input, at \<open>ip\<close>, and the output, at \<open>op\<close>, so that a call whose two
  pointers are equal is an instance.  The result is the returned size (0 on failure) and
  the memory.
\<close>

function cobs_decode_loop ::
  "nat \<Rightarrow> nat \<Rightarrow> nat \<Rightarrow> nat \<Rightarrow> bytes \<Rightarrow> nat \<Rightarrow> nat \<Rightarrow> nat \<times> bytes" where
  "cobs_decode_loop ip n op cap mem ri wi =
     (if ri < n then
        let code = mem ! (ip + ri); ri = ri + 1 in
        if code = 0 then (0, mem)
        else let copy_len = unat code - 1 in
          if copy_len > n - ri \<or> copy_len > cap - wi then (0, mem)
          else let mem = (if copy_len \<noteq> 0 then memmove mem (op + wi) (ip + ri) copy_len else mem);
                   ri = ri + copy_len; wi = wi + copy_len in
            if code \<noteq> 0xff \<and> ri < n then
              if wi \<ge> cap then (0, mem)
              else cobs_decode_loop ip n op cap (mem[op + wi := 0]) ri (wi + 1)
            else cobs_decode_loop ip n op cap mem ri wi
      else (wi, mem))"
  by pat_completeness auto
termination
  by (relation "measure (\<lambda>(ip, n, op, cap, mem, ri, wi). n - ri)") auto

declare cobs_decode_loop.simps [simp del]

definition rpc_cobs_decode :: "nat \<Rightarrow> nat \<Rightarrow> nat \<Rightarrow> nat \<Rightarrow> bytes \<Rightarrow> nat \<times> bytes" where
  "rpc_cobs_decode ip input_len op output_capacity mem =
     (if input_len = 0 then (0, mem)
      else cobs_decode_loop ip input_len op output_capacity mem 0 0)"

text \<open>The reference decoder on a list.\<close>

function cobs_dec :: "bytes \<Rightarrow> bytes option" where
  "cobs_dec [] = Some []"
| "cobs_dec (c # xs) =
     (if c = 0 then None
      else let k = unat c - 1 in
        if k > length xs then None
        else case cobs_dec (drop k xs) of
          None \<Rightarrow> None
        | Some ys \<Rightarrow>
            Some (take k xs @ (if c \<noteq> 0xff \<and> drop k xs \<noteq> [] then [0] else []) @ ys))"
  by pat_completeness auto
termination
  by (relation "measure length") auto


section \<open>The encoder computes the reference\<close>

lemma of_nat_eq_255: "n < 256 \<Longrightarrow> (of_nat n :: u8) = 0xff \<longleftrightarrow> n = 255"
  by (simp add: word_unat_eq_iff unat_of_nat)

lemma code_full: "length blk \<le> 253 \<Longrightarrow> (of_nat (Suc (length blk)) + 1 :: u8) = 0xff \<longleftrightarrow> length blk = 253"
  using of_nat_eq_255 [of "Suc (Suc (length blk))"] by (simp add: ac_simps)

lemma cobs_ref_longer: "length blk < length (cobs_ref blk bs)"
  by (induction blk bs rule: cobs_ref.induct) auto

lemma cobs_ref_not_Nil [simp]: "cobs_ref blk bs \<noteq> []"
  using cobs_ref_longer [of blk bs] by auto

lemma update_after: "(pre @ x # rest)[length pre := y] = pre @ y # rest"
  by (simp add: list_update_append)

lemma cobs_encode_loop_full:
  assumes "b \<noteq> 0" and code: "(of_nat (Suc (length blk)) + 1 :: u8) = 0xff"
  shows "cobs_encode_loop (b # bs) (Suc (length pre + length blk)) (length pre)
      (of_nat (Suc (length blk))) (pre @ x # blk @ y # z # rest) =
    cobs_encode_loop bs (Suc (length (pre @ 0xff # blk @ [b]))) (length (pre @ 0xff # blk @ [b]))
      1 ((pre @ 0xff # blk @ [b]) @ z # rest)"
proof -
  have "(pre @ x # blk @ y # z # rest)[Suc (length pre + length blk) := b] =
      pre @ x # blk @ b # z # rest"
    using update_after [of "pre @ x # blk" y "z # rest" b] by simp
  then show ?thesis
    using assms by (simp add: Let_def update_after del: of_nat_Suc)
qed

text \<open>
  The invariant: the buffer is \<open>pre\<close>, the place of the code byte, the open block and the
  unwritten rest.
\<close>

lemma cobs_encode_loop_success:
  assumes "length blk \<le> 253" and "length (cobs_ref blk bs) \<le> Suc (length blk + length rest)"
  shows "cobs_encode_loop bs (Suc (length pre + length blk)) (length pre)
      (of_nat (Suc (length blk))) (pre @ x # blk @ rest) =
    (length pre + length (cobs_ref blk bs),
     pre @ cobs_ref blk bs @ drop (length (cobs_ref blk bs) - Suc (length blk)) rest)"
  using assms
proof (induction bs arbitrary: blk pre x rest)
  case Nil
  then show ?case by (simp add: update_after)
next
  case (Cons b bs)
  have upd: "(pre @ x # blk @ rest)[length pre := c] = pre @ c # blk @ rest" for c
    by (simp add: update_after)
  show ?case
  proof (cases "b = 0")
    case True
    with Cons.prems obtain y rest' where rest: "rest = y # rest'"
      using cobs_ref_longer [of "[]" bs] by (cases rest) auto
    show ?thesis
      using Cons.IH [of "[]" rest' "pre @ of_nat (Suc (length blk)) # blk" y] Cons.prems True
      by (simp add: rest upd update_after drop_Cons')
  next
    case False
    from Cons.prems False obtain y rest' where rest: "rest = y # rest'"
      using cobs_ref_longer [of "[]" bs] cobs_ref_longer [of "blk @ [b]" bs]
      by (cases rest) (auto split: if_splits)
    have wr: "(pre @ x # blk @ rest)[Suc (length pre + length blk) := b] = pre @ x # (blk @ [b]) @ rest'"
      using update_after [of "pre @ x # blk" y rest' b] by (simp add: rest)
    show ?thesis
    proof (cases "length blk = 253")
      case full: True
      with Cons.prems False rest obtain z rest'' where rest': "rest' = z # rest''"
        using cobs_ref_longer [of "[]" bs] by (cases rest') auto
      have code: "(of_nat (Suc (length blk)) + 1 :: u8) = 0xff"
        using code_full [of blk] full by (simp del: of_nat_Suc)
      show ?thesis
        using Cons.IH [of "[]" rest'' "pre @ 0xff # blk @ [b]" z] Cons.prems False full
        unfolding rest rest' cobs_encode_loop_full [OF False code] by (simp add: drop_Cons')
    next
      case open_block: False
      have code: "(of_nat (Suc (length blk)) + 1 :: u8) = of_nat (Suc (length (blk @ [b])))"
        by simp
      have "(of_nat (Suc (length blk)) + 1 :: u8) \<noteq> 0xff"
        using code_full [of blk] open_block Cons.prems(1) by (simp del: of_nat_Suc)
      then show ?thesis
        using Cons.IH [of "blk @ [b]" rest' pre x] Cons.prems False open_block
          cobs_ref_longer [of "blk @ [b]" bs]
        by (simp add: wr [unfolded rest] rest code Let_def drop_Cons' del: of_nat_Suc)
    qed
  qed
qed


lemma cobs_encode_loop_failure:
  assumes "length blk \<le> 253" and "Suc (length blk + length rest) < length (cobs_ref blk bs)"
  shows "fst (cobs_encode_loop bs (Suc (length pre + length blk)) (length pre)
      (of_nat (Suc (length blk))) (pre @ x # blk @ rest)) = 0"
  using assms
proof (induction bs arbitrary: blk pre x rest)
  case Nil
  then show ?case by simp
next
  case (Cons b bs)
  have upd: "(pre @ x # blk @ rest)[length pre := c] = pre @ c # blk @ rest" for c
    by (simp add: update_after)
  show ?case
  proof (cases "rest")
    case Nil
    then show ?thesis by (simp add: Let_def)
  next
    case rest: (Cons y rest')
    show ?thesis
    proof (cases "b = 0")
      case True
      then show ?thesis
        using Cons.IH [of "[]" rest' "pre @ of_nat (Suc (length blk)) # blk" y] Cons.prems
        by (simp add: rest upd update_after)
    next
      case False
      have wr: "(pre @ x # blk @ y # rest')[Suc (length pre + length blk) := b] = pre @ x # (blk @ [b]) @ rest'"
        using update_after [of "pre @ x # blk" y rest' b] by simp
      show ?thesis
      proof (cases "length blk = 253")
        case full: True
        have code: "(of_nat (Suc (length blk)) + 1 :: u8) = 0xff"
          using code_full [of blk] full by (simp del: of_nat_Suc)
        show ?thesis
        proof (cases rest')
          case Nil
          with False full code show ?thesis by (simp add: rest Let_def wr del: of_nat_Suc)
        next
          case rest'': (Cons z rest'')
          then show ?thesis
            using Cons.IH [of "[]" rest'' "pre @ 0xff # blk @ [b]" z] Cons.prems False full
            unfolding rest rest'' cobs_encode_loop_full [OF False code] by simp
        qed
      next
        case open_block: False
        have code: "(of_nat (Suc (length blk)) + 1 :: u8) = of_nat (Suc (length (blk @ [b])))"
          by simp
        have "(of_nat (Suc (length blk)) + 1 :: u8) \<noteq> 0xff"
          using code_full [of blk] open_block Cons.prems(1) by (simp del: of_nat_Suc)
        then show ?thesis
          using Cons.IH [of "blk @ [b]" rest' pre x] Cons.prems False open_block
          by (simp add: wr rest code Let_def del: of_nat_Suc)
      qed
    qed
  qed
qed

lemma cobs_encode_result:
  assumes "input = Some bs" and "length out > 0"
  shows "rpc_cobs_encode input (length bs) out =
      (let n = length (cobs_of bs) in
        if n \<le> length out then (n, cobs_of bs @ drop n out)
        else (0, snd (rpc_cobs_encode input (length bs) out)))"
proof -
  obtain x rest where out: "out = x # rest" using assms(2) by (cases out) auto
  show ?thesis
  proof (cases "length (cobs_of bs) \<le> length out")
    case True
    then show ?thesis
      using cobs_encode_loop_success [of "[]" bs rest "[]" x] assms
      by (simp add: rpc_cobs_encode_def out Let_def drop_Cons')
  next
    case False
    then show ?thesis
      using cobs_encode_loop_failure [of "[]" rest bs "[]" x] assms
      by (simp add: rpc_cobs_encode_def out Let_def prod_eq_iff)
  qed
qed

section \<open>The reference codec\<close>

lemma cobs_ref_nonzero:
  "length blk \<le> 253 \<Longrightarrow> 0 \<notin> set blk \<Longrightarrow> 0 \<notin> set (cobs_ref blk bs)"
proof (induction blk bs rule: cobs_ref.induct)
  case (1 blk)
  then have "(of_nat (Suc (length blk)) :: u8) \<noteq> 0"
    by (simp add: word_unat_eq_iff unat_of_nat del: of_nat_Suc)
  with 1 show ?case by simp
next
  case (2 blk b bs)
  then have "(of_nat (Suc (length blk)) :: u8) \<noteq> 0"
    by (simp add: word_unat_eq_iff unat_of_nat del: of_nat_Suc)
  with 2 show ?case by auto
qed

lemma cobs_dec_block:
  assumes "length blk \<le> 253"
  shows "cobs_dec (of_nat (Suc (length blk)) # blk @ ys) =
    (case cobs_dec ys of None \<Rightarrow> None
     | Some zs \<Rightarrow> Some (blk @ (if ys \<noteq> [] then [0] else []) @ zs))"
proof -
  have "unat (of_nat (Suc (length blk)) :: u8) = Suc (length blk)"
    using assms by (simp add: unat_of_nat del: of_nat_Suc)
  moreover from this have "(of_nat (Suc (length blk)) :: u8) \<noteq> 0"
    by (metis nat.distinct(1) unat_0)
  moreover have "(of_nat (Suc (length blk)) :: u8) \<noteq> 0xff"
    using of_nat_eq_255 [of "Suc (length blk)"] assms by simp
  ultimately show ?thesis by (simp add: Let_def del: of_nat_Suc split: option.split)
qed

lemma cobs_dec_full_block:
  assumes "length blk = 254"
  shows "cobs_dec (0xff # blk @ ys) = map_option ((@) blk) (cobs_dec ys)"
  using assms by (simp add: Let_def split: option.split)

lemma cobs_dec_ref:
  "length blk \<le> 253 \<Longrightarrow> cobs_dec (cobs_ref blk bs) = Some (blk @ bs)"
proof (induction blk bs rule: cobs_ref.induct)
  case (1 blk)
  then show ?case using cobs_dec_block [of blk "[]"] by simp
next
  case (2 blk b bs)
  show ?case
  proof (cases "b = 0")
    case True
    with 2 show ?thesis by (simp add: cobs_dec_block del: of_nat_Suc cobs_dec.simps)
  next
    case False
    show ?thesis
    proof (cases "length blk = 253")
      case True
      with False 2 show ?thesis
        using cobs_dec_full_block [of "blk @ [b]" "cobs_ref [] bs"] by (simp del: cobs_dec.simps)
    next
      case False
      with \<open>b \<noteq> 0\<close> 2 show ?thesis by simp
    qed
  qed
qed

text \<open>The overhead: one code byte for each started run of 254 bytes.\<close>

lemma cobs_ref_length:
  "length blk \<le> 253 \<Longrightarrow>
   length (cobs_ref blk bs) \<le> length blk + length bs + 1 + (length blk + length bs) div 254"
proof (induction blk bs rule: cobs_ref.induct)
  case (2 blk b bs)
  show ?case
  proof (cases "b = 0")
    case True
    with 2 have "length (cobs_ref [] bs) \<le> length bs + 1 + length bs div 254" by simp
    moreover have "length bs div 254 \<le> (length blk + Suc (length bs)) div 254"
      by (rule div_le_mono) simp
    ultimately show ?thesis using True by simp
  next
    case False
    show ?thesis
    proof (cases "length blk = 253")
      case True
      with False 2 have "length (cobs_ref [] bs) \<le> length bs + 1 + length bs div 254" by simp
      with True False show ?thesis by simp
    next
      case False
      with \<open>b \<noteq> 0\<close> 2 show ?thesis by simp
    qed
  qed
qed simp


section \<open>The decoder computes the reference, in place too\<close>

lemma cobs_dec_Cons_map:
  assumes "c \<noteq> 0" "unat c - 1 = k" "k \<le> length xs"
  shows "cobs_dec (c # xs) =
    map_option ((@) (take k xs @ (if c \<noteq> 0xff \<and> drop k xs \<noteq> [] then [0] else [])))
      (cobs_dec (drop k xs))"
proof -
  have "cobs_dec (c # xs) =
      (case cobs_dec (drop k xs) of None \<Rightarrow> None
       | Some ys \<Rightarrow> Some (take k xs @ (if c \<noteq> 0xff \<and> drop k xs \<noteq> [] then [0] else []) @ ys))"
    using assms(1,3) unfolding assms(2) [symmetric] cobs_dec.simps(2) Let_def by simp
  then show ?thesis by (cases "cobs_dec (drop k xs)") simp_all
qed

lemma cobs_dec_length: "cobs_dec xs = Some ys \<Longrightarrow> length ys \<le> length xs - 1"
proof (induction xs arbitrary: ys rule: cobs_dec.induct)
  case (2 c xs)
  let ?k = "unat c - 1"
  from 2(2) have c: "c \<noteq> 0" and k: "?k \<le> length xs"
    by (auto split: if_splits simp: Let_def)
  from 2(2) c k obtain zs where zs: "cobs_dec (drop ?k xs) = Some zs"
    and ys: "ys = take ?k xs @ (if c \<noteq> 0xff \<and> drop ?k xs \<noteq> [] then [0] else []) @ zs"
    by (auto simp: Let_def split: option.splits)
  have "length zs \<le> length (drop ?k xs) - 1"
    using 2(1) [OF c refl _ zs] k by simp
  then show ?case using k unfolding ys by (cases "drop ?k xs = []") auto
qed simp

text \<open>
  What the input still holds from \<open>ri\<close> on.  The output may lie over the part already
  read (\<open>op \<le> ip\<close>, with \<open>wi \<le> ri\<close>) or behind the whole input.
\<close>

definition cobs_layout :: "nat \<Rightarrow> nat \<Rightarrow> nat \<Rightarrow> nat \<Rightarrow> bytes \<Rightarrow> nat \<Rightarrow> nat \<Rightarrow> bool" where
  "cobs_layout ip n op cap mem ri wi \<longleftrightarrow>
     ri \<le> n \<and> wi \<le> cap \<and> ip + n \<le> length mem \<and>
     (op \<le> ip \<and> wi \<le> ri \<or> ip + n \<le> op \<and> op + cap \<le> length mem)"

definition cobs_rest :: "nat \<Rightarrow> nat \<Rightarrow> bytes \<Rightarrow> nat \<Rightarrow> bytes" where
  "cobs_rest ip n mem ri = take (n - ri) (drop (ip + ri) mem)"

lemma cobs_rest_Cons:
  assumes "cobs_layout ip n op cap mem ri wi" "ri < n"
  shows "cobs_rest ip n mem ri = mem ! (ip + ri) # cobs_rest ip n mem (Suc ri)"
proof -
  have "drop (ip + ri) mem = mem ! (ip + ri) # drop (Suc (ip + ri)) mem"
    using assms by (intro Cons_nth_drop_Suc [symmetric]) (auto simp: cobs_layout_def)
  moreover have "n - ri = Suc (n - Suc ri)" using assms(2) by simp
  ultimately show ?thesis by (simp add: cobs_rest_def)
qed

lemma length_cobs_rest: "cobs_layout ip n op cap mem ri wi \<Longrightarrow> length (cobs_rest ip n mem ri) = n - ri"
  by (auto simp: cobs_layout_def cobs_rest_def)

text \<open>Copying a block keeps the layout and the unread input, and appends to the output.\<close>

lemma cobs_copy:
  assumes lay: "cobs_layout ip n op cap mem (Suc ri) wi" and "k \<le> n - Suc ri" "k \<le> cap - wi"
    and wi: "op \<le> ip \<longrightarrow> wi \<le> ri"
    and m: "mem' = (if k \<noteq> 0 then memmove mem (op + wi) (ip + Suc ri) k else mem)"
  shows "cobs_layout ip n op cap mem' (Suc ri + k) (wi + k)"
    "length mem' = length mem"
    "cobs_rest ip n mem' (Suc ri + k) = drop k (cobs_rest ip n mem (Suc ri))"
    "take (op + wi + k) mem' = take (op + wi) mem @ take k (cobs_rest ip n mem (Suc ri))"
    "op \<le> ip \<longrightarrow> wi + k < Suc ri + k"
proof -
  have src: "ip + Suc ri + k \<le> length mem" and dst: "op + wi + k \<le> length mem"
    using lay assms(2,3) wi by (auto simp: cobs_layout_def)
  have mm: "mem' = memmove mem (op + wi) (ip + Suc ri) k"
    using m src dst by (auto simp: memmove_def)
  show len: "length mem' = length mem"
    unfolding mm using src dst by simp
  show "cobs_layout ip n op cap mem' (Suc ri + k) (wi + k)"
    using lay assms(2,3) wi len by (auto simp: cobs_layout_def)
  show "take (op + wi + k) mem' = take (op + wi) mem @ take k (cobs_rest ip n mem (Suc ri))"
    unfolding mm cobs_rest_def using take_memmove_end [of "op + wi" mem "ip + Suc ri" k] src dst assms(2)
    by (simp add: min_def)
  show "op \<le> ip \<longrightarrow> wi + k < Suc ri + k" using wi by auto
  have "take (n - (Suc ri + k)) (drop (ip + (Suc ri + k)) mem') =
      take (n - (Suc ri + k)) (drop (ip + (Suc ri + k)) mem)"
  proof (cases "op \<le> ip")
    case True
    then show ?thesis
      unfolding mm using drop_memmove [of "op + wi" k "ip + (Suc ri + k)" mem "ip + Suc ri"] src dst wi
      by simp
  next
    case False
    then have above: "ip + n \<le> op" using lay by (auto simp: cobs_layout_def)
    have "take (ip + n) mem' = take (ip + n) mem"
      unfolding mm using above dst by (simp add: take_memmove)
    then have "drop (ip + (Suc ri + k)) (take (ip + n) mem') = drop (ip + (Suc ri + k)) (take (ip + n) mem)"
      by simp
    then show ?thesis by (simp add: drop_take)
  qed
  then show "cobs_rest ip n mem' (Suc ri + k) = drop k (cobs_rest ip n mem (Suc ri))"
    unfolding cobs_rest_def by (simp add: drop_take ac_simps)
qed

text \<open>Writing the zero between two blocks.\<close>

lemma cobs_put_zero:
  assumes lay: "cobs_layout ip n op cap mem ri wi" and "wi < cap" and wi: "op \<le> ip \<longrightarrow> wi < ri"
  shows "cobs_layout ip n op cap (mem[op + wi := 0]) ri (Suc wi)"
    "cobs_rest ip n (mem[op + wi := 0]) ri = cobs_rest ip n mem ri"
    "take (op + Suc wi) (mem[op + wi := 0]) = take (op + wi) mem @ [0]"
proof -
  have dst: "op + wi < length mem"
    using lay assms(2) wi by (auto simp: cobs_layout_def)
  show "cobs_layout ip n op cap (mem[op + wi := 0]) ri (Suc wi)"
    using lay assms(2) wi by (auto simp: cobs_layout_def)
  show "take (op + Suc wi) (mem[op + wi := 0]) = take (op + wi) mem @ [0]"
    using take_update_last [OF dst, of 0] by simp
  show "cobs_rest ip n (mem[op + wi := 0]) ri = cobs_rest ip n mem ri"
  proof (cases "op \<le> ip")
    case True
    then show ?thesis using wi by (simp add: cobs_rest_def drop_update_cancel)
  next
    case False
    then have "ip + n \<le> op" using lay by (auto simp: cobs_layout_def)
    then have "take (ip + n) (mem[op + wi := 0]) = take (ip + n) mem"
      by (simp add: take_update_cancel)
    then have "drop (ip + ri) (take (ip + n) (mem[op + wi := 0])) = drop (ip + ri) (take (ip + n) mem)"
      by simp
    then show ?thesis by (simp add: cobs_rest_def drop_take)
  qed
qed


definition decodes_to :: "nat \<Rightarrow> nat \<Rightarrow> bytes \<Rightarrow> nat \<Rightarrow> bytes option \<Rightarrow> nat \<times> bytes \<Rightarrow> bool" where
  "decodes_to op cap mem wi spec res \<longleftrightarrow>
     (case spec of None \<Rightarrow> fst res = 0
      | Some ys \<Rightarrow>
          if length ys \<le> cap - wi
          then fst res = wi + length ys \<and> length (snd res) = length mem \<and>
            take (op + wi + length ys) (snd res) = take (op + wi) mem @ ys
          else fst res = 0)"

lemma decodes_to_step:
  assumes "decodes_to op cap mem' (wi + length zs) (cobs_dec rest) res"
    and "length mem' = length mem"
    and "take (op + wi + length zs) mem' = take (op + wi) mem @ zs"
    and "length zs \<le> cap - wi" "wi \<le> cap"
  shows "decodes_to op cap mem wi (map_option ((@) zs) (cobs_dec rest)) res"
  using assms by (auto simp: decodes_to_def ac_simps split: option.splits if_splits)

lemma cobs_decode_loop_ref:
  assumes "cobs_layout ip n op cap mem ri wi"
  shows "decodes_to op cap mem wi (cobs_dec (cobs_rest ip n mem ri))
    (cobs_decode_loop ip n op cap mem ri wi)"
  using assms
proof (induction "n - ri" arbitrary: mem ri wi rule: less_induct)
  case less
  note unfold = cobs_decode_loop.simps [of ip n op cap mem ri wi]
  show ?case
  proof (cases "ri < n")
    case False
    then show ?thesis by (simp add: unfold cobs_rest_def decodes_to_def)
  next
    case more: True
    define c where "c = mem ! (ip + ri)"
    define k where "k = unat c - 1"
    have keq: "unat c - Suc 0 = k" by (simp add: k_def)
    define rest where "rest = cobs_rest ip n mem (Suc ri)"
    have spec: "cobs_rest ip n mem ri = c # rest"
      unfolding c_def rest_def by (rule cobs_rest_Cons [OF less.prems more])
    have lay1: "cobs_layout ip n op cap mem (Suc ri) wi"
      using less.prems more by (auto simp: cobs_layout_def)
    have wi: "op \<le> ip \<longrightarrow> wi \<le> ri" "wi \<le> cap"
      using less.prems more by (auto simp: cobs_layout_def)
    have len: "length rest = n - Suc ri" unfolding rest_def by (rule length_cobs_rest [OF lay1])
    show ?thesis
    proof (cases "c = 0 \<or> k > n - Suc ri \<or> k > cap - wi")
      case True
      then have "fst (cobs_decode_loop ip n op cap mem ri wi) = 0"
        using more by (cases "c = 0") (simp_all add: unfold Let_def c_def [symmetric] keq)
      with True show ?thesis
        unfolding spec using len by (auto simp: decodes_to_def Let_def keq split: option.splits)
    next
      case False
      then have c: "c \<noteq> 0" and kn: "k \<le> n - Suc ri" "k \<le> cap - wi" by auto
      define mem1 where "mem1 = (if k \<noteq> 0 then memmove mem (op + wi) (ip + Suc ri) k else mem)"
      note copy = cobs_copy [OF lay1 kn wi(1) mem1_def, folded rest_def]
      have tk: "length (take k rest) = k" using len kn(1) by simp
      have dec: "cobs_dec (cobs_rest ip n mem ri) =
          map_option ((@) (take k rest @ (if c \<noteq> 0xff \<and> Suc ri + k < n then [0] else [])))
            (cobs_dec (drop k rest))"
      proof -
        have "drop k rest \<noteq> [] \<longleftrightarrow> Suc ri + k < n" using len kn(1) by auto
        then show ?thesis
          using cobs_dec_Cons_map [OF c k_def [symmetric], of rest] kn(1) len unfolding spec
          by (simp del: cobs_dec.simps)
      qed
      have run: "cobs_decode_loop ip n op cap mem ri wi =
          (if c \<noteq> 0xff \<and> Suc ri + k < n then
             if wi + k \<ge> cap then (0, mem1)
             else cobs_decode_loop ip n op cap (mem1[op + (wi + k) := 0]) (Suc ri + k) (Suc (wi + k))
           else cobs_decode_loop ip n op cap mem1 (Suc ri + k) (wi + k))"
        using more c kn by (simp add: unfold Let_def c_def [symmetric] keq mem1_def)
      consider "c \<noteq> 0xff \<and> Suc ri + k < n" "wi + k < cap" | "c \<noteq> 0xff \<and> Suc ri + k < n" "wi + k \<ge> cap"
        | "\<not> (c \<noteq> 0xff \<and> Suc ri + k < n)" by linarith
      then show ?thesis
      proof cases
        case 1
        note put = cobs_put_zero [OF copy(1) 1(2) copy(5)]
        let ?mem2 = "mem1[op + (wi + k) := 0]"
        have "decodes_to op cap ?mem2 (Suc (wi + k)) (cobs_dec (drop k rest))
            (cobs_decode_loop ip n op cap ?mem2 (Suc ri + k) (Suc (wi + k)))"
          using less.hyps [OF _ put(1)] more unfolding put(2) copy(3) by simp
        moreover have "take (op + wi + length (take k rest @ [0])) ?mem2 =
            take (op + wi) mem @ take k rest @ [0]"
          using put(3) copy(4) tk by (simp add: ac_simps)
        ultimately show ?thesis
          unfolding dec run if_P [OF 1(1)] using 1(2) copy(2) tk wi(2)
          by (intro decodes_to_step [where mem' = ?mem2]) auto
      next
        case 2
        then show ?thesis
          unfolding dec run using tk by (auto simp: decodes_to_def split: option.splits)
      next
        case 3
        have "decodes_to op cap mem1 (wi + k) (cobs_dec (drop k rest))
            (cobs_decode_loop ip n op cap mem1 (Suc ri + k) (wi + k))"
          using less.hyps [OF _ copy(1)] more unfolding copy(3) by simp
        then show ?thesis
          unfolding dec run if_not_P [OF 3] using copy(2,4) tk kn wi
          by (intro decodes_to_step [where mem' = mem1]) simp_all
      qed
    qed
  qed
qed


lemma cobs_encode_fits:
  "length (cobs_of bs) \<le> length out \<Longrightarrow>
   rpc_cobs_encode (Some bs) (length bs) out = (length (cobs_of bs), cobs_of bs @ drop (length (cobs_of bs)) out)"
  using cobs_encode_result [of "Some bs" bs out] by (cases "length out = 0") (simp_all add: Let_def)

lemma cobs_encode_too_long:
  "length out < length (cobs_of bs) \<Longrightarrow> fst (rpc_cobs_encode (Some bs) (length bs) out) = 0"
proof (cases "length out = 0")
  case True
  then show ?thesis by (simp add: rpc_cobs_encode_def)
next
  case False
  assume "length out < length (cobs_of bs)"
  with False show ?thesis
    using cobs_encode_result [of "Some bs" bs out] by (simp add: Let_def) (metis fst_conv)
qed

lemma cobs_decode_ref:
  assumes "ip + n \<le> length mem" "op \<le> ip \<or> ip + n \<le> op \<and> op + cap \<le> length mem"
  shows "decodes_to op cap mem 0 (cobs_dec (take n (drop ip mem))) (rpc_cobs_decode ip n op cap mem)"
proof (cases "n = 0")
  case True
  then show ?thesis by (simp add: rpc_cobs_decode_def decodes_to_def)
next
  case False
  have "cobs_layout ip n op cap mem 0 0" using assms by (auto simp: cobs_layout_def)
  from cobs_decode_loop_ref [OF this] False show ?thesis
    by (simp add: rpc_cobs_decode_def cobs_rest_def)
qed

lemma cobs_decode_in_place:
  "decodes_to 0 cap f 0 (cobs_dec f) (rpc_cobs_decode 0 (length f) 0 cap f)"
  using cobs_decode_ref [of 0 "length f" f 0 cap] by simp

interpretation cobs: frame_codec
  "\<lambda>x out. rpc_cobs_encode (Some x) (length x) out"
  "\<lambda>cap f. rpc_cobs_decode 0 (length f) 0 cap f"
  cobs_of "\<lambda>n. 1 + n div 254"
proof unfold_locales
  fix x :: bytes and cap :: nat
  assume "length x \<le> cap"
  then show "fst (rpc_cobs_decode 0 (length (cobs_of x)) 0 cap (cobs_of x)) = length x \<and>
      take (length x) (snd (rpc_cobs_decode 0 (length (cobs_of x)) 0 cap (cobs_of x))) = x"
    using cobs_decode_in_place [of cap "cobs_of x"] cobs_dec_ref [of "[]" x] by (simp add: decodes_to_def)
next
  fix f :: bytes and cap :: nat
  show "length (snd (rpc_cobs_decode 0 (length f) 0 cap f)) = length f \<or>
      fst (rpc_cobs_decode 0 (length f) 0 cap f) = 0"
    using cobs_decode_in_place [of cap f] by (auto simp: decodes_to_def split: option.splits if_splits)
  show "fst (rpc_cobs_decode 0 (length f) 0 cap f) \<le> length f"
    using cobs_decode_in_place [of cap f] cobs_dec_length [of f]
    by (fastforce simp: decodes_to_def split: option.splits if_splits)
next
  fix x :: bytes
  show "length (cobs_of x) \<le> length x + (1 + length x div 254)"
    using cobs_ref_length [of "[]" x] by simp
qed (simp_all add: cobs_encode_fits cobs_encode_too_long cobs_ref_nonzero)

section \<open>Properties\<close>

text \<open>The in-place patching encoder computes the reference encoding, and returns 0
  exactly when the encoding is longer than the buffer.\<close>

lemma rpc_cobs_encode_refines:
  "if length (cobs_of bs) \<le> length out
   then rpc_cobs_encode (Some bs) (length bs) out =
     (length (cobs_of bs), cobs_of bs @ drop (length (cobs_of bs)) out)
   else fst (rpc_cobs_encode (Some bs) (length bs) out) = 0"
  using cobs_encode_fits cobs_encode_too_long by (simp add: not_le)

text \<open>C32: decoding, over the input itself or into a buffer behind it, yields the reference
  decoding of whatever bytes came in: size 0 for an invalid frame or one that does not fit,
  and otherwise the decoded bytes at the output, with the bytes before the output kept.\<close>

theorem rpc_cobs_decode_refines:
  assumes "ip + n \<le> length mem" "op \<le> ip \<or> ip + n \<le> op \<and> op + cap \<le> length mem"
    and "rpc_cobs_decode ip n op cap mem = (m, mem')"
  shows "case cobs_dec (take n (drop ip mem)) of None \<Rightarrow> m = 0
    | Some ys \<Rightarrow> if length ys \<le> cap
        then m = length ys \<and> length mem' = length mem \<and> take (op + m) mem' = take op mem @ ys
        else m = 0"
  using cobs_decode_ref [OF assms(1,2)] assms(3) by (auto simp: decodes_to_def split: option.split)

theorem rpc_cobs_decode_refines_witness:
  "case cobs_dec (take 3 (drop 0 [3, 7, 9, 1])) of None \<Rightarrow> fst (rpc_cobs_decode 0 3 0 8 [3, 7, 9, 1]) = 0
   | Some ys \<Rightarrow> if length ys \<le> 8
       then fst (rpc_cobs_decode 0 3 0 8 [3, 7, 9, 1]) = length ys \<and>
         length (snd (rpc_cobs_decode 0 3 0 8 [3, 7, 9, 1])) = length [3, 7, 9, 1 :: u8] \<and>
         take (0 + fst (rpc_cobs_decode 0 3 0 8 [3, 7, 9, 1])) (snd (rpc_cobs_decode 0 3 0 8 [3, 7, 9, 1])) =
           take 0 [3, 7, 9, 1] @ ys
       else fst (rpc_cobs_decode 0 3 0 8 [3, 7, 9, 1]) = 0"
  by (rule rpc_cobs_decode_refines) simp_all

text \<open>C27: a non-empty record encoded into any buffer it fits and decoded over itself comes
  back; its frame has no zero byte and costs one byte plus one for each 254 of the record.\<close>

theorem rpc_cobs_roundtrip:
  assumes "rpc_cobs_encode (Some bs) (length bs) out = (n, out')" "n \<noteq> 0" "length bs \<le> cap"
  shows "0 \<notin> set (take n out') \<and> n \<le> length bs + 1 + length bs div 254 \<and>
    fst (rpc_cobs_decode 0 n 0 cap (take n out')) = length bs \<and>
    take (length bs) (snd (rpc_cobs_decode 0 n 0 cap (take n out'))) = bs"
proof -
  note frame = cobs.encode_decode [OF assms]
  have n: "n = length (take n out')"
    using assms(1,2) cobs_encode_fits [of bs out] cobs_encode_too_long [of out bs]
    by (cases "length (cobs_of bs) \<le> length out") auto
  have "0 \<notin> set (take n out')" unfolding frame(1) by (rule cobs.encoded_no_zero)
  moreover have "n \<le> length bs + 1 + length bs div 254"
    using cobs.encoded_length [of bs] n frame(1) by simp
  ultimately show ?thesis
    using frame(2,3) n by simp
qed

theorem rpc_cobs_roundtrip_witness:
  "fst (rpc_cobs_decode 0 5 0 8 [2, 7, 1, 2, 9]) = length [7, 0, 0, 9 :: u8] \<and>
   take (length [7, 0, 0, 9 :: u8]) (snd (rpc_cobs_decode 0 5 0 8 [2, 7, 1, 2, 9])) = [7, 0, 0, 9]"
proof -
  have enc: "rpc_cobs_encode (Some [7, 0, 0, 9]) (length [7, 0, 0, 9 :: u8]) [1, 1, 1, 1, 1, 1] =
      (5, [2, 7, 1, 2, 9, 1])"
    by (simp add: rpc_cobs_encode_def Let_def)
  show ?thesis
    using rpc_cobs_roundtrip [OF enc, of 8] by simp
qed

end
