(* ===== verification/Rpc_Wire.thy ===== *)
theory Rpc_Wire
  imports Rpc_Crc Rpc_Cobs
begin

text \<open>
  The segment format of the RPC wire (\<open>esp32_mquickjs_rpc_wire.c\<close>): big-endian fields, the
  header rules of \<open>flags_valid\<close>, the encoder of one segment, and the loop of
  \<open>RPCCodec.encode()\<close> (\<open>esp32_mquickjs_rpc.c\<close>) that cuts a payload into segments.
\<close>

section \<open>Big-endian fields\<close>

definition write_u16be :: "u16 \<Rightarrow> bytes" where
  "write_u16be v = [ucast (drop_bit 8 v), ucast v]"

definition write_u32be :: "u32 \<Rightarrow> bytes" where
  "write_u32be v = [ucast (drop_bit 24 v), ucast (drop_bit 16 v), ucast (drop_bit 8 v), ucast v]"

definition read_u16be :: "bytes \<Rightarrow> nat \<Rightarrow> u16" where
  "read_u16be data i = push_bit 8 (ucast (data ! i)) OR ucast (data ! (i + 1))"

definition read_u32be :: "bytes \<Rightarrow> nat \<Rightarrow> u32" where
  "read_u32be data i =
     push_bit 24 (ucast (data ! i)) OR push_bit 16 (ucast (data ! (i + 1))) OR
     push_bit 8 (ucast (data ! (i + 2))) OR ucast (data ! (i + 3))"

lemma length_write_be [simp]: "length (write_u16be v) = 2" "length (write_u32be w) = 4"
  by (simp_all add: write_u16be_def write_u32be_def)

lemma read_write_u16be: "read_u16be (pre @ write_u16be v @ rest) (length pre) = v"
proof -
  have "push_bit 8 (ucast (ucast (drop_bit 8 v) :: u8)) OR ucast (ucast v :: u8) = v"
    by (rule bit_word_eqI)
      (auto simp: bit_or_iff bit_push_bit_iff bit_ucast_iff bit_drop_bit_eq dest: bit_imp_le_length)
  then show ?thesis
    by (simp add: read_u16be_def write_u16be_def nth_append)
qed

lemma read_write_u32be: "read_u32be (pre @ write_u32be v @ rest) (length pre) = v"
proof -
  let ?w = "push_bit 24 (ucast (ucast (drop_bit 24 v) :: u8)) OR
      push_bit 16 (ucast (ucast (drop_bit 16 v) :: u8)) OR
      push_bit 8 (ucast (ucast (drop_bit 8 v) :: u8)) OR ucast (ucast v :: u8) :: u32"
  have "?w = v"
  proof (rule bit_word_eqI)
    fix n assume n: "n < LENGTH(32)"
    consider "n < 8" | "8 \<le> n" "n < 16" | "16 \<le> n" "n < 24" | "24 \<le> n" by linarith
    then show "bit ?w n \<longleftrightarrow> bit v n"
      using n by cases (auto simp: bit_or_iff bit_push_bit_iff bit_ucast_iff bit_drop_bit_eq)
  qed
  then show ?thesis
    by (simp add: read_u32be_def write_u32be_def nth_append)
qed

section \<open>Header rules\<close>

definition RPC_HEADER_BYTES :: nat where "RPC_HEADER_BYTES = 24"
definition RPC_CRC_BYTES :: nat where "RPC_CRC_BYTES = 4"
definition RPC_SEGMENT_BYTES :: nat where "RPC_SEGMENT_BYTES = 7680"
definition RPC_MESSAGE_BYTES :: u32 where "RPC_MESSAGE_BYTES = 65536"
definition RPC_STREAM_BYTES :: u32 where "RPC_STREAM_BYTES = 32 * 1024 * 1024"
definition RPC_STREAM_PREFIX_BYTES :: u32 where "RPC_STREAM_PREFIX_BYTES = 65535"
definition RPC_MAX_RECORD_BYTES :: nat where
  "RPC_MAX_RECORD_BYTES = RPC_HEADER_BYTES + RPC_SEGMENT_BYTES + RPC_CRC_BYTES"
definition RPC_MAX_FRAME_BYTES :: nat where
  "RPC_MAX_FRAME_BYTES = RPC_MAX_RECORD_BYTES + RPC_MAX_RECORD_BYTES div 254 + 2"

lemmas rpc_sizes = RPC_HEADER_BYTES_def RPC_CRC_BYTES_def RPC_SEGMENT_BYTES_def
  RPC_MESSAGE_BYTES_def RPC_STREAM_BYTES_def RPC_STREAM_PREFIX_BYTES_def
  RPC_MAX_RECORD_BYTES_def RPC_MAX_FRAME_BYTES_def

definition FLAG_FIRST :: u8 where "FLAG_FIRST = 0x01"
definition FLAG_LAST :: u8 where "FLAG_LAST = 0x02"
definition FLAG_RESPONSE :: u8 where "FLAG_RESPONSE = 0x04"
definition FLAG_ERROR :: u8 where "FLAG_ERROR = 0x08"
definition FLAG_STREAM :: u8 where "FLAG_STREAM = 0x10"
definition FLAG_MASK :: u8 where "FLAG_MASK = 0x1f"

lemmas rpc_flags = FLAG_FIRST_def FLAG_LAST_def FLAG_RESPONSE_def FLAG_ERROR_def
  FLAG_STREAM_def FLAG_MASK_def

datatype wire_error =
  WIRE_OK | WIRE_INVALID_ARGUMENT | WIRE_OUT_OF_MEMORY | WIRE_FRAME_TOO_LARGE
  | WIRE_COBS_INVALID | WIRE_HEADER_INVALID | WIRE_CRC_INVALID | WIRE_SEGMENT_INVALID
  | WIRE_INTERLEAVED | WIRE_TIMEOUT | WIRE_STREAM_FAILED

fun rpc_wire_error_name :: "wire_error \<Rightarrow> string" where
  "rpc_wire_error_name WIRE_OK = ''OK''"
| "rpc_wire_error_name WIRE_INVALID_ARGUMENT = ''INVALID_ARGUMENT''"
| "rpc_wire_error_name WIRE_OUT_OF_MEMORY = ''OUT_OF_MEMORY''"
| "rpc_wire_error_name WIRE_FRAME_TOO_LARGE = ''FRAME_TOO_LARGE''"
| "rpc_wire_error_name WIRE_COBS_INVALID = ''COBS_INVALID''"
| "rpc_wire_error_name WIRE_HEADER_INVALID = ''HEADER_INVALID''"
| "rpc_wire_error_name WIRE_CRC_INVALID = ''CRC_INVALID''"
| "rpc_wire_error_name WIRE_SEGMENT_INVALID = ''SEGMENT_INVALID''"
| "rpc_wire_error_name WIRE_INTERLEAVED = ''INTERLEAVED''"
| "rpc_wire_error_name WIRE_TIMEOUT = ''TIMEOUT''"
| "rpc_wire_error_name WIRE_STREAM_FAILED = ''STREAM_FAILED''"

text \<open>All lengths are 32-bit unsigned, as in the code; \<open>offset + segment_length\<close> wraps.\<close>

definition flags_valid :: "u8 \<Rightarrow> u32 \<Rightarrow> u32 \<Rightarrow> u16 \<Rightarrow> u16 \<Rightarrow> bool" where
  "flags_valid flags logical_length offset segment_length stream_prefix_length =
     (let stream = (flags AND FLAG_STREAM \<noteq> 0);
          seg = (ucast segment_length :: u32);
          prefix = (ucast stream_prefix_length :: u32);
          maximum = (if stream then RPC_STREAM_PREFIX_BYTES + RPC_STREAM_BYTES
            else RPC_MESSAGE_BYTES)
      in if flags AND NOT FLAG_MASK \<noteq> 0 \<or>
            (flags AND FLAG_ERROR \<noteq> 0 \<and> flags AND FLAG_RESPONSE = 0) \<or>
            logical_length > maximum \<or> seg > of_nat RPC_SEGMENT_BYTES \<or>
            offset > logical_length \<or> seg > logical_length - offset then False
         else if (stream \<and> (prefix = 0 \<or> prefix > logical_length \<or>
                    logical_length - prefix > RPC_STREAM_BYTES)) \<or>
                 (\<not> stream \<and> prefix \<noteq> 0) then False
         else if (flags AND FLAG_FIRST \<noteq> 0) \<noteq> (offset = 0) \<or>
                 (flags AND FLAG_LAST \<noteq> 0) \<noteq> (offset + seg = logical_length) then False
         else logical_length \<noteq> 0 \<or>
              (offset = 0 \<and> seg = 0 \<and>
               flags AND (FLAG_FIRST OR FLAG_LAST) = (FLAG_FIRST OR FLAG_LAST)))"

section \<open>One segment\<close>

text \<open>The bytes \<open>EQRP\<close> and the protocol version.\<close>

definition rpc_magic :: bytes where
  "rpc_magic = [0x45, 0x51, 0x52, 0x50]"

definition wire_body :: "u16 \<Rightarrow> u32 \<Rightarrow> u8 \<Rightarrow> u32 \<Rightarrow> u32 \<Rightarrow> u16 \<Rightarrow> u16 \<Rightarrow> bytes \<Rightarrow> bytes" where
  "wire_body opcode request_id flags logical_length offset prefix_length payload_len payload =
     rpc_magic @ [1, flags] @ write_u16be opcode @ write_u32be request_id @
     write_u32be logical_length @ write_u32be offset @ write_u16be payload_len @
     write_u16be prefix_length @ payload"

definition wire_record :: "bytes \<Rightarrow> bytes" where
  "wire_record body = body @ write_u32be (rpc_crc32 (Some body) (length body))"

text \<open>
  \<open>alloc n\<close> is what \<open>malloc(n)\<close> returns: a block of \<open>n\<close> bytes of any contents, or
  \<open>None\<close>.  The record fills its block, so the old contents do not matter here.  The result
  is the error, the output buffer and, on success, \<open>*out_length\<close>.
\<close>

definition rpc_wire_encode_segment ::
  "(nat \<Rightarrow> bytes option) \<Rightarrow> u16 \<Rightarrow> u32 \<Rightarrow> u8 \<Rightarrow> u32 \<Rightarrow> u32 \<Rightarrow> u16 \<Rightarrow>
   bytes option \<Rightarrow> u16 \<Rightarrow> bytes \<Rightarrow> wire_error \<times> bytes \<times> nat option" where
  "rpc_wire_encode_segment alloc opcode request_id flags logical_length offset
     stream_prefix_length payload payload_len out =
     (let record_len = RPC_HEADER_BYTES + unat payload_len + RPC_CRC_BYTES
      in if opcode = 0 \<or> (payload = None \<and> payload_len \<noteq> 0) \<or>
            \<not> flags_valid flags logical_length offset payload_len stream_prefix_length
         then (WIRE_INVALID_ARGUMENT, out, None)
         else case alloc record_len of
           None \<Rightarrow> (WIRE_OUT_OF_MEMORY, out, None)
         | Some _ \<Rightarrow>
           let record = wire_record (wire_body opcode request_id flags logical_length offset
                 stream_prefix_length payload_len (bytes_at payload (unat payload_len)))
           in if length out < 2 then (WIRE_FRAME_TOO_LARGE, out, None)
              else let (encoded_len, out1) =
                    rpc_cobs_encode (Some record) record_len (take (length out - 1) out);
                  out2 = out1 @ drop (length out - 1) out
                in if encoded_len = 0 \<or> encoded_len \<ge> length out
                   then (WIRE_FRAME_TOO_LARGE, out2, None)
                   else (WIRE_OK, out2[encoded_len := 0], Some (encoded_len + 1)))"

section \<open>Cutting a payload into segments\<close>

datatype encode_failure = ENCODE_OUT_OF_MEMORY | ENCODE_WIRE_ERROR wire_error

text \<open>
  The loop of \<open>js_rpc_codec_encode\<close> for a payload without a stream.  \<open>index\<close> counts the
  frames; the \<open>2 * index\<close>-th call of \<open>malloc\<close> gives the frame's buffer, the next one the
  record's.
\<close>

function rpc_encode_frames ::
  "(nat \<Rightarrow> nat \<Rightarrow> bytes option) \<Rightarrow> u16 \<Rightarrow> u32 \<Rightarrow> u8 \<Rightarrow> bytes \<Rightarrow> nat \<Rightarrow> nat \<Rightarrow>
   encode_failure + bytes list" where
  "rpc_encode_frames alloc opcode request_id flags payload offset index =
     (let segment_len = min RPC_SEGMENT_BYTES (length payload - offset)
      in case alloc (2 * index) RPC_MAX_FRAME_BYTES of
        None \<Rightarrow> Inl ENCODE_OUT_OF_MEMORY
      | Some wire \<Rightarrow>
        let segment_flags = (if offset = 0 then flags OR FLAG_FIRST else flags);
            segment_flags = (if offset + segment_len = length payload
              then segment_flags OR FLAG_LAST else segment_flags)
        in case rpc_wire_encode_segment (alloc (2 * index + 1)) opcode request_id segment_flags
             (of_nat (length payload)) (of_nat offset) 0 (Some (drop offset payload))
             (of_nat segment_len) wire of
            (WIRE_OK, out, Some wire_len) \<Rightarrow>
              if offset + segment_len < length payload \<or> (length payload = 0 \<and> index + 1 = 0)
              then map_sum id ((#) (take wire_len out))
                (rpc_encode_frames alloc opcode request_id flags payload
                  (offset + segment_len) (index + 1))
              else Inr [take wire_len out]
          | (e, _, _) \<Rightarrow> Inl (ENCODE_WIRE_ERROR e))"
  by pat_completeness auto
termination
  by (relation "measure (\<lambda>(alloc, opcode, request_id, flags, payload, offset, index).
    length payload - offset)") (auto simp: rpc_sizes min_def split: if_splits)

declare rpc_encode_frames.simps [simp del]


section \<open>What the encoder writes\<close>

lemma length_wire_body [simp]:
  "length (wire_body opcode rid flags logical off prefix plen payload) = 24 + length payload"
  by (simp add: wire_body_def rpc_magic_def)

lemma length_wire_record [simp]: "length (wire_record body) = length body + 4"
  by (simp add: wire_record_def)

lemma wire_record_not_Nil [simp]: "wire_record body \<noteq> []"
  using length_wire_record [of body] by (metis add_is_0 list.size(3) zero_neq_numeral)

text \<open>The frame of a segment: the stuffed record and the delimiter.\<close>

definition segment_frame :: "u16 \<Rightarrow> u32 \<Rightarrow> u8 \<Rightarrow> u32 \<Rightarrow> u32 \<Rightarrow> u16 \<Rightarrow> u16 \<Rightarrow> bytes \<Rightarrow> bytes" where
  "segment_frame opcode rid flags logical off prefix plen payload =
     cobs_of (wire_record (wire_body opcode rid flags logical off prefix plen payload)) @ [0]"

lemma flags_valid_segment: "flags_valid flags logical off plen prefix \<Longrightarrow> unat plen \<le> 7680"
proof -
  assume "flags_valid flags logical off plen prefix"
  then have "(ucast plen :: u32) \<le> 7680"
    by (auto simp: flags_valid_def Let_def rpc_sizes split: if_splits)
  then show ?thesis by (simp add: word_le_nat_alt)
qed

lemma segment_frame_length:
  assumes "flags_valid flags logical off plen prefix" "length payload = unat plen"
  shows "length (segment_frame opcode rid flags logical off prefix plen payload) \<le> RPC_MAX_FRAME_BYTES"
proof -
  let ?rcd = "wire_record (wire_body opcode rid flags logical off prefix plen payload)"
  have len: "length ?rcd \<le> 7708"
    using flags_valid_segment [OF assms(1)] assms(2) by simp
  then have "length ?rcd div 254 \<le> 30"
    using div_le_mono [OF len, of 254] by simp
  then show ?thesis
    using cobs.encoded_length [of ?rcd] len by (simp add: segment_frame_def rpc_sizes)
qed

lemma encode_segment_ok:
  fixes rid logical off :: u32 and opcode prefix plen :: u16 and flags :: u8
  defines "frame \<equiv> segment_frame opcode rid flags logical off prefix plen"
  assumes "opcode \<noteq> 0" "flags_valid flags logical off plen prefix"
    and "unat plen \<le> length p" "alloc (28 + unat plen) = Some blk"
    and "length (frame (take (unat plen) p)) \<le> length out"
  shows "rpc_wire_encode_segment alloc opcode rid flags logical off prefix (Some p) plen out =
    (WIRE_OK, frame (take (unat plen) p) @ drop (length (frame (take (unat plen) p))) out,
     Some (length (frame (take (unat plen) p))))"
proof -
  define rcd where
    "rcd = wire_record (wire_body opcode rid flags logical off prefix plen (take (unat plen) p))"
  have frame: "frame (take (unat plen) p) = cobs_of rcd @ [0]"
    by (simp add: frame_def segment_frame_def rcd_def)
  have fits: "length (cobs_of rcd) \<le> length (take (length out - 1) out)"
    using assms(6) by (simp add: frame)
  have pos: "0 < length (cobs_of rcd)" by simp
  have short: "length (cobs_of rcd) \<le> length out - 1" using fits by simp
  with pos have two: "\<not> length out < 2" by linarith
  have rlen: "28 + unat plen = length rcd" using assms(4) by (simp add: rcd_def)
  have tail: "drop (length (cobs_of rcd)) out = out ! length (cobs_of rcd) # drop (Suc (length (cobs_of rcd))) out"
    using short pos by (intro Cons_nth_drop_Suc [symmetric]) linarith
  have joined: "drop (length (cobs_of rcd)) (take (length out - 1) out) @ drop (length out - 1) out =
      drop (length (cobs_of rcd)) out"
    using fits by (metis append_take_drop_id drop_append length_take min.cobounded1 min.absorb2 diff_le_self
        diff_is_0_eq drop_0)
  have "rpc_cobs_encode (Some rcd) (28 + unat plen) (take (length out - 1) out) =
      (length (cobs_of rcd), cobs_of rcd @ drop (length (cobs_of rcd)) (take (length out - 1) out))"
    unfolding rlen by (rule cobs_encode_fits [OF fits])
  moreover have "((cobs_of rcd @ drop (length (cobs_of rcd)) (take (length out - 1) out)) @
      drop (length out - 1) out)[length (cobs_of rcd) := 0] =
      cobs_of rcd @ 0 # drop (Suc (length (cobs_of rcd))) out"
    unfolding append_assoc joined by (simp add: tail list_update_append)
  moreover have "\<not> length out \<le> length (cobs_of rcd)" using short pos by linarith
  ultimately show ?thesis
    using assms(2-5) two
    by (simp add: rpc_wire_encode_segment_def rpc_sizes frame rcd_def [symmetric] ac_simps
        del: append_assoc)
qed

lemma encode_segment_okD:
  assumes "rpc_wire_encode_segment alloc opcode rid flags logical off prefix (Some p) plen out =
      (WIRE_OK, out', Some n)" and "unat plen \<le> length p"
  shows "opcode \<noteq> 0" "flags_valid flags logical off plen prefix"
    "take n out' = segment_frame opcode rid flags logical off prefix plen (take (unat plen) p)"
proof -
  define rcd where
    "rcd = wire_record (wire_body opcode rid flags logical off prefix plen (take (unat plen) p))"
  show "opcode \<noteq> 0" and valid: "flags_valid flags logical off plen prefix"
    using assms(1) by (auto simp: rpc_wire_encode_segment_def Let_def split: if_splits)
  obtain blk where blk: "alloc (28 + unat plen) = Some blk"
    using assms(1) by (auto simp: rpc_wire_encode_segment_def rpc_sizes Let_def ac_simps
        split: if_splits option.splits)
  have rlen: "28 + unat plen = length rcd" using assms(2) by (simp add: rcd_def)
  have "length (cobs_of rcd) \<le> length (take (length out - 1) out)"
  proof (rule ccontr)
    assume "\<not> ?thesis"
    then have "fst (rpc_cobs_encode (Some rcd) (28 + unat plen) (take (length out - 1) out)) = 0"
      unfolding rlen by (intro cobs_encode_too_long) simp
    then show False
      using assms(1) by (auto simp: rpc_wire_encode_segment_def rpc_sizes Let_def rcd_def [symmetric]
          ac_simps split: if_splits option.splits prod.splits)
  qed
  then have "length (cobs_of rcd) \<le> length out - 1" by simp
  moreover have "0 < length (cobs_of rcd)" by simp
  ultimately have "Suc (length (cobs_of rcd)) \<le> length out" by linarith
  then have "length (segment_frame opcode rid flags logical off prefix plen (take (unat plen) p)) \<le> length out"
    by (simp add: segment_frame_def rcd_def)
  from encode_segment_ok [where alloc = alloc and blk = blk, OF \<open>opcode \<noteq> 0\<close> valid assms(2) blk this] assms(1)
  show "take n out' = segment_frame opcode rid flags logical off prefix plen (take (unat plen) p)"
    by auto
qed

end
