(* ===== verification/Rpc_Decoder.thy ===== *)
theory Rpc_Decoder
  imports Rpc_Wire
begin

text \<open>
  The receiving side of \<open>esp32_mquickjs_rpc_wire.c\<close>: the decoder that cuts the byte stream
  at zeros, checks each record and reassembles messages.  Callbacks become events, in the
  order of the calls.  A write outside the reassembly block is \<open>None\<close>, so a result \<open>Some\<close>
  says that the call stayed inside its memory.
\<close>

section \<open>State and callbacks\<close>

text \<open>
  \<open>rd_frame\<close> is \<open>frame[0..frame_len)\<close>; the array holds \<open>RPC_MAX_FRAME_BYTES\<close>.
  \<open>rd_reassembly\<close> is the block behind the pointer, \<open>None\<close> for \<open>NULL\<close>.
\<close>

record rpc_decoder =
  rd_frame :: bytes
  rd_discarding :: bool
  rd_reassembly :: "bytes option"
  rd_logical_len :: u32
  rd_next_offset :: u32
  rd_prefix_len :: u32
  rd_opcode :: u16
  rd_request_id :: u32
  rd_flags :: u8
  rd_started_ms :: u64

record rpc_message =
  msg_flags :: u8
  msg_opcode :: u16
  msg_request_id :: u32
  msg_payload :: bytes
  msg_logical_len :: u32
  msg_stream_len :: u32

record rpc_chunk =
  chunk_flags :: u8
  chunk_opcode :: u16
  chunk_request_id :: u32
  chunk_logical_len :: u32
  chunk_stream_len :: u32
  chunk_offset :: u32
  chunk_data :: bytes
  chunk_first :: bool
  chunk_last :: bool

datatype rpc_event =
  Message rpc_message | Stream_Chunk rpc_chunk | Wire_Error wire_error

text \<open>
  What the environment does while one record is decoded: the result of its one \<open>malloc\<close>,
  and the answer of the stream callback, if there is one.
\<close>

record rpc_env =
  env_alloc :: "nat \<Rightarrow> bytes option"
  env_on_message :: bool
  env_on_stream :: "(rpc_chunk \<Rightarrow> bool) option"
  env_on_error :: bool

definition rpc_wire_decoder_init :: rpc_decoder where
  "rpc_wire_decoder_init =
     \<lparr>rd_frame = [], rd_discarding = False, rd_reassembly = None, rd_logical_len = 0,
      rd_next_offset = 0, rd_prefix_len = 0, rd_opcode = 0, rd_request_id = 0, rd_flags = 0,
      rd_started_ms = 0\<rparr>"

definition rpc_wire_decoder_reset :: "rpc_decoder \<Rightarrow> rpc_decoder" where
  "rpc_wire_decoder_reset d = rpc_wire_decoder_init"

definition report_error :: "rpc_env \<Rightarrow> wire_error \<Rightarrow> rpc_event list" where
  "report_error env e = (if env_on_error env then [Wire_Error e] else [])"

section \<open>One record\<close>

record wire_header =
  h_flags :: u8
  h_opcode :: u16
  h_request_id :: u32
  h_logical_length :: u32
  h_offset :: u32
  h_segment_length :: u16
  h_prefix_length :: u16

definition FLAG_KEPT :: u8 where
  "FLAG_KEPT = FLAG_RESPONSE OR FLAG_ERROR OR FLAG_STREAM"

text \<open>The record's checks, in the code's order: size, header, CRC.\<close>

definition parse_record :: "nat \<Rightarrow> bytes \<Rightarrow> wire_error + wire_header \<times> bytes" where
  "parse_record record_len record =
     (if record_len < RPC_HEADER_BYTES + RPC_CRC_BYTES then Inl WIRE_COBS_INVALID
      else
        let h = \<lparr>h_flags = record ! 5, h_opcode = read_u16be record 6,
              h_request_id = read_u32be record 8, h_logical_length = read_u32be record 12,
              h_offset = read_u32be record 16, h_segment_length = read_u16be record 20,
              h_prefix_length = read_u16be record 22\<rparr>
        in if take 4 record \<noteq> rpc_magic \<or> record ! 4 \<noteq> 1 \<or> h_opcode h = 0 \<or>
              record_len \<noteq> RPC_HEADER_BYTES + unat (h_segment_length h) + RPC_CRC_BYTES \<or>
              \<not> flags_valid (h_flags h) (h_logical_length h) (h_offset h) (h_segment_length h)
                 (h_prefix_length h)
           then Inl WIRE_HEADER_INVALID
           else if read_u32be record (record_len - RPC_CRC_BYTES) \<noteq>
                   rpc_crc32 (Some record) (record_len - RPC_CRC_BYTES)
           then Inl WIRE_CRC_INVALID
           else Inr (h, take (unat (h_segment_length h)) (drop RPC_HEADER_BYTES record)))"

text \<open>The first segment opens a message; a later one needs an open message.\<close>

definition start_message :: "rpc_env \<Rightarrow> u64 \<Rightarrow> wire_header \<Rightarrow> rpc_decoder \<Rightarrow> wire_error + rpc_decoder" where
  "start_message env now_ms h d =
     (if h_flags h AND FLAG_FIRST \<noteq> 0 then
        if rd_reassembly d \<noteq> None then Inl WIRE_INTERLEAVED
        else
          let stored_length = (if h_flags h AND FLAG_STREAM \<noteq> 0
                then unat (h_prefix_length h) else unat (h_logical_length h))
          in case env_alloc env (if stored_length = 0 then 1 else stored_length) of
            None \<Rightarrow> Inl WIRE_OUT_OF_MEMORY
          | Some block \<Rightarrow>
            Inr (d\<lparr>rd_reassembly := Some block, rd_logical_len := h_logical_length h,
                   rd_prefix_len := ucast (h_prefix_length h), rd_next_offset := 0,
                   rd_opcode := h_opcode h, rd_request_id := h_request_id h,
                   rd_flags := h_flags h AND FLAG_KEPT, rd_started_ms := now_ms\<rparr>)
      else if rd_reassembly d = None then Inl WIRE_SEGMENT_INVALID
      else Inr d)"

definition same_message :: "wire_header \<Rightarrow> rpc_decoder \<Rightarrow> bool" where
  "same_message h d \<longleftrightarrow>
     rd_opcode d = h_opcode h \<and> rd_request_id d = h_request_id h \<and>
     rd_logical_len d = h_logical_length h \<and> rd_next_offset d = h_offset h \<and>
     rd_prefix_len d = ucast (h_prefix_length h) \<and> rd_flags d = h_flags h AND FLAG_KEPT"

text \<open>
  Storing the segment: into the block, or, for a stream, its prefix part into the block and
  the rest to the stream callback.  \<open>None\<close> is a write outside the block; \<open>Inl\<close> a refused
  chunk; the events are the chunk, if the callback was called.
\<close>

definition store_segment ::
  "rpc_env \<Rightarrow> wire_header \<Rightarrow> bytes \<Rightarrow> rpc_decoder \<Rightarrow>
   (rpc_event list \<times> (wire_error + rpc_decoder)) option" where
  "store_segment env h segment d =
     (let seglen = (ucast (h_segment_length h) :: u32); offset = h_offset h;
          buf = (case rd_reassembly d of None \<Rightarrow> [] | Some b \<Rightarrow> b)
      in if rd_flags d AND FLAG_STREAM \<noteq> 0 then
           let prefix_part = (if offset < rd_prefix_len d
                 then min (rd_prefix_len d - offset) seglen else 0);
               stream_part = seglen - prefix_part
           in case (if prefix_part \<noteq> 0
                    then write_at buf (unat offset) (take (unat prefix_part) segment)
                    else Some buf) of
             None \<Rightarrow> None
           | Some buf' \<Rightarrow>
             let d' = d\<lparr>rd_reassembly := Some buf'\<rparr>;
                 chunk = \<lparr>chunk_flags = rd_flags d, chunk_opcode = rd_opcode d,
                   chunk_request_id = rd_request_id d, chunk_logical_len = rd_logical_len d,
                   chunk_stream_len = rd_logical_len d - rd_prefix_len d,
                   chunk_offset = offset + prefix_part - rd_prefix_len d,
                   chunk_data = take (unat stream_part) (drop (unat prefix_part) segment),
                   chunk_first = (offset + prefix_part = rd_prefix_len d),
                   chunk_last = (offset + seglen = rd_logical_len d)\<rparr>
             in if stream_part = 0 then Some ([], Inr d')
                else case env_on_stream env of
                  None \<Rightarrow> Some ([], Inl WIRE_STREAM_FAILED)
                | Some f \<Rightarrow> Some ([Stream_Chunk chunk],
                    if f chunk then Inr d' else Inl WIRE_STREAM_FAILED)
         else if seglen \<noteq> 0 then
           map_option (\<lambda>buf'. ([], Inr (d\<lparr>rd_reassembly := Some buf'\<rparr>)))
             (write_at buf (unat offset) segment)
         else Some ([], Inr d))"

text \<open>Accounting for the segment, and delivering the message after the last one.\<close>

definition finish_segment :: "rpc_env \<Rightarrow> u64 \<Rightarrow> wire_header \<Rightarrow> rpc_decoder \<Rightarrow> rpc_event list \<times> bool \<times> rpc_decoder" where
  "finish_segment env now_ms h d =
     (let d = d\<lparr>rd_next_offset := rd_next_offset d + ucast (h_segment_length h),
                rd_started_ms := now_ms\<rparr>;
          buf = (case rd_reassembly d of None \<Rightarrow> [] | Some b \<Rightarrow> b);
          payload_len = (if rd_flags d AND FLAG_STREAM \<noteq> 0 then rd_prefix_len d
            else rd_logical_len d);
          message = \<lparr>msg_flags = rd_flags d OR FLAG_FIRST OR FLAG_LAST,
            msg_opcode = rd_opcode d, msg_request_id = rd_request_id d,
            msg_payload = take (unat payload_len) buf, msg_logical_len = rd_logical_len d,
            msg_stream_len = rd_logical_len d - rd_prefix_len d\<rparr>
      in if h_flags h AND FLAG_LAST \<noteq> 0 then
           (if env_on_message env then [Message message] else [], True,
            d\<lparr>rd_reassembly := None, rd_logical_len := 0, rd_next_offset := 0,
              rd_prefix_len := 0\<rparr>)
         else ([], False, d))"

definition decode_record ::
  "rpc_env \<Rightarrow> u64 \<Rightarrow> rpc_decoder \<Rightarrow> (rpc_event list \<times> wire_error \<times> bool \<times> rpc_decoder) option" where
  "decode_record env now_ms d =
     (let (record_len, record) =
            rpc_cobs_decode 0 (length (rd_frame d)) 0 RPC_MAX_FRAME_BYTES (rd_frame d);
          d = d\<lparr>rd_frame := record\<rparr>
      in case parse_record record_len record of
        Inl e \<Rightarrow> Some ([], e, False, d)
      | Inr (h, segment) \<Rightarrow>
        (case start_message env now_ms h d of
          Inl e \<Rightarrow> Some ([], e, False, d)
        | Inr d \<Rightarrow>
          if \<not> same_message h d
          then Some ([], WIRE_INTERLEAVED, False, rpc_wire_decoder_reset d)
          else (case store_segment env h segment d of
            None \<Rightarrow> None
          | Some (evs, Inl e) \<Rightarrow> Some (evs, e, False, rpc_wire_decoder_reset d)
          | Some (evs, Inr d) \<Rightarrow>
            let (evs', emitted, d) = finish_segment env now_ms h d
            in Some (evs @ evs', WIRE_OK, emitted, d))))"

section \<open>The byte stream\<close>

text \<open>
  The loop over the data; \<open>i\<close> is the position, so that the environment may answer each
  record differently.  The result is the decoder, the events and \<open>emitted\<close>.
\<close>

fun feed_loop ::
  "(nat \<Rightarrow> rpc_env) \<Rightarrow> u64 \<Rightarrow> nat \<Rightarrow> bytes \<Rightarrow> rpc_decoder \<Rightarrow>
   (rpc_event list \<times> nat \<times> rpc_decoder) option" where
  "feed_loop env now_ms i [] d = Some ([], 0, d)"
| "feed_loop env now_ms i (b # bs) d =
     (if b = 0 then
        if rd_discarding d then
          feed_loop env now_ms (i + 1) bs (d\<lparr>rd_discarding := False, rd_frame := []\<rparr>)
        else if rd_frame d \<noteq> [] then
          (case decode_record (env i) now_ms d of
            None \<Rightarrow> None
          | Some (evs, error, did_emit, d) \<Rightarrow>
            (case feed_loop env now_ms (i + 1) bs (d\<lparr>rd_frame := []\<rparr>) of
              None \<Rightarrow> None
            | Some (evs', n, d) \<Rightarrow>
              Some (evs @ (if error \<noteq> WIRE_OK then report_error (env i) error else []) @ evs',
                    (if error = WIRE_OK \<and> did_emit then n + 1 else n), d)))
        else feed_loop env now_ms (i + 1) bs (d\<lparr>rd_frame := []\<rparr>)
      else if rd_discarding d then feed_loop env now_ms (i + 1) bs d
      else if length (rd_frame d) \<ge> RPC_MAX_FRAME_BYTES then
        (case feed_loop env now_ms (i + 1) bs (d\<lparr>rd_frame := [], rd_discarding := True\<rparr>) of
          None \<Rightarrow> None
        | Some (evs, n, d) \<Rightarrow> Some (report_error (env i) WIRE_FRAME_TOO_LARGE @ evs, n, d))
      else feed_loop env now_ms (i + 1) bs (d\<lparr>rd_frame := rd_frame d @ [b]\<rparr>))"

definition timed_out :: "u64 \<Rightarrow> rpc_decoder \<Rightarrow> bool" where
  "timed_out now_ms d \<longleftrightarrow> rd_reassembly d \<noteq> None \<and> now_ms - rd_started_ms d \<ge> 30000"

definition drop_timed_out :: "u64 \<Rightarrow> rpc_decoder \<Rightarrow> rpc_decoder" where
  "drop_timed_out now_ms d =
     (if timed_out now_ms d
      then d\<lparr>rd_reassembly := None, rd_logical_len := 0, rd_next_offset := 0\<rparr> else d)"

definition rpc_wire_decoder_feed ::
  "(nat \<Rightarrow> rpc_env) \<Rightarrow> u64 \<Rightarrow> bytes option \<Rightarrow> nat \<Rightarrow> rpc_decoder \<Rightarrow>
   (rpc_event list \<times> nat \<times> rpc_decoder) option" where
  "rpc_wire_decoder_feed env now_ms data data_len d =
     (if data = None \<and> data_len \<noteq> 0
      then Some (report_error (env 0) WIRE_INVALID_ARGUMENT, 0, d)
      else case feed_loop env now_ms 0 (bytes_at data data_len) (drop_timed_out now_ms d) of
          None \<Rightarrow> None
        | Some (evs, n, d') \<Rightarrow>
          Some ((if timed_out now_ms d then report_error (env 0) WIRE_TIMEOUT else []) @ evs, n, d'))"


section \<open>The invariant\<close>

definition is_stream :: "u8 \<Rightarrow> bool" where
  "is_stream flags \<longleftrightarrow> flags AND FLAG_STREAM \<noteq> 0"

text \<open>What the header rules say, over the natural numbers.\<close>

lemma flags_valid_bounds:
  assumes "flags_valid flags logical off seg prefix"
  shows "unat off + unat seg \<le> unat logical"
    "is_stream flags \<Longrightarrow> prefix \<noteq> 0 \<and> unat prefix \<le> unat logical \<and>
      unat logical - unat prefix \<le> unat RPC_STREAM_BYTES"
    "\<not> is_stream flags \<Longrightarrow> prefix = 0 \<and> unat logical \<le> unat RPC_MESSAGE_BYTES"
proof -
  have le: "off \<le> logical" "ucast seg \<le> logical - off"
    using assms by (auto simp: flags_valid_def Let_def split: if_splits)
  then show "unat off + unat seg \<le> unat logical"
    by (simp add: word_le_nat_alt unat_sub_le)
  assume "is_stream flags"
  then have "prefix \<noteq> 0" "(ucast prefix :: u32) \<le> logical" "logical - ucast prefix \<le> RPC_STREAM_BYTES"
    using assms by (auto simp: flags_valid_def is_stream_def Let_def split: if_splits)
  then show "prefix \<noteq> 0 \<and> unat prefix \<le> unat logical \<and>
      unat logical - unat prefix \<le> unat RPC_STREAM_BYTES"
    by (simp add: word_le_nat_alt unat_sub_le)
next
  assume "\<not> is_stream flags"
  then have "prefix = 0" "logical \<le> RPC_MESSAGE_BYTES"
    using assms by (auto simp: flags_valid_def is_stream_def Let_def split: if_splits)
  then show "prefix = 0 \<and> unat logical \<le> unat RPC_MESSAGE_BYTES"
    by (simp add: word_le_nat_alt)
qed

definition rd_stored :: "rpc_decoder \<Rightarrow> nat" where
  "rd_stored d = (if is_stream (rd_flags d) then unat (rd_prefix_len d) else unat (rd_logical_len d))"

definition rd_open_inv :: "rpc_decoder \<Rightarrow> bytes \<Rightarrow> bool" where
  "rd_open_inv d buf \<longleftrightarrow>
     rd_stored d \<le> length buf \<and> rd_opcode d \<noteq> 0 \<and> rd_next_offset d \<le> rd_logical_len d \<and>
     (if is_stream (rd_flags d)
      then rd_prefix_len d \<le> rd_logical_len d \<and>
        rd_logical_len d - rd_prefix_len d \<le> RPC_STREAM_BYTES
      else rd_prefix_len d = 0 \<and> rd_logical_len d \<le> RPC_MESSAGE_BYTES)"

definition rd_inv :: "rpc_decoder \<Rightarrow> bool" where
  "rd_inv d \<longleftrightarrow> length (rd_frame d) \<le> RPC_MAX_FRAME_BYTES \<and>
     (case rd_reassembly d of None \<Rightarrow> True | Some buf \<Rightarrow> rd_open_inv d buf)"

definition env_ok :: "rpc_env \<Rightarrow> bool" where
  "env_ok env \<longleftrightarrow> (\<forall>n blk. env_alloc env n = Some blk \<longrightarrow> length blk = n)"

text \<open>What a callback may rely on.\<close>

fun event_ok :: "rpc_event \<Rightarrow> bool" where
  "event_ok (Message m) =
     (msg_opcode m \<noteq> 0 \<and>
      (if is_stream (msg_flags m)
       then length (msg_payload m) + unat (msg_stream_len m) = unat (msg_logical_len m) \<and>
         unat (msg_stream_len m) \<le> 33554432
       else length (msg_payload m) = unat (msg_logical_len m) \<and> length (msg_payload m) \<le> 65536))"
| "event_ok (Stream_Chunk c) =
     (chunk_data c \<noteq> [] \<and> chunk_opcode c \<noteq> 0 \<and>
      unat (chunk_offset c) + length (chunk_data c) \<le> unat (chunk_stream_len c))"
| "event_ok (Wire_Error e) = (e \<noteq> WIRE_OK)"

lemma is_stream_kept [simp]: "is_stream (flags AND FLAG_KEPT) = is_stream flags"
  by (simp add: is_stream_def FLAG_KEPT_def rpc_flags and.assoc)

lemma is_stream_delivered [simp]: "is_stream (flags OR FLAG_FIRST OR FLAG_LAST) = is_stream flags"
  by (simp add: is_stream_def rpc_flags bit.conj_disj_distrib2)

lemma rd_inv_frame: "rd_inv d \<Longrightarrow> length f \<le> RPC_MAX_FRAME_BYTES \<Longrightarrow> rd_inv (d\<lparr>rd_frame := f\<rparr>)"
  by (auto simp: rd_inv_def rd_open_inv_def rd_stored_def split: option.splits)

lemma rd_inv_init: "rd_inv rpc_wire_decoder_init"
  by (simp add: rd_inv_def rpc_wire_decoder_init_def)

lemma parse_recordD:
  assumes "rpc_cobs_decode 0 (length f) 0 cap f = (n, rcd)" "parse_record n rcd = Inr (h, segment)"
  shows "flags_valid (h_flags h) (h_logical_length h) (h_offset h) (h_segment_length h) (h_prefix_length h)"
    "h_opcode h \<noteq> 0" "length segment = unat (h_segment_length h)"
proof -
  show "flags_valid (h_flags h) (h_logical_length h) (h_offset h) (h_segment_length h) (h_prefix_length h)"
    "h_opcode h \<noteq> 0"
    using assms(2) by (auto simp: parse_record_def Let_def split: if_splits)
  have n: "n = 28 + unat (h_segment_length h)"
    and segment: "segment = take (unat (h_segment_length h)) (drop 24 rcd)"
    using assms(2) by (auto simp: parse_record_def Let_def rpc_sizes split: if_splits)
  have "n \<le> length f" "length rcd = length f"
    using cobs.decode_shrinks [of f cap] cobs.decode_length [of f cap] assms(1) n by simp_all
  then show "length segment = unat (h_segment_length h)" using segment n by simp
qed

lemma start_message_inv:
  assumes "start_message env now h d = Inr d'" "rd_inv d" "env_ok env" "h_opcode h \<noteq> 0"
    and valid: "flags_valid (h_flags h) (h_logical_length h) (h_offset h) (h_segment_length h) (h_prefix_length h)"
  shows "rd_inv d'" "rd_reassembly d' \<noteq> None"
proof -
  note bounds = flags_valid_bounds [OF valid]
  show "rd_reassembly d' \<noteq> None"
    using assms(1) by (auto simp: start_message_def Let_def split: if_splits option.splits)
  show "rd_inv d'"
  proof (cases "h_flags h AND FLAG_FIRST \<noteq> 0")
    case False
    then show ?thesis using assms(1,2) by (auto simp: start_message_def split: if_splits)
  next
    case True
    let ?n = "if is_stream (h_flags h) then unat (h_prefix_length h) else unat (h_logical_length h)"
    obtain blk where blk: "env_alloc env (if ?n = 0 then 1 else ?n) = Some blk"
      and d': "d' = d\<lparr>rd_reassembly := Some blk, rd_logical_len := h_logical_length h,
                   rd_prefix_len := ucast (h_prefix_length h), rd_next_offset := 0,
                   rd_opcode := h_opcode h, rd_request_id := h_request_id h,
                   rd_flags := h_flags h AND FLAG_KEPT, rd_started_ms := now\<rparr>"
      using assms(1) True
      by (auto simp: start_message_def is_stream_def Let_def split: if_splits option.splits)
    have "?n \<le> length blk" using assms(3) blk by (auto simp: env_ok_def)
    then have "rd_open_inv d' blk"
      using bounds(2,3) assms(4)
      by (auto simp: d' rd_open_inv_def rd_stored_def word_le_nat_alt unat_sub_le)
    then show ?thesis using assms(2) by (simp add: d' rd_inv_def)
  qed
qed


text \<open>Storing a segment of the open message stays inside the block.\<close>

lemma store_segment_safe:
  assumes "rd_inv d" "rd_reassembly d = Some buf" "same_message h d"
    and valid: "flags_valid (h_flags h) (h_logical_length h) (h_offset h) (h_segment_length h) (h_prefix_length h)"
    and seg: "length segment = unat (h_segment_length h)"
  shows "\<exists>evs r. store_segment env h segment d = Some (evs, r) \<and> list_all event_ok evs \<and>
    (\<forall>d'. r = Inr d' \<longrightarrow> (\<exists>buf'. length buf' = length buf \<and> d' = d\<lparr>rd_reassembly := Some buf'\<rparr>)) \<and>
    (\<forall>e. r = Inl e \<longrightarrow> e \<noteq> WIRE_OK)"
proof -
  let ?seglen = "ucast (h_segment_length h) :: u32" and ?off = "h_offset h"
  note bounds = flags_valid_bounds [OF valid]
  have inv: "rd_open_inv d buf" using assms(1,2) by (simp add: rd_inv_def)
  have same: "rd_flags d = h_flags h AND FLAG_KEPT" "rd_logical_len d = h_logical_length h"
    "rd_prefix_len d = ucast (h_prefix_length h)" "rd_opcode d = h_opcode h"
    using assms(3) by (auto simp: same_message_def)
  show ?thesis
  proof (cases "is_stream (h_flags h)")
    case False
    then have "unat ?off + length segment \<le> length buf"
      using inv bounds(1) seg by (simp add: rd_open_inv_def rd_stored_def same)
    moreover have "rd_flags d AND FLAG_STREAM = 0" using False same(1) by (metis is_stream_def is_stream_kept)
    moreover have "d = d\<lparr>rd_reassembly := Some buf\<rparr>" using assms(2) by simp
    then have "\<exists>buf'. length buf' = length buf \<and> d = d\<lparr>rd_reassembly := Some buf'\<rparr>" by blast
    ultimately show ?thesis
      using assms(2) by (auto simp: store_segment_def write_at_def
          intro!: exI [of _ "take (unat ?off) buf @ segment @ drop (unat ?off + length segment) buf"])
  next
    case True
    have stream: "rd_flags d AND FLAG_STREAM \<noteq> 0" using True same(1) by (metis is_stream_def is_stream_kept)
    define part where "part = (if ?off < rd_prefix_len d then min (rd_prefix_len d - ?off) ?seglen else 0)"
    have part: "part \<le> ?seglen" "part \<noteq> 0 \<Longrightarrow> unat ?off + unat part \<le> unat (rd_prefix_len d)"
      by (auto simp: part_def word_le_nat_alt word_less_nat_alt min_def unat_sub_le)
    have "part \<noteq> 0 \<Longrightarrow> unat ?off + length (take (unat part) segment) \<le> length buf"
      using part inv True seg by (simp add: rd_open_inv_def rd_stored_def same word_le_nat_alt)
    then obtain buf' where buf': "(if part \<noteq> 0 then write_at buf (unat ?off) (take (unat part) segment) else Some buf) = Some buf'"
      and len: "length buf' = length buf"
      by (cases "part = 0") (auto simp: write_at_def)
    have chunk: "unat (?off + part - rd_prefix_len d) + unat (?seglen - part) \<le> unat (rd_logical_len d - rd_prefix_len d)"
      if more: "?seglen - part \<noteq> 0"
    proof -
      have "?off + part \<ge> rd_prefix_len d"
      proof (cases "?off < rd_prefix_len d")
        case True
        with more have "part = rd_prefix_len d - ?off"
          by (auto simp: part_def min_def split: if_splits)
        then show ?thesis by simp
      qed (simp add: part_def)
      moreover have "unat (?off + part) = unat ?off + unat part"
        using bounds(1) part(1) by (intro unat_add_below [of _ _ "h_logical_length h"]) (simp add: word_le_nat_alt)
      moreover have "rd_prefix_len d \<le> rd_logical_len d"
        using bounds(2) True by (simp add: same word_le_nat_alt)
      ultimately show ?thesis
        using bounds(1) part(1) by (simp add: same unat_sub_le word_le_nat_alt)
    qed
    have "length (drop (unat part) segment) = unat (?seglen - part)"
      using seg part(1) by (simp add: unat_sub_le)
    then have data: "length (take (unat (?seglen - part)) (drop (unat part) segment)) = unat (?seglen - part)"
      by simp
    define chunk_of where "chunk_of = \<lparr>chunk_flags = rd_flags d, chunk_opcode = rd_opcode d,
                   chunk_request_id = rd_request_id d, chunk_logical_len = rd_logical_len d,
                   chunk_stream_len = rd_logical_len d - rd_prefix_len d,
                   chunk_offset = ?off + part - rd_prefix_len d,
                   chunk_data = take (unat (?seglen - part)) (drop (unat part) segment),
                   chunk_first = (?off + part = rd_prefix_len d),
                   chunk_last = (?off + ?seglen = rd_logical_len d)\<rparr>"
    have store: "store_segment env h segment d =
      (if ?seglen - part = 0 then Some ([], Inr (d\<lparr>rd_reassembly := Some buf'\<rparr>))
       else case env_on_stream env of
          None \<Rightarrow> Some ([], Inl WIRE_STREAM_FAILED)
        | Some f \<Rightarrow> Some ([Stream_Chunk chunk_of],
            if f chunk_of then Inr (d\<lparr>rd_reassembly := Some buf'\<rparr>) else Inl WIRE_STREAM_FAILED))"
      using stream buf' assms(2)
      by (simp only: store_segment_def Let_def part_def [symmetric] if_True option.case chunk_of_def not_False_eq_True)
    have "event_ok (Stream_Chunk chunk_of)" if more: "?seglen - part \<noteq> 0"
      using chunk [OF more] data more inv
      by (auto simp: chunk_of_def rd_open_inv_def unat_eq_0 simp flip: length_0_conv)
    then show ?thesis
      unfolding store using len
      by (cases "env_on_stream env") (auto intro: exI [of _ buf'])
  qed
qed


lemma finish_segment_safe:
  assumes "rd_inv d" "rd_reassembly d = Some buf" "same_message h d"
    and "flags_valid (h_flags h) (h_logical_length h) (h_offset h) (h_segment_length h) (h_prefix_length h)"
    and "finish_segment env now h d = (evs, emitted, d')"
  shows "rd_inv d' \<and> list_all event_ok evs"
proof -
  note bounds = flags_valid_bounds [OF assms(4)]
  have inv: "rd_open_inv d buf" and room: "length (rd_frame d) \<le> RPC_MAX_FRAME_BYTES"
    using assms(1,2) by (simp_all add: rd_inv_def)
  have same: "rd_next_offset d = h_offset h" "rd_logical_len d = h_logical_length h"
    using assms(3) by (auto simp: same_message_def)
  have "unat (rd_next_offset d + ucast (h_segment_length h)) =
      unat (rd_next_offset d) + unat (h_segment_length h)"
    using bounds(1) unat_add_below [of "h_offset h" "ucast (h_segment_length h)" "h_logical_length h"]
    by (simp add: same)
  then have next_le: "rd_next_offset d + ucast (h_segment_length h) \<le> rd_logical_len d"
    using bounds(1) by (simp add: same word_le_nat_alt)
  show ?thesis
  proof (cases "h_flags h AND FLAG_LAST \<noteq> 0")
    case False
    then show ?thesis
      using assms(5) inv room next_le assms(2)
      by (auto simp: finish_segment_def Let_def rd_inv_def rd_open_inv_def rd_stored_def)
  next
    case True
    have stream: "(rd_flags d AND FLAG_STREAM \<noteq> 0) = is_stream (rd_flags d)"
      by (simp add: is_stream_def)
    have "unat RPC_STREAM_BYTES = 33554432" "unat RPC_MESSAGE_BYTES = 65536"
      by (simp_all add: rpc_sizes)
    then have "event_ok (Message \<lparr>msg_flags = rd_flags d OR FLAG_FIRST OR FLAG_LAST,
            msg_opcode = rd_opcode d, msg_request_id = rd_request_id d,
            msg_payload = take (unat (if is_stream (rd_flags d) then rd_prefix_len d else rd_logical_len d)) buf,
            msg_logical_len = rd_logical_len d, msg_stream_len = rd_logical_len d - rd_prefix_len d\<rparr>)"
      using inv by (auto simp: rd_open_inv_def rd_stored_def word_le_nat_alt unat_sub_le split: if_splits)
    then show ?thesis
      using assms(5) True room assms(2)
      by (auto simp: finish_segment_def Let_def rd_inv_def stream)
  qed
qed

lemma decode_record_safe:
  assumes "rd_inv d" "env_ok env"
  shows "\<exists>evs e em d'. decode_record env now d = Some (evs, e, em, d') \<and>
    rd_inv (d'\<lparr>rd_frame := []\<rparr>) \<and> list_all event_ok evs"
proof -
  obtain n rcd where dec: "rpc_cobs_decode 0 (length (rd_frame d)) 0 RPC_MAX_FRAME_BYTES (rd_frame d) = (n, rcd)"
    by (cases "rpc_cobs_decode 0 (length (rd_frame d)) 0 RPC_MAX_FRAME_BYTES (rd_frame d)")
  define d1 where "d1 = d\<lparr>rd_frame := rcd\<rparr>"
  note unfold = decode_record_def dec Let_def d1_def [symmetric] split_beta
  have safe1: "rd_inv (d1\<lparr>rd_frame := []\<rparr>)"
    using rd_inv_frame [OF assms(1), of "[]"] by (simp add: d1_def)
  show ?thesis
  proof (cases "parse_record n rcd")
    case (Inl e)
    then show ?thesis using safe1 by (auto simp: unfold)
  next
    case (Inr hs)
    obtain h segment where hs: "hs = (h, segment)" by (cases hs)
    note parsed = parse_recordD [OF dec Inr [unfolded hs]]
    show ?thesis
    proof (cases "start_message env now h d1")
      case (Inl e)
      then show ?thesis using safe1 Inr hs by (auto simp: unfold)
    next
      case start: (Inr d2)
      have "length rcd = length (rd_frame d)"
        using cobs.decode_length [of "rd_frame d" RPC_MAX_FRAME_BYTES] dec Inr
        by (auto simp: parse_record_def rpc_sizes)
      then have "rd_inv d1"
        using rd_inv_frame [OF assms(1), of rcd] assms(1) by (simp add: d1_def rd_inv_def)
      note d2 = start_message_inv [OF start this assms(2) parsed(2,1)]
      then obtain buf where buf: "rd_reassembly d2 = Some buf" by auto
      show ?thesis
      proof (cases "same_message h d2")
        case False
        then show ?thesis
          using start Inr hs rd_inv_init
          by (simp add: unfold rpc_wire_decoder_reset_def) (auto simp: rpc_wire_decoder_init_def)
      next
        case True
        from store_segment_safe [OF d2(1) buf True parsed(1,3)] obtain evs r
          where store: "store_segment env h segment d2 = Some (evs, r)" "list_all event_ok evs"
            "\<And>d'. r = Inr d' \<Longrightarrow> \<exists>buf'. length buf' = length buf \<and> d' = d2\<lparr>rd_reassembly := Some buf'\<rparr>"
          by blast
        show ?thesis
        proof (cases r)
          case (Inl e)
          then show ?thesis
            using start Inr hs True store(1,2) rd_inv_init
            by (simp add: unfold rpc_wire_decoder_reset_def) (auto simp: rpc_wire_decoder_init_def)
        next
          case r: (Inr d3)
          from store(3) [OF r] obtain buf' where len: "length buf' = length buf"
            and d3: "d3 = d2\<lparr>rd_reassembly := Some buf'\<rparr>" by blast
          have inv3: "rd_inv d3"
            using d2(1) buf len
            by (auto simp: d3 rd_inv_def rd_open_inv_def rd_stored_def split: if_splits)
          have same3: "same_message h d3" using True by (simp add: d3 same_message_def)
          note fin = finish_segment_safe [OF inv3 _ same3 parsed(1)]
          obtain evs' emitted d4 where finish: "finish_segment env now h d3 = (evs', emitted, d4)"
            by (cases "finish_segment env now h d3")
          from fin [OF _ finish] have "rd_inv d4" "list_all event_ok evs'" by (simp_all add: d3)
          then show ?thesis
            using start Inr hs True store(1,2) r finish rd_inv_frame [of d4 "[]"] by (simp add: unfold)
        qed
      qed
    qed
  qed
qed


section \<open>Feeding bytes\<close>

lemma rd_inv_discard: "rd_inv (d\<lparr>rd_discarding := b\<rparr>) = rd_inv d"
  by (simp add: rd_inv_def rd_open_inv_def rd_stored_def split: option.splits)

lemma report_error_ok: "e \<noteq> WIRE_OK \<Longrightarrow> list_all event_ok (report_error env e)"
  by (simp add: report_error_def)

lemma feed_loop_safe:
  assumes "\<And>i. env_ok (env i)" "rd_inv d"
  shows "\<exists>evs n d'. feed_loop env now i bs d = Some (evs, n, d') \<and> rd_inv d' \<and> list_all event_ok evs"
  using assms(2)
proof (induction bs arbitrary: i d)
  case Nil
  then show ?case by simp
next
  case (Cons b bs)
  note IH = Cons.IH [of _ "i + 1"]
  have cleared: "rd_inv (d\<lparr>rd_frame := []\<rparr>)" using rd_inv_frame [OF Cons.prems, of "[]"] by simp
  consider "b = 0" "rd_discarding d" | "b = 0" "\<not> rd_discarding d" "rd_frame d = []"
    | "b = 0" "\<not> rd_discarding d" "rd_frame d \<noteq> []" | "b \<noteq> 0" "rd_discarding d"
    | "b \<noteq> 0" "\<not> rd_discarding d" "RPC_MAX_FRAME_BYTES \<le> length (rd_frame d)"
    | "b \<noteq> 0" "\<not> rd_discarding d" "length (rd_frame d) < RPC_MAX_FRAME_BYTES"
    by linarith
  then show ?case
  proof cases
    case 1
    then show ?thesis using IH [of "d\<lparr>rd_discarding := False, rd_frame := []\<rparr>"] Cons.prems
        rd_inv_frame [of "d\<lparr>rd_discarding := False\<rparr>" "[]"] by (simp add: rd_inv_discard)
  next
    case 2
    then show ?thesis using IH [OF cleared] by simp
  next
    case 3
    obtain evs e em d' where rcd: "decode_record (env i) now d = Some (evs, e, em, d')"
      and d': "rd_inv (d'\<lparr>rd_frame := []\<rparr>)" "list_all event_ok evs"
      using decode_record_safe [OF Cons.prems assms(1)] by blast
    from IH [OF d'(1)] obtain evs' n d'' where
      "feed_loop env now (i + 1) bs (d'\<lparr>rd_frame := []\<rparr>) = Some (evs', n, d'')" "rd_inv d''" "list_all event_ok evs'"
      by blast
    then show ?thesis using 3 rcd d'(2) report_error_ok [of e] by simp
  next
    case 4
    then show ?thesis using IH [OF Cons.prems] by simp
  next
    case 5
    have "rd_inv (d\<lparr>rd_frame := [], rd_discarding := True\<rparr>)"
      using cleared rd_inv_discard [of True "d\<lparr>rd_frame := []\<rparr>"] by simp
    from IH [OF this] obtain evs' n d'' where
      "feed_loop env now (i + 1) bs (d\<lparr>rd_frame := [], rd_discarding := True\<rparr>) = Some (evs', n, d'')"
      "rd_inv d''" "list_all event_ok evs'" by blast
    then show ?thesis using 5 report_error_ok [of WIRE_FRAME_TOO_LARGE] by simp
  next
    case 6
    then show ?thesis using IH [OF rd_inv_frame [OF Cons.prems, of "rd_frame d @ [b]"]] by simp
  qed
qed

lemma rd_inv_drop: "rd_inv d \<Longrightarrow> rd_inv (drop_timed_out now d)"
  by (auto simp: drop_timed_out_def rd_inv_def)

text \<open>
  C2: Memory safety of the receiver.  Whatever bytes arrive, in whatever state the decoder is,
  and however \<open>malloc\<close> and the callbacks answer, the decoder never writes outside its
  reassembly block, keeps its invariant, and only makes callbacks with well-formed arguments:
  a delivered payload has the announced length and at most 64 KiB, a chunk lies inside its stream.
\<close>

theorem rpc_wire_decoder_feed_safe:
  assumes "\<And>i. env_ok (env i)" "rd_inv d"
  shows "\<exists>evs n d'. rpc_wire_decoder_feed env now data data_len d = Some (evs, n, d') \<and>
    rd_inv d' \<and> list_all event_ok evs"
proof (cases "data = None \<and> data_len \<noteq> 0")
  case True
  then show ?thesis
    using assms(2) report_error_ok by (auto simp: rpc_wire_decoder_feed_def)
next
  case False
  obtain evs n d' where
    "feed_loop env now 0 (bytes_at data data_len) (drop_timed_out now d) = Some (evs, n, d')"
    "rd_inv d'" "list_all event_ok evs"
    using feed_loop_safe [of env "drop_timed_out now d" now 0 "bytes_at data data_len",
        OF assms(1) rd_inv_drop [OF assms(2)]] by blast
  then show ?thesis
    using False report_error_ok by (auto simp: rpc_wire_decoder_feed_def)
qed

definition plain_env :: rpc_env where
  "plain_env = \<lparr>env_alloc = (\<lambda>n. Some (replicate n 0)), env_on_message = True,
     env_on_stream = Some (\<lambda>_. True), env_on_error = True\<rparr>"

lemma env_ok_plain [simp]: "env_ok plain_env"
  by (simp add: env_ok_def plain_env_def)

theorem rpc_wire_decoder_feed_safe_witness:
  "\<exists>evs n d'. rpc_wire_decoder_feed (\<lambda>_. plain_env) 0 (Some [1, 2, 0, 7]) 4 rpc_wire_decoder_init =
    Some (evs, n, d') \<and> rd_inv d' \<and> list_all event_ok evs"
  by (rule rpc_wire_decoder_feed_safe) (simp_all add: rd_inv_init)

end
