(* ===== verification/Rpc_Roundtrip.thy ===== *)
theory Rpc_Roundtrip
  imports Rpc_Decoder
begin

text \<open>
  Sender and receiver together: what \<open>RPCCodec.encode()\<close> writes, the decoder delivers as one
  message; how the byte stream is cut into calls does not matter; after a zero byte the
  decoder is at a frame boundary again whatever came before.
\<close>

section \<open>The byte loop\<close>

text \<open>The loop over a longer buffer is the loop over its parts.\<close>

fun feed_then ::
  "(rpc_event list \<times> nat \<times> rpc_decoder) option \<Rightarrow>
   (rpc_decoder \<Rightarrow> (rpc_event list \<times> nat \<times> rpc_decoder) option) \<Rightarrow>
   (rpc_event list \<times> nat \<times> rpc_decoder) option" where
  "feed_then None f = None"
| "feed_then (Some (evs, n, d)) f =
     (case f d of None \<Rightarrow> None | Some (evs', n', d') \<Rightarrow> Some (evs @ evs', n + n', d'))"

lemma feed_thenD:
  assumes "feed_then r f = Some (evs, n, d')"
  obtains evs0 n0 d0 evs1 n1 where "r = Some (evs0, n0, d0)" "f d0 = Some (evs1, n1, d')"
  using assms by (cases "(r, f)" rule: feed_then.cases) (auto split: option.splits)

lemma feed_loop_append:
  "feed_loop env now i (xs @ ys) d =
     feed_then (feed_loop env now i xs d) (feed_loop env now (i + length xs) ys)"
proof (induction xs arbitrary: i d)
  case Nil
  then show ?case by (simp split: option.splits)
next
  case (Cons x xs)
  show ?case
    using Cons.IH [of "i + 1"]
    by (auto split: option.splits prod.splits elim!: feed_then.elims)
qed

text \<open>Bytes that are not zero only fill the frame.\<close>

lemma feed_loop_frame:
  assumes "0 \<notin> set xs" "\<not> rd_discarding d" "length (rd_frame d) + length xs \<le> RPC_MAX_FRAME_BYTES"
  shows "feed_loop env now i xs d = Some ([], 0, d\<lparr>rd_frame := rd_frame d @ xs\<rparr>)"
  using assms by (induction xs arbitrary: i d) auto

definition at_boundary :: "rpc_decoder \<Rightarrow> bool" where
  "at_boundary d \<longleftrightarrow> rd_frame d = [] \<and> \<not> rd_discarding d"

lemma feed_loop_zero_boundary:
  assumes "feed_loop env now i [0] d = Some (evs, n, d')"
    and "\<And>evs e em d''. decode_record (env i) now d = Some (evs, e, em, d'') \<Longrightarrow>
      rd_discarding d'' = rd_discarding d \<or> \<not> rd_discarding d''"
  shows "at_boundary d'"
  using assms by (fastforce simp: at_boundary_def split: if_splits option.splits prod.splits)

lemma start_message_discarding:
  "start_message env now h d = Inr d' \<Longrightarrow> rd_discarding d' = rd_discarding d"
  by (auto simp: start_message_def Let_def split: if_splits option.splits)

lemma store_segment_discarding:
  "store_segment env h segment d = Some (evs, Inr d') \<Longrightarrow> rd_discarding d' = rd_discarding d"
  unfolding store_segment_def Let_def
  by (auto split: if_splits option.splits)

lemma finish_segment_discarding:
  "finish_segment env now h d = (evs, em, d') \<Longrightarrow> rd_discarding d' = rd_discarding d"
  by (auto simp: finish_segment_def Let_def split: if_splits)

lemma decode_record_discarding:
  assumes "decode_record env now d = Some (evs, e, em, d')"
  shows "rd_discarding d' = rd_discarding d \<or> \<not> rd_discarding d'"
  using assms
  by (auto simp: decode_record_def Let_def rpc_wire_decoder_reset_def rpc_wire_decoder_init_def
      dest!: start_message_discarding store_segment_discarding finish_segment_discarding
      split: prod.splits sum.splits option.splits if_splits)

text \<open>One frame: the decoder decodes the record when the delimiter comes.\<close>

lemma feed_loop_segment:
  assumes "at_boundary d" "length (cobs_of rcd) < RPC_MAX_FRAME_BYTES"
    and "decode_record (env (i + length (cobs_of rcd))) now (d\<lparr>rd_frame := cobs_of rcd\<rparr>) =
      Some (evs, WIRE_OK, em, d')"
  shows "feed_loop env now i (cobs_of rcd @ [0]) d =
    Some (evs, if em then 1 else 0, d'\<lparr>rd_frame := []\<rparr>)"
proof -
  have "feed_loop env now i (cobs_of rcd) d = Some ([], 0, d\<lparr>rd_frame := cobs_of rcd\<rparr>)"
    using feed_loop_frame [of "cobs_of rcd" d] assms(1,2) cobs.encoded_no_zero [of rcd]
    by (simp add: at_boundary_def)
  then show ?thesis
    using assms(1,3) by (simp add: feed_loop_append at_boundary_def)
qed

section \<open>What the decoder reads of an encoded segment\<close>

lemma read_u16be_at: "take 2 (drop i bs) = write_u16be v \<Longrightarrow> read_u16be bs i = v"
proof -
  assume at: "take 2 (drop i bs) = write_u16be v"
  then have "min (length bs - i) 2 = 2" by (metis length_take length_drop length_write_be(1))
  then have i: "i \<le> length bs" by linarith
  have "bs = take i bs @ write_u16be v @ drop (i + 2) bs"
    using at by (metis append_take_drop_id drop_drop add.commute)
  then show ?thesis using read_write_u16be [of "take i bs" v "drop (i + 2) bs"] i by simp
qed

lemma read_u32be_at: "take 4 (drop i bs) = write_u32be v \<Longrightarrow> read_u32be bs i = v"
proof -
  assume at: "take 4 (drop i bs) = write_u32be v"
  then have "min (length bs - i) 4 = 4" by (metis length_take length_drop length_write_be(2))
  then have i: "i \<le> length bs" by linarith
  have "bs = take i bs @ write_u32be v @ drop (i + 4) bs"
    using at by (metis append_take_drop_id drop_drop add.commute)
  then show ?thesis using read_write_u32be [of "take i bs" v "drop (i + 4) bs"] i by simp
qed

lemma parse_wire_record:
  assumes "opcode \<noteq> 0" "flags_valid flags logical off plen prefix" "length p = unat plen"
  shows "parse_record (28 + unat plen)
      (wire_record (wire_body opcode rid flags logical off prefix plen p) @ rest) =
    Inr (\<lparr>h_flags = flags, h_opcode = opcode, h_request_id = rid, h_logical_length = logical,
          h_offset = off, h_segment_length = plen, h_prefix_length = prefix\<rparr>, p)"
proof -
  define body where "body = wire_body opcode rid flags logical off prefix plen p"
  define rcd where "rcd = wire_record body @ rest"
  note shape = rcd_def wire_record_def body_def wire_body_def rpc_magic_def
  have "read_u16be rcd 6 = opcode" "read_u16be rcd 20 = plen" "read_u16be rcd 22 = prefix"
    by (rule read_u16be_at, simp add: shape)+
  moreover have "read_u32be rcd 8 = rid" "read_u32be rcd 12 = logical" "read_u32be rcd 16 = off"
    by (rule read_u32be_at, simp add: shape)+
  moreover have "read_u32be rcd (24 + unat plen) = rpc_crc32 (Some body) (24 + unat plen)"
    using assms(3) by (intro read_u32be_at) (simp add: rcd_def wire_record_def body_def)
  moreover have "rpc_crc32 (Some rcd) (24 + unat plen) = rpc_crc32 (Some body) (24 + unat plen)"
    using assms(3) by (simp add: rpc_crc32_def rpc_crc32_update_def bytes_at_def rcd_def wire_record_def body_def)
  moreover have "take 4 rcd = rpc_magic" "rcd ! 4 = 1" "rcd ! 5 = flags" "take (unat plen) (drop 24 rcd) = p"
    using assms(3) by (simp_all add: shape)
  ultimately show ?thesis
    unfolding body_def [symmetric] rcd_def [symmetric]
    using assms(1,2) by (simp add: parse_record_def Let_def rpc_sizes)
qed

section \<open>One segment of a message\<close>

text \<open>The flags a caller of \<open>encode()\<close> may pass: a request, a response, an error response.\<close>

definition sendable :: "u8 \<Rightarrow> bool" where
  "sendable flags \<longleftrightarrow> flags \<in> {0, FLAG_RESPONSE, FLAG_RESPONSE OR FLAG_ERROR}"

definition segment_flags :: "u8 \<Rightarrow> nat \<Rightarrow> nat \<Rightarrow> nat \<Rightarrow> u8" where
  "segment_flags flags off seg len =
     (let f = (if off = 0 then flags OR FLAG_FIRST else flags)
      in if off + seg = len then f OR FLAG_LAST else f)"

lemma segment_flags_bits:
  assumes "sendable flags"
  shows "(segment_flags flags off seg len AND FLAG_FIRST \<noteq> 0) = (off = 0)"
    "(segment_flags flags off seg len AND FLAG_LAST \<noteq> 0) = (off + seg = len)"
    "segment_flags flags off seg len AND FLAG_STREAM = 0"
    "segment_flags flags off seg len AND NOT FLAG_MASK = 0"
    "segment_flags flags off seg len AND FLAG_ERROR = 0 \<or>
      segment_flags flags off seg len AND FLAG_RESPONSE \<noteq> 0"
    "segment_flags flags off seg len AND FLAG_KEPT = flags"
  using assms by (auto simp: sendable_def segment_flags_def Let_def FLAG_KEPT_def rpc_flags)

lemma sendable_no_stream: "sendable flags \<Longrightarrow> flags AND FLAG_STREAM = 0"
  by (auto simp: sendable_def rpc_flags)

lemma flags_valid_plain:
  assumes "sendable flags" "len \<le> 65536" "off < len \<or> len = 0 \<and> off = 0" "seg \<le> 7680"
    "off + seg \<le> len"
  shows "flags_valid (segment_flags flags off seg len) (of_nat len) (of_nat off) (of_nat seg) 0"
proof -
  have nat: "unat (of_nat len :: u32) = len" "unat (of_nat off :: u32) = off"
    "unat (of_nat seg :: u16) = seg"
    using assms by (simp_all add: unat_of_nat take_bit_nat_eq_self)
  have seg32: "(ucast (of_nat seg :: u16) :: u32) = of_nat seg"
    using nat(3) assms(4) by (intro word_unat_eq_iff [THEN iffD2]) (simp add: unat_of_nat take_bit_nat_eq_self)
  have "unat (of_nat len - of_nat off :: u32) = len - off"
    using nat assms by (simp add: unat_sub_le word_le_nat_alt)
  moreover have "unat (of_nat seg :: u32) = seg"
    using assms by (simp add: unat_of_nat take_bit_nat_eq_self)
  ultimately have "(of_nat seg :: u32) \<le> of_nat len - of_nat off" "(of_nat seg :: u32) \<le> 7680"
    "(of_nat len :: u32) \<le> 65536" "(of_nat off :: u32) \<le> of_nat len"
    using nat assms by (simp_all add: word_le_nat_alt)
  moreover have "((of_nat off :: u32) = 0) = (off = 0)" "((of_nat len :: u32) = 0) = (len = 0)"
    using nat by (metis unat_eq_0)+
  moreover have "((of_nat off + of_nat seg :: u32) = of_nat len) = (off + seg = len)"
  proof -
    have "unat (of_nat (off + seg) :: u32) = off + seg"
      using assms by (simp add: unat_of_nat take_bit_nat_eq_self del: of_nat_add)
    then show ?thesis using nat(1) by (metis of_nat_add)
  qed
  moreover define f where "f = segment_flags flags off seg len"
  note bits = segment_flags_bits [OF assms(1), where off = off and seg = seg and len = len, folded f_def]
  have "f AND (FLAG_FIRST OR FLAG_LAST) = FLAG_FIRST OR FLAG_LAST" if "off = 0" "seg = len"
    using that assms(1) by (auto simp: f_def segment_flags_def sendable_def rpc_flags)
  then have "len \<noteq> 0 \<or> off = 0 \<and> seg = 0 \<and> f AND (FLAG_FIRST OR FLAG_LAST) = FLAG_FIRST OR FLAG_LAST"
    using assms(5) by auto
  moreover have "((of_nat seg :: u32) = 0) = (seg = 0)"
    using \<open>unat (of_nat seg :: u32) = seg\<close> by (metis unat_eq_0)
  ultimately show ?thesis
    unfolding flags_valid_def f_def [symmetric] Let_def seg32 RPC_MESSAGE_BYTES_def RPC_SEGMENT_BYTES_def
    using bits(1-5) by (simp add: not_less)
qed

text \<open>The decoder's state when the first \<open>off\<close> bytes of a payload have arrived.\<close>

definition open_plain :: "u16 \<Rightarrow> u32 \<Rightarrow> u8 \<Rightarrow> bytes \<Rightarrow> nat \<Rightarrow> rpc_decoder \<Rightarrow> bool" where
  "open_plain opcode rid flags payload off d \<longleftrightarrow>
     (\<exists>buf. rd_reassembly d = Some buf \<and> length payload \<le> length buf \<and>
        take off buf = take off payload) \<and>
     rd_logical_len d = of_nat (length payload) \<and> rd_prefix_len d = 0 \<and>
     rd_next_offset d = of_nat off \<and> rd_opcode d = opcode \<and> rd_request_id d = rid \<and>
     rd_flags d = flags"

definition ready_at :: "u16 \<Rightarrow> u32 \<Rightarrow> u8 \<Rightarrow> bytes \<Rightarrow> nat \<Rightarrow> rpc_decoder \<Rightarrow> bool" where
  "ready_at opcode rid flags payload off d \<longleftrightarrow>
     at_boundary d \<and>
     (if off = 0 then rd_reassembly d = None else open_plain opcode rid flags payload off d)"

definition env_good :: "rpc_env \<Rightarrow> bool" where
  "env_good env \<longleftrightarrow> env_on_message env \<and>
     (\<forall>n. \<exists>blk. env_alloc env n = Some blk \<and> length blk = n)"

definition plain_header :: "u16 \<Rightarrow> u32 \<Rightarrow> u8 \<Rightarrow> bytes \<Rightarrow> nat \<Rightarrow> nat \<Rightarrow> wire_header" where
  "plain_header opcode rid flags payload off seg =
     \<lparr>h_flags = segment_flags flags off seg (length payload), h_opcode = opcode, h_request_id = rid,
      h_logical_length = of_nat (length payload), h_offset = of_nat off,
      h_segment_length = of_nat seg, h_prefix_length = 0\<rparr>"

lemma start_plain:
  assumes "ready_at opcode rid flags payload off d" "sendable flags" "env_good env"
    "length payload \<le> 65536"
  shows "\<exists>d'. start_message env now (plain_header opcode rid flags payload off seg) (d\<lparr>rd_frame := r\<rparr>) = Inr d' \<and>
    open_plain opcode rid flags payload off d' \<and> \<not> rd_discarding d'"
proof -
  have total: "unat (of_nat (length payload) :: u32) = length payload"
    using assms(4) by (simp add: unat_of_nat take_bit_nat_eq_self)
  note bits = segment_flags_bits [OF assms(2), where off = off and seg = seg and len = "length payload"]
  show ?thesis
  proof (cases "off = 0")
    case False
    then show ?thesis
      using assms(1) bits(1) by (auto simp: start_message_def plain_header_def ready_at_def open_plain_def at_boundary_def)
  next
    case True
    let ?n = "if length payload = 0 then 1 else length payload"
    obtain blk where blk: "env_alloc env ?n = Some blk" "length blk = ?n"
      using assms(3) by (auto simp: env_good_def)
    show ?thesis
      using assms(1) True bits blk total
      by (auto simp: start_message_def plain_header_def ready_at_def open_plain_def at_boundary_def Let_def)
  qed
qed

lemma store_plain:
  assumes "open_plain opcode rid flags payload off d" "sendable flags"
    "length payload \<le> 65536" "off + seg \<le> length payload" "seg \<le> 7680"
  shows "\<exists>buf. store_segment env (plain_header opcode rid flags payload off seg) (take seg (drop off payload)) d =
      Some ([], Inr (d\<lparr>rd_reassembly := Some buf\<rparr>)) \<and>
    length payload \<le> length buf \<and> take (off + seg) buf = take (off + seg) payload"
proof -
  obtain buf where buf: "rd_reassembly d = Some buf" "length payload \<le> length buf" "take off buf = take off payload"
    using assms(1) by (auto simp: open_plain_def)
  have nat: "unat (of_nat off :: u32) = off" "unat (of_nat seg :: u16) = seg"
    using assms(3-5) by (simp_all add: unat_of_nat take_bit_nat_eq_self)
  have stream: "rd_flags d AND FLAG_STREAM = 0"
    using assms(1,2) sendable_no_stream by (simp add: open_plain_def)
  let ?buf = "take off buf @ take seg (drop off payload) @ drop (off + seg) buf"
  have taken: "take (off + seg) ?buf = take (off + seg) payload"
    using buf assms(4) by (simp add: take_add)
  show ?thesis
  proof (cases "seg = 0")
    case True
    then have "d = d\<lparr>rd_reassembly := Some buf\<rparr>" using buf(1) by simp
    moreover have "store_segment env (plain_header opcode rid flags payload off seg) (take seg (drop off payload)) d =
      Some ([], Inr d)"
      using True stream by (simp add: store_segment_def plain_header_def Let_def)
    ultimately show ?thesis using True buf(2,3) by (metis add_0_right)
  next
    case False
    have "(of_nat seg :: u16) \<noteq> 0" using nat(2) False by (metis unat_eq_0)
    then have "(ucast (of_nat seg :: u16) :: u32) \<noteq> 0" by (simp only: ucast_16_32_eq_0 not_False_eq_True)
    moreover have "write_at buf off (take seg (drop off payload)) = Some ?buf"
      using buf(2) assms(4) by (simp add: write_at_def)
    ultimately have "store_segment env (plain_header opcode rid flags payload off seg) (take seg (drop off payload)) d =
      Some ([], Inr (d\<lparr>rd_reassembly := Some ?buf\<rparr>))"
      using stream nat(1) buf(1) by (simp add: store_segment_def plain_header_def Let_def)
    then show ?thesis using taken buf(2) assms(4) by (intro exI [of _ ?buf]) simp
  qed
qed

definition plain_message :: "u16 \<Rightarrow> u32 \<Rightarrow> u8 \<Rightarrow> bytes \<Rightarrow> rpc_message" where
  "plain_message opcode rid flags payload =
     \<lparr>msg_flags = flags OR FLAG_FIRST OR FLAG_LAST, msg_opcode = opcode, msg_request_id = rid,
      msg_payload = payload, msg_logical_len = of_nat (length payload),
      msg_stream_len = of_nat (length payload)\<rparr>"

lemma finish_plain:
  assumes "open_plain opcode rid flags payload off d" "sendable flags" "env_good env"
    "length payload \<le> 65536" "off + seg \<le> length payload" "seg \<le> 7680"
    and "length payload \<le> length buf" "take (off + seg) buf = take (off + seg) payload"
    and "0 < off + seg \<or> payload = []" "\<not> rd_discarding d"
  shows "\<exists>d'. finish_segment env now (plain_header opcode rid flags payload off seg)
        (d\<lparr>rd_reassembly := Some buf\<rparr>) =
      (if off + seg = length payload then [Message (plain_message opcode rid flags payload)] else [],
       off + seg = length payload, d') \<and>
    (if off + seg = length payload then at_boundary (d'\<lparr>rd_frame := []\<rparr>) \<and> rd_reassembly d' = None
     else ready_at opcode rid flags payload (off + seg) (d'\<lparr>rd_frame := []\<rparr>))"
proof -
  have last: "(segment_flags flags off seg (length payload) AND FLAG_LAST \<noteq> 0) = (off + seg = length payload)"
    by (rule segment_flags_bits(2) [OF assms(2)])
  have stream: "rd_flags d AND FLAG_STREAM = 0"
    using assms(1,2) sendable_no_stream by (simp add: open_plain_def)
  have total: "unat (of_nat (length payload) :: u32) = length payload"
    using assms(4) by (simp add: unat_of_nat take_bit_nat_eq_self)
  have seg32: "(ucast (of_nat seg :: u16) :: u32) = of_nat seg"
    using assms(6) by (intro word_unat_eq_iff [THEN iffD2]) (simp add: unat_of_nat take_bit_nat_eq_self)
  show ?thesis
  proof (cases "off + seg = length payload")
    case True
    then have "take (length payload) buf = payload" using assms(8) by simp
    then show ?thesis
      using True last stream total assms(1,3,10)
      by (simp add: finish_segment_def plain_header_def plain_message_def Let_def open_plain_def
          at_boundary_def env_good_def)
  next
    case False
    then show ?thesis
      using last stream seg32 assms(1,5,7-10)
      by (auto simp: finish_segment_def plain_header_def Let_def open_plain_def at_boundary_def ready_at_def)
  qed
qed

definition plain_record :: "u16 \<Rightarrow> u32 \<Rightarrow> u8 \<Rightarrow> bytes \<Rightarrow> nat \<Rightarrow> nat \<Rightarrow> bytes" where
  "plain_record opcode rid flags payload off seg =
     wire_record (wire_body opcode rid (segment_flags flags off seg (length payload))
       (of_nat (length payload)) (of_nat off) 0 (of_nat seg) (take seg (drop off payload)))"

text \<open>One record of a message moves the decoder one segment forward.\<close>

lemma decode_plain:
  assumes "ready_at opcode rid flags payload off d" "opcode \<noteq> 0" "sendable flags" "env_good env"
    "length payload \<le> 65536" "seg = min 7680 (length payload - off)" "off < length payload \<or> payload = [] \<and> off = 0"
  defines "at_end \<equiv> off + seg = length payload"
  shows "\<exists>d'. decode_record env now (d\<lparr>rd_frame := cobs_of (plain_record opcode rid flags payload off seg)\<rparr>) =
      Some (if at_end then [Message (plain_message opcode rid flags payload)] else [], WIRE_OK, at_end, d') \<and>
    (if at_end then at_boundary (d'\<lparr>rd_frame := []\<rparr>) \<and> rd_reassembly d' = None
     else ready_at opcode rid flags payload (off + seg) (d'\<lparr>rd_frame := []\<rparr>))"
proof -
  define p where "p = take seg (drop off payload)"
  define h where "h = plain_header opcode rid flags payload off seg"
  define rcd where "rcd = plain_record opcode rid flags payload off seg"
  have seg: "seg \<le> 7680" "off + seg \<le> length payload" "0 < off + seg \<or> payload = []" using assms(6,7) by auto
  have len: "length p = seg" "unat (of_nat seg :: u16) = seg"
    using seg by (simp_all add: p_def unat_of_nat take_bit_nat_eq_self)
  have "length rcd \<le> RPC_MAX_FRAME_BYTES" "length rcd = 28 + seg"
    using len seg(1) by (simp_all add: rcd_def plain_record_def p_def [symmetric] rpc_sizes)
  from cobs.decode_encoded [OF this(1)] this(2) obtain frame where
    dec: "rpc_cobs_decode 0 (length (cobs_of rcd)) 0 RPC_MAX_FRAME_BYTES (cobs_of rcd) = (28 + seg, frame)"
    and frame: "take (28 + seg) frame = rcd"
    by (cases "rpc_cobs_decode 0 (length (cobs_of rcd)) 0 RPC_MAX_FRAME_BYTES (cobs_of rcd)") auto
  have "flags_valid (segment_flags flags off seg (length payload)) (of_nat (length payload)) (of_nat off) (of_nat seg) 0"
    using assms(5,7) seg by (intro flags_valid_plain [OF assms(3)]) auto
  from parse_wire_record [OF assms(2) this, of p rid "drop (28 + seg) frame"] len
  have parse: "parse_record (28 + seg) frame = Inr (h, p)"
    by (simp add: frame [symmetric] rcd_def [symmetric] plain_record_def [symmetric] p_def [symmetric]
        h_def plain_header_def) (metis append_take_drop_id frame p_def plain_record_def rcd_def)
  obtain d2 where start: "start_message env now h (d\<lparr>rd_frame := frame\<rparr>) = Inr d2"
    and d2: "open_plain opcode rid flags payload off d2" "\<not> rd_discarding d2"
    using start_plain [OF assms(1,3,4,5)] unfolding h_def by blast
  have same: "same_message h d2"
    using d2(1) segment_flags_bits(6) [OF assms(3)]
    by (simp add: same_message_def open_plain_def h_def plain_header_def)
  obtain buf where store: "store_segment env h p d2 = Some ([], Inr (d2\<lparr>rd_reassembly := Some buf\<rparr>))"
    and buf: "length payload \<le> length buf" "take (off + seg) buf = take (off + seg) payload"
    using store_plain [OF d2(1) assms(3,5) seg(2,1)] unfolding h_def p_def by blast
  from finish_plain [OF d2(1) assms(3,4,5) seg(2,1) buf seg(3) d2(2), folded h_def at_end_def] obtain d' where
    "finish_segment env now h (d2\<lparr>rd_reassembly := Some buf\<rparr>) =
      (if at_end then [Message (plain_message opcode rid flags payload)] else [], at_end, d')"
    and "if at_end then at_boundary (d'\<lparr>rd_frame := []\<rparr>) \<and> rd_reassembly d' = None
     else ready_at opcode rid flags payload (off + seg) (d'\<lparr>rd_frame := []\<rparr>)" by blast
  then show ?thesis
    unfolding rcd_def [symmetric]
    using dec parse start same store by (simp add: decode_record_def)
qed

section \<open>A whole message\<close>

definition plain_frame :: "u16 \<Rightarrow> u32 \<Rightarrow> u8 \<Rightarrow> bytes \<Rightarrow> nat \<Rightarrow> nat \<Rightarrow> bytes" where
  "plain_frame opcode rid flags payload off seg = cobs_of (plain_record opcode rid flags payload off seg) @ [0]"

lemma plain_frame_length:
  assumes "seg \<le> 7680" "off + seg \<le> length payload"
  shows "length (plain_frame opcode rid flags payload off seg) \<le> RPC_MAX_FRAME_BYTES"
proof -
  let ?rcd = "plain_record opcode rid flags payload off seg"
  have len: "length ?rcd \<le> 7708" using assms by (simp add: plain_record_def)
  then have "length ?rcd div 254 \<le> 30" using div_le_mono [OF len, of 254] by simp
  then show ?thesis
    using cobs.encoded_length [of ?rcd] len by (simp add: plain_frame_def rpc_sizes)
qed

definition alloc_good :: "(nat \<Rightarrow> nat \<Rightarrow> bytes option) \<Rightarrow> bool" where
  "alloc_good alloc \<longleftrightarrow> (\<forall>k n. \<exists>blk. alloc k n = Some blk \<and> length blk = n)"

lemma encode_frames_step:
  assumes "opcode \<noteq> 0" "sendable flags" "length payload \<le> 65536" "alloc_good alloc"
    "off < length payload \<or> payload = [] \<and> off = 0" "seg = min 7680 (length payload - off)"
  shows "rpc_encode_frames alloc opcode rid flags payload off index =
    (if off + seg < length payload
     then map_sum id ((#) (plain_frame opcode rid flags payload off seg))
       (rpc_encode_frames alloc opcode rid flags payload (off + seg) (index + 1))
     else Inr [plain_frame opcode rid flags payload off seg])"
proof -
  define sf where "sf = segment_flags flags off seg (length payload)"
  define frame where "frame = plain_frame opcode rid flags payload off seg"
  have seg: "seg \<le> 7680" "off + seg \<le> length payload" using assms(5,6) by auto
  have nat: "unat (of_nat seg :: u16) = seg"
    using seg by (simp add: unat_of_nat take_bit_nat_eq_self)
  obtain wire where wire: "alloc (2 * index) RPC_MAX_FRAME_BYTES = Some wire" "length wire = RPC_MAX_FRAME_BYTES"
    using assms(4) by (auto simp: alloc_good_def)
  obtain blk where blk: "alloc (2 * index + 1) (28 + unat (of_nat seg :: u16)) = Some blk"
    using assms(4) by (auto simp: alloc_good_def)
  have valid: "flags_valid sf (of_nat (length payload)) (of_nat off) (of_nat seg) 0"
    unfolding sf_def using assms(3,5) seg by (intro flags_valid_plain [OF assms(2)]) auto
  have same: "segment_frame opcode rid sf (of_nat (length payload)) (of_nat off) 0 (of_nat seg)
      (take (unat (of_nat seg :: u16)) (drop off payload)) = frame"
    by (simp only: nat frame_def plain_frame_def plain_record_def segment_frame_def sf_def)
  have "length frame \<le> length wire"
    using plain_frame_length [OF seg] wire(2) by (simp add: frame_def)
  with encode_segment_ok [OF assms(1) valid, of "drop off payload" "alloc (2 * index + 1)" blk rid wire] blk seg nat
  have "rpc_wire_encode_segment (alloc (2 * index + 1)) opcode rid sf (of_nat (length payload)) (of_nat off) 0
      (Some (drop off payload)) (of_nat seg) wire = (WIRE_OK, frame @ drop (length frame) wire, Some (length frame))"
    unfolding same by simp
  moreover have "(if off + seg = length payload
      then (if off = 0 then flags OR FLAG_FIRST else flags) OR FLAG_LAST
      else (if off = 0 then flags OR FLAG_FIRST else flags)) = sf"
    by (simp add: sf_def segment_flags_def Let_def)
  ultimately show ?thesis
    by (subst rpc_encode_frames.simps)
      (simp only: RPC_SEGMENT_BYTES_def assms(6) [symmetric] Let_def wire(1) option.case prod.case
        wire_error.case frame_def [symmetric], simp)
qed

text \<open>Feeding the bytes makes these callbacks and leaves the decoder ready for a message.\<close>

definition feeds_to :: "(nat \<Rightarrow> rpc_env) \<Rightarrow> u64 \<Rightarrow> nat \<Rightarrow> bytes \<Rightarrow> rpc_decoder \<Rightarrow> rpc_event list \<Rightarrow> bool" where
  "feeds_to env now i bs d evs \<longleftrightarrow>
     (\<exists>d'. feed_loop env now i bs d = Some (evs, length evs, d') \<and> at_boundary d' \<and> rd_reassembly d' = None)"

lemma feed_plain_frame:
  assumes "ready_at opcode rid flags payload off d" "opcode \<noteq> 0" "sendable flags" "\<And>i. env_good (env i)"
    "length payload \<le> 65536" "off < length payload \<or> payload = [] \<and> off = 0"
    "seg = min 7680 (length payload - off)"
  shows "if off + seg = length payload
    then feeds_to env now i (plain_frame opcode rid flags payload off seg) d [Message (plain_message opcode rid flags payload)]
    else \<exists>d'. feed_loop env now i (plain_frame opcode rid flags payload off seg) d = Some ([], 0, d') \<and>
      ready_at opcode rid flags payload (off + seg) d'"
proof -
  let ?r = "plain_record opcode rid flags payload off seg"
  have "seg \<le> 7680" "off + seg \<le> length payload" using assms(6,7) by auto
  then have "length (cobs_of ?r) < RPC_MAX_FRAME_BYTES"
    using plain_frame_length [of seg off payload] by (simp add: plain_frame_def Suc_le_eq)
  moreover have "at_boundary d" using assms(1) by (simp add: ready_at_def)
  moreover note decode_plain [OF assms(1,2,3) assms(4) [of "i + length (cobs_of ?r)"] assms(5,7,6), of now]
  ultimately show ?thesis
    using feed_loop_segment [of d ?r env i now] unfolding plain_frame_def feeds_to_def by fastforce
qed

lemma feeds_to_after:
  assumes "feed_loop env now i xs d = Some ([], 0, d')" "feeds_to env now (i + length xs) ys d' evs"
  shows "feeds_to env now i (xs @ ys) d evs"
  using assms by (auto simp: feeds_to_def feed_loop_append)

text \<open>From any segment on: the frames the encoder still makes finish the message.\<close>

lemma encode_frames_feed:
  assumes "opcode \<noteq> 0" "sendable flags" "length payload \<le> 65536" "alloc_good alloc" "\<And>i. env_good (env i)"
    and "off < length payload \<or> payload = [] \<and> off = 0"
  shows "\<exists>frames. rpc_encode_frames alloc opcode rid flags payload off index = Inr frames \<and>
      length frames = max 1 ((length payload - off + 7679) div 7680) \<and>
      list_all (\<lambda>f. length f \<le> RPC_MAX_FRAME_BYTES) frames \<and>
      (\<forall>d i. ready_at opcode rid flags payload off d \<longrightarrow>
        feeds_to env now i (concat frames) d [Message (plain_message opcode rid flags payload)])"
  using assms(6)
proof (induction "length payload - off" arbitrary: off index rule: less_induct)
  case less
  define seg where "seg = min 7680 (length payload - off)"
  define frame where "frame = plain_frame opcode rid flags payload off seg"
  have seg: "seg \<le> 7680" "off + seg \<le> length payload" using less.prems by (auto simp: seg_def)
  note encode = encode_frames_step [OF assms(1-4) less.prems seg_def, of rid index, folded frame_def]
  note feed = feed_plain_frame [where env = env and now = now and rid = rid, OF _ assms(1,2,5,3) less.prems seg_def, folded frame_def]
  have short: "length frame \<le> RPC_MAX_FRAME_BYTES"
    using plain_frame_length [OF seg] by (simp add: frame_def)
  show ?case
  proof (cases "off + seg = length payload")
    case True
    then have "length payload - off \<le> 7680" by (simp add: seg_def)
    then show ?thesis using encode feed short True less.prems by (auto simp: max_def)
  next
    case False
    then have more: "off + seg < length payload" and full: "seg = 7680"
      using seg less.prems by (auto simp: seg_def min_def split: if_splits)
    have "length payload - (off + seg) < length payload - off" using more full by simp
    from less.hyps [OF this, of "index + 1"] more obtain rest where rest:
      "rpc_encode_frames alloc opcode rid flags payload (off + seg) (index + 1) = Inr rest"
      "length rest = max 1 ((length payload - (off + seg) + 7679) div 7680)"
      "list_all (\<lambda>f. length f \<le> RPC_MAX_FRAME_BYTES) rest"
      "\<And>d i. ready_at opcode rid flags payload (off + seg) d \<Longrightarrow>
        feeds_to env now i (concat rest) d [Message (plain_message opcode rid flags payload)]" by auto
    have "length payload - off + 7679 = (length payload - (off + seg) + 7679) + 7680"
      using more full by simp
    then have "length (frame # rest) = max 1 ((length payload - off + 7679) div 7680)"
      using rest(2) more full by simp
    moreover have "feeds_to env now i (concat (frame # rest)) d [Message (plain_message opcode rid flags payload)]"
      if "ready_at opcode rid flags payload off d" for d i
      using feed [OF that, of i] False rest(4) by (auto intro: feeds_to_after)
    ultimately show ?thesis using encode more rest(1,3) short by simp
  qed
qed

lemma encode_message:
  assumes "opcode \<noteq> 0" "sendable flags" "length payload \<le> 65536" "alloc_good alloc" "\<And>i. env_good (env i)"
  obtains frames where "rpc_encode_frames alloc opcode rid flags payload 0 0 = Inr frames"
    "length frames = max 1 ((length payload + 7679) div 7680)"
    "list_all (\<lambda>f. length f \<le> RPC_MAX_FRAME_BYTES) frames"
    "\<And>d i. at_boundary d \<Longrightarrow> rd_reassembly d = None \<Longrightarrow>
      feeds_to env now i (concat frames) d [Message (plain_message opcode rid flags payload)]"
proof -
  have "0 < length payload \<or> payload = [] \<and> (0 :: nat) = 0" by simp
  note encode_frames_feed [where env = env, OF assms this, of rid 0 now]
  then show ?thesis using that by (auto simp: ready_at_def simp del: One_nat_def)
qed

text \<open>
  C1: Round trip of a message.  For every payload of at most 64 KiB, every opcode but 0 and
  the flags a caller may pass, the encoder succeeds when its allocations do, makes one frame
  per 7680 bytes (one for the empty payload), each at most \<open>RPC_MAX_FRAME_BYTES\<close> long, and a decoder
  at a frame boundary with no open message that is fed the frames makes exactly one callback,
  the message with the same opcode, request id, flags and payload, and is then ready for the
  next message.
\<close>

theorem rpc_message_roundtrip:
  assumes "opcode \<noteq> 0" "sendable flags" "length payload \<le> 65536" "alloc_good alloc"
    "\<And>i. env_good (env i)" "at_boundary d" "rd_reassembly d = None"
  shows "\<exists>frames d'. rpc_encode_frames alloc opcode rid flags payload 0 0 = Inr frames \<and>
    length frames = max 1 ((length payload + 7679) div 7680) \<and>
    list_all (\<lambda>f. length f \<le> RPC_MAX_FRAME_BYTES) frames \<and>
    rpc_wire_decoder_feed env now (Some (concat frames)) (length (concat frames)) d =
      Some ([Message (plain_message opcode rid flags payload)], 1, d') \<and>
    at_boundary d' \<and> rd_reassembly d' = None"
proof (rule encode_message [where env = env and rid = rid and now = now, OF assms(1-5)])
  fix frames
  assume frames: "rpc_encode_frames alloc opcode rid flags payload 0 0 = Inr frames"
    "length frames = max 1 ((length payload + 7679) div 7680)"
    "list_all (\<lambda>f. length f \<le> RPC_MAX_FRAME_BYTES) frames"
    and feed: "\<And>d i. at_boundary d \<Longrightarrow> rd_reassembly d = None \<Longrightarrow>
      feeds_to env now i (concat frames) d [Message (plain_message opcode rid flags payload)]"
  from feed [OF assms(6,7), of 0] obtain d' where
    "feed_loop env now 0 (concat frames) d = Some ([Message (plain_message opcode rid flags payload)], 1, d')"
    "at_boundary d'" "rd_reassembly d' = None" by (auto simp: feeds_to_def)
  then show ?thesis
    using frames assms(7) by (simp add: rpc_wire_decoder_feed_def drop_timed_out_def timed_out_def)
qed

lemma env_good_plain [simp]: "env_good plain_env"
  by (simp add: env_good_def plain_env_def)

lemma at_boundary_init [simp]: "at_boundary rpc_wire_decoder_init" "rd_reassembly rpc_wire_decoder_init = None"
  by (simp_all add: at_boundary_def rpc_wire_decoder_init_def)

theorem rpc_message_roundtrip_witness:
  "\<exists>frames d'. rpc_encode_frames (\<lambda>k n. Some (replicate n 0)) 7 42 FLAG_RESPONSE (replicate 8000 9) 0 0 = Inr frames \<and>
    length frames = max 1 ((length (replicate 8000 (9 :: u8)) + 7679) div 7680) \<and>
    list_all (\<lambda>f. length f \<le> RPC_MAX_FRAME_BYTES) frames \<and>
    rpc_wire_decoder_feed (\<lambda>_. plain_env) 0 (Some (concat frames)) (length (concat frames)) rpc_wire_decoder_init =
      Some ([Message (plain_message 7 42 FLAG_RESPONSE (replicate 8000 9))], 1, d') \<and>
    at_boundary d' \<and> rd_reassembly d' = None"
  by (rule rpc_message_roundtrip) (simp_all add: sendable_def alloc_good_def)

section \<open>The stream of bytes\<close>

text \<open>An open message that has not timed out.\<close>

definition fresh :: "u64 \<Rightarrow> rpc_decoder \<Rightarrow> bool" where
  "fresh now d \<longleftrightarrow> rd_reassembly d = None \<or> now - rd_started_ms d < 30000"

lemma fresh_simps [simp]:
  "fresh now (d\<lparr>rd_frame := f\<rparr>) = fresh now d"
  "fresh now (d\<lparr>rd_discarding := b\<rparr>) = fresh now d"
  "fresh now rpc_wire_decoder_init"
  by (simp_all add: fresh_def rpc_wire_decoder_init_def)

lemma fresh_start: "start_message env now h d = Inr d' \<Longrightarrow> fresh now d \<Longrightarrow> fresh now d'"
  by (auto simp: start_message_def fresh_def Let_def split: if_splits option.splits)

lemma fresh_finish: "finish_segment env now h d = (evs, em, d') \<Longrightarrow> fresh now d'"
  by (auto simp: finish_segment_def fresh_def Let_def split: if_splits)

lemma fresh_decode:
  "decode_record env now d = Some (evs, e, em, d') \<Longrightarrow> fresh now d \<Longrightarrow> fresh now d'"
  by (auto simp: decode_record_def Let_def rpc_wire_decoder_reset_def
      intro: fresh_finish dest!: fresh_start split: prod.splits sum.splits option.splits if_splits)

lemma fresh_feed_loop:
  "feed_loop env now i bs d = Some (evs, n, d') \<Longrightarrow> fresh now d \<Longrightarrow> fresh now d'"
  by (induction bs arbitrary: i d evs n)
    (fastforce split: if_splits option.splits prod.splits dest: fresh_decode)+

lemma feed_loop_shift: "feed_loop env now (k + i) bs d = feed_loop (\<lambda>j. env (k + j)) now i bs d"
proof (induction bs arbitrary: i d)
  case (Cons b bs)
  have "feed_loop env now (k + i + 1) bs = feed_loop (\<lambda>j. env (k + j)) now (i + 1) bs"
    using Cons [of "i + 1"] by (intro ext) (simp only: add.assoc)
  then show ?case unfolding feed_loop.simps by (simp only:)
qed simp

lemma feed_unfold:
  "rpc_wire_decoder_feed env now (Some bs) (length bs) d =
     feed_then (Some (if timed_out now d then report_error (env 0) WIRE_TIMEOUT else [], 0,
       drop_timed_out now d)) (feed_loop env now 0 bs)"
  by (simp add: rpc_wire_decoder_feed_def split: option.splits)

lemma fresh_not_timed_out: "fresh now d \<Longrightarrow> \<not> timed_out now d"
  by (auto simp: fresh_def timed_out_def)

lemma fresh_drop [simp]: "fresh now (drop_timed_out now d)"
  by (auto simp: fresh_def drop_timed_out_def timed_out_def)

lemma feed_fresh:
  "fresh now d \<Longrightarrow> rpc_wire_decoder_feed env now (Some bs) (length bs) d = feed_loop env now 0 bs d"
  by (simp add: feed_unfold fresh_not_timed_out drop_timed_out_def split: option.splits)

text \<open>
  C4: Chunking does not matter.  Feeding a buffer is feeding its two parts one after the
  other at the same time: same callbacks in the same order, same count, same final state,
  wherever the transport cuts the bytes.
\<close>

theorem rpc_feed_append:
  "rpc_wire_decoder_feed env now (Some (xs @ ys)) (length (xs @ ys)) d =
     feed_then (rpc_wire_decoder_feed env now (Some xs) (length xs) d)
       (rpc_wire_decoder_feed (\<lambda>i. env (length xs + i)) now (Some ys) (length ys))"
proof -
  let ?d = "drop_timed_out now d"
  have rest: "rpc_wire_decoder_feed (\<lambda>i. env (length xs + i)) now (Some ys) (length ys) d2 =
      feed_loop env now (0 + length xs) ys d2"
    if "feed_loop env now 0 xs ?d = Some (evs2, n2, d2)" for evs2 n2 d2
    using feed_fresh [OF fresh_feed_loop [OF that]] feed_loop_shift [of env now "length xs" 0] by simp
  show ?thesis
    unfolding feed_unfold [of env now "xs @ ys"] feed_unfold [of env now xs] feed_loop_append
    by (cases "feed_loop env now 0 xs ?d") (auto simp: rest split: option.splits)
qed

lemma env_good_ok: "env_good env \<Longrightarrow> env_ok env"
  by (auto simp: env_good_def env_ok_def) (metis option.inject)

text \<open>
  C3: Resynchronisation.  Whatever state the decoder is in and whatever bytes arrive, the next
  zero byte puts it at a frame boundary; if no message is open there, the next message is
  delivered, after the callbacks the garbage caused.
\<close>

theorem rpc_decoder_resynchronises:
  assumes "opcode \<noteq> 0" "sendable flags" "length payload \<le> 65536" "alloc_good alloc"
    "\<And>i. env_good (env i)" "rd_inv d"
  shows "\<exists>frames evs n d1. rpc_encode_frames alloc opcode rid flags payload 0 0 = Inr frames \<and>
    rpc_wire_decoder_feed env now (Some (junk @ [0])) (length (junk @ [0])) d = Some (evs, n, d1) \<and>
    at_boundary d1 \<and>
    (rd_reassembly d1 = None \<longrightarrow>
      (\<exists>d'. rpc_wire_decoder_feed env now (Some ((junk @ [0]) @ concat frames))
          (length ((junk @ [0]) @ concat frames)) d =
        Some (evs @ [Message (plain_message opcode rid flags payload)], n + 1, d') \<and>
        at_boundary d' \<and> rd_reassembly d' = None))"
proof -
  from encode_message [where env = env and rid = rid and now = now, OF assms(1-5)]
  obtain frames where frames: "rpc_encode_frames alloc opcode rid flags payload 0 0 = Inr frames"
    "\<And>d i. at_boundary d \<Longrightarrow> rd_reassembly d = None \<Longrightarrow>
      feeds_to env now i (concat frames) d [Message (plain_message opcode rid flags payload)]" by metis
  have "\<And>i. env_ok (env i)" using assms(5) env_good_ok by blast
  from feed_loop_safe [of env "drop_timed_out now d" now 0 "junk @ [0]", OF this rd_inv_drop [OF assms(6)]]
  obtain evs n d1 where junk: "feed_loop env now 0 (junk @ [0]) (drop_timed_out now d) = Some (evs, n, d1)" by blast
  then obtain evs0 n0 d0 evs' n' where "feed_loop env now (length junk) [0] d0 = Some (evs', n', d1)"
    unfolding feed_loop_append by (auto simp del: feed_loop.simps elim!: feed_thenD)
  then have boundary: "at_boundary d1"
    by (rule feed_loop_zero_boundary) (rule decode_record_discarding)
  have "\<exists>d'. feed_loop env now 0 ((junk @ [0]) @ concat frames) (drop_timed_out now d) =
        Some (evs @ [Message (plain_message opcode rid flags payload)], n + 1, d') \<and>
        at_boundary d' \<and> rd_reassembly d' = None" if "rd_reassembly d1 = None"
    using frames(2) [of d1 "length (junk @ [0])"] that boundary
    unfolding feed_loop_append [of env now 0 "junk @ [0]"] junk
    by (auto simp: feeds_to_def)
  moreover define pre where "pre = (if timed_out now d then report_error (env 0) WIRE_TIMEOUT else [])"
  have feed: "rpc_wire_decoder_feed env now (Some bs) (length bs) d = Some (pre @ evs', n', d')"
    if "feed_loop env now 0 bs (drop_timed_out now d) = Some (evs', n', d')" for bs evs' n' d'
    unfolding feed_unfold pre_def by (simp add: that)
  ultimately have "rd_reassembly d1 = None \<Longrightarrow>
      \<exists>d'. rpc_wire_decoder_feed env now (Some ((junk @ [0]) @ concat frames))
          (length ((junk @ [0]) @ concat frames)) d =
        Some ((pre @ evs) @ [Message (plain_message opcode rid flags payload)], n + 1, d') \<and>
        at_boundary d' \<and> rd_reassembly d' = None"
    unfolding append_assoc [of pre] using feed by blast
  then show ?thesis
    using frames(1) boundary feed [OF junk]
    by - (rule exI [of _ frames], rule exI [of _ "pre @ evs"], rule exI [of _ n], rule exI [of _ d1], blast)
qed

theorem rpc_decoder_resynchronises_witness:
  "\<exists>frames evs n d1. rpc_encode_frames (\<lambda>k n. Some (replicate n 0)) 7 42 0 [1, 0, 3] 0 0 = Inr frames \<and>
    rpc_wire_decoder_feed (\<lambda>_. plain_env) 5 (Some ([9, 0, 8] @ [0])) (length ([9, 0, 8] @ [0 :: u8]))
      rpc_wire_decoder_init = Some (evs, n, d1) \<and> at_boundary d1"
  using rpc_decoder_resynchronises [of 7 0 "[1, 0, 3]" "\<lambda>k n. Some (replicate n 0)" "\<lambda>_. plain_env"
      rpc_wire_decoder_init 42 5 "[9, 0, 8]"]
  by (simp add: sendable_def alloc_good_def rd_inv_init) blast

text \<open>
  Timeout.  A message left open for 30 seconds is dropped with one \<open>TIMEOUT\<close> error and
  does not stand in the way of the next message.
\<close>

lemma rpc_decoder_timeout:
  assumes "opcode \<noteq> 0" "sendable flags" "length payload \<le> 65536" "alloc_good alloc"
    "\<And>i. env_good (env i)" "at_boundary d" "rd_reassembly d \<noteq> None" "now - rd_started_ms d \<ge> 30000"
  shows "\<exists>frames d'. rpc_encode_frames alloc opcode rid flags payload 0 0 = Inr frames \<and>
    rpc_wire_decoder_feed env now (Some (concat frames)) (length (concat frames)) d =
      Some (report_error (env 0) WIRE_TIMEOUT @ [Message (plain_message opcode rid flags payload)], 1, d') \<and>
    at_boundary d' \<and> rd_reassembly d' = None"
proof -
  from encode_message [where env = env and rid = rid and now = now, OF assms(1-5)]
  obtain frames where frames: "rpc_encode_frames alloc opcode rid flags payload 0 0 = Inr frames"
    "\<And>d i. at_boundary d \<Longrightarrow> rd_reassembly d = None \<Longrightarrow>
      feeds_to env now i (concat frames) d [Message (plain_message opcode rid flags payload)]" by metis
  have "at_boundary (drop_timed_out now d)" "rd_reassembly (drop_timed_out now d) = None" "timed_out now d"
    using assms(6-8) by (simp_all add: at_boundary_def drop_timed_out_def timed_out_def)
  with frames(2) [of "drop_timed_out now d" 0] frames(1) show ?thesis
    by (auto simp: feed_unfold feeds_to_def)
qed

definition stale_decoder :: rpc_decoder where
  "stale_decoder = rpc_wire_decoder_init\<lparr>rd_reassembly := Some [1, 2], rd_logical_len := 2, rd_next_offset := 1,
     rd_opcode := 3, rd_started_ms := 1000\<rparr>"

theorem rpc_decoder_timeout_witness:
  "\<exists>frames d'. rpc_encode_frames (\<lambda>k n. Some (replicate n 0)) 7 42 0 [1, 0, 3] 0 0 = Inr frames \<and>
    rpc_wire_decoder_feed (\<lambda>_. plain_env) 31000 (Some (concat frames)) (length (concat frames)) stale_decoder =
      Some (report_error plain_env WIRE_TIMEOUT @ [Message (plain_message 7 42 0 [1, 0, 3])], 1, d') \<and>
    at_boundary d' \<and> rd_reassembly d' = None"
  by (rule rpc_decoder_timeout)
    (simp_all add: sendable_def alloc_good_def at_boundary_def stale_decoder_def rpc_wire_decoder_init_def)

section \<open>Corruption\<close>

lemma parse_record_crc:
  assumes "parse_record n rcd = Inr r"
  shows "28 \<le> n" "read_u32be rcd (n - 4) = rpc_crc32 (Some rcd) (n - 4)"
  using assms by (auto simp: parse_record_def rpc_sizes Let_def split: if_splits)

text \<open>
  C5: Corruption.  When up to four consecutive bytes of a record's header or payload change on
  the way, the decoder makes no callback but the error report, and an open message stays as it
  was: the damaged segment never reaches the reassembly block.
\<close>

theorem rpc_corruption_rejected:
  assumes "length x = length y" "length y \<le> 4" "x \<noteq> y" "length (p @ x @ q) \<le> 7704"
  shows "\<exists>e f. e \<noteq> WIRE_OK \<and>
    decode_record env now
      (d\<lparr>rd_frame := cobs_of (p @ y @ q @ write_u32be (rpc_crc32 (Some (p @ x @ q)) (length (p @ x @ q))))\<rparr>) =
      Some ([], e, False, d\<lparr>rd_frame := f\<rparr>)"
proof -
  define crc where "crc = rpc_crc32 (Some (p @ x @ q)) (length (p @ x @ q))"
  define rcd where "rcd = p @ y @ q @ write_u32be crc"
  have len: "length rcd = length (p @ y @ q) + 4" by (simp add: rcd_def)
  with assms(1,4) have "length rcd \<le> RPC_MAX_FRAME_BYTES" by (simp add: rpc_sizes)
  from cobs.decode_encoded [OF this] obtain frame where
    dec: "rpc_cobs_decode 0 (length (cobs_of rcd)) 0 RPC_MAX_FRAME_BYTES (cobs_of rcd) = (length rcd, frame)"
    and frame: "take (length rcd) frame = rcd"
    by (cases "rpc_cobs_decode 0 (length (cobs_of rcd)) 0 RPC_MAX_FRAME_BYTES (cobs_of rcd)") auto
  have shape: "frame = (p @ y @ q) @ write_u32be crc @ drop (length rcd) frame"
    using frame by (metis append_take_drop_id append_assoc rcd_def)
  have "parse_record (length rcd) frame \<noteq> Inr r" for r
  proof
    assume "parse_record (length rcd) frame = Inr r"
    note parsed = parse_record_crc(2) [OF this]
    have "read_u32be frame (length rcd - 4) = crc"
      by (subst shape) (simp add: len read_write_u32be [of "p @ y @ q", simplified])
    moreover have "rpc_crc32 (Some frame) (length rcd - 4) = rpc_crc32 (Some (p @ y @ q)) (length (p @ y @ q))"
      by (subst shape) (simp add: len rpc_crc32_def rpc_crc32_update_def)
    ultimately show False
      using parsed crc_loop_burst [OF assms(1-3), of "0xffffffff" p q] assms(1)
      by (simp add: crc_def rpc_crc32_def rpc_crc32_update_def xor_right_cancel)
  qed
  then obtain e where "parse_record (length rcd) frame = Inl e"
    by (cases "parse_record (length rcd) frame") auto
  moreover from this have "e \<noteq> WIRE_OK" by (auto simp: parse_record_def Let_def split: if_splits)
  ultimately show ?thesis
    unfolding crc_def [symmetric] rcd_def [symmetric]
    using dec by (auto simp: decode_record_def)
qed

theorem rpc_corruption_rejected_witness:
  "\<exists>e f. e \<noteq> WIRE_OK \<and>
    decode_record plain_env 0
      (rpc_wire_decoder_init\<lparr>rd_frame :=
        cobs_of ([0x45] @ [2, 3] @ [7] @ write_u32be (rpc_crc32 (Some ([0x45] @ [1, 2] @ [7])) (length ([0x45] @ [1, 2] @ [7 :: u8]))))\<rparr>) =
      Some ([], e, False, rpc_wire_decoder_init\<lparr>rd_frame := f\<rparr>)"
  by (rule rpc_corruption_rejected) simp_all

end
