(* ===== verification/Slot_Pool.thy ===== *)
theory Slot_Pool
  imports Prelude
begin

text \<open>
  The interface of a pool of numbered slots: taking a slot gives a free one and nobody else's,
  giving it back makes it free again.  The lemmas about holders are proved here once, for
  every pool that keeps the laws.
\<close>

text \<open>
  The slots \<open>A\<close> are shared out between the free ones \<open>F\<close> and the holders \<open>H\<close>:
  each is free or has exactly one holder.
\<close>

definition shares :: "(nat \<Rightarrow> nat set) \<Rightarrow> nat set \<Rightarrow> nat set \<Rightarrow> bool" where
  "shares H F A \<longleftrightarrow> (\<forall>i. i \<in> A \<longleftrightarrow> i \<in> F \<or> (\<exists>t. i \<in> H t)) \<and> (\<forall>i t. i \<in> H t \<longrightarrow> i \<notin> F) \<and>
     (\<forall>i t u. i \<in> H t \<longrightarrow> i \<in> H u \<longrightarrow> t = u)"

lemma sharesD:
  assumes "shares H F A"
  shows "j \<in> A \<longleftrightarrow> j \<in> F \<or> (\<exists>t. j \<in> H t)" "j \<in> H t \<Longrightarrow> j \<notin> F" "j \<in> H t \<Longrightarrow> j \<in> H u \<Longrightarrow> t = u"
  using assms unfolding shares_def by blast+

lemma shares_take:
  assumes "shares H F A" "i \<in> F"
  shows "shares (H(t := insert i (H t))) (F - {i}) A"
  unfolding shares_def
proof (intro conjI allI impI)
  have mem: "j \<in> (H(t := insert i (H t))) u \<longleftrightarrow> j \<in> H u \<or> u = t \<and> j = i" for j u by auto
  note share = sharesD [OF assms(1)]
  show "j \<in> A \<longleftrightarrow> j \<in> F - {i} \<or> (\<exists>u. j \<in> (H(t := insert i (H t))) u)" for j
    unfolding mem share(1) using assms(2) by (cases "j = i") auto
  show "j \<notin> F - {i}" if "j \<in> (H(t := insert i (H t))) u" for j u
    using that share(2) [of j u] unfolding mem by auto
  show "u = v" if "j \<in> (H(t := insert i (H t))) u" "j \<in> (H(t := insert i (H t))) v" for j u v
    using that share(3) [of j u v] share(2) [of j] assms(2) unfolding mem by auto
qed

lemma shares_give:
  assumes "shares H F A" "i \<in> H t"
  shows "shares (H(t := H t - {i})) (insert i F) A"
  unfolding shares_def
proof (intro conjI allI impI)
  note share = sharesD [OF assms(1)]
  have mem: "j \<in> (H(t := H t - {i})) u \<longleftrightarrow> j \<in> H u \<and> j \<noteq> i" for j u
    using share(3) [OF assms(2), of u] by auto
  show "j \<in> A \<longleftrightarrow> j \<in> insert i F \<or> (\<exists>u. j \<in> (H(t := H t - {i})) u)" for j
    unfolding mem share(1) using assms(2) by (cases "j = i") auto
  show "j \<notin> insert i F" if "j \<in> (H(t := H t - {i})) u" for j u
    using that share(2) [of j u] unfolding mem by auto
  show "u = v" if "j \<in> (H(t := H t - {i})) u" "j \<in> (H(t := H t - {i})) v" for j u v
    using that share(3) [of j u v] unfolding mem by auto
qed

lemma shares_all: "shares (\<lambda>_. {}) A A"
  by (simp add: shares_def)

locale slot_pool =
  fixes pool_inv :: "'p \<Rightarrow> bool"
    and free_slots :: "'p \<Rightarrow> nat set"
    and all_slots :: "'p \<Rightarrow> nat set"
    and take_slot :: "'p \<Rightarrow> (nat \<times> 'p) option"
    and give_slot :: "nat \<Rightarrow> 'p \<Rightarrow> bool \<times> 'p"
  assumes free_subset: "pool_inv p \<Longrightarrow> free_slots p \<subseteq> all_slots p"
    and take_none: "pool_inv p \<Longrightarrow> take_slot p = None \<longleftrightarrow> free_slots p = {}"
    and take_some: "pool_inv p \<Longrightarrow> take_slot p = Some (i, p') \<Longrightarrow>
      pool_inv p' \<and> all_slots p' = all_slots p \<and> i \<in> free_slots p \<and> free_slots p' = free_slots p - {i}"
    and give_fresh: "pool_inv p \<Longrightarrow> give_slot i p = (True, p') \<Longrightarrow>
      pool_inv p' \<and> all_slots p' = all_slots p \<and> i \<in> all_slots p - free_slots p \<and>
      free_slots p' = insert i (free_slots p)"
    and give_held: "pool_inv p \<Longrightarrow> i \<in> all_slots p - free_slots p \<Longrightarrow> fst (give_slot i p)"
    and give_refused: "pool_inv p \<Longrightarrow> give_slot i p = (False, p') \<Longrightarrow>
      pool_inv p' \<and> all_slots p' = all_slots p \<and> free_slots p' = free_slots p"
begin

text \<open>A client that takes and gives; the slots it holds are the list.\<close>

fun holders_run :: "bool list \<Rightarrow> 'p \<Rightarrow> nat list \<Rightarrow> 'p \<times> nat list" where
  "holders_run [] p held = (p, held)"
| "holders_run (True # ops) p held =
     (case take_slot p of None \<Rightarrow> holders_run ops p held
      | Some (i, p') \<Rightarrow> holders_run ops p' (i # held))"
| "holders_run (False # ops) p held =
     (case held of [] \<Rightarrow> holders_run ops p held
      | i # rest \<Rightarrow> holders_run ops (snd (give_slot i p)) rest)"

definition holds :: "'p \<Rightarrow> nat list \<Rightarrow> bool" where
  "holds p held \<longleftrightarrow> pool_inv p \<and> distinct held \<and> set held = all_slots p - free_slots p"

lemma take_holds:
  assumes "holds p held" "take_slot p = Some (i, p')"
  shows "holds p' (i # held)"
  using assms take_some [of p i p'] free_subset [of p] by (auto simp: holds_def)

lemma give_holds:
  assumes "holds p (i # rest)"
  shows "fst (give_slot i p)" "holds (snd (give_slot i p)) rest"
proof -
  have i: "i \<in> all_slots p - free_slots p" and inv: "pool_inv p" using assms by (auto simp: holds_def)
  then show ok: "fst (give_slot i p)" by (rule give_held [rotated])
  then have "give_slot i p = (True, snd (give_slot i p))" by (cases "give_slot i p") simp
  from give_fresh [OF inv this] show "holds (snd (give_slot i p)) rest"
    using assms by (auto simp: holds_def)
qed

text \<open>No slot has two holders, and none is lost, whatever the order of operations.\<close>

lemma holders_run_holds:
  "holds p held \<Longrightarrow> holds (fst (holders_run ops p held)) (snd (holders_run ops p held))"
proof (induction ops p held rule: holders_run.induct)
  case (2 ops p held)
  then show ?case using take_holds by (auto split: option.splits)
next
  case (3 ops p held)
  then show ?case using give_holds by (cases held) auto
qed simp

lemma take_succeeds: "holds p held \<Longrightarrow> length held < card (all_slots p) \<Longrightarrow> take_slot p \<noteq> None"
  using take_none [of p] free_subset [of p] distinct_card [of held] by (auto simp: holds_def)

end

end
