(* ===== verification/Native_Pool.thy ===== *)
theory Native_Pool
  imports Slot_Pool
begin

text \<open>
  \<open>esp32_mquickjs_native_pool.c\<close>: a lock-free pool of up to 128 slots, one bit of four
  32-bit words per slot, set while the slot is free.  First the operations as one caller sees
  them, then \<open>acquire\<close> and \<open>release\<close> as interleaved sequences of atomic steps.
\<close>

section \<open>The operations\<close>

record native_pool =
  free_bits :: "u32 list"
  pool_capacity :: u8

definition NATIVE_POOL_MAX_CAPACITY :: u32 where "NATIVE_POOL_MAX_CAPACITY = 128"
definition NATIVE_POOL_WORD_COUNT :: nat where "NATIVE_POOL_WORD_COUNT = 4"

lemmas native_pool_consts = NATIVE_POOL_MAX_CAPACITY_def NATIVE_POOL_WORD_COUNT_def

definition initial_bits :: "u32 \<Rightarrow> u32 \<Rightarrow> u32" where
  "initial_bits capacity word_index =
     (let first_slot = word_index * 32;
          remaining = (if capacity > first_slot then capacity - first_slot else 0)
      in if remaining \<ge> 32 then -1 else if remaining = 0 then 0
         else push_bit (unat remaining) 1 - 1)"

definition native_pool_init :: "u32 \<Rightarrow> native_pool option" where
  "native_pool_init capacity =
     (if capacity = 0 \<or> capacity > NATIVE_POOL_MAX_CAPACITY then None
      else Some \<lparr>free_bits = map (\<lambda>i. initial_bits capacity (of_nat i)) [0..<NATIVE_POOL_WORD_COUNT],
                 pool_capacity = ucast capacity\<rparr>)"

text \<open>The probe loop; it is entered with a word that is not zero, and would not end on zero.\<close>

function probe_bit :: "u32 \<Rightarrow> nat \<Rightarrow> nat" where
  "probe_bit probe b =
     (if probe = 0 \<or> probe AND 1 \<noteq> 0 then b else probe_bit (drop_bit 1 probe) (b + 1))"
  by pat_completeness auto
termination
proof (relation "measure (\<lambda>(probe, b). unat probe)")
  fix probe :: u32 and b :: nat
  assume "\<not> (probe = 0 \<or> probe AND 1 \<noteq> 0)"
  then have "0 < unat probe" by (simp add: unat_gt_0)
  then show "((drop_bit 1 probe, b + 1), (probe, b)) \<in> measure (\<lambda>(probe, b). unat probe)"
    by (simp add: unat_drop_1)
qed simp

declare probe_bit.simps [simp del]

text \<open>\<open>UINT32_C(1) << bit\<close>\<close>

definition slot_mask :: "nat \<Rightarrow> u32" where
  "slot_mask b = push_bit b 1"

definition clear_bit :: "u32 \<Rightarrow> nat \<Rightarrow> u32" where
  "clear_bit w b = w AND NOT (slot_mask b)"

text \<open>
  \<open>acquire\<close> without contention: the first compare-and-exchange succeeds.  The index is kept
  in 16 bits and compared with the capacity after the bit is taken.
\<close>

function acquire_loop :: "native_pool \<Rightarrow> nat \<Rightarrow> (u16 \<times> bool \<times> native_pool) option" where
  "acquire_loop p wi =
     (if wi \<ge> NATIVE_POOL_WORD_COUNT then None
      else let current = free_bits p ! wi
        in if current \<noteq> 0 then
             let b = probe_bit current 0;
                 out = (of_nat (wi * 32 + b) :: u16)
             in Some (out, out < ucast (pool_capacity p),
                  p\<lparr>free_bits := (free_bits p)[wi := clear_bit current b]\<rparr>)
           else acquire_loop p (wi + 1))"
  by pat_completeness auto
termination by (relation "measure (\<lambda>(p, wi). NATIVE_POOL_WORD_COUNT - wi)") auto

declare acquire_loop.simps [simp del]

definition native_pool_acquire :: "native_pool \<Rightarrow> (nat \<times> native_pool) option" where
  "native_pool_acquire p =
     (if pool_capacity p = 0 then None
      else case acquire_loop p 0 of
        None \<Rightarrow> None
      | Some (i, ok, p') \<Rightarrow> if ok then Some (unat i, p') else None)"

definition native_pool_release :: "nat \<Rightarrow> native_pool \<Rightarrow> bool \<times> native_pool" where
  "native_pool_release i p =
     (if i \<ge> unat (pool_capacity p) then (False, p)
      else let wi = i div 32; mask = slot_mask (i mod 32); previous = free_bits p ! wi
        in (previous AND mask = 0, p\<lparr>free_bits := (free_bits p)[wi := previous OR mask]\<rparr>))"

function count_bits :: "u32 \<Rightarrow> nat" where
  "count_bits bits = (if bits = 0 then 0 else unat (bits AND 1) + count_bits (drop_bit 1 bits))"
  by pat_completeness auto
termination
proof (relation "measure unat")
  fix bits :: u32 assume "bits \<noteq> 0"
  then have "0 < unat bits" by (simp add: unat_gt_0)
  then show "(drop_bit 1 bits, bits) \<in> measure unat" by (simp add: unat_drop_1)
qed simp

declare count_bits.simps [simp del]

definition native_pool_available :: "native_pool \<Rightarrow> nat" where
  "native_pool_available p = sum_list (map count_bits (free_bits p))"

section \<open>The set of free slots\<close>

definition pool_free :: "native_pool \<Rightarrow> nat set" where
  "pool_free p = {i. i div 32 < length (free_bits p) \<and> bit (free_bits p ! (i div 32)) (i mod 32)}"

definition pool_slots :: "native_pool \<Rightarrow> nat set" where
  "pool_slots p = {..<unat (pool_capacity p)}"

definition pool_inv :: "native_pool \<Rightarrow> bool" where
  "pool_inv p \<longleftrightarrow> length (free_bits p) = 4 \<and> pool_capacity p \<noteq> 0 \<and>
     unat (pool_capacity p) \<le> 128 \<and> pool_free p \<subseteq> pool_slots p"

lemma bit_drop_1: "bit (drop_bit (Suc 0) w) n = bit w (Suc n)" for w :: u32
  by (simp add: bit_drop_bit_eq)

lemma probe_bit_least:
  "w \<noteq> 0 \<Longrightarrow> \<exists>k. probe_bit w b = b + k \<and> bit w k \<and> (\<forall>j < k. \<not> bit w j)"
proof (induction w b rule: probe_bit.induct)
  case (1 w b)
  show ?case
  proof (cases "w AND 1 \<noteq> 0")
    case True
    then show ?thesis using 1(2) by (simp add: probe_bit.simps [of w] and_one_eq bit_0 odd_iff_mod_2_eq_one)
  next
    case False
    then have even: "\<not> bit w 0" by (simp add: and_one_eq bit_0 odd_iff_mod_2_eq_one)
    have "drop_bit 1 w \<noteq> 0"
    proof
      assume zero: "drop_bit 1 w = 0"
      have "\<not> bit w n" for n
        using even bit_drop_1 [of w "n - 1"] zero by (cases n) auto
      then have "w = 0" by (intro bit_word_eqI) simp
      then show False using 1(2) by simp
    qed
    with 1 False obtain k where k: "probe_bit (drop_bit 1 w) (b + 1) = b + 1 + k"
      "bit w (Suc k)" "\<forall>j < k. \<not> bit w (Suc j)"
      by (auto simp: bit_drop_1)
    have "\<forall>j < Suc k. \<not> bit w j" using k(3) even by (auto simp: less_Suc_eq_0_disj)
    then show ?thesis using k 1(2) False by (intro exI [of _ "Suc k"]) (simp add: probe_bit.simps [of w])
  qed
qed

lemma probe_bit_0:
  assumes "w \<noteq> 0"
  shows "bit w (probe_bit w 0)" "j < probe_bit w 0 \<Longrightarrow> \<not> bit w j" "probe_bit w 0 < 32"
  using probe_bit_least [OF assms, of 0] by (auto dest: bit_imp_le_length)

lemma count_bits_card: "count_bits w = card {n. bit w n}"
proof (induction w rule: count_bits.induct)
  case (1 w)
  show ?case
  proof (cases "w = 0")
    case True
    then show ?thesis by (simp add: count_bits.simps)
  next
    case False
    let ?low = "if bit w 0 then {0 :: nat} else {}"
    have split: "{n. bit w n} = ?low \<union> Suc ` {n. bit (drop_bit 1 w) n}"
    proof (intro set_eqI)
      fix n show "n \<in> {n. bit w n} \<longleftrightarrow> n \<in> ?low \<union> Suc ` {n. bit (drop_bit 1 w) n}"
        by (cases n) (auto simp: bit_drop_1)
    qed
    have "finite {n. bit (drop_bit 1 w) n}"
      by (rule finite_subset [of _ "{..<32}"]) (auto dest: bit_imp_le_length)
    then have "card {n. bit w n} = card ?low + card {n. bit (drop_bit 1 w) n}"
      by (subst split, subst card_Un_disjoint) (auto simp: card_image)
    moreover have "w AND 1 = of_bool (bit w 0)" by (simp add: and_one_eq mod_2_eq_odd bit_0)
    then have "unat (w AND 1) = card ?low" by (cases "bit w 0") simp_all
    ultimately show ?thesis using 1 False by (simp add: count_bits.simps [of w])
  qed
qed

lemma bit_slot_mask: "bit (slot_mask b) n \<longleftrightarrow> b < 32 \<and> n = b"
  by (auto simp: slot_mask_def bit_exp_iff)

lemma bit_clear: "bit (clear_bit w b) n \<longleftrightarrow> bit w n \<and> n \<noteq> b"
  by (auto simp: clear_bit_def bit_and_iff bit_not_iff bit_slot_mask dest: bit_imp_le_length)

lemma bit_set: "b < 32 \<Longrightarrow> bit (w OR slot_mask b) n \<longleftrightarrow> bit w n \<or> n = b"
  by (auto simp: bit_or_iff bit_slot_mask)

lemma bit_test: "b < 32 \<Longrightarrow> w AND slot_mask b = 0 \<longleftrightarrow> \<not> bit w b"
proof -
  assume b: "b < 32"
  have "w AND slot_mask b = 0 \<longleftrightarrow> (\<forall>n < 32. \<not> bit (w AND slot_mask b) n)"
    using bit_word_eqI [of "w AND slot_mask b" 0] by auto
  also have "\<dots> \<longleftrightarrow> \<not> bit w b" using b by (auto simp: bit_and_iff bit_slot_mask)
  finally show ?thesis .
qed

text \<open>Changing one word changes the slots of that word.\<close>

lemma pool_free_update:
  assumes "wi < length (free_bits p)"
  shows "i \<in> pool_free (p\<lparr>free_bits := (free_bits p)[wi := w]\<rparr>) \<longleftrightarrow>
    (if i div 32 = wi then bit w (i mod 32) else i \<in> pool_free p)"
  using assms by (auto simp: pool_free_def nth_list_update)

lemma slot_eq_iff: "b < 32 \<Longrightarrow> i = wi * 32 + b \<longleftrightarrow> i div 32 = wi \<and> i mod 32 = b" for i :: nat
  by (metis add.right_neutral div_less div_mult_self3 mod_less mod_mult_self3 mult_div_mod_eq
      mult.commute zero_neq_numeral)

lemma pool_free_clear:
  assumes "wi < length (free_bits p)" "b < 32"
  shows "pool_free (p\<lparr>free_bits := (free_bits p)[wi := clear_bit (free_bits p ! wi) b]\<rparr>) =
    pool_free p - {wi * 32 + b}"
  unfolding set_eq_iff pool_free_update [OF assms(1)] Diff_iff singleton_iff slot_eq_iff [OF assms(2)]
  using assms(1) by (auto simp: pool_free_def bit_clear)

lemma pool_free_set:
  assumes "i div 32 < length (free_bits p)"
  shows "pool_free (p\<lparr>free_bits := (free_bits p)[i div 32 := free_bits p ! (i div 32) OR slot_mask (i mod 32)]\<rparr>) =
    insert i (pool_free p)"
  unfolding set_eq_iff pool_free_update [OF assms]
proof
  fix j
  have "j = i \<longleftrightarrow> j div 32 = i div 32 \<and> j mod 32 = i mod 32"
    using slot_eq_iff [of "i mod 32" j "i div 32"] by simp
  then show "(if j div 32 = i div 32 then bit (free_bits p ! (i div 32) OR slot_mask (i mod 32)) (j mod 32)
      else j \<in> pool_free p) \<longleftrightarrow> j \<in> insert i (pool_free p)"
    using assms by (auto simp: pool_free_def bit_set)
qed

section \<open>What each operation does to the set\<close>

lemma bit_initial:
  assumes "i < 4" "unat capacity \<le> 128"
  shows "bit (initial_bits capacity (of_nat i)) n \<longleftrightarrow> n < 32 \<and> 32 * i + n < unat capacity"
proof -
  have first: "unat (of_nat i * 32 :: u32) = 32 * i"
    using assms(1) by (simp add: unat_mult_lem [THEN iffD1] unat_of_nat take_bit_nat_eq_self)
  define r where "r = (if capacity > of_nat i * 32 then capacity - of_nat i * 32 else 0)"
  have r: "unat r = unat capacity - 32 * i"
    by (simp add: r_def word_less_nat_alt word_le_nat_alt first unat_sub_le)
  have "bit (push_bit (unat r) 1 - 1 :: u32) n \<longleftrightarrow> n < 32 \<and> n < unat r" if "unat r < 32"
    using that by (simp add: bit_mask_iff flip: mask_eq_exp_minus_1)
  moreover have "r = 0 \<longleftrightarrow> unat r = 0" "32 \<le> r \<longleftrightarrow> 32 \<le> unat r"
    by (simp_all add: unat_eq_0 word_le_nat_alt)
  ultimately show ?thesis
    by (auto simp: initial_bits_def r_def [symmetric] Let_def r)
qed

lemma native_pool_init_free:
  assumes "native_pool_init capacity = Some p"
  shows "pool_inv p" "pool_free p = {..<unat capacity}" "unat (pool_capacity p) = unat capacity"
proof -
  have c: "capacity \<noteq> 0" "unat capacity \<le> 128" and
    p: "p = \<lparr>free_bits = map (\<lambda>i. initial_bits capacity (of_nat i)) [0..<4], pool_capacity = ucast capacity\<rparr>"
    using assms by (auto simp: native_pool_init_def native_pool_consts word_less_nat_alt split: if_splits)
  show cap: "unat (pool_capacity p) = unat capacity"
    using c(2) by (simp add: p unsigned_ucast_eq take_bit_nat_eq_self)
  have "i \<in> pool_free p \<longleftrightarrow> i < unat capacity" for i
  proof (cases "i div 32 < 4")
    case True
    have "(32 * (i div 32) + i mod 32 < unat capacity) = (i < unat capacity)" by simp
    then show ?thesis using True c(2) by (simp add: p pool_free_def bit_initial)
  qed (use c(2) in \<open>auto simp: p pool_free_def\<close>)
  then show free: "pool_free p = {..<unat capacity}" by auto
  have "pool_capacity p \<noteq> 0" using cap c(1) by (metis unat_eq_0)
  then show "pool_inv p" using c cap free by (simp add: pool_inv_def pool_slots_def p)
qed

lemma acquire_loop_free:
  assumes "length (free_bits p) = 4" "pool_free p \<subseteq> pool_slots p"
  shows "case acquire_loop p wi of
      None \<Rightarrow> \<forall>j \<in> pool_free p. j < 32 * wi
    | Some (i, ok, p') \<Rightarrow> unat i \<in> pool_free p \<and> (\<forall>j \<in> pool_free p. 32 * wi \<le> j \<longrightarrow> unat i \<le> j) \<and>
        ok \<and> pool_capacity p' = pool_capacity p \<and> length (free_bits p') = 4 \<and> pool_free p' = pool_free p - {unat i}"
  using assms
proof (induction p wi rule: acquire_loop.induct)
  case (1 p wi)
  consider "wi \<ge> 4" | "wi < 4" "free_bits p ! wi = 0" | "wi < 4" "free_bits p ! wi \<noteq> 0" by linarith
  then show ?case
  proof cases
    case 1
    then have "\<forall>j \<in> pool_free p. j < 32 * wi" using "1.prems"(1) by (auto simp: pool_free_def)
    then show ?thesis using 1 by (simp add: acquire_loop.simps native_pool_consts)
  next
    case 2
    then have skip: "j \<in> pool_free p \<Longrightarrow> j div 32 \<noteq> wi" for j by (auto simp: pool_free_def)
    then have next_word: "j \<in> pool_free p \<Longrightarrow> 32 * wi \<le> j \<Longrightarrow> 32 * (wi + 1) \<le> j" for j
      using le_less_linear [of "32 * (wi + 1)" j] by fastforce
    have last_word: "j \<in> pool_free p \<Longrightarrow> j < 32 * (wi + 1) \<Longrightarrow> j < 32 * wi" for j
      using next_word [of j] by linarith
    have step: "acquire_loop p wi = acquire_loop p (wi + 1)"
      using 2 by (subst acquire_loop.simps) (simp add: native_pool_consts)
    have "\<not> NATIVE_POOL_WORD_COUNT \<le> wi" using 2 by (simp add: native_pool_consts)
    note IH = "1.IH" [OF this refl _ "1.prems"]
    show ?thesis
    proof (cases "acquire_loop p (wi + 1)")
      case None
      then show ?thesis using IH 2 step last_word by simp
    next
      case (Some r)
      obtain i ok p' where r: "r = (i, ok, p')" by (cases r)
      then show ?thesis using IH 2 step Some next_word by simp
    qed
  next
    case 3
    define b where "b = probe_bit (free_bits p ! wi) 0"
    note b = probe_bit_0 [OF 3(2), folded b_def]
    have len: "wi < length (free_bits p)" using 3 "1.prems"(1) by simp
    have free: "wi * 32 + b \<in> pool_free p" using b len by (simp add: pool_free_def)
    define out where "out = (of_nat (wi * 32 + b) :: u16)"
    have small: "unat out = wi * 32 + b"
      unfolding out_def using 3 b(3) by (intro unat_of_nat_lt) simp
    have cap: "wi * 32 + b < unat (pool_capacity p)"
      using free "1.prems"(2) by (auto simp: pool_slots_def)
    have least: "wi * 32 + b \<le> j" if "j \<in> pool_free p" "32 * wi \<le> j" for j
    proof -
      have j: "j = 32 * (j div 32) + j mod 32" by simp
      have "wi \<le> j div 32" using that(2) div_le_mono [of "32 * wi" j 32] by simp
      then consider "j div 32 = wi" | "wi + 1 \<le> j div 32" by linarith
      then show ?thesis
      proof cases
        case 1
        then have "bit (free_bits p ! wi) (j mod 32)" using that by (auto simp: pool_free_def)
        then have "b \<le> j mod 32" using b(2) by (meson not_le)
        then show ?thesis using j 1 by linarith
      next
        case 2
        then show ?thesis using j b(3) by linarith
      qed
    qed
    have "out < ucast (pool_capacity p)"
      using cap small by (simp only: word_less_nat_alt unat_ucast_8_16)
    moreover have "\<not> NATIVE_POOL_WORD_COUNT \<le> wi" using 3 by (simp add: native_pool_consts)
    ultimately have "acquire_loop p wi = Some (out, True,
        p\<lparr>free_bits := (free_bits p)[wi := clear_bit (free_bits p ! wi) b]\<rparr>)"
      using 3(2) by (subst acquire_loop.simps) (simp only: Let_def b_def [symmetric] out_def [symmetric]
        if_True if_False not_False_eq_True)
    then show ?thesis
      using free least small pool_free_clear [OF len b(3)] "1.prems"(1) by simp
  qed
qed

lemma native_pool_acquire_none:
  assumes "pool_inv p"
  shows "native_pool_acquire p = None \<longleftrightarrow> pool_free p = {}"
  using acquire_loop_free [of p 0] assms
  by (auto simp: native_pool_acquire_def pool_inv_def split: option.splits)

lemma native_pool_acquire_some:
  assumes "pool_inv p" "native_pool_acquire p = Some (i, p')"
  shows "pool_inv p'" "pool_slots p' = pool_slots p" "i \<in> pool_free p" "\<And>j. j \<in> pool_free p \<Longrightarrow> i \<le> j"
    "pool_free p' = pool_free p - {i}"
  using acquire_loop_free [of p 0] assms
  by (auto simp: native_pool_acquire_def pool_inv_def pool_slots_def split: option.splits if_splits)

lemma native_pool_release_free:
  assumes "pool_inv p" "native_pool_release i p = (ok, p')"
  shows "ok \<longleftrightarrow> i \<in> pool_slots p - pool_free p" "pool_inv p'" "pool_slots p' = pool_slots p"
    "pool_free p' = (if i \<in> pool_slots p then insert i (pool_free p) else pool_free p)"
proof -
  have len: "i div 32 < length (free_bits p)" if "i \<in> pool_slots p"
    using that assms(1) by (auto simp: pool_inv_def pool_slots_def)
  then have free: "i \<in> pool_free p \<longleftrightarrow> bit (free_bits p ! (i div 32)) (i mod 32)" if "i \<in> pool_slots p"
    using that by (simp add: pool_free_def)
  have "native_pool_release i p =
    (if i \<in> pool_slots p
     then (i \<notin> pool_free p,
        p\<lparr>free_bits := (free_bits p)[i div 32 := free_bits p ! (i div 32) OR slot_mask (i mod 32)]\<rparr>)
     else (False, p))"
    using free by (auto simp: native_pool_release_def pool_slots_def Let_def bit_test)
  then have rel: "ok = (i \<in> pool_slots p \<and> i \<notin> pool_free p)"
    "p' = (if i \<in> pool_slots p
      then p\<lparr>free_bits := (free_bits p)[i div 32 := free_bits p ! (i div 32) OR slot_mask (i mod 32)]\<rparr> else p)"
    using assms(2) by (auto split: if_splits)
  show "ok \<longleftrightarrow> i \<in> pool_slots p - pool_free p" by (simp add: rel)
  show slots: "pool_slots p' = pool_slots p" by (simp add: rel pool_slots_def)
  show f: "pool_free p' = (if i \<in> pool_slots p then insert i (pool_free p) else pool_free p)"
    using pool_free_set [OF len] by (simp add: rel)
  have "length (free_bits p') = length (free_bits p)" "pool_capacity p' = pool_capacity p"
    by (simp_all add: rel)
  then show "pool_inv p'" using assms(1) f slots by (auto simp: pool_inv_def)
qed

lemma native_pool_available_card:
  assumes "pool_inv p"
  shows "native_pool_available p = card (pool_free p)"
proof -
  have four: "length (free_bits p) = 4" using assms by (simp add: pool_inv_def)
  define slots where "slots wi = (\<lambda>b. wi * 32 + b) ` {b. bit (free_bits p ! wi) b}" for wi
  have in_slots: "i \<in> slots wi \<longleftrightarrow> i div 32 = wi \<and> bit (free_bits p ! wi) (i mod 32)" for i wi
  proof
    assume "i \<in> slots wi"
    then obtain b where "bit (free_bits p ! wi) b" "i = wi * 32 + b" by (auto simp: slots_def)
    then show "i div 32 = wi \<and> bit (free_bits p ! wi) (i mod 32)"
      using slot_eq_iff [of b i wi] bit_imp_le_length [of "free_bits p ! wi" b] by simp
  next
    assume "i div 32 = wi \<and> bit (free_bits p ! wi) (i mod 32)"
    then show "i \<in> slots wi"
      using slot_eq_iff [of "i mod 32" i wi] by (auto simp: slots_def)
  qed
  have all: "pool_free p = (\<Union>wi \<in> {..<4}. slots wi)"
  proof (intro set_eqI)
    fix i
    show "i \<in> pool_free p \<longleftrightarrow> i \<in> (\<Union>wi \<in> {..<4}. slots wi)"
      by (auto simp: pool_free_def four in_slots)
  qed
  moreover have "slots wi \<inter> slots wj = {}" if "wi \<noteq> wj" for wi wj
    using that by (auto simp: in_slots)
  moreover have "finite {b. bit w b}" for w :: u32
    by (rule finite_subset [of _ "{..<32}"]) (auto dest: bit_imp_le_length)
  then have "finite (slots wi)" "card (slots wi) = count_bits (free_bits p ! wi)" for wi
    by (auto simp: slots_def count_bits_card card_image inj_on_def)
  ultimately have "card (pool_free p) = (\<Sum>wi < 4. count_bits (free_bits p ! wi))"
    unfolding all by (subst card_UN_disjoint) auto
  then show ?thesis
    using four by (simp add: native_pool_available_def sum_list_sum_nth atLeast0LessThan)
qed

interpretation native: slot_pool pool_inv pool_free pool_slots native_pool_acquire native_pool_release
proof (unfold_locales, goal_cases)
  case (1 p) then show ?case by (simp add: pool_inv_def)
next
  case (2 p) then show ?case by (rule native_pool_acquire_none)
next
  case (3 p i p') then show ?case using native_pool_acquire_some by blast
next
  case (4 p i p')
  note free = native_pool_release_free [OF this]
  show ?case using free by auto
next
  case (5 p i)
  then show ?case using native_pool_release_free(1) [of p i "fst (native_pool_release i p)" "snd (native_pool_release i p)"] by simp
next
  case (6 p i p')
  note free = native_pool_release_free [OF this]
  show ?case using free by auto
qed

section \<open>Interleaved threads\<close>

text \<open>
  Every atomic access is one step; between two steps of a thread any other thread may run.
  \<open>Load w\<close> is before the load of word \<open>w\<close>, \<open>Cas w current\<close> before the weak
  compare-and-exchange, which may fail without reason and then reloads \<open>current\<close>.  \<open>held\<close>
  records the slots a thread has got and not given back.
\<close>

datatype pool_pc = Idle | Load nat | Cas nat u32

record pool_sys =
  sys_pool :: native_pool
  sys_pc :: "nat \<Rightarrow> pool_pc"
  held :: "nat \<Rightarrow> nat set"

definition after_load :: "nat \<Rightarrow> u32 \<Rightarrow> pool_pc" where
  "after_load w current = (if current = 0 then Load (w + 1) else Cas w current)"

inductive pool_step :: "pool_sys \<Rightarrow> pool_sys \<Rightarrow> bool" where
  acquire_call: "sys_pc s t = Idle \<Longrightarrow> pool_step s (s\<lparr>sys_pc := (sys_pc s)(t := Load 0)\<rparr>)"
| load_word: "sys_pc s t = Load w \<Longrightarrow> w < NATIVE_POOL_WORD_COUNT \<Longrightarrow>
    pool_step s (s\<lparr>sys_pc := (sys_pc s)(t := after_load w (free_bits (sys_pool s) ! w))\<rparr>)"
| exhausted: "sys_pc s t = Load w \<Longrightarrow> \<not> w < NATIVE_POOL_WORD_COUNT \<Longrightarrow>
    pool_step s (s\<lparr>sys_pc := (sys_pc s)(t := Idle)\<rparr>)"
| cas_fail: "sys_pc s t = Cas w current \<Longrightarrow>
    pool_step s (s\<lparr>sys_pc := (sys_pc s)(t := after_load w (free_bits (sys_pool s) ! w))\<rparr>)"
| cas_ok: "sys_pc s t = Cas w current \<Longrightarrow> free_bits (sys_pool s) ! w = current \<Longrightarrow>
    slot = w * 32 + probe_bit current 0 \<Longrightarrow>
    pool_step s
      (s\<lparr>sys_pool := (sys_pool s)\<lparr>free_bits := (free_bits (sys_pool s))[w := clear_bit current (probe_bit current 0)]\<rparr>,
         sys_pc := (sys_pc s)(t := Idle),
         held := (if slot < unat (pool_capacity (sys_pool s))
           then (held s)(t := insert slot (held s t)) else held s)\<rparr>)"
| release_slot: "sys_pc s t = Idle \<Longrightarrow> i \<in> held s t \<Longrightarrow>
    pool_step s
      (s\<lparr>sys_pool := snd (native_pool_release i (sys_pool s)), held := (held s)(t := held s t - {i})\<rparr>)"

inductive_cases pool_stepE: "pool_step s s'"

inductive pool_reachable :: "native_pool \<Rightarrow> pool_sys \<Rightarrow> bool" for p where
  start: "pool_reachable p \<lparr>sys_pool = p, sys_pc = (\<lambda>_. Idle), held = (\<lambda>_. {})\<rparr>"
| step: "pool_reachable p s \<Longrightarrow> pool_step s s' \<Longrightarrow> pool_reachable p s'"

text \<open>
  The slots are shared out: each is free or has exactly one holder.  A thread about to
  exchange a word looks at a word of the pool with a bit in it.
\<close>

definition pool_sys_inv :: "nat \<Rightarrow> pool_sys \<Rightarrow> bool" where
  "pool_sys_inv capacity s \<longleftrightarrow>
     pool_inv (sys_pool s) \<and> unat (pool_capacity (sys_pool s)) = capacity \<and>
     shares (held s) (pool_free (sys_pool s)) {..<capacity} \<and>
     (\<forall>t w current. sys_pc s t = Cas w current \<longrightarrow> w < 4 \<and> current \<noteq> 0)"

lemma pool_sys_inv_pc:
  assumes "pool_sys_inv capacity s" "\<And>w current. pc = Cas w current \<Longrightarrow> w < 4 \<and> current \<noteq> 0"
  shows "pool_sys_inv capacity (s\<lparr>sys_pc := (sys_pc s)(t := pc)\<rparr>)"
  using assms by (simp add: pool_sys_inv_def)

lemma pool_sys_inv_cas:
  assumes "pool_sys_inv capacity s" "sys_pc s t = Cas w current" "free_bits (sys_pool s) ! w = current"
    "slot = w * 32 + probe_bit current 0"
  shows "pool_sys_inv capacity
      (s\<lparr>sys_pool := (sys_pool s)\<lparr>free_bits := (free_bits (sys_pool s))[w := clear_bit current (probe_bit current 0)]\<rparr>,
         sys_pc := (sys_pc s)(t := Idle),
         held := (if slot < unat (pool_capacity (sys_pool s))
           then (held s)(t := insert slot (held s t)) else held s)\<rparr>)"
proof -
  let ?p = "sys_pool s"
  let ?p' = "?p\<lparr>free_bits := (free_bits ?p)[w := clear_bit current (probe_bit current 0)]\<rparr>"
  have w: "w < 4" "current \<noteq> 0" and inv: "pool_inv ?p" using assms(1,2) by (auto simp: pool_sys_inv_def)
  then have len: "w < length (free_bits ?p)" by (simp add: pool_inv_def)
  note b = probe_bit_0 [OF w(2)]
  have taken: "slot \<in> pool_free ?p" using b len assms(3,4) by (simp add: pool_free_def)
  then have fits: "slot < unat (pool_capacity ?p)" using inv by (auto simp: pool_inv_def pool_slots_def)
  have rest: "pool_free ?p' = pool_free ?p - {slot}"
    using pool_free_clear [OF len b(3)] assms(3,4) by simp
  then have "pool_inv ?p'" using inv by (auto simp: pool_inv_def pool_slots_def)
  moreover have "shares ((held s)(t := insert slot (held s t))) (pool_free ?p') {..<capacity}"
    using assms(1) shares_take [OF _ taken] by (simp add: rest pool_sys_inv_def)
  ultimately show ?thesis
    using assms(1) fits by (simp add: pool_sys_inv_def)
qed

lemma pool_sys_inv_release:
  assumes "pool_sys_inv capacity s" "i \<in> held s t"
  shows "pool_sys_inv capacity
      (s\<lparr>sys_pool := snd (native_pool_release i (sys_pool s)), held := (held s)(t := held s t - {i})\<rparr>)"
proof -
  let ?p = "sys_pool s"
  obtain ok p' where rel: "native_pool_release i ?p = (ok, p')" by (cases "native_pool_release i ?p")
  have inv: "pool_inv ?p" using assms(1) by (simp add: pool_sys_inv_def)
  note free = native_pool_release_free [OF inv rel]
  have i: "i \<in> pool_slots ?p" using assms by (auto simp: pool_sys_inv_def pool_slots_def shares_def)
  have cap: "unat (pool_capacity p') = unat (pool_capacity ?p)"
    using free(3) by (metis lessThan_eq_iff pool_slots_def)
  have "shares ((held s)(t := held s t - {i})) (insert i (pool_free ?p)) {..<capacity}"
    using assms by (intro shares_give) (simp_all add: pool_sys_inv_def)
  then show ?thesis
    using assms(1) free i cap rel by (simp add: pool_sys_inv_def)
qed

lemma pool_sys_inv_step:
  assumes "pool_step s s'" "pool_sys_inv capacity s"
  shows "pool_sys_inv capacity s'"
  using assms(1)
proof (cases rule: pool_step.cases)
  case (cas_ok t w current slot)
  then show ?thesis using pool_sys_inv_cas [OF assms(2)] by metis
next
  case (release_slot t i)
  then show ?thesis using pool_sys_inv_release [OF assms(2)] by blast
next
  case (cas_fail t w current)
  then show ?thesis
    using assms(2) by (auto simp: after_load_def pool_sys_inv_def)
qed (use assms(2) in \<open>auto simp: after_load_def NATIVE_POOL_WORD_COUNT_def intro!: pool_sys_inv_pc\<close>)

section \<open>Properties\<close>

text \<open>
  The pool implements a set of free slots.  On a pool of capacity \<open>n\<close> from
  \<open>init\<close> on: \<open>acquire\<close> gives the lowest free slot and fails exactly when there is none,
  \<open>release\<close> says whether the slot was taken, and \<open>available\<close> counts the free slots.
\<close>

lemma native_pool_refines_set:
  assumes "pool_inv p"
  shows "(native_pool_acquire p = None \<longleftrightarrow> pool_free p = {}) \<and>
    (\<forall>i p'. native_pool_acquire p = Some (i, p') \<longrightarrow>
       pool_inv p' \<and> i = Min (pool_free p) \<and> pool_free p' = pool_free p - {i}) \<and>
    (\<forall>i. fst (native_pool_release i p) = (i < unat (pool_capacity p) \<and> i \<notin> pool_free p)) \<and>
    native_pool_available p = card (pool_free p)"
proof -
  have fin: "finite (pool_free p)"
    using assms finite_subset by (auto simp: pool_inv_def pool_slots_def)
  have "i = Min (pool_free p)" if "native_pool_acquire p = Some (i, p')" for i p'
    using native_pool_acquire_some [OF assms that] fin by (intro Min_eqI [symmetric]) auto
  moreover have "fst (native_pool_release i p) = (i \<in> pool_slots p - pool_free p)" for i
    using native_pool_release_free(1) [OF assms, of i] by (metis prod.collapse)
  ultimately show ?thesis
    using native_pool_acquire_none [OF assms] native_pool_acquire_some [OF assms]
      native_pool_available_card [OF assms]
    by (auto simp: pool_slots_def)
qed

definition pool_of_40 :: native_pool where
  "pool_of_40 = \<lparr>free_bits = [0xfffffff0, 0xff, 0, 0], pool_capacity = 40\<rparr>"

lemma pool_of_40_inv: "pool_inv pool_of_40"
proof -
  have ff: "(0xff :: u32) = mask 8" by (simp add: mask_eq_exp_minus_1)
  have "i < 40" if "i \<in> pool_free pool_of_40" for i
  proof -
    have i: "i = 32 * (i div 32) + i mod 32" "i mod 32 < 32" by simp_all
    from that have "i div 32 < 4" by (simp add: pool_free_def pool_of_40_def)
    then consider "i div 32 = 0" | "i div 32 = 1" | "i div 32 = 2" | "i div 32 = 3" by linarith
    then show ?thesis
    proof cases
      case 2
      then have "i mod 32 < 8" using that by (simp add: pool_free_def pool_of_40_def ff bit_mask_iff)
      with 2 i show ?thesis by linarith
    qed (use that i in \<open>simp_all add: pool_free_def pool_of_40_def\<close>)
  qed
  then show ?thesis by (auto simp: pool_inv_def pool_slots_def pool_of_40_def)
qed

theorem native_pool_refines_set_witness:
  "native_pool_available pool_of_40 = card (pool_free pool_of_40) \<and>
    fst (native_pool_release 1 pool_of_40) \<and> \<not> fst (native_pool_release 4 pool_of_40)"
proof -
  have "4 \<in> pool_free pool_of_40" "1 \<notin> pool_free pool_of_40"
    by (simp_all add: pool_free_def pool_of_40_def)
  then show ?thesis
    using native_pool_refines_set [OF pool_of_40_inv] by (simp add: pool_of_40_def)
qed

text \<open>
  C7: Exclusive ownership under interleaving.  Whatever the threads do, step by step and
  with compare-and-exchange failing at will, no slot has two owners, none is lost, and an
  owned slot is never in the free bits.
\<close>

theorem native_pool_exclusive:
  assumes "native_pool_init capacity = Some p" "pool_reachable p s"
  shows "(\<forall>t u. t \<noteq> u \<longrightarrow> held s t \<inter> held s u = {}) \<and>
    (\<Union>t. held s t) \<inter> pool_free (sys_pool s) = {} \<and>
    (\<Union>t. held s t) \<union> pool_free (sys_pool s) = {..<unat capacity}"
proof -
  have "pool_sys_inv (unat capacity) s"
    using assms(2)
  proof induction
    case start
    then show ?case using native_pool_init_free [OF assms(1)] by (simp add: pool_sys_inv_def shares_all)
  next
    case (step s s')
    then show ?case using pool_sys_inv_step by blast
  qed
  then show ?thesis by (simp add: pool_sys_inv_def shares_def) blast
qed

theorem native_pool_exclusive_witness:
  "\<exists>p (s :: pool_sys). native_pool_init 3 = Some p \<and> held s 7 = {0} \<and>
    (\<Union>t. held s t) \<inter> pool_free (sys_pool s) = {} \<and>
    (\<Union>t. held s t) \<union> pool_free (sys_pool s) = {..<unat (3 :: u32)}"
proof -
  obtain p where p: "native_pool_init 3 = Some p" and bits: "free_bits p ! 0 = 7" and cap: "pool_capacity p = 3"
    by (simp add: native_pool_init_def native_pool_consts initial_bits_def upt_rec)
  define s0 where "s0 = \<lparr>sys_pool = p, sys_pc = (\<lambda>_. Idle), held = (\<lambda>_. {})\<rparr>"
  define s1 where "s1 = s0\<lparr>sys_pc := (sys_pc s0)(7 := Load 0)\<rparr>"
  define s2 where "s2 = s1\<lparr>sys_pc := (sys_pc s1)(7 := Cas 0 7)\<rparr>"
  have probe: "probe_bit 7 0 = 0" by (simp add: probe_bit.simps)
  have "pool_reachable p s0" unfolding s0_def by (rule start)
  moreover have "pool_step s0 s1" unfolding s1_def by (rule acquire_call) (simp add: s0_def)
  ultimately have "pool_reachable p s1" by (rule pool_reachable.step)
  moreover have "pool_step s1 s2"
    using load_word [of s1 7 0] bits by (simp add: s2_def s1_def s0_def after_load_def NATIVE_POOL_WORD_COUNT_def)
  ultimately have "pool_reachable p s2" by (rule pool_reachable.step)
  moreover define s3 where "s3 = s2\<lparr>sys_pool := (sys_pool s2)\<lparr>free_bits :=
      (free_bits (sys_pool s2))[0 := clear_bit 7 (probe_bit 7 0)]\<rparr>,
      sys_pc := (sys_pc s2)(7 := Idle),
      held := (if (0 :: nat) < unat (pool_capacity (sys_pool s2))
        then (held s2)(7 := insert 0 (held s2 7)) else held s2)\<rparr>"
  have "pool_step s2 s3"
    unfolding s3_def by (rule cas_ok) (simp_all add: s2_def s1_def s0_def bits probe)
  ultimately have reach: "pool_reachable p s3" by (blast intro: pool_reachable.step)
  have "held s3 7 = {0}" by (simp add: s3_def s2_def s1_def s0_def cap)
  note s3 = conjI [OF p conjI [OF this native_pool_exclusive [OF p reach, THEN conjunct2]]]
  show ?thesis by (rule exI [of _ p], rule exI [of _ s3], rule s3)
qed

end
