(* ===== verification/Native_Lease.thy ===== *)
theory Native_Lease
  imports Native_Pool
begin

text \<open>
  \<open>esp32_mquickjs_native_lease.c\<close>: a reference count over a pool slot.  The slot goes
  back to the pool when close was requested and the last reference is released.  First the
  operations as one caller sees them, then the atomic steps of threads that interleave.
\<close>

section \<open>The operations\<close>

record native_lease =
  lease_generation :: u32
  lease_slot :: u16
  retain_count :: u32
  close_requested :: bool
  returned :: bool

definition native_lease_init :: "native_pool \<Rightarrow> u16 \<Rightarrow> u32 \<Rightarrow> native_lease option" where
  "native_lease_init p slot generation =
     (if slot \<ge> ucast (pool_capacity p) \<or> generation = 0 then None
      else Some \<lparr>lease_generation = generation, lease_slot = slot, retain_count = 1,
                 close_requested = False, returned = False\<rparr>)"

definition native_lease_is_stale :: "native_lease \<Rightarrow> u32 \<Rightarrow> bool" where
  "native_lease_is_stale l generation \<longleftrightarrow>
     generation = 0 \<or> lease_generation l \<noteq> generation \<or> returned l"

definition native_lease_retain :: "u32 \<Rightarrow> native_lease \<Rightarrow> bool \<times> native_lease" where
  "native_lease_retain generation l =
     (if native_lease_is_stale l generation \<or> close_requested l then (False, l)
      else if retain_count l > 0 \<and> retain_count l < -1
      then (True, l\<lparr>retain_count := retain_count l + 1\<rparr>)
      else (False, l))"

definition native_lease_release ::
  "u32 \<Rightarrow> native_lease \<times> native_pool \<Rightarrow> bool \<times> native_lease \<times> native_pool" where
  "native_lease_release generation lp =
     (let (l, p) = lp; count = retain_count l
      in if native_lease_is_stale l generation then (False, l, p)
         else if count > 0 then
           if count = 1 \<and> \<not> close_requested l then (False, l, p)
           else let l = l\<lparr>retain_count := count - 1\<rparr>
             in if count = 1 then
                  let was_returned = returned l; l = l\<lparr>returned := True\<rparr>
                  in if was_returned then (False, l, p)
                     else let (ok, p) = native_pool_release (unat (lease_slot l)) p in (ok, l, p)
                else (True, l, p)
         else (False, l, p))"

definition native_lease_request_close ::
  "u32 \<Rightarrow> native_lease \<times> native_pool \<Rightarrow> bool \<times> native_lease \<times> native_pool" where
  "native_lease_request_close generation lp =
     (let (l, p) = lp
      in if native_lease_is_stale l generation \<or> close_requested l then (False, l, p)
         else native_lease_release generation (l\<lparr>close_requested := True\<rparr>, p))"

definition native_lease_retain_count :: "native_lease option \<Rightarrow> u32" where
  "native_lease_retain_count l = (case l of None \<Rightarrow> 0 | Some l \<Rightarrow> retain_count l)"

text \<open>The slot is taken until the lease is returned, and it is returned when the count is 0.\<close>

definition lease_inv :: "native_lease \<times> native_pool \<Rightarrow> bool" where
  "lease_inv lp \<longleftrightarrow> (case lp of (l, p) \<Rightarrow>
     pool_inv p \<and> lease_generation l \<noteq> 0 \<and> unat (lease_slot l) \<in> pool_slots p \<and>
     (returned l \<longleftrightarrow> retain_count l = 0) \<and> (returned l \<longrightarrow> close_requested l) \<and>
     (\<not> returned l \<longrightarrow> unat (lease_slot l) \<notin> pool_free p))"

text \<open>
  What calls may do: take \<open>up\<close> references and give up \<open>down\<close>; the pool changes only with
  the last release, and then by this slot.
\<close>

definition lease_moved ::
  "native_lease \<times> native_pool \<Rightarrow> nat \<Rightarrow> nat \<Rightarrow> native_lease \<times> native_pool \<Rightarrow> bool" where
  "lease_moved lp up down lp' \<longleftrightarrow> (case (lp, lp') of ((l, p), (l', p')) \<Rightarrow>
     lease_inv (l', p') \<and> unat (retain_count l') + down = unat (retain_count l) + up \<and>
     lease_slot l' = lease_slot l \<and> (returned l \<longrightarrow> returned l') \<and>
     pool_free p' = (if returned l' \<and> \<not> returned l then insert (unat (lease_slot l)) (pool_free p)
       else pool_free p))"

lemma lease_moved_refl: "lease_inv lp \<Longrightarrow> lease_moved lp 0 0 lp"
  by (auto simp: lease_moved_def split: prod.splits)

lemma lease_moved_trans:
  assumes "lease_moved lp a b lp1" "lease_moved lp1 c d lp2"
  shows "lease_moved lp (a + c) (b + d) lp2"
proof -
  obtain l p l1 p1 l2 p2 where "lp = (l, p)" "lp1 = (l1, p1)" "lp2 = (l2, p2)"
    by (cases lp; cases lp1; cases lp2)
  with assms show ?thesis
    by (cases "returned l"; cases "returned l1") (simp_all add: lease_moved_def)
qed

lemma lease_moved_inv: "lease_moved lp up down lp' \<Longrightarrow> lease_inv lp'"
  by (auto simp: lease_moved_def split: prod.splits)

lemma lease_init_inv:
  assumes "pool_inv p" "native_lease_init p slot generation = Some l" "unat slot \<notin> pool_free p"
  shows "lease_inv (l, p)"
  using assms by (auto simp: lease_inv_def native_lease_init_def pool_slots_def word_le_nat_alt split: if_splits)

lemma lease_retain_moved:
  assumes "lease_inv (l, p)" "native_lease_retain generation l = (ok, l')"
  shows "lease_moved (l, p) (if ok then 1 else 0) 0 (l', p)"
  using assms
  by (auto simp: lease_moved_def lease_inv_def native_lease_retain_def unat_inc inc_not_zero split: if_splits)

lemma lease_release_moved:
  assumes "lease_inv (l, p)" "native_lease_release generation (l, p) = (ok, lp')"
  shows "lease_moved (l, p) 0 (if ok then 1 else 0) lp'"
proof -
  have inv: "pool_inv p" "unat (lease_slot l) \<in> pool_slots p" "returned l \<longleftrightarrow> retain_count l = 0"
    "\<not> returned l \<longrightarrow> unat (lease_slot l) \<notin> pool_free p"
    using assms(1) by (auto simp: lease_inv_def)
  obtain freed p1 where pool: "native_pool_release (unat (lease_slot l)) p = (freed, p1)"
    by (cases "native_pool_release (unat (lease_slot l)) p")
  note freed = native_pool_release_free [OF inv(1) pool]
  consider "native_lease_is_stale l generation \<or> retain_count l = 1 \<and> \<not> close_requested l"
    | "\<not> native_lease_is_stale l generation" "retain_count l = 1" "close_requested l"
    | "\<not> native_lease_is_stale l generation" "retain_count l \<noteq> 0" "retain_count l \<noteq> 1"
    using inv(3) by (auto simp: native_lease_is_stale_def)
  then show ?thesis
  proof cases
    case 1
    then have "native_lease_release generation (l, p) = (False, l, p)"
      by (elim disjE) (simp_all add: native_lease_release_def)
    then show ?thesis using lease_moved_refl [OF assms(1)] assms(2) by simp
  next
    case 2
    then have "\<not> returned l" by (simp add: native_lease_is_stale_def)
    with 2 have "(ok, lp') = (freed, l\<lparr>retain_count := 0, returned := True\<rparr>, p1)"
      using assms(2) pool by (simp add: native_lease_release_def)
    then show ?thesis
      using 2 \<open>\<not> returned l\<close> assms(1) inv freed by (auto simp: lease_moved_def lease_inv_def)
  next
    case 3
    then have "retain_count l > 0" "\<not> returned l" "retain_count l - 1 \<noteq> 0"
      using inv(3) by (auto simp: word_gt_0 native_lease_is_stale_def)
    moreover from this 3 have "(ok, lp') = (True, l\<lparr>retain_count := retain_count l - 1\<rparr>, p)"
      using assms(2) by (simp add: native_lease_release_def)
    ultimately show ?thesis
      using assms(1) by (auto simp: lease_moved_def lease_inv_def unat_dec word_less_nat_alt)
  qed
qed

lemma lease_close_moved:
  assumes "lease_inv (l, p)" "native_lease_request_close generation (l, p) = (ok, lp')"
  shows "lease_moved (l, p) 0 (if ok then 1 else 0) lp'"
proof (cases "native_lease_is_stale l generation \<or> close_requested l")
  case True
  then have "(ok, lp') = (False, l, p)" using assms(2) by (auto simp: native_lease_request_close_def)
  then show ?thesis using lease_moved_refl [OF assms(1)] by simp
next
  case False
  then have "native_lease_release generation (l\<lparr>close_requested := True\<rparr>, p) = (ok, lp')"
    using assms(2) by (simp add: native_lease_request_close_def)
  moreover have "lease_inv (l\<lparr>close_requested := True\<rparr>, p)" using assms(1) by (simp add: lease_inv_def)
  ultimately have "lease_moved (l\<lparr>close_requested := True\<rparr>, p) 0 (if ok then 1 else 0) lp'"
    by (rule lease_release_moved [rotated])
  then show ?thesis by (auto simp: lease_moved_def split: prod.splits)
qed

lemmas lease_moves = lease_retain_moved lease_release_moved lease_close_moved

section \<open>Sequences of calls\<close>

datatype lease_call = Retain | Release | Close

fun do_call :: "lease_call \<Rightarrow> u32 \<Rightarrow> native_lease \<times> native_pool \<Rightarrow> bool \<times> native_lease \<times> native_pool" where
  "do_call Retain g (l, p) = (let (ok, l') = native_lease_retain g l in (ok, l', p))"
| "do_call Release g lp = native_lease_release g lp"
| "do_call Close g lp = native_lease_request_close g lp"

text \<open>The numbers of calls that took and that gave up a reference.\<close>

fun lease_calls ::
  "(lease_call \<times> u32) list \<Rightarrow> native_lease \<times> native_pool \<Rightarrow> nat \<times> nat \<times> native_lease \<times> native_pool" where
  "lease_calls [] lp = (0, 0, lp)"
| "lease_calls ((c, g) # cs) lp =
     (let (ok, lp') = do_call c g lp; (taken, dropped, lp'') = lease_calls cs lp'
      in (taken + (if ok \<and> c = Retain then 1 else 0), dropped + (if ok \<and> c \<noteq> Retain then 1 else 0), lp''))"

lemma do_call_moved:
  assumes "lease_inv lp" "do_call c g lp = (ok, lp')"
  shows "lease_moved lp (if ok \<and> c = Retain then 1 else 0) (if ok \<and> c \<noteq> Retain then 1 else 0) lp'"
proof -
  obtain l p where lp: "lp = (l, p)" by (cases lp)
  show ?thesis
  proof (cases c)
    case Retain
    then obtain l' where "native_lease_retain g l = (ok, l')" "lp' = (l', p)"
      using assms(2) by (auto simp: lp split: prod.splits)
    then show ?thesis using lease_retain_moved assms(1) Retain by (simp add: lp)
  next
    case Release
    then show ?thesis using lease_release_moved [of l p g ok lp'] assms by (simp add: lp)
  next
    case Close
    then show ?thesis using lease_close_moved [of l p g ok lp'] assms by (simp add: lp)
  qed
qed

lemma lease_calls_moved:
  "lease_inv lp \<Longrightarrow> lease_calls cs lp = (taken, dropped, lp') \<Longrightarrow> lease_moved lp taken dropped lp'"
proof (induction cs lp arbitrary: taken dropped lp' rule: lease_calls.induct)
  case (1 lp)
  then show ?case using lease_moved_refl by simp
next
  case (2 c g cs lp)
  obtain ok lp1 where call: "do_call c g lp = (ok, lp1)" by (cases "do_call c g lp")
  obtain t d lp2 where rest: "lease_calls cs lp1 = (t, d, lp2)" by (cases "lease_calls cs lp1") auto
  note one = do_call_moved [OF "2.prems"(1) call]
  note lease_moved_trans [OF one "2.IH" [OF call [symmetric] refl lease_moved_inv [OF one] rest]]
  then show ?case using "2.prems"(2) call rest by (auto simp: add.commute)
qed

section \<open>Interleaved threads\<close>

text \<open>
  One atomic access per step.  The program counters of \<open>retain\<close> (\<open>R_\<close>), \<open>release\<close>
  (\<open>D_\<close>) and \<open>request_close\<close> (\<open>C_\<close>) name the next access; a weak compare-and-exchange may
  fail without reason.  \<open>users\<close> counts the references that callers have and have not yet
  handed to \<open>release\<close>: a caller releases only what it has.  \<open>pool_calls\<close> counts the calls
  of the pool's \<open>release\<close>.
\<close>

datatype lease_pc =
  L_idle
| R_stale | R_closed | R_load | R_loop u32 | R_cas u32
| D_stale | D_load | D_loop u32 | D_cas u32 | D_exchange | D_pool
| C_stale | C_cas

record lease_sys =
  sys_count :: u32
  sys_closed :: bool
  sys_returned :: bool
  pcs :: "lease_pc list"
  users :: nat
  pool_calls :: nat

abbreviation goto :: "lease_sys \<Rightarrow> nat \<Rightarrow> lease_pc \<Rightarrow> lease_sys" where
  "goto s t pc \<equiv> s\<lparr>pcs := (pcs s)[t := pc]\<rparr>"

text \<open>After a load of the count: go on, or leave the loop at 0.\<close>

definition release_loop :: "u32 \<Rightarrow> lease_pc" where
  "release_loop count = (if count > 0 then D_loop count else L_idle)"

definition retain_loop :: "u32 \<Rightarrow> lease_pc" where
  "retain_loop count = (if count > 0 \<and> count < -1 then R_loop count else L_idle)"

inductive lease_step :: "lease_sys \<Rightarrow> lease_sys \<Rightarrow> bool" where
  call_retain: "t < length (pcs s) \<Longrightarrow> pcs s ! t = L_idle \<Longrightarrow> lease_step s (goto s t R_stale)"
| call_release: "t < length (pcs s) \<Longrightarrow> pcs s ! t = L_idle \<Longrightarrow> users s > 0 \<Longrightarrow>
    lease_step s ((goto s t D_stale)\<lparr>users := users s - 1\<rparr>)"
| call_close: "t < length (pcs s) \<Longrightarrow> pcs s ! t = L_idle \<Longrightarrow> lease_step s (goto s t C_stale)"
| retain_stale: "t < length (pcs s) \<Longrightarrow> pcs s ! t = R_stale \<Longrightarrow>
    lease_step s (goto s t (if sys_returned s then L_idle else R_closed))"
| retain_closed: "t < length (pcs s) \<Longrightarrow> pcs s ! t = R_closed \<Longrightarrow>
    lease_step s (goto s t (if sys_closed s then L_idle else R_load))"
| retain_load: "t < length (pcs s) \<Longrightarrow> pcs s ! t = R_load \<Longrightarrow>
    lease_step s (goto s t (retain_loop (sys_count s)))"
| retain_recheck: "t < length (pcs s) \<Longrightarrow> pcs s ! t = R_loop count \<Longrightarrow>
    lease_step s (goto s t (if sys_closed s then L_idle else R_cas count))"
| retain_cas_ok: "t < length (pcs s) \<Longrightarrow> pcs s ! t = R_cas (sys_count s) \<Longrightarrow>
    lease_step s ((goto s t L_idle)\<lparr>sys_count := sys_count s + 1, users := users s + 1\<rparr>)"
| retain_cas_fail: "t < length (pcs s) \<Longrightarrow> pcs s ! t = R_cas count \<Longrightarrow>
    lease_step s (goto s t (retain_loop (sys_count s)))"
| release_stale: "t < length (pcs s) \<Longrightarrow> pcs s ! t = D_stale \<Longrightarrow>
    lease_step s (goto s t (if sys_returned s then L_idle else D_load))"
| release_load: "t < length (pcs s) \<Longrightarrow> pcs s ! t = D_load \<Longrightarrow>
    lease_step s (goto s t (release_loop (sys_count s)))"
| release_check: "t < length (pcs s) \<Longrightarrow> pcs s ! t = D_loop count \<Longrightarrow>
    lease_step s (goto s t (if count = 1 \<and> \<not> sys_closed s then L_idle else D_cas count))"
| release_cas_ok: "t < length (pcs s) \<Longrightarrow> pcs s ! t = D_cas (sys_count s) \<Longrightarrow>
    lease_step s ((goto s t (if sys_count s = 1 then D_exchange else L_idle))\<lparr>sys_count := sys_count s - 1\<rparr>)"
| release_cas_fail: "t < length (pcs s) \<Longrightarrow> pcs s ! t = D_cas count \<Longrightarrow>
    lease_step s (goto s t (release_loop (sys_count s)))"
| release_exchange: "t < length (pcs s) \<Longrightarrow> pcs s ! t = D_exchange \<Longrightarrow>
    lease_step s ((goto s t (if sys_returned s then L_idle else D_pool))\<lparr>sys_returned := True\<rparr>)"
| release_pool: "t < length (pcs s) \<Longrightarrow> pcs s ! t = D_pool \<Longrightarrow>
    lease_step s ((goto s t L_idle)\<lparr>pool_calls := pool_calls s + 1\<rparr>)"
| close_stale: "t < length (pcs s) \<Longrightarrow> pcs s ! t = C_stale \<Longrightarrow>
    lease_step s (goto s t (if sys_returned s then L_idle else C_cas))"
| close_cas: "t < length (pcs s) \<Longrightarrow> pcs s ! t = C_cas \<Longrightarrow>
    lease_step s ((goto s t (if sys_closed s then L_idle else D_stale))\<lparr>sys_closed := True\<rparr>)"

inductive lease_reachable :: "nat \<Rightarrow> lease_sys \<Rightarrow> bool" for threads where
  init: "lease_reachable threads \<lparr>sys_count = 1, sys_closed = False, sys_returned = False,
     pcs = replicate threads L_idle, users = 0, pool_calls = 0\<rparr>"
| step: "lease_reachable threads s \<Longrightarrow> lease_step s s' \<Longrightarrow> lease_reachable threads s'"

text \<open>A thread inside \<open>release\<close> carries its reference until the exchange succeeds.\<close>

fun carries :: "lease_pc \<Rightarrow> nat" where
  "carries D_stale = 1" | "carries D_load = 1" | "carries (D_loop _) = 1" | "carries (D_cas _) = 1"
| "carries _ = 0"

fun at_exchange :: "lease_pc \<Rightarrow> nat" where
  "at_exchange D_exchange = 1" | "at_exchange _ = 0"

fun at_pool :: "lease_pc \<Rightarrow> nat" where
  "at_pool D_pool = 1" | "at_pool _ = 0"

text \<open>What a thread remembers of the count is still useful.\<close>

fun pc_ok :: "bool \<Rightarrow> lease_pc \<Rightarrow> bool" where
  "pc_ok closed (R_loop count) = (count > 0 \<and> count < -1)"
| "pc_ok closed (R_cas count) = (count > 0 \<and> count < -1)"
| "pc_ok closed (D_loop count) = (count > 0 \<and> (count = 1 \<longrightarrow> closed))"
| "pc_ok closed (D_cas count) = (count > 0 \<and> (count = 1 \<longrightarrow> closed))"
| "pc_ok closed _ = True"

definition total_of :: "('a \<Rightarrow> nat) \<Rightarrow> 'a list \<Rightarrow> nat" where
  "total_of f xs = sum_list (map f xs)"

definition lease_sys_inv :: "lease_sys \<Rightarrow> bool" where
  "lease_sys_inv s \<longleftrightarrow>
     unat (sys_count s) = users s + (if sys_closed s then 0 else 1) + total_of carries (pcs s) \<and>
     total_of at_exchange (pcs s) + (if sys_returned s then 1 else 0) = (if sys_count s = 0 then 1 else 0) \<and>
     pool_calls s + total_of at_pool (pcs s) = (if sys_returned s then 1 else 0) \<and>
     (\<forall>pc \<in> set (pcs s). pc_ok (sys_closed s) pc)"

lemma total_of_update:
  "t < length xs \<Longrightarrow> total_of f (xs[t := x]) + f (xs ! t) = total_of f xs + f x"
  using sum_list_update_nat [of t "map f xs" "f x"] by (simp add: total_of_def map_update)

lemma pc_ok_update:
  "\<forall>pc \<in> set xs. pc_ok c pc \<Longrightarrow> pc_ok c x \<Longrightarrow> \<forall>pc \<in> set (xs[t := x]). pc_ok c pc"
  using set_update_subset_insert [of xs t x] by blast

lemma pc_ok_closed: "pc_ok c pc \<Longrightarrow> pc_ok True pc"
  by (cases pc) auto

text \<open>One thread moves from \<open>pc\<close> to \<open>pc'\<close>: what must hold of the new counts.\<close>

lemma lease_sys_inv_move:
  assumes "lease_sys_inv s" "t < length (pcs s)" "pcs s ! t = pc"
    and "pcs s' = (pcs s)[t := pc']" "pc_ok (sys_closed s') pc'" "sys_closed s \<longrightarrow> sys_closed s'"
    and "unat (sys_count s') + users s + (if sys_closed s then 0 else 1) + carries pc =
      unat (sys_count s) + users s' + (if sys_closed s' then 0 else 1) + carries pc'"
    and "at_exchange pc' + (if sys_returned s' then 1 else 0) + (if sys_count s = 0 then 1 else 0) =
      at_exchange pc + (if sys_returned s then 1 else 0) + (if sys_count s' = 0 then 1 else 0)"
    and "pool_calls s' + at_pool pc' + (if sys_returned s then 1 else 0) =
      pool_calls s + at_pool pc + (if sys_returned s' then 1 else 0)"
  shows "lease_sys_inv s'"
proof -
  have ok: "\<forall>x \<in> set (pcs s). pc_ok (sys_closed s') x"
    using assms(1,6) by (cases "sys_closed s = sys_closed s'") (auto simp: lease_sys_inv_def intro: pc_ok_closed)
  note total_of_update [OF assms(2), of carries pc'] total_of_update [OF assms(2), of at_exchange pc']
    total_of_update [OF assms(2), of at_pool pc']
  note sums = this [unfolded assms(3) assms(4) [symmetric]]
  have "unat (sys_count s') = users s' + (if sys_closed s' then 0 else 1) + total_of carries (pcs s')"
    using assms(1,7) sums(1) unfolding lease_sys_inv_def by linarith
  moreover have "total_of at_exchange (pcs s') + (if sys_returned s' then 1 else 0) = (if sys_count s' = 0 then 1 else 0)"
    using assms(1,8) sums(2) unfolding lease_sys_inv_def by linarith
  moreover have "pool_calls s' + total_of at_pool (pcs s') = (if sys_returned s' then 1 else 0)"
    using assms(1,9) sums(3) unfolding lease_sys_inv_def by linarith
  ultimately show ?thesis
    using pc_ok_update [OF ok assms(5)] assms(4) by (simp add: lease_sys_inv_def)
qed

lemma total_of_member: "t < length xs \<Longrightarrow> f (xs ! t) \<le> total_of f xs"
  by (simp add: total_of_def member_le_sum_list)

text \<open>While a reference is in flight the count is not 0, and at 1 close was requested.\<close>

lemma carries_live:
  assumes "lease_sys_inv s" "t < length (pcs s)" "carries (pcs s ! t) > 0"
  shows "sys_count s > 0" "\<not> sys_returned s" "sys_count s = 1 \<longrightarrow> sys_closed s"
proof -
  have pos: "1 \<le> total_of carries (pcs s)" using total_of_member [OF assms(2), of carries] assms(3) by simp
  then have "unat (sys_count s) \<noteq> 0" using assms(1) unfolding lease_sys_inv_def by linarith
  then show count: "sys_count s > 0" by (simp add: word_gt_0 unat_eq_0)
  show "\<not> sys_returned s" using assms(1) count unfolding lease_sys_inv_def by (auto split: if_splits)
  show "sys_count s = 1 \<longrightarrow> sys_closed s"
  proof
    assume "sys_count s = 1"
    then have one: "unat (sys_count s) = 1" by simp
    have "unat (sys_count s) = users s + (if sys_closed s then 0 else 1) + total_of carries (pcs s)"
      using assms(1) by (simp only: lease_sys_inv_def)
    with one pos show "sys_closed s" by (cases "sys_closed s") simp_all
  qed
qed

lemma lease_pc_ok: "lease_sys_inv s \<Longrightarrow> t < length (pcs s) \<Longrightarrow> pc_ok (sys_closed s) (pcs s ! t)"
  by (auto simp: lease_sys_inv_def)

lemma lease_sys_inv_step:
  assumes "lease_step s s'" "lease_sys_inv s"
  shows "lease_sys_inv s'"
  using assms(1)
proof (cases rule: lease_step.cases)
  case (release_stale t)
  then show ?thesis
    using carries_live [OF assms(2), of t]
    by (intro lease_sys_inv_move [OF assms(2), of t D_stale s' D_load]) auto
next
  case (release_load t)
  then show ?thesis
    using carries_live [OF assms(2), of t]
    by (intro lease_sys_inv_move [OF assms(2), of t D_load s' "D_loop (sys_count s)"]) (auto simp: release_loop_def)
next
  case (release_cas_fail t count)
  then show ?thesis
    using carries_live [OF assms(2), of t]
    by (intro lease_sys_inv_move [OF assms(2), of t "D_cas count" s' "D_loop (sys_count s)"])
      (auto simp: release_loop_def)
next
  case (release_check t count)
  then show ?thesis
    using lease_pc_ok [OF assms(2), of t]
    by (intro lease_sys_inv_move [OF assms(2), of t "D_loop count" s' "D_cas count"]) auto
next
  case (retain_recheck t count)
  then show ?thesis
    using lease_pc_ok [OF assms(2), of t]
    by (intro lease_sys_inv_move [OF assms(2), of t "R_loop count" s' "if sys_closed s then L_idle else R_cas count"]) auto
next
  case (retain_cas_ok t)
  then show ?thesis
    using lease_pc_ok [OF assms(2), of t]
    by (intro lease_sys_inv_move [OF assms(2), of t "R_cas (sys_count s)" s' L_idle]) (auto simp: unat_inc inc_not_zero)
next
  case (release_cas_ok t)
  have "sys_count s - 1 = 0 \<longleftrightarrow> sys_count s = 1" by simp
  with release_cas_ok show ?thesis
    using carries_live [OF assms(2), of t] lease_pc_ok [OF assms(2), of t]
    by (intro lease_sys_inv_move [OF assms(2), of t "D_cas (sys_count s)" s'
          "if sys_count s = 1 then D_exchange else L_idle"]) (auto simp: unat_dec word_less_nat_alt)
next
  case (close_cas t)
  then show ?thesis
    by (intro lease_sys_inv_move [OF assms(2), of t C_cas s' "if sys_closed s then L_idle else D_stale"]) auto
next
  case (call_retain t)
  then show ?thesis
    by (intro lease_sys_inv_move [OF assms(2), of t "L_idle" s' "R_stale"]) (auto simp: retain_loop_def)
next
  case (call_release t)
  then show ?thesis
    by (intro lease_sys_inv_move [OF assms(2), of t "L_idle" s' "D_stale"]) (auto simp: retain_loop_def)
next
  case (call_close t)
  then show ?thesis
    by (intro lease_sys_inv_move [OF assms(2), of t "L_idle" s' "C_stale"]) (auto simp: retain_loop_def)
next
  case (retain_stale t)
  then show ?thesis
    by (intro lease_sys_inv_move [OF assms(2), of t "R_stale" s' "if sys_returned s then L_idle else R_closed"]) (auto simp: retain_loop_def)
next
  case (retain_closed t)
  then show ?thesis
    by (intro lease_sys_inv_move [OF assms(2), of t "R_closed" s' "if sys_closed s then L_idle else R_load"]) (auto simp: retain_loop_def)
next
  case (retain_load t)
  then show ?thesis
    by (intro lease_sys_inv_move [OF assms(2), of t "R_load" s' "retain_loop (sys_count s)"]) (auto simp: retain_loop_def)
next
  case (retain_cas_fail t count)
  then show ?thesis
    by (intro lease_sys_inv_move [OF assms(2), of t "R_cas count" s' "retain_loop (sys_count s)"]) (auto simp: retain_loop_def)
next
  case (release_exchange t)
  then have "1 \<le> total_of at_exchange (pcs s)" using total_of_member [of t "pcs s" at_exchange] by simp
  then have "\<not> sys_returned s" using assms(2) unfolding lease_sys_inv_def by (auto split: if_splits)
  with release_exchange show ?thesis
    by (intro lease_sys_inv_move [OF assms(2), of t "D_exchange" s' "if sys_returned s then L_idle else D_pool"]) (auto simp: retain_loop_def)
next
  case (release_pool t)
  then show ?thesis
    by (intro lease_sys_inv_move [OF assms(2), of t "D_pool" s' "L_idle"]) (auto simp: retain_loop_def)
next
  case (close_stale t)
  then show ?thesis
    by (intro lease_sys_inv_move [OF assms(2), of t "C_stale" s' "if sys_returned s then L_idle else C_cas"]) (auto simp: retain_loop_def)
qed

lemma lease_reachable_inv: "lease_reachable threads s \<Longrightarrow> lease_sys_inv s"
proof (induction rule: lease_reachable.induct)
  case init
  then show ?case by (simp add: lease_sys_inv_def total_of_def sum_list_replicate)
next
  case (step s s')
  then show ?case using lease_sys_inv_step by blast
qed

section \<open>Properties\<close>

text \<open>
  The lease as one caller sees it.  After any sequence of calls, with right or wrong
  generations, the count is one plus the references taken minus those given up, the slot is
  free again exactly when that number is 0, and no other slot of the pool has changed.
\<close>

lemma native_lease_counts:
  assumes "pool_inv p" "unat slot \<notin> pool_free p" "native_lease_init p slot generation = Some l"
    "lease_calls cs (l, p) = (taken, dropped, l', p')"
  shows "unat (retain_count l') + dropped = 1 + taken \<and>
    (unat slot \<in> pool_free p' \<longleftrightarrow> dropped = 1 + taken) \<and>
    pool_free p' - {unat slot} = pool_free p"
proof -
  have l: "retain_count l = 1" "lease_slot l = slot" "\<not> returned l"
    using assms(3) by (auto simp: native_lease_init_def split: if_splits)
  have "lease_moved (l, p) taken dropped (l', p')"
    by (rule lease_calls_moved [OF lease_init_inv [OF assms(1,3,2)] assms(4)])
  with l have moved: "lease_inv (l', p')" "unat (retain_count l') + dropped = 1 + taken"
    "pool_free p' = (if returned l' then insert (unat slot) (pool_free p) else pool_free p)"
    by (simp_all add: lease_moved_def)
  have "returned l' \<longleftrightarrow> dropped = 1 + taken"
    using moved(1,2) by (auto simp: lease_inv_def unat_eq_0)
  then show ?thesis using moved assms(2) by auto
qed

definition busy_pool :: native_pool where
  "busy_pool = \<lparr>free_bits = replicate 4 0, pool_capacity = 5\<rparr>"

lemma busy_pool_free: "pool_free busy_pool = {}" "pool_inv busy_pool"
proof -
  show "pool_free busy_pool = {}"
    by (auto simp: pool_free_def busy_pool_def)
  then show "pool_inv busy_pool" by (simp add: pool_inv_def busy_pool_def)
qed

theorem native_lease_counts_witness:
  "\<exists>l taken dropped l' p'. native_lease_init busy_pool 3 9 = Some l \<and>
    lease_calls [(Retain, 9), (Release, 4), (Close, 9), (Release, 9)] (l, busy_pool) = (taken, dropped, l', p') \<and>
    unat (retain_count l') + dropped = 1 + taken \<and>
    (unat (3 :: u16) \<in> pool_free p' \<longleftrightarrow> dropped = 1 + taken) \<and>
    pool_free p' - {unat (3 :: u16)} = pool_free busy_pool"
proof -
  define l where "l = \<lparr>lease_generation = 9, lease_slot = 3, retain_count = 1, close_requested = False, returned = False\<rparr>"
  have init: "native_lease_init busy_pool 3 9 = Some l"
    by (simp add: native_lease_init_def busy_pool_def l_def)
  obtain taken dropped l' p' where calls:
    "lease_calls [(Retain, 9), (Release, 4), (Close, 9), (Release, 9)] (l, busy_pool) = (taken, dropped, l', p')"
    by (cases "lease_calls [(Retain, 9), (Release, 4), (Close, 9), (Release, 9)] (l, busy_pool)") auto
  have "unat (3 :: u16) \<notin> pool_free busy_pool" by (simp add: busy_pool_free)
  note counts = native_lease_counts [OF busy_pool_free(2) this init calls]
  show ?thesis
    by (rule exI [of _ l], rule exI [of _ taken], rule exI [of _ dropped], rule exI [of _ l'], rule exI [of _ p'])
      (rule conjI [OF init conjI [OF calls counts]])
qed

text \<open>
  C9: The lease under interleaving.  However the atomic steps of any number of threads that
  retain, release and close interleave: the slot goes back to the pool at most once; when it
  does, close was requested and no caller has a reference left; and once every thread is
  idle, close was requested and all references are gone, it has gone back.
\<close>

theorem native_lease_no_use_after_return:
  assumes "lease_reachable threads s"
  shows "pool_calls s \<le> 1 \<and>
    (sys_returned s \<longrightarrow> sys_closed s \<and> users s = 0 \<and> sys_count s = 0) \<and>
    (pool_calls s = 1 \<longrightarrow> sys_returned s) \<and>
    ((\<forall>pc \<in> set (pcs s). pc = L_idle) \<and> sys_closed s \<and> users s = 0 \<longrightarrow> pool_calls s = 1)"
proof -
  have inv: "lease_sys_inv s" by (rule lease_reachable_inv [OF assms])
  have "sys_count s = 0" if "sys_returned s"
    using inv that unfolding lease_sys_inv_def by (cases "sys_count s = 0") simp_all
  moreover have "sys_closed s \<and> users s = 0" if "sys_count s = 0"
    using inv that unfolding lease_sys_inv_def by (cases "sys_closed s") simp_all
  moreover have "pool_calls s = 1" if "\<forall>pc \<in> set (pcs s). pc = L_idle" "sys_closed s" "users s = 0"
  proof -
    have "total_of carries (pcs s) = 0" "total_of at_exchange (pcs s) = 0" "total_of at_pool (pcs s) = 0"
      using that(1) by (auto simp: total_of_def sum_list_eq_0_iff)
    then show ?thesis using inv that(2,3) by (auto simp: lease_sys_inv_def unat_eq_0 split: if_splits)
  qed
  moreover have "pool_calls s \<le> (if sys_returned s then 1 else 0)"
    using inv unfolding lease_sys_inv_def by linarith
  ultimately show ?thesis by (auto split: if_splits)
qed

theorem native_lease_no_use_after_return_witness:
  "\<exists>s. lease_reachable 2 s \<and> sys_closed s \<and> pool_calls s \<le> 1"
proof -
  define s0 :: lease_sys where "s0 = \<lparr>sys_count = 1, sys_closed = False, sys_returned = False,
     pcs = replicate 2 L_idle, users = 0, pool_calls = 0\<rparr>"
  have "lease_reachable 2 s0" unfolding s0_def by (rule lease_reachable.init)
  moreover have "lease_step s0 (goto s0 1 C_stale)" by (rule call_close) (simp_all add: s0_def)
  ultimately have "lease_reachable 2 (goto s0 1 C_stale)" by (rule lease_reachable.step)
  moreover have "lease_step (goto s0 1 C_stale) (goto (goto s0 1 C_stale) 1 C_cas)"
    using close_stale [of 1 "goto s0 1 C_stale"] by (simp add: s0_def)
  ultimately have "lease_reachable 2 (goto (goto s0 1 C_stale) 1 C_cas)" by (rule lease_reachable.step)
  moreover define s3 where "s3 = (goto (goto (goto s0 1 C_stale) 1 C_cas) 1 D_stale)\<lparr>sys_closed := True\<rparr>"
  have "lease_step (goto (goto s0 1 C_stale) 1 C_cas) s3"
    using close_cas [of 1 "goto (goto s0 1 C_stale) 1 C_cas"] by (simp add: s0_def s3_def)
  ultimately have reach: "lease_reachable 2 s3" by (rule lease_reachable.step)
  have closed: "sys_closed s3" by (simp add: s3_def)
  show ?thesis
    by (rule exI [of _ s3]) (rule conjI [OF reach conjI [OF closed native_lease_no_use_after_return [OF reach, THEN conjunct1]]])
qed

end
