(* ===== verification/Ledger.thy ===== *)
theory Ledger
  imports Prelude
begin

text \<open>
  The interface of a ledger: amounts are booked under keys and taken back later.  The amounts
  are pairs of 32-bit sizes (two memory regions, or bytes and blocks); the books are kept in
  natural numbers, so that a law about them also says that nothing has wrapped around.
\<close>

type_synonym amount = "u32 \<times> u32"
type_synonym book = "nat \<times> nat"

definition nats :: "amount \<Rightarrow> book" where
  "nats a = (unat (fst a), unat (snd a))"

definition plus_book :: "book \<Rightarrow> book \<Rightarrow> book" where
  "plus_book a b = (fst a + fst b, snd a + snd b)"

definition minus_book :: "book \<Rightarrow> book \<Rightarrow> book" where
  "minus_book a b = (fst a - fst b, snd a - snd b)"

definition le_book :: "book \<Rightarrow> book \<Rightarrow> bool" where
  "le_book a b \<longleftrightarrow> fst a \<le> fst b \<and> snd a \<le> snd b"

lemmas book_defs = plus_book_def minus_book_def le_book_def

lemma minus_plus_book [simp]: "minus_book (plus_book a b) b = a"
  by (simp add: book_defs)

lemma plus_book_assoc: "plus_book (plus_book a b) c = plus_book a (plus_book b c)"
  by (simp add: book_defs)

lemma plus_book_commute: "plus_book a b = plus_book b a"
  by (simp add: book_defs)

lemma plus_book_zero [simp]: "plus_book (0, 0) a = a" "plus_book a (0, 0) = a"
  by (simp_all add: book_defs)

lemma le_plus_book [simp]: "le_book a (plus_book a b)" "le_book b (plus_book a b)"
  by (simp_all add: book_defs)

text \<open>The amounts granted under one key.\<close>

fun granted :: "('k \<times> amount) list \<Rightarrow> 'k \<Rightarrow> book" where
  "granted [] k = (0, 0)"
| "granted ((k', a) # gs) k = (if k' = k then plus_book (nats a) (granted gs k) else granted gs k)"

lemma granted_append: "granted (gs @ hs) k = plus_book (granted gs k) (granted hs k)"
  by (induction gs) (auto simp: plus_book_assoc)

locale ledger =
  fixes inv :: "'s \<Rightarrow> bool"
    and booked :: "'s \<Rightarrow> 'k \<Rightarrow> book"
    and valid :: "'k \<Rightarrow> amount \<Rightarrow> bool"
    and book :: "'k \<Rightarrow> amount \<Rightarrow> 's \<Rightarrow> 's option"
    and unbook :: "'k \<Rightarrow> amount \<Rightarrow> 's \<Rightarrow> 's option"
  assumes book_ok: "inv s \<Longrightarrow> book k a s = Some s' \<Longrightarrow>
      inv s' \<and> valid k a \<and> booked s' = (booked s)(k := plus_book (booked s k) (nats a))"
    and unbook_ok: "inv s \<Longrightarrow> unbook k a s = Some s' \<Longrightarrow>
      inv s' \<and> booked s' = (booked s)(k := minus_book (booked s k) (nats a))"
    and unbook_succeeds: "inv s \<Longrightarrow> valid k a \<Longrightarrow> le_book (nats a) (booked s k) \<Longrightarrow> unbook k a s \<noteq> None"
begin

text \<open>What was booked can be taken back, and the books are as before.\<close>

lemma book_unbook:
  assumes "inv s" "book k a s = Some s'"
  shows "\<exists>s''. unbook k a s' = Some s'' \<and> inv s'' \<and> booked s'' = booked s"
proof -
  note booked = book_ok [OF assms]
  then obtain s'' where u: "unbook k a s' = Some s''"
    using unbook_succeeds [of s' k a] by auto
  with unbook_ok [of s' k a s''] booked show ?thesis by (auto simp: fun_upd_idem_iff)
qed

text \<open>
  A client that books and gives back what it was granted.  \<open>Inl (k, a)\<close> asks, \<open>Inr i\<close>
  gives the \<open>i\<close>-th grant back; a refused request changes nothing.  The list says which of
  the calls succeeded.
\<close>

fun client :: "('k \<times> amount + nat) list \<Rightarrow> 's \<Rightarrow> ('k \<times> amount) list \<Rightarrow> bool list \<times> 's \<times> ('k \<times> amount) list" where
  "client [] s gs = ([], s, gs)"
| "client (Inl (k, a) # cs) s gs =
     (case book k a s of
        None \<Rightarrow> (let (oks, r) = client cs s gs in (False # oks, r))
      | Some s' \<Rightarrow> (let (oks, r) = client cs s' ((k, a) # gs) in (True # oks, r)))"
| "client (Inr i # cs) s gs =
     (if i < length gs then
        (case gs ! i of (k, a) \<Rightarrow> (case unbook k a s of
           None \<Rightarrow> (let (oks, r) = client cs s gs in (False # oks, r))
         | Some s' \<Rightarrow> (let (oks, r) = client cs s' (take i gs @ drop (i + 1) gs) in (True # oks, r))))
      else client cs s gs)"

definition balanced :: "'s \<Rightarrow> ('k \<times> amount) list \<Rightarrow> bool" where
  "balanced s gs \<longleftrightarrow> inv s \<and> (\<forall>k. booked s k = granted gs k) \<and> (\<forall>(k, a) \<in> set gs. valid k a)"

lemma balanced_book:
  "balanced s gs \<Longrightarrow> book k a s = Some s' \<Longrightarrow> balanced s' ((k, a) # gs)"
  using book_ok [of s k a s'] by (auto simp: balanced_def plus_book_commute)

lemma granted_remove:
  assumes "i < length gs" "gs ! i = (k, a)"
  shows "granted gs k' = (if k' = k then plus_book (granted (take i gs @ drop (i + 1) gs) k) (nats a)
    else granted (take i gs @ drop (i + 1) gs) k')"
proof -
  have "gs = take i gs @ (k, a) # drop (i + 1) gs"
    using id_take_nth_drop [OF assms(1)] assms(2) by simp
  then have "granted gs k' = granted (take i gs @ (k, a) # drop (i + 1) gs) k'" by simp
  then show ?thesis
    unfolding granted_append
    by (auto simp: plus_book_assoc plus_book_commute [of "nats a"])
qed

text \<open>Giving back a grant never fails, and the books stay the sum of the grants.\<close>

lemma balanced_unbook:
  assumes "balanced s gs" "i < length gs" "gs ! i = (k, a)"
  shows "\<exists>s'. unbook k a s = Some s' \<and> balanced s' (take i gs @ drop (i + 1) gs)"
proof -
  have inv: "inv s" and books: "\<And>k'. booked s k' = granted gs k'" and valid: "valid k a"
    using assms nth_mem [OF assms(2)] by (auto simp: balanced_def)
  note remove = granted_remove [OF assms(2,3)]
  have "le_book (nats a) (booked s k)" by (simp add: books remove)
  from unbook_succeeds [OF inv valid this] obtain s' where s': "unbook k a s = Some s'" by blast
  have "booked s' k' = granted (take i gs @ drop (i + 1) gs) k'" for k'
    using unbook_ok [OF inv s'] by (simp add: books remove)
  moreover have "\<forall>(k, a) \<in> set (take i gs @ drop (i + 1) gs). valid k a"
    using assms(1) by (auto simp: balanced_def dest!: in_set_takeD in_set_dropD)
  ultimately show ?thesis using s' unbook_ok [OF inv s'] by (simp add: balanced_def)
qed

lemma client_balanced:
  "balanced s gs \<Longrightarrow> client cs s gs = (oks, s', gs') \<Longrightarrow> balanced s' gs'"
proof (induction cs s gs arbitrary: oks s' gs' rule: client.induct)
  case (2 k a cs s gs)
  then show ?case using balanced_book by (auto split: option.splits prod.splits)
next
  case (3 i cs s gs)
  then show ?case using balanced_unbook
    by (fastforce split: option.splits prod.splits if_splits)
qed auto

end

end
