(* ===== verification/Memory_Budget.thy ===== *)
theory Memory_Budget
  imports Ledger
begin

text \<open>
  \<open>esp32_mquickjs_memory_budget.c\<close>: the admission ledger of the memory manager.  Two
  regions (internal memory, PSRAM), seven roles; data roles may not use the part of the
  internal memory that is kept for control.  \<open>size_t\<close> has 32 bits on the ESP32.
\<close>

section \<open>The ledger\<close>

datatype budget_role =
  BUDGET_NONE | BUDGET_CONTROL | BUDGET_POOL | BUDGET_RETIRED_POOL | BUDGET_QUEUE
  | BUDGET_TX | BUDGET_STACK | BUDGET_COPY | BUDGET_ROLE_COUNT

record budget_region =
  limit :: u32
  control_reserve :: u32
  reserved :: u32
  high_water :: u32
  roles :: "budget_role \<Rightarrow> u32"

record memory_budget =
  regions :: "budget_region \<times> budget_region"
  rejected :: u32

definition budget_role_valid :: "budget_role \<Rightarrow> bool" where
  "budget_role_valid role \<longleftrightarrow> role \<noteq> BUDGET_NONE \<and> role \<noteq> BUDGET_ROLE_COUNT"

definition memory_budget_init :: "u32 \<Rightarrow> u32 \<Rightarrow> u32 \<Rightarrow> memory_budget option" where
  "memory_budget_init internal_limit psram_limit control_bytes =
     (if control_bytes > internal_limit then None
      else Some \<lparr>regions =
        (\<lparr>limit = internal_limit, control_reserve = control_bytes, reserved = 0, high_water = 0, roles = (\<lambda>_. 0)\<rparr>,
         \<lparr>limit = psram_limit, control_reserve = 0, reserved = 0, high_water = 0, roles = (\<lambda>_. 0)\<rparr>),
        rejected = 0\<rparr>)"

text \<open>The body of the first and of the second loop of \<open>reserve\<close>.\<close>

definition region_admits :: "budget_role \<Rightarrow> u32 \<Rightarrow> budget_region \<Rightarrow> bool" where
  "region_admits role n r \<longleftrightarrow>
     \<not> n > limit r - reserved r \<and>
     (role \<noteq> BUDGET_CONTROL \<longrightarrow>
        \<not> n > limit r - control_reserve r - (reserved r - roles r BUDGET_CONTROL))"

definition region_book :: "budget_role \<Rightarrow> u32 \<Rightarrow> budget_region \<Rightarrow> budget_region" where
  "region_book role n r =
     (let r = r\<lparr>reserved := reserved r + n, roles := (roles r)(role := roles r role + n)\<rparr>
      in if reserved r > high_water r then r\<lparr>high_water := reserved r\<rparr> else r)"

definition memory_budget_reserve ::
  "budget_role \<Rightarrow> (u32 \<times> u32) option \<Rightarrow> memory_budget \<Rightarrow> bool \<times> memory_budget" where
  "memory_budget_reserve role bytes b =
     (let reject = (False, if rejected b \<noteq> -1 then b\<lparr>rejected := rejected b + 1\<rparr> else b)
      in case bytes of
        None \<Rightarrow> reject
      | Some (n0, n1) \<Rightarrow>
        if \<not> budget_role_valid role then reject
        else if \<not> region_admits role n0 (fst (regions b)) \<or> \<not> region_admits role n1 (snd (regions b)) then reject
        else (True, b\<lparr>regions := (region_book role n0 (fst (regions b)), region_book role n1 (snd (regions b)))\<rparr>))"

definition region_unbook :: "budget_role \<Rightarrow> u32 \<Rightarrow> budget_region \<Rightarrow> budget_region" where
  "region_unbook role n r =
     r\<lparr>reserved := reserved r - n, roles := (roles r)(role := roles r role - n)\<rparr>"

definition memory_budget_release ::
  "budget_role \<Rightarrow> (u32 \<times> u32) option \<Rightarrow> memory_budget \<Rightarrow> bool \<times> memory_budget" where
  "memory_budget_release role bytes b =
     (case bytes of
        None \<Rightarrow> (False, b)
      | Some (n0, n1) \<Rightarrow>
        if \<not> budget_role_valid role then (False, b)
        else if n0 > roles (fst (regions b)) role \<or> n1 > roles (snd (regions b)) role then (False, b)
        else (True, b\<lparr>regions := (region_unbook role n0 (fst (regions b)), region_unbook role n1 (snd (regions b)))\<rparr>))"

definition region_retire :: "u32 \<Rightarrow> budget_region \<Rightarrow> budget_region" where
  "region_retire n r =
     (let r = r\<lparr>roles := (roles r)(BUDGET_POOL := roles r BUDGET_POOL - n)\<rparr>
      in r\<lparr>roles := (roles r)(BUDGET_RETIRED_POOL := roles r BUDGET_RETIRED_POOL + n)\<rparr>)"

definition memory_budget_retire :: "(u32 \<times> u32) option \<Rightarrow> memory_budget \<Rightarrow> bool \<times> memory_budget" where
  "memory_budget_retire bytes b =
     (case bytes of
        None \<Rightarrow> (False, b)
      | Some (n0, n1) \<Rightarrow>
        if n0 > roles (fst (regions b)) BUDGET_POOL \<or> n1 > roles (snd (regions b)) BUDGET_POOL then (False, b)
        else (True, b\<lparr>regions := (region_retire n0 (fst (regions b)), region_retire n1 (snd (regions b)))\<rparr>))"

definition memory_budget_reset_counters :: "memory_budget \<Rightarrow> memory_budget" where
  "memory_budget_reset_counters b =
     b\<lparr>rejected := 0, regions := map_prod (\<lambda>r. r\<lparr>high_water := reserved r\<rparr>) (\<lambda>r. r\<lparr>high_water := reserved r\<rparr>) (regions b)\<rparr>"

fun memory_budget_role_name :: "budget_role \<Rightarrow> string" where
  "memory_budget_role_name BUDGET_CONTROL = ''control''"
| "memory_budget_role_name BUDGET_POOL = ''pool''"
| "memory_budget_role_name BUDGET_RETIRED_POOL = ''retiredPool''"
| "memory_budget_role_name BUDGET_QUEUE = ''queue''"
| "memory_budget_role_name BUDGET_TX = ''tx''"
| "memory_budget_role_name BUDGET_STACK = ''stack''"
| "memory_budget_role_name BUDGET_COPY = ''copy''"
| "memory_budget_role_name _ = ''none''"

section \<open>The invariant\<close>

definition valid_roles :: "budget_role list" where
  "valid_roles = [BUDGET_CONTROL, BUDGET_POOL, BUDGET_RETIRED_POOL, BUDGET_QUEUE, BUDGET_TX, BUDGET_STACK, BUDGET_COPY]"

text \<open>
  The reserved bytes are the sum of the roles, stay within the limit, and the data roles stay
  within the limit less the control reserve.  All sums are over the natural numbers.
\<close>

definition role_sum :: "budget_region \<Rightarrow> nat" where
  "role_sum r = sum_list (map (\<lambda>role. unat (roles r role)) valid_roles)"

definition region_inv :: "budget_region \<Rightarrow> bool" where
  "region_inv r \<longleftrightarrow>
     control_reserve r \<le> limit r \<and> reserved r \<le> limit r \<and>
     role_sum r = unat (reserved r) \<and>
     unat (reserved r) + unat (control_reserve r) \<le> unat (limit r) + unat (roles r BUDGET_CONTROL)"

definition budget_inv :: "memory_budget \<Rightarrow> bool" where
  "budget_inv b \<longleftrightarrow> region_inv (fst (regions b)) \<and> region_inv (snd (regions b))"

lemma set_valid_roles: "role \<in> set valid_roles \<longleftrightarrow> budget_role_valid role"
  by (cases role) (auto simp: valid_roles_def budget_role_valid_def)

lemma distinct_valid_roles: "distinct valid_roles"
  by (simp add: valid_roles_def)

lemma role_le_reserved:
  assumes "region_inv r" "budget_role_valid role"
  shows "unat (roles r role) \<le> unat (reserved r)"
  using assms member_le_sum_list [of "unat (roles r role)" "map (\<lambda>role. unat (roles r role)) valid_roles"]
  by (simp add: region_inv_def role_sum_def set_valid_roles)

lemma admits_iff:
  assumes "region_inv r"
  shows "region_admits role n r \<longleftrightarrow>
    unat (reserved r) + unat n \<le> unat (limit r) \<and>
    (role \<noteq> BUDGET_CONTROL \<longrightarrow>
      unat (reserved r) + unat n + unat (control_reserve r) \<le> unat (limit r) + unat (roles r BUDGET_CONTROL))"
proof -
  have control: "unat (roles r BUDGET_CONTROL) \<le> unat (reserved r)"
    using role_le_reserved [OF assms, of BUDGET_CONTROL] by (simp add: budget_role_valid_def)
  have le: "unat (control_reserve r) \<le> unat (limit r)" "unat (reserved r) \<le> unat (limit r)"
    "unat (reserved r) + unat (control_reserve r) \<le> unat (limit r) + unat (roles r BUDGET_CONTROL)"
    using assms by (simp_all add: region_inv_def word_le_nat_alt)
  have data: "unat (reserved r - roles r BUDGET_CONTROL) = unat (reserved r) - unat (roles r BUDGET_CONTROL)"
    "unat (limit r - control_reserve r) = unat (limit r) - unat (control_reserve r)"
    "unat (limit r - reserved r) = unat (limit r) - unat (reserved r)"
    using control le by (simp_all add: unat_sub_le word_le_nat_alt)
  have "unat (limit r - control_reserve r - (reserved r - roles r BUDGET_CONTROL)) =
      unat (limit r) - unat (control_reserve r) - (unat (reserved r) - unat (roles r BUDGET_CONTROL))"
    using control le data unat_sub_le [of "reserved r - roles r BUDGET_CONTROL" "limit r - control_reserve r"]
    by (simp add: word_le_nat_alt)
  then show ?thesis
    using control le data by (auto simp: region_admits_def word_less_nat_alt)
qed

lemma sum_list_fun_upd:
  fixes f :: "'k \<Rightarrow> nat"
  shows "distinct ks \<Longrightarrow> k \<in> set ks \<Longrightarrow> sum_list (map (f(k := v)) ks) + f k = sum_list (map f ks) + v"
proof (induction ks)
  case (Cons x ks)
  then show ?case
  proof (cases "x = k")
    case True
    then have "map (f(k := v)) ks = map f ks" using Cons.prems by auto
    then show ?thesis by (simp only: True list.map sum_list.Cons fun_upd_same)
  qed auto
qed simp

lemma role_sum_update:
  assumes "budget_role_valid role" "roles r' = (roles r)(role := n)"
  shows "role_sum r' + unat (roles r role) = role_sum r + unat n"
proof -
  have "(\<lambda>x. unat (roles r' x)) = (\<lambda>x. unat (roles r x))(role := unat n)"
    by (auto simp: assms(2))
  then show ?thesis
    unfolding role_sum_def
    using sum_list_fun_upd [OF distinct_valid_roles, of role "\<lambda>x. unat (roles r x)" "unat n"] assms(1)
    by (simp add: set_valid_roles)
qed

text \<open>Booking one region.\<close>

lemma region_book_inv:
  assumes "region_inv r" "budget_role_valid role" "region_admits role n r"
  shows "region_inv (region_book role n r)"
    "\<And>x. unat (roles (region_book role n r) x) = unat (roles r x) + (if x = role then unat n else 0)"
proof -
  let ?r = "region_book role n r"
  note admits = assms(3) [unfolded admits_iff [OF assms(1)]]
  have res: "unat (reserved r + n) = unat (reserved r) + unat n"
    using admits by (intro unat_add_below [of _ _ "limit r"]) simp
  have role: "unat (roles r role + n) = unat (roles r role) + unat n"
    using admits role_le_reserved [OF assms(1,2)] by (intro unat_add_below [of _ _ "limit r"]) simp
  have fields: "reserved ?r = reserved r + n" "roles ?r = (roles r)(role := roles r role + n)"
    "limit ?r = limit r" "control_reserve ?r = control_reserve r"
    by (simp_all add: region_book_def Let_def)
  show roles: "unat (roles ?r x) = unat (roles r x) + (if x = role then unat n else 0)" for x
    by (simp add: fields role)
  have "role_sum ?r + unat (roles r role) = role_sum r + (unat (roles r role) + unat n)"
    using role_sum_update [OF assms(2) fields(2)] role by simp
  moreover have "unat (reserved ?r) + unat (control_reserve r) \<le> unat (limit r) + unat (roles ?r BUDGET_CONTROL)"
    using admits assms(1) by (auto simp: roles fields(1) res region_inv_def)
  ultimately show "region_inv ?r"
    using assms(1) admits res by (simp add: region_inv_def fields word_le_nat_alt)
qed

lemma region_unbook_inv:
  assumes "region_inv r" "budget_role_valid role" "n \<le> roles r role"
  shows "region_inv (region_unbook role n r)"
    "\<And>x. unat (roles (region_unbook role n r) x) = unat (roles r x) - (if x = role then unat n else 0)"
proof -
  let ?r = "region_unbook role n r"
  have le: "unat n \<le> unat (roles r role)" "unat (roles r role) \<le> unat (reserved r)"
    using assms role_le_reserved by (simp_all add: word_le_nat_alt)
  have res: "unat (reserved r - n) = unat (reserved r) - unat n"
    using le by (intro unat_sub_le) (simp add: word_le_nat_alt)
  have role: "unat (roles r role - n) = unat (roles r role) - unat n"
    using assms(3) by (rule unat_sub_le)
  have fields: "reserved ?r = reserved r - n" "roles ?r = (roles r)(role := roles r role - n)"
    "limit ?r = limit r" "control_reserve ?r = control_reserve r"
    by (simp_all add: region_unbook_def)
  show roles: "unat (roles ?r x) = unat (roles r x) - (if x = role then unat n else 0)" for x
    by (simp add: fields role)
  have "role_sum ?r + unat (roles r role) = role_sum r + (unat (roles r role) - unat n)"
    using role_sum_update [OF assms(2) fields(2)] role by simp
  then have "role_sum ?r = unat (reserved r) - unat n" "unat (reserved r) - unat n \<le> unat (limit r)"
    using le assms(1) unfolding region_inv_def word_le_nat_alt by linarith+
  moreover have "unat (reserved ?r) + unat (control_reserve r) \<le> unat (limit r) + unat (roles ?r BUDGET_CONTROL)"
    using le assms(1) by (auto simp: roles fields(1) res region_inv_def)
  ultimately show "region_inv ?r"
    using assms(1) le res by (simp add: region_inv_def fields word_le_nat_alt)
qed

lemma region_retire_inv:
  assumes "region_inv r" "n \<le> roles r BUDGET_POOL"
  shows "region_inv (region_retire n r)"
proof -
  define r1 where "r1 = r\<lparr>roles := (roles r)(BUDGET_POOL := roles r BUDGET_POOL - n)\<rparr>"
  define r2 where "r2 = r1\<lparr>roles := (roles r1)(BUDGET_RETIRED_POOL := roles r1 BUDGET_RETIRED_POOL + n)\<rparr>"
  have le: "unat n \<le> unat (roles r BUDGET_POOL)" using assms(2) by (simp add: word_le_nat_alt)
  have pool: "role_sum r1 + unat (roles r BUDGET_POOL) = role_sum r + (unat (roles r BUDGET_POOL) - unat n)"
    using role_sum_update [of BUDGET_POOL r1 r "roles r BUDGET_POOL - n"] unat_sub_le [OF assms(2)]
    by (simp add: r1_def budget_role_valid_def)
  have pos: "unat (roles r BUDGET_POOL) + unat (roles r BUDGET_RETIRED_POOL) \<le> role_sum r"
    by (simp add: role_sum_def valid_roles_def)
  then have "unat (roles r BUDGET_RETIRED_POOL) + unat n \<le> unat (reserved r)"
    using le assms(1) by (simp add: region_inv_def)
  then have "unat (roles r1 BUDGET_RETIRED_POOL + n) = unat (roles r1 BUDGET_RETIRED_POOL) + unat n"
    by (intro unat_add_below [of _ _ "reserved r"]) (simp add: r1_def)
  then have "role_sum r2 + unat (roles r1 BUDGET_RETIRED_POOL) = role_sum r1 + (unat (roles r1 BUDGET_RETIRED_POOL) + unat n)"
    using role_sum_update [of BUDGET_RETIRED_POOL r2 r1 "roles r1 BUDGET_RETIRED_POOL + n"]
    by (simp add: r2_def budget_role_valid_def)
  then have "role_sum r2 = role_sum r" using pool le pos by simp
  moreover have "region_retire n r = r2" by (simp add: region_retire_def r2_def r1_def Let_def)
  ultimately show ?thesis using assms(1) by (simp add: region_inv_def r2_def r1_def)
qed

section \<open>Conservation\<close>

definition budget_booked :: "memory_budget \<Rightarrow> budget_role \<Rightarrow> book" where
  "budget_booked b role = (unat (roles (fst (regions b)) role), unat (roles (snd (regions b)) role))"

definition budget_book :: "budget_role \<Rightarrow> amount \<Rightarrow> memory_budget \<Rightarrow> memory_budget option" where
  "budget_book role a b = (case memory_budget_reserve role (Some a) b of (ok, b') \<Rightarrow> if ok then Some b' else None)"

definition budget_unbook :: "budget_role \<Rightarrow> amount \<Rightarrow> memory_budget \<Rightarrow> memory_budget option" where
  "budget_unbook role a b = (case memory_budget_release role (Some a) b of (ok, b') \<Rightarrow> if ok then Some b' else None)"

lemma budget_inv_rejected [simp]: "budget_inv (b\<lparr>rejected := n\<rparr>) = budget_inv b"
  by (simp add: budget_inv_def)

lemma reserve_inv: "budget_inv b \<Longrightarrow> budget_inv (snd (memory_budget_reserve role bytes b))"
  using region_book_inv(1) by (auto simp: memory_budget_reserve_def budget_inv_def Let_def split: option.splits)

lemma release_inv: "budget_inv b \<Longrightarrow> budget_inv (snd (memory_budget_release role bytes b))"
  using region_unbook_inv(1) by (auto simp: memory_budget_release_def budget_inv_def not_less split: option.splits)

lemma retire_inv: "budget_inv b \<Longrightarrow> budget_inv (snd (memory_budget_retire bytes b))"
  using region_retire_inv by (auto simp: memory_budget_retire_def budget_inv_def not_less split: option.splits)

lemma reset_counters_inv: "budget_inv b \<Longrightarrow> budget_inv (memory_budget_reset_counters b)"
  by (cases "regions b") (auto simp: memory_budget_reset_counters_def budget_inv_def region_inv_def role_sum_def)

lemma budget_init_inv: "memory_budget_init internal psram control = Some b \<Longrightarrow> budget_inv b"
  by (auto simp: memory_budget_init_def budget_inv_def region_inv_def role_sum_def valid_roles_def
      word_le_nat_alt word_less_nat_alt split: if_splits)

interpretation budget: ledger budget_inv budget_booked "\<lambda>role a. budget_role_valid role" budget_book budget_unbook
proof (unfold_locales, goal_cases)
  case (1 b role a b')
  obtain n0 n1 where a: "a = (n0, n1)" by (cases a)
  have res: "memory_budget_reserve role (Some a) b = (True, b')"
    using 1 by (auto simp: budget_book_def split: prod.splits if_splits)
  then have valid: "budget_role_valid role" and admits: "region_admits role n0 (fst (regions b))"
    "region_admits role n1 (snd (regions b))"
    and b': "b' = b\<lparr>regions := (region_book role n0 (fst (regions b)), region_book role n1 (snd (regions b)))\<rparr>"
    by (auto simp: memory_budget_reserve_def a Let_def split: if_splits)
  have inv: "region_inv (fst (regions b))" "region_inv (snd (regions b))" using 1 by (simp_all add: budget_inv_def)
  note region_book_inv [OF inv(1) valid admits(1)] region_book_inv [OF inv(2) valid admits(2)]
  then show ?case
    using valid by (auto simp: b' a budget_inv_def budget_booked_def nats_def plus_book_def)
next
  case (2 b role a b')
  obtain n0 n1 where a: "a = (n0, n1)" by (cases a)
  have "memory_budget_release role (Some a) b = (True, b')"
    using 2 by (auto simp: budget_unbook_def split: prod.splits if_splits)
  then have valid: "budget_role_valid role"
    and le: "n0 \<le> roles (fst (regions b)) role" "n1 \<le> roles (snd (regions b)) role"
    and b': "b' = b\<lparr>regions := (region_unbook role n0 (fst (regions b)), region_unbook role n1 (snd (regions b)))\<rparr>"
    by (auto simp: memory_budget_release_def a split: if_splits)
  have inv: "region_inv (fst (regions b))" "region_inv (snd (regions b))" using 2 by (simp_all add: budget_inv_def)
  note region_unbook_inv [OF inv(1) valid le(1)] region_unbook_inv [OF inv(2) valid le(2)]
  then show ?case
    by (auto simp: b' a budget_inv_def budget_booked_def nats_def minus_book_def)
next
  case (3 b role a)
  then show ?case
    by (cases a) (auto simp: budget_unbook_def memory_budget_release_def budget_booked_def nats_def
        le_book_def word_less_nat_alt)
qed

section \<open>Properties\<close>

text \<open>
  C36: Admission is exact.  On a well-formed budget a request is granted exactly when it fits the
  limit of each region and, for data roles, leaves the control reserve untouched, all over
  natural numbers; a granted request adds the bytes to its role and nothing else, a refused
  one changes only the counter of rejections.
\<close>

theorem memory_budget_admission:
  assumes "budget_inv b" "budget_role_valid role"
  shows "fst (memory_budget_reserve role (Some (n0, n1)) b) =
      (\<forall>(n, r) \<in> {(n0, fst (regions b)), (n1, snd (regions b))}.
        unat (reserved r) + unat n \<le> unat (limit r) \<and>
        (role \<noteq> BUDGET_CONTROL \<longrightarrow>
          unat (reserved r) + unat n + unat (control_reserve r) \<le> unat (limit r) + unat (roles r BUDGET_CONTROL))) \<and>
    budget_booked (snd (memory_budget_reserve role (Some (n0, n1)) b)) =
      (if fst (memory_budget_reserve role (Some (n0, n1)) b)
       then (budget_booked b)(role := plus_book (budget_booked b role) (nats (n0, n1)))
       else budget_booked b) \<and>
    budget_inv (snd (memory_budget_reserve role (Some (n0, n1)) b))"
proof -
  have inv: "region_inv (fst (regions b))" "region_inv (snd (regions b))" using assms(1) by (simp_all add: budget_inv_def)
  obtain ok b' where res: "memory_budget_reserve role (Some (n0, n1)) b = (ok, b')"
    by (cases "memory_budget_reserve role (Some (n0, n1)) b")
  have ok: "ok \<longleftrightarrow> region_admits role n0 (fst (regions b)) \<and> region_admits role n1 (snd (regions b))"
    using res assms(2) by (auto simp: memory_budget_reserve_def Let_def split: if_splits)
  have "budget_booked b' = (if ok then (budget_booked b)(role := plus_book (budget_booked b role) (nats (n0, n1)))
       else budget_booked b)"
  proof (cases ok)
    case True
    then have "budget_book role (n0, n1) b = Some b'" using res by (simp add: budget_book_def)
    then show ?thesis using budget.book_ok [OF assms(1)] True by auto
  next
    case False
    then have "regions b' = regions b"
      using res by (auto simp: memory_budget_reserve_def Let_def split: if_splits)
    then show ?thesis using False by (auto simp: budget_booked_def)
  qed
  then show ?thesis
    using reserve_inv [OF assms(1), of role "Some (n0, n1)"] ok
    by (auto simp: res admits_iff [OF inv(1)] admits_iff [OF inv(2)])
qed

definition small_budget :: memory_budget where
  "small_budget = \<lparr>regions =
        (\<lparr>limit = 100, control_reserve = 30, reserved = 0, high_water = 0, roles = (\<lambda>_. 0)\<rparr>,
         \<lparr>limit = 50, control_reserve = 0, reserved = 0, high_water = 0, roles = (\<lambda>_. 0)\<rparr>),
        rejected = 0\<rparr>"

lemma small_budget_init: "memory_budget_init 100 50 30 = Some small_budget"
  by (simp add: memory_budget_init_def small_budget_def)

theorem memory_budget_admission_witness:
  "fst (memory_budget_reserve BUDGET_POOL (Some (70, 50)) small_budget) \<and>
   \<not> fst (memory_budget_reserve BUDGET_POOL (Some (71, 50)) small_budget)"
  using memory_budget_admission [OF budget_init_inv [OF small_budget_init], of BUDGET_POOL 70 50]
    memory_budget_admission [OF budget_init_inv [OF small_budget_init], of BUDGET_POOL 71 50]
  by (simp add: budget_role_valid_def small_budget_def)

text \<open>The calls that change a budget: a program makes any of them, in any order, with any arguments.\<close>

datatype budget_call =
  Budget_Reserve budget_role "(u32 \<times> u32) option"
| Budget_Release budget_role "(u32 \<times> u32) option"
| Budget_Retire "(u32 \<times> u32) option"
| Budget_Reset_Counters

fun budget_apply :: "budget_call \<Rightarrow> memory_budget \<Rightarrow> memory_budget" where
  "budget_apply (Budget_Reserve role bytes) b = snd (memory_budget_reserve role bytes b)"
| "budget_apply (Budget_Release role bytes) b = snd (memory_budget_release role bytes b)"
| "budget_apply (Budget_Retire bytes) b = snd (memory_budget_retire bytes b)"
| "budget_apply Budget_Reset_Counters b = memory_budget_reset_counters b"

text \<open>What no call changes: the limits and the control reserve of each region.\<close>

definition budget_bounds :: "memory_budget \<Rightarrow> (u32 \<times> u32) \<times> (u32 \<times> u32)" where
  "budget_bounds b = map_prod (\<lambda>r. (limit r, control_reserve r)) (\<lambda>r. (limit r, control_reserve r)) (regions b)"

lemma apply_inv: "budget_inv b \<Longrightarrow> budget_inv (budget_apply c b)"
  by (cases c) (simp_all add: reserve_inv release_inv retire_inv reset_counters_inv)

lemma apply_bounds: "budget_bounds (budget_apply c b) = budget_bounds b"
  by (cases c; cases "regions b")
    (auto simp: budget_bounds_def memory_budget_reserve_def memory_budget_release_def memory_budget_retire_def
      memory_budget_reset_counters_def region_book_def region_unbook_def region_retire_def Let_def split: option.splits)

lemma reachable_budget:
  "budget_inv b \<Longrightarrow> budget_inv (fold budget_apply calls b) \<and> budget_bounds (fold budget_apply calls b) = budget_bounds b"
  by (induction calls arbitrary: b) (simp_all add: apply_inv apply_bounds)

definition data_bytes :: "budget_region \<Rightarrow> nat" where
  "data_bytes r = sum_list (map (\<lambda>role. unat (roles r role))
     [BUDGET_POOL, BUDGET_RETIRED_POOL, BUDGET_QUEUE, BUDGET_TX, BUDGET_STACK, BUDGET_COPY])"

lemma reserved_split: "region_inv r \<Longrightarrow> unat (reserved r) = unat (roles r BUDGET_CONTROL) + data_bytes r"
  by (simp add: region_inv_def role_sum_def valid_roles_def data_bytes_def)

text \<open>
  C37: The control reserve is a guarantee.  After any sequence of calls on a fresh budget, whatever
  their roles and sizes and whether they were granted or refused, the data roles together hold at
  most the internal limit less the control reserve; so a control request that keeps the control
  bytes within the reserve, and whose PSRAM part fits what is left of the PSRAM limit, is granted.
\<close>

theorem memory_budget_control_guarantee:
  assumes init: "memory_budget_init internal psram control = Some b"
    and reached: "b' = fold budget_apply calls b"
  shows "data_bytes (fst (regions b')) + unat control \<le> unat internal \<and>
    (unat (roles (fst (regions b')) BUDGET_CONTROL) + unat n \<le> unat control \<and>
      unat (roles (snd (regions b')) BUDGET_CONTROL) + data_bytes (snd (regions b')) + unat m \<le> unat psram \<longrightarrow>
      fst (memory_budget_reserve BUDGET_CONTROL (Some (n, m)) b'))"
proof -
  have "budget_inv b'" and bounds: "budget_bounds b' = budget_bounds b"
    using reachable_budget [OF budget_init_inv [OF init]] reached by simp_all
  then have inv: "region_inv (fst (regions b'))" "region_inv (snd (regions b'))" by (simp_all add: budget_inv_def)
  have limits: "limit (fst (regions b')) = internal" "control_reserve (fst (regions b')) = control" "limit (snd (regions b')) = psram"
    using bounds init by (auto simp: budget_bounds_def memory_budget_init_def map_prod_def split: if_splits prod.splits)
  note split = reserved_split [OF inv(1)] reserved_split [OF inv(2)]
  have data: "data_bytes (fst (regions b')) + unat control \<le> unat internal"
    using inv(1) split(1) by (simp add: region_inv_def limits)
  have "region_admits BUDGET_CONTROL n (fst (regions b'))"
    if "unat (roles (fst (regions b')) BUDGET_CONTROL) + unat n \<le> unat control"
    using that data by (simp add: admits_iff [OF inv(1)] split limits)
  moreover have "region_admits BUDGET_CONTROL m (snd (regions b'))"
    if "unat (roles (snd (regions b')) BUDGET_CONTROL) + data_bytes (snd (regions b')) + unat m \<le> unat psram"
    using that by (simp add: admits_iff [OF inv(2)] split limits)
  ultimately show ?thesis using data by (simp add: memory_budget_reserve_def budget_role_valid_def Let_def)
qed

theorem memory_budget_control_guarantee_witness:
  "fst (memory_budget_reserve BUDGET_CONTROL (Some (30, 0))
     (fold budget_apply [Budget_Reserve BUDGET_TX (Some (80, 0)), Budget_Reserve BUDGET_POOL (Some (70, 50)),
        Budget_Retire (Some (20, 0)), Budget_Reset_Counters, Budget_Release BUDGET_RETIRED_POOL (Some (10, 0)),
        Budget_Reserve BUDGET_STACK (Some (10, 0))] small_budget))"
  using memory_budget_control_guarantee [OF small_budget_init refl, of
      "[Budget_Reserve BUDGET_TX (Some (80, 0)), Budget_Reserve BUDGET_POOL (Some (70, 50)),
        Budget_Retire (Some (20, 0)), Budget_Reset_Counters, Budget_Release BUDGET_RETIRED_POOL (Some (10, 0)),
        Budget_Reserve BUDGET_STACK (Some (10, 0))]" 30 0]
  by (simp add: memory_budget_reserve_def memory_budget_release_def memory_budget_retire_def memory_budget_reset_counters_def
      small_budget_def budget_role_valid_def region_admits_def region_book_def region_unbook_def region_retire_def
      data_bytes_def Let_def)

text \<open>
  Conservation.  Whatever a caller books and gives back, a grant can always be given back,
  and when all are, no byte is left booked under any role and none is reserved.
\<close>

lemma memory_budget_conserves:
  assumes "memory_budget_init internal psram control = Some b"
    "budget.client cs b [] = (oks, b', grants)"
  shows "(\<forall>role. budget_booked b' role = granted grants role) \<and>
    (\<forall>i < length grants. budget_unbook (fst (grants ! i)) (snd (grants ! i)) b' \<noteq> None) \<and>
    (grants = [] \<longrightarrow> reserved (fst (regions b')) = 0 \<and> reserved (snd (regions b')) = 0)"
proof -
  have "budget.balanced b []"
    using budget_init_inv [OF assms(1)] assms(1)
    by (auto simp: budget.balanced_def budget_booked_def memory_budget_init_def split: if_splits)
  note bal = budget.client_balanced [OF this assms(2)]
  have unbook: "budget_unbook (fst (grants ! i)) (snd (grants ! i)) b' \<noteq> None" if "i < length grants" for i
    using budget.balanced_unbook [OF bal that, of "fst (grants ! i)" "snd (grants ! i)"] by auto
  have "reserved r = 0" if "region_inv r" "\<And>role. unat (roles r role) = 0" for r
  proof -
    have "role_sum r = 0" using that(2) by (simp add: role_sum_def valid_roles_def)
    then show ?thesis using that(1) by (simp add: region_inv_def unat_eq_0)
  qed
  moreover have "region_inv (fst (regions b'))" "region_inv (snd (regions b'))"
    using bal by (simp_all add: budget.balanced_def budget_inv_def)
  moreover have "unat (roles (fst (regions b')) role) = 0 \<and> unat (roles (snd (regions b')) role) = 0"
    if "grants = []" for role
    using bal that by (auto simp: budget.balanced_def budget_booked_def)
  ultimately show ?thesis using bal unbook by (auto simp: budget.balanced_def)
qed

theorem memory_budget_conserves_witness:
  "\<exists>b'. budget.client [Inl (BUDGET_TX, (5, 6)), Inl (BUDGET_POOL, (90, 0)), Inr 0] small_budget [] =
      ([True, False, True], b', []) \<and> reserved (fst (regions b')) = 0 \<and> reserved (snd (regions b')) = 0"
proof -
  let ?cs = "[Inl (BUDGET_TX, (5, 6)), Inl (BUDGET_POOL, (90, 0)), Inr 0] :: (budget_role \<times> amount + nat) list"
  obtain b' where run: "budget.client ?cs small_budget [] = ([True, False, True], b', [])"
    by (simp add: budget_book_def budget_unbook_def memory_budget_reserve_def memory_budget_release_def
        small_budget_def budget_role_valid_def region_admits_def region_book_def region_unbook_def Let_def)
  with memory_budget_conserves [OF small_budget_init run] show ?thesis by simp
qed

end
