(* ===== verification/Memory_Dma.thy ===== *)
theory Memory_Dma
  imports Prelude
begin

text \<open>
  \<open>esp32_mquickjs_memory_dma_accounting.c\<close>: totals of DMA memory that is promised or pinned,
  and one reservation record per holder.  The pointers are not \<open>NULL\<close> here; \<open>size_t\<close> has
  32 bits.
\<close>

section \<open>The operations\<close>

datatype dma_state = DMA_IDLE | DMA_RESERVED | DMA_COMMITTED

record dma_sizes =
  pending_bytes :: u32
  pending_largest_bytes :: u32
  driver_pinned_bytes :: u32
  staging_pinned_bytes :: u32
  dma_staging_pools :: u32

record dma_reservation = dma_sizes +
  dma_res_state :: dma_state

definition no_sizes :: dma_sizes where
  "no_sizes = \<lparr>pending_bytes = 0, pending_largest_bytes = 0, driver_pinned_bytes = 0,
     staging_pinned_bytes = 0, dma_staging_pools = 0\<rparr>"

definition cleared_reservation :: dma_reservation where
  "cleared_reservation = \<lparr>pending_bytes = 0, pending_largest_bytes = 0, driver_pinned_bytes = 0,
     staging_pinned_bytes = 0, dma_staging_pools = 0, dma_res_state = DMA_IDLE\<rparr>"

definition memory_size_add_fits :: "u32 \<Rightarrow> u32 \<Rightarrow> bool" where
  "memory_size_add_fits left right \<longleftrightarrow> left \<le> - 1 - right"

type_synonym dma_pair = "dma_sizes \<times> dma_reservation"

definition dma_accounting_reserve :: "u32 \<Rightarrow> u32 \<Rightarrow> dma_pair \<Rightarrow> bool \<times> dma_pair" where
  "dma_accounting_reserve total_bytes largest_block_bytes tr =
     (case tr of (t, r) \<Rightarrow>
      if total_bytes = 0 \<or> largest_block_bytes = 0 \<or> largest_block_bytes > total_bytes \<or>
         dma_res_state r \<noteq> DMA_IDLE \<or> \<not> memory_size_add_fits (pending_bytes t) total_bytes \<or>
         \<not> memory_size_add_fits (pending_largest_bytes t) largest_block_bytes
      then (False, tr)
      else (True,
        t\<lparr>pending_bytes := pending_bytes t + total_bytes,
          pending_largest_bytes := pending_largest_bytes t + largest_block_bytes\<rparr>,
        r\<lparr>dma_res_state := DMA_RESERVED, pending_bytes := total_bytes,
          pending_largest_bytes := largest_block_bytes\<rparr>))"

definition dma_accounting_commit :: "u32 \<Rightarrow> dma_pair \<Rightarrow> bool \<times> dma_pair" where
  "dma_accounting_commit pinned tr =
     (case tr of (t, r) \<Rightarrow>
      if pinned = 0 \<or> dma_res_state r \<noteq> DMA_RESERVED \<or> pinned > pending_bytes r \<or>
         pending_bytes t < pending_bytes r \<or> pending_largest_bytes t < pending_largest_bytes r \<or>
         \<not> memory_size_add_fits (driver_pinned_bytes t) pinned
      then (False, tr)
      else (True,
        t\<lparr>pending_bytes := pending_bytes t - pending_bytes r,
          pending_largest_bytes := pending_largest_bytes t - pending_largest_bytes r,
          driver_pinned_bytes := driver_pinned_bytes t + pinned\<rparr>,
        r\<lparr>dma_res_state := DMA_COMMITTED, pending_bytes := 0, pending_largest_bytes := 0,
          driver_pinned_bytes := pinned\<rparr>))"

definition dma_accounting_commit_staging :: "u32 \<Rightarrow> u32 \<Rightarrow> dma_pair \<Rightarrow> bool \<times> dma_pair" where
  "dma_accounting_commit_staging pinned pools tr =
     (case tr of (t, r) \<Rightarrow>
      if pinned = 0 \<or> pools = 0 \<or> dma_res_state r \<noteq> DMA_RESERVED \<or> pinned > pending_bytes r \<or>
         pending_bytes t < pending_bytes r \<or> pending_largest_bytes t < pending_largest_bytes r \<or>
         \<not> memory_size_add_fits (staging_pinned_bytes t) pinned \<or> dma_staging_pools t > - 1 - pools
      then (False, tr)
      else (True,
        t\<lparr>pending_bytes := pending_bytes t - pending_bytes r,
          pending_largest_bytes := pending_largest_bytes t - pending_largest_bytes r,
          staging_pinned_bytes := staging_pinned_bytes t + pinned,
          dma_staging_pools := dma_staging_pools t + pools\<rparr>,
        r\<lparr>dma_res_state := DMA_COMMITTED, pending_bytes := 0, pending_largest_bytes := 0,
          staging_pinned_bytes := pinned, dma_staging_pools := pools\<rparr>))"

definition dma_accounting_release :: "dma_pair \<Rightarrow> bool \<times> dma_pair" where
  "dma_accounting_release tr =
     (case tr of (t, r) \<Rightarrow>
      (case dma_res_state r of
         DMA_IDLE \<Rightarrow> (False, tr)
       | DMA_RESERVED \<Rightarrow>
         if pending_bytes t < pending_bytes r \<or> pending_largest_bytes t < pending_largest_bytes r
         then (False, tr)
         else (True,
           t\<lparr>pending_bytes := pending_bytes t - pending_bytes r,
             pending_largest_bytes := pending_largest_bytes t - pending_largest_bytes r\<rparr>,
           cleared_reservation)
       | DMA_COMMITTED \<Rightarrow>
         if driver_pinned_bytes t < driver_pinned_bytes r \<or> staging_pinned_bytes t < staging_pinned_bytes r \<or>
            dma_staging_pools t < dma_staging_pools r
         then (False, tr)
         else (True,
           t\<lparr>driver_pinned_bytes := driver_pinned_bytes t - driver_pinned_bytes r,
             staging_pinned_bytes := staging_pinned_bytes t - staging_pinned_bytes r,
             dma_staging_pools := dma_staging_pools t - dma_staging_pools r\<rparr>,
           cleared_reservation)))"

section \<open>Many reservations\<close>

datatype dma_call =
  Dma_Reserve u32 u32 | Dma_Commit u32 | Dma_Commit_Staging u32 u32 | Dma_Release

fun dma_call_on :: "dma_call \<Rightarrow> dma_pair \<Rightarrow> bool \<times> dma_pair" where
  "dma_call_on (Dma_Reserve n m) tr = dma_accounting_reserve n m tr"
| "dma_call_on (Dma_Commit n) tr = dma_accounting_commit n tr"
| "dma_call_on (Dma_Commit_Staging n m) tr = dma_accounting_commit_staging n m tr"
| "dma_call_on Dma_Release tr = dma_accounting_release tr"

text \<open>The totals and the reservations of all holders; a call names its holder.\<close>

fun dma_run :: "(nat \<times> dma_call) list \<Rightarrow> dma_sizes \<times> dma_reservation list \<Rightarrow> dma_sizes \<times> dma_reservation list" where
  "dma_run [] (t, rs) = (t, rs)"
| "dma_run ((i, c) # cs) (t, rs) =
     (if i < length rs then
        (case dma_call_on c (t, rs ! i) of (_, t', r') \<Rightarrow> dma_run cs (t', rs[i := r']))
      else dma_run cs (t, rs))"

text \<open>A reservation holds only what its state says.\<close>

definition dma_res_ok :: "dma_reservation \<Rightarrow> bool" where
  "dma_res_ok r \<longleftrightarrow>
     (dma_res_state r \<noteq> DMA_RESERVED \<longrightarrow> pending_bytes r = 0 \<and> pending_largest_bytes r = 0) \<and>
     (dma_res_state r \<noteq> DMA_COMMITTED \<longrightarrow>
        driver_pinned_bytes r = 0 \<and> staging_pinned_bytes r = 0 \<and> dma_staging_pools r = 0)"

text \<open>The five sizes as natural numbers.\<close>

definition sizes_of :: "'a dma_sizes_scheme \<Rightarrow> nat \<Rightarrow> nat" where
  "sizes_of s i = unat ([pending_bytes s, pending_largest_bytes s, driver_pinned_bytes s,
     staging_pinned_bytes s, dma_staging_pools s] ! i)"

lemma sizes_of_cases:
  "sizes_of s 0 = unat (pending_bytes s)" "sizes_of s 1 = unat (pending_largest_bytes s)"
  "sizes_of s 2 = unat (driver_pinned_bytes s)" "sizes_of s 3 = unat (staging_pinned_bytes s)"
  "sizes_of s 4 = unat (dma_staging_pools s)" "sizes_of s (Suc 0) = unat (pending_largest_bytes s)"
  by (simp_all add: sizes_of_def)

definition dma_moved :: "dma_pair \<Rightarrow> dma_pair \<Rightarrow> bool" where
  "dma_moved tr tr' \<longleftrightarrow> (case (tr, tr') of ((t, r), (t', r')) \<Rightarrow>
     \<forall>i \<in> {0, 1, 2, 3, 4}. sizes_of t' i + sizes_of r i = sizes_of t i + sizes_of r' i)"

lemma add_fits32: "memory_size_add_fits a b \<Longrightarrow> unat (a + b) = unat a + unat b"
  unfolding memory_size_add_fits_def word_sum_guard by (rule unat_add_fits)

lemma pools_fit: "\<not> a > - 1 - b \<Longrightarrow> unat (a + b) = unat a + unat b" for a b :: u32
  unfolding not_less word_sum_guard by (rule unat_add_fits)

lemma sub_fits32: "\<not> a < b \<Longrightarrow> unat (a - b) + unat b = unat a" for a b :: u32
  by (simp add: not_less unat_sub_le word_le_nat_alt)

lemma dma_call_moved:
  assumes "dma_call_on c (t, r) = (ok, t', r')" "dma_res_ok r"
  shows "dma_moved (t, r) (t', r') \<and> dma_res_ok r'"
proof (cases c)
  case (Dma_Reserve n m)
  then show ?thesis
    using assms by (auto simp: dma_accounting_reserve_def dma_moved_def dma_res_ok_def sizes_of_cases
        add_fits32 split: if_splits)
next
  case (Dma_Commit n)
  then show ?thesis
    using assms by (auto simp: dma_accounting_commit_def dma_moved_def dma_res_ok_def sizes_of_cases
        add_fits32 sub_fits32 split: if_splits)
next
  case (Dma_Commit_Staging n m)
  then show ?thesis
    using assms by (auto simp: dma_accounting_commit_staging_def dma_moved_def dma_res_ok_def sizes_of_cases
        add_fits32 pools_fit sub_fits32 split: if_splits)
next
  case Dma_Release
  then show ?thesis
    using assms by (auto simp: dma_accounting_release_def dma_moved_def dma_res_ok_def sizes_of_cases
        cleared_reservation_def sub_fits32 split: if_splits dma_state.splits)
qed

definition dma_balanced :: "dma_sizes \<times> dma_reservation list \<Rightarrow> bool" where
  "dma_balanced trs \<longleftrightarrow> (case trs of (t, rs) \<Rightarrow>
     (\<forall>r \<in> set rs. dma_res_ok r) \<and>
     (\<forall>i \<in> {0, 1, 2, 3, 4}. sizes_of t i = sum_list (map (\<lambda>r. sizes_of r i) rs)))"

lemma dma_balanced_step:
  assumes "dma_balanced (t, rs)" "i < length rs" "dma_call_on c (t, rs ! i) = (ok, t', r')"
  shows "dma_balanced (t', rs[i := r'])"
proof -
  have step: "dma_moved (t, rs ! i) (t', r')" "dma_res_ok r'"
    using dma_call_moved [OF assms(3)] assms(1,2) by (auto simp: dma_balanced_def)
  have "\<forall>r \<in> set (rs[i := r']). dma_res_ok r"
    using assms(1) step(2) set_update_subset_insert [of rs i r'] by (auto simp: dma_balanced_def)
  moreover have "sizes_of t' j = sum_list (map (\<lambda>r. sizes_of r j) (rs[i := r']))" if j: "j \<in> {0, 1, 2, 3, 4}" for j
  proof -
    have "sum_list (map (\<lambda>r. sizes_of r j) (rs[i := r'])) + sizes_of (rs ! i) j =
        sum_list (map (\<lambda>r. sizes_of r j) rs) + sizes_of r' j"
      using sum_list_update_nat [of i "map (\<lambda>r. sizes_of r j) rs" "sizes_of r' j"] assms(2)
      by (simp add: map_update)
    moreover have "sizes_of t' j + sizes_of (rs ! i) j = sizes_of t j + sizes_of r' j"
      using step(1) j unfolding dma_moved_def by blast
    moreover have "sizes_of t j = sum_list (map (\<lambda>r. sizes_of r j) rs)"
      using assms(1) j unfolding dma_balanced_def by blast
    ultimately show ?thesis by linarith
  qed
  ultimately show ?thesis by (simp add: dma_balanced_def)
qed

lemma dma_run_balanced: "dma_balanced trs \<Longrightarrow> dma_balanced (dma_run cs trs)"
proof (induction cs trs rule: dma_run.induct)
  case (2 i c cs t rs)
  then show ?case using dma_balanced_step by (auto split: prod.splits)
qed simp

lemma dma_run_length: "length (snd (dma_run cs trs)) = length (snd trs)"
  by (induction cs trs rule: dma_run.induct) (simp_all split: prod.splits)

section \<open>Properties\<close>

text \<open>
  The DMA totals are the sums.  From cleared totals and reservations on, whatever the
  holders call in whatever order, each of the five totals is the sum of that size over the
  reservations, over the natural numbers; and every reservation that is not idle can be released.
\<close>

lemma dma_accounting_sums:
  assumes "dma_run cs (no_sizes, replicate n cleared_reservation) = (t, rs)"
  shows "(\<forall>i \<in> {0, 1, 2, 3, 4}. sizes_of t i = sum_list (map (\<lambda>r. sizes_of r i) rs)) \<and>
    (\<forall>i < n. dma_res_state (rs ! i) \<noteq> DMA_IDLE \<longrightarrow> fst (dma_accounting_release (t, rs ! i)))"
proof -
  have "dma_balanced (no_sizes, replicate n cleared_reservation)"
    by (auto simp: dma_balanced_def no_sizes_def cleared_reservation_def dma_res_ok_def sizes_of_cases
        sum_list_replicate)
  with dma_run_balanced assms have bal: "dma_balanced (t, rs)" by metis
  have len: "length rs = n"
    using dma_run_length [of cs "(no_sizes, replicate n cleared_reservation)"] assms by simp
  have le: "sizes_of (rs ! i) j \<le> sizes_of t j" if "i < n" "j \<in> {0, 1, 2, 3, 4}" for i j
    using bal that len member_le_sum_list [of "sizes_of (rs ! i) j" "map (\<lambda>r. sizes_of r j) rs"]
    unfolding dma_balanced_def by auto
  have le: "\<not> pending_bytes t < pending_bytes (rs ! i)" "\<not> pending_largest_bytes t < pending_largest_bytes (rs ! i)"
    "\<not> driver_pinned_bytes t < driver_pinned_bytes (rs ! i)" "\<not> staging_pinned_bytes t < staging_pinned_bytes (rs ! i)"
    "\<not> dma_staging_pools t < dma_staging_pools (rs ! i)" if "i < n" for i
    using le [OF that, of 0] le [OF that, of 1] le [OF that, of 2] le [OF that, of 3] le [OF that, of 4]
    by (simp_all add: sizes_of_cases not_less word_le_nat_alt)
  have "fst (dma_accounting_release (t, rs ! i))" if "i < n" "dma_res_state (rs ! i) \<noteq> DMA_IDLE" for i
    using le [OF that(1)] that(2) by (cases "dma_res_state (rs ! i)") (simp_all add: dma_accounting_release_def)
  then show ?thesis using bal by (auto simp: dma_balanced_def)
qed

theorem dma_accounting_sums_witness:
  "\<exists>t rs. dma_run [(0, Dma_Reserve 100 60), (1, Dma_Reserve 8 8), (0, Dma_Commit 90)]
      (no_sizes, replicate 2 cleared_reservation) = (t, rs) \<and>
    sizes_of t 0 = sum_list (map (\<lambda>r. sizes_of r 0) rs) \<and> fst (dma_accounting_release (t, rs ! 0))"
proof -
  let ?cs = "[(0, Dma_Reserve 100 60), (1, Dma_Reserve 8 8), (0, Dma_Commit 90)]"
  obtain t rs where run: "dma_run ?cs (no_sizes, replicate 2 cleared_reservation) = (t, rs)"
    by (cases "dma_run ?cs (no_sizes, replicate 2 cleared_reservation)")
  have two: "replicate 2 cleared_reservation = [cleared_reservation, cleared_reservation]"
    by (simp add: numeral_2_eq_2)
  have "dma_res_state (rs ! 0) \<noteq> DMA_IDLE"
    using run unfolding two by (auto simp: dma_accounting_reserve_def dma_accounting_commit_def no_sizes_def
        cleared_reservation_def memory_size_add_fits_def)
  with dma_accounting_sums [OF run] run show ?thesis by auto
qed

end
