(* ===== verification/Memory_Owner.thy ===== *)
theory Memory_Owner
  imports Ledger "HOL-Library.Char_ord" "HOL-Library.List_Lexorder" "HOL-Library.Product_Lexorder" "HOL-Library.Multiset"
begin

text \<open>
  \<open>esp32_mquickjs_memory_owner_accounting.c\<close>: bytes and blocks per owner, memory class and
  region, in an unordered table of at most 48 entries, with a sorted snapshot.  The list is
  \<open>entries[0..count)\<close>; the owner is a C string, ordered by \<open>strcmp\<close>.
\<close>

section \<open>The operations\<close>

datatype owner_key = Owner_Key (key_owner: string) (key_class: u8) (key_region: u8)

text \<open>The order of \<open>strcmp\<close>, then of the class, then of the region.\<close>

instantiation owner_key :: linorder
begin

definition less_eq_owner_key :: "owner_key \<Rightarrow> owner_key \<Rightarrow> bool" where
  "less_eq_owner_key k l \<longleftrightarrow>
     (key_owner k, key_class k, key_region k) \<le> (key_owner l, key_class l, key_region l)"

definition less_owner_key :: "owner_key \<Rightarrow> owner_key \<Rightarrow> bool" where
  "less_owner_key k l \<longleftrightarrow>
     (key_owner k, key_class k, key_region k) < (key_owner l, key_class l, key_region l)"

instance
proof
  fix k l m :: owner_key
  show "k < l \<longleftrightarrow> k \<le> l \<and> \<not> l \<le> k" by (auto simp: less_eq_owner_key_def less_owner_key_def)
  show "k \<le> k" by (simp add: less_eq_owner_key_def)
  show "k \<le> l \<Longrightarrow> l \<le> m \<Longrightarrow> k \<le> m" unfolding less_eq_owner_key_def by (rule order.trans)
  show "k \<le> l \<Longrightarrow> l \<le> k \<Longrightarrow> k = l"
    unfolding less_eq_owner_key_def by (drule (1) order.antisym) (simp add: owner_key.expand)
  show "k \<le> l \<or> l \<le> k" unfolding less_eq_owner_key_def by (rule linear)
qed

end

record owner_entry =
  entry_key :: owner_key
  entry_bytes :: u32
  entry_blocks :: u32

definition MAX_OWNER_ENTRIES :: nat where "MAX_OWNER_ENTRIES = 48"

text \<open>Only the sign of the result is used.\<close>

definition memory_owner_entry_compare :: "owner_entry \<Rightarrow> owner_entry \<Rightarrow> int" where
  "memory_owner_entry_compare left right =
     (let l = entry_key left; r = entry_key right
      in if key_owner l \<noteq> key_owner r then (if key_owner l < key_owner r then -1 else 1)
         else if key_class l \<noteq> key_class r then (if key_class l < key_class r then -1 else 1)
         else if key_region l \<noteq> key_region r then (if key_region l < key_region r then -1 else 1)
         else 0)"

fun memory_owner_find :: "owner_entry list \<Rightarrow> owner_key \<Rightarrow> nat option" where
  "memory_owner_find [] key = None"
| "memory_owner_find (e # es) key =
     (if entry_key e = key then Some 0 else map_option Suc (memory_owner_find es key))"

definition memory_owner_add :: "owner_key \<Rightarrow> amount \<Rightarrow> owner_entry list \<Rightarrow> owner_entry list option" where
  "memory_owner_add key a es =
     (case a of (bytes, blocks) \<Rightarrow>
      if key_owner key = [] \<or> (bytes = 0 \<and> blocks = 0) then None
      else case memory_owner_find es key of
        Some i \<Rightarrow>
          if bytes > - 1 - entry_bytes (es ! i) \<or> blocks > - 1 - entry_blocks (es ! i) then None
          else Some (es[i := (es ! i)\<lparr>entry_bytes := entry_bytes (es ! i) + bytes,
                                     entry_blocks := entry_blocks (es ! i) + blocks\<rparr>])
      | None \<Rightarrow>
          if length es \<ge> MAX_OWNER_ENTRIES then None
          else Some (es @ [\<lparr>entry_key = key, entry_bytes = bytes, entry_blocks = blocks\<rparr>]))"

text \<open>The last entry moves into the hole.\<close>

definition remove_entry :: "nat \<Rightarrow> owner_entry list \<Rightarrow> owner_entry list" where
  "remove_entry i es =
     (let count = length es - 1 in take count (if i \<noteq> count then es[i := es ! count] else es))"

definition memory_owner_remove :: "owner_key \<Rightarrow> amount \<Rightarrow> owner_entry list \<Rightarrow> owner_entry list option" where
  "memory_owner_remove key a es =
     (case a of (bytes, blocks) \<Rightarrow>
      if key_owner key = [] \<or> (bytes = 0 \<and> blocks = 0) then None
      else case memory_owner_find es key of
        None \<Rightarrow> None
      | Some i \<Rightarrow>
          if entry_bytes (es ! i) < bytes \<or> entry_blocks (es ! i) < blocks then None
          else
            let e = (es ! i)\<lparr>entry_bytes := entry_bytes (es ! i) - bytes,
                             entry_blocks := entry_blocks (es ! i) - blocks\<rparr>;
                es = es[i := e]
            in if entry_bytes e \<noteq> 0 \<or> entry_blocks e \<noteq> 0 then Some es
               else Some (remove_entry i es))"

text \<open>The inner loop of the snapshot's insertion sort, and the outer one.\<close>

fun shift_in :: "owner_entry \<Rightarrow> nat \<Rightarrow> owner_entry list \<Rightarrow> owner_entry list" where
  "shift_in current 0 es = es[0 := current]"
| "shift_in current (Suc p) es =
     (if memory_owner_entry_compare current (es ! p) < 0
      then shift_in current p (es[Suc p := es ! p])
      else es[Suc p := current])"

fun sort_entries :: "nat list \<Rightarrow> owner_entry list \<Rightarrow> owner_entry list" where
  "sort_entries [] es = es"
| "sort_entries (i # is) es = sort_entries is (shift_in (es ! i) i es)"

definition memory_owner_snapshot :: "owner_entry list \<Rightarrow> nat \<Rightarrow> owner_entry list" where
  "memory_owner_snapshot es capacity =
     (if capacity = 0 then []
      else let count = (if length es < capacity then length es else capacity)
        in sort_entries [1..<count] (take count es))"

section \<open>The table as a ledger\<close>

definition owner_inv :: "owner_entry list \<Rightarrow> bool" where
  "owner_inv es \<longleftrightarrow> length es \<le> MAX_OWNER_ENTRIES \<and> distinct (map entry_key es) \<and>
     (\<forall>e \<in> set es. entry_bytes e \<noteq> 0 \<or> entry_blocks e \<noteq> 0)"

definition entry_book :: "owner_entry \<Rightarrow> book" where
  "entry_book e = (unat (entry_bytes e), unat (entry_blocks e))"

definition owner_booked :: "owner_entry list \<Rightarrow> owner_key \<Rightarrow> book" where
  "owner_booked es key =
     (case memory_owner_find es key of None \<Rightarrow> (0, 0) | Some i \<Rightarrow> entry_book (es ! i))"

definition owner_valid :: "owner_key \<Rightarrow> amount \<Rightarrow> bool" where
  "owner_valid key a \<longleftrightarrow> key_owner key \<noteq> [] \<and> a \<noteq> (0, 0)"

lemma find_None: "memory_owner_find es key = None \<longleftrightarrow> key \<notin> entry_key ` set es"
  by (induction es) auto

lemma find_Some:
  "memory_owner_find es key = Some i \<Longrightarrow> i < length es \<and> entry_key (es ! i) = key"
  by (induction es arbitrary: i) (auto split: if_splits)

lemma booked_absent: "key \<notin> entry_key ` set es \<Longrightarrow> owner_booked es key = (0, 0)"
  by (simp add: owner_booked_def flip: find_None)

lemma booked_present:
  assumes "distinct (map entry_key es)" "e \<in> set es" "entry_key e = key"
  shows "owner_booked es key = entry_book e"
proof -
  obtain i where i: "memory_owner_find es key = Some i"
    using assms(2,3) find_None [of es key] by (cases "memory_owner_find es key") auto
  note find = find_Some [OF this]
  then have "es ! i = e"
    using assms by (metis (no_types, lifting) in_set_conv_nth length_map nth_eq_iff_index_eq nth_map)
  then show ?thesis using i by (simp add: owner_booked_def)
qed

text \<open>Two tables with the same entries have the same books.\<close>

lemma booked_insert:
  assumes "distinct (map entry_key es)" "set es = insert e S" "e \<notin> S"
    "distinct (map entry_key es')" "set es' = insert e' S" "entry_key e' = entry_key e"
  shows "owner_booked es' = (owner_booked es)(entry_key e := entry_book e')"
proof
  fix key
  show "owner_booked es' key = ((owner_booked es)(entry_key e := entry_book e')) key"
  proof (cases "key = entry_key e")
    case True
    then show ?thesis using booked_present [OF assms(4), of e'] assms(5,6) by simp
  next
    case False
    show ?thesis
    proof (cases "key \<in> entry_key ` S")
      case True
      then obtain x where "x \<in> S" "entry_key x = key" by auto
      then show ?thesis
        using False booked_present [OF assms(4), of x] booked_present [OF assms(1), of x] assms(2,5) by simp
    next
      case False
      then show ?thesis
        using \<open>key \<noteq> entry_key e\<close> booked_absent [of key es] booked_absent [of key es'] assms(2,5,6) by auto
    qed
  qed
qed

lemma booked_delete:
  assumes "distinct (map entry_key es)" "set es = insert e S" "entry_key e \<notin> entry_key ` S"
    "distinct (map entry_key es')" "set es' = S"
  shows "owner_booked es' = (owner_booked es)(entry_key e := (0, 0))"
proof
  fix key
  show "owner_booked es' key = ((owner_booked es)(entry_key e := (0, 0))) key"
  proof (cases "key \<in> entry_key ` S")
    case True
    then obtain x where "x \<in> S" "entry_key x = key" by auto
    then show ?thesis
      using True assms(3) booked_present [OF assms(4), of x] booked_present [OF assms(1), of x] assms(2,5) by auto
  next
    case False
    then show ?thesis
      using booked_absent [of key es] booked_absent [of key es'] assms(2,5) by auto
  qed
qed

lemma remove_entry_mset:
  assumes "i < length es"
  shows "mset (es ! i # remove_entry i es) = mset es"
proof -
  obtain xs x where es: "es = xs @ [x]" using assms by (cases es rule: rev_cases) auto
  show ?thesis
  proof (cases "i = length xs")
    case True
    then show ?thesis by (simp add: es remove_entry_def)
  next
    case False
    then have "i < length xs" using assms es by simp
    then show ?thesis
      by (simp add: es remove_entry_def nth_append list_update_append mset_update)
  qed
qed

text \<open>What the two operations do to the table.\<close>

lemma replace_entry:
  assumes "owner_inv es" "i < length es" "entry_key e = entry_key (es ! i)"
    "entry_bytes e \<noteq> 0 \<or> entry_blocks e \<noteq> 0"
  shows "owner_inv (es[i := e])"
    "owner_booked (es[i := e]) = (owner_booked es)(entry_key e := entry_book e)"
proof -
  have dist: "distinct (map entry_key es)" "distinct es"
    using assms(1) by (simp_all add: owner_inv_def distinct_map)
  have keys: "map entry_key (es[i := e]) = map entry_key es"
    by (simp add: map_update assms(3) list_update_same_conv assms(2))
  have set: "set (es[i := e]) = insert e (set es - {es ! i})"
    by (rule set_update_distinct [OF dist(2) assms(2)])
  then show "owner_inv (es[i := e])" using assms(1,4) keys by (auto simp: owner_inv_def)
  show "owner_booked (es[i := e]) = (owner_booked es)(entry_key e := entry_book e)"
    using booked_insert [of es "es ! i" "set es - {es ! i}" "es[i := e]" e] dist keys set assms(2,3)
    by (simp add: insert_absorb)
qed

lemma new_entry:
  assumes "owner_inv es" "entry_key e \<notin> entry_key ` set es" "length es < MAX_OWNER_ENTRIES"
    "entry_bytes e \<noteq> 0 \<or> entry_blocks e \<noteq> 0"
  shows "owner_inv (es @ [e])"
    "owner_booked (es @ [e]) = (owner_booked es)(entry_key e := entry_book e)"
proof -
  show inv: "owner_inv (es @ [e])" using assms by (auto simp: owner_inv_def)
  then have dist: "distinct (map entry_key es)" "distinct (map entry_key (es @ [e]))"
    using assms(1) by (simp_all add: owner_inv_def)
  show "owner_booked (es @ [e]) = (owner_booked es)(entry_key e := entry_book e)"
  proof
    fix key show "owner_booked (es @ [e]) key = ((owner_booked es)(entry_key e := entry_book e)) key"
    proof (cases "key = entry_key e")
      case True
      then show ?thesis using booked_present [OF dist(2), of e] by simp
    next
      case False
      show ?thesis
      proof (cases "key \<in> entry_key ` set es")
        case True
        then obtain x where "x \<in> set es" "entry_key x = key" by auto
        then show ?thesis using False booked_present [OF dist(1), of x] booked_present [OF dist(2), of x] by simp
      next
        case absent: False
        then show ?thesis using False by (simp add: booked_absent)
      qed
    qed
  qed
qed

lemma delete_entry:
  assumes "owner_inv es" "i < length es"
  shows "owner_inv (remove_entry i es)"
    "owner_booked (remove_entry i es) = (owner_booked es)(entry_key (es ! i) := (0, 0))"
proof -
  note mset = remove_entry_mset [OF assms(2)]
  have dist: "distinct (map entry_key es)" using assms(1) by (simp add: owner_inv_def)
  have "mset (map entry_key (es ! i # remove_entry i es)) = mset (map entry_key es)"
    unfolding mset_map mset ..
  then have dist': "distinct (map entry_key (es ! i # remove_entry i es))"
    using dist by (metis mset_eq_imp_distinct_iff)
  have set: "set es = insert (es ! i) (set (remove_entry i es))"
    using mset by (metis list.simps(15) mset_eq_setD)
  have "length (remove_entry i es) \<le> length es" using mset by (metis length_Cons mset_eq_length le_Suc_eq order_refl)
  then show "owner_inv (remove_entry i es)"
    using assms(1) dist' set by (auto simp: owner_inv_def)
  show "owner_booked (remove_entry i es) = (owner_booked es)(entry_key (es ! i) := (0, 0))"
    using dist dist' set by (intro booked_delete) auto
qed

interpretation owner: ledger owner_inv owner_booked owner_valid memory_owner_add memory_owner_remove
proof (unfold_locales, goal_cases)
  case (1 es key a es')
  obtain bytes blocks where a: "a = (bytes, blocks)" by (cases a)
  have valid: "owner_valid key a" using 1(2) by (auto simp: memory_owner_add_def a owner_valid_def split: if_splits)
  show ?case
  proof (cases "memory_owner_find es key")
    case None
    then have "key \<notin> entry_key ` set es" by (simp add: find_None)
    moreover have es': "es' = es @ [\<lparr>entry_key = key, entry_bytes = bytes, entry_blocks = blocks\<rparr>]"
      "length es < MAX_OWNER_ENTRIES"
      using 1(2) None by (auto simp: memory_owner_add_def a split: if_splits)
    ultimately show ?thesis
      using new_entry [OF 1(1), of "\<lparr>entry_key = key, entry_bytes = bytes, entry_blocks = blocks\<rparr>"] valid
      by (simp add: owner_valid_def a booked_absent entry_book_def nats_def plus_book_def)
  next
    case (Some i)
    let ?e = "es ! i"
    define e where "e = ?e\<lparr>entry_bytes := entry_bytes ?e + bytes, entry_blocks := entry_blocks ?e + blocks\<rparr>"
    note find = find_Some [OF Some]
    have fits: "bytes \<le> - 1 - entry_bytes ?e" "blocks \<le> - 1 - entry_blocks ?e" and es': "es' = es[i := e]"
      using 1(2) Some by (auto simp: memory_owner_add_def a e_def not_less split: if_splits)
    then have sums: "unat (entry_bytes e) = unat (entry_bytes ?e) + unat bytes"
      "unat (entry_blocks e) = unat (entry_blocks ?e) + unat blocks"
      by (simp_all add: e_def unat_add_guard)
    then have nonzero: "entry_bytes e \<noteq> 0 \<or> entry_blocks e \<noteq> 0"
      using valid unfolding owner_valid_def a by (metis Pair_inject add_is_0 unat_eq_0)
    note new = replace_entry [OF 1(1), of i e]
    have "owner_booked es key = entry_book ?e" by (simp add: owner_booked_def Some)
    then show ?thesis
      using new find nonzero valid sums by (simp add: es' e_def entry_book_def nats_def plus_book_def a)
  qed
next
  case (2 es key a es')
  obtain bytes blocks where a: "a = (bytes, blocks)" by (cases a)
  obtain i where Some: "memory_owner_find es key = Some i"
    using 2(2) by (auto simp: memory_owner_remove_def a split: if_splits option.splits)
  let ?e = "es ! i"
  define e where "e = ?e\<lparr>entry_bytes := entry_bytes ?e - bytes, entry_blocks := entry_blocks ?e - blocks\<rparr>"
  note find = find_Some [OF Some]
  have le: "bytes \<le> entry_bytes ?e" "blocks \<le> entry_blocks ?e"
    and es': "es' = (if entry_bytes e \<noteq> 0 \<or> entry_blocks e \<noteq> 0 then es[i := e] else remove_entry i (es[i := e]))"
    using 2(2) Some by (auto simp: memory_owner_remove_def a e_def not_less Let_def split: if_splits)
  have diff: "entry_book e = minus_book (entry_book ?e) (nats a)"
    using le by (simp add: entry_book_def e_def nats_def minus_book_def a unat_sub_le)
  have booked: "owner_booked es key = entry_book ?e" by (simp add: owner_booked_def Some)
  show ?case
  proof (cases "entry_bytes e \<noteq> 0 \<or> entry_blocks e \<noteq> 0")
    case True
    then show ?thesis
      using replace_entry [OF 2(1), of i e] find diff booked by (simp add: es' e_def)
  next
    case False
    then have zero: "entry_book e = (0, 0)" by (simp add: entry_book_def)
    have "remove_entry i (es[i := e]) = remove_entry i es"
      by (auto simp: remove_entry_def Let_def take_update_swap list_update_beyond)
    then show ?thesis
      using delete_entry [OF 2(1), of i] find diff booked zero False by (simp add: es')
  qed
next
  case (3 es key a)
  obtain bytes blocks where a: "a = (bytes, blocks)" by (cases a)
  have "owner_booked es key \<noteq> (0, 0)"
    using 3 by (auto simp: owner_valid_def a le_book_def nats_def unat_eq_0)
  then obtain i where Some: "memory_owner_find es key = Some i"
    using booked_absent [of key es] find_None [of es key] by (cases "memory_owner_find es key") auto
  then have "owner_booked es key = entry_book (es ! i)" by (simp add: owner_booked_def)
  then show ?case
    using 3 Some by (auto simp: memory_owner_remove_def a owner_valid_def entry_book_def le_book_def nats_def
        Let_def word_less_nat_alt)
qed

section \<open>The sorted snapshot\<close>

lemma compare_less: "memory_owner_entry_compare x y < 0 \<longleftrightarrow> entry_key x < entry_key y"
  by (auto simp: memory_owner_entry_compare_def less_owner_key_def Let_def)

text \<open>Where the entry lands, seen from the end of the sorted part.\<close>

fun place :: "owner_entry \<Rightarrow> owner_entry list \<Rightarrow> owner_entry list" where
  "place c [] = [c]"
| "place c (y # ys) = (if entry_key c < entry_key y then y # place c ys else c # y # ys)"

lemma shift_in_place:
  "p < length es \<Longrightarrow> shift_in c p es = rev (place c (rev (take p es))) @ drop (Suc p) es"
proof (induction p arbitrary: es)
  case 0
  then show ?case by (cases es) auto
next
  case (Suc p)
  have take: "take (Suc p) es = take p es @ [es ! p]" using Suc.prems by (simp add: take_Suc_conv_app_nth)
  have drop: "drop (Suc p) (es[Suc p := es ! p]) = es ! p # drop (Suc (Suc p)) es"
    using Suc.prems by (metis Cons_nth_drop_Suc drop_update_cancel length_list_update lessI nth_list_update_eq)
  show ?case
    using Suc.prems Suc.IH [of "es[Suc p := es ! p]"]
    by (simp add: compare_less take drop upd_conv_take_nth_drop)
qed

lemma mset_place [simp]: "mset (place c ys) = add_mset c (mset ys)"
  by (induction ys) auto

lemma set_place [simp]: "set (place c ys) = insert c (set ys)"
  by (induction ys) auto

lemma length_place [simp]: "length (place c ys) = Suc (length ys)"
  by (induction ys) auto

abbreviation descending :: "owner_entry list \<Rightarrow> bool" where
  "descending ys \<equiv> sorted_wrt (\<lambda>x y. entry_key y \<le> entry_key x) ys"

lemma sorted_place: "descending ys \<Longrightarrow> descending (place c ys)"
  by (induction ys) (auto simp: not_less intro: order.strict_implies_order order.trans)

lemma ascending_rev: "sorted (map entry_key (rev ys)) \<longleftrightarrow> descending ys"
  by (simp add: sorted_map sorted_wrt_rev)

lemma sort_entries_sorted:
  "n \<le> length es \<Longrightarrow> 0 < k \<Longrightarrow> k \<le> n \<Longrightarrow> sorted (map entry_key (take k es)) \<Longrightarrow>
   sorted (map entry_key (take n (sort_entries [k..<n] es))) \<and>
   mset (sort_entries [k..<n] es) = mset es \<and> length (sort_entries [k..<n] es) = length es"
proof (induction "n - k" arbitrary: k es)
  case 0
  then show ?case by simp
next
  case (Suc m)
  then have k: "k < n" "k < length es" by simp_all
  let ?es = "shift_in (es ! k) k es"
  note shifted = shift_in_place [OF k(2), of "es ! k"]
  have parts: "es = take k es @ es ! k # drop (Suc k) es" by (rule id_take_nth_drop [OF k(2)])
  have "mset (take k es @ es ! k # drop (Suc k) es) = mset es" using parts by simp
  then have mset: "mset ?es = mset es" unfolding shifted by simp
  then have len: "length ?es = length es" by (rule mset_eq_length)
  have front: "take (Suc k) ?es = rev (place (es ! k) (rev (take k es)))"
    unfolding shifted using k by simp
  have "descending (rev (take k es))" using Suc.prems(4) ascending_rev [of "rev (take k es)"] by simp
  then have "sorted (map entry_key (take (Suc k) ?es))"
    unfolding front ascending_rev by (rule sorted_place)
  then have "sorted (map entry_key (take n (sort_entries [Suc k..<n] ?es))) \<and>
      mset (sort_entries [Suc k..<n] ?es) = mset ?es \<and> length (sort_entries [Suc k..<n] ?es) = length ?es"
    using Suc.hyps k len Suc.prems(1) by (intro Suc.hyps(1)) auto
  then show ?case using k mset len by (simp add: upt_conv_Cons)
qed

section \<open>Properties\<close>

text \<open>
  Conservation per owner.  Whatever is added and removed for whatever owners, a table that
  started empty books for each owner, class and region exactly the sum of what was
  granted and not returned; a grant can always be returned, and at most 48 keys are in use.
\<close>

lemma memory_owner_conserves:
  assumes "owner.client cs [] [] = (oks, es, grants)"
  shows "(\<forall>key. owner_booked es key = granted grants key) \<and>
    (\<forall>i < length grants. memory_owner_remove (fst (grants ! i)) (snd (grants ! i)) es \<noteq> None) \<and>
    distinct (map entry_key es) \<and> length es \<le> MAX_OWNER_ENTRIES"
proof -
  have "owner.balanced [] []" by (simp add: owner.balanced_def owner_inv_def owner_booked_def)
  note bal = owner.client_balanced [OF this assms]
  have "memory_owner_remove (fst (grants ! i)) (snd (grants ! i)) es \<noteq> None" if "i < length grants" for i
    using owner.balanced_unbook [OF bal that, of "fst (grants ! i)" "snd (grants ! i)"] by auto
  then show ?thesis using bal by (auto simp: owner.balanced_def owner_inv_def)
qed

theorem memory_owner_conserves_witness:
  "\<exists>es grants. owner.client [Inl (Owner_Key ''ui'' 1 0, (5, 1)), Inl (Owner_Key ''fs'' 1 0, (7, 2)), Inr 1] [] [] =
      ([True, True, True], es, grants) \<and> owner_booked es (Owner_Key ''fs'' 1 0) = granted grants (Owner_Key ''fs'' 1 0)"
proof -
  let ?cs = "[Inl (Owner_Key ''ui'' 1 0, (5, 1)), Inl (Owner_Key ''fs'' 1 0, (7, 2)), Inr 1] :: (owner_key \<times> amount + nat) list"
  obtain es grants where run: "owner.client ?cs [] [] = ([True, True, True], es, grants)"
    by (simp add: memory_owner_add_def memory_owner_remove_def remove_entry_def MAX_OWNER_ENTRIES_def Let_def)
  from memory_owner_conserves [OF run] run show ?thesis by auto
qed

text \<open>
  The snapshot is sorted.  It has the first entries of the table, as many as fit, each
  once, in the order of owner, class and region.
\<close>

lemma memory_owner_snapshot_sorted:
  "sorted (map entry_key (memory_owner_snapshot es capacity)) \<and>
   mset (memory_owner_snapshot es capacity) = mset (take capacity es)"
proof -
  define n where "n = (if length es < capacity then length es else capacity)"
  have n: "take n es = take capacity es" "length (take n es) = n" "n \<le> length es" by (auto simp: n_def)
  show ?thesis
  proof (cases "n = 0")
    case True
    then show ?thesis by (auto simp: memory_owner_snapshot_def n_def split: if_splits)
  next
    case False
    define xs where "xs = sort_entries [1..<n] (take n es)"
    have "sorted (map entry_key (take 1 (take n es)))" by (cases "take n es") auto
    then have sorted: "sorted (map entry_key (take n xs)) \<and> mset xs = mset (take n es) \<and> length xs = length (take n es)"
      unfolding xs_def using False n(2) by (intro sort_entries_sorted) simp_all
    then have "take n xs = xs" using n(2) by simp
    moreover have "memory_owner_snapshot es capacity = xs"
      using False by (auto simp: memory_owner_snapshot_def n_def xs_def Let_def)
    ultimately show ?thesis using sorted n(1) by metis
  qed
qed

end
