(* ===== verification/Dma_Transfer.thy ===== *)
theory Dma_Transfer
  imports Prelude
begin

text \<open>
  \<open>esp32_mquickjs_dma_transfer.c\<close>, the part that cuts a span of bytes into transfers: the
  path of a source, the two staging slots, the cursor, the statistics and the timeouts.
  Sizes that stay below a checked length are natural numbers; counters and times keep their
  width.  A write outside a staging buffer is \<open>None\<close>.
\<close>

section \<open>Paths and statistics\<close>

datatype dma_path = DIRECT_INTERNAL | DIRECT_EXTERNAL | STAGED_INTERNAL | MIXED

definition dma_classify_source :: "bool \<Rightarrow> bool \<Rightarrow> bool \<Rightarrow> dma_path" where
  "dma_classify_source dma_capable external direct_external_dma =
     (if \<not> dma_capable then STAGED_INTERNAL
      else if \<not> external then DIRECT_INTERNAL
      else if direct_external_dma then DIRECT_EXTERNAL else STAGED_INTERNAL)"

record dma_stats =
  stat_bytes :: u32
  stat_staged_bytes :: u32
  stat_source_spans :: u32
  stat_transactions :: u32
  stat_path_mask :: u8

definition dma_stats_init :: dma_stats where
  "dma_stats_init = \<lparr>stat_bytes = 0, stat_staged_bytes = 0, stat_source_spans = 0,
     stat_transactions = 0, stat_path_mask = 0\<rparr>"

fun dma_path_bit :: "dma_path \<Rightarrow> u8" where
  "dma_path_bit DIRECT_INTERNAL = 1" | "dma_path_bit DIRECT_EXTERNAL = 2"
| "dma_path_bit STAGED_INTERNAL = 4" | "dma_path_bit MIXED = 0"

definition dma_stats_note_span :: "dma_path \<Rightarrow> dma_stats \<Rightarrow> dma_stats" where
  "dma_stats_note_span path s =
     s\<lparr>stat_source_spans := stat_source_spans s + 1, stat_path_mask := stat_path_mask s OR dma_path_bit path\<rparr>"

definition dma_stats_note_transaction :: "dma_path \<Rightarrow> u32 \<Rightarrow> u32 \<Rightarrow> dma_stats \<Rightarrow> dma_stats" where
  "dma_stats_note_transaction path completed staged s =
     s\<lparr>stat_transactions := stat_transactions s + 1, stat_bytes := stat_bytes s + completed,
       stat_staged_bytes := stat_staged_bytes s + staged,
       stat_path_mask := stat_path_mask s OR dma_path_bit path\<rparr>"

definition dma_stats_path :: "dma_stats option \<Rightarrow> dma_path" where
  "dma_stats_path s =
     (let mask = (case s of None \<Rightarrow> 0 | Some s \<Rightarrow> stat_path_mask s)
      in if mask = 0 \<or> mask = dma_path_bit DIRECT_INTERNAL then DIRECT_INTERNAL
         else if mask = dma_path_bit DIRECT_EXTERNAL then DIRECT_EXTERNAL
         else if mask = dma_path_bit STAGED_INTERNAL then STAGED_INTERNAL
         else MIXED)"

fun dma_path_name :: "dma_path \<Rightarrow> string" where
  "dma_path_name DIRECT_INTERNAL = ''direct-internal''"
| "dma_path_name DIRECT_EXTERNAL = ''direct-external''"
| "dma_path_name STAGED_INTERNAL = ''staged-internal''"
| "dma_path_name MIXED = ''mixed''"

section \<open>The staging slots\<close>

definition STAGING_SLOT_COUNT :: nat where "STAGING_SLOT_COUNT = 2"

record dma_slot =
  slot_tx :: "bytes option"
  slot_rx :: "bytes option"
  in_use :: bool

record dma_workspace =
  ws_slots :: "dma_slot list"
  ws_capacity :: nat
  next_slot :: nat

definition dma_workspace_init ::
  "bytes option \<Rightarrow> bytes option \<Rightarrow> bytes option \<Rightarrow> bytes option \<Rightarrow> nat \<Rightarrow> dma_workspace" where
  "dma_workspace_init first_tx first_rx second_tx second_rx capacity =
     \<lparr>ws_slots = [\<lparr>slot_tx = first_tx, slot_rx = first_rx, in_use = False\<rparr>,
                  \<lparr>slot_tx = second_tx, slot_rx = second_rx, in_use = False\<rparr>],
      ws_capacity = capacity, next_slot = 0\<rparr>"

definition dma_workspace_release :: "nat \<Rightarrow> dma_workspace \<Rightarrow> dma_workspace" where
  "dma_workspace_release i w =
     (if i \<ge> STAGING_SLOT_COUNT then w
      else w\<lparr>ws_slots := (ws_slots w)[i := (ws_slots w ! i)\<lparr>in_use := False\<rparr>]\<rparr>)"

function acquire_from :: "nat \<Rightarrow> dma_workspace \<Rightarrow> (nat \<times> dma_workspace) option" where
  "acquire_from offset w =
     (if offset \<ge> STAGING_SLOT_COUNT then None
      else let i = (next_slot w + offset) mod STAGING_SLOT_COUNT
        in if \<not> in_use (ws_slots w ! i)
           then Some (i, w\<lparr>ws_slots := (ws_slots w)[i := (ws_slots w ! i)\<lparr>in_use := True\<rparr>],
                         next_slot := (i + 1) mod STAGING_SLOT_COUNT\<rparr>)
           else acquire_from (offset + 1) w)"
  by pat_completeness auto
termination by (relation "measure (\<lambda>(offset, w). STAGING_SLOT_COUNT - offset)") auto

declare acquire_from.simps [simp del]

definition dma_workspace_acquire :: "dma_workspace \<Rightarrow> (nat \<times> dma_workspace) option" where
  "dma_workspace_acquire w = (if ws_capacity w = 0 then None else acquire_from 0 w)"

section \<open>The cursor\<close>

record dma_cursor =
  cur_data :: "bytes option"
  cur_length :: nat
  cur_offset :: nat
  cur_span :: u32
  cur_path :: dma_path

text \<open>Where a chunk's bytes are: in the source, in a staging slot, or nowhere.\<close>

datatype dma_pointer = At_Source nat | At_Slot nat | No_Pointer

record dma_chunk =
  chunk_tx :: dma_pointer
  chunk_rx :: dma_pointer
  chunk_length :: nat
  chunk_span_offset :: nat
  chunk_span :: u32
  chunk_path :: dma_path
  chunk_slot :: "nat option"
  uses_staging :: bool
  keep_cs_active :: bool

definition dma_cursor_begin :: "bytes option \<Rightarrow> nat \<Rightarrow> dma_path \<Rightarrow> u32 \<Rightarrow> dma_cursor" where
  "dma_cursor_begin data len path span =
     \<lparr>cur_data = data, cur_length = len, cur_offset = 0, cur_span = span, cur_path = path\<rparr>"

text \<open>
  \<open>Some None\<close> is the result \<open>false\<close>.  A slot may be taken only after the guards, as in the
  code, so that a refused call takes none.
\<close>

definition dma_cursor_next ::
  "dma_workspace option \<Rightarrow> nat \<Rightarrow> bool \<Rightarrow> bool \<Rightarrow> dma_cursor \<Rightarrow>
   (dma_cursor \<times> dma_workspace option \<times> dma_chunk) option option" where
  "dma_cursor_next ws max_transfer_size transmit receive c =
     (if max_transfer_size = 0 \<or> cur_offset c \<ge> cur_length c \<or> (transmit \<and> cur_data c = None)
      then Some None
      else
        let staged = (cur_path c = STAGED_INTERNAL \<or> receive);
            slot = (if staged then
                (case ws of None \<Rightarrow> None
                 | Some w \<Rightarrow> map_option (\<lambda>(i, w'). (Some i, Some w')) (dma_workspace_acquire w))
              else Some (None, ws));
            limit = (case ws of None \<Rightarrow> max_transfer_size
              | Some w \<Rightarrow> if staged \<and> max_transfer_size > ws_capacity w then ws_capacity w else max_transfer_size)
        in case slot of
          None \<Rightarrow> Some None
        | Some (slot_index, ws1) \<Rightarrow>
          let remaining = cur_length c - cur_offset c;
              len = (if remaining < limit then remaining else limit);
              copied = (transmit \<and> cur_path c = STAGED_INTERNAL);
              c' = c\<lparr>cur_offset := cur_offset c + len\<rparr>;
              chunk = \<lparr>chunk_tx = (if \<not> transmit then No_Pointer
                  else if cur_path c = STAGED_INTERNAL then At_Slot (the slot_index) else At_Source (cur_offset c)),
                chunk_rx = (if receive then At_Slot (the slot_index) else No_Pointer),
                chunk_length = len, chunk_span_offset = cur_offset c, chunk_span = cur_span c,
                chunk_path = cur_path c, chunk_slot = slot_index, uses_staging = staged,
                keep_cs_active = (cur_offset c' < cur_length c)\<rparr>
          in if \<not> copied then Some (Some (c', ws1, chunk))
             else (case (ws1, slot_index) of
               (Some w, Some i) \<Rightarrow>
                 (case slot_tx (ws_slots w ! i) of
                    None \<Rightarrow> None
                  | Some buf \<Rightarrow>
                    map_option (\<lambda>buf'. Some (c', Some (w\<lparr>ws_slots :=
                        (ws_slots w)[i := (ws_slots w ! i)\<lparr>slot_tx := Some buf'\<rparr>]\<rparr>), chunk))
                      (write_at buf 0 (take len (drop (cur_offset c) (case cur_data c of None \<Rightarrow> [] | Some d \<Rightarrow> d)))))
             | _ \<Rightarrow> None))"

section \<open>Progress\<close>

datatype dma_progress = PROGRESS_OK | PROGRESS_UNDERFLOW | PROGRESS_OVERFLOW

definition dma_validate_tx_progress :: "nat \<Rightarrow> nat \<Rightarrow> dma_progress" where
  "dma_validate_tx_progress actual expected =
     (if actual < expected then PROGRESS_UNDERFLOW
      else if actual > expected then PROGRESS_OVERFLOW else PROGRESS_OK)"

definition dma_validate_rx_progress :: "nat \<Rightarrow> nat \<Rightarrow> dma_progress" where
  "dma_validate_rx_progress actual expected =
     (if actual > expected then PROGRESS_OVERFLOW
      else if actual < expected then PROGRESS_UNDERFLOW else PROGRESS_OK)"

definition dma_rx_window_fits :: "u32 \<Rightarrow> u32 \<Rightarrow> u32 \<Rightarrow> bool" where
  "dma_rx_window_fits output_offset completed_bytes output_capacity \<longleftrightarrow>
     output_offset \<le> output_capacity \<and> completed_bytes \<le> output_capacity - output_offset"

definition dma_progress_timeout_us :: "u32 \<Rightarrow> u32 \<Rightarrow> u64" where
  "dma_progress_timeout_us bytes freq =
     (if freq = 0 then 100000
      else let wire_us = (ucast bytes * 8000000 + ucast freq - 1) div ucast freq;
             timeout_us = (if wire_us > (-1 - 50000) div 4 then -1 else wire_us * 4 + 50000)
        in if timeout_us < 100000 then 100000 else timeout_us)"

definition dma_progress_timed_out :: "u64 \<Rightarrow> u64 \<Rightarrow> bool \<Rightarrow> bool" where
  "dma_progress_timed_out now_us deadline_us completion_observed \<longleftrightarrow>
     \<not> completion_observed \<and> deadline_us > 0 \<and> now_us \<ge> deadline_us"

section \<open>Allocating the staging buffers\<close>

text \<open>
  \<open>alloc k\<close> is the result of the \<open>k\<close>-th call of the allocator; the list of the result has
  the buffers given back, in order.  The state of the loop is the two arrays.
\<close>

type_synonym 'b buffers = "'b option list \<times> 'b option list"

definition dma_workspace_release_buffers :: "'b buffers \<Rightarrow> 'b list \<times> 'b buffers" where
  "dma_workspace_release_buffers b =
     (case b of (tx, rx) \<Rightarrow>
      (concat (map (\<lambda>(t, r). (case t of None \<Rightarrow> [] | Some t \<Rightarrow> [t]) @ (case r of None \<Rightarrow> [] | Some r \<Rightarrow> [r]))
         (zip tx rx)),
       replicate STAGING_SLOT_COUNT None, replicate STAGING_SLOT_COUNT None))"

function allocate_loop :: "(nat \<Rightarrow> 'b option) \<Rightarrow> nat \<Rightarrow> 'b buffers \<Rightarrow> bool \<times> 'b list \<times> 'b buffers" where
  "allocate_loop alloc i b =
     (if i \<ge> STAGING_SLOT_COUNT then (True, [], b)
      else case b of (tx, rx) \<Rightarrow>
        (case alloc (2 * i) of
           None \<Rightarrow> (False, dma_workspace_release_buffers (tx, rx))
         | Some t \<Rightarrow>
           let tx = tx[i := Some t]
           in (case alloc (2 * i + 1) of
                 None \<Rightarrow> (False, dma_workspace_release_buffers (tx, rx))
               | Some r \<Rightarrow> allocate_loop alloc (i + 1) (tx, rx[i := Some r]))))"
  by pat_completeness auto
termination by (relation "measure (\<lambda>(alloc, i, b). STAGING_SLOT_COUNT - i)") auto

declare allocate_loop.simps [simp del]

definition dma_workspace_allocate_buffers :: "nat \<Rightarrow> (nat \<Rightarrow> 'b option) \<Rightarrow> 'b buffers \<Rightarrow> bool \<times> 'b list \<times> 'b buffers" where
  "dma_workspace_allocate_buffers bytes alloc b =
     (if bytes = 0 then (False, [], b)
      else allocate_loop alloc 0 (replicate STAGING_SLOT_COUNT None, replicate STAGING_SLOT_COUNT None))"

section \<open>Driving the cursor\<close>

text \<open>The bytes a chunk shows to the driver.\<close>

definition chunk_bytes :: "dma_cursor \<Rightarrow> dma_workspace option \<Rightarrow> dma_chunk \<Rightarrow> bytes" where
  "chunk_bytes c ws k =
     (case chunk_tx k of
        No_Pointer \<Rightarrow> []
      | At_Source off \<Rightarrow> take (chunk_length k) (drop off (case cur_data c of None \<Rightarrow> [] | Some d \<Rightarrow> d))
      | At_Slot i \<Rightarrow> (case ws of None \<Rightarrow> [] | Some w \<Rightarrow>
          (case slot_tx (ws_slots w ! i) of None \<Rightarrow> [] | Some b \<Rightarrow> take (chunk_length k) b)))"

definition after_send :: "dma_workspace option \<Rightarrow> dma_chunk \<Rightarrow> dma_workspace option" where
  "after_send ws k =
     (case chunk_slot k of None \<Rightarrow> ws | Some i \<Rightarrow> map_option (dma_workspace_release i) ws)"

text \<open>
  A driver that sends a span: it asks for chunks until there is none and gives the slot of a
  chunk back when it is sent.  The result lists what was sent and the chip-select flags.
\<close>

fun drive :: "nat \<Rightarrow> dma_workspace option \<Rightarrow> nat \<Rightarrow> bool \<Rightarrow> dma_cursor \<Rightarrow> (bytes \<times> bool) list option" where
  "drive 0 ws max_size receive c = None"
| "drive (Suc n) ws max_size receive c =
     (case dma_cursor_next ws max_size True receive c of
        None \<Rightarrow> None
      | Some None \<Rightarrow> Some []
      | Some (Some (c', ws', k)) \<Rightarrow>
        map_option ((#) (chunk_bytes c ws' k, keep_cs_active k))
          (drive n (after_send ws' k) max_size receive c'))"

definition ws_ok :: "dma_workspace \<Rightarrow> bool" where
  "ws_ok w \<longleftrightarrow> length (ws_slots w) = 2 \<and> ws_capacity w > 0 \<and> next_slot w < 2 \<and>
     (\<forall>s \<in> set (ws_slots w). \<not> in_use s \<and> (\<exists>b. slot_tx s = Some b \<and> ws_capacity w \<le> length b))"

text \<open>With every slot free the next one is taken, and giving it back frees it.\<close>

lemma acquire_free:
  assumes "ws_ok w"
  shows "\<exists>i w'. dma_workspace_acquire w = Some (i, w') \<and> i < 2 \<and>
    w' = w\<lparr>ws_slots := (ws_slots w)[i := (ws_slots w ! i)\<lparr>in_use := True\<rparr>], next_slot := (i + 1) mod 2\<rparr>"
proof -
  have "next_slot w mod 2 < length (ws_slots w)" using assms by (simp add: ws_ok_def)
  then have "\<not> in_use (ws_slots w ! (next_slot w mod 2))" using assms nth_mem by (auto simp: ws_ok_def)
  then show ?thesis
    using assms by (subst (asm) ws_ok_def)
      (auto simp: dma_workspace_acquire_def acquire_from.simps [of 0] STAGING_SLOT_COUNT_def Let_def)
qed

text \<open>The most a chunk may carry.\<close>

definition chunk_limit :: "dma_workspace option \<Rightarrow> nat \<Rightarrow> bool \<Rightarrow> nat" where
  "chunk_limit ws max_size staged =
     (case ws of Some w \<Rightarrow> if staged then min max_size (ws_capacity w) else max_size | None \<Rightarrow> max_size)"

text \<open>The workspace is there and usable exactly as before.\<close>

definition same_ws :: "dma_workspace option \<Rightarrow> dma_workspace option \<Rightarrow> bool" where
  "same_ws ws ws' \<longleftrightarrow> (case (ws, ws') of
       (None, None) \<Rightarrow> True
     | (Some w, Some w') \<Rightarrow> ws_ok w' \<and> ws_capacity w' = ws_capacity w
     | _ \<Rightarrow> False)"

lemma chunk_limit_same: "same_ws ws ws' \<Longrightarrow> chunk_limit ws' = chunk_limit ws"
  by (auto simp: same_ws_def chunk_limit_def fun_eq_iff split: option.splits)

lemma ws_ok_release:
  assumes "ws_ok w" "i < 2" "slot_tx s = Some b" "ws_capacity w \<le> length b" "n < 2"
    "w' = w\<lparr>ws_slots := (ws_slots w)[i := s], next_slot := n\<rparr>"
  shows "ws_ok (dma_workspace_release i w')"
proof -
  have "ws_slots (dma_workspace_release i w') = (ws_slots w)[i := s\<lparr>in_use := False\<rparr>]"
    using assms by (simp add: dma_workspace_release_def STAGING_SLOT_COUNT_def ws_ok_def)
  then show ?thesis
    using assms set_update_subset_insert [of "ws_slots w" i "s\<lparr>in_use := False\<rparr>"]
    by (auto simp: ws_ok_def dma_workspace_release_def STAGING_SLOT_COUNT_def)
qed

lemma cursor_next_direct:
  assumes "cur_data c = Some data" "cur_offset c < cur_length c" "0 < max_size"
    "cur_path c \<noteq> STAGED_INTERNAL" "\<not> receive"
  defines "n \<equiv> min (cur_length c - cur_offset c) max_size"
  shows "dma_cursor_next ws max_size True receive c = Some (Some (c\<lparr>cur_offset := cur_offset c + n\<rparr>, ws,
    \<lparr>chunk_tx = At_Source (cur_offset c), chunk_rx = No_Pointer, chunk_length = n,
     chunk_span_offset = cur_offset c, chunk_span = cur_span c, chunk_path = cur_path c, chunk_slot = None,
     uses_staging = False, keep_cs_active = (cur_offset c + n < cur_length c)\<rparr>))"
  using assms by (auto simp: dma_cursor_next_def Let_def min_def split: option.split)

lemma cursor_next_staging:
  assumes "cur_data c = Some data" "cur_offset c < cur_length c" "0 < max_size"
    "cur_path c = STAGED_INTERNAL \<or> receive" "dma_workspace_acquire w = Some (i, w1)"
  defines "n \<equiv> min (cur_length c - cur_offset c) (min max_size (ws_capacity w))"
  defines "k \<equiv> \<lparr>chunk_tx = (if cur_path c = STAGED_INTERNAL then At_Slot i else At_Source (cur_offset c)),
     chunk_rx = (if receive then At_Slot i else No_Pointer), chunk_length = n,
     chunk_span_offset = cur_offset c, chunk_span = cur_span c, chunk_path = cur_path c, chunk_slot = Some i,
     uses_staging = True, keep_cs_active = (cur_offset c + n < cur_length c)\<rparr>"
  shows "dma_cursor_next (Some w) max_size True receive c =
    (if cur_path c \<noteq> STAGED_INTERNAL then Some (Some (c\<lparr>cur_offset := cur_offset c + n\<rparr>, Some w1, k))
     else case slot_tx (ws_slots w1 ! i) of
        None \<Rightarrow> None
      | Some buf \<Rightarrow> map_option (\<lambda>buf'. Some (c\<lparr>cur_offset := cur_offset c + n\<rparr>,
            Some (w1\<lparr>ws_slots := (ws_slots w1)[i := (ws_slots w1 ! i)\<lparr>slot_tx := Some buf'\<rparr>]\<rparr>), k))
          (write_at buf 0 (take n (drop (cur_offset c) data))))"
proof -
  have lim: "(if ws_capacity w < max_size then ws_capacity w else max_size) = min max_size (ws_capacity w)"
    and len: "\<And>r l :: nat. (if r < l then r else l) = min r l"
    by (simp_all add: min_def)
  show ?thesis
    using assms(1-5) by (simp only: dma_cursor_next_def Let_def option.simps prod.case lim len)
      (auto simp: lim len n_def k_def split: option.split)
qed

text \<open>One step of the cursor over a usable workspace.\<close>

lemma cursor_next_step:
  assumes "cur_data c = Some data" "length data = cur_length c" "cur_offset c < cur_length c" "0 < max_size"
    "\<And>w. ws = Some w \<Longrightarrow> ws_ok w" "cur_path c = STAGED_INTERNAL \<or> receive \<longrightarrow> ws \<noteq> None"
  defines "n \<equiv> min (cur_length c - cur_offset c) (chunk_limit ws max_size (cur_path c = STAGED_INTERNAL \<or> receive))"
  shows "\<exists>ws' k. dma_cursor_next ws max_size True receive c = Some (Some (c\<lparr>cur_offset := cur_offset c + n\<rparr>, ws', k)) \<and>
    0 < n \<and> chunk_bytes c ws' k = take n (drop (cur_offset c) data) \<and>
    keep_cs_active k = (cur_offset c + n < cur_length c) \<and> same_ws ws (after_send ws' k)"
proof (cases "cur_path c = STAGED_INTERNAL \<or> receive")
  case False
  then have "n = min (cur_length c - cur_offset c) max_size"
    by (simp add: n_def chunk_limit_def split: option.split)
  then show ?thesis
    using cursor_next_direct [of c data max_size receive ws] assms(1-5) False
    by (auto simp: chunk_bytes_def after_send_def same_ws_def split: option.split)
next
  case True
  then obtain w where w: "ws = Some w" "ws_ok w" using assms(5,6) by auto
  obtain i w1 where acq: "dma_workspace_acquire w = Some (i, w1)" "i < 2"
    and w1: "w1 = w\<lparr>ws_slots := (ws_slots w)[i := (ws_slots w ! i)\<lparr>in_use := True\<rparr>], next_slot := (i + 1) mod 2\<rparr>"
    using acquire_free [OF w(2)] by blast
  have i: "i < length (ws_slots w)" using w(2) acq(2) by (simp add: ws_ok_def)
  obtain buf where buf: "slot_tx (ws_slots w ! i) = Some buf" "ws_capacity w \<le> length buf"
    using w(2) nth_mem [OF i] by (auto simp: ws_ok_def)
  have n: "n = min (cur_length c - cur_offset c) (min max_size (ws_capacity w))"
    using True w(1) by (auto simp: n_def chunk_limit_def)
  have pos: "0 < n" using n assms(3,4) w(2) by (simp add: ws_ok_def)
  note next_eq = cursor_next_staging [OF assms(1,3,4) True acq(1), folded n]
  show ?thesis
  proof (cases "cur_path c = STAGED_INTERNAL")
    case direct: False
    have "ws_ok (dma_workspace_release i w1)"
      by (rule ws_ok_release [OF w(2) acq(2), of "(ws_slots w ! i)\<lparr>in_use := True\<rparr>" buf "(i + 1) mod 2"])
        (use buf in \<open>simp_all add: w1\<close>)
    moreover have "ws_capacity (dma_workspace_release i w1) = ws_capacity w"
      by (simp add: dma_workspace_release_def w1)
    ultimately show ?thesis
      using next_eq direct w(1) pos assms(1) by (simp add: chunk_bytes_def after_send_def same_ws_def)
  next
    case staged: True
    define out where "out = take n (drop (cur_offset c) data)"
    have out: "length out = n" using n assms(2,3) by (simp add: out_def)
    then have fits: "write_at buf 0 out = Some (out @ drop n buf)"
      using n buf(2) by (simp add: write_at_def)
    define s where "s = (ws_slots w ! i)\<lparr>in_use := True, slot_tx := Some (out @ drop n buf)\<rparr>"
    define w2 where "w2 = w\<lparr>ws_slots := (ws_slots w)[i := s], next_slot := (i + 1) mod 2\<rparr>"
    have w2: "w1\<lparr>ws_slots := (ws_slots w1)[i := (ws_slots w1 ! i)\<lparr>slot_tx := Some (out @ drop n buf)\<rparr>]\<rparr> = w2"
      "slot_tx (ws_slots w1 ! i) = Some buf" "slot_tx (ws_slots w2 ! i) = Some (out @ drop n buf)"
      using i buf(1) by (simp_all add: w1 w2_def s_def)
    have "ws_ok (dma_workspace_release i w2)"
      by (rule ws_ok_release [OF w(2) acq(2), of s "out @ drop n buf" "(i + 1) mod 2"])
        (use out n buf(2) in \<open>simp_all add: s_def w2_def\<close>)
    moreover have "ws_capacity (dma_workspace_release i w2) = ws_capacity w"
      by (simp add: dma_workspace_release_def w2_def)
    ultimately show ?thesis
      using next_eq staged w(1) pos out
      by (simp add: w2 fits chunk_bytes_def after_send_def same_ws_def flip: out_def)
  qed
qed

text \<open>The flags of a sequence of \<open>n\<close> transfers: chip select is kept for all but the last.\<close>

fun keep_flags :: "nat \<Rightarrow> bool list" where
  "keep_flags 0 = []" | "keep_flags (Suc n) = (n > 0) # keep_flags n"

lemma drive_correct:
  assumes "cur_data c = Some data" "length data = cur_length c" "cur_offset c \<le> cur_length c" "0 < max_size"
    "\<And>w. ws = Some w \<Longrightarrow> ws_ok w" "cur_path c = STAGED_INTERNAL \<or> receive \<longrightarrow> ws \<noteq> None"
    "cur_length c - cur_offset c < fuel"
  shows "\<exists>ps. drive fuel ws max_size receive c = Some ps \<and> concat (map fst ps) = drop (cur_offset c) data \<and>
    (\<forall>p \<in> set ps. 0 < length (fst p) \<and> length (fst p) \<le> chunk_limit ws max_size (cur_path c = STAGED_INTERNAL \<or> receive)) \<and>
    map snd ps = keep_flags (length ps)"
  using assms
proof (induction fuel arbitrary: c ws)
  case (Suc fuel)
  show ?case
  proof (cases "cur_offset c < cur_length c")
    case False
    then show ?thesis using Suc.prems(2) by (simp add: dma_cursor_next_def)
  next
    case True
    define n where "n = min (cur_length c - cur_offset c)
      (chunk_limit ws max_size (cur_path c = STAGED_INTERNAL \<or> receive))"
    define c1 where "c1 = c\<lparr>cur_offset := cur_offset c + n\<rparr>"
    obtain ws1 k where step: "dma_cursor_next ws max_size True receive c = Some (Some (c1, ws1, k))"
        "0 < n" "chunk_bytes c ws1 k = take n (drop (cur_offset c) data)"
        "keep_cs_active k = (cur_offset c + n < cur_length c)" "same_ws ws (after_send ws1 k)"
      using cursor_next_step [OF Suc.prems(1,2) True Suc.prems(4,5,6)] unfolding n_def c1_def by blast
    have c1: "cur_data c1 = Some data" "length data = cur_length c1" "cur_offset c1 \<le> cur_length c1"
        "cur_length c1 - cur_offset c1 < fuel" "cur_path c1 = cur_path c" "cur_offset c1 = cur_offset c + n"
      using Suc.prems(1,2,7) True step(2) by (auto simp: c1_def n_def)
    have ws1: "\<And>w. after_send ws1 k = Some w \<Longrightarrow> ws_ok w"
        "cur_path c1 = STAGED_INTERNAL \<or> receive \<longrightarrow> after_send ws1 k \<noteq> None"
      using step(5) Suc.prems(6) c1(5) by (auto simp: same_ws_def split: option.splits)
    obtain ps where ps: "drive fuel (after_send ws1 k) max_size receive c1 = Some ps"
        "concat (map fst ps) = drop (cur_offset c1) data" "map snd ps = keep_flags (length ps)"
        "\<forall>p \<in> set ps. 0 < length (fst p) \<and>
          length (fst p) \<le> chunk_limit ws max_size (cur_path c = STAGED_INTERNAL \<or> receive)"
      using Suc.IH [OF c1(1,2,3) Suc.prems(4) ws1 c1(4)] chunk_limit_same [OF step(5)] c1(5) by auto
    have "ps = [] \<longleftrightarrow> \<not> cur_offset c + n < length data"
    proof
      assume "ps = []"
      then show "\<not> cur_offset c + n < length data" using ps(2) c1(6) by simp
    next
      assume "\<not> cur_offset c + n < length data"
      then have "concat (map fst ps) = []" using ps(2) c1(6) by simp
      then show "ps = []" using ps(4) by (cases ps) auto
    qed
    moreover have "take n (drop (cur_offset c) data) @ drop (cur_offset c1) data = drop (cur_offset c) data"
      by (simp add: c1(6) add.commute flip: drop_drop)
    moreover have "length (take n (drop (cur_offset c) data)) = n"
      using Suc.prems(2) by (simp add: n_def)
    moreover have "n \<le> chunk_limit ws max_size (cur_path c = STAGED_INTERNAL \<or> receive)" by (simp add: n_def)
    ultimately show ?thesis
      using step(1-4) ps Suc.prems(2) by auto
  qed
qed simp

section \<open>Properties\<close>

text \<open>
  C38: a driver that asks for chunks until there are none sends the span's bytes, each exactly
  once and in order, in transfers that are never empty and never exceed the transfer limit or
  the staging buffer, and keeps chip select for every transfer but the last.  It stops after at
  most one call per byte and one more, and no staged copy leaves its buffer.
\<close>

theorem dma_cursor_sends_span:
  assumes "0 < max_size" "\<And>w. ws = Some w \<Longrightarrow> ws_ok w" "path = STAGED_INTERNAL \<or> receive \<longrightarrow> ws \<noteq> None"
  shows "\<exists>ps. drive (length data + 1) ws max_size receive (dma_cursor_begin (Some data) (length data) path span) = Some ps \<and>
    concat (map fst ps) = data \<and> map snd ps = keep_flags (length ps) \<and>
    (\<forall>p \<in> set ps. 0 < length (fst p) \<and> length (fst p) \<le> chunk_limit ws max_size (path = STAGED_INTERNAL \<or> receive))"
  using drive_correct [of "dma_cursor_begin (Some data) (length data) path span" data max_size ws receive
      "length data + 1"] assms
  by (auto simp: dma_cursor_begin_def)

lemma dma_cursor_sends_span_witness:
  "\<exists>ps. drive 6 (Some (dma_workspace_init (Some [0, 0]) None (Some [9, 9]) None 2)) 3 False
      (dma_cursor_begin (Some [1, 2, 3, 4, 5]) 5 STAGED_INTERNAL 0) = Some ps \<and>
    concat (map fst ps) = [1, 2, 3, 4, 5] \<and> map snd ps = keep_flags (length ps)"
proof -
  define w where "w = dma_workspace_init (Some [0, 0]) None (Some [9, 9]) None 2"
  have "ws_ok w" by (simp add: w_def ws_ok_def dma_workspace_init_def)
  moreover have "length [1, 2, 3, 4, 5 :: u8] + 1 = 6" "length [1, 2, 3, 4, 5 :: u8] = 5" by simp_all
  moreover have "0 < (3 :: nat)" by simp
  ultimately show ?thesis
    using dma_cursor_sends_span [of 3 "Some w" STAGED_INTERNAL False "[1, 2, 3, 4, 5]" 0]
    unfolding w_def [symmetric] by (metis option.inject option.distinct(1))
qed

text \<open>
  Allocating the staging buffers succeeds exactly when all four requests do, and then the
  arrays hold the four buffers and nothing was given back; when a request fails, every buffer
  got before it is given back once and no array entry is left.
\<close>

lemma dma_allocate_all_or_nothing:
  assumes "0 < bytes"
  shows "dma_workspace_allocate_buffers bytes alloc b =
    (if \<exists>k < 4. alloc k = None
     then (False, map (\<lambda>j. the (alloc j)) [0..<(LEAST k. alloc k = None)], ([None, None], [None, None]))
     else (True, [], ([alloc 0, alloc 2], [alloc 1, alloc 3])))"
proof -
  have least: "alloc k = None \<Longrightarrow> (\<And>j. j < k \<Longrightarrow> alloc j \<noteq> None) \<Longrightarrow> (LEAST k. alloc k = None) = k" for k
    by (metis (mono_tags, lifting) Least_equality not_le_imp_less)
  have four: "(\<exists>k < 4. alloc k = None) \<longleftrightarrow> alloc 0 = None \<or> alloc 1 = None \<or> alloc 2 = None \<or> alloc 3 = None"
    by (auto simp: numeral_eq_Suc less_Suc_eq)
  have two: "replicate STAGING_SLOT_COUNT (None :: 'a option) = [None, None]"
    by (simp add: STAGING_SLOT_COUNT_def numeral_2_eq_2)
  have nums: "0 + 1 = (1 :: nat)" "1 + 1 = (2 :: nat)" "2 * 0 = (0 :: nat)" "2 * 1 = (2 :: nat)" "0 + 1 = (1 :: nat)"
    "2 + 1 = (3 :: nat)" "\<not> STAGING_SLOT_COUNT \<le> 0" "\<not> STAGING_SLOT_COUNT \<le> 1" "STAGING_SLOT_COUNT \<le> 2"
    by (simp_all add: STAGING_SLOT_COUNT_def)
  have upd: "[x, y][0 := z] = [z, y]" "[x, y][1 := z] = [x, z]" for x y z :: "'a option" by simp_all
  have run: "dma_workspace_allocate_buffers bytes alloc b =
    (case alloc 0 of None \<Rightarrow> (False, dma_workspace_release_buffers ([None, None], [None, None]))
     | Some a0 \<Rightarrow> (case alloc 1 of None \<Rightarrow> (False, dma_workspace_release_buffers ([Some a0, None], [None, None]))
     | Some a1 \<Rightarrow> (case alloc 2 of None \<Rightarrow> (False, dma_workspace_release_buffers ([Some a0, None], [Some a1, None]))
     | Some a2 \<Rightarrow> (case alloc 3 of None \<Rightarrow> (False, dma_workspace_release_buffers ([Some a0, Some a2], [Some a1, None]))
     | Some a3 \<Rightarrow> (True, [], ([Some a0, Some a2], [Some a1, Some a3]))))))"
    using assms
    by (simp only: dma_workspace_allocate_buffers_def two allocate_loop.simps [of alloc 0] allocate_loop.simps [of alloc 1]
        allocate_loop.simps [of alloc 2] nums if_False if_True prod.case Let_def upd neq0_conv [symmetric] simp_thms)
  have upt: "[0..<0] = ([] :: nat list)" "[0..<1] = [0 :: nat]" "[0..<2] = [0, 1 :: nat]" "[0..<3] = [0, 1, 2 :: nat]"
    by (simp_all add: upt_rec)
  have rel: "dma_workspace_release_buffers ([t0, t1], [r0, r1]) =
      ((case t0 of None \<Rightarrow> [] | Some t \<Rightarrow> [t]) @ (case r0 of None \<Rightarrow> [] | Some t \<Rightarrow> [t]) @
       (case t1 of None \<Rightarrow> [] | Some t \<Rightarrow> [t]) @ (case r1 of None \<Rightarrow> [] | Some t \<Rightarrow> [t]), ([None, None], [None, None]))"
    for t0 t1 r0 r1 :: "'a option"
    by (simp add: dma_workspace_release_buffers_def two)
  have least_at: "alloc 0 = None \<Longrightarrow> (LEAST k. alloc k = None) = 0"
    "alloc 0 \<noteq> None \<Longrightarrow> alloc 1 = None \<Longrightarrow> (LEAST k. alloc k = None) = 1"
    "alloc 0 \<noteq> None \<Longrightarrow> alloc 1 \<noteq> None \<Longrightarrow> alloc 2 = None \<Longrightarrow> (LEAST k. alloc k = None) = 2"
    "alloc 0 \<noteq> None \<Longrightarrow> alloc 1 \<noteq> None \<Longrightarrow> alloc 2 \<noteq> None \<Longrightarrow> alloc 3 = None \<Longrightarrow>
      (LEAST k. alloc k = None) = 3"
    by (rule least; auto simp: numeral_eq_Suc less_Suc_eq)+
  show ?thesis
    unfolding run four
    by (auto simp only: rel upt least_at list.map option.sel option.simps append.simps if_True if_False option.distinct
        simp_thms split: option.split)
qed

lemma dma_allocate_all_or_nothing_witness:
  "dma_workspace_allocate_buffers 8 (\<lambda>k. if k = 2 then None else Some k) ([], []) =
     (False, [0, 1], ([None, None], [None, None]))"
proof -
  have "(LEAST k. (if k = (2 :: nat) then None else Some k) = None) = 2"
    by (rule Least_equality) (auto split: if_splits)
  moreover have "\<exists>k < 4. (if k = (2 :: nat) then None else Some k) = None" by (rule exI [of _ 2]) simp
  ultimately show ?thesis
    using dma_allocate_all_or_nothing [of 8 "\<lambda>k. if k = 2 then None else Some k" "([], [])"]
    by (simp add: upt_rec)
qed

text \<open>
  The progress timeout is four times the time the bytes need on the wire (rounded up to a
  microsecond) plus 50 ms and never less than 100 ms; none of the 64-bit steps wraps.
\<close>

lemma dma_progress_timeout_value:
  "unat (dma_progress_timeout_us bytes freq) =
     (if freq = 0 then 100000
      else max 100000 (4 * ((unat bytes * 8000000 + unat freq - 1) div unat freq) + 50000))"
proof (cases "freq = 0")
  case False
  define wire where "wire = (unat bytes * 8000000 + unat freq - 1) div unat freq"
  have f: "0 < unat freq" using False unat_gt_0 by blast
  have lim: "unat bytes < 2 ^ 32" "unat freq < 2 ^ 32" using unsigned_less [of bytes] unsigned_less [of freq] by simp_all
  have "wire \<le> unat bytes * 8000000 + unat freq - 1" unfolding wire_def by (rule div_le_dividend)
  then have bound: "wire < 2 ^ 56" using lim by simp
  have cast: "unat (ucast bytes :: u64) = unat bytes" "unat (ucast freq :: u64) = unat freq"
    using lim by (simp_all add: unsigned_ucast_eq take_bit_eq_mod)
  have mult: "unat (ucast bytes * 8000000 :: u64) = unat bytes * 8000000"
    using lim cast by (simp add: unat_word_ariths)
  have add: "unat (ucast bytes * 8000000 + ucast freq :: u64) = unat bytes * 8000000 + unat freq"
    using lim mult cast by (simp add: unat_word_ariths)
  have sub: "unat (ucast bytes * 8000000 + ucast freq - 1 :: u64) = unat bytes * 8000000 + unat freq - 1"
    using add f by (simp add: unat_sub_if' unat_eq_0 add.commute flip: unat_1)
  have wire: "unat ((ucast bytes * 8000000 + ucast freq - 1 :: u64) div ucast freq) = wire"
    using sub cast by (simp add: unat_div wire_def)
  have four: "unat (((ucast bytes * 8000000 + ucast freq - 1 :: u64) div ucast freq) * 4 + 50000) = wire * 4 + 50000"
    using wire bound by (simp add: unat_word_ariths)
  have "\<not> (ucast bytes * 8000000 + ucast freq - 1 :: u64) div ucast freq > (-1 - 50000) div 4"
    using wire bound by (simp add: word_less_nat_alt unat_div)
  then show ?thesis
    using False four by (auto simp: dma_progress_timeout_us_def Let_def word_less_nat_alt wire_def max_def)
qed (simp add: dma_progress_timeout_us_def)

end
