(* ===== verification/Simulation.thy ===== *)
theory Simulation
  imports Prelude
begin

text \<open>
  Observable refinement.  A component is a function from a call and a state to an answer and a
  new state; two components refine one another when every sequence of calls gets the same answers.
  The locale turns a relation that single calls keep into that statement.  The relation may depend
  on how many more calls are to come, for components whose counters must not wrap.
\<close>

fun call_outputs :: "('c \<Rightarrow> 's \<Rightarrow> 'r \<times> 's) \<Rightarrow> 'c list \<Rightarrow> 's \<Rightarrow> 'r list" where
  "call_outputs f [] s = []"
| "call_outputs f (c # cs) s = (let (r, s') = f c s in r # call_outputs f cs s')"

fun after_calls :: "('c \<Rightarrow> 's \<Rightarrow> 'r \<times> 's) \<Rightarrow> 'c list \<Rightarrow> 's \<Rightarrow> 's" where
  "after_calls f [] s = s"
| "after_calls f (c # cs) s = after_calls f cs (snd (f c s))"

locale simulation =
  fixes spec :: "'c \<Rightarrow> 'a \<Rightarrow> 'r \<times> 'a"
    and impl :: "'c \<Rightarrow> 'b \<Rightarrow> 'r \<times> 'b"
    and rel :: "nat \<Rightarrow> 'a \<Rightarrow> 'b \<Rightarrow> bool"
  assumes same_answer: "rel (Suc n) a b \<Longrightarrow> fst (impl c b) = fst (spec c a)"
    and step_rel: "rel (Suc n) a b \<Longrightarrow> rel n (snd (spec c a)) (snd (impl c b))"
begin

lemma same_outputs: "rel (length cs) a b \<Longrightarrow> call_outputs impl cs b = call_outputs spec cs a"
proof (induction cs arbitrary: a b)
  case (Cons c cs)
  from Cons.prems have rel: "rel (Suc (length cs)) a b" by simp
  show ?case using same_answer [OF rel] Cons.IH [OF step_rel [OF rel]] by (simp add: case_prod_unfold Let_def)
qed simp

lemma after_rel: "rel (length cs + n) a b \<Longrightarrow> rel n (after_calls spec cs a) (after_calls impl cs b)"
proof (induction cs arbitrary: a b)
  case (Cons c cs)
  then have "rel (Suc (length cs + n)) a b" by simp
  from Cons.IH [OF step_rel [OF this]] show ?case by simp
qed simp

end

end
