(* ===== verification/Dma_Queue.thy ===== *)
theory Dma_Queue
  imports Dma_Transfer Simulation
begin

text \<open>
  The completion queue of \<open>esp32_mquickjs_dma_transfer.c\<close>: a ring of at most two slots whose
  transfers may come back in any order and are freed in the order of their submission.  It is
  shown to be a FIFO of marked entries.  The counters never exceed the depth, which is one or
  two, and are natural numbers.
\<close>

section \<open>The ring\<close>

datatype queue_slot = QUEUE_SLOT_FREE | QUEUE_SLOT_SUBMITTED | QUEUE_SLOT_RETURNED

datatype dma_completion = COMPLETION_IN_ORDER | COMPLETION_OUT_OF_ORDER | COMPLETION_INVALID

datatype dma_cancel = CANCEL_REJECTED | CANCEL_PENDING | CANCEL_COMPLETE

record dma_queue =
  dq_slots :: "queue_slot list"
  dq_depth :: nat
  dq_head :: nat
  dq_tail :: nat
  dq_occupied :: nat
  dq_in_flight :: nat

definition dma_queue_init :: "nat \<Rightarrow> dma_queue option" where
  "dma_queue_init depth =
     (if depth = 0 \<or> depth > STAGING_SLOT_COUNT then None
      else Some \<lparr>dq_slots = replicate STAGING_SLOT_COUNT QUEUE_SLOT_FREE, dq_depth = depth,
        dq_head = 0, dq_tail = 0, dq_occupied = 0, dq_in_flight = 0\<rparr>)"

definition dma_queue_can_submit :: "dma_queue \<Rightarrow> bool" where
  "dma_queue_can_submit q \<longleftrightarrow> dq_depth q > 0 \<and> dq_depth q \<le> STAGING_SLOT_COUNT \<and>
     dq_occupied q < dq_depth q \<and> dq_slots q ! dq_tail q = QUEUE_SLOT_FREE"

definition dma_queue_next_submit :: "dma_queue \<Rightarrow> nat option" where
  "dma_queue_next_submit q = (if dma_queue_can_submit q then Some (dq_tail q) else None)"

definition dma_queue_note_submitted :: "nat \<Rightarrow> dma_queue \<Rightarrow> bool \<times> dma_queue" where
  "dma_queue_note_submitted i q =
     (if \<not> dma_queue_can_submit q \<or> i \<noteq> dq_tail q \<or> i \<ge> dq_depth q then (False, q)
      else (True, q\<lparr>dq_slots := (dq_slots q)[i := QUEUE_SLOT_SUBMITTED],
              dq_tail := (dq_tail q + 1) mod dq_depth q,
              dq_occupied := dq_occupied q + 1, dq_in_flight := dq_in_flight q + 1\<rparr>))"

text \<open>The loop that frees the returned slots at the head; every turn lowers the occupancy.\<close>

function free_returned :: "dma_queue \<Rightarrow> dma_queue" where
  "free_returned q =
     (if dq_occupied q > 0 \<and> dq_slots q ! dq_head q = QUEUE_SLOT_RETURNED
      then free_returned (q\<lparr>dq_slots := (dq_slots q)[dq_head q := QUEUE_SLOT_FREE],
             dq_head := (dq_head q + 1) mod dq_depth q, dq_occupied := dq_occupied q - 1\<rparr>)
      else q)"
  by pat_completeness auto
termination by (relation "measure dq_occupied") auto

declare free_returned.simps [simp del]

definition dma_queue_note_returned :: "nat \<Rightarrow> dma_queue \<Rightarrow> dma_completion \<times> dma_queue" where
  "dma_queue_note_returned i q =
     (if dq_depth q = 0 \<or> i \<ge> dq_depth q \<or> dq_slots q ! i \<noteq> QUEUE_SLOT_SUBMITTED \<or>
         dq_in_flight q = 0 \<or> dq_occupied q = 0
      then (COMPLETION_INVALID, q)
      else (if i = dq_head q then COMPLETION_IN_ORDER else COMPLETION_OUT_OF_ORDER,
            free_returned (q\<lparr>dq_slots := (dq_slots q)[i := QUEUE_SLOT_RETURNED],
              dq_in_flight := dq_in_flight q - 1\<rparr>)))"

fun find_submitted :: "dma_queue \<Rightarrow> nat list \<Rightarrow> nat option" where
  "find_submitted q [] = None"
| "find_submitted q (offset # offsets) =
     (let i = (dq_head q + offset) mod dq_depth q
      in if dq_slots q ! i = QUEUE_SLOT_SUBMITTED then Some i else find_submitted q offsets)"

definition dma_queue_peek_in_flight :: "dma_queue \<Rightarrow> nat option" where
  "dma_queue_peek_in_flight q =
     (if dq_depth q = 0 \<or> dq_in_flight q = 0 then None else find_submitted q [0..<dq_depth q])"

definition dma_queue_releasable :: "dma_queue \<Rightarrow> bool" where
  "dma_queue_releasable q \<longleftrightarrow> dq_depth q > 0 \<and> dq_occupied q = 0 \<and> dq_in_flight q = 0"

definition dma_cancel_disposition :: "dma_queue option \<Rightarrow> bool \<Rightarrow> bool \<Rightarrow> dma_cancel" where
  "dma_cancel_disposition q completed cancellation_requested =
     (case q of
        None \<Rightarrow> CANCEL_REJECTED
      | Some q \<Rightarrow> if completed \<or> cancellation_requested then CANCEL_REJECTED
                  else if dma_queue_releasable q then CANCEL_COMPLETE else CANCEL_PENDING)"

section \<open>The specification\<close>

text \<open>
  The transfers in the order of their submission, each with its slot and whether it came back,
  and the slot that is next.
\<close>

record fifo =
  ff_depth :: nat
  ff_next :: nat
  ff_items :: "(nat \<times> bool) list"

datatype queue_op = Submit nat | Returned nat | Next_Submit | Oldest | Cancel

datatype queue_out = Accepted bool | Completed dma_completion | Slot "nat option" | Disposition dma_cancel

fun fifo_apply :: "queue_op \<Rightarrow> fifo \<Rightarrow> queue_out \<times> fifo" where
  "fifo_apply (Submit i) f =
     (if i = ff_next f \<and> length (ff_items f) < ff_depth f
      then (Accepted True, f\<lparr>ff_next := (i + 1) mod ff_depth f, ff_items := ff_items f @ [(i, False)]\<rparr>)
      else (Accepted False, f))"
| "fifo_apply (Returned i) f =
     (if (i, False) \<in> set (ff_items f)
      then (Completed (if fst (hd (ff_items f)) = i then COMPLETION_IN_ORDER else COMPLETION_OUT_OF_ORDER),
            f\<lparr>ff_items := dropWhile snd (map (\<lambda>(j, r). (j, r \<or> j = i)) (ff_items f))\<rparr>)
      else (Completed COMPLETION_INVALID, f))"
| "fifo_apply Next_Submit f =
     (Slot (if length (ff_items f) < ff_depth f then Some (ff_next f) else None), f)"
| "fifo_apply Oldest f = (Slot (map_option fst (find (Not \<circ> snd) (ff_items f))), f)"
| "fifo_apply Cancel f = (Disposition (if ff_items f = [] then CANCEL_COMPLETE else CANCEL_PENDING), f)"

fun queue_apply :: "queue_op \<Rightarrow> dma_queue \<Rightarrow> queue_out \<times> dma_queue" where
  "queue_apply (Submit i) q = (let (b, q') = dma_queue_note_submitted i q in (Accepted b, q'))"
| "queue_apply (Returned i) q = (let (c, q') = dma_queue_note_returned i q in (Completed c, q'))"
| "queue_apply Next_Submit q = (Slot (dma_queue_next_submit q), q)"
| "queue_apply Oldest q = (Slot (dma_queue_peek_in_flight q), q)"
| "queue_apply Cancel q = (Disposition (dma_cancel_disposition (Some q) False False), q)"

definition queue_abs :: "dma_queue \<Rightarrow> fifo" where
  "queue_abs q = \<lparr>ff_depth = dq_depth q, ff_next = dq_tail q,
     ff_items = map (\<lambda>k. let i = (dq_head q + k) mod dq_depth q
       in (i, dq_slots q ! i = QUEUE_SLOT_RETURNED)) [0..<dq_occupied q]\<rparr>"

definition queue_ok :: "dma_queue \<Rightarrow> bool" where
  "queue_ok q \<longleftrightarrow> 0 < dq_depth q \<and> dq_depth q \<le> 2 \<and> length (dq_slots q) = 2 \<and> dq_head q < dq_depth q \<and>
     dq_occupied q \<le> dq_depth q \<and> dq_tail q = (dq_head q + dq_occupied q) mod dq_depth q \<and>
     dq_in_flight q = count_list (dq_slots q) QUEUE_SLOT_SUBMITTED \<and>
     (\<forall>k < dq_depth q. dq_slots q ! ((dq_head q + k) mod dq_depth q) = QUEUE_SLOT_FREE \<longleftrightarrow> dq_occupied q \<le> k) \<and>
     (dq_occupied q > 0 \<longrightarrow> dq_slots q ! dq_head q = QUEUE_SLOT_SUBMITTED) \<and>
     (dq_depth q = 1 \<longrightarrow> dq_slots q ! 1 = QUEUE_SLOT_FREE)"

lemma queue_ok_init: "dma_queue_init depth = Some q \<Longrightarrow> queue_ok q \<and>
    queue_abs q = \<lparr>ff_depth = depth, ff_next = 0, ff_items = []\<rparr>"
  by (auto simp: dma_queue_init_def queue_ok_def queue_abs_def STAGING_SLOT_COUNT_def numeral_2_eq_2
      less_Suc_eq nth_Cons' split: if_splits)

lemma queue_ok_one:
  "queue_ok \<lparr>dq_slots = [a, b], dq_depth = 1, dq_head = h, dq_tail = t, dq_occupied = occ, dq_in_flight = fl\<rparr> \<longleftrightarrow>
     h = 0 \<and> t = 0 \<and> b = QUEUE_SLOT_FREE \<and>
     (occ = 0 \<and> a = QUEUE_SLOT_FREE \<and> fl = 0 \<or> occ = 1 \<and> a = QUEUE_SLOT_SUBMITTED \<and> fl = 1)"
  by (cases "occ = 0") (auto simp: queue_ok_def)

lemma queue_ok_two_first:
  "queue_ok \<lparr>dq_slots = [a, b], dq_depth = 2, dq_head = 0, dq_tail = t, dq_occupied = occ, dq_in_flight = fl\<rparr> \<longleftrightarrow>
     (occ = 0 \<and> t = 0 \<and> a = QUEUE_SLOT_FREE \<and> b = QUEUE_SLOT_FREE \<and> fl = 0 \<or>
      occ = 1 \<and> t = 1 \<and> a = QUEUE_SLOT_SUBMITTED \<and> b = QUEUE_SLOT_FREE \<and> fl = 1 \<or>
      occ = 2 \<and> t = 0 \<and> a = QUEUE_SLOT_SUBMITTED \<and>
        (b = QUEUE_SLOT_SUBMITTED \<and> fl = 2 \<or> b = QUEUE_SLOT_RETURNED \<and> fl = 1))"
proof -
  have all2: "(\<forall>k < (2 :: nat). P k) \<longleftrightarrow> P 0 \<and> P 1" for P by (auto simp: numeral_2_eq_2 less_Suc_eq)
  have "occ \<le> 2 \<longleftrightarrow> occ = 0 \<or> occ = 1 \<or> occ = 2" by auto
  then show ?thesis by (cases b) (auto simp: queue_ok_def all2)
qed

lemma queue_ok_two_second:
  "queue_ok \<lparr>dq_slots = [a, b], dq_depth = 2, dq_head = 1, dq_tail = t, dq_occupied = occ, dq_in_flight = fl\<rparr> \<longleftrightarrow>
     (occ = 0 \<and> t = 1 \<and> a = QUEUE_SLOT_FREE \<and> b = QUEUE_SLOT_FREE \<and> fl = 0 \<or>
      occ = 1 \<and> t = 0 \<and> b = QUEUE_SLOT_SUBMITTED \<and> a = QUEUE_SLOT_FREE \<and> fl = 1 \<or>
      occ = 2 \<and> t = 1 \<and> b = QUEUE_SLOT_SUBMITTED \<and>
        (a = QUEUE_SLOT_SUBMITTED \<and> fl = 2 \<or> a = QUEUE_SLOT_RETURNED \<and> fl = 1))"
proof -
  have all2: "(\<forall>k < (2 :: nat). P k) \<longleftrightarrow> P 0 \<and> P 1" for P by (auto simp: numeral_2_eq_2 less_Suc_eq)
  have "occ \<le> 2 \<longleftrightarrow> occ = 0 \<or> occ = 1 \<or> occ = 2" by auto
  then show ?thesis by (cases a) (auto simp: queue_ok_def all2)
qed

lemmas queue_ok_iffs = queue_ok_one queue_ok_two_first queue_ok_two_second

text \<open>The reachable shapes: one slot or two, and in each the few states of the ring.\<close>

lemma queue_ok_cases:
  assumes "queue_ok q"
  obtains (one_empty) "q = \<lparr>dq_slots = [QUEUE_SLOT_FREE, QUEUE_SLOT_FREE], dq_depth = 1, dq_head = 0, dq_tail = 0,
      dq_occupied = 0, dq_in_flight = 0\<rparr>"
  | (one_full) "q = \<lparr>dq_slots = [QUEUE_SLOT_SUBMITTED, QUEUE_SLOT_FREE], dq_depth = 1, dq_head = 0, dq_tail = 0,
      dq_occupied = 1, dq_in_flight = 1\<rparr>"
  | (empty) h where "h = 0 \<or> h = 1" "q = \<lparr>dq_slots = [QUEUE_SLOT_FREE, QUEUE_SLOT_FREE], dq_depth = 2, dq_head = h, dq_tail = h,
      dq_occupied = 0, dq_in_flight = 0\<rparr>"
  | (first) "q = \<lparr>dq_slots = [QUEUE_SLOT_SUBMITTED, QUEUE_SLOT_FREE], dq_depth = 2, dq_head = 0, dq_tail = 1,
      dq_occupied = 1, dq_in_flight = 1\<rparr>"
  | (second) "q = \<lparr>dq_slots = [QUEUE_SLOT_FREE, QUEUE_SLOT_SUBMITTED], dq_depth = 2, dq_head = 1, dq_tail = 0,
      dq_occupied = 1, dq_in_flight = 1\<rparr>"
  | (both) h where "h = 0 \<or> h = 1" "q = \<lparr>dq_slots = [QUEUE_SLOT_SUBMITTED, QUEUE_SLOT_SUBMITTED], dq_depth = 2, dq_head = h, dq_tail = h,
      dq_occupied = 2, dq_in_flight = 2\<rparr>"
  | (first_back) "q = \<lparr>dq_slots = [QUEUE_SLOT_RETURNED, QUEUE_SLOT_SUBMITTED], dq_depth = 2, dq_head = 1, dq_tail = 1,
      dq_occupied = 2, dq_in_flight = 1\<rparr>"
  | (second_back) "q = \<lparr>dq_slots = [QUEUE_SLOT_SUBMITTED, QUEUE_SLOT_RETURNED], dq_depth = 2, dq_head = 0, dq_tail = 0,
      dq_occupied = 2, dq_in_flight = 1\<rparr>"
proof -
  obtain slots d h t occ fl where q: "q = \<lparr>dq_slots = slots, dq_depth = d, dq_head = h, dq_tail = t,
      dq_occupied = occ, dq_in_flight = fl\<rparr>" by (cases q) auto
  obtain a b where slots: "slots = [a, b]"
    using assms by (auto simp: queue_ok_def q numeral_2_eq_2 length_Suc_conv)
  have "d = 1 \<or> d = 2" using assms by (auto simp: queue_ok_def q)
  moreover have "h = 0 \<or> h = 1" using assms by (auto simp: queue_ok_def q)
  ultimately consider "d = 1" | "d = 2" "h = 0" | "d = 2" "h = 1" by blast
  then show ?thesis
  proof cases
    case 1
    then show ?thesis using assms unfolding q slots by (simp only: queue_ok_one) (metis one_empty one_full q slots)
  next
    case 2
    then show ?thesis using assms unfolding q slots
      by (simp only: queue_ok_two_first) (metis empty first both second_back q slots)
  next
    case 3
    then show ?thesis using assms unfolding q slots
      by (simp only: queue_ok_two_second) (metis empty second both first_back q slots)
  qed
qed

lemma free_returned_rules:
  "dq_occupied q > 0 \<Longrightarrow> dq_slots q ! dq_head q = QUEUE_SLOT_RETURNED \<Longrightarrow>
    free_returned q = free_returned (q\<lparr>dq_slots := (dq_slots q)[dq_head q := QUEUE_SLOT_FREE],
      dq_head := (dq_head q + 1) mod dq_depth q, dq_occupied := dq_occupied q - 1\<rparr>)"
  "dq_occupied q = 0 \<Longrightarrow> free_returned q = q"
  "dq_slots q ! dq_head q \<noteq> QUEUE_SLOT_RETURNED \<Longrightarrow> free_returned q = q"
  by (subst free_returned.simps; simp)+

text \<open>Every operation keeps the invariant and does to the FIFO what the specification says.\<close>

lemma queue_apply_refines:
  assumes "queue_ok q"
  shows "queue_ok (snd (queue_apply op q)) \<and>
    fifo_apply op (queue_abs q) = (fst (queue_apply op q), queue_abs (snd (queue_apply op q)))"
proof -
  have upt2: "[0..<Suc 0] = [0]" "[0..<2] = [0, 1 :: nat]" by (simp_all add: upt_rec)
  note defs = dma_queue_note_submitted_def dma_queue_note_returned_def dma_queue_can_submit_def
    dma_queue_next_submit_def dma_queue_peek_in_flight_def dma_cancel_disposition_def dma_queue_releasable_def
    STAGING_SLOT_COUNT_def free_returned_rules queue_abs_def queue_ok_iffs [unfolded One_nat_def] upt2
  have small: "i = 0 \<or> i = 1 \<or> (i \<noteq> 0 \<and> i \<noteq> 1 \<and> \<not> i < 1 \<and> \<not> i < 2 \<and> 1 \<le> i \<and> 2 \<le> i)" for i :: nat by auto
  show ?thesis
  proof (cases op)
    case (Submit i)
    show ?thesis
      using small [of i] unfolding Submit
      by - (rule queue_ok_cases [OF assms]; (elim disjE conjE)?; simp add: defs)
  next
    case (Returned i)
    show ?thesis
      using small [of i] unfolding Returned
      by - (rule queue_ok_cases [OF assms]; (elim disjE conjE)?; simp add: defs)
  next
    case Next_Submit
    show ?thesis unfolding Next_Submit
      by - (rule queue_ok_cases [OF assms]; (elim disjE conjE)?; simp add: defs)
  next
    case Oldest
    show ?thesis unfolding Oldest
      by - (rule queue_ok_cases [OF assms]; (elim disjE conjE)?; simp add: defs)
  next
    case Cancel
    show ?thesis unfolding Cancel
      by - (rule queue_ok_cases [OF assms]; (elim disjE conjE)?; simp add: defs)
  qed
qed

interpretation as_fifo: simulation fifo_apply queue_apply "\<lambda>n f q. queue_ok q \<and> f = queue_abs q"
  by unfold_locales (use queue_apply_refines in \<open>auto simp: case_prod_unfold\<close>)

section \<open>Properties\<close>

text \<open>
  C39: a queue of one or two slots behaves exactly like a FIFO of transfers: whatever operations
  are called in whatever order, with valid or invalid slots, every result (submission accepted
  or not, completion in order, out of order or invalid, next slot, oldest transfer in flight,
  cancel disposition) is the one of the FIFO, in which a returned transfer is freed only when
  all earlier ones have come back.
\<close>

theorem dma_queue_refines_fifo:
  assumes "dma_queue_init depth = Some q"
  shows "call_outputs queue_apply ops q =
    call_outputs fifo_apply ops \<lparr>ff_depth = depth, ff_next = 0, ff_items = []\<rparr>"
  using queue_ok_init [OF assms] by (intro as_fifo.same_outputs) simp

lemma dma_queue_refines_fifo_witness:
  "call_outputs queue_apply [Submit 0, Submit 1, Returned 1, Submit 0, Returned 0, Cancel] (the (dma_queue_init 2)) =
    [Accepted True, Accepted True, Completed COMPLETION_OUT_OF_ORDER, Accepted False,
     Completed COMPLETION_IN_ORDER, Disposition CANCEL_COMPLETE]"
  using dma_queue_refines_fifo [of 2 "the (dma_queue_init 2)"
      "[Submit 0, Submit 1, Returned 1, Submit 0, Returned 0, Cancel]"]
  by (simp add: dma_queue_init_def STAGING_SLOT_COUNT_def)

end
