(* ===== verification/Wireless_Text.thy ===== *)
theory Wireless_Text
  imports Prelude
begin

text \<open>
  The text formats of \<open>esp32_mquickjs_wireless_core.c\<close>: hardware addresses and UUIDs.  A C string
  is the list of its characters without the final NUL; the output array of the parser is the
  list it is given, overwritten octet by octet.
\<close>

section \<open>Hexadecimal digits\<close>

definition wireless_hex_nibble :: "char \<Rightarrow> int" where
  "wireless_hex_nibble c =
     (let v = (of_char c :: int)
      in if 48 \<le> v \<and> v \<le> 57 then v - 48
         else if 97 \<le> v \<and> v \<le> 102 then v - 97 + 10
         else if 65 \<le> v \<and> v \<le> 70 then v - 65 + 10
         else -1)"

definition wireless_hex_exact :: "string \<Rightarrow> nat \<Rightarrow> bool" where
  "wireless_hex_exact text n = list_all (\<lambda>c. \<not> wireless_hex_nibble c < 0) (take n text)"

section \<open>Hardware addresses\<close>

definition octet_of :: "int \<Rightarrow> int \<Rightarrow> u8" where
  "octet_of high low = push_bit 4 (word_of_int high) OR word_of_int low"

fun parse_octets :: "string \<Rightarrow> nat list \<Rightarrow> bytes \<Rightarrow> bool \<times> bytes" where
  "parse_octets text [] output = (True, output)"
| "parse_octets text (i # is) output =
     (let high = wireless_hex_nibble (text ! (i * 3));
          low = wireless_hex_nibble (text ! (i * 3 + 1))
      in if high < 0 \<or> low < 0 \<or> (i < 5 \<and> text ! (i * 3 + 2) \<noteq> CHR '':'') then (False, output)
         else parse_octets text is (output[i := octet_of high low]))"

definition wireless_parse_address :: "string \<Rightarrow> bytes \<Rightarrow> bool \<times> bytes" where
  "wireless_parse_address text output =
     (if length text \<noteq> 17 then (False, output) else parse_octets text [0..<6] output)"

definition hex_digit :: "nat \<Rightarrow> char" where
  "hex_digit n = ''0123456789abcdef'' ! n"

text \<open>The conversion \<open>%02x\<close> of an octet.\<close>

definition hex_octet :: "u8 \<Rightarrow> string" where
  "hex_octet b = [hex_digit (unat (drop_bit 4 b)), hex_digit (unat (take_bit 4 b))]"

definition wireless_format_address :: "bytes \<Rightarrow> string" where
  "wireless_format_address a = hex_octet (a ! 0) @ '':'' @ hex_octet (a ! 1) @ '':'' @ hex_octet (a ! 2) @ '':'' @
     hex_octet (a ! 3) @ '':'' @ hex_octet (a ! 4) @ '':'' @ hex_octet (a ! 5)"

section \<open>UUIDs\<close>

definition wireless_uuid_valid :: "string \<Rightarrow> bool" where
  "wireless_uuid_valid text =
     (if length text = 4 then wireless_hex_exact text 4
      else if length text = 8 then wireless_hex_exact text 8
      else if length text \<noteq> 36 \<or> text ! 8 \<noteq> CHR ''-'' \<or> text ! 13 \<noteq> CHR ''-'' \<or>
        text ! 18 \<noteq> CHR ''-'' \<or> text ! 23 \<noteq> CHR ''-'' then False
      else wireless_hex_exact text 8 \<and> wireless_hex_exact (drop 9 text) 4 \<and>
        wireless_hex_exact (drop 14 text) 4 \<and> wireless_hex_exact (drop 19 text) 4 \<and>
        wireless_hex_exact (drop 24 text) 12)"

section \<open>Lemmas\<close>

definition to_lower :: "char \<Rightarrow> char" where
  "to_lower c = (if 65 \<le> (of_char c :: nat) \<and> (of_char c :: nat) \<le> 90 then char_of (of_char c + 32 :: nat) else c)"

lemma nibble_digit:
  assumes "n < 16"
  shows "wireless_hex_nibble (hex_digit n) = int n"
proof -
  have "list_all (\<lambda>n. wireless_hex_nibble (hex_digit n) = int n) [0..<16]" by code_simp
  then show ?thesis using assms by (simp add: list_all_iff)
qed

lemma nibble_range: "wireless_hex_nibble c < 16" "- 1 \<le> wireless_hex_nibble c"
  by (auto simp: wireless_hex_nibble_def Let_def)

lemma octet_split: "octet_of (int (unat (drop_bit 4 b))) (int (unat (take_bit 4 b))) = b"
proof -
  have "push_bit 4 (drop_bit 4 b) OR take_bit 4 b = b"
    by (rule bit_word_eqI) (auto simp: bit_or_iff bit_push_bit_iff bit_drop_bit_eq bit_take_bit_iff)
  then show ?thesis by (simp add: octet_of_def)
qed

lemma octet_parts:
  assumes "0 \<le> h" "h < 16" "0 \<le> l" "l < 16"
  shows "unat (drop_bit 4 (octet_of h l)) = nat h" "unat (take_bit 4 (octet_of h l)) = nat l"
proof -
  have h: "take_bit 4 h = h" and l: "take_bit 4 l = l" using assms by (simp_all add: take_bit_int_eq_self)
  have hi: "bit h i \<Longrightarrow> i < 4" for i using h bit_take_bit_iff [of 4 h i] by simp
  have li: "bit l i \<Longrightarrow> i < 4" for i using l bit_take_bit_iff [of 4 l i] by simp
  have "drop_bit 4 (octet_of h l) = word_of_int h"
    by (rule bit_word_eqI) (use hi li in \<open>force simp: octet_of_def bit_or_iff bit_push_bit_iff bit_drop_bit_eq bit_word_of_int_iff\<close>)
  then show "unat (drop_bit 4 (octet_of h l)) = nat h" using assms by (simp add: unsigned_of_int take_bit_int_eq_self)
  have "take_bit 4 (octet_of h l) = word_of_int l"
    by (rule bit_word_eqI) (use hi li in \<open>force simp: octet_of_def bit_or_iff bit_push_bit_iff bit_take_bit_iff bit_word_of_int_iff\<close>)
  then show "unat (take_bit 4 (octet_of h l)) = nat l" using assms by (simp add: unsigned_of_int take_bit_int_eq_self)
qed

text \<open>A hexadecimal digit is its value's digit, up to case.\<close>

lemma digit_nibble:
  assumes "0 \<le> wireless_hex_nibble c"
  shows "hex_digit (nat (wireless_hex_nibble c)) = to_lower c"
proof -
  define v where "v = (of_char c :: nat)"
  have c: "c = char_of v" by (simp add: v_def)
  have "(of_char c :: int) = int v" unfolding v_def by (rule of_nat_of_char [symmetric])
  then have "48 \<le> v \<and> v < 58 \<or> 97 \<le> v \<and> v < 103 \<or> 65 \<le> v \<and> v < 71"
    using assms by (auto simp: wireless_hex_nibble_def Let_def split: if_splits)
  then have "v \<in> set ([48..<58] @ [97..<103] @ [65..<71])" by (simp only: set_append Un_iff set_upt atLeastLessThan_iff)
  moreover have "list_all (\<lambda>v. hex_digit (nat (wireless_hex_nibble (char_of v))) = to_lower (char_of v))
    ([48..<58] @ [97..<103] @ [65..<71 :: nat])" by code_simp
  ultimately show ?thesis by (simp only: list_all_iff c)
qed

text \<open>One octet: two digits make it, and it prints as those digits in lower case.\<close>

lemma nibble_of_octet:
  "wireless_hex_nibble (hex_octet b ! 0) = int (unat (drop_bit 4 b))"
  "wireless_hex_nibble (hex_octet b ! 1) = int (unat (take_bit 4 b))"
proof -
  have "unat b < 2 ^ LENGTH(8)" by (rule unsigned_less)
  then have "unat (drop_bit 4 b) < 16" "unat (take_bit 4 b) < 16"
    by (simp_all add: unsigned_drop_bit_eq unsigned_take_bit_eq
        drop_bit_eq_div take_bit_eq_mod unat_div unat_mod)
  then show "wireless_hex_nibble (hex_octet b ! 0) = int (unat (drop_bit 4 b))"
    "wireless_hex_nibble (hex_octet b ! 1) = int (unat (take_bit 4 b))"
    by (simp_all add: hex_octet_def nibble_digit)
qed

lemma octet_of_hex: "octet_of (wireless_hex_nibble (hex_octet b ! 0)) (wireless_hex_nibble (hex_octet b ! 1)) = b"
  by (simp only: nibble_of_octet octet_split)

lemma hex_of_octet:
  assumes "0 \<le> wireless_hex_nibble c" "0 \<le> wireless_hex_nibble d"
  shows "hex_octet (octet_of (wireless_hex_nibble c) (wireless_hex_nibble d)) = [to_lower c, to_lower d]"
  using assms nibble_range by (simp add: hex_octet_def octet_parts digit_nibble)

lemma list6: "length xs = 6 \<Longrightarrow> \<exists>a b c d e f. xs = [a, b, c, d, e, f]"
  by (auto simp: numeral_eq_Suc length_Suc_conv)

lemma upto6: "[0..<6] = [0, 1, 2, 3, 4, 5 :: nat]"
  by (simp add: upt_rec)

section \<open>Properties\<close>

text \<open>
  A printed hardware address parses back to the same six octets, whatever the output
  array held; and every text the parser accepts prints back as itself in lower case, so that
  no malformed address is taken for another.
\<close>

lemma wireless_address_roundtrip:
  assumes "length a = 6" "length output = 6"
  shows "wireless_parse_address (wireless_format_address a) output = (True, a) \<and>
    (fst (wireless_parse_address text output) \<longrightarrow>
       length text = 17 \<and> wireless_format_address (snd (wireless_parse_address text output)) = map to_lower text)"
proof
  obtain a0 a1 a2 a3 a4 a5 where a: "a = [a0, a1, a2, a3, a4, a5]" using list6 [OF assms(1)] by blast
  obtain o0 o1 o2 o3 o4 o5 where out: "output = [o0, o1, o2, o3, o4, o5]" using list6 [OF assms(2)] by blast
  have two: "hex_octet b = [hex_octet b ! 0, hex_octet b ! 1]" for b by (simp add: hex_octet_def)
  have pos: "\<not> wireless_hex_nibble (hex_octet b ! 0) < 0" "\<not> wireless_hex_nibble (hex_octet b ! 1) < 0" for b
    by (simp_all only: nibble_of_octet not_less of_nat_0_le_iff)
  define str where "str = wireless_format_address a"
  have chars: "str = [hex_octet a0 ! 0, hex_octet a0 ! 1, CHR '':'', hex_octet a1 ! 0, hex_octet a1 ! 1, CHR '':'',
      hex_octet a2 ! 0, hex_octet a2 ! 1, CHR '':'', hex_octet a3 ! 0, hex_octet a3 ! 1, CHR '':'',
      hex_octet a4 ! 0, hex_octet a4 ! 1, CHR '':'', hex_octet a5 ! 0, hex_octet a5 ! 1]"
    unfolding str_def wireless_format_address_def a by (simp add: hex_octet_def)
  show "wireless_parse_address (wireless_format_address a) output = (True, a)"
    unfolding str_def [symmetric] wireless_parse_address_def upto6
    by (simp add: chars out Let_def pos octet_of_hex [unfolded One_nat_def] pos [unfolded One_nat_def] a)
next
  obtain o0 o1 o2 o3 o4 o5 where out: "output = [o0, o1, o2, o3, o4, o5]" using list6 [OF assms(2)] by blast
  show "fst (wireless_parse_address text output) \<longrightarrow>
       length text = 17 \<and> wireless_format_address (snd (wireless_parse_address text output)) = map to_lower text"
  proof
    assume ok: "fst (wireless_parse_address text output)"
    then have len: "length text = 17" by (auto simp: wireless_parse_address_def split: if_splits)
    then obtain c0 c1 c2 c3 c4 c5 c6 c7 c8 c9 c10 c11 c12 c13 c14 c15 c16 where
      chars: "text = [c0, c1, c2, c3, c4, c5, c6, c7, c8, c9, c10, c11, c12, c13, c14, c15, c16]"
      by (auto simp: numeral_eq_Suc length_Suc_conv)
    have lower: "to_lower CHR '':'' = CHR '':''" by (simp add: to_lower_def)
    show "length text = 17 \<and> wireless_format_address (snd (wireless_parse_address text output)) = map to_lower text"
      using ok len unfolding wireless_parse_address_def upto6
      by (simp add: chars out Let_def wireless_format_address_def hex_of_octet lower not_less split: if_splits)
  qed
qed

lemma wireless_address_roundtrip_witness:
  "wireless_parse_address (wireless_format_address [1, 35, 69, 103, 137, 171]) (replicate 6 0) =
     (True, [1, 35, 69, 103, 137, 171]) \<and>
   wireless_format_address (snd (wireless_parse_address ''AB:cd:00:11:22:Ff'' (replicate 6 0))) = ''ab:cd:00:11:22:ff''"
proof -
  have "wireless_parse_address ''AB:cd:00:11:22:Ff'' (replicate 6 0) = (True, [171, 205, 0, 17, 34, 255])"
    by code_simp
  moreover have "map to_lower ''AB:cd:00:11:22:Ff'' = ''ab:cd:00:11:22:ff''" by code_simp
  ultimately show ?thesis
    using wireless_address_roundtrip [of "[1, 35, 69, 103, 137, 171]" "replicate 6 0" "''AB:cd:00:11:22:Ff''"] by simp
qed

text \<open>
  A text is a valid UUID exactly when it is four or eight hexadecimal digits or five
  groups of 8, 4, 4, 4 and 12 hexadecimal digits joined by hyphens.
\<close>

lemma wireless_uuid_grammar:
  "wireless_uuid_valid text \<longleftrightarrow>
     (let hex = (\<lambda>s. list_all (\<lambda>c. 0 \<le> wireless_hex_nibble c) s)
      in (length text = 4 \<or> length text = 8) \<and> hex text \<or>
         (\<exists>a b c d e. text = a @ ''-'' @ b @ ''-'' @ c @ ''-'' @ d @ ''-'' @ e \<and>
            map length [a, b, c, d, e] = [8, 4, 4, 4, 12] \<and> hex (a @ b @ c @ d @ e)))"
proof -
  define hex where "hex = list_all (\<lambda>c. 0 \<le> wireless_hex_nibble c)"
  have exact: "wireless_hex_exact s n = hex (take n s)" for s n
    by (simp add: wireless_hex_exact_def hex_def not_less)
  have groups: "wireless_uuid_valid text \<longleftrightarrow> (\<exists>a b c d e. text = a @ ''-'' @ b @ ''-'' @ c @ ''-'' @ d @ ''-'' @ e \<and>
            map length [a, b, c, d, e] = [8, 4, 4, 4, 12] \<and> hex (a @ b @ c @ d @ e))"
    if n: "length text \<noteq> 4" "length text \<noteq> 8"
  proof
    assume v: "wireless_uuid_valid text"
    then have len: "length text = 36"
      and dash: "text ! 8 = CHR ''-''" "text ! 13 = CHR ''-''" "text ! 18 = CHR ''-''" "text ! 23 = CHR ''-''"
      and hexes: "hex (take 8 text)" "hex (take 4 (drop 9 text))" "hex (take 4 (drop 14 text))"
        "hex (take 4 (drop 19 text))" "hex (take 12 (drop 24 text))"
      using n by (auto simp: wireless_uuid_valid_def exact split: if_splits)
    have "text = take 8 text @ ''-'' @ drop 9 text"
      using id_take_nth_drop [of 8 "text"] len dash(1) by simp
    moreover have "drop 9 text = take 4 (drop 9 text) @ ''-'' @ drop 14 text"
      using id_take_nth_drop [of 4 "drop 9 text"] len dash(2) by simp
    moreover have "drop 14 text = take 4 (drop 14 text) @ ''-'' @ drop 19 text"
      using id_take_nth_drop [of 4 "drop 14 text"] len dash(3) by simp
    moreover have "drop 19 text = take 4 (drop 19 text) @ ''-'' @ take 12 (drop 24 text)"
      using id_take_nth_drop [of 4 "drop 19 text"] len dash(4) by simp
    ultimately have "text = take 8 text @ ''-'' @ take 4 (drop 9 text) @ ''-'' @ take 4 (drop 14 text) @ ''-'' @
        take 4 (drop 19 text) @ ''-'' @ take 12 (drop 24 text)" by metis
    moreover have "hex (take 8 text @ take 4 (drop 9 text) @ take 4 (drop 14 text) @ take 4 (drop 19 text) @
        take 12 (drop 24 text))" using hexes by (simp add: hex_def)
    moreover have "map length [take 8 text, take 4 (drop 9 text), take 4 (drop 14 text), take 4 (drop 19 text),
        take 12 (drop 24 text)] = [8, 4, 4, 4, 12]" using len by simp
    ultimately show "\<exists>a b c d e. text = a @ ''-'' @ b @ ''-'' @ c @ ''-'' @ d @ ''-'' @ e \<and>
            map length [a, b, c, d, e] = [8, 4, 4, 4, 12] \<and> hex (a @ b @ c @ d @ e)" by (intro exI conjI)
  next
    assume "\<exists>a b c d e. text = a @ ''-'' @ b @ ''-'' @ c @ ''-'' @ d @ ''-'' @ e \<and>
            map length [a, b, c, d, e] = [8, 4, 4, 4, 12] \<and> hex (a @ b @ c @ d @ e)"
    then show "wireless_uuid_valid text"
      by (auto simp: wireless_uuid_valid_def exact hex_def nth_append)
  qed
  have short: "wireless_uuid_valid text \<longleftrightarrow> hex text" if "length text = 4 \<or> length text = 8"
    using that by (auto simp: wireless_uuid_valid_def exact)
  show ?thesis
    unfolding Let_def hex_def [symmetric] using groups short by auto
qed

end
