(* ===== verification/Line_Framer.thy ===== *)
theory Line_Framer
  imports Prelude
begin

text \<open>
  \<open>utils/esp32_mquickjs_line_framer.c\<close>: the framer that cuts a byte stream into lines ended by
  CR, LF or CR LF.  The calls of the callback are the list of the result: the frame, or
  \<open>None\<close> with the overflow flag for a line that did not fit.  A write outside the buffer is
  \<open>None\<close>.
\<close>

section \<open>The framer\<close>

record line_framer =
  lf_buffer :: "bytes option"
  lf_capacity :: nat
  lf_length :: nat
  lf_dropping :: bool
  lf_swallow_lf :: bool

type_synonym line_event = "bytes option \<times> bool"

definition line_framer_init :: "bytes option \<Rightarrow> nat \<Rightarrow> line_framer" where
  "line_framer_init buffer capacity =
     \<lparr>lf_buffer = buffer, lf_capacity = capacity, lf_length = 0, lf_dropping = False, lf_swallow_lf = False\<rparr>"

text \<open>One turn of the loop.\<close>

definition framer_byte :: "u8 \<Rightarrow> line_framer \<Rightarrow> (line_event list \<times> line_framer) option" where
  "framer_byte ch f =
     (let swallowed = (lf_swallow_lf f \<and> ch = 10);
          f = f\<lparr>lf_swallow_lf := False\<rparr>
      in if swallowed then Some ([], f)
         else if ch = 13 \<or> ch = 10 then
           Some ([if lf_dropping f then (None, True)
                  else (Some (bytes_at (lf_buffer f) (lf_length f)), False)],
                 f\<lparr>lf_length := 0, lf_dropping := False, lf_swallow_lf := (ch = 13)\<rparr>)
         else if lf_dropping f then Some ([], f)
         else if lf_length f \<ge> lf_capacity f then Some ([], f\<lparr>lf_dropping := True\<rparr>)
         else (case lf_buffer f of
             None \<Rightarrow> None
           | Some buf \<Rightarrow> map_option (\<lambda>buf'. ([], f\<lparr>lf_buffer := Some buf', lf_length := lf_length f + 1\<rparr>))
               (write_at buf (lf_length f) [ch])))"

fun framer_loop :: "bytes \<Rightarrow> line_framer \<Rightarrow> (line_event list \<times> line_framer) option" where
  "framer_loop [] f = Some ([], f)"
| "framer_loop (ch # data) f =
     (case framer_byte ch f of
        None \<Rightarrow> None
      | Some (es, f') \<Rightarrow> map_option (\<lambda>(es', f''). (es @ es', f'')) (framer_loop data f'))"

text \<open>The count of the result is the number of calls of the callback.\<close>

definition line_framer_feed :: "bytes option \<Rightarrow> line_framer \<Rightarrow> (nat \<times> line_event list \<times> line_framer) option" where
  "line_framer_feed data f =
     (if lf_buffer f = None \<or> lf_capacity f = 0 \<or> data = None then Some (0, [], f)
      else map_option (\<lambda>(es, f'). (length es, es, f')) (framer_loop (the data) f))"

text \<open>A stream that arrives in pieces.\<close>

fun framer_chunks :: "bytes list \<Rightarrow> line_framer \<Rightarrow> (nat \<times> line_event list \<times> line_framer) option" where
  "framer_chunks [] f = Some (0, [], f)"
| "framer_chunks (c # cs) f =
     (case line_framer_feed (Some c) f of
        None \<Rightarrow> None
      | Some (n, es, f') \<Rightarrow> map_option (\<lambda>(n', es', f''). (n + n', es @ es', f'')) (framer_chunks cs f'))"

section \<open>The specification\<close>

definition line_end :: "u8 \<Rightarrow> bool" where "line_end ch \<longleftrightarrow> ch = 13 \<or> ch = 10"

text \<open>The complete lines of a text, without their ends, of whatever length.\<close>

function text_lines :: "bytes \<Rightarrow> bytes list" where
  "text_lines bs =
     (case dropWhile (Not \<circ> line_end) bs of
        [] \<Rightarrow> []
      | e # rest \<Rightarrow> takeWhile (Not \<circ> line_end) bs #
          text_lines (case rest of [] \<Rightarrow> [] | r # rs \<Rightarrow> if e = 13 \<and> r = 10 then rs else rest))"
  by pat_completeness auto
termination
proof (relation "measure length")
  fix bs :: bytes and e rest
  assume "dropWhile (Not \<circ> line_end) bs = e # rest"
  then have "length rest < length bs" using length_dropWhile_le [of "Not \<circ> line_end" bs] by simp
  then show "((case rest of [] \<Rightarrow> [] | r # rs \<Rightarrow> if e = 13 \<and> r = 10 then rs else rest), bs) \<in> measure length"
    by (auto split: list.split)
qed simp

declare text_lines.simps [simp del]

lemma text_lines_nil: "text_lines [] = []"
  by (simp add: text_lines.simps [of "[]"])

lemma text_lines_end:
  "line_end ch \<Longrightarrow> text_lines (ch # rest) =
     [] # text_lines (case rest of [] \<Rightarrow> [] | r # rs \<Rightarrow> if ch = 13 \<and> r = 10 then rs else rest)"
  by (subst text_lines.simps) simp

lemma text_lines_char:
  assumes "\<not> line_end ch"
  shows "text_lines (ch # rest) = (case text_lines rest of [] \<Rightarrow> [] | l # ls \<Rightarrow> (ch # l) # ls)"
proof (cases "dropWhile (Not \<circ> line_end) rest")
  case Nil
  then have drop: "dropWhile (Not \<circ> line_end) (ch # rest) = []" using assms by simp
  show ?thesis
    by (simp only: text_lines.simps [of "ch # rest"] text_lines.simps [of rest] Nil drop list.case)
next
  case (Cons e es)
  then have "text_lines rest = takeWhile (Not \<circ> line_end) rest #
      text_lines (case es of [] \<Rightarrow> [] | r # rs \<Rightarrow> if e = 13 \<and> r = 10 then rs else es)"
    by (subst text_lines.simps) simp
  moreover have "text_lines (ch # rest) = (ch # takeWhile (Not \<circ> line_end) rest) #
      text_lines (case es of [] \<Rightarrow> [] | r # rs \<Rightarrow> if e = 13 \<and> r = 10 then rs else es)"
    using Cons assms by (subst text_lines.simps) simp
  ultimately show ?thesis by simp
qed

definition line_event_of :: "nat \<Rightarrow> bytes \<Rightarrow> line_event" where
  "line_event_of capacity line = (if length line > capacity then (None, True) else (Some line, False))"

text \<open>The same lines by an automaton: whether a LF is swallowed and the line so far.\<close>

fun lines_from :: "bool \<Rightarrow> bytes \<Rightarrow> bytes \<Rightarrow> bytes list" where
  "lines_from swallow cur [] = []"
| "lines_from swallow cur (ch # bs) =
     (if swallow \<and> ch = 10 then lines_from False cur bs
      else if line_end ch then cur # lines_from (ch = 13) [] bs
      else lines_from False (cur @ [ch]) bs)"

lemma lines_from_text_lines:
  "(\<forall>cur. lines_from False cur bs = (case text_lines bs of [] \<Rightarrow> [] | l # ls \<Rightarrow> (cur @ l) # ls)) \<and>
   lines_from True [] bs = text_lines (case bs of [] \<Rightarrow> [] | r # rs \<Rightarrow> if r = 10 then rs else bs)"
proof (induction "length bs" arbitrary: bs rule: less_induct)
  case less
  have ih: "\<And>cs cur. length cs < length bs \<Longrightarrow>
      lines_from False cur cs = (case text_lines cs of [] \<Rightarrow> [] | l # ls \<Rightarrow> (cur @ l) # ls)"
    and ih2: "\<And>cs. length cs < length bs \<Longrightarrow>
      lines_from True [] cs = text_lines (case cs of [] \<Rightarrow> [] | r # rs \<Rightarrow> if r = 10 then rs else cs)"
    using less by blast+
  have same: "lines_from False [] cs = text_lines cs" if "length cs < length bs" for cs
    using ih [OF that, of "[]"] by (simp split: list.split)
  have one: "lines_from False cur bs = (case text_lines bs of [] \<Rightarrow> [] | l # ls \<Rightarrow> (cur @ l) # ls)" for cur
  proof (cases bs)
    case Nil
    then show ?thesis by (simp add: text_lines_nil)
  next
    case (Cons ch rest)
    show ?thesis
    proof (cases "line_end ch")
      case True
      have "text_lines bs = [] # text_lines (case rest of [] \<Rightarrow> [] | r # rs \<Rightarrow> if ch = 13 \<and> r = 10 then rs else rest)"
        using True Cons text_lines_end by simp
      moreover have "lines_from (ch = 13) [] rest =
          text_lines (case rest of [] \<Rightarrow> [] | r # rs \<Rightarrow> if ch = 13 \<and> r = 10 then rs else rest)"
        using ih2 [of rest] same [of rest] Cons by (cases "ch = 13") (auto split: list.split)
      ultimately show ?thesis using True Cons by simp
    next
      case False
      have "text_lines bs = (case text_lines rest of [] \<Rightarrow> [] | l # ls \<Rightarrow> (ch # l) # ls)"
        using False Cons text_lines_char by simp
      then show ?thesis
        using False Cons ih [of rest "cur @ [ch]"] by (simp split: list.split)
    qed
  qed
  moreover have "lines_from True [] bs = text_lines (case bs of [] \<Rightarrow> [] | r # rs \<Rightarrow> if r = 10 then rs else bs)"
  proof (cases bs)
    case (Cons r rs)
    show ?thesis
    proof (cases "r = 10")
      case True
      then show ?thesis using Cons same [of rs] by simp
    next
      case False
      have "lines_from True [] bs = lines_from False [] bs" using False Cons by simp
      then show ?thesis using False Cons one [of "[]"] by (simp split: list.split)
    qed
  qed (simp add: text_lines_nil)
  ultimately show ?case by blast
qed

text \<open>What the framer's state stands for.\<close>

definition framer_rel :: "nat \<Rightarrow> bool \<Rightarrow> bytes \<Rightarrow> line_framer \<Rightarrow> bool" where
  "framer_rel capacity swallow cur f \<longleftrightarrow>
     (\<exists>buf. lf_buffer f = Some buf \<and> capacity \<le> length buf \<and> lf_capacity f = capacity \<and> 0 < capacity \<and>
        lf_swallow_lf f = swallow \<and> lf_length f \<le> capacity \<and>
        (if lf_dropping f then length cur > capacity else cur = take (lf_length f) buf))"

lemma write_next:
  assumes "n < length buf"
  shows "\<exists>buf'. write_at buf n [c] = Some buf' \<and> length buf' = length buf \<and> take (Suc n) buf' = take n buf @ [c]"
  using assms by (auto simp: write_at_def)

text \<open>What happens to the state and the line with one byte.\<close>

definition next_swallow :: "bool \<Rightarrow> u8 \<Rightarrow> bool" where
  "next_swallow swallow ch = (\<not> (swallow \<and> ch = 10) \<and> ch = 13)"

definition next_line :: "bool \<Rightarrow> bytes \<Rightarrow> u8 \<Rightarrow> bytes" where
  "next_line swallow cur ch = (if swallow \<and> ch = 10 then cur else if line_end ch then [] else cur @ [ch])"

lemma framer_byte_step:
  assumes "framer_rel capacity swallow cur f"
  shows "\<exists>f'. framer_byte ch f =
      Some (if \<not> (swallow \<and> ch = 10) \<and> line_end ch then [line_event_of capacity cur] else [], f') \<and>
    framer_rel capacity (next_swallow swallow ch) (next_line swallow cur ch) f'"
proof -
  obtain buf where buf: "lf_buffer f = Some buf" "capacity \<le> length buf" "lf_capacity f = capacity" "0 < capacity"
      "lf_swallow_lf f = swallow" "lf_length f \<le> capacity"
      "if lf_dropping f then length cur > capacity else cur = take (lf_length f) buf"
    using assms by (auto simp: framer_rel_def)
  show ?thesis
  proof (cases "swallow \<and> ch = 10 \<or> line_end ch \<or> lf_dropping f \<or> lf_length f \<ge> capacity")
    case True
    then show ?thesis
      using buf by (auto simp: framer_byte_def framer_rel_def next_swallow_def next_line_def line_event_of_def line_end_def
          Let_def split: if_splits)
  next
    case False
    then obtain buf' where "write_at buf (lf_length f) [ch] = Some buf'" "length buf' = length buf"
        "take (Suc (lf_length f)) buf' = take (lf_length f) buf @ [ch]"
      using write_next [of "lf_length f" buf ch] buf(2) by auto
    then show ?thesis
      using buf False by (auto simp: framer_byte_def framer_rel_def next_swallow_def next_line_def line_end_def Let_def)
  qed
qed

lemma framer_loop_lines:
  assumes "framer_rel capacity swallow cur f"
  shows "\<exists>f' swallow' cur'. framer_loop bs f = Some (map (line_event_of capacity) (lines_from swallow cur bs), f') \<and>
    framer_rel capacity swallow' cur' f' \<and>
    (\<forall>more. lines_from swallow cur (bs @ more) = lines_from swallow cur bs @ lines_from swallow' cur' more)"
  using assms
proof (induction bs arbitrary: swallow cur f)
  case Nil
  then show ?case by auto
next
  case (Cons ch bs)
  obtain f1 where f1: "framer_byte ch f =
      Some (if \<not> (swallow \<and> ch = 10) \<and> line_end ch then [line_event_of capacity cur] else [], f1)"
    "framer_rel capacity (next_swallow swallow ch) (next_line swallow cur ch) f1"
    using framer_byte_step [OF Cons.prems, of ch] by blast
  obtain f' swallow' cur' where rest: "framer_loop bs f1 =
      Some (map (line_event_of capacity) (lines_from (next_swallow swallow ch) (next_line swallow cur ch) bs), f')"
    "framer_rel capacity swallow' cur' f'"
    "\<And>more. lines_from (next_swallow swallow ch) (next_line swallow cur ch) (bs @ more) =
      lines_from (next_swallow swallow ch) (next_line swallow cur ch) bs @ lines_from swallow' cur' more"
    using Cons.IH [OF f1(2)] by blast
  have split: "lines_from swallow cur (ch # xs) =
    (if \<not> (swallow \<and> ch = 10) \<and> line_end ch then [cur] else []) @
      lines_from (next_swallow swallow ch) (next_line swallow cur ch) xs" for xs
    by (auto simp: next_swallow_def next_line_def line_end_def)
  have "framer_loop (ch # bs) f = Some (map (line_event_of capacity) (lines_from swallow cur (ch # bs)), f')"
    using f1(1) rest(1) by (simp only: split) simp
  moreover have "lines_from swallow cur ((ch # bs) @ more) = lines_from swallow cur (ch # bs) @ lines_from swallow' cur' more"
    for more using rest(3) by (simp only: split append_Cons append_assoc)
  ultimately show ?case using rest(2) by blast
qed

lemma framer_chunks_lines:
  assumes "framer_rel capacity swallow cur f"
  shows "\<exists>f'. framer_chunks cs f =
    Some (length (lines_from swallow cur (concat cs)), map (line_event_of capacity) (lines_from swallow cur (concat cs)), f')"
  using assms
proof (induction cs arbitrary: swallow cur f)
  case (Cons c cs)
  obtain f' swallow' cur' where feed: "framer_loop c f = Some (map (line_event_of capacity) (lines_from swallow cur c), f')"
    "framer_rel capacity swallow' cur' f'"
    "\<And>more. lines_from swallow cur (c @ more) = lines_from swallow cur c @ lines_from swallow' cur' more"
    using framer_loop_lines [OF Cons.prems, of c] by blast
  then show ?case
    using Cons.IH [OF feed(2)] Cons.prems by (auto simp: line_framer_feed_def framer_rel_def)
qed simp

section \<open>Properties\<close>

text \<open>
  C40: however a stream is cut into pieces, the framer reports exactly its complete lines, in
  order and once each, with CR, LF and CR LF as one line end (also when a piece ends between CR
  and LF); a line longer than the buffer is reported as an overflow and the next line is whole
  again.  No byte is written outside the buffer, and the counts add up to the reports.
\<close>

theorem line_framer_reports_lines:
  assumes "0 < capacity" "capacity \<le> length buffer"
  shows "\<exists>f. framer_chunks chunks (line_framer_init (Some buffer) capacity) =
    Some (length (text_lines (concat chunks)), map (line_event_of capacity) (text_lines (concat chunks)), f)"
proof -
  have "framer_rel capacity False [] (line_framer_init (Some buffer) capacity)"
    using assms by (simp add: framer_rel_def line_framer_init_def)
  moreover have "lines_from False [] (concat chunks) = text_lines (concat chunks)"
    by (simp add: lines_from_text_lines split: list.split)
  ultimately show ?thesis using framer_chunks_lines by metis
qed

lemma line_framer_reports_lines_witness:
  "\<exists>f. framer_chunks [[97, 98, 13], [10, 99, 99, 99, 10, 10], [100, 13, 13, 101]] (line_framer_init (Some [0, 0]) 2) =
    Some (5, [(Some [97, 98], False), (None, True), (Some [], False), (Some [100], False), (Some [], False)], f)"
proof -
  have five: "Suc (Suc (Suc (Suc (Suc 0)))) = 5" by simp
  have "text_lines (concat [[97, 98, 13], [10, 99, 99, 99, 10, 10], [100, 13, 13, 101]]) = [[97, 98], [99, 99, 99], [], [100], []]"
    by code_simp
  then show ?thesis
    using line_framer_reports_lines [of 2 "[0, 0]" "[[97, 98, 13], [10, 99, 99, 99, 10, 10], [100, 13, 13, 101]]"]
    by (simp add: line_event_of_def five del: framer_chunks.simps)
qed

end
