(* ===== verification/Ring_Window.thy ===== *)
theory Ring_Window
  imports Prelude
begin

text \<open>
  The occupied part of a circular buffer, shared by the components that keep one: the entries
  from a head on, wrapping at the end of the array.
\<close>

definition window :: "'a list \<Rightarrow> nat \<Rightarrow> nat \<Rightarrow> 'a list" where
  "window xs head n = map (\<lambda>k. xs ! ((head + k) mod length xs)) [0..<n]"

lemma length_window [simp]: "length (window xs head n) = n"
  by (simp add: window_def)

lemma window_0 [simp]: "window xs head 0 = []"
  by (simp add: window_def)

lemma window_nth: "k < n \<Longrightarrow> window xs head n ! k = xs ! ((head + k) mod length xs)"
  by (simp add: window_def)

text \<open>Two positions of a ring differ unless they are a whole turn apart.\<close>

lemma ring_positions_differ:
  assumes "j < (n :: nat)" "k < n" "(h + j) mod n = (h + k) mod n"
  shows "j = k"
proof (rule ccontr)
  assume "j \<noteq> k"
  have "n dvd (max j k - min j k)"
    using assms(3) mod_eq_dvd_iff_nat [of "h + min j k" "h + max j k" n] by (auto simp: max_def min_def split: if_splits)
  moreover have "0 < max j k - min j k" "max j k - min j k < n" using \<open>j \<noteq> k\<close> assms(1,2) by auto
  ultimately show False using nat_dvd_not_less by blast
qed

text \<open>Writing behind the window extends it; over a full window it replaces the oldest entry.\<close>

lemma window_push:
  assumes "n < length xs"
  shows "window (xs[(head + n) mod length xs := x]) head (Suc n) = window xs head n @ [x]"
proof (rule nth_equalityI)
  fix k assume "k < length (window (xs[(head + n) mod length xs := x]) head (Suc n))"
  then have k: "k < Suc n" by simp
  have pos: "(head + n) mod length xs < length xs" using assms by (intro mod_less_divisor) linarith
  show "window (xs[(head + n) mod length xs := x]) head (Suc n) ! k = (window xs head n @ [x]) ! k"
  proof (cases "k = n")
    case True
    then show ?thesis using pos by (simp add: window_nth nth_append)
  next
    case False
    then have "k < n" using k by simp
    moreover have "(head + n) mod length xs \<noteq> (head + k) mod length xs"
      using ring_positions_differ [of k "length xs" n head] \<open>k < n\<close> assms by auto
    ultimately show ?thesis using k by (simp add: window_nth nth_append)
  qed
qed simp

lemma window_pop: "window xs ((head + 1) mod length xs) n = tl (window xs head (Suc n))"
proof (rule nth_equalityI)
  fix k assume "k < length (window xs ((head + 1) mod length xs) n)"
  then show "window xs ((head + 1) mod length xs) n ! k = tl (window xs head (Suc n)) ! k"
    by (simp add: window_nth nth_tl mod_add_left_eq)
qed simp

lemma window_head: "0 < n \<Longrightarrow> head < length xs \<Longrightarrow> hd (window xs head n) = xs ! head"
  by (cases n) (simp_all add: window_def upt_conv_Cons del: upt_Suc)

lemma window_overwrite:
  assumes "head < length xs"
  shows "window (xs[head := x]) ((head + 1) mod length xs) (length xs) = tl (window xs head (length xs)) @ [x]"
proof -
  obtain n where n: "length xs = Suc n" using assms by (cases "length xs") auto
  have pos: "((head + 1) mod length xs + n) mod length xs = head"
    using assms n by (metis Suc_eq_plus1 add.assoc add.commute mod_add_left_eq mod_add_self2 mod_less)
  have "window (xs[((head + 1) mod length xs + n) mod length xs := x]) ((head + 1) mod length xs) (Suc n) =
      window xs ((head + 1) mod length xs) n @ [x]"
    by (rule window_push) (simp add: n)
  then show ?thesis unfolding pos window_pop using n by simp
qed

lemma window_update_free:
  assumes "n \<le> k" "k < length xs"
  shows "window (xs[(head + k) mod length xs := x]) head n = window xs head n"
proof (rule nth_equalityI)
  fix j assume "j < length (window (xs[(head + k) mod length xs := x]) head n)"
  then have "j < n" by simp
  then have "(head + k) mod length xs \<noteq> (head + j) mod length xs"
    using ring_positions_differ [of j "length xs" k head] assms by auto
  then show "window (xs[(head + k) mod length xs := x]) head n ! j = window xs head n ! j"
    using \<open>j < n\<close> by (simp add: window_nth)
qed simp

end
