(* ===== verification/Log_Ring.thy ===== *)
theory Log_Ring
  imports Ring_Window
begin

text \<open>
  \<open>esp32_mquickjs_log_ring.c\<close>: the ring of the last 64 log messages.  Sequence numbers and the
  count of lost messages are 32-bit and wrap as in the code; the indices, which stay below the
  capacity, are natural numbers.  The text of an entry is its first \<open>text_length\<close> characters.
\<close>

section \<open>The ring\<close>

datatype log_source = LOG_SOURCE_JAVASCRIPT | LOG_SOURCE_EXCEPTION | LOG_SOURCE_RUNTIME | LOG_SOURCE_ESP_IDF

record log_entry =
  sequence :: u32
  uptime_ms :: u32
  log_src :: log_source
  log_text :: string

record log_ring =
  entries :: "log_entry list"
  next_sequence :: u32
  dropped :: u32
  head :: nat
  count :: nat

definition LOG_RING_CAPACITY :: nat where "LOG_RING_CAPACITY = 64"
definition LOG_TEXT_MAX_BYTES :: nat where "LOG_TEXT_MAX_BYTES = 512"

definition log_ring_init :: log_ring where
  "log_ring_init = \<lparr>entries = replicate LOG_RING_CAPACITY
       \<lparr>sequence = 0, uptime_ms = 0, log_src = LOG_SOURCE_JAVASCRIPT, log_text = []\<rparr>,
     next_sequence = 1, dropped = 0, head = 0, count = 0\<rparr>"

definition log_ring_append :: "u32 \<Rightarrow> log_source \<Rightarrow> string option \<Rightarrow> nat \<Rightarrow> log_ring \<Rightarrow> u32 \<times> log_ring" where
  "log_ring_append uptime source str text_length ring =
     (if str = None \<or> text_length = 0 then (0, ring)
      else
        let bounded_length = (if text_length > LOG_TEXT_MAX_BYTES then LOG_TEXT_MAX_BYTES else text_length);
            (index, ring) =
              (if count ring = LOG_RING_CAPACITY
               then (head ring, ring\<lparr>head := (head ring + 1) mod LOG_RING_CAPACITY, dropped := dropped ring + 1\<rparr>)
               else ((head ring + count ring) mod LOG_RING_CAPACITY, ring\<lparr>count := count ring + 1\<rparr>));
            number = next_sequence ring;
            ring = ring\<lparr>next_sequence := number + 1\<rparr>;
            ring = (if next_sequence ring = 0 then ring\<lparr>next_sequence := 1\<rparr> else ring)
        in (number, ring\<lparr>entries := (entries ring)[index :=
              \<lparr>sequence = number, uptime_ms = uptime, log_src = source, log_text = take bounded_length (the str)\<rparr>]\<rparr>))"

fun read_entries :: "log_ring \<Rightarrow> u32 \<Rightarrow> nat \<Rightarrow> nat \<Rightarrow> nat list \<Rightarrow> log_entry list \<Rightarrow> nat \<Rightarrow> log_entry list" where
  "read_entries ring after_sequence limit max_text_bytes [] output copied_bytes = output"
| "read_entries ring after_sequence limit max_text_bytes (i # is) output copied_bytes =
     (if \<not> length output < limit then output
      else
        let entry = entries ring ! ((head ring + i) mod LOG_RING_CAPACITY);
            n = length (log_text entry)
        in if sequence entry \<le> after_sequence
           then read_entries ring after_sequence limit max_text_bytes is output copied_bytes
           else if length output > 0 \<and> copied_bytes + n > max_text_bytes then output
           else if length output = 0 \<and> n > max_text_bytes
           then read_entries ring after_sequence limit max_text_bytes is output copied_bytes
           else read_entries ring after_sequence limit max_text_bytes is (output @ [entry]) (copied_bytes + n))"

definition log_ring_read :: "log_ring \<Rightarrow> u32 \<Rightarrow> nat \<Rightarrow> nat \<Rightarrow> nat \<Rightarrow> log_entry list" where
  "log_ring_read ring after_sequence limit max_text_bytes output_capacity =
     (if limit = 0 \<or> output_capacity = 0 then []
      else read_entries ring after_sequence (if limit > output_capacity then output_capacity else limit)
             max_text_bytes [0..<count ring] [] 0)"

section \<open>Specification and invariant\<close>

definition log_list :: "log_ring \<Rightarrow> log_entry list" where
  "log_list ring = window (entries ring) (head ring) (count ring)"

definition log_ok :: "log_ring \<Rightarrow> bool" where
  "log_ok ring \<longleftrightarrow> length (entries ring) = 64 \<and> head ring < 64 \<and> count ring \<le> 64"

text \<open>The number of the message after \<open>n\<close> others: 0 is never used.\<close>

definition sequence_of :: "nat \<Rightarrow> u32" where
  "sequence_of n = word_of_nat (n mod (2 ^ 32 - 1)) + 1"

lemma sequence_of_Suc: "(if sequence_of n + 1 = 0 then 1 else sequence_of n + 1) = sequence_of (Suc n)"
proof -
  define m where "m = n mod (2 ^ 32 - 1 :: nat)"
  have m: "m < 2 ^ 32 - 1" by (simp add: m_def)
  have suc: "Suc n mod (2 ^ 32 - 1) = (if Suc m = 2 ^ 32 - 1 then 0 else Suc m)"
    unfolding m_def by (rule mod_Suc)
  show ?thesis
  proof (cases "Suc m = 2 ^ 32 - 1")
    case True
    then have "m = 2 ^ 32 - 2" by simp
    then have "word_of_nat m + 1 + 1 = (0 :: u32)" by simp
    then show ?thesis using True suc by (simp add: sequence_of_def m_def)
  next
    case False
    then have "Suc (Suc m) < 2 ^ 32" using m by simp
    then have "unat (word_of_nat (Suc (Suc m)) :: u32) = Suc (Suc m)" by (intro unat_of_nat_lt) simp
    then have "word_of_nat (Suc (Suc m)) \<noteq> (0 :: u32)" by (metis nat.distinct(1) unsigned_0)
    moreover have "n mod 4294967295 = m" by (simp add: m_def)
    ultimately show ?thesis using False suc by (simp add: sequence_of_def add.commute)
  qed
qed

fun log_appends :: "(u32 \<times> log_source \<times> string) list \<Rightarrow> log_ring \<Rightarrow> log_ring" where
  "log_appends [] ring = ring"
| "log_appends ((uptime, source, str) # ms) ring =
     log_appends ms (snd (log_ring_append uptime source (Some str) (length str) ring))"

definition log_entry_of :: "nat \<Rightarrow> u32 \<times> log_source \<times> string \<Rightarrow> log_entry" where
  "log_entry_of n m = (case m of (uptime, source, str) \<Rightarrow>
     \<lparr>sequence = sequence_of n, uptime_ms = uptime, log_src = source, log_text = take 512 str\<rparr>)"

lemma log_append_step:
  fixes uptime :: u32 and source :: log_source
  assumes "log_ok ring" "str \<noteq> []" "next_sequence ring = sequence_of n"
  defines "ring' \<equiv> snd (log_ring_append uptime source (Some str) (length str) ring)"
  shows "log_ok ring' \<and> next_sequence ring' = sequence_of (Suc n) \<and>
    log_list ring' = (if count ring = 64 then tl (log_list ring) else log_list ring) @ [log_entry_of n (uptime, source, str)] \<and>
    count ring' = (if count ring = 64 then 64 else Suc (count ring)) \<and>
    dropped ring' = (if count ring = 64 then dropped ring + 1 else dropped ring)"
proof -
  have len: "length (entries ring) = 64" and h: "head ring < 64" and c: "count ring \<le> 64"
    using assms(1) by (simp_all add: log_ok_def)
  have entry: "take (if 512 < length str then 512 else length str) str = take 512 str" by simp
  show ?thesis
  proof (cases "count ring = 64")
    case True
    then show ?thesis
      using window_overwrite [of "head ring" "entries ring" "log_entry_of n (uptime, source, str)"] len h assms(2,3)
        sequence_of_Suc [of n]
      by (auto simp: ring'_def log_ring_append_def Let_def LOG_RING_CAPACITY_def LOG_TEXT_MAX_BYTES_def log_ok_def
          log_list_def log_entry_of_def entry split: if_splits)
  next
    case False
    then show ?thesis
      using window_push [of "count ring" "entries ring" "head ring" "log_entry_of n (uptime, source, str)"] len h c assms(2,3)
        sequence_of_Suc [of n]
      by (auto simp: ring'_def log_ring_append_def Let_def LOG_RING_CAPACITY_def LOG_TEXT_MAX_BYTES_def log_ok_def
          log_list_def log_entry_of_def entry split: if_splits)
  qed
qed

lemma log_appends_list:
  assumes "log_ok ring" "next_sequence ring = sequence_of n" "log_list ring = drop (n - 64) old" "length old = n"
    "count ring = min n 64" "dropped ring = word_of_nat (n - 64)" "\<forall>(uptime, source, str) \<in> set ms. str \<noteq> []"
  defines "all_entries \<equiv> old @ map (\<lambda>k. log_entry_of (n + k) (ms ! k)) [0..<length ms]"
  shows "log_ok (log_appends ms ring) \<and> log_list (log_appends ms ring) = drop (n + length ms - 64) all_entries \<and>
    dropped (log_appends ms ring) = word_of_nat (n + length ms - 64) \<and>
    next_sequence (log_appends ms ring) = sequence_of (n + length ms)"
  using assms(1-7) unfolding all_entries_def
proof (induction ms arbitrary: ring n old)
  case (Cons m ms)
  obtain uptime source str where m: "m = (uptime, source, str)" by (cases m)
  define ring1 where "ring1 = snd (log_ring_append uptime source (Some str) (length str) ring)"
  have step: "log_ok ring1" "next_sequence ring1 = sequence_of (Suc n)"
    "log_list ring1 = (if count ring = 64 then tl (log_list ring) else log_list ring) @ [log_entry_of n m]"
    "count ring1 = (if count ring = 64 then 64 else Suc (count ring))"
    "dropped ring1 = (if count ring = 64 then dropped ring + 1 else dropped ring)"
    using log_append_step [OF Cons.prems(1) _ Cons.prems(2), of str uptime source] Cons.prems(7)
    by (auto simp: ring1_def m)
  have list: "log_list ring1 = drop (Suc n - 64) (old @ [log_entry_of n m])"
  proof (cases "n \<ge> 64")
    case True
    then have "n - 63 = Suc (n - 64)" by simp
    then show ?thesis using True step(3) Cons.prems(3,4,5) by (simp add: drop_Suc tl_drop)
  qed (use step(3) Cons.prems(3,5) in auto)
  have lost: "dropped ring1 = word_of_nat (Suc n - 64)"
    using step(5) Cons.prems(5,6) by (cases "n \<ge> 64") (simp_all add: Suc_diff_le)
  have many: "count ring1 = min (Suc n) 64" using step(4) Cons.prems(5) by auto
  have shift: "(old @ [log_entry_of n m]) @ map (\<lambda>k. log_entry_of (Suc n + k) (ms ! k)) [0..<length ms] =
      old @ map (\<lambda>k. log_entry_of (n + k) ((m # ms) ! k)) [0..<length (m # ms)]"
    by (simp add: upt_conv_Cons map_Suc_upt [symmetric] del: upt_Suc)
  show ?case
    using Cons.IH [OF step(1,2) list _ many lost] Cons.prems(4,7) shift
    by (simp add: m ring1_def [symmetric] del: upt_Suc)
qed simp

text \<open>The longest prefix whose texts fit a budget.\<close>

fun fitting_prefix :: "nat \<Rightarrow> log_entry list \<Rightarrow> log_entry list" where
  "fitting_prefix budget [] = []"
| "fitting_prefix budget (e # es) =
     (if length (log_text e) \<le> budget then e # fitting_prefix (budget - length (log_text e)) es else [])"

definition log_read_spec :: "u32 \<Rightarrow> nat \<Rightarrow> nat \<Rightarrow> log_entry list \<Rightarrow> log_entry list" where
  "log_read_spec after_sequence limit max_text_bytes es =
     take limit (fitting_prefix max_text_bytes
       (dropWhile (\<lambda>e. length (log_text e) > max_text_bytes) (filter (\<lambda>e. after_sequence < sequence e) es)))"

abbreviation picked :: "log_ring \<Rightarrow> u32 \<Rightarrow> nat list \<Rightarrow> log_entry list" where
  "picked ring after_sequence idxs \<equiv> filter (\<lambda>e. after_sequence < sequence e)
     (map (\<lambda>i. entries ring ! ((head ring + i) mod LOG_RING_CAPACITY)) idxs)"

lemma read_entries_more:
  assumes "used \<le> max_bytes" "out \<noteq> []"
  shows "read_entries ring after_sequence limit max_bytes idxs out used =
    out @ take (limit - length out) (fitting_prefix (max_bytes - used) (picked ring after_sequence idxs))"
  using assms
proof (induction idxs arbitrary: out used)
  case (Cons i js)
  define e where "e = entries ring ! ((head ring + i) mod LOG_RING_CAPACITY)"
  show ?case
  proof (cases "length out < limit")
    case True
    then have "limit - length out = Suc (limit - Suc (length out))" by simp
    then show ?thesis
      using Cons.prems Cons.IH [of "used + length (log_text e)" "out @ [e]"] Cons.IH [of used out] True
      by (auto simp: Let_def e_def [symmetric] not_le not_less)
  qed simp
qed simp

lemma read_entries_first:
  assumes "0 < limit"
  shows "read_entries ring after_sequence limit max_bytes idxs [] 0 = take limit (fitting_prefix max_bytes
    (dropWhile (\<lambda>e. length (log_text e) > max_bytes) (picked ring after_sequence idxs)))"
proof (induction idxs)
  case (Cons i js)
  define e where "e = entries ring ! ((head ring + i) mod LOG_RING_CAPACITY)"
  have "take limit (e # xs) = e # take (limit - Suc 0) xs" for xs using assms by (cases limit) auto
  then show ?case
    using assms Cons.IH read_entries_more [of "length (log_text e)" max_bytes "[e]" ring after_sequence limit js]
    by (auto simp: Let_def e_def [symmetric] not_le not_less)
qed simp

section \<open>Properties\<close>

text \<open>
  After any sequence of messages the ring holds exactly the last 64 of them, in order and
  each with its own number (numbers count on from 1 and skip 0 when they wrap), its time, source
  and the first 512 characters of its text, and \<open>dropped\<close> counts the others modulo \<open>2 ^ 32\<close>.
\<close>

lemma log_ring_keeps_last:
  assumes "\<forall>(uptime, source, str) \<in> set ms. str \<noteq> []"
  shows "log_list (log_appends ms log_ring_init) =
      drop (length ms - 64) (map (\<lambda>k. log_entry_of k (ms ! k)) [0..<length ms]) \<and>
    dropped (log_appends ms log_ring_init) = word_of_nat (length ms - 64)"
proof -
  have "log_ok log_ring_init" "log_list log_ring_init = []" "count log_ring_init = 0"
    "next_sequence log_ring_init = sequence_of 0" "dropped log_ring_init = 0"
    by (simp_all add: log_ring_init_def log_ok_def log_list_def sequence_of_def LOG_RING_CAPACITY_def)
  then show ?thesis using log_appends_list [of log_ring_init 0 "[]" ms] assms by simp
qed

lemma log_ring_keeps_last_witness:
  "length (log_list (log_appends (replicate 66 (7, LOG_SOURCE_RUNTIME, ''hi'')) log_ring_init)) = 64 \<and>
   sequence (hd (log_list (log_appends (replicate 66 (7, LOG_SOURCE_RUNTIME, ''hi'')) log_ring_init))) = 3 \<and>
   dropped (log_appends (replicate 66 (7, LOG_SOURCE_RUNTIME, ''hi'')) log_ring_init) = 2"
proof -
  define ms where "ms = replicate 66 (7 :: u32, LOG_SOURCE_RUNTIME, ''hi'')"
  have len: "length ms = 66" and all: "\<forall>(uptime, source, str) \<in> set ms. str \<noteq> []" by (simp_all add: ms_def)
  have "length (log_list (log_appends ms log_ring_init)) = 64 \<and>
      hd (log_list (log_appends ms log_ring_init)) = log_entry_of 2 (ms ! 2) \<and>
      dropped (log_appends ms log_ring_init) = 2"
    using log_ring_keeps_last [OF all] len by (simp add: hd_drop_conv_nth numeral_2_eq_2 del: upt_Suc)
  moreover have "sequence (log_entry_of 2 (ms ! 2)) = 3" by (simp add: log_entry_of_def sequence_of_def split: prod.split)
  ultimately show ?thesis unfolding ms_def by simp
qed

text \<open>
  A read returns the newer entries in order, none twice: it skips leading ones whose text
  alone exceeds the budget, then takes the longest prefix that fits the budget of characters and
  the smaller of the limit and the room of the output.
\<close>

lemma log_ring_read_correct:
  assumes "log_ok ring"
  shows "log_ring_read ring after_sequence limit max_text_bytes output_capacity =
    log_read_spec after_sequence (min limit output_capacity) max_text_bytes (log_list ring)"
proof -
  have "length (entries ring) = LOG_RING_CAPACITY" using assms by (simp add: log_ok_def LOG_RING_CAPACITY_def)
  then have "picked ring after_sequence [0..<count ring] = filter (\<lambda>e. after_sequence < sequence e) (log_list ring)"
    by (simp add: log_list_def window_def)
  then show ?thesis
    using read_entries_first [of "min limit output_capacity" ring after_sequence max_text_bytes "[0..<count ring]"]
    by (auto simp: log_ring_read_def log_read_spec_def min_def)
qed

lemma log_ring_read_correct_witness:
  "map sequence (log_ring_read (log_appends [(1, LOG_SOURCE_RUNTIME, ''a''), (2, LOG_SOURCE_RUNTIME, ''bcd''),
       (3, LOG_SOURCE_RUNTIME, ''ef''), (4, LOG_SOURCE_RUNTIME, ''g'')] log_ring_init) 1 8 2 8) = [3]"
proof -
  define ms where "ms = [(1, LOG_SOURCE_RUNTIME, ''a''), (2, LOG_SOURCE_RUNTIME, ''bcd''),
       (3, LOG_SOURCE_RUNTIME, ''ef''), (4 :: u32, LOG_SOURCE_RUNTIME, ''g'')]"
  define ring where "ring = log_appends ms log_ring_init"
  have init: "log_ok log_ring_init" "log_list log_ring_init = []" "count log_ring_init = 0"
    "next_sequence log_ring_init = sequence_of 0" "dropped log_ring_init = 0"
    by (simp_all add: log_ring_init_def log_ok_def log_list_def sequence_of_def LOG_RING_CAPACITY_def)
  have ring: "log_ok ring" "log_list ring = map (\<lambda>k. log_entry_of k (ms ! k)) [0..<length ms]"
    using log_appends_list [of log_ring_init 0 "[]" ms] init unfolding ring_def
    by (simp_all add: ms_def del: log_appends.simps upt_Suc)
  have "map sequence (log_ring_read ring 1 8 2 8) = [3]"
    unfolding log_ring_read_correct [OF ring(1)] ring(2)
    by (simp add: ms_def upt_rec log_entry_of_def log_read_spec_def sequence_of_def)
  then show ?thesis by (simp only: ring_def ms_def)
qed

end
