(* ===== verification/Fs_Path.thy ===== *)
theory Fs_Path
  imports Prelude "HOL-Library.Sublist"
begin

text \<open>
  \<open>modules/fs/esp32_mquickjs_fs_path.c\<close>: the names of the shared file namespace.  A C string is
  the list of its characters without the final NUL; writing a string with its NUL into a buffer
  that is too small is \<open>None\<close>.
\<close>

section \<open>Resolving a path\<close>

text \<open>The index of the last occurrence of a character.\<close>

definition strrchr :: "string \<Rightarrow> char \<Rightarrow> nat option" where
  "strrchr s c = (if c \<in> set s then Some (length s - 1 - length (takeWhile (\<lambda>d. d \<noteq> c) (rev s))) else None)"

text \<open>Append to the string in a buffer of \<open>room\<close> bytes and end it with NUL.\<close>

definition append_text :: "nat \<Rightarrow> string \<Rightarrow> string \<Rightarrow> string option" where
  "append_text room buf s = (if length buf + length s + 1 \<le> room then Some (buf @ s) else None)"

abbreviation slash :: "char \<Rightarrow> bool" where "slash c \<equiv> c = CHR ''/''"

lemma rest_shorter:
  assumes "dropWhile slash cursor \<noteq> []"
  shows "length (dropWhile (Not \<circ> slash) (dropWhile slash cursor)) < length cursor"
proof -
  obtain c cs where c: "dropWhile slash cursor = c # cs" using assms by (cases "dropWhile slash cursor") auto
  then have "\<not> slash c" using hd_dropWhile [of slash cursor] by simp
  then have "length (dropWhile (Not \<circ> slash) (c # cs)) \<le> length cs" using length_dropWhile_le [of "Not \<circ> slash" cs] by simp
  moreover have "length (c # cs) \<le> length cursor" using length_dropWhile_le [of slash cursor] c by simp
  ultimately show ?thesis using c by simp
qed

function resolve_loop :: "nat \<Rightarrow> string \<Rightarrow> string \<Rightarrow> (bool \<times> string) option" where
  "resolve_loop room cursor out =
     (let start = dropWhile slash cursor;
          segment = takeWhile (Not \<circ> slash) start;
          rest = dropWhile (Not \<circ> slash) start
      in if start = [] then Some (True, out)
         else if segment = ''.'' then resolve_loop room rest out
         else if segment = ''..'' then
           (if length out = 1 then Some (False, out)
            else case strrchr out (CHR ''/'') of
                None \<Rightarrow> Some (False, out)
              | Some i \<Rightarrow> resolve_loop room rest (take (if i = 0 then 1 else i) out))
         else if length out + (if length out > 1 then 1 else 0) + length segment \<ge> room then Some (False, out)
         else (case append_text room out ((if length out > 1 then ''/'' else []) @ segment) of
             None \<Rightarrow> None
           | Some out' \<Rightarrow> resolve_loop room rest out'))"
  by pat_completeness auto
termination by (relation "measure (\<lambda>(room, cursor, out). length cursor)") (simp_all add: rest_shorter)

declare resolve_loop.simps [simp del]

definition fs_resolve_path :: "string option \<Rightarrow> string option \<Rightarrow> nat \<Rightarrow> string \<Rightarrow> (bool \<times> string) option" where
  "fs_resolve_path base_path input_path room out =
     (case (base_path, input_path) of
        (Some base, Some input) \<Rightarrow>
          if take 1 base \<noteq> ''/'' then Some (False, out)
          else let base = (if take 1 input = ''/'' then ''/'' else base) in
            if room \<le> length base then Some (False, out)
            else (case append_text room [] base of
                None \<Rightarrow> None
              | Some out \<Rightarrow> if input = [] \<or> input = ''.'' then Some (True, out) else resolve_loop room input out)
      | _ \<Rightarrow> Some (False, out))"

definition fs_path_contains :: "string option \<Rightarrow> string option \<Rightarrow> bool" where
  "fs_path_contains root path =
     (case (root, path) of
        (Some root, Some path) \<Rightarrow>
          take 1 root = ''/'' \<and> take 1 path = ''/'' \<and>
          (length root = 1 \<or>
           (take (length root) path = root \<and> (drop (length root) path = [] \<or> slash (path ! length root))))
      | _ \<Rightarrow> False)"

definition fs_mount_child :: "string option \<Rightarrow> string option \<Rightarrow> nat \<Rightarrow> string \<Rightarrow> (bool \<times> string) option" where
  "fs_mount_child parent mount room out =
     (if \<not> fs_path_contains parent mount \<or> parent = mount then Some (False, out)
      else
        let p = the parent; m = the mount;
            child = (if p = ''/'' then 1 else length p + 1);
            len = (if CHR ''/'' \<in> set (drop child m)
                   then child + length (takeWhile (Not \<circ> slash) (drop child m)) else length m)
        in if len \<ge> room then Some (False, out)
           else map_option (Pair True) (append_text room [] (take len m)))"

definition fs_path_basename :: "string option \<Rightarrow> string" where
  "fs_path_basename path =
     (case path of
        None \<Rightarrow> []
      | Some p \<Rightarrow> if p = [] then []
          else (case strrchr p (CHR ''/'') of
              None \<Rightarrow> p
            | Some i \<Rightarrow> if i + 1 = length p then drop i p else drop (i + 1) p))"

section \<open>The specification\<close>

text \<open>A name is a list of components; the root has none.\<close>

definition component :: "string \<Rightarrow> bool" where
  "component s \<longleftrightarrow> s \<noteq> [] \<and> CHR ''/'' \<notin> set s \<and> s \<noteq> ''.'' \<and> s \<noteq> ''..''"

definition path_string :: "string list \<Rightarrow> string" where
  "path_string cs = (if cs = [] then ''/'' else concat (map ((#) CHR ''/'') cs))"

function segments :: "string \<Rightarrow> string list" where
  "segments s =
     (if dropWhile slash s = [] then []
      else takeWhile (Not \<circ> slash) (dropWhile slash s) # segments (dropWhile (Not \<circ> slash) (dropWhile slash s)))"
  by pat_completeness auto
termination by (relation "measure length") (simp_all add: rest_shorter)

declare segments.simps [simp del]

fun resolve_segments :: "nat \<Rightarrow> string list \<Rightarrow> string list \<Rightarrow> string list option" where
  "resolve_segments room cs [] = Some cs"
| "resolve_segments room cs (s # ss) =
     (if s = ''.'' then resolve_segments room cs ss
      else if s = ''..'' then (if cs = [] then None else resolve_segments room (butlast cs) ss)
      else if room \<le> length (path_string (cs @ [s])) then None
      else resolve_segments room (cs @ [s]) ss)"

lemma path_string_snoc: "path_string (cs @ [s]) = (if cs = [] then [] else path_string cs) @ ''/'' @ s"
  by (simp add: path_string_def)

lemma path_string_length:
  assumes "\<forall>c \<in> set cs. component c"
  shows "0 < length (path_string cs)" "length (path_string cs) = 1 \<longleftrightarrow> cs = []"
proof -
  show "0 < length (path_string cs)" by (cases cs) (simp_all add: path_string_def)
  show "length (path_string cs) = 1 \<longleftrightarrow> cs = []"
    using assms by (cases cs) (auto simp: path_string_def component_def)
qed

lemma strrchr_last:
  assumes "CHR ''/'' \<notin> set s"
  shows "strrchr (pre @ ''/'' @ s) (CHR ''/'') = Some (length pre)"
proof -
  have "takeWhile (\<lambda>d. d \<noteq> CHR ''/'') (rev s @ CHR ''/'' # rev pre) = rev s"
    using assms by (subst takeWhile_append2) auto
  then show ?thesis by (simp add: strrchr_def)
qed

lemma resolve_loop_correct:
  assumes "\<forall>c \<in> set cs. component c" "length (path_string cs) < room"
  shows "\<exists>r out. resolve_loop room cursor (path_string cs) = Some (r, out) \<and>
    (case resolve_segments room cs (segments cursor) of
       None \<Rightarrow> \<not> r
     | Some ds \<Rightarrow> r \<and> out = path_string ds \<and> length out < room \<and> (\<forall>d \<in> set ds. component d))"
  using assms
proof (induction "length cursor" arbitrary: cursor cs rule: less_induct)
  case less
  define start where "start = dropWhile slash cursor"
  define segment where "segment = takeWhile (Not \<circ> slash) start"
  define rest where "rest = dropWhile (Not \<circ> slash) start"
  note loop = resolve_loop.simps [of room cursor "path_string cs", unfolded Let_def, folded start_def, folded segment_def rest_def]
  show ?case
  proof (cases "start = []")
    case True
    then show ?thesis using less.prems by (auto simp: loop segments.simps [of cursor] start_def [symmetric])
  next
    case False
    have short: "length rest < length cursor" using rest_shorter False by (simp add: rest_def start_def)
    have segs: "segments cursor = segment # segments rest"
      using False by (subst segments.simps) (simp add: start_def segment_def rest_def)
    have "\<not> slash (hd start)" using hd_dropWhile [of slash cursor] False by (simp add: start_def)
    then have seg: "segment \<noteq> []" using False by (cases start) (simp_all add: segment_def)
    have noslash: "CHR ''/'' \<notin> set segment" using set_takeWhileD [of _ "Not \<circ> slash" start] by (auto simp: segment_def)
    note len = path_string_length [OF less.prems(1)]
    consider (dot) "segment = ''.''" | (up) "segment = ''..''" | (name) "segment \<noteq> ''.''" "segment \<noteq> ''..''" by blast
    then show ?thesis
    proof cases
      case dot
      then show ?thesis using less.hyps [OF short less.prems] False by (simp add: loop segs Let_def)
    next
      case up
      show ?thesis
      proof (cases "cs = []")
        case True
        then have "length (path_string cs) = 1" using len by blast
        then have "resolve_loop room cursor (path_string cs) = Some (False, path_string cs)" using up False by (simp add: loop)
        moreover have "resolve_segments room cs (segments cursor) = None" using up True by (simp add: segs)
        ultimately show ?thesis by (auto intro: exI [of _ False])
      next
        case nonempty: False
        define ds where "ds = butlast cs"
        define d where "d = last cs"
        have cs: "cs = ds @ [d]" using nonempty by (simp add: ds_def d_def)
        have d: "CHR ''/'' \<notin> set d" "\<forall>c \<in> set ds. component c"
          using less.prems(1) by (auto simp: cs component_def)
        have str: "path_string cs = (if ds = [] then [] else path_string ds) @ ''/'' @ d"
          unfolding cs by (rule path_string_snoc)
        define k where "k = length (if ds = [] then [] else path_string ds)"
        have last: "strrchr (path_string cs) (CHR ''/'') = Some k"
          unfolding str k_def by (rule strrchr_last [OF d(1)])
        have cut: "take (if k = 0 then 1 else k) (path_string cs) = path_string ds"
          unfolding str k_def using path_string_length(1) [OF d(2)] by (auto simp: path_string_def)
        have "length (path_string ds) < room" using less.prems(2) str by (auto simp: path_string_def split: if_splits)
        from less.hyps [OF short d(2) this] show ?thesis
          using up False len nonempty last cut by (simp only: loop segs resolve_segments.simps ds_def) simp
      qed
    next
      case name
      then have comp: "component segment" using seg noslash by (simp add: component_def)
      have str: "path_string (cs @ [segment]) = path_string cs @ (if length (path_string cs) > 1 then ''/'' else []) @ segment"
      proof (cases "cs = []")
        case False
        then have "1 < length (path_string cs)" using len by linarith
        then show ?thesis using False by (simp add: path_string_snoc)
      qed (simp add: path_string_def)
      show ?thesis
      proof (cases "room \<le> length (path_string (cs @ [segment]))")
        case True
        then show ?thesis using name False by (auto simp: loop segs Let_def str)
      next
        case fits: False
        have "\<forall>c \<in> set (cs @ [segment]). component c" using less.prems(1) comp by auto
        note ih = less.hyps [OF short this]
        have "resolve_loop room cursor (path_string cs) = resolve_loop room rest (path_string (cs @ [segment]))"
          using name False fits unfolding str by (cases "1 < length (path_string cs)") (simp_all add: loop append_text_def)
        moreover have "resolve_segments room cs (segments cursor) = resolve_segments room (cs @ [segment]) (segments rest)"
          using name fits by (simp add: segs)
        ultimately show ?thesis using ih fits by simp
      qed
    qed
  qed
qed

lemma path_string_slash: "\<exists>s. path_string cs = CHR ''/'' # s"
  by (cases cs) (simp_all add: path_string_def)

lemma segments_simps:
  "segments [] = []" "segments ''.'' = [''.'']"
proof -
  show "segments [] = []" by (simp add: segments.simps [of "[]"])
  then show "segments ''.'' = [''.'']" by (simp add: segments.simps [of "''.''"])
qed

text \<open>One name extends another exactly when its components do.\<close>

definition joined :: "string list \<Rightarrow> string" where "joined cs = concat (map ((#) CHR ''/'') cs)"

lemma joined_simps [simp]: "joined [] = []" "joined (c # cs) = CHR ''/'' # c @ joined cs" "joined (cs @ ds) = joined cs @ joined ds"
  by (simp_all add: joined_def)

lemma joined_starts: "joined cs = [] \<or> hd (joined cs) = CHR ''/''"
  by (cases cs) simp_all

lemma first_component:
  assumes "CHR ''/'' \<notin> set a" "CHR ''/'' \<notin> set b" "x = [] \<or> hd x = CHR ''/''" "y = [] \<or> hd y = CHR ''/''" "a @ x = b @ y"
  shows "a = b \<and> x = y"
proof -
  have cut: "takeWhile (Not \<circ> slash) (c @ z) = c" if "CHR ''/'' \<notin> set c" "z = [] \<or> hd z = CHR ''/''" for c z
    using that by (cases z) (auto simp: takeWhile_append)
  then have "a = b" using cut [OF assms(1,3)] cut [OF assms(2,4)] assms(5) by metis
  then show ?thesis using assms(5) by simp
qed

lemma joined_prefix:
  assumes "\<forall>c \<in> set rs. component c" "\<forall>c \<in> set ps. component c"
  shows "(\<exists>t. joined ps = joined rs @ t \<and> (t = [] \<or> hd t = CHR ''/'')) \<longleftrightarrow> prefix rs ps"
  using assms
proof (induction rs arbitrary: ps)
  case Nil
  then show ?case using joined_starts by auto
next
  case (Cons r rs)
  show ?case
  proof (cases ps)
    case ps: (Cons p qs)
    have "p = r \<and> joined qs = joined rs @ t" if "p @ joined qs = r @ joined rs @ t" "t = [] \<or> hd t = CHR ''/''" for t
    proof (rule first_component)
      show "joined rs @ t = [] \<or> hd (joined rs @ t) = CHR ''/''" using joined_starts [of rs] that(2) by (cases rs) auto
    qed (use Cons.prems ps that(1) joined_starts in \<open>auto simp: component_def\<close>)
    then show ?thesis using Cons.IH [of qs] Cons.prems by (auto simp: ps)
  qed simp
qed

lemma path_string_joined: "cs \<noteq> [] \<Longrightarrow> path_string cs = joined cs"
  by (simp add: path_string_def joined_def)

lemma contains_prefix:
  assumes "\<forall>c \<in> set rs. component c" "\<forall>c \<in> set ps. component c"
  shows "fs_path_contains (Some (path_string rs)) (Some (path_string ps)) \<longleftrightarrow> prefix rs ps"
proof (cases "rs = []")
  case True
  then show ?thesis using path_string_slash [of ps] by (auto simp: fs_path_contains_def path_string_def)
next
  case False
  have ext: "(\<exists>t. x = a @ t \<and> (t = [] \<or> hd t = CHR ''/'')) \<longleftrightarrow>
      take (length a) x = a \<and> (drop (length a) x = [] \<or> slash (x ! length a))" for a x :: string
  proof
    assume "take (length a) x = a \<and> (drop (length a) x = [] \<or> slash (x ! length a))"
    then have "x = a @ drop (length a) x" "drop (length a) x = [] \<or> hd (drop (length a) x) = CHR ''/''"
      by (metis append_take_drop_id, cases "length a < length x", auto simp: hd_drop_conv_nth)
    then show "\<exists>t. x = a @ t \<and> (t = [] \<or> hd t = CHR ''/'')" by blast
  next
    assume "\<exists>t. x = a @ t \<and> (t = [] \<or> hd t = CHR ''/'')"
    then obtain t where "x = a @ t" "t = [] \<or> hd t = CHR ''/''" by blast
    then show "take (length a) x = a \<and> (drop (length a) x = [] \<or> slash (x ! length a))" by (cases t) simp_all
  qed
  show ?thesis
  proof (cases "ps = []")
    case True
    have long: "1 < length (path_string rs)" using False path_string_length [OF assms(1)] by linarith
    have "take (length (path_string rs)) ''/'' \<noteq> path_string rs"
    proof
      assume "take (length (path_string rs)) ''/'' = path_string rs"
      then have "length (path_string rs) \<le> 1" by (metis length_take list.size(3,4) min.cobounded1 One_nat_def add_0)
      then show False using long by simp
    qed
    then have "length (path_string rs) \<noteq> 1" "take (length (path_string rs)) ''/'' \<noteq> path_string rs" using long by auto
    then show ?thesis using True False by (auto simp: fs_path_contains_def path_string_def [of "[]"])
  next
    case ps: False
    have "length (path_string rs) \<noteq> 1" using False path_string_length [OF assms(1)] by simp
    then show ?thesis
      using joined_prefix [OF assms] ext [of "joined ps" "joined rs"] path_string_slash [of rs] path_string_slash [of ps]
      by (auto simp: fs_path_contains_def path_string_joined [OF False] path_string_joined [OF ps])
  qed
qed

section \<open>Properties\<close>

text \<open>
  C35: resolving a path against a normalised base gives the name that component-wise resolution
  gives: \<open>.\<close> stays, \<open>..\<close> goes up and fails at the root, other components are appended while the
  name with its NUL fits; an absolute path starts at the root.  The result is again normalised
  (no empty, \<open>.\<close> or \<open>..\<close> component), so no input escapes the namespace, and no byte is written
  outside the buffer.
\<close>

theorem fs_resolve_path_correct:
  assumes "\<forall>c \<in> set base. component c" "length (path_string base) < room"
  shows "\<exists>r out'. fs_resolve_path (Some (path_string base)) (Some input) room out = Some (r, out') \<and>
    (case resolve_segments room (if take 1 input = ''/'' then [] else base) (segments input) of
       None \<Rightarrow> \<not> r
     | Some cs \<Rightarrow> r \<and> out' = path_string cs \<and> length out' < room \<and> (\<forall>c \<in> set cs. component c))"
proof -
  define start where "start = (if take 1 input = ''/'' then [] else base)"
  have one: "1 < room" using assms(2) path_string_length(1) [OF assms(1)] by linarith
  have start: "(if take 1 input = ''/'' then ''/'' else path_string base) = path_string start"
    "\<forall>c \<in> set start. component c" "length (path_string start) < room"
    using assms one by (auto simp: start_def path_string_def [of "[]"])
  have "take 1 (path_string base) = ''/''" using path_string_slash [of base] by auto
  then have run: "fs_resolve_path (Some (path_string base)) (Some input) room out =
      (if input = [] \<or> input = ''.'' then Some (True, path_string start) else resolve_loop room input (path_string start))"
    unfolding fs_resolve_path_def Let_def prod.case option.case start(1) using start(3) by (simp add: append_text_def)
  show ?thesis
    using resolve_loop_correct [OF start(2,3), of input] start(2,3)
    unfolding run start_def [symmetric] by (auto simp: segments_simps)
qed

lemma fs_resolve_path_correct_witness:
  "\<exists>r out'. fs_resolve_path (Some ''/sd/js'') (Some ''.//lib/../main.js'') 32 [] = Some (r, out') \<and> r \<and> out' = ''/sd/js/main.js''"
proof -
  have comps: "component ''sd'' \<and> component ''js''" by (simp add: component_def)
  have base: "path_string [''sd'', ''js''] = ''/sd/js''" by code_simp
  have "resolve_segments 32 (if take 1 ''.//lib/../main.js'' = ''/'' then [] else [''sd'', ''js''])
      (segments ''.//lib/../main.js'') = Some [''sd'', ''js'', ''main.js'']" by code_simp
  moreover have "path_string [''sd'', ''js'', ''main.js''] = ''/sd/js/main.js''" by code_simp
  ultimately show ?thesis
    using fs_resolve_path_correct [of "[''sd'', ''js'']" 32 "''.//lib/../main.js''" "[]"] comps
    unfolding base by auto
qed

text \<open>
  A name contains another exactly when its components are a prefix of the other's (so
  \<open>/data\<close> does not contain \<open>/database\<close>), and the child through which a mount below a
  directory is listed is the mount's name cut one component below the directory.
\<close>

lemma fs_path_contains_correct:
  assumes "\<forall>c \<in> set ps. component c" "\<forall>c \<in> set ms. component c"
  shows "(fs_path_contains (Some (path_string ps)) (Some (path_string ms)) \<longleftrightarrow> prefix ps ms) \<and>
    fs_mount_child (Some (path_string ps)) (Some (path_string ms)) room out =
      (if strict_prefix ps ms \<and> length (path_string (take (length ps + 1) ms)) < room
       then Some (True, path_string (take (length ps + 1) ms)) else Some (False, out))"
proof (cases "strict_prefix ps ms")
  case False
  have "fs_path_contains (Some (path_string ps)) (Some (path_string ms)) \<Longrightarrow> path_string ps = path_string ms"
    using False contains_prefix [OF assms] by (metis prefix_order.le_neq_trans)
  then show ?thesis using False contains_prefix [OF assms] by (auto simp: fs_mount_child_def)
next
  case True
  then obtain m rest where ms: "ms = ps @ m # rest" by (elim strict_prefixE')
  have m: "CHR ''/'' \<notin> set m" using assms(2) by (simp add: ms component_def)
  have child: "(if path_string ps = ''/'' then 1 else length (path_string ps) + 1) = length (joined ps) + 1"
    using path_string_length [OF assms(1)] by (cases "ps = []") (auto simp: path_string_def joined_def)
  have str: "path_string ms = joined ps @ CHR ''/'' # m @ joined rest" by (simp add: ms path_string_joined)
  have short: "path_string (take (length ps + 1) ms) = joined ps @ CHR ''/'' # m" by (simp add: ms path_string_joined)
  have below: "drop (length (joined ps) + 1) (path_string ms) = m @ joined rest" by (simp add: str)
  have cut: "(if CHR ''/'' \<in> set (m @ joined rest)
      then length (joined ps) + 1 + length (takeWhile (Not \<circ> slash) (m @ joined rest)) else length (path_string ms)) =
    length (joined ps @ CHR ''/'' # m)"
    using m by (cases rest) (auto simp: str takeWhile_append)
  have "path_string ps \<noteq> path_string ms"
    using True contains_prefix [OF assms] contains_prefix [OF assms(2,1)] by (auto simp: strict_prefix_def)
  then show ?thesis
    using True contains_prefix [OF assms]
    unfolding fs_mount_child_def Let_def option.sel child below cut short
    by (auto simp: append_text_def str strict_prefix_def)
qed

lemma fs_path_contains_correct_witness:
  "\<not> fs_path_contains (Some ''/data'') (Some ''/database/a'') \<and>
   fs_mount_child (Some ''/data'') (Some ''/data/sd/x'') 16 [] = Some (True, ''/data/sd'')"
proof -
  have comps: "component ''data''" "component ''database''" "component ''a''" "component ''sd''" "component ''x''"
    by (simp_all add: component_def)
  have strings: "path_string [''data''] = ''/data''" "path_string [''database'', ''a''] = ''/database/a''"
    "path_string [''data'', ''sd'', ''x''] = ''/data/sd/x''" "path_string [''data'', ''sd''] = ''/data/sd''" by code_simp+
  show ?thesis
    using fs_path_contains_correct [of "[''data'']" "[''database'', ''a'']" 16 "[]"]
      fs_path_contains_correct [of "[''data'']" "[''data'', ''sd'', ''x'']" 16 "[]"] comps
    by (simp add: strings)
qed

end
