(* ===== verification/Future_Scheduler.thy ===== *)
theory Future_Scheduler
  imports Prelude
begin

text \<open>
  \<open>esp32_mquickjs_future_scheduler.c\<close>, \<open>esp32_mquickjs_future_timeout.c\<close> and the part of
  \<open>esp32_mquickjs_future.c\<close> that decides which native driver runs: futures occupy slots, each
  driver names a resource, and at most one driver of a resource (its lane) is started at a time
  while the others wait in the order of their submission.  The JavaScript values of a slot, its
  timer and its handle do not influence these decisions and are left out; whether a captured
  driver has a start function and whether that function succeeds are parameters.
\<close>

section \<open>The scheduler\<close>

record 'k sched_slot =
  allocated :: bool
  driver_active :: bool
  driver_started :: bool
  lane_waiting :: bool
  submission_sequence :: u64
  resource_key :: "'k option"

definition future_lane_in_use :: "'k sched_slot list \<Rightarrow> nat \<Rightarrow> bool" where
  "future_lane_in_use slots c \<longleftrightarrow>
     c < length slots \<and> resource_key (slots ! c) \<noteq> None \<and>
     list_ex (\<lambda>i. i \<noteq> c \<and> allocated (slots ! i) \<and> driver_active (slots ! i) \<and> driver_started (slots ! i) \<and>
       resource_key (slots ! i) = resource_key (slots ! c)) [0..<length slots]"

definition future_lane_waiter_count :: "'k sched_slot list \<Rightarrow> nat \<Rightarrow> nat" where
  "future_lane_waiter_count slots c =
     (if c \<ge> length slots \<or> resource_key (slots ! c) = None then 0
      else length (filter (\<lambda>i. i \<noteq> c \<and> allocated (slots ! i) \<and> driver_active (slots ! i) \<and> lane_waiting (slots ! i) \<and>
        resource_key (slots ! i) = resource_key (slots ! c)) [0..<length slots]))"

definition future_find_free :: "'k sched_slot list \<Rightarrow> nat \<Rightarrow> bool \<Rightarrow> nat option" where
  "future_find_free slots user_capacity internal =
     (if user_capacity > length slots then None
      else let free = (\<lambda>i. \<not> allocated (slots ! i));
               reserve = (if internal then find free [user_capacity..<length slots] else None)
        in case reserve of Some i \<Rightarrow> Some i | None \<Rightarrow> find free [0..<user_capacity])"

datatype lane_admission = LANE_START | LANE_WAIT | LANE_REJECT

definition future_lane_admission :: "'k sched_slot list \<Rightarrow> nat \<Rightarrow> nat \<Rightarrow> lane_admission" where
  "future_lane_admission slots c waiter_limit =
     (if c \<ge> length slots then LANE_REJECT
      else if resource_key (slots ! c) = None then LANE_START
      else let waiter_count = future_lane_waiter_count slots c
        in if \<not> future_lane_in_use slots c \<and> waiter_count = 0 then LANE_START
           else if waiter_count \<ge> waiter_limit then LANE_REJECT else LANE_WAIT)"

definition lane_eligible :: "'k sched_slot list \<Rightarrow> nat \<Rightarrow> bool" where
  "lane_eligible slots i \<longleftrightarrow> allocated (slots ! i) \<and> driver_active (slots ! i) \<and> lane_waiting (slots ! i) \<and>
     \<not> future_lane_in_use slots i"

fun next_waiting_from :: "'k sched_slot list \<Rightarrow> nat list \<Rightarrow> nat option \<Rightarrow> nat option" where
  "next_waiting_from slots [] candidate = candidate"
| "next_waiting_from slots (i # is) candidate =
     (if \<not> lane_eligible slots i then next_waiting_from slots is candidate
      else next_waiting_from slots is
        (case candidate of
           None \<Rightarrow> Some i
         | Some c \<Rightarrow> if submission_sequence (slots ! i) < submission_sequence (slots ! c) then Some i else Some c))"

definition future_next_waiting :: "'k sched_slot list \<Rightarrow> nat option" where
  "future_next_waiting slots = next_waiting_from slots [0..<length slots] None"

definition future_teardown_must_wait :: "bool \<Rightarrow> bool \<Rightarrow> bool \<Rightarrow> bool" where
  "future_teardown_must_wait active poll_available driver_ready \<longleftrightarrow>
     active \<and> (\<not> poll_available \<or> \<not> driver_ready)"

definition future_elapsed_timeout_ms :: "u64 \<Rightarrow> u64 \<Rightarrow> u32" where
  "future_elapsed_timeout_ms submitted_us deadline_us =
     (if deadline_us \<le> submitted_us then 0
      else let duration_ms = (deadline_us - submitted_us) div 1000
        in if duration_ms > 0xFFFFFFFF then 0xFFFFFFFF else ucast duration_ms)"

section \<open>The slots of the runtime\<close>

datatype future_state = STATE_QUEUED | STATE_PENDING | STATE_FULFILLED | STATE_REJECTED | STATE_CANCELLED

record 'k future_slot = "'k sched_slot" +
  fs_state :: future_state
  startable :: bool

record 'k future_runtime =
  fr_slots :: "'k future_slot list"
  next_submission_sequence :: u64

definition future_snapshot :: "'k future_slot list \<Rightarrow> 'k sched_slot list" where
  "future_snapshot slots = map sched_slot.truncate slots"

definition future_is_terminal :: "future_state \<Rightarrow> bool" where
  "future_is_terminal st \<longleftrightarrow> st = STATE_FULFILLED \<or> st = STATE_REJECTED \<or> st = STATE_CANCELLED"

definition future_destroy_driver :: "'k future_slot \<Rightarrow> 'k future_slot" where
  "future_destroy_driver s =
     (if \<not> driver_active s then s
      else s\<lparr>driver_active := False, driver_started := False, lane_waiting := False, resource_key := None, startable := False\<rparr>)"

text \<open>The empty slot; \<open>memset\<close> leaves the state 0, which is \<open>QUEUED\<close>.\<close>

definition cleared_slot :: "'k future_slot" where
  "cleared_slot = \<lparr>allocated = False, driver_active = False, driver_started = False, lane_waiting = False,
     submission_sequence = 0, resource_key = None, fs_state = STATE_QUEUED, startable = False\<rparr>"

definition future_clear_slot :: "'k future_slot \<Rightarrow> 'k future_slot" where
  "future_clear_slot s = (if \<not> allocated s then s else cleared_slot)"

definition future_release_if_terminal :: "'k future_slot \<Rightarrow> 'k future_slot" where
  "future_release_if_terminal s =
     (if \<not> allocated s \<or> \<not> future_is_terminal (fs_state s) \<or> driver_active s then s else future_clear_slot s)"

definition future_settle :: "future_state \<Rightarrow> 'k future_slot \<Rightarrow> 'k future_slot" where
  "future_settle st s =
     (if \<not> allocated s \<or> future_is_terminal (fs_state s) then s
      else future_release_if_terminal (s\<lparr>fs_state := st\<rparr>))"

definition future_allocate_slot :: "nat \<Rightarrow> bool \<Rightarrow> 'k future_runtime \<Rightarrow> (nat \<times> 'k future_runtime) option" where
  "future_allocate_slot user_capacity internal r =
     (case future_find_free (future_snapshot (fr_slots r)) user_capacity internal of
        None \<Rightarrow> None
      | Some i \<Rightarrow>
          let number = next_submission_sequence r + 1
          in Some (i, r\<lparr>fr_slots := (fr_slots r)[i := (fr_slots r ! i)\<lparr>allocated := True, fs_state := STATE_QUEUED,
               submission_sequence := number\<rparr>], next_submission_sequence := number\<rparr>))"

text \<open>The part of \<open>future_capture_call_driver\<close> after a successful capture.\<close>

definition future_capture_driver :: "'k option \<Rightarrow> bool \<Rightarrow> 'k future_slot \<Rightarrow> 'k future_slot" where
  "future_capture_driver key can_start s = s\<lparr>driver_active := True, resource_key := key, startable := can_start\<rparr>"

text \<open>\<open>started\<close> is the result of the driver's start function.\<close>

definition future_start_captured_driver :: "bool \<Rightarrow> 'k future_slot \<Rightarrow> bool \<times> 'k future_slot" where
  "future_start_captured_driver started s =
     (if fs_state s \<noteq> STATE_QUEUED \<or> \<not> driver_active s \<or> \<not> startable s then (False, s)
      else let s = s\<lparr>lane_waiting := False, driver_started := True, fs_state := STATE_PENDING\<rparr>
        in (True, if started then s
                  else future_release_if_terminal (future_destroy_driver (future_settle STATE_REJECTED s))))"

definition future_fail_driver :: "'k future_slot \<Rightarrow> 'k future_slot" where
  "future_fail_driver s = future_release_if_terminal (future_destroy_driver (future_settle STATE_REJECTED s))"

text \<open>The branch of \<open>future_dispatch_call\<close> for a slot with a native driver.\<close>

definition future_dispatch_driver :: "nat \<Rightarrow> bool \<Rightarrow> nat \<Rightarrow> 'k future_slot list \<Rightarrow> 'k future_slot list" where
  "future_dispatch_driver waiter_limit started i slots =
     (let s = slots ! i
      in if fs_state s \<noteq> STATE_QUEUED then slots
         else if \<not> driver_active s \<or> \<not> startable s then slots[i := future_fail_driver s]
         else (case future_lane_admission (future_snapshot slots) i waiter_limit of
             LANE_REJECT \<Rightarrow> slots[i := future_fail_driver s]
           | LANE_WAIT \<Rightarrow> slots[i := s\<lparr>lane_waiting := True\<rparr>]
           | LANE_START \<Rightarrow>
               (let (ok, s') = future_start_captured_driver started s
                in if ok then slots[i := s'] else slots[i := future_fail_driver s'])))"

definition future_cancel_queued :: "'k future_slot \<Rightarrow> 'k future_slot" where
  "future_cancel_queued s =
     (if future_is_terminal (fs_state s) \<or> fs_state s \<noteq> STATE_QUEUED then s
      else future_settle STATE_CANCELLED (future_destroy_driver s))"

definition waiting_total :: "'k future_slot list \<Rightarrow> nat" where
  "waiting_total slots = length (filter lane_waiting slots)"

lemma truncate_simps [simp]:
  "allocated (sched_slot.truncate s) = allocated s" "driver_active (sched_slot.truncate s) = driver_active s"
  "driver_started (sched_slot.truncate s) = driver_started s" "lane_waiting (sched_slot.truncate s) = lane_waiting s"
  "submission_sequence (sched_slot.truncate s) = submission_sequence s" "resource_key (sched_slot.truncate s) = resource_key s"
  by (simp_all add: sched_slot.truncate_def)

lemma snapshot_simps [simp]:
  "length (future_snapshot slots) = length slots"
  "i < length slots \<Longrightarrow> future_snapshot slots ! i = sched_slot.truncate (slots ! i)"
  by (simp_all add: future_snapshot_def)

text \<open>What the search for the next waiting driver returns.\<close>

lemma next_waiting_from_spec:
  assumes "\<forall>i \<in> set is. i < n" "\<forall>c. candidate = Some c \<longrightarrow> lane_eligible slots c \<and> c < n"
  shows "(case next_waiting_from slots is candidate of
      None \<Rightarrow> candidate = None \<and> (\<forall>i \<in> set is. \<not> lane_eligible slots i)
    | Some c \<Rightarrow> lane_eligible slots c \<and> c < n \<and>
        (\<forall>i \<in> set is \<union> set_option candidate. lane_eligible slots i \<longrightarrow> submission_sequence (slots ! c) \<le> submission_sequence (slots ! i)))"
  using assms
proof (induction "is" arbitrary: candidate)
  case Nil
  then show ?case by (auto split: option.split)
next
  case (Cons i js)
  show ?case
  proof (cases "lane_eligible slots i")
    case False
    then show ?thesis using Cons.IH [of candidate] Cons.prems by (auto split: option.split)
  next
    case True
    define d where "d = (case candidate of None \<Rightarrow> i
      | Some c \<Rightarrow> if submission_sequence (slots ! i) < submission_sequence (slots ! c) then i else c)"
    have d: "lane_eligible slots d" "d < n" "submission_sequence (slots ! d) \<le> submission_sequence (slots ! i)"
      "\<forall>c. candidate = Some c \<longrightarrow> submission_sequence (slots ! d) \<le> submission_sequence (slots ! c)"
      using True Cons.prems by (auto simp: d_def split: option.splits)
    have run: "next_waiting_from slots (i # js) candidate = next_waiting_from slots js (Some d)"
      using True by (simp add: d_def split: option.split)
    show ?thesis
      using Cons.IH [of "Some d"] Cons.prems d unfolding run by (auto split: option.split)
  qed
qed

lemma next_waiting_spec:
  "future_next_waiting slots = None \<longleftrightarrow> (\<forall>i < length slots. \<not> lane_eligible slots i)"
  "future_next_waiting slots = Some c \<Longrightarrow> lane_eligible slots c \<and> c < length slots \<and>
     (\<forall>i < length slots. lane_eligible slots i \<longrightarrow> submission_sequence (slots ! c) \<le> submission_sequence (slots ! i))"
  using next_waiting_from_spec [of "[0..<length slots]" "length slots" None slots]
  by (auto simp: future_next_waiting_def split: option.splits)

lemma next_waiting_snapshot:
  "future_next_waiting (future_snapshot slots) = Some c \<Longrightarrow> c < length slots \<and> lane_waiting (slots ! c) \<and>
     allocated (slots ! c) \<and> driver_active (slots ! c) \<and> \<not> future_lane_in_use (future_snapshot slots) c"
  using next_waiting_spec(2) [of "future_snapshot slots" c] by (auto simp: lane_eligible_def)

lemma waiting_total_clear:
  assumes "c < length slots" "lane_waiting (slots ! c)" "\<not> lane_waiting s"
  shows "waiting_total (slots[c := s]) < waiting_total slots"
proof -
  have "waiting_total slots = waiting_total (take c slots @ slots ! c # drop (Suc c) slots)"
    using assms(1) by (simp flip: id_take_nth_drop)
  moreover have "waiting_total (slots[c := s]) = waiting_total (take c slots @ s # drop (Suc c) slots)"
    using assms(1) by (simp add: upd_conv_take_nth_drop)
  ultimately show ?thesis using assms(2,3) by (simp add: waiting_total_def)
qed

lemmas slot_ops = future_start_captured_driver_def future_release_if_terminal_def future_destroy_driver_def
  future_settle_def future_fail_driver_def future_clear_slot_def future_cancel_queued_def cleared_slot_def

lemma start_not_waiting:
  "future_start_captured_driver started s = (ok, s') \<Longrightarrow> s' = s \<or> \<not> lane_waiting s'"
  by (auto simp: slot_ops Let_def future_is_terminal_def split: if_splits)

function future_dispatch_waiting_lanes ::
  "nat \<Rightarrow> (nat \<Rightarrow> bool) \<Rightarrow> nat \<Rightarrow> bool \<Rightarrow> 'k future_slot list \<Rightarrow> bool \<times> 'k future_slot list" where
  "future_dispatch_waiting_lanes batch started dispatched handled slots =
     (if \<not> dispatched < batch then (handled, slots)
      else (case future_next_waiting (future_snapshot slots) of
          None \<Rightarrow> (handled, slots)
        | Some c \<Rightarrow>
            if fs_state (slots ! c) \<noteq> STATE_QUEUED
            then future_dispatch_waiting_lanes batch started dispatched handled (slots[c := (slots ! c)\<lparr>lane_waiting := False\<rparr>])
            else let (ok, s) = future_start_captured_driver (started c) (slots ! c)
              in future_dispatch_waiting_lanes batch started (dispatched + 1) (ok \<or> handled) (slots[c := s])))"
  by pat_completeness auto
termination
proof (relation "measure (\<lambda>(batch, started, dispatched, handled, slots). waiting_total slots + (batch - dispatched))")
  fix batch dispatched c :: nat and started :: "nat \<Rightarrow> bool" and handled :: bool and slots :: "'k future_slot list"
  assume next_slot: "future_next_waiting (future_snapshot slots) = Some c" and more: "\<not> \<not> dispatched < batch"
  note c = next_waiting_snapshot [OF next_slot]
  show "((batch, started, dispatched, handled, slots[c := (slots ! c)\<lparr>lane_waiting := False\<rparr>]), batch, started, dispatched, handled, slots)
      \<in> measure (\<lambda>(batch, started, dispatched, handled, slots). waiting_total slots + (batch - dispatched))"
    using waiting_total_clear [of c slots "(slots ! c)\<lparr>lane_waiting := False\<rparr>"] c by simp
  fix x ok s
  assume "x = future_start_captured_driver (started c) (slots ! c)" "(ok, s) = x"
  then have "s = slots ! c \<or> \<not> lane_waiting s" using start_not_waiting [of "started c" "slots ! c" ok s] by simp
  then have "waiting_total (slots[c := s]) \<le> waiting_total slots"
    using waiting_total_clear [of c slots s] c by (auto simp: list_update_id)
  then show "((batch, started, dispatched + 1, ok \<or> handled, slots[c := s]), batch, started, dispatched, handled, slots)
      \<in> measure (\<lambda>(batch, started, dispatched, handled, slots). waiting_total slots + (batch - dispatched))"
    using more by auto
qed simp

declare future_dispatch_waiting_lanes.simps [simp del]

section \<open>The steps of the runtime\<close>

text \<open>
  The steps that change the slots' drivers: a slot is allocated, a driver is captured, a queued
  driver is dispatched, a batch of waiting drivers is started, a driver finishes or is destroyed
  (its slot is settled, before or after), and a queued future is cancelled.
\<close>

definition with_slot :: "nat \<Rightarrow> ('k future_slot \<Rightarrow> 'k future_slot) \<Rightarrow> 'k future_slot list \<Rightarrow> 'k future_slot list" where
  "with_slot i f slots = slots[i := f (slots ! i)]"

inductive lane_step :: "nat \<Rightarrow> nat \<Rightarrow> nat \<Rightarrow> 'k future_runtime \<Rightarrow> 'k future_runtime \<Rightarrow> bool"
  for user_capacity waiter_limit batch where
  lane_allocate: "future_allocate_slot user_capacity internal r = Some (i, r') \<Longrightarrow>
    lane_step user_capacity waiter_limit batch r r'"
| lane_capture: "i < length (fr_slots r) \<Longrightarrow> allocated (fr_slots r ! i) \<Longrightarrow> \<not> driver_active (fr_slots r ! i) \<Longrightarrow>
    lane_step user_capacity waiter_limit batch r (r\<lparr>fr_slots := with_slot i (future_capture_driver key can_start) (fr_slots r)\<rparr>)"
| lane_dispatch: "i < length (fr_slots r) \<Longrightarrow> allocated (fr_slots r ! i) \<Longrightarrow>
    lane_step user_capacity waiter_limit batch r (r\<lparr>fr_slots := future_dispatch_driver waiter_limit started i (fr_slots r)\<rparr>)"
| lane_batch: "lane_step user_capacity waiter_limit batch r
    (r\<lparr>fr_slots := snd (future_dispatch_waiting_lanes batch starts 0 False (fr_slots r))\<rparr>)"
| lane_finish: "i < length (fr_slots r) \<Longrightarrow> future_is_terminal st \<Longrightarrow>
    lane_step user_capacity waiter_limit batch r (r\<lparr>fr_slots := with_slot i (future_settle st \<circ> future_destroy_driver) (fr_slots r)\<rparr>)"
| lane_settle: "i < length (fr_slots r) \<Longrightarrow> future_is_terminal st \<Longrightarrow>
    lane_step user_capacity waiter_limit batch r (r\<lparr>fr_slots := with_slot i (future_settle st) (fr_slots r)\<rparr>)"
| lane_destroy: "i < length (fr_slots r) \<Longrightarrow>
    lane_step user_capacity waiter_limit batch r
      (r\<lparr>fr_slots := with_slot i (future_release_if_terminal \<circ> future_destroy_driver) (fr_slots r)\<rparr>)"
| lane_cancel: "i < length (fr_slots r) \<Longrightarrow>
    lane_step user_capacity waiter_limit batch r (r\<lparr>fr_slots := with_slot i future_cancel_queued (fr_slots r)\<rparr>)"

definition future_runtime_init :: "nat \<Rightarrow> 'k future_runtime" where
  "future_runtime_init n = \<lparr>fr_slots = replicate n cleared_slot, next_submission_sequence = 0\<rparr>"

section \<open>The invariant\<close>

definition slot_ok :: "'k future_slot \<Rightarrow> bool" where
  "slot_ok s \<longleftrightarrow> (\<not> allocated s \<longrightarrow> \<not> driver_active s) \<and>
     (\<not> driver_active s \<longrightarrow> \<not> driver_started s \<and> \<not> lane_waiting s \<and> resource_key s = None) \<and>
     (lane_waiting s \<longrightarrow> startable s \<and> \<not> driver_started s) \<and> (driver_started s \<longrightarrow> fs_state s \<noteq> STATE_QUEUED)"

definition lane_free :: "nat \<Rightarrow> 'k option \<Rightarrow> 'k future_slot list \<Rightarrow> bool" where
  "lane_free i key slots \<longleftrightarrow> (\<forall>j < length slots. j \<noteq> i \<longrightarrow> driver_started (slots ! j) \<longrightarrow> key = None \<or> resource_key (slots ! j) \<noteq> key)"

definition lanes_ok :: "'k future_slot list \<Rightarrow> bool" where
  "lanes_ok slots \<longleftrightarrow> (\<forall>i < length slots. slot_ok (slots ! i)) \<and>
     (\<forall>i < length slots. driver_started (slots ! i) \<longrightarrow> lane_free i (resource_key (slots ! i)) slots)"

lemma lanes_ok_update:
  assumes "lanes_ok slots" "i < length slots" "slot_ok s" "driver_started s \<Longrightarrow> lane_free i (resource_key s) slots"
  shows "lanes_ok (slots[i := s])"
  using assms unfolding lanes_ok_def lane_free_def
  by (auto simp: nth_list_update)

lemma lanes_ok_quiet: "lanes_ok slots \<Longrightarrow> i < length slots \<Longrightarrow> slot_ok s \<Longrightarrow>
    (driver_started s \<Longrightarrow> driver_started (slots ! i) \<and> resource_key s = resource_key (slots ! i)) \<Longrightarrow> lanes_ok (slots[i := s])"
  by (rule lanes_ok_update) (auto simp: lanes_ok_def)

lemma not_in_use_free:
  assumes "lanes_ok slots" "c < length slots" "\<not> future_lane_in_use (future_snapshot slots) c"
  shows "lane_free c (resource_key (slots ! c)) slots"
  unfolding lane_free_def
proof (intro allI impI)
  fix j assume j: "j < length slots" "j \<noteq> c" "driver_started (slots ! j)"
  then have "slot_ok (slots ! j)" using assms(1) by (simp add: lanes_ok_def)
  then have "allocated (slots ! j)" "driver_active (slots ! j)" using j(3) by (auto simp: slot_ok_def)
  then show "resource_key (slots ! c) = None \<or> resource_key (slots ! j) \<noteq> resource_key (slots ! c)"
    using assms(2,3) j by (auto simp: future_lane_in_use_def list_ex_iff)
qed

text \<open>What the operations on one slot do.\<close>

lemma slot_ok_ops:
  assumes "slot_ok s"
  shows "future_is_terminal st \<Longrightarrow> slot_ok (future_settle st s)" "slot_ok (future_destroy_driver s)" "slot_ok (future_release_if_terminal s)"
    "slot_ok (future_cancel_queued s)" "slot_ok (s\<lparr>lane_waiting := False\<rparr>)"
  using assms by (auto simp: slot_ok_def slot_ops future_is_terminal_def)

lemma destroy_not_started: "slot_ok s \<Longrightarrow> \<not> driver_started (future_destroy_driver s)"
  by (auto simp: slot_ok_def slot_ops)

lemma started_kept:
  "driver_started (future_settle st s) \<Longrightarrow> driver_started s \<and> resource_key (future_settle st s) = resource_key s"
  "driver_started (future_release_if_terminal s) \<Longrightarrow> driver_started s \<and> resource_key (future_release_if_terminal s) = resource_key s"
  by (auto simp: slot_ops split: if_splits)

lemma cancel_not_started: "slot_ok s \<Longrightarrow> driver_started (future_cancel_queued s) \<Longrightarrow>
    driver_started s \<and> resource_key (future_cancel_queued s) = resource_key s"
  using started_kept(1) destroy_not_started by (fastforce simp: future_cancel_queued_def split: if_splits)

lemma fail_slot:
  assumes "slot_ok s"
  shows "slot_ok (future_fail_driver s)" "\<not> driver_started (future_fail_driver s)"
proof -
  have "slot_ok (future_settle STATE_REJECTED s)" using assms by (simp add: slot_ok_ops(1) future_is_terminal_def)
  then have "slot_ok (future_destroy_driver (future_settle STATE_REJECTED s))"
    "\<not> driver_started (future_destroy_driver (future_settle STATE_REJECTED s))"
    by (rule slot_ok_ops, rule destroy_not_started)
  then show "slot_ok (future_fail_driver s)" "\<not> driver_started (future_fail_driver s)"
    using slot_ok_ops(3) started_kept(2) unfolding future_fail_driver_def by blast+
qed

lemma start_slot:
  assumes "slot_ok s" "allocated s" "future_start_captured_driver started s = (ok, s')"
  shows "slot_ok s'" "driver_started s' \<Longrightarrow> resource_key s' = resource_key s"
proof -
  define p where "p = s\<lparr>lane_waiting := False, driver_started := True, fs_state := STATE_PENDING\<rparr>"
  have cases: "s' = s \<or> (driver_active s \<and> (s' = p \<or> s' = future_fail_driver p))"
    using assms(3) by (auto simp: future_start_captured_driver_def Let_def p_def future_fail_driver_def split: if_splits)
  have p: "slot_ok p" if "driver_active s" using assms(1,2) that by (auto simp: p_def slot_ok_def)
  show "slot_ok s'" using cases assms(1) p fail_slot(1) by blast
  show "driver_started s' \<Longrightarrow> resource_key s' = resource_key s" using cases p fail_slot(2) by (auto simp: p_def)
qed

lemma start_lanes_ok:
  assumes "lanes_ok slots" "c < length slots" "allocated (slots ! c)" "\<not> future_lane_in_use (future_snapshot slots) c"
    "future_start_captured_driver started (slots ! c) = (ok, s')"
  shows "lanes_ok (slots[c := s'])"
proof (rule lanes_ok_update [OF assms(1,2)])
  have ok: "slot_ok (slots ! c)" using assms(1,2) by (simp add: lanes_ok_def)
  show "slot_ok s'" by (rule start_slot(1) [OF ok assms(3,5)])
  show "lane_free c (resource_key s') slots" if "driver_started s'"
    using start_slot(2) [OF ok assms(3,5) that] not_in_use_free [OF assms(1,2,4)] by simp
qed

lemma batch_lanes_ok:
  "lanes_ok slots \<Longrightarrow> lanes_ok (snd (future_dispatch_waiting_lanes batch starts dispatched handled slots)) \<and>
     length (snd (future_dispatch_waiting_lanes batch starts dispatched handled slots)) = length slots"
proof (induction batch starts dispatched handled slots rule: future_dispatch_waiting_lanes.induct)
  case (1 batch starts dispatched handled slots)
  show ?case
  proof (cases "dispatched < batch")
    case False
    then show ?thesis using 1(3) by (subst (1 2) future_dispatch_waiting_lanes.simps) simp
  next
    case True
    show ?thesis
    proof (cases "future_next_waiting (future_snapshot slots)")
      case None
      then show ?thesis using 1(3) True
        by (simp add: future_dispatch_waiting_lanes.simps [of batch starts dispatched handled slots])
    next
      case (Some c)
      note c = next_waiting_snapshot [OF Some]
      obtain ok s where start: "future_start_captured_driver (starts c) (slots ! c) = (ok, s)"
        by (cases "future_start_captured_driver (starts c) (slots ! c)")
      have cleared: "lanes_ok (slots[c := (slots ! c)\<lparr>lane_waiting := False\<rparr>])"
        using 1(3) c by (intro lanes_ok_quiet) (auto simp: lanes_ok_def slot_ok_ops)
      have run: "lanes_ok (slots[c := s])"
        using start_lanes_ok [OF 1(3) _ _ _ start] c by blast
      show ?thesis
        using 1(1) [OF _ Some] 1(2) [OF _ Some _ start [symmetric]] True Some cleared run start
        by (simp add: future_dispatch_waiting_lanes.simps [of batch starts dispatched handled slots])
    qed
  qed
qed

lemma dispatch_lanes_ok:
  assumes "lanes_ok slots" "i < length slots" "allocated (slots ! i)"
  shows "lanes_ok (future_dispatch_driver waiter_limit started i slots)"
proof -
  have ok: "slot_ok (slots ! i)" using assms(1,2) by (simp add: lanes_ok_def)
  note fail = lanes_ok_quiet [OF assms(1,2) fail_slot(1) [OF ok]]
  show ?thesis
  proof (cases "fs_state (slots ! i) \<noteq> STATE_QUEUED \<or> \<not> driver_active (slots ! i) \<or> \<not> startable (slots ! i)")
    case True
    then show ?thesis using assms(1) fail fail_slot(2) [OF ok] by (auto simp: future_dispatch_driver_def Let_def)
  next
    case False
    show ?thesis
    proof (cases "future_lane_admission (future_snapshot slots) i waiter_limit")
      case LANE_REJECT
      then show ?thesis using False fail fail_slot(2) [OF ok] by (simp add: future_dispatch_driver_def Let_def)
    next
      case LANE_WAIT
      have "\<not> driver_started (slots ! i)" using ok False by (auto simp: slot_ok_def)
      then have "lanes_ok (slots[i := (slots ! i)\<lparr>lane_waiting := True\<rparr>])"
        using ok False by (intro lanes_ok_quiet [OF assms(1,2)]) (auto simp: slot_ok_def)
      then show ?thesis using LANE_WAIT False by (simp add: future_dispatch_driver_def Let_def)
    next
      case LANE_START
      then have free: "\<not> future_lane_in_use (future_snapshot slots) i"
        by (auto simp: future_lane_admission_def future_lane_in_use_def Let_def split: if_splits)
      obtain ok' s where start: "future_start_captured_driver started (slots ! i) = (ok', s)"
        by (cases "future_start_captured_driver started (slots ! i)")
      have "ok'" using False start by (auto simp: future_start_captured_driver_def Let_def split: if_splits)
      then show ?thesis
        using LANE_START False start start_lanes_ok [OF assms free start] by (simp add: future_dispatch_driver_def Let_def)
    qed
  qed
qed

lemma lane_step_ok:
  assumes "lane_step user_capacity waiter_limit batch r r'" "lanes_ok (fr_slots r)"
  shows "lanes_ok (fr_slots r') \<and> length (fr_slots r') = length (fr_slots r)"
proof -
  have slot: "slot_ok (fr_slots r ! i)" if "i < length (fr_slots r)" for i using assms(2) that by (simp add: lanes_ok_def)
  note quiet = lanes_ok_quiet [OF assms(2)]
  from assms(1) show ?thesis
  proof (cases rule: lane_step.cases)
    case (lane_allocate internal i)
    then have i: "i < length (fr_slots r)" "\<not> allocated (fr_slots r ! i)"
      by (auto simp: future_allocate_slot_def future_find_free_def Let_def find_Some_iff split: if_splits option.splits)
    have "slot_ok ((fr_slots r ! i)\<lparr>allocated := True, fs_state := STATE_QUEUED, submission_sequence := n\<rparr>)" for n
      using slot [OF i(1)] i(2) by (auto simp: slot_ok_def)
    then have "lanes_ok ((fr_slots r)[i := (fr_slots r ! i)\<lparr>allocated := True, fs_state := STATE_QUEUED,
        submission_sequence := n\<rparr>])" for n
      by (rule quiet [OF i(1)]) simp
    then show ?thesis using lane_allocate by (auto simp: future_allocate_slot_def Let_def split: option.splits)
  next
    case (lane_capture i key can_start)
    have "slot_ok (future_capture_driver key can_start (fr_slots r ! i))"
      using slot [OF lane_capture(2)] lane_capture(3,4) by (auto simp: slot_ok_def future_capture_driver_def)
    moreover have "\<not> driver_started (future_capture_driver key can_start (fr_slots r ! i))"
      using slot [OF lane_capture(2)] lane_capture(4) by (simp add: slot_ok_def future_capture_driver_def)
    ultimately have "lanes_ok (with_slot i (future_capture_driver key can_start) (fr_slots r))"
      unfolding with_slot_def using quiet [OF lane_capture(2)] by blast
    then show ?thesis unfolding lane_capture(1) by (simp add: with_slot_def)
  next
    case (lane_dispatch i started)
    then show ?thesis using dispatch_lanes_ok [OF assms(2)]
      by (simp add: future_dispatch_driver_def Let_def split: lane_admission.split prod.split)
  next
    case (lane_batch starts)
    then show ?thesis using batch_lanes_ok [OF assms(2)] by simp
  next
    case (lane_finish i st)
    note ok = slot_ok_ops(2) [OF slot [OF lane_finish(2)]]
    have "\<not> driver_started (future_settle st (future_destroy_driver (fr_slots r ! i)))"
      using started_kept(1) destroy_not_started [OF slot [OF lane_finish(2)]] by blast
    then show ?thesis
      using quiet [OF lane_finish(2) slot_ok_ops(1) [OF ok lane_finish(3)]] unfolding lane_finish(1) by (simp add: with_slot_def)
  next
    case (lane_settle i st)
    have "lanes_ok (with_slot i (future_settle st) (fr_slots r))"
      using quiet [OF lane_settle(2) slot_ok_ops(1) [OF slot [OF lane_settle(2)] lane_settle(3)]] started_kept(1)
      unfolding with_slot_def by blast
    then show ?thesis unfolding lane_settle(1) by (simp add: with_slot_def)
  next
    case (lane_destroy i)
    have "\<not> driver_started (future_release_if_terminal (future_destroy_driver (fr_slots r ! i)))"
      using started_kept(2) destroy_not_started [OF slot [OF lane_destroy(2)]] by blast
    then show ?thesis
      using quiet [OF lane_destroy(2) slot_ok_ops(3) [OF slot_ok_ops(2) [OF slot [OF lane_destroy(2)]]]]
      unfolding lane_destroy(1) by (simp add: with_slot_def)
  next
    case (lane_cancel i)
    show ?thesis
      using quiet [OF lane_cancel(2) slot_ok_ops(4) [OF slot [OF lane_cancel(2)]]] cancel_not_started [OF slot [OF lane_cancel(2)]]
      unfolding lane_cancel(1) by (simp add: with_slot_def)
  qed
qed

lemma lanes_ok_reachable:
  assumes "(lane_step user_capacity waiter_limit batch)\<^sup>*\<^sup>* (future_runtime_init n) r"
  shows "lanes_ok (fr_slots r)"
  using assms
proof (induction rule: rtranclp_induct)
  case base
  then show ?case by (simp add: future_runtime_init_def lanes_ok_def slot_ok_def cleared_slot_def)
qed (use lane_step_ok in blast)

text \<open>A batch that is large enough leaves no driver waiting for a free lane.\<close>

lemma batch_leaves_none:
  "lanes_ok slots \<Longrightarrow> waiting_total slots + dispatched \<le> batch \<Longrightarrow>
   future_next_waiting (future_snapshot (snd (future_dispatch_waiting_lanes batch starts dispatched handled slots))) = None"
proof (induction batch starts dispatched handled slots rule: future_dispatch_waiting_lanes.induct)
  case (1 batch starts dispatched handled slots)
  note unfold = future_dispatch_waiting_lanes.simps [of batch starts dispatched handled slots]
  show ?case
  proof (cases "future_next_waiting (future_snapshot slots)")
    case None
    then show ?thesis by (simp add: unfold)
  next
    case (Some c)
    note c = next_waiting_snapshot [OF Some]
    have "waiting_total slots > 0"
      using c by (metis waiting_total_clear not_less_zero sched_slot.select_convs(4) gr0I sched_slot.surjective sched_slot.update_convs(4))
    then have go: "dispatched < batch" using 1(4) by simp
    obtain ok s where start: "future_start_captured_driver (starts c) (slots ! c) = (ok, s)"
      by (cases "future_start_captured_driver (starts c) (slots ! c)")
    have slot: "slot_ok (slots ! c)" using 1(3) c by (simp add: lanes_ok_def)
    show ?thesis
    proof (cases "fs_state (slots ! c) = STATE_QUEUED")
      case False
      have "lanes_ok (slots[c := (slots ! c)\<lparr>lane_waiting := False\<rparr>])"
        using 1(3) c by (intro lanes_ok_quiet) (auto simp: lanes_ok_def slot_ok_ops)
      moreover have "waiting_total (slots[c := (slots ! c)\<lparr>lane_waiting := False\<rparr>]) + dispatched \<le> batch"
        using waiting_total_clear [of c slots "(slots ! c)\<lparr>lane_waiting := False\<rparr>"] c 1(4) by simp
      ultimately show ?thesis using 1(1) [OF _ Some False] go Some False by (simp add: unfold)
    next
      case True
      have "startable (slots ! c)" "driver_active (slots ! c)" using slot c by (auto simp: slot_ok_def)
      then have "\<not> lane_waiting s"
        using start True c by (auto simp: future_start_captured_driver_def slot_ops Let_def future_is_terminal_def split: if_splits)
      then have "waiting_total (slots[c := s]) + (dispatched + 1) \<le> batch"
        using waiting_total_clear [of c slots s] c 1(4) by simp
      moreover have "lanes_ok (slots[c := s])" using start_lanes_ok [OF 1(3) _ _ _ start] c by blast
      ultimately show ?thesis using 1(2) [OF _ Some _ start [symmetric] refl] go Some True start by (simp add: unfold)
    qed
  qed
qed

text \<open>A run of two futures for the resource 7: the first is started, the second waits.\<close>

definition lane_demo :: "nat future_runtime" where
  "lane_demo = \<lparr>fr_slots =
     [\<lparr>allocated = True, driver_active = True, driver_started = True, lane_waiting = False, submission_sequence = 1,
       resource_key = Some 7, fs_state = STATE_PENDING, startable = True\<rparr>,
      \<lparr>allocated = True, driver_active = True, driver_started = False, lane_waiting = True, submission_sequence = 2,
       resource_key = Some 7, fs_state = STATE_QUEUED, startable = True\<rparr>], next_submission_sequence = 2\<rparr>"

lemma lane_demo_reachable: "(lane_step 2 1 1)\<^sup>*\<^sup>* (future_runtime_init 2) lane_demo"
proof -
  note step = rtranclp.rtrancl_into_rtrancl
  define r1 :: "nat future_runtime" where "r1 = snd (the (future_allocate_slot 2 False (future_runtime_init 2)))"
  define r2 where "r2 = r1\<lparr>fr_slots := with_slot 0 (future_capture_driver (Some 7) True) (fr_slots r1)\<rparr>"
  define r3 where "r3 = r2\<lparr>fr_slots := future_dispatch_driver 1 True 0 (fr_slots r2)\<rparr>"
  define r4 where "r4 = snd (the (future_allocate_slot 2 False r3))"
  define r5 where "r5 = r4\<lparr>fr_slots := with_slot 1 (future_capture_driver (Some 7) True) (fr_slots r4)\<rparr>"
  define r6 where "r6 = r5\<lparr>fr_slots := future_dispatch_driver 1 True 1 (fr_slots r5)\<rparr>"
  note defs = r1_def r2_def r3_def r4_def r5_def r6_def
  have alloc1: "future_allocate_slot 2 False (future_runtime_init 2) = Some (0, r1)" unfolding defs by code_simp
  have alloc2: "future_allocate_slot 2 False r3 = Some (1, r4)" unfolding defs by code_simp
  have shape1: "0 < length (fr_slots r1)" "allocated (fr_slots r1 ! 0)" "\<not> driver_active (fr_slots r1 ! 0)" unfolding defs by code_simp+
  have shape2: "0 < length (fr_slots r2)" "allocated (fr_slots r2 ! 0)" unfolding defs by code_simp+
  have shape4: "1 < length (fr_slots r4)" "allocated (fr_slots r4 ! 1)" "\<not> driver_active (fr_slots r4 ! 1)" unfolding defs by code_simp+
  have shape5: "1 < length (fr_slots r5)" "allocated (fr_slots r5 ! 1)" unfolding defs by code_simp+
  have final: "r6 = lane_demo" unfolding defs by code_simp
  have "(lane_step 2 1 1)\<^sup>*\<^sup>* (future_runtime_init 2) r1" using lane_allocate [OF alloc1] by blast
  then have "(lane_step 2 1 1)\<^sup>*\<^sup>* (future_runtime_init 2) r2" unfolding r2_def by (rule step) (rule lane_capture [OF shape1])
  then have "(lane_step 2 1 1)\<^sup>*\<^sup>* (future_runtime_init 2) r3" unfolding r3_def by (rule step) (rule lane_dispatch [OF shape2])
  then have "(lane_step 2 1 1)\<^sup>*\<^sup>* (future_runtime_init 2) r4" by (rule step) (rule lane_allocate [OF alloc2])
  then have "(lane_step 2 1 1)\<^sup>*\<^sup>* (future_runtime_init 2) r5" unfolding r5_def by (rule step) (rule lane_capture [OF shape4])
  then have "(lane_step 2 1 1)\<^sup>*\<^sup>* (future_runtime_init 2) r6" unfolding r6_def by (rule step) (rule lane_dispatch [OF shape5])
  then show ?thesis by (simp only: final)
qed

section \<open>Properties\<close>

text \<open>
  C11: in every reachable state of the runtime at most one driver of a resource is started:
  whatever the order in which futures are allocated, captured, dispatched, finished, cancelled
  and destroyed, two drivers never use the same resource at once.
\<close>

theorem future_lane_mutual_exclusion:
  assumes "(lane_step user_capacity waiter_limit batch)\<^sup>*\<^sup>* (future_runtime_init n) r"
  shows "card {i. i < length (fr_slots r) \<and> driver_started (fr_slots r ! i) \<and> resource_key (fr_slots r ! i) = Some k} \<le> 1"
proof -
  have "i = j" if "i < length (fr_slots r)" "driver_started (fr_slots r ! i)" "resource_key (fr_slots r ! i) = Some k"
      "j < length (fr_slots r)" "driver_started (fr_slots r ! j)" "resource_key (fr_slots r ! j) = Some k" for i j
    using lanes_ok_reachable [OF assms] that unfolding lanes_ok_def lane_free_def by (metis option.distinct(1))
  then show ?thesis by (intro card_le_Suc0_iff_eq [THEN iffD2, simplified One_nat_def [symmetric]]) auto
qed

lemma future_lane_mutual_exclusion_witness:
  "card {i. i < length (fr_slots lane_demo) \<and> driver_started (fr_slots lane_demo ! i) \<and>
     resource_key (fr_slots lane_demo ! i) = Some 7} \<le> 1"
  by (rule future_lane_mutual_exclusion [OF lane_demo_reachable])

text \<open>
  The next driver to start is one that waits for a free lane and was submitted before every
  other such driver, and there is none exactly when no driver waits for a free lane.
\<close>

lemma future_next_waiting_oldest:
  "(future_next_waiting slots = None \<longleftrightarrow> {i. i < length slots \<and> lane_eligible slots i} = {}) \<and>
   (\<forall>c. future_next_waiting slots = Some c \<longrightarrow>
      is_arg_min (\<lambda>i. submission_sequence (slots ! i)) (\<lambda>i. i < length slots \<and> lane_eligible slots i) c)"
  using next_waiting_spec [of slots] by (auto simp: is_arg_min_linorder)

lemma future_next_waiting_oldest_witness:
  "future_next_waiting [\<lparr>allocated = True, driver_active = True, driver_started = False, lane_waiting = True,
      submission_sequence = 5, resource_key = Some (1 :: nat)\<rparr>,
     \<lparr>allocated = True, driver_active = True, driver_started = False, lane_waiting = True,
      submission_sequence = 3, resource_key = Some 2\<rparr>] \<noteq> None"
proof -
  define slots where "slots = [\<lparr>allocated = True, driver_active = True, driver_started = False, lane_waiting = True,
      submission_sequence = 5, resource_key = Some (1 :: nat)\<rparr>,
     \<lparr>allocated = True, driver_active = True, driver_started = False, lane_waiting = True,
      submission_sequence = 3, resource_key = Some 2\<rparr>]"
  have "lane_eligible slots 1" unfolding slots_def by code_simp
  moreover have "1 < length slots" by (simp add: slots_def)
  ultimately have "{i. i < length slots \<and> lane_eligible slots i} \<noteq> {}" by blast
  then show ?thesis using future_next_waiting_oldest [of slots] unfolding slots_def [symmetric] by simp
qed

text \<open>
  C22: no lane starves: after a batch at least as large as the number of waiting drivers, each
  driver that still waits has a started driver in its lane.
\<close>

theorem future_batch_work_conserving:
  assumes "(lane_step user_capacity waiter_limit batch)\<^sup>*\<^sup>* (future_runtime_init n) r" "waiting_total (fr_slots r) \<le> batch'"
    "slots' = snd (future_dispatch_waiting_lanes batch' starts 0 False (fr_slots r))" "i < length slots'" "lane_waiting (slots' ! i)"
  shows "\<exists>j < length slots'. j \<noteq> i \<and> driver_started (slots' ! j) \<and> resource_key (slots' ! j) = resource_key (slots' ! i)"
proof -
  note ok = lanes_ok_reachable [OF assms(1)]
  have "future_next_waiting (future_snapshot slots') = None"
    using batch_leaves_none [OF ok, of 0 batch'] assms(2,3) by simp
  then have none: "\<not> lane_eligible (future_snapshot slots') i" using next_waiting_spec(1) assms(4) by (metis snapshot_simps(1))
  have "slot_ok (slots' ! i)" using batch_lanes_ok [OF ok, of batch' starts 0 False] assms(3,4) by (simp add: lanes_ok_def)
  then have "allocated (slots' ! i)" "driver_active (slots' ! i)" using assms(5) by (auto simp: slot_ok_def)
  then have "future_lane_in_use (future_snapshot slots') i" using none assms(4,5) by (simp add: lane_eligible_def)
  then show ?thesis using assms(4) by (auto simp: future_lane_in_use_def list_ex_iff)
qed

lemma future_batch_work_conserving_witness:
  "\<exists>j. j < 2 \<and> j \<noteq> 1 \<and> driver_started (fr_slots lane_demo ! j) \<and> resource_key (fr_slots lane_demo ! j) = Some 7"
proof -
  have "snd (future_dispatch_waiting_lanes 1 (\<lambda>_. True) 0 False (fr_slots lane_demo)) = fr_slots lane_demo"
    "waiting_total (fr_slots lane_demo) \<le> 1" "1 < length (fr_slots lane_demo)" "lane_waiting (fr_slots lane_demo ! 1)"
    "length (fr_slots lane_demo) = 2" "resource_key (fr_slots lane_demo ! 1) = Some 7"
    by code_simp+
  then show ?thesis
    using future_batch_work_conserving [OF lane_demo_reachable, of 1 "fr_slots lane_demo" "\<lambda>_. True" 1] by auto
qed

end
