(* ===== verification/Peripheral_Lease.thy ===== *)
theory Peripheral_Lease
  imports Simulation
begin

text \<open>
  \<open>esp32_mquickjs_peripheral_lease.c\<close>: which driver owns which I2S port, camera, I2C port, LEDC
  timer or channel.  The static table and the generation counter are an explicit state; a lease
  is a value that callers copy and keep, so stale copies are leases too.
\<close>

section \<open>The table\<close>

datatype peripheral_owner = OWNER_NONE | OWNER_I2S | OWNER_CAMERA | OWNER_I2C | OWNER_LEDC

definition KIND_COUNT :: int where "KIND_COUNT = 5"
definition MAX_INSTANCES :: int where "MAX_INSTANCES = 8"

record peripheral_entry =
  entry_owner :: peripheral_owner
  entry_generation :: u32

record peripheral_table =
  table_entries :: "peripheral_entry list list"
  next_generation :: u32

record peripheral_lease =
  lease_kind :: int
  lease_owner :: peripheral_owner
  lease_index :: int
  lease_generation :: u32
  lease_held :: bool

definition peripheral_leases_reset :: peripheral_table where
  "peripheral_leases_reset =
     \<lparr>table_entries = replicate 5 (replicate 8 \<lparr>entry_owner = OWNER_NONE, entry_generation = 0\<rparr>), next_generation = 1\<rparr>"

definition cleared_lease :: peripheral_lease where
  "cleared_lease = \<lparr>lease_kind = 0, lease_owner = OWNER_NONE, lease_index = 0, lease_generation = 0, lease_held = False\<rparr>"

definition peripheral_take_generation :: "peripheral_table \<Rightarrow> u32 \<times> peripheral_table" where
  "peripheral_take_generation t =
     (let generation = next_generation t;
          t = t\<lparr>next_generation := next_generation t + 1\<rparr>
      in if generation = 0 then (next_generation t, t\<lparr>next_generation := next_generation t + 1\<rparr>) else (generation, t))"

definition entry_at :: "int \<Rightarrow> int \<Rightarrow> peripheral_table \<Rightarrow> peripheral_entry" where
  "entry_at kind index t = table_entries t ! nat kind ! nat index"

definition set_entry :: "int \<Rightarrow> int \<Rightarrow> peripheral_entry \<Rightarrow> peripheral_table \<Rightarrow> peripheral_table" where
  "set_entry kind index e t =
     t\<lparr>table_entries := (table_entries t)[nat kind := (table_entries t ! nat kind)[nat index := e]]\<rparr>"

definition in_table :: "int \<Rightarrow> int \<Rightarrow> bool" where
  "in_table kind index \<longleftrightarrow> \<not> (kind < 0 \<or> kind \<ge> KIND_COUNT \<or> index < 0 \<or> index \<ge> MAX_INSTANCES)"

definition peripheral_lease_acquire ::
  "int \<Rightarrow> int \<Rightarrow> peripheral_owner \<Rightarrow> peripheral_table \<Rightarrow> peripheral_lease option \<times> peripheral_table" where
  "peripheral_lease_acquire kind index own t =
     (if \<not> in_table kind index \<or> own = OWNER_NONE then (None, t)
      else if entry_owner (entry_at kind index t) \<noteq> OWNER_NONE then (None, t)
      else let (generation, t) = peripheral_take_generation t
        in (Some \<lparr>lease_kind = kind, lease_owner = own, lease_index = index, lease_generation = generation, lease_held = True\<rparr>,
            set_entry kind index \<lparr>entry_owner = own, entry_generation = generation\<rparr> t))"

fun acquire_first :: "int \<Rightarrow> int list \<Rightarrow> peripheral_owner \<Rightarrow> peripheral_table \<Rightarrow> peripheral_lease option \<times> peripheral_table" where
  "acquire_first kind [] own t = (None, t)"
| "acquire_first kind (i # is) own t =
     (case peripheral_lease_acquire kind i own t of
        (Some lease, t') \<Rightarrow> (Some lease, t')
      | (None, t') \<Rightarrow> acquire_first kind is own t')"

definition peripheral_lease_acquire_any ::
  "int \<Rightarrow> int \<Rightarrow> peripheral_owner \<Rightarrow> peripheral_table \<Rightarrow> peripheral_lease option \<times> peripheral_table" where
  "peripheral_lease_acquire_any kind n own t =
     acquire_first kind [0..(if n > MAX_INSTANCES then MAX_INSTANCES else n) - 1] own t"

definition peripheral_lease_is_held :: "peripheral_lease \<Rightarrow> peripheral_table \<Rightarrow> bool" where
  "peripheral_lease_is_held lease t \<longleftrightarrow>
     lease_held lease \<and> in_table (lease_kind lease) (lease_index lease) \<and>
     entry_owner (entry_at (lease_kind lease) (lease_index lease) t) = lease_owner lease \<and>
     entry_generation (entry_at (lease_kind lease) (lease_index lease) t) = lease_generation lease"

definition peripheral_lease_release :: "peripheral_lease \<Rightarrow> peripheral_table \<Rightarrow> peripheral_lease \<times> peripheral_table" where
  "peripheral_lease_release lease t =
     (if \<not> peripheral_lease_is_held lease t then (cleared_lease, t)
      else (cleared_lease, set_entry (lease_kind lease) (lease_index lease)
              ((entry_at (lease_kind lease) (lease_index lease) t)\<lparr>entry_owner := OWNER_NONE\<rparr>) t))"

section \<open>The specification\<close>

text \<open>
  Grants are numbered; a peripheral is free or belongs to one grant.  A client may ask for a
  peripheral, for any of a kind, whether a grant still holds, and give any grant back, also one
  that was given back before: the calls work on the copies of the leases it once got.
\<close>

datatype lease_op = Take int int peripheral_owner | Take_Any int int peripheral_owner | Give_Back nat | Holds nat

record lease_spec =
  live :: "(int \<times> int) \<Rightarrow> nat option"
  grants :: nat

definition spec_take :: "int \<Rightarrow> int \<Rightarrow> peripheral_owner \<Rightarrow> lease_spec \<Rightarrow> (int \<times> int) option \<times> lease_spec" where
  "spec_take kind index own s =
     (if in_table kind index \<and> own \<noteq> OWNER_NONE \<and> live s (kind, index) = None
      then (Some (kind, index), s\<lparr>live := (live s)((kind, index) \<mapsto> grants s), grants := grants s + 1\<rparr>)
      else (None, s))"

fun spec_take_first :: "int \<Rightarrow> int list \<Rightarrow> peripheral_owner \<Rightarrow> lease_spec \<Rightarrow> (int \<times> int) option \<times> lease_spec" where
  "spec_take_first kind [] own s = (None, s)"
| "spec_take_first kind (i # is) own s =
     (case spec_take kind i own s of (Some p, s') \<Rightarrow> (Some p, s') | (None, s') \<Rightarrow> spec_take_first kind is own s')"

datatype lease_out = Granted "(int \<times> int) option" | Given | Held bool

fun spec_lease_op :: "lease_op \<Rightarrow> lease_spec \<Rightarrow> lease_out \<times> lease_spec" where
  "spec_lease_op (Take kind index own) s = (let (p, s') = spec_take kind index own s in (Granted p, s'))"
| "spec_lease_op (Take_Any kind n own) s =
     (let (p, s') = spec_take_first kind [0..(if n > MAX_INSTANCES then MAX_INSTANCES else n) - 1] own s in (Granted p, s'))"
| "spec_lease_op (Give_Back g) s = (Given, s\<lparr>live := (\<lambda>p. if live s p = Some g then None else live s p)\<rparr>)"
| "spec_lease_op (Holds g) s = (Held (\<exists>kind \<in> {0..<KIND_COUNT}. \<exists>index \<in> {0..<MAX_INSTANCES}. live s (kind, index) = Some g), s)"

text \<open>The client's copies of the leases, in the order in which they were granted.\<close>

type_synonym lease_system = "peripheral_lease list \<times> peripheral_table"

definition note_grant :: "peripheral_lease option \<times> peripheral_table \<Rightarrow> peripheral_lease list \<Rightarrow> lease_out \<times> lease_system" where
  "note_grant r ls = (case r of
     (None, t) \<Rightarrow> (Granted None, ls, t)
   | (Some l, t) \<Rightarrow> (Granted (Some (lease_kind l, lease_index l)), ls @ [l], t))"

fun lease_op_apply :: "lease_op \<Rightarrow> lease_system \<Rightarrow> lease_out \<times> lease_system" where
  "lease_op_apply (Take kind index own) (ls, t) = note_grant (peripheral_lease_acquire kind index own t) ls"
| "lease_op_apply (Take_Any kind n own) (ls, t) = note_grant (peripheral_lease_acquire_any kind n own t) ls"
| "lease_op_apply (Give_Back g) (ls, t) = (Given, ls, if g < length ls then snd (peripheral_lease_release (ls ! g) t) else t)"
| "lease_op_apply (Holds g) (ls, t) = (Held (g < length ls \<and> peripheral_lease_is_held (ls ! g) t), ls, t)"

text \<open>How a system represents the specification's state.\<close>

definition generation_of :: "nat \<Rightarrow> u32" where "generation_of g = word_of_nat (Suc g)"

definition lease_rel :: "lease_spec \<Rightarrow> lease_system \<Rightarrow> bool" where
  "lease_rel s sys = (case sys of (ls, t) \<Rightarrow>
     length ls = grants s \<and> next_generation t = generation_of (grants s) \<and>
     length (table_entries t) = 5 \<and> (\<forall>row \<in> set (table_entries t). length row = 8) \<and>
     (\<forall>g < length ls. lease_held (ls ! g) \<and> lease_owner (ls ! g) \<noteq> OWNER_NONE \<and>
        in_table (lease_kind (ls ! g)) (lease_index (ls ! g)) \<and> lease_generation (ls ! g) = generation_of g) \<and>
     (\<forall>kind index. in_table kind index \<longrightarrow>
        (case live s (kind, index) of
           None \<Rightarrow> entry_owner (entry_at kind index t) = OWNER_NONE
         | Some g \<Rightarrow> g < length ls \<and> lease_kind (ls ! g) = kind \<and> lease_index (ls ! g) = index \<and>
             entry_at kind index t = \<lparr>entry_owner = lease_owner (ls ! g), entry_generation = generation_of g\<rparr>)) \<and>
     (\<forall>kind index. \<not> in_table kind index \<longrightarrow> live s (kind, index) = None))"

lemma generation_unat: "g < 2 ^ 32 - 1 \<Longrightarrow> unat (generation_of g) = Suc g"
  unfolding generation_of_def by (rule unat_of_nat_lt) simp

lemma generation_inject:
  assumes "g < 2 ^ 32 - 1" "h < 2 ^ 32 - 1" "generation_of g = generation_of h"
  shows "g = h"
proof -
  have "Suc g = unat (generation_of g)" "Suc h = unat (generation_of h)" by (simp_all only: generation_unat assms(1,2))
  then show ?thesis using assms(3) by simp
qed

lemma generation_next: "g < 2 ^ 32 - 1 \<Longrightarrow> generation_of g \<noteq> 0"
  using generation_unat [of g] by (metis nat.distinct(1) unsigned_0)

lemma in_tableD: "in_table kind index \<Longrightarrow> nat kind < 5 \<and> nat index < 8 \<and> 0 \<le> kind \<and> 0 \<le> index"
  unfolding in_table_def KIND_COUNT_def MAX_INSTANCES_def by (auto simp: nat_less_iff)

lemma entry_at_set:
  assumes "length (table_entries t) = 5" "\<forall>row \<in> set (table_entries t). length row = 8" "in_table kind index" "in_table k i"
  shows "entry_at k i (set_entry kind index e t) = (if (k, i) = (kind, index) then e else entry_at k i t)"
proof -
  have b: "nat kind < 5" "nat index < 8" "nat k < 5" "nat i < 8"
    using in_tableD [OF assms(3)] in_tableD [OF assms(4)] by simp_all
  have row: "length (table_entries t ! nat kind) = 8" using assms(1,2) b(1) by (simp add: nth_mem)
  have eq: "nat k = nat kind \<longleftrightarrow> k = kind" "nat i = nat index \<longleftrightarrow> i = index"
    using in_tableD [OF assms(3)] in_tableD [OF assms(4)] by (simp_all add: eq_nat_nat_iff)
  show ?thesis using b row eq assms(1) by (auto simp: entry_at_def set_entry_def nth_list_update)
qed

lemma table_shape_set:
  assumes "length (table_entries t) = 5" "\<forall>row \<in> set (table_entries t). length row = 8" "in_table kind index"
  shows "length (table_entries (set_entry kind index e t)) = 5 \<and> (\<forall>row \<in> set (table_entries (set_entry kind index e t)). length row = 8)"
proof -
  have "nat kind < length (table_entries t)" using assms(1) in_tableD [OF assms(3)] by simp
  then have "length (table_entries t ! nat kind) = 8" using assms(2) by simp
  then show ?thesis using assms by (auto simp: set_entry_def dest!: set_update_subset_insert [THEN subsetD])
qed

lemma next_generation_set [simp]: "next_generation (set_entry kind index e t) = next_generation t"
  by (simp add: set_entry_def)

lemma rel_shape: "lease_rel s (ls, t) \<Longrightarrow> length ls = grants s \<and> next_generation t = generation_of (grants s) \<and>
     length (table_entries t) = 5 \<and> (\<forall>row \<in> set (table_entries t). length row = 8)"
  by (simp add: lease_rel_def)

lemma rel_lease: "lease_rel s (ls, t) \<Longrightarrow> g < length ls \<Longrightarrow> lease_held (ls ! g) \<and> lease_owner (ls ! g) \<noteq> OWNER_NONE \<and>
    in_table (lease_kind (ls ! g)) (lease_index (ls ! g)) \<and> lease_generation (ls ! g) = generation_of g"
  by (simp add: lease_rel_def)

lemma rel_slot: "lease_rel s (ls, t) \<Longrightarrow> in_table kind index \<Longrightarrow>
    (case live s (kind, index) of
       None \<Rightarrow> entry_owner (entry_at kind index t) = OWNER_NONE
     | Some g \<Rightarrow> g < length ls \<and> lease_kind (ls ! g) = kind \<and> lease_index (ls ! g) = index \<and>
         entry_at kind index t = \<lparr>entry_owner = lease_owner (ls ! g), entry_generation = generation_of g\<rparr>)"
  unfolding lease_rel_def prod.case by blast

lemma rel_outside: "lease_rel s (ls, t) \<Longrightarrow> \<not> in_table kind index \<Longrightarrow> live s (kind, index) = None"
  unfolding lease_rel_def prod.case by blast

lemma rel_free: "lease_rel s (ls, t) \<Longrightarrow> in_table kind index \<Longrightarrow> live s (kind, index) = None \<Longrightarrow>
    entry_owner (entry_at kind index t) = OWNER_NONE"
  by (drule (1) rel_slot) simp

lemma rel_live:
  assumes "lease_rel s (ls, t)" "live s (kind, index) = Some g"
  shows "in_table kind index \<and> g < length ls \<and> lease_kind (ls ! g) = kind \<and> lease_index (ls ! g) = index \<and>
    entry_at kind index t = \<lparr>entry_owner = lease_owner (ls ! g), entry_generation = generation_of g\<rparr>"
proof -
  have "in_table kind index" using rel_outside [OF assms(1)] assms(2) by fastforce
  then show ?thesis using rel_slot [OF assms(1)] assms(2) by fastforce
qed

text \<open>A lease is held exactly while its grant is live.\<close>

lemma held_live:
  assumes "lease_rel s (ls, t)" "g < length ls" "length ls \<le> 2 ^ 32 - 1"
  shows "peripheral_lease_is_held (ls ! g) t \<longleftrightarrow> live s (lease_kind (ls ! g), lease_index (ls ! g)) = Some g"
proof -
  note lease = rel_lease [OF assms(1,2)]
  have held: "peripheral_lease_is_held (ls ! g) t \<longleftrightarrow>
      entry_owner (entry_at (lease_kind (ls ! g)) (lease_index (ls ! g)) t) = lease_owner (ls ! g) \<and>
      entry_generation (entry_at (lease_kind (ls ! g)) (lease_index (ls ! g)) t) = generation_of g"
    using lease by (simp add: peripheral_lease_is_held_def)
  show ?thesis
  proof (cases "live s (lease_kind (ls ! g), lease_index (ls ! g))")
    case None
    then have "entry_owner (entry_at (lease_kind (ls ! g)) (lease_index (ls ! g)) t) = OWNER_NONE"
      using rel_free [OF assms(1)] lease by blast
    then have "\<not> peripheral_lease_is_held (ls ! g) t" unfolding held using lease by metis
    then show ?thesis using None by simp
  next
    case (Some h)
    note h = rel_live [OF assms(1) Some]
    have "generation_of h = generation_of g \<longleftrightarrow> h = g"
      using generation_inject [of h g] h assms(2,3) by auto
    then show ?thesis unfolding held Some using h by auto
  qed
qed

text \<open>Each operation keeps the relation.\<close>

lemma acquire_rel:
  assumes rel: "lease_rel s (ls, t)" and few: "grants s < 2 ^ 32 - 1"
  shows "(case spec_take kind index own s of (p, s') \<Rightarrow>
    note_grant (peripheral_lease_acquire kind index own t) ls =
      (Granted p, ls @ (case p of None \<Rightarrow> [] | Some _ \<Rightarrow> [the (fst (peripheral_lease_acquire kind index own t))]),
       snd (peripheral_lease_acquire kind index own t)) \<and>
    (fst (peripheral_lease_acquire kind index own t) = None \<longleftrightarrow> p = None) \<and>
    (p = None \<longrightarrow> snd (peripheral_lease_acquire kind index own t) = t \<and> s' = s) \<and>
    lease_rel s' (snd (note_grant (peripheral_lease_acquire kind index own t) ls)))"
proof (cases "in_table kind index \<and> own \<noteq> OWNER_NONE \<and> live s (kind, index) = None")
  case False
  have "entry_owner (entry_at kind index t) \<noteq> OWNER_NONE" if inside: "in_table kind index" "own \<noteq> OWNER_NONE"
  proof -
    obtain g where "live s (kind, index) = Some g" using False inside by (cases "live s (kind, index)") auto
    then show ?thesis using rel_live [OF rel] rel_lease [OF rel, of g] by auto
  qed
  then have "peripheral_lease_acquire kind index own t = (None, t)" by (auto simp: peripheral_lease_acquire_def)
  then show ?thesis using False rel by (simp add: spec_take_def note_grant_def)
next
  case True
  define g where "g = grants s"
  define l where "l = \<lparr>lease_kind = kind, lease_owner = own, lease_index = index, lease_generation = generation_of g, lease_held = True\<rparr>"
  define t' where "t' = set_entry kind index \<lparr>entry_owner = own, entry_generation = generation_of g\<rparr>
    (t\<lparr>next_generation := generation_of g + 1\<rparr>)"
  define s' where "s' = s\<lparr>live := (live s)((kind, index) \<mapsto> g), grants := Suc g\<rparr>"
  note shape = rel_shape [OF rel, folded g_def]
  have run: "peripheral_lease_acquire kind index own t = (Some l, t')"
    using True rel_free [OF rel] shape generation_next [OF few] unfolding l_def t'_def g_def
    by (simp add: peripheral_lease_acquire_def peripheral_take_generation_def Let_def)
  have at: "entry_at k i t' = (if (k, i) = (kind, index) then \<lparr>entry_owner = own, entry_generation = generation_of g\<rparr>
      else entry_at k i t)" if "in_table k i" for k i
    using entry_at_set [of "t\<lparr>next_generation := generation_of g + 1\<rparr>" kind index k i] True that shape
    by (simp add: t'_def entry_at_def)
  have "lease_rel s' (ls @ [l], t')"
    unfolding lease_rel_def prod.case
  proof (intro conjI allI impI)
    show "length (ls @ [l]) = grants s'" using shape by (simp add: s'_def)
    show "next_generation t' = generation_of (grants s')" by (simp add: t'_def s'_def generation_of_def)
    show "length (table_entries t') = 5" "\<forall>row \<in> set (table_entries t'). length row = 8"
      using table_shape_set [of "t\<lparr>next_generation := generation_of g + 1\<rparr>" kind index] True shape by (simp_all add: t'_def)
    fix k i
    show "live s' (k, i) = None" if "\<not> in_table k i"
      using that True rel_outside [OF rel that] by (auto simp: s'_def)
    show "case live s' (k, i) of None \<Rightarrow> entry_owner (entry_at k i t') = OWNER_NONE
       | Some h \<Rightarrow> h < length (ls @ [l]) \<and> lease_kind ((ls @ [l]) ! h) = k \<and> lease_index ((ls @ [l]) ! h) = i \<and>
          entry_at k i t' = \<lparr>entry_owner = lease_owner ((ls @ [l]) ! h), entry_generation = generation_of h\<rparr>" if "in_table k i"
    proof (cases "(k, i) = (kind, index)")
      case True
      then show ?thesis using at [OF that] shape by (simp add: s'_def l_def nth_append)
    next
      case False
      then have same: "live s' (k, i) = live s (k, i)" "entry_at k i t' = entry_at k i t" using at [OF that] by (auto simp: s'_def)
      show ?thesis
        unfolding same using rel_free [OF rel that] rel_live [OF rel, of k i] by (auto simp: nth_append split: option.split)
    qed
  next
    fix h assume "h < length (ls @ [l])"
    then consider "h < length ls" | "h = length ls" by fastforce
    then show "lease_held ((ls @ [l]) ! h)" "lease_owner ((ls @ [l]) ! h) \<noteq> OWNER_NONE"
      "in_table (lease_kind ((ls @ [l]) ! h)) (lease_index ((ls @ [l]) ! h))"
      "lease_generation ((ls @ [l]) ! h) = generation_of h"
      using rel_lease [OF rel, of h] shape True by (cases; simp add: nth_append l_def)+
  qed
  then show ?thesis using True by (simp add: spec_take_def note_grant_def run l_def [symmetric] s'_def g_def) (simp add: l_def)
qed

lemma acquire_first_rel:
  assumes "lease_rel s (ls, t)" "grants s < 2 ^ 32 - 1"
  shows "(case spec_take_first kind is own s of (p, s') \<Rightarrow>
    fst (note_grant (acquire_first kind is own t) ls) = Granted p \<and>
    lease_rel s' (snd (note_grant (acquire_first kind is own t) ls)) \<and> grants s' \<le> Suc (grants s))"
proof (induction "is")
  case Nil
  then show ?case using assms(1) by (simp add: note_grant_def)
next
  case (Cons i js)
  obtain p s' where spec: "spec_take kind i own s = (p, s')" by (cases "spec_take kind i own s")
  obtain l t' where code: "peripheral_lease_acquire kind i own t = (l, t')" by (cases "peripheral_lease_acquire kind i own t")
  note step = acquire_rel [OF assms, of kind i own, unfolded spec code, simplified]
  show ?case
  proof (cases p)
    case None
    then show ?thesis using step Cons.IH spec code by (cases l) simp_all
  next
    case (Some _)
    then show ?thesis using step spec code
      by (cases l) (auto simp: note_grant_def spec_take_def split: if_splits)
  qed
qed

lemma release_rel:
  assumes rel: "lease_rel s (ls, t)" and few: "grants s \<le> 2 ^ 32 - 1" and g: "g < length ls"
  shows "lease_rel (s\<lparr>live := (\<lambda>p. if live s p = Some g then None else live s p)\<rparr>) (ls, snd (peripheral_lease_release (ls ! g) t))"
proof -
  have few': "length ls \<le> 2 ^ 32 - 1" using few rel_shape [OF rel] by simp
  define kind index where "kind = lease_kind (ls ! g)" and "index = lease_index (ls ! g)"
  note held = held_live [OF rel g few', folded kind_def index_def]
  note place = rel_live [OF rel, of _ _ g, folded kind_def index_def]
  show ?thesis
  proof (cases "peripheral_lease_is_held (ls ! g) t")
    case False
    then have "live s p \<noteq> Some g" for p using held place by (cases p) blast
    then have "(\<lambda>p. if live s p = Some g then None else live s p) = live s" by auto
    then show ?thesis using rel False by (simp add: peripheral_lease_release_def)
  next
    case True
    then have mine: "live s (kind, index) = Some g" using held by simp
    have inside: "in_table kind index" using place [OF mine] by simp
    have only: "live s p = Some g \<longleftrightarrow> p = (kind, index)" for p
      using mine place [of "fst p" "snd p"] unfolding prod.collapse by (cases p) auto
    define e where "e = (entry_at kind index t)\<lparr>entry_owner := OWNER_NONE\<rparr>"
    define t' where "t' = set_entry kind index e t"
    define s' where "s' = s\<lparr>live := (\<lambda>p. if live s p = Some g then None else live s p)\<rparr>"
    have live': "live s' p = (if p = (kind, index) then None else live s p)" "grants s' = grants s" for p
      by (simp_all add: s'_def only)
    note shape = rel_shape [OF rel]
    have at: "entry_at k i t' = (if (k, i) = (kind, index) then e else entry_at k i t)" if "in_table k i" for k i
      unfolding t'_def by (rule entry_at_set) (use shape inside that in auto)
    have "lease_rel s' (ls, t')"
      unfolding lease_rel_def prod.case
    proof (intro conjI allI impI)
      show "length ls = grants s'" "next_generation t' = generation_of (grants s')" using shape by (simp_all add: live' t'_def)
      show "length (table_entries t') = 5" "\<forall>row \<in> set (table_entries t'). length row = 8"
        using table_shape_set [OF _ _ inside, of t e] shape by (simp_all add: t'_def)
      fix k i
      show "live s' (k, i) = None" if "\<not> in_table k i" using rel_outside [OF rel that] by (simp add: live')
      show "case live s' (k, i) of None \<Rightarrow> entry_owner (entry_at k i t') = OWNER_NONE
         | Some h \<Rightarrow> h < length ls \<and> lease_kind (ls ! h) = k \<and> lease_index (ls ! h) = i \<and>
            entry_at k i t' = \<lparr>entry_owner = lease_owner (ls ! h), entry_generation = generation_of h\<rparr>" if "in_table k i"
      proof (cases "(k, i) = (kind, index)")
        case True
        then show ?thesis using at [OF that] by (simp add: live' e_def)
      next
        case False
        then have same: "live s' (k, i) = live s (k, i)" "entry_at k i t' = entry_at k i t" using at [OF that] by (auto simp: live')
        show ?thesis unfolding same by (rule rel_slot [OF rel that])
      qed
    qed (use rel_lease [OF rel] in blast)+
    then show ?thesis
      using True by (simp add: peripheral_lease_release_def s'_def t'_def e_def kind_def index_def)
  qed
qed

lemma lease_op_rel:
  assumes rel: "lease_rel s sys" and few: "grants s < 2 ^ 32 - 1"
  shows "fst (spec_lease_op op s) = fst (lease_op_apply op sys) \<and>
    lease_rel (snd (spec_lease_op op s)) (snd (lease_op_apply op sys)) \<and> grants (snd (spec_lease_op op s)) \<le> Suc (grants s)"
proof -
  obtain ls t where sys: "sys = (ls, t)" by (cases sys)
  note rel = rel [unfolded sys]
  show ?thesis
  proof (cases op)
    case (Take kind index own)
    have "acquire_first kind [index] own t = peripheral_lease_acquire kind index own t"
      "spec_take_first kind [index] own s = spec_take kind index own s"
      by (auto split: prod.split option.split)
    then show ?thesis
      using Take acquire_first_rel [OF rel few, of kind "[index]" own] unfolding sys
      by (simp add: case_prod_unfold Let_def del: acquire_first.simps spec_take_first.simps)
  next
    case (Take_Any kind n own)
    then show ?thesis
      using acquire_first_rel [OF rel few, of kind _ own] unfolding sys
      by (simp add: case_prod_unfold Let_def peripheral_lease_acquire_any_def)
  next
    case (Give_Back g)
    show ?thesis
    proof (cases "g < length ls")
      case True
      then show ?thesis using Give_Back release_rel [OF rel _ True] few unfolding sys by simp
    next
      case False
      then have "live s p \<noteq> Some g" for p using rel_live [OF rel, of _ _ g] by (cases p) auto
      then have "(\<lambda>p. if live s p = Some g then None else live s p) = live s" by auto
      then show ?thesis using Give_Back rel False unfolding sys by simp
    qed
  next
    case (Holds g)
    have "(\<exists>kind \<in> {0..<KIND_COUNT}. \<exists>index \<in> {0..<MAX_INSTANCES}. live s (kind, index) = Some g) \<longleftrightarrow>
        g < length ls \<and> peripheral_lease_is_held (ls ! g) t" (is "?l \<longleftrightarrow> ?r")
    proof
      assume ?l
      then obtain kind index where live: "live s (kind, index) = Some g" by blast
      show ?r using rel_live [OF rel live] held_live [OF rel, of g] live few rel_shape [OF rel] by auto
    next
      assume ?r
      then have "live s (lease_kind (ls ! g), lease_index (ls ! g)) = Some g"
        using held_live [OF rel, of g] few rel_shape [OF rel] by simp
      then show ?l using rel_live [OF rel] by (force simp: in_table_def)
    qed
    then show ?thesis using Holds rel unfolding sys by simp
  qed
qed

text \<open>The numbers of the grants stay below the wrap-around while the remaining calls fit.\<close>

interpretation granted: simulation spec_lease_op lease_op_apply "\<lambda>n s sys. lease_rel s sys \<and> grants s + n < 2 ^ 32"
proof
  fix n s sys c
  assume rel: "lease_rel s sys \<and> grants s + Suc n < 2 ^ 32"
  then have "grants s < 2 ^ 32 - 1" by simp
  note step = lease_op_rel [OF _ this, of sys c]
  show "fst (lease_op_apply c sys) = fst (spec_lease_op c s)" using step rel by simp
  show "lease_rel (snd (spec_lease_op c s)) (snd (lease_op_apply c sys)) \<and> grants (snd (spec_lease_op c s)) + n < 2 ^ 32"
    using step rel by simp
qed

section \<open>Properties\<close>

text \<open>
  C13: whatever a client does with the leases it ever got (asks for peripherals, gives leases
  back, also twice or after someone else took the peripheral, and asks whether they hold), it
  sees exactly a table in which each peripheral is free or belongs to one grant: a granted
  peripheral is refused to everyone else, a lease holds until it is given back and never again,
  and a stale lease never frees the peripheral of a later grant.
\<close>

theorem peripheral_leases_refine:
  assumes "length ops < 2 ^ 32"
  shows "call_outputs lease_op_apply ops ([], peripheral_leases_reset) =
    call_outputs spec_lease_op ops \<lparr>live = (\<lambda>_. None), grants = 0\<rparr>"
proof -
  have "entry_owner (entry_at kind index peripheral_leases_reset) = OWNER_NONE" if "in_table kind index" for kind index
    using in_tableD [OF that] by (simp add: entry_at_def peripheral_leases_reset_def)
  then have "lease_rel \<lparr>live = (\<lambda>_. None), grants = 0\<rparr> ([], peripheral_leases_reset)"
    by (simp add: lease_rel_def generation_of_def) (simp add: peripheral_leases_reset_def)
  then show ?thesis using assms by (intro granted.same_outputs) simp
qed

lemma peripheral_leases_refine_witness:
  "call_outputs lease_op_apply [Take 0 1 OWNER_I2S, Take 0 1 OWNER_I2S, Give_Back 0, Take 0 1 OWNER_I2S, Give_Back 0, Holds 1, Holds 0]
      ([], peripheral_leases_reset) =
   [Granted (Some (0, 1)), Granted None, Given, Granted (Some (0, 1)), Given, Held True, Held False]"
proof -
  have "call_outputs spec_lease_op
      [Take 0 1 OWNER_I2S, Take 0 1 OWNER_I2S, Give_Back 0, Take 0 1 OWNER_I2S, Give_Back 0, Holds 1, Holds 0]
      \<lparr>live = (\<lambda>_. None), grants = 0\<rparr> =
    [Granted (Some (0, 1)), Granted None, Given, Granted (Some (0, 1)), Given, Held True, Held False]"
    by (auto simp: spec_take_def in_table_def KIND_COUNT_def MAX_INSTANCES_def)
  then show ?thesis
    using peripheral_leases_refine [of "[Take 0 1 OWNER_I2S, Take 0 1 OWNER_I2S, Give_Back 0, Take 0 1 OWNER_I2S,
        Give_Back 0, Holds 1, Holds 0]"] by simp
qed

end
