(* ===== verification/Reaper.thy ===== *)
theory Reaper
  imports Prelude
begin

text \<open>
  \<open>esp32_mquickjs_reaper.c\<close>: the registry of clean-up callbacks that are tried until they
  succeed.  A callback is a function of its argument and of the world it changes; that a callback
  calls back into the registry is not modelled.  \<open>None\<close> is a null pointer.
\<close>

section \<open>The registry\<close>

record ('f, 'o) reaper_entry =
  reap_fn :: "'f option"
  reap_opaque :: "'o option"
  active :: bool

record ('f, 'o) reaper_registry =
  reapers :: "('f, 'o) reaper_entry list"
  cursor :: nat
  pending :: nat

definition REAPER_CAPACITY :: nat where "REAPER_CAPACITY = 16"
definition REAPER_RESERVED_CAPACITY :: nat where "REAPER_RESERVED_CAPACITY = 1"
definition REAPER_GENERAL_CAPACITY :: nat where "REAPER_GENERAL_CAPACITY = REAPER_CAPACITY - REAPER_RESERVED_CAPACITY"

definition cleared_entry :: "('f, 'o) reaper_entry" where
  "cleared_entry = \<lparr>reap_fn = None, reap_opaque = None, active = False\<rparr>"

definition reaper_init :: "('f, 'o) reaper_registry" where
  "reaper_init = \<lparr>reapers = replicate REAPER_CAPACITY cleared_entry, cursor = 0, pending = 0\<rparr>"

definition same_reaper :: "'f option \<Rightarrow> 'o option \<Rightarrow> ('f, 'o) reaper_entry \<Rightarrow> bool" where
  "same_reaper f arg e \<longleftrightarrow> reap_fn e = f \<and> reap_opaque e = arg"

text \<open>The search of \<open>register\<close>: \<open>Inl\<close> when the pair is there, otherwise the first free index.\<close>

fun register_scan :: "('f, 'o) reaper_entry list \<Rightarrow> 'f option \<Rightarrow> 'o option \<Rightarrow> nat list \<Rightarrow> nat \<Rightarrow> unit + nat" where
  "register_scan es f arg [] available = Inr available"
| "register_scan es f arg (i # is) available =
     (if active (es ! i)
      then (if same_reaper f arg (es ! i) then Inl () else register_scan es f arg is available)
      else register_scan es f arg is (if available = REAPER_GENERAL_CAPACITY then i else available))"

definition set_reaper :: "nat \<Rightarrow> 'f option \<Rightarrow> 'o option \<Rightarrow> ('f, 'o) reaper_registry \<Rightarrow> ('f, 'o) reaper_registry" where
  "set_reaper i f arg r =
     r\<lparr>reapers := (reapers r)[i := \<lparr>reap_fn = f, reap_opaque = arg, active = True\<rparr>], pending := pending r + 1\<rparr>"

definition reaper_register :: "'f option \<Rightarrow> 'o option \<Rightarrow> ('f, 'o) reaper_registry \<Rightarrow> bool \<times> ('f, 'o) reaper_registry" where
  "reaper_register f arg r =
     (if f = None then (False, r)
      else case register_scan (reapers r) f arg [0..<REAPER_GENERAL_CAPACITY] REAPER_GENERAL_CAPACITY of
          Inl _ \<Rightarrow> (True, r)
        | Inr i \<Rightarrow> if i = REAPER_GENERAL_CAPACITY then (False, r) else (True, set_reaper i f arg r))"

definition reaper_register_reserved ::
  "nat \<Rightarrow> 'f option \<Rightarrow> 'o option \<Rightarrow> ('f, 'o) reaper_registry \<Rightarrow> bool \<times> ('f, 'o) reaper_registry" where
  "reaper_register_reserved slot f arg r =
     (if f = None \<or> slot \<ge> REAPER_RESERVED_CAPACITY then (False, r)
      else let i = REAPER_GENERAL_CAPACITY + slot; e = reapers r ! i
        in if active e then (same_reaper f arg e, r) else (True, set_reaper i f arg r))"

definition clear_reaper :: "nat \<Rightarrow> ('f, 'o) reaper_registry \<Rightarrow> ('f, 'o) reaper_registry" where
  "clear_reaper i r = r\<lparr>reapers := (reapers r)[i := cleared_entry], pending := pending r - 1\<rparr>"

definition reaper_unregister :: "'f option \<Rightarrow> 'o option \<Rightarrow> ('f, 'o) reaper_registry \<Rightarrow> bool \<times> ('f, 'o) reaper_registry" where
  "reaper_unregister f arg r =
     (if f = None then (False, r)
      else case find (\<lambda>i. active (reapers r ! i) \<and> same_reaper f arg (reapers r ! i)) [0..<REAPER_CAPACITY] of
          None \<Rightarrow> (False, r)
        | Some i \<Rightarrow> let r = clear_reaper i r in (True, if pending r = 0 then r\<lparr>cursor := 0\<rparr> else r))"

text \<open>
  The loop of \<open>poll\<close>: the state is the index, the counts and the registry.  It stops after at
  most one turn per entry.
\<close>

type_synonym ('f, 'o, 'w) reap = "'f \<Rightarrow> 'o option \<Rightarrow> 'w \<Rightarrow> bool \<times> 'w"

function poll_loop :: "('f, 'o, 'w) reap \<Rightarrow> nat \<Rightarrow> nat \<Rightarrow> nat \<Rightarrow> nat \<Rightarrow> nat \<Rightarrow> ('f, 'o) reaper_registry \<Rightarrow> 'w \<Rightarrow>
    nat \<times> nat \<times> nat \<times> ('f, 'o) reaper_registry \<times> 'w" where
  "poll_loop reap batch_limit scanned attempted completed i r w =
     (if \<not> (attempted < batch_limit \<and> scanned < REAPER_CAPACITY \<and> pending r > 0) then (attempted, completed, i, r, w)
      else
        let e = reapers r ! i; next_i = (i + 1) mod REAPER_CAPACITY
        in if \<not> active e then poll_loop reap batch_limit (scanned + 1) attempted completed next_i r w
           else let (ok, w') = reap (the (reap_fn e)) (reap_opaque e) w
             in if \<not> ok then poll_loop reap batch_limit (scanned + 1) (attempted + 1) completed next_i r w'
                else poll_loop reap batch_limit (scanned + 1) (attempted + 1) (completed + 1) next_i (clear_reaper i r) w')"
  by pat_completeness auto
termination by (relation "measure (\<lambda>(reap, batch_limit, scanned, attempted, completed, i, r, w). REAPER_CAPACITY - scanned)") auto

declare poll_loop.simps [simp del]

text \<open>The result: completed, attempted, the registry and the world.\<close>

definition reaper_poll ::
  "('f, 'o, 'w) reap \<Rightarrow> nat \<Rightarrow> ('f, 'o) reaper_registry \<Rightarrow> 'w \<Rightarrow> nat \<times> nat \<times> ('f, 'o) reaper_registry \<times> 'w" where
  "reaper_poll reap batch_limit r w =
     (if pending r = 0 \<or> batch_limit = 0 then (0, 0, r, w)
      else let (attempted, completed, i, r', w') = poll_loop reap batch_limit 0 0 0 (cursor r mod REAPER_CAPACITY) r w
        in (completed, attempted, r'\<lparr>cursor := (if pending r' = 0 then 0 else i)\<rparr>, w'))"

section \<open>The specification of a poll\<close>

text \<open>Try the given entries one after the other and clear those that succeed.\<close>

fun try_all :: "('f, 'o, 'w) reap \<Rightarrow> nat list \<Rightarrow> nat \<times> ('f, 'o) reaper_registry \<times> 'w \<Rightarrow> nat \<times> ('f, 'o) reaper_registry \<times> 'w" where
  "try_all reap [] s = s"
| "try_all reap (i # is) (n, r, w) =
     (let (ok, w') = reap (the (reap_fn (reapers r ! i))) (reap_opaque (reapers r ! i)) w
      in try_all reap is (if ok then (n + 1, clear_reaper i r, w') else (n, r, w')))"

definition ring_from :: "nat \<Rightarrow> nat \<Rightarrow> nat list" where
  "ring_from i n = map (\<lambda>k. (i + k) mod REAPER_CAPACITY) [0..<n]"

definition reaper_ok :: "('f, 'o) reaper_registry \<Rightarrow> bool" where
  "reaper_ok r \<longleftrightarrow> length (reapers r) = REAPER_CAPACITY \<and> cursor r < REAPER_CAPACITY \<and>
     pending r = length (filter active (reapers r)) \<and> (pending r = 0 \<longrightarrow> cursor r = 0) \<and>
     (\<forall>e \<in> set (reapers r). active e \<longrightarrow> reap_fn e \<noteq> None)"

lemma ring_from_simps: "ring_from i 0 = []" "ring_from i (Suc n) = i mod REAPER_CAPACITY # ring_from (i + 1) n"
  by (simp_all add: ring_from_def upt_conv_Cons map_Suc_upt [symmetric] comp_def del: upt_Suc)

lemma ring_from_mod: "ring_from (i mod REAPER_CAPACITY) n = ring_from i n"
  by (simp add: ring_from_def mod_add_left_eq)

lemma count_update:
  assumes "i < length es"
  shows "length (filter P (es[i := e])) + (if P (es ! i) then 1 else 0) = length (filter P es) + (if P e then 1 else 0)"
proof -
  have "es = take i es @ es ! i # drop (Suc i) es" using assms by (rule id_take_nth_drop)
  then have "length (filter P es) = length (filter P (take i es @ es ! i # drop (Suc i) es))" by simp
  moreover have "es[i := e] = take i es @ e # drop (Suc i) es" using assms by (rule upd_conv_take_nth_drop)
  ultimately show ?thesis by simp
qed

lemma ring_from_fresh:
  assumes "i < REAPER_CAPACITY" "n < REAPER_CAPACITY"
  shows "i \<notin> set (ring_from (i + 1) n)"
proof
  assume "i \<in> set (ring_from (i + 1) n)"
  then obtain k where k: "k < n" "i = (i + 1 + k) mod REAPER_CAPACITY" by (auto simp: ring_from_def)
  then have "(i + 0) mod REAPER_CAPACITY = (i + Suc k) mod REAPER_CAPACITY" using assms(1) by simp
  then have "REAPER_CAPACITY dvd Suc k" using mod_eq_dvd_iff_nat [of "i + 0" "i + Suc k" REAPER_CAPACITY] by simp
  then show False using k(1) assms(2) by (auto dest: dvd_imp_le)
qed

definition counted :: "('f, 'o) reaper_registry \<Rightarrow> bool" where
  "counted r \<longleftrightarrow> length (reapers r) = REAPER_CAPACITY \<and> pending r = length (filter active (reapers r))"

lemma counted_clear:
  assumes "counted r" "i < REAPER_CAPACITY" "active (reapers r ! i)"
  shows "counted (clear_reaper i r)"
  using assms count_update [of i "reapers r" active cleared_entry]
  by (auto simp: counted_def clear_reaper_def cleared_entry_def)

lemma counted_none: "counted r \<Longrightarrow> pending r = 0 \<Longrightarrow> i < REAPER_CAPACITY \<Longrightarrow> \<not> active (reapers r ! i)"
  unfolding counted_def by (metis (no_types, lifting) filter_empty_conv length_0_conv nth_mem)

abbreviation due :: "('f, 'o) reaper_registry \<Rightarrow> nat \<Rightarrow> nat \<Rightarrow> nat list" where
  "due r i n \<equiv> filter (\<lambda>j. active (reapers r ! j)) (ring_from i n)"

text \<open>Where the loop stops.\<close>

definition stop_index :: "nat \<Rightarrow> nat list \<Rightarrow> nat \<Rightarrow> nat \<Rightarrow> nat" where
  "stop_index left entries i n =
     (if length entries < left then (i + n) mod REAPER_CAPACITY
      else if left = 0 then i else (entries ! (left - 1) + 1) mod REAPER_CAPACITY)"

lemma stop_index_simps:
  "i < REAPER_CAPACITY \<Longrightarrow> stop_index 0 es i n = i"
  "0 < left \<Longrightarrow> stop_index left es ((i + 1) mod REAPER_CAPACITY) n = stop_index left es i (Suc n)"
  "stop_index (Suc left) (i # es) i (Suc n) = stop_index left es ((i + 1) mod REAPER_CAPACITY) n"
  by (auto simp: stop_index_def mod_add_left_eq nth_Cons' split: nat.split)

lemma poll_loop_tries:
  assumes "counted r" "i < REAPER_CAPACITY" "scanned + n = REAPER_CAPACITY" "attempted \<le> batch_limit"
  shows "\<exists>i' c' r' w'. poll_loop reap batch_limit scanned attempted completed i r w =
      (attempted + length (take (batch_limit - attempted) (due r i n)), c', i', r', w') \<and>
    try_all reap (take (batch_limit - attempted) (due r i n)) (completed, r, w) = (c', r', w') \<and>
    counted r' \<and> (pending r' = 0 \<or> i' = stop_index (batch_limit - attempted) (due r i n) i n)"
  using assms
proof (induction n arbitrary: scanned attempted completed i r w)
  case 0
  then show ?case by (auto simp: poll_loop.simps ring_from_simps stop_index_def)
next
  case (Suc n)
  have i: "i mod REAPER_CAPACITY = i" using Suc.prems(2) by simp
  note ring = ring_from_simps(2) [of i n, unfolded i]
  show ?case
  proof (cases "attempted < batch_limit \<and> pending r > 0")
    case False
    then consider (enough) "attempted = batch_limit" | (none) "pending r = 0" using Suc.prems(4) by linarith
    then show ?thesis
    proof cases
      case enough
      then show ?thesis using Suc.prems(1,2) by (simp add: poll_loop.simps stop_index_simps)
    next
      case none
      have "due r i (Suc n) = []"
        using counted_none [OF Suc.prems(1) none] by (auto simp: filter_empty_conv ring_from_def REAPER_CAPACITY_def)
      then show ?thesis using Suc.prems(1) none by (simp add: poll_loop.simps)
    qed
  next
    case True
    define i1 where "i1 = (i + 1) mod REAPER_CAPACITY"
    have i1: "i1 < REAPER_CAPACITY" "ring_from i1 n = ring_from (i + 1) n" "Suc scanned + n = REAPER_CAPACITY" "scanned < REAPER_CAPACITY"
      using Suc.prems(3) unfolding i1_def ring_from_mod by (simp_all add: REAPER_CAPACITY_def)
    note step = poll_loop.simps [of reap batch_limit scanned attempted completed i r w, unfolded Let_def, folded i1_def]
    obtain left where left: "batch_limit - attempted = Suc left" "batch_limit - Suc attempted = left"
      using True by (metis Suc_diff_Suc)
    show ?thesis
    proof (cases "active (reapers r ! i)")
      case False
      then have "due r i (Suc n) = due r i1 n" by (simp add: ring i1)
      then show ?thesis
        using Suc.IH [OF Suc.prems(1) i1(1,3) Suc.prems(4), of completed w] True False i1(4) left(1)
        by (simp add: step stop_index_simps(2) [symmetric] i1_def)
    next
      case active: True
      obtain ok w' where call: "reap (the (reap_fn (reapers r ! i))) (reap_opaque (reapers r ! i)) w = (ok, w')"
        by (cases "reap (the (reap_fn (reapers r ! i))) (reap_opaque (reapers r ! i)) w")
      define r1 where "r1 = (if ok then clear_reaper i r else r)"
      have r1: "counted r1" using counted_clear [OF Suc.prems(1,2) active] Suc.prems(1) by (simp add: r1_def)
      have fresh: "i \<notin> set (ring_from (i + 1) n)" using ring_from_fresh [OF Suc.prems(2), of n] Suc.prems(3) by linarith
      have "reapers r1 ! j = reapers r ! j" if "j \<in> set (ring_from (i + 1) n)" for j
        using fresh that by (cases "j = i") (simp_all add: r1_def clear_reaper_def)
      then have "due r1 i1 n = due r i1 n" unfolding i1 by (intro filter_cong) simp_all
      then have dues: "due r i (Suc n) = i # due r1 i1 n" using active by (simp add: ring i1)
      have "poll_loop reap batch_limit scanned attempted completed i r w =
          poll_loop reap batch_limit (Suc scanned) (Suc attempted) (completed + (if ok then 1 else 0)) i1 r1 w'"
        using True active call i1(4) by (simp add: step r1_def)
      moreover have "try_all reap (take (batch_limit - attempted) (due r i (Suc n))) (completed, r, w) =
          try_all reap (take (batch_limit - Suc attempted) (due r1 i1 n)) (completed + (if ok then 1 else 0), r1, w')"
        using call by (simp add: dues left r1_def)
      moreover have "stop_index (batch_limit - attempted) (due r i (Suc n)) i (Suc n) =
          stop_index (batch_limit - Suc attempted) (due r1 i1 n) i1 n"
        by (simp only: dues left stop_index_simps i1_def)
      ultimately show ?thesis
        using Suc.IH [OF r1 i1(1,3), of "Suc attempted" "completed + (if ok then 1 else 0)" w'] True
        by (simp add: dues left)
    qed
  qed
qed

section \<open>Reachable registries\<close>

inductive reaper_reachable :: "('f, 'o, 'w) reap \<Rightarrow> ('f, 'o) reaper_registry \<Rightarrow> bool" for reap where
  reach_init: "reaper_reachable reap reaper_init"
| reach_register: "reaper_reachable reap r \<Longrightarrow> reaper_reachable reap (snd (reaper_register f arg r))"
| reach_reserved: "reaper_reachable reap r \<Longrightarrow> reaper_reachable reap (snd (reaper_register_reserved slot f arg r))"
| reach_unregister: "reaper_reachable reap r \<Longrightarrow> reaper_reachable reap (snd (reaper_unregister f arg r))"
| reach_poll: "reaper_reachable reap r \<Longrightarrow> reaper_reachable reap (fst (snd (snd (reaper_poll reap batch_limit r w))))"

lemma register_scan_range:
  "register_scan es f arg is available = Inr i \<Longrightarrow> \<forall>j \<in> set is. j < REAPER_GENERAL_CAPACITY \<Longrightarrow>
   available = REAPER_GENERAL_CAPACITY \<or> (available < REAPER_GENERAL_CAPACITY \<and> \<not> active (es ! available)) \<Longrightarrow>
   i = REAPER_GENERAL_CAPACITY \<or> (i < REAPER_GENERAL_CAPACITY \<and> \<not> active (es ! i))"
  by (induction "is" arbitrary: available) (auto split: if_splits)

lemma counted_set:
  assumes "counted r" "i < REAPER_CAPACITY" "\<not> active (reapers r ! i)"
  shows "counted (set_reaper i f arg r)"
  using assms count_update [of i "reapers r" active "\<lparr>reap_fn = f, reap_opaque = arg, active = True\<rparr>"]
  by (auto simp: counted_def set_reaper_def)

lemma counted_cursor [simp]: "counted (r\<lparr>cursor := i\<rparr>) = counted r"
  by (simp add: counted_def)

lemma stop_index_less: "i < REAPER_CAPACITY \<Longrightarrow> stop_index left es i n < REAPER_CAPACITY"
  by (simp add: stop_index_def REAPER_CAPACITY_def)

lemma poll_loop_start:
  assumes "counted r"
  shows "\<exists>i' c' r' w'. poll_loop reap batch_limit 0 0 0 (cursor r mod REAPER_CAPACITY) r w =
      (length (take batch_limit (due r (cursor r) REAPER_CAPACITY)), c', i', r', w') \<and>
    try_all reap (take batch_limit (due r (cursor r) REAPER_CAPACITY)) (0, r, w) = (c', r', w') \<and> counted r' \<and>
    (pending r' = 0 \<or> i' = stop_index batch_limit (due r (cursor r) REAPER_CAPACITY) (cursor r mod REAPER_CAPACITY) REAPER_CAPACITY)"
proof -
  have "cursor r mod REAPER_CAPACITY < REAPER_CAPACITY" by (simp add: REAPER_CAPACITY_def)
  then show ?thesis
    using poll_loop_tries [OF assms, of "cursor r mod REAPER_CAPACITY" 0 REAPER_CAPACITY 0 batch_limit reap 0 w]
    by (simp only: ring_from_mod) simp
qed

lemma reachable_counted: "reaper_reachable reap r \<Longrightarrow> counted r \<and> cursor r < REAPER_CAPACITY"
proof (induction rule: reaper_reachable.induct)
  case reach_init
  then show ?case by (simp add: reaper_init_def counted_def REAPER_CAPACITY_def cleared_entry_def)
next
  case (reach_register r f arg)
  then show ?case
    using register_scan_range [of "reapers r" f arg "[0..<REAPER_GENERAL_CAPACITY]" REAPER_GENERAL_CAPACITY]
      counted_set [of r _ f arg]
    by (auto simp: reaper_register_def set_reaper_def REAPER_GENERAL_CAPACITY_def
        REAPER_CAPACITY_def REAPER_RESERVED_CAPACITY_def split: sum.split)
next
  case (reach_reserved r slot f arg)
  then show ?case
    using counted_set [of r "REAPER_GENERAL_CAPACITY + slot" f arg]
    by (cases slot) (auto simp: reaper_register_reserved_def Let_def set_reaper_def REAPER_GENERAL_CAPACITY_def
        REAPER_CAPACITY_def REAPER_RESERVED_CAPACITY_def)
next
  case (reach_unregister r f arg)
  then show ?case
    using counted_clear [of r]
    by (auto simp: reaper_unregister_def Let_def find_Some_iff clear_reaper_def REAPER_CAPACITY_def
        split: option.split)
next
  case (reach_poll r batch_limit w)
  then show ?case
    using poll_loop_start [of r reap batch_limit w] stop_index_less
    by (auto simp: reaper_poll_def REAPER_CAPACITY_def)
qed

section \<open>Properties\<close>

text \<open>
  A poll tries the registered callbacks in ring order from the cursor, each at most once
  and at most the batch limit of them, and clears exactly those that succeed; the next poll goes
  on behind the last one tried (from the same place when all were tried, from the start when none
  is left), so no callback is passed over.  The pending count is the number of registered ones.
\<close>

lemma reaper_poll_round_robin:
  assumes "reaper_reachable reap r" "0 < batch_limit" "0 < pending r"
  shows "let es = filter (\<lambda>i. active (reapers r ! i)) (ring_from (cursor r) REAPER_CAPACITY) in
    \<exists>n r' w'. try_all reap (take batch_limit es) (0, r, w) = (n, r', w') \<and>
      reaper_poll reap batch_limit r w = (n, min batch_limit (length es),
        r'\<lparr>cursor := (if pending r' = 0 then 0 else if length es < batch_limit then cursor r
                  else (es ! (batch_limit - 1) + 1) mod REAPER_CAPACITY)\<rparr>, w') \<and>
      pending r' = length (filter active (reapers r'))"
proof -
  note ok = reachable_counted [OF assms(1)]
  obtain i' c' r' w' where loop: "poll_loop reap batch_limit 0 0 0 (cursor r mod REAPER_CAPACITY) r w =
      (length (take batch_limit (due r (cursor r) REAPER_CAPACITY)), c', i', r', w')"
    "try_all reap (take batch_limit (due r (cursor r) REAPER_CAPACITY)) (0, r, w) = (c', r', w')" "counted r'"
    "pending r' = 0 \<or> i' = stop_index batch_limit (due r (cursor r) REAPER_CAPACITY) (cursor r mod REAPER_CAPACITY) REAPER_CAPACITY"
    using poll_loop_start [of r reap batch_limit w] ok by blast
  have "(if pending r' = 0 then 0 else i') = (if pending r' = 0 then 0
      else if length (due r (cursor r) REAPER_CAPACITY) < batch_limit then cursor r
      else (due r (cursor r) REAPER_CAPACITY ! (batch_limit - 1) + 1) mod REAPER_CAPACITY)"
    using loop(4) ok assms(2) by (auto simp: stop_index_def)
  then show ?thesis using loop(1,2,3) assms(2,3) by (simp add: reaper_poll_def Let_def counted_def min.commute)
qed

lemma reaper_poll_round_robin_witness:
  "\<exists>n r' w'. try_all (\<lambda>f arg w. (f = 2, w @ [f])) [0]
      (0, snd (reaper_register (Some (2 :: nat)) (None :: nat option) reaper_init), []) = (n, r', w') \<and>
    fst (reaper_poll (\<lambda>f arg w. (f = 2, w @ [f])) 4
      (snd (reaper_register (Some (2 :: nat)) (None :: nat option) reaper_init)) []) = n"
proof -
  define reap where "reap = (\<lambda>(f :: nat) (arg :: nat option) w. (f = 2, w @ [f]))"
  define r :: "(nat, nat) reaper_registry" where "r = snd (reaper_register (Some 2) None reaper_init)"
  have "reaper_reachable reap r" unfolding r_def by (intro reach_register reach_init)
  moreover have "filter (\<lambda>i. active (reapers r ! i)) (ring_from (cursor r) REAPER_CAPACITY) = [0]" "pending r = 1"
    unfolding r_def by code_simp+
  ultimately show ?thesis
    using reaper_poll_round_robin [of reap r 4 "[]"] unfolding r_def [symmetric] reap_def [symmetric] by (auto simp: Let_def)
qed

end
