(* ===== verification/Wireless_Core.thy ===== *)
theory Wireless_Core
  imports Native_Pool Simulation
begin

text \<open>
  The state of the radios in \<open>esp32_mquickjs_wireless_core.c\<close>: the transmit recovery
  states, the native operation that callbacks complete, the publication of pooled events, the
  fixed channel, the slot for a critical event, and the checks on GATT values and handles.
  The text functions of the file are in \<open>Wireless_Text\<close>, its registry of operations in
  \<open>Wireless_Registry\<close>.
\<close>

section \<open>Transmission\<close>

datatype tx_state = TX_READY | TX_TIMED_OUT | TX_RECOVERING | TX_FAILED

definition tx_timeout :: "tx_state \<Rightarrow> bool \<times> tx_state" where
  "tx_timeout s = (if s \<noteq> TX_READY then (False, s) else (True, TX_TIMED_OUT))"

definition tx_begin_recovery :: "tx_state \<Rightarrow> bool \<times> tx_state" where
  "tx_begin_recovery s = (if s \<noteq> TX_TIMED_OUT then (False, s) else (True, TX_RECOVERING))"

definition tx_finish_recovery :: "bool \<Rightarrow> tx_state \<Rightarrow> bool \<times> tx_state" where
  "tx_finish_recovery success s =
     (if s \<noteq> TX_RECOVERING then (False, s) else (True, if success then TX_READY else TX_FAILED))"

definition tx_retry_recovery :: "tx_state \<Rightarrow> bool \<times> tx_state" where
  "tx_retry_recovery s = (if s \<noteq> TX_FAILED then (False, s) else (True, TX_RECOVERING))"

section \<open>The native operation\<close>

text \<open>
  Each function makes a single atomic access to the state, so any interleaving of threads is a
  sequence of calls.  A strong compare-and-exchange fails only on a different value.
\<close>

datatype native_operation = OPERATION_IDLE | OPERATION_ACTIVE | OPERATION_CANCELLING

definition compare_exchange :: "'a \<Rightarrow> 'a \<Rightarrow> 'a \<Rightarrow> bool \<times> 'a" where
  "compare_exchange expected new current = (if current = expected then (True, new) else (False, current))"

definition operation_init :: native_operation where "operation_init = OPERATION_IDLE"

definition operation_begin :: "native_operation \<Rightarrow> bool \<times> native_operation" where
  "operation_begin = compare_exchange OPERATION_IDLE OPERATION_ACTIVE"

definition operation_request_cancel :: "native_operation \<Rightarrow> bool \<times> native_operation" where
  "operation_request_cancel = compare_exchange OPERATION_ACTIVE OPERATION_CANCELLING"

definition operation_complete :: "native_operation \<Rightarrow> bool \<times> native_operation" where
  "operation_complete previous = (previous \<noteq> OPERATION_IDLE, OPERATION_IDLE)"

definition operation_is_quiescent :: "native_operation option \<Rightarrow> bool" where
  "operation_is_quiescent p = (case p of None \<Rightarrow> True | Some s \<Rightarrow> s = OPERATION_IDLE)"

definition close_can_release :: "u32 \<Rightarrow> bool \<Rightarrow> bool" where
  "close_can_release callbacks_active quiescent \<longleftrightarrow> callbacks_active = 0 \<and> quiescent"

section \<open>Pooled events\<close>

text \<open>
  The event's slot was taken by the caller; a queue that does not accept the event leaves the
  slot to this function, which gives it back.  The queue is a parameter: a function of the
  destination, the event and the world.
\<close>

definition publish_from_callback ::
  "u16 \<Rightarrow> 'd option \<Rightarrow> 'e option \<Rightarrow> ('d \<Rightarrow> 'e \<Rightarrow> 'w \<Rightarrow> bool \<times> 'w) option \<Rightarrow> native_pool \<Rightarrow> 'w \<Rightarrow>
   bool \<times> native_pool \<times> 'w" where
  "publish_from_callback pool_index destination event try_send pool w =
     (case (destination, event, try_send) of
        (Some d, Some e, Some send) \<Rightarrow>
          if unat pool_index \<ge> unat (pool_capacity pool) then (False, snd (native_pool_release (unat pool_index) pool), w)
          else let (ok, w') = send d e w
            in if \<not> ok then (False, snd (native_pool_release (unat pool_index) pool), w') else (True, pool, w')
      | _ \<Rightarrow> (False, snd (native_pool_release (unat pool_index) pool), w))"

text \<open>From an interrupt the queue also says whether a task was woken.\<close>

definition publish_from_isr ::
  "u16 \<Rightarrow> 'd option \<Rightarrow> 'e option \<Rightarrow> ('d \<Rightarrow> 'e \<Rightarrow> int \<Rightarrow> 'w \<Rightarrow> bool \<times> int \<times> 'w) option \<Rightarrow> int \<Rightarrow> native_pool \<Rightarrow> 'w \<Rightarrow>
   bool \<times> int \<times> native_pool \<times> 'w" where
  "publish_from_isr pool_index destination event send_isr task_woken pool w =
     (case (destination, event, send_isr) of
        (Some d, Some e, Some send) \<Rightarrow>
          if unat pool_index \<ge> unat (pool_capacity pool)
          then (False, task_woken, snd (native_pool_release (unat pool_index) pool), w)
          else let (ok, woken, w') = send d e task_woken w
            in if \<not> ok then (False, woken, snd (native_pool_release (unat pool_index) pool), w')
               else (True, woken, pool, w')
      | _ \<Rightarrow> (False, task_woken, snd (native_pool_release (unat pool_index) pool), w))"

section \<open>GATT values and handles\<close>

definition key_length_valid :: "u32 \<Rightarrow> u32 \<Rightarrow> bool" where
  "key_length_valid len required_length \<longleftrightarrow> required_length > 0 \<and> len = required_length"

text \<open>\<open>secure_zero\<close>: the loop from position \<open>i\<close>; \<open>None\<close> is a write outside the buffer.\<close>

fun zero_loop :: "nat \<Rightarrow> nat \<Rightarrow> bytes \<Rightarrow> bytes option" where
  "zero_loop i 0 bs = Some bs"
| "zero_loop i (Suc n) bs = (if i < length bs then zero_loop (i + 1) n (bs[i := 0]) else None)"

definition secure_zero :: "nat \<Rightarrow> bytes option \<Rightarrow> bytes option option" where
  "secure_zero len data = (case data of None \<Rightarrow> Some None | Some bs \<Rightarrow> map_option Some (zero_loop 0 len bs))"

text \<open>
  A write of a local attribute: the result, the value's buffer and its length.  \<open>None\<close> is a
  write outside the buffer.
\<close>

definition local_value_write ::
  "bytes option \<Rightarrow> u16 \<Rightarrow> u16 \<Rightarrow> u16 \<Rightarrow> bytes option \<Rightarrow> u16 \<Rightarrow> (bool \<times> bytes option \<times> u16) option" where
  "local_value_write val max_length value_length offset data data_length =
     (let end_at = (ucast offset :: u32) + ucast data_length
      in case val of
           None \<Rightarrow> Some (False, val, value_length)
         | Some buf \<Rightarrow>
             if (data = None \<and> data_length > 0) \<or> end_at > ucast max_length then Some (False, val, value_length)
             else case (if data_length > 0 then write_at buf (unat offset) (bytes_at data (unat data_length)) else Some buf) of
                 None \<Rightarrow> None
               | Some buf' \<Rightarrow>
                   Some (True, Some buf', if end_at > ucast value_length then ucast end_at else value_length))"

definition gatt_descriptor_end :: "u16 \<Rightarrow> u16 \<Rightarrow> u16 \<Rightarrow> u16 \<Rightarrow> u16 \<Rightarrow> u16 option" where
  "gatt_descriptor_end characteristic_index service_first service_count service_end_handle next_declaration_handle =
     (let service_characteristic_end = (ucast service_first :: u32) + ucast service_count
      in if service_count = 0 \<or> characteristic_index < service_first \<or>
            ucast characteristic_index \<ge> service_characteristic_end then None
         else if (ucast characteristic_index :: u32) + 1 < service_characteristic_end
           then (if next_declaration_handle = 0 then None else Some (next_declaration_handle - 1))
         else Some service_end_handle)"

definition generation_matches :: "u32 \<Rightarrow> u32 \<Rightarrow> bool \<Rightarrow> bool" where
  "generation_matches active_generation event_generation closing \<longleftrightarrow>
     \<not> closing \<and> active_generation \<noteq> 0 \<and> active_generation = event_generation"

section \<open>The critical event\<close>

record critical_slot =
  occupied :: bool
  slot_generation :: u32
  slot_index :: u16

definition critical_reserve :: "u32 \<Rightarrow> u16 \<Rightarrow> critical_slot \<Rightarrow> bool \<times> critical_slot" where
  "critical_reserve generation i s =
     (if occupied s \<or> generation = 0 then (False, s)
      else (True, \<lparr>occupied = True, slot_generation = generation, slot_index = i\<rparr>))"

definition critical_take :: "u32 \<Rightarrow> critical_slot \<Rightarrow> u16 option \<times> critical_slot" where
  "critical_take generation s =
     (if \<not> occupied s \<or> slot_generation s \<noteq> generation then (None, s)
      else (Some (slot_index s), \<lparr>occupied = False, slot_generation = 0, slot_index = 0\<rparr>))"

section \<open>The fixed channel\<close>

record fixed_channel_owner =
  claimed :: bool
  owner_lease :: u32
  owner_client :: u32
  primary_channel :: u8
  secondary_channel :: u8
  owner_generation :: u32

datatype fixed_channel_result =
  CHANNEL_INVALID | CHANNEL_CONFLICT | CHANNEL_ACQUIRE | CHANNEL_CHANGE | CHANNEL_IDEMPOTENT

definition fixed_channel_check :: "u32 \<Rightarrow> u32 \<Rightarrow> u8 \<Rightarrow> u8 \<Rightarrow> fixed_channel_owner \<Rightarrow> fixed_channel_result" where
  "fixed_channel_check lease client primary secondary own =
     (if lease = 0 \<or> primary = 0 then CHANNEL_INVALID
      else if \<not> claimed own then CHANNEL_ACQUIRE
      else if owner_lease own \<noteq> lease \<or> owner_client own \<noteq> client then CHANNEL_CONFLICT
      else if primary_channel own = primary \<and> secondary_channel own = secondary then CHANNEL_IDEMPOTENT
      else CHANNEL_CHANGE)"

definition fixed_channel_claim :: "u32 \<Rightarrow> u32 \<Rightarrow> u8 \<Rightarrow> u8 \<Rightarrow> fixed_channel_owner \<Rightarrow> bool \<times> fixed_channel_owner" where
  "fixed_channel_claim lease client primary secondary own =
     (let result = fixed_channel_check lease client primary secondary own
      in if result = CHANNEL_INVALID \<or> result = CHANNEL_CONFLICT then (False, own)
         else if result = CHANNEL_IDEMPOTENT then (True, own)
         else let own = own\<lparr>claimed := True, owner_lease := lease, owner_client := client,
                primary_channel := primary, secondary_channel := secondary, owner_generation := owner_generation own + 1\<rparr>
           in (True, if owner_generation own = 0 then own\<lparr>owner_generation := 1\<rparr> else own))"

definition fixed_channel_release :: "u32 \<Rightarrow> u32 \<Rightarrow> fixed_channel_owner \<Rightarrow> bool \<times> fixed_channel_owner" where
  "fixed_channel_release lease client own =
     (if \<not> claimed own \<or> lease = 0 \<or> owner_lease own \<noteq> lease \<or> owner_client own \<noteq> client then (False, own)
      else (True, own\<lparr>claimed := False, owner_lease := 0, owner_client := 0, primary_channel := 0, secondary_channel := 0\<rparr>))"

section \<open>The recovery states\<close>

datatype tx_call = Tx_Timeout | Tx_Begin | Tx_Finish bool | Tx_Retry

fun tx_apply :: "tx_call \<Rightarrow> tx_state \<Rightarrow> bool \<times> tx_state" where
  "tx_apply Tx_Timeout = tx_timeout"
| "tx_apply Tx_Begin = tx_begin_recovery"
| "tx_apply (Tx_Finish success) = tx_finish_recovery success"
| "tx_apply Tx_Retry = tx_retry_recovery"

lemmas tx_defs = tx_timeout_def tx_begin_recovery_def tx_finish_recovery_def tx_retry_recovery_def

text \<open>A transmitter that timed out is ready again only by a recovery that succeeded.\<close>

lemma tx_ready_again:
  assumes "s \<noteq> TX_READY" "after_calls tx_apply cs s = TX_READY"
  shows "Tx_Finish True \<in> set cs"
  using assms
proof (induction cs arbitrary: s)
  case (Cons c cs)
  then show ?case
    by (cases "snd (tx_apply c s) = TX_READY"; cases c) (auto simp: tx_defs split: if_splits)
qed simp

section \<open>The calls that succeed\<close>

datatype operation_call = Begin | Request_Cancel | Complete

fun operation_apply :: "operation_call \<Rightarrow> native_operation \<Rightarrow> bool \<times> native_operation" where
  "operation_apply Begin = operation_begin"
| "operation_apply Request_Cancel = operation_request_cancel"
| "operation_apply Complete = operation_complete"

text \<open>The calls of a run that returned true, in their order.\<close>

fun successes :: "operation_call list \<Rightarrow> native_operation \<Rightarrow> operation_call list" where
  "successes [] s = []"
| "successes (c # cs) s = (let (ok, s') = operation_apply c s in (if ok then [c] else []) @ successes cs s')"

text \<open>What may follow what.\<close>

definition follows :: "operation_call \<Rightarrow> operation_call \<Rightarrow> bool" where
  "follows c d \<longleftrightarrow> (c, d) \<in> {(Begin, Request_Cancel), (Begin, Complete), (Request_Cancel, Complete), (Complete, Begin)}"

fun bracketed :: "operation_call \<Rightarrow> operation_call list \<Rightarrow> bool" where
  "bracketed c [] = True"
| "bracketed c (d # ds) = (follows c d \<and> bracketed d ds)"

lemmas operation_defs = operation_begin_def operation_request_cancel_def operation_complete_def compare_exchange_def follows_def

fun last_success :: "native_operation \<Rightarrow> operation_call" where
  "last_success OPERATION_IDLE = Complete"
| "last_success OPERATION_ACTIVE = Begin"
| "last_success OPERATION_CANCELLING = Request_Cancel"

lemma successes_bracketed: "bracketed (last_success s) (successes cs s)"
proof (induction cs arbitrary: s)
  case (Cons c cs)
  have "(fst (operation_apply c s) \<and> follows (last_success s) c \<and> last_success (snd (operation_apply c s)) = c) \<or>
      (\<not> fst (operation_apply c s) \<and> snd (operation_apply c s) = s)"
    by (cases c; cases s) (simp_all add: operation_defs)
  then show ?case using Cons.IH [of "snd (operation_apply c s)"] by (auto simp: case_prod_unfold)
qed simp

lemma successes_count:
  "count_list (successes cs s) Begin + (if s = OPERATION_IDLE then 0 else 1) =
   count_list (successes cs s) Complete + (if after_calls operation_apply cs s = OPERATION_IDLE then 0 else 1)"
proof (induction cs arbitrary: s)
  case (Cons c cs)
  show ?case using Cons.IH [of "snd (operation_apply c s)"]
    by (cases c; cases s) (simp_all add: operation_defs split: if_splits)
qed simp

section \<open>Publication\<close>

lemmas publish_defs = publish_from_callback_def publish_from_isr_def

text \<open>The slot is given back exactly when the event is not in the queue.\<close>

lemma publish_from_callback_slot:
  assumes "pool_inv pool" "publish_from_callback i d e f pool w = (ok, pool', w')"
  shows "pool_inv pool' \<and> pool_slots pool' = pool_slots pool \<and>
    pool_free pool' = (if ok \<or> unat i \<notin> pool_slots pool then pool_free pool else insert (unat i) (pool_free pool))"
  using assms native_pool_release_free(2-4) [OF assms(1), of "unat i" "fst (native_pool_release (unat i) pool)"
      "snd (native_pool_release (unat i) pool)"]
  by (auto simp: publish_from_callback_def split: option.splits if_splits prod.splits)

lemma publish_from_isr_slot:
  assumes "pool_inv pool" "publish_from_isr i d e f woken pool w = (ok, woken', pool', w')"
  shows "pool_inv pool' \<and> pool_slots pool' = pool_slots pool \<and>
    pool_free pool' = (if ok \<or> unat i \<notin> pool_slots pool then pool_free pool else insert (unat i) (pool_free pool))"
  using assms native_pool_release_free(2-4) [OF assms(1), of "unat i" "fst (native_pool_release (unat i) pool)"
      "snd (native_pool_release (unat i) pool)"]
  by (auto simp: publish_from_isr_def split: option.splits if_splits prod.splits)

section \<open>GATT\<close>

lemma zero_loop_zeroes:
  "i + n \<le> length bs \<Longrightarrow> zero_loop i n bs = Some (take i bs @ replicate n 0 @ drop (i + n) bs)"
proof (induction n arbitrary: i bs)
  case (Suc n)
  then have "zero_loop i (Suc n) bs = Some (take (i + 1) (bs[i := 0]) @ replicate n 0 @ drop (i + 1 + n) (bs[i := 0]))"
    by simp
  then show ?case using Suc.prems by (simp add: take_update_last)
qed simp

lemma secure_zero_all: "secure_zero (length bs) (Some bs) = Some (Some (replicate (length bs) 0))"
  by (simp add: secure_zero_def zero_loop_zeroes)

lemma u16_sum: "unat ((ucast (a :: u16) :: u32) + ucast (b :: u16)) = unat a + unat b"
proof -
  have "unat a < 2 ^ LENGTH(16)" "unat b < 2 ^ LENGTH(16)" by (rule unsigned_less)+
  then show ?thesis by (subst unat_add_fits) simp_all
qed

text \<open>A write stays in the buffer, and the length grows to the end of the write, never beyond the buffer.\<close>

lemma local_value_write_fits:
  assumes "length buf = unat max_length" "value_length \<le> max_length"
    and "data_length > 0 \<Longrightarrow> unat data_length \<le> length bs"
    and "unat offset + unat data_length \<le> unat max_length"
  shows "\<exists>value_length'. local_value_write (Some buf) max_length value_length offset (Some bs) data_length =
      Some (True, Some (take (unat offset) buf @ take (unat data_length) bs @ drop (unat offset + unat data_length) buf), value_length') \<and>
    unat value_length' = max (unat value_length) (unat offset + unat data_length) \<and> value_length' \<le> max_length"
proof -
  define e where "e = (ucast offset :: u32) + ucast data_length"
  have e: "unat e = unat offset + unat data_length" unfolding e_def by (rule u16_sum)
  have max: "unat max_length < 2 ^ LENGTH(16)" by (rule unsigned_less)
  have "unat e < 2 ^ LENGTH(16)" using max assms(4) e by linarith
  then have cast: "unat (ucast e :: u16) = unat e" by (simp add: unsigned_ucast_eq take_bit_nat_eq_self)
  have "\<not> e > ucast max_length" using assms(4) e by (simp add: word_less_nat_alt not_less)
  moreover have "unat data_length \<le> length bs" using assms(3) by (cases "data_length = 0") (simp_all add: word_gt_0)
  ultimately show ?thesis
    using assms cast e unfolding local_value_write_def Let_def e_def [symmetric]
    by (cases "data_length = 0")
      (auto simp: write_at_def min_def word_gt_0 word_less_nat_alt word_le_nat_alt max_def)
qed

section \<open>The fixed channel as a lock\<close>

text \<open>
  The specification: nobody or one holder, a lease and a client, and the channels it chose; and
  how many times the channel was set.
\<close>

record channel_lock =
  holder :: "((u32 \<times> u32) \<times> (u8 \<times> u8)) option"
  settings :: nat

datatype channel_call = Check u32 u32 u8 u8 | Claim u32 u32 u8 u8 | Release u32 u32

datatype channel_answer = Checked fixed_channel_result | Done bool

fun lock_apply :: "channel_call \<Rightarrow> channel_lock \<Rightarrow> channel_answer \<times> channel_lock" where
  "lock_apply (Check lease client c1 c2) k =
     (Checked (if lease = 0 \<or> c1 = 0 then CHANNEL_INVALID
        else case holder k of
            None \<Rightarrow> CHANNEL_ACQUIRE
          | Some (h, c) \<Rightarrow> if h \<noteq> (lease, client) then CHANNEL_CONFLICT
              else if c = (c1, c2) then CHANNEL_IDEMPOTENT else CHANNEL_CHANGE), k)"
| "lock_apply (Claim lease client c1 c2) k =
     (if lease = 0 \<or> c1 = 0 \<or> (\<exists>h c. holder k = Some (h, c) \<and> h \<noteq> (lease, client)) then (Done False, k)
      else (Done True, if holder k = Some ((lease, client), c1, c2) then k
          else \<lparr>holder = Some ((lease, client), c1, c2), settings = settings k + 1\<rparr>))"
| "lock_apply (Release lease client) k =
     (if \<exists>c. holder k = Some ((lease, client), c) then (Done True, k\<lparr>holder := None\<rparr>) else (Done False, k))"

fun channel_apply :: "channel_call \<Rightarrow> fixed_channel_owner \<Rightarrow> channel_answer \<times> fixed_channel_owner" where
  "channel_apply (Check lease client c1 c2) own = (Checked (fixed_channel_check lease client c1 c2 own), own)"
| "channel_apply (Claim lease client c1 c2) own = (let (ok, own') = fixed_channel_claim lease client c1 c2 own in (Done ok, own'))"
| "channel_apply (Release lease client) own = (let (ok, own') = fixed_channel_release lease client own in (Done ok, own'))"

definition no_channel :: fixed_channel_owner where
  "no_channel = \<lparr>claimed = False, owner_lease = 0, owner_client = 0, primary_channel = 0, secondary_channel = 0, owner_generation = 0\<rparr>"

text \<open>
  The generation counts the settings in the range from 1 to \<open>2 ^ 32 - 1\<close>, so it is never 0
  again and differs from one setting to the next.
\<close>

definition channel_rel :: "channel_lock \<Rightarrow> fixed_channel_owner \<Rightarrow> bool" where
  "channel_rel k own \<longleftrightarrow>
     holder k = (if claimed own then Some ((owner_lease own, owner_client own), primary_channel own, secondary_channel own) else None) \<and>
     (claimed own \<longrightarrow> owner_lease own \<noteq> 0 \<and> primary_channel own \<noteq> 0) \<and>
     unat (owner_generation own) = (if settings k = 0 then 0 else (settings k - 1) mod (2 ^ 32 - 1) + 1)"

lemma u32_max: "unat (- 1 :: u32) = 2 ^ 32 - 1"
  by (simp add: unsigned_minus_1_eq_mask mask_eq_exp_minus_1)

lemma generation_step:
  assumes "unat g = (if n = 0 then 0 else (n - 1) mod (2 ^ 32 - 1) + 1)"
  shows "unat (if g + 1 = 0 then 1 else g + 1 :: u32) = n mod (2 ^ 32 - 1) + 1"
proof (cases "g = - 1")
  case True
  then have "n \<noteq> 0" "(n - 1) mod (2 ^ 32 - 1) = (2 ^ 32 - 2 :: nat)" using assms u32_max by (auto split: if_splits)
  then have "n mod (2 ^ 32 - 1) = 0" using mod_Suc [of "n - 1" "2 ^ 32 - 1"] by simp
  then show ?thesis using True by simp
next
  case False
  then have g: "g < - 1" by (simp add: word_order.not_eq_extremum)
  then have small: "unat g < 2 ^ 32 - 1" using u32_max by (simp add: word_less_nat_alt)
  have "unat g = n mod (2 ^ 32 - 1)"
  proof (cases n)
    case (Suc m)
    then show ?thesis using assms small mod_Suc [of m "2 ^ 32 - 1"] by (simp split: if_splits)
  qed (simp add: assms)
  then show ?thesis using unat_inc [OF g] inc_not_zero [OF g] by simp
qed

lemmas channel_defs = fixed_channel_check_def fixed_channel_claim_def fixed_channel_release_def

lemma claim_rel:
  assumes "channel_rel k own"
  shows "fst (channel_apply (Claim lease client c1 c2) own) = fst (lock_apply (Claim lease client c1 c2) k) \<and>
    channel_rel (snd (lock_apply (Claim lease client c1 c2) k)) (snd (channel_apply (Claim lease client c1 c2) own))"
proof (cases "fixed_channel_check lease client c1 c2 own \<in> {CHANNEL_ACQUIRE, CHANNEL_CHANGE}")
  case True
  define g where "g = (if owner_generation own + 1 = 0 then 1 else owner_generation own + 1)"
  have "snd (fixed_channel_claim lease client c1 c2 own) =
      \<lparr>claimed = True, owner_lease = lease, owner_client = client, primary_channel = c1, secondary_channel = c2, owner_generation = g\<rparr>"
    "fst (fixed_channel_claim lease client c1 c2 own)"
    using True by (cases own, auto simp: fixed_channel_claim_def g_def Let_def)+
  moreover have "unat g = settings k mod (2 ^ 32 - 1) + 1"
    unfolding g_def using assms by (intro generation_step) (simp add: channel_rel_def)
  moreover have "lease \<noteq> 0" "c1 \<noteq> 0" "holder k \<noteq> Some ((lease, client), c1, c2)"
    "\<not> (\<exists>h c. holder k = Some (h, c) \<and> h \<noteq> (lease, client))"
    using True assms by (auto simp: channel_rel_def fixed_channel_check_def split: if_splits)
  ultimately show ?thesis by (auto simp: case_prod_unfold channel_rel_def)
next
  case False
  then show ?thesis using assms
    by (auto simp: channel_rel_def fixed_channel_check_def fixed_channel_claim_def Let_def split: if_splits)
qed

lemma channel_step:
  assumes "channel_rel k own"
  shows "fst (channel_apply c own) = fst (lock_apply c k) \<and> channel_rel (snd (lock_apply c k)) (snd (channel_apply c own))"
proof (cases c)
  case (Claim lease client c1 c2)
  then show ?thesis using claim_rel [OF assms] by blast
next
  case (Check lease client c1 c2)
  then show ?thesis using assms by (auto simp: channel_rel_def fixed_channel_check_def)
next
  case (Release lease client)
  then show ?thesis using assms by (auto simp: channel_rel_def fixed_channel_release_def)
qed

interpretation channel: simulation lock_apply channel_apply "\<lambda>n. channel_rel"
  by unfold_locales (use channel_step in blast)+

section \<open>Properties\<close>

text \<open>
  C30: whatever calls begin, cancel and complete the native operation, in whatever order the
  threads make them, the calls that succeed form brackets: a begin, at most one request to cancel,
  one completion, then the next begin.  The close may release the radio exactly when no callback
  runs and every operation that began has completed.
\<close>

theorem wireless_operation_brackets:
  "bracketed Complete (successes calls operation_init) \<and>
   (close_can_release callbacks (operation_is_quiescent (Some (after_calls operation_apply calls operation_init))) \<longleftrightarrow>
      callbacks = 0 \<and> count_list (successes calls operation_init) Begin = count_list (successes calls operation_init) Complete)"
  using successes_bracketed [of operation_init calls] successes_count [of calls operation_init]
  by (simp add: operation_init_def close_can_release_def operation_is_quiescent_def)

text \<open>
  A pooled event's slot has one owner: after a slot was taken from the pool and its event
  published, from an interrupt or from a callback, it belongs to the queue when the queue took the
  event, and otherwise it is free again; no slot is lost and no other slot changes.
\<close>

lemma wireless_publish_returns_slot:
  assumes "pool_inv pool" "native_pool_acquire pool = Some (i, taken)"
  shows "(let (ok, pool', w') = publish_from_callback (of_nat i) d e f taken w
      in pool_free pool' = (if ok then pool_free pool - {i} else pool_free pool)) \<and>
    (let (ok, woken', pool', w') = publish_from_isr (of_nat i) d e g woken taken w
      in pool_free pool' = (if ok then pool_free pool - {i} else pool_free pool))"
proof -
  note taken = native_pool_acquire_some [OF assms]
  have slot: "i \<in> pool_slots taken" using taken(2,3) assms(1) by (auto simp: pool_inv_def)
  moreover have "unat (pool_capacity taken) < 2 ^ LENGTH(8)" by (rule unsigned_less)
  ultimately have "i < 256" by (simp add: pool_slots_def)
  then have "unat (of_nat i :: u16) = i" by (intro unat_of_nat_lt) simp
  then show ?thesis
    using slot taken(3,5) publish_from_callback_slot [OF taken(1), of "of_nat i" d e f w]
      publish_from_isr_slot [OF taken(1), of "of_nat i" d e g woken w]
    by (auto simp: insert_absorb split: prod.split)
qed

lemma wireless_publish_returns_slot_witness:
  "\<exists>taken. native_pool_acquire pool_of_40 = Some (4, taken) \<and>
    (let (ok, pool', w') = publish_from_callback (of_nat 4) (Some ()) (Some True) (Some (\<lambda>d e w. (w < 3, w + 1))) taken (3 :: nat)
      in pool_free pool' = (if ok then pool_free pool_of_40 - {4} else pool_free pool_of_40))"
proof -
  have acquired: "map_option fst (native_pool_acquire pool_of_40) = Some 4" by code_simp
  then obtain taken where taken: "native_pool_acquire pool_of_40 = Some (4, taken)"
    by (cases "native_pool_acquire pool_of_40") auto
  show ?thesis
    using taken wireless_publish_returns_slot [OF pool_of_40_inv taken, THEN conjunct1,
        of "Some ()" "Some True" "Some (\<lambda>d e w. (w < 3, w + 1))" "3 :: nat"] by blast
qed

text \<open>
  The fixed channel is a lock with re-entry: whatever checks, claims and releases are made,
  a claim succeeds exactly when nobody else holds the channel, a claim with other channels by the
  holder changes them, only the holder releases, and each check predicts the claim.  The generation
  counts the changes and never comes back to 0.
\<close>

lemma wireless_fixed_channel_refines:
  "call_outputs channel_apply calls no_channel = call_outputs lock_apply calls \<lparr>holder = None, settings = 0\<rparr> \<and>
   unat (owner_generation (after_calls channel_apply calls no_channel)) =
     (let n = settings (after_calls lock_apply calls \<lparr>holder = None, settings = 0\<rparr>)
      in if n = 0 then 0 else (n - 1) mod (2 ^ 32 - 1) + 1)"
proof -
  have "channel_rel \<lparr>holder = None, settings = 0\<rparr> no_channel" by (simp add: channel_rel_def no_channel_def)
  then show ?thesis
    using channel.same_outputs [of "\<lparr>holder = None, settings = 0\<rparr>" no_channel calls]
      channel.after_rel [of "\<lparr>holder = None, settings = 0\<rparr>" no_channel calls]
    by (simp add: Let_def channel_rel_def)
qed

end
