(* ===== verification/Wireless_Registry.thy ===== *)
theory Wireless_Registry
  imports Simulation
begin

text \<open>
  The operation registry of \<open>esp32_mquickjs_wireless_core.c\<close>: sixteen entries that map the
  identities given to native callbacks to their owners.  An owner is any value; \<open>None\<close> is the
  null pointer.
\<close>

section \<open>The table\<close>

record 'o operation_entry =
  identity :: u32
  entry_owner :: "'o option"

record 'o operation_registry =
  last_identity :: u32
  operations :: "'o operation_entry list"

definition OPERATION_CAPACITY :: nat where "OPERATION_CAPACITY = 16"

definition cleared_operation :: "'o operation_entry" where
  "cleared_operation = \<lparr>identity = 0, entry_owner = None\<rparr>"

definition empty_registry :: "'o operation_registry" where
  "empty_registry = \<lparr>last_identity = 0, operations = replicate OPERATION_CAPACITY cleared_operation\<rparr>"

text \<open>The loops return in the first turn whose entry meets the condition.\<close>

definition operation_register :: "'o option \<Rightarrow> 'o operation_registry \<Rightarrow> u32 \<times> 'o operation_registry" where
  "operation_register own r =
     (if own = None \<or> last_identity r = - 1 then (0, r)
      else case find (\<lambda>i. entry_owner (operations r ! i) = None) [0..<OPERATION_CAPACITY] of
          None \<Rightarrow> (0, r)
        | Some i \<Rightarrow> let new = last_identity r + 1
            in (new, \<lparr>last_identity = new, operations = (operations r)[i := \<lparr>identity = new, entry_owner = own\<rparr>]\<rparr>))"

definition operation_lookup :: "u32 \<Rightarrow> 'o operation_registry \<Rightarrow> 'o option" where
  "operation_lookup ident r =
     (if ident = 0 then None
      else case find (\<lambda>i. identity (operations r ! i) = ident) [0..<OPERATION_CAPACITY] of
          None \<Rightarrow> None
        | Some i \<Rightarrow> entry_owner (operations r ! i))"

definition operation_remove :: "u32 \<Rightarrow> 'o operation_registry \<Rightarrow> 'o option \<times> 'o operation_registry" where
  "operation_remove ident r =
     (if ident = 0 then (None, r)
      else case find (\<lambda>i. identity (operations r ! i) = ident) [0..<OPERATION_CAPACITY] of
          None \<Rightarrow> (None, r)
        | Some i \<Rightarrow> (entry_owner (operations r ! i), r\<lparr>operations := (operations r)[i := cleared_operation]\<rparr>))"

section \<open>The specification\<close>

text \<open>
  A map of at most sixteen live identities.  The next identity is the number of registrations so
  far plus one; none is ever given twice, and after \<open>2 ^ 32 - 1\<close> there are no more.
\<close>

record 'o operation_map =
  live :: "nat \<rightharpoonup> 'o"
  given :: nat

datatype 'o operation_call = Register "'o option" | Lookup u32 | Remove u32

datatype 'o operation_answer = Registered u32 | Found "'o option"

fun map_apply :: "'o operation_call \<Rightarrow> 'o operation_map \<Rightarrow> 'o operation_answer \<times> 'o operation_map" where
  "map_apply (Register own) s =
     (case own of
        None \<Rightarrow> (Registered 0, s)
      | Some v \<Rightarrow> if given s = 2 ^ 32 - 1 \<or> \<not> card (dom (live s)) < 16 then (Registered 0, s)
          else (Registered (word_of_nat (given s + 1)), \<lparr>live = (live s)(given s + 1 \<mapsto> v), given = given s + 1\<rparr>))"
| "map_apply (Lookup ident) s = (Found (live s (unat ident)), s)"
| "map_apply (Remove ident) s = (Found (live s (unat ident)), s\<lparr>live := (live s)(unat ident := None)\<rparr>)"

fun registry_apply :: "'o operation_call \<Rightarrow> 'o operation_registry \<Rightarrow> 'o operation_answer \<times> 'o operation_registry" where
  "registry_apply (Register own) r = (let (i, r') = operation_register own r in (Registered i, r'))"
| "registry_apply (Lookup ident) r = (Found (operation_lookup ident r), r)"
| "registry_apply (Remove ident) r = (let (v, r') = operation_remove ident r in (Found v, r'))"

section \<open>The table is the map\<close>

text \<open>
  The entry of an identity: the used entries have owners and distinct identities up to the last,
  the free ones are cleared.
\<close>

definition registry_ok :: "'o operation_registry \<Rightarrow> bool" where
  "registry_ok r \<longleftrightarrow> length (operations r) = 16 \<and>
     (\<forall>i < 16. (identity (operations r ! i) = 0 \<longleftrightarrow> entry_owner (operations r ! i) = None) \<and>
        identity (operations r ! i) \<le> last_identity r) \<and>
     (\<forall>i < 16. \<forall>j < 16. i \<noteq> j \<longrightarrow> identity (operations r ! i) = identity (operations r ! j) \<longrightarrow> identity (operations r ! i) = 0)"

definition registry_rel :: "'o operation_map \<Rightarrow> 'o operation_registry \<Rightarrow> bool" where
  "registry_rel s r \<longleftrightarrow> registry_ok r \<and> given s = unat (last_identity r) \<and>
     (\<forall>n v. live s n = Some v \<longleftrightarrow> (\<exists>i < 16. unat (identity (operations r ! i)) = n \<and> entry_owner (operations r ! i) = Some v))"

lemma relD:
  assumes "registry_rel s r"
  shows "registry_ok r" "given s = unat (last_identity r)"
    "live s n = Some v \<longleftrightarrow> (\<exists>i < 16. unat (identity (operations r ! i)) = n \<and> entry_owner (operations r ! i) = Some v)"
  using assms by (auto simp: registry_rel_def)

lemma okD:
  assumes "registry_ok r" "i < 16"
  shows "length (operations r) = 16" "identity (operations r ! i) = 0 \<longleftrightarrow> entry_owner (operations r ! i) = None"
    "identity (operations r ! i) \<le> last_identity r"
    "j < 16 \<Longrightarrow> identity (operations r ! i) = identity (operations r ! j) \<Longrightarrow> identity (operations r ! i) \<noteq> 0 \<Longrightarrow> i = j"
  using assms unfolding registry_ok_def by blast+

text \<open>Looking an identity up in the table.\<close>

lemma rel_find:
  assumes rel: "registry_rel s r" and "ident \<noteq> 0"
  shows "case find (\<lambda>i. identity (operations r ! i) = ident) [0..<16] of
      None \<Rightarrow> live s (unat ident) = None
    | Some i \<Rightarrow> i < 16 \<and> identity (operations r ! i) = ident \<and> live s (unat ident) = entry_owner (operations r ! i) \<and>
        live s (unat ident) \<noteq> None"
proof (cases "find (\<lambda>i. identity (operations r ! i) = ident) [0..<16]")
  case None
  then have "\<not> (\<exists>i < 16. identity (operations r ! i) = ident)" by (auto simp: find_index_None)
  then have "live s (unat ident) \<noteq> Some v" for v using relD(3) [OF rel] by (auto simp: word_unat_eq_iff)
  then show ?thesis using None by auto
next
  case (Some i)
  then have i: "i < 16" "identity (operations r ! i) = ident" using find_index_Some [OF Some] by auto
  then obtain v where v: "entry_owner (operations r ! i) = Some v"
    using okD(2) [OF relD(1) [OF rel] i(1)] assms(2) by auto
  then have "live s (unat ident) = Some v" using relD(3) [OF rel] i by blast
  then show ?thesis using Some i v by simp
qed

lemma live_zero: "registry_rel s r \<Longrightarrow> live s 0 = None"
  using relD(3) [of s r 0] okD(2) [OF relD(1), of s r] by (metis not_None_eq option.distinct(1) unat_eq_0)

lemma live_card:
  assumes "registry_rel s r"
  shows "card (dom (live s)) = card {i. i < 16 \<and> entry_owner (operations r ! i) \<noteq> None}"
proof -
  let ?I = "{i. i < 16 \<and> entry_owner (operations r ! i) \<noteq> None}"
  have "dom (live s) = (\<lambda>i. unat (identity (operations r ! i))) ` ?I"
    using relD(3) [OF assms] by (auto simp: dom_def)
  moreover have "inj_on (\<lambda>i. unat (identity (operations r ! i))) ?I"
    using okD(2,4) [OF relD(1) [OF assms]] by (auto intro!: inj_onI simp: word_unat_eq_iff [symmetric])
  ultimately show ?thesis by (simp add: card_image)
qed

lemma live_full:
  assumes "registry_rel s r"
  shows "card (dom (live s)) < 16 \<longleftrightarrow> (\<exists>i < 16. entry_owner (operations r ! i) = None)"
proof -
  have sub: "{i. i < 16 \<and> entry_owner (operations r ! i) \<noteq> None} \<subseteq> {..<16}" by auto
  have "{i. i < 16 \<and> entry_owner (operations r ! i) \<noteq> None} = {..<16} \<longleftrightarrow> \<not> (\<exists>i < 16. entry_owner (operations r ! i) = None)"
    by auto
  then show ?thesis
    using card_mono [OF _ sub] card_subset_eq [OF _ sub] unfolding live_card [OF assms] by fastforce
qed

lemma registry_okI:
  assumes "operations r = es" "last_identity r = l" "length es = 16"
    and "\<And>i. i < 16 \<Longrightarrow> identity (es ! i) = 0 \<longleftrightarrow> entry_owner (es ! i) = None"
    and "\<And>i. i < 16 \<Longrightarrow> identity (es ! i) \<le> l"
    and "\<And>i j. i < 16 \<Longrightarrow> j < 16 \<Longrightarrow> i \<noteq> j \<Longrightarrow> identity (es ! i) = identity (es ! j) \<Longrightarrow> identity (es ! i) = 0"
  shows "registry_ok r"
  using assms unfolding registry_ok_def by blast

lemma register_rel:
  assumes rel: "registry_rel s r" and more: "last_identity r \<noteq> - 1" and i: "i < 16" "entry_owner (operations r ! i) = None"
  shows "registry_rel \<lparr>live = (live s)(given s + 1 \<mapsto> v), given = given s + 1\<rparr>
    \<lparr>last_identity = last_identity r + 1, operations = (operations r)[i := \<lparr>identity = last_identity r + 1, entry_owner = Some v\<rparr>]\<rparr>"
proof -
  define new where "new = last_identity r + 1"
  define es where "es = (operations r)[i := \<lparr>identity = new, entry_owner = Some v\<rparr>]"
  have less: "last_identity r < - 1" using more by (simp add: word_order.not_eq_extremum)
  note new = unat_inc [OF less, folded new_def] inc_not_zero [OF less, folded new_def]
  have at: "es ! j = (if j = i then \<lparr>identity = new, entry_owner = Some v\<rparr> else operations r ! j)" if "j < 16" for j
    using that okD(1) [OF relD(1) [OF rel] i(1)] by (simp add: es_def)
  have old: "identity (operations r ! j) < new" if "j < 16" for j
    using okD(3) [OF relD(1) [OF rel] that] new(1) by (simp add: word_le_nat_alt word_less_nat_alt)
  have zero: "identity (operations r ! i) = 0" using okD(2) [OF relD(1) [OF rel] i(1)] i(2) by simp
  have ok: "registry_ok \<lparr>last_identity = new, operations = es\<rparr>"
  proof (rule registry_okI [where es = es and l = new])
    show "length es = 16" using okD(1) [OF relD(1) [OF rel] i(1)] by (simp add: es_def)
    show "identity (es ! j) = 0 \<longleftrightarrow> entry_owner (es ! j) = None" if "j < 16" for j
      using that okD(2) [OF relD(1) [OF rel]] new(2) by (simp add: at)
    show "identity (es ! j) \<le> new" if "j < 16" for j using that less_imp_le [OF old [OF that]] by (simp add: at)
    show "identity (es ! j) = 0" if "j < 16" "k < 16" "j \<noteq> k" "identity (es ! j) = identity (es ! k)" for j k
      using that old okD(4) [OF relD(1) [OF rel]] by (auto simp: at split: if_splits)
  qed simp_all
  have "((live s)(given s + 1 \<mapsto> v)) n = Some w \<longleftrightarrow> (\<exists>j < 16. unat (identity (es ! j)) = n \<and> entry_owner (es ! j) = Some w)" for n w
  proof (cases "n = unat new")
    case True
    then have "unat (identity (es ! j)) = n \<longleftrightarrow> j = i" if "j < 16" for j
      using that old [OF that] by (auto simp: at word_unat_eq_iff [symmetric])
    then show ?thesis using True i(1) at relD(2) [OF rel] new(1) by auto
  next
    case False
    then have "(\<exists>j < 16. unat (identity (es ! j)) = n \<and> entry_owner (es ! j) = Some w) \<longleftrightarrow>
        (\<exists>j < 16. unat (identity (operations r ! j)) = n \<and> entry_owner (operations r ! j) = Some w)"
      using at i by (metis operation_entry.select_convs(1) option.distinct(1))
    then show ?thesis using False relD(2,3) [OF rel] new(1) by simp
  qed
  then show ?thesis using ok relD(2) [OF rel] new(1) unfolding registry_rel_def new_def es_def by simp
qed

lemma remove_rel:
  assumes rel: "registry_rel s r" and i: "i < 16" "identity (operations r ! i) = ident" "ident \<noteq> 0"
  shows "registry_rel (s\<lparr>live := (live s)(unat ident := None)\<rparr>) (r\<lparr>operations := (operations r)[i := cleared_operation]\<rparr>)"
proof -
  define es where "es = (operations r)[i := cleared_operation]"
  have at: "es ! j = (if j = i then cleared_operation else operations r ! j)" if "j < 16" for j
    using that okD(1) [OF relD(1) [OF rel] i(1)] by (simp add: es_def)
  have other: "identity (operations r ! j) = ident \<longleftrightarrow> j = i" if "j < 16" for j
    using that okD(4) [OF relD(1) [OF rel] that, of i] i by auto
  have "registry_ok (r\<lparr>operations := es\<rparr>)"
  proof (rule registry_okI [where es = es and l = "last_identity r"])
    show "length es = 16" using okD(1) [OF relD(1) [OF rel] i(1)] by (simp add: es_def)
    show "identity (es ! j) = 0 \<longleftrightarrow> entry_owner (es ! j) = None" if "j < 16" for j
      using that okD(2) [OF relD(1) [OF rel]] by (simp add: at cleared_operation_def)
    show "identity (es ! j) \<le> last_identity r" if "j < 16" for j
      using that okD(3) [OF relD(1) [OF rel]] by (simp add: at cleared_operation_def)
    show "identity (es ! j) = 0" if "j < 16" "k < 16" "j \<noteq> k" "identity (es ! j) = identity (es ! k)" for j k
      using that okD(4) [OF relD(1) [OF rel]] by (auto simp: at cleared_operation_def split: if_splits)
  qed simp_all
  moreover have "((live s)(unat ident := None)) n = Some w \<longleftrightarrow> (\<exists>j < 16. unat (identity (es ! j)) = n \<and> entry_owner (es ! j) = Some w)" for n w
  proof -
    have "(\<exists>j < 16. unat (identity (es ! j)) = n \<and> entry_owner (es ! j) = Some w) \<longleftrightarrow>
        (\<exists>j < 16. j \<noteq> i \<and> unat (identity (operations r ! j)) = n \<and> entry_owner (operations r ! j) = Some w)"
    proof -
      have "(j < 16 \<and> unat (identity (es ! j)) = n \<and> entry_owner (es ! j) = Some w) \<longleftrightarrow>
          (j < 16 \<and> j \<noteq> i \<and> unat (identity (operations r ! j)) = n \<and> entry_owner (operations r ! j) = Some w)" for j
        by (cases "j < 16") (simp_all add: at cleared_operation_def)
      then show ?thesis by (intro ex_cong1)
    qed
    also have "\<dots> \<longleftrightarrow> n \<noteq> unat ident \<and> (\<exists>j < 16. unat (identity (operations r ! j)) = n \<and> entry_owner (operations r ! j) = Some w)"
      using other i(2) by (auto simp: word_unat_eq_iff [symmetric])
    finally show ?thesis using relD(3) [OF rel] by simp
  qed
  ultimately show ?thesis using relD(2) [OF rel] unfolding registry_rel_def es_def by simp
qed

lemma registry_step:
  assumes rel: "registry_rel s r"
  shows "fst (registry_apply c r) = fst (map_apply c s) \<and> registry_rel (snd (map_apply c s)) (snd (registry_apply c r))"
proof (cases c)
  case (Register own)
  show ?thesis
  proof (cases "own = None \<or> last_identity r = - 1")
    case True
    have "unat (- 1 :: u32) = 2 ^ 32 - 1" by (simp add: unsigned_minus_1_eq_mask mask_eq_exp_minus_1)
    then have "last_identity r = - 1 \<Longrightarrow> given s = 2 ^ 32 - 1" using relD(2) [OF rel] by simp
    then show ?thesis using True rel by (auto simp: Register operation_register_def split: option.split)
  next
    case False
    then obtain v where v: "own = Some v" by auto
    have bound: "given s \<noteq> 2 ^ 32 - 1"
    proof
      assume "given s = 2 ^ 32 - 1"
      then have "unat (last_identity r) = unat (- 1 :: u32)"
        using relD(2) [OF rel] by (simp add: unsigned_minus_1_eq_mask mask_eq_exp_minus_1)
      then show False using False by (simp add: word_unat_eq_iff)
    qed
    have new: "last_identity r + 1 = word_of_nat (given s + 1)" using relD(2) [OF rel] by simp
    show ?thesis
    proof (cases "find (\<lambda>i. entry_owner (operations r ! i) = None) [0..<OPERATION_CAPACITY]")
      case None
      then have "\<not> card (dom (live s)) < 16"
        using live_full [OF rel] by (simp add: find_index_None OPERATION_CAPACITY_def)
      then show ?thesis using None False rel v by (simp add: Register operation_register_def)
    next
      case (Some i)
      then have i: "i < 16" "entry_owner (operations r ! i) = None"
        using find_index_Some [OF Some] by (simp_all add: OPERATION_CAPACITY_def)
      then have "card (dom (live s)) < 16" using live_full [OF rel] by blast
      then show ?thesis
        using Some False bound v register_rel [OF rel _ i, of v] new
        by (simp add: Register operation_register_def Let_def add.commute)
    qed
  qed
next
  case (Lookup ident)
  show ?thesis
  proof (cases "ident = 0")
    case True
    then show ?thesis using live_zero [OF rel] rel by (simp add: Lookup operation_lookup_def)
  next
    case False
    then show ?thesis using rel_find [OF rel False] rel
      by (auto simp: Lookup operation_lookup_def OPERATION_CAPACITY_def split: option.splits)
  qed
next
  case (Remove ident)
  show ?thesis
  proof (cases "ident = 0")
    case True
    have "(live s)(0 := None) = live s" using live_zero [OF rel] by auto
    then show ?thesis using True live_zero [OF rel] rel by (simp add: Remove operation_remove_def)
  next
    case False
    show ?thesis
    proof (cases "find (\<lambda>i. identity (operations r ! i) = ident) [0..<16]")
      case None
      then have "(live s)(unat ident := None) = live s" "live s (unat ident) = None" using rel_find [OF rel False] by auto
      then show ?thesis using False None rel by (simp add: Remove operation_remove_def OPERATION_CAPACITY_def)
    next
      case (Some i)
      then show ?thesis using False rel_find [OF rel False] remove_rel [OF rel, of i ident]
        by (simp add: Remove operation_remove_def OPERATION_CAPACITY_def)
    qed
  qed
qed

interpretation registry: simulation map_apply registry_apply "\<lambda>n. registry_rel"
  by unfold_locales (use registry_step in blast)+

section \<open>Properties\<close>

text \<open>
  C26: the registry behaves like a map from numbers to owners with room for sixteen: the k-th
  successful registration gets the identity k, so none is given twice, also not after a removal; a
  lookup finds the owner until it is removed, one removal returns it, and an identity that was
  never given or was removed finds nothing.  A registration fails exactly when there is no owner,
  no room or no identity left.
\<close>

theorem wireless_registry_refines:
  "call_outputs registry_apply calls empty_registry = call_outputs map_apply calls \<lparr>live = (\<lambda>_. None), given = 0\<rparr>"
proof -
  have "registry_rel \<lparr>live = (\<lambda>_. None), given = 0\<rparr> empty_registry"
    unfolding registry_rel_def by (auto intro!: registry_okI simp: empty_registry_def OPERATION_CAPACITY_def cleared_operation_def)
  then show ?thesis by (rule registry.same_outputs)
qed

end
