(* ===== verification/Event_Queue.thy ===== *)
theory Event_Queue
  imports Simulation
begin

text \<open>
  \<open>esp32_mquickjs_event_queue_drain.c\<close>: putting events into a native queue from a task, a
  callback or an interrupt, and emptying it.  The queue belongs to the operating system: its
  operations are parameters, functions of the handle and of the world.  A function pointer, a
  handle or an event that may be \<open>NULL\<close> is an option; of the scratch buffer only its presence
  counts.
\<close>

section \<open>The operations\<close>

type_synonym ('d, 'e, 'w) event_send = "'d \<Rightarrow> 'e \<Rightarrow> 'w \<Rightarrow> bool \<times> 'w"
type_synonym ('d, 'e, 'w) event_send_isr = "'d \<Rightarrow> 'e \<Rightarrow> 'w \<Rightarrow> bool \<times> int \<times> 'w"
type_synonym ('d, 'e, 'w) event_receive = "'d \<Rightarrow> 'w \<Rightarrow> 'e option \<times> 'w"
type_synonym ('e, 'w) event_drop = "'e \<Rightarrow> 'w \<Rightarrow> 'w"

definition dropped_event :: "('e, 'w) event_drop option \<Rightarrow> 'e \<Rightarrow> 'w \<Rightarrow> 'w" where
  "dropped_event discard e w = (case discard of None \<Rightarrow> w | Some f \<Rightarrow> f e w)"

text \<open>The loop ends only when the queue has no event; \<open>None\<close> is a loop that does not end.\<close>

partial_function (option) drain_loop ::
  "('d, 'e, 'w) event_receive \<Rightarrow> 'd \<Rightarrow> ('e, 'w) event_drop option \<Rightarrow> u32 \<Rightarrow> 'w \<Rightarrow> (u32 \<times> 'w) option" where
  "drain_loop receive source discard drained w =
     (case receive source w of
        (None, w') \<Rightarrow> Some (drained, w')
      | (Some e, w') \<Rightarrow> drain_loop receive source discard (drained + 1) (dropped_event discard e w'))"

definition event_queue_drain ::
  "'d option \<Rightarrow> bool \<Rightarrow> ('d, 'e, 'w) event_receive option \<Rightarrow> ('e, 'w) event_drop option \<Rightarrow> 'w \<Rightarrow> (u32 \<times> 'w) option" where
  "event_queue_drain source scratch receive discard w =
     (case (source, scratch, receive) of
        (Some s, True, Some r) \<Rightarrow> drain_loop r s discard 0 w
      | _ \<Rightarrow> Some (0, w))"

text \<open>The count of lost events may be absent; the result is whether the event is in the queue.\<close>

definition add_dropped :: "u32 \<Rightarrow> u32 option \<Rightarrow> u32 option" where
  "add_dropped n = map_option (\<lambda>c. c + n)"

definition event_queue_enqueue ::
  "'d option \<Rightarrow> 'e option \<Rightarrow> bool \<Rightarrow> bool \<Rightarrow> ('d, 'e, 'w) event_send option \<Rightarrow> ('d, 'e, 'w) event_receive option \<Rightarrow>
   ('e, 'w) event_drop option \<Rightarrow> u32 option \<Rightarrow> 'w \<Rightarrow> bool \<times> u32 option \<times> 'w" where
  "event_queue_enqueue destination event scratch drop_oldest send receive discard dropped_count w =
     (case (destination, event, send) of
        (Some d, Some e, Some snd_fn) \<Rightarrow>
          let (sent, w) = snd_fn d e w
          in if sent then (True, dropped_count, w)
             else (case (drop_oldest \<and> scratch, receive) of
                 (True, Some rcv) \<Rightarrow>
                   (case rcv d w of
                      (None, w) \<Rightarrow> (False, add_dropped 1 dropped_count, w)
                    | (Some old, w) \<Rightarrow>
                        let (sent, w) = snd_fn d e (dropped_event discard old w)
                        in if sent then (True, add_dropped 1 dropped_count, w)
                           else (False, add_dropped (1 + 1) dropped_count, w))
               | _ \<Rightarrow> (False, add_dropped 1 dropped_count, w))
      | _ \<Rightarrow> (False, dropped_count, w))"

definition enqueue_from_callback ::
  "'d option \<Rightarrow> 'e option \<Rightarrow> ('d, 'e, 'w) event_send option \<Rightarrow> u32 option \<Rightarrow> 'w \<Rightarrow> bool \<times> u32 option \<times> 'w" where
  "enqueue_from_callback destination event try_send dropped_count w =
     (case (destination, event, try_send) of
        (Some d, Some e, Some send) \<Rightarrow>
          let (sent, w) = send d e w
          in if sent then (True, dropped_count, w) else (False, add_dropped 1 dropped_count, w)
      | _ \<Rightarrow> (False, dropped_count, w))"

text \<open>The send says whether it woke a task; the flag of the caller is only ever set.\<close>

definition enqueue_from_isr ::
  "'d option \<Rightarrow> 'e option \<Rightarrow> ('d, 'e, 'w) event_send_isr option \<Rightarrow> int option \<Rightarrow> u32 option \<Rightarrow> 'w \<Rightarrow>
   bool \<times> int option \<times> u32 option \<times> 'w" where
  "enqueue_from_isr destination event send task_woken dropped_count w =
     (case (destination, event, send) of
        (Some d, Some e, Some send) \<Rightarrow>
          let (sent, woken, w) = send d e w;
              task_woken = (if woken \<noteq> 0 then map_option (\<lambda>_. 1) task_woken else task_woken)
          in if sent then (True, task_woken, dropped_count, w)
             else (False, task_woken, add_dropped 1 dropped_count, w)
      | _ \<Rightarrow> (False, task_woken, dropped_count, w))"

section \<open>What the operating system's queue does\<close>

text \<open>
  \<open>queued\<close> reads the events in a queue off the world, \<open>released\<close> the events whose
  resources the discard function has freed.  The hypotheses are the documented behaviour of a queue
  of fixed length: a send that does not wait appends when there is room and otherwise fails, a
  receive takes the oldest event, and the discard function does not touch the queue.
\<close>

definition queue_laws ::
  "nat \<Rightarrow> ('w \<Rightarrow> 'e list) \<Rightarrow> ('w \<Rightarrow> 'e list) \<Rightarrow> 'd \<Rightarrow> ('d, 'e, 'w) event_send \<Rightarrow> ('d, 'e, 'w) event_send_isr \<Rightarrow>
   ('d, 'e, 'w) event_receive \<Rightarrow> ('e, 'w) event_drop \<Rightarrow> bool" where
  "queue_laws capacity queued released d send send_isr receive discard \<longleftrightarrow>
     (\<forall>e w. fst (send d e w) = (length (queued w) < capacity) \<and>
        queued (snd (send d e w)) = (if length (queued w) < capacity then queued w @ [e] else queued w) \<and>
        released (snd (send d e w)) = released w) \<and>
     (\<forall>e w. fst (send_isr d e w) = (length (queued w) < capacity) \<and>
        queued (snd (snd (send_isr d e w))) = (if length (queued w) < capacity then queued w @ [e] else queued w) \<and>
        released (snd (snd (send_isr d e w))) = released w) \<and>
     (\<forall>w. fst (receive d w) = (case queued w of [] \<Rightarrow> None | e # es \<Rightarrow> Some e) \<and>
        queued (snd (receive d w)) = tl (queued w) \<and> released (snd (receive d w)) = released w) \<and>
     (\<forall>e w. queued (discard e w) = queued w \<and> released (discard e w) = released w @ [e])"

lemma send_law:
  assumes "queue_laws capacity queued released d send send_isr receive discard" "send d e w = (sent, w')"
  shows "sent = (length (queued w) < capacity)" "queued w' = (if sent then queued w @ [e] else queued w)" "released w' = released w"
  using assms unfolding queue_laws_def by (metis fst_conv snd_conv)+

lemma send_isr_law:
  assumes "queue_laws capacity queued released d send send_isr receive discard" "send_isr d e w = (sent, woken, w')"
  shows "sent = (length (queued w) < capacity)" "queued w' = (if sent then queued w @ [e] else queued w)" "released w' = released w"
  using assms unfolding queue_laws_def by (metis fst_conv snd_conv)+

lemma receive_law:
  assumes "queue_laws capacity queued released d send send_isr receive discard" "receive d w = (got, w')"
  shows "got = (case queued w of [] \<Rightarrow> None | e # es \<Rightarrow> Some e)" "queued w' = tl (queued w)" "released w' = released w"
  using assms unfolding queue_laws_def by (metis fst_conv snd_conv)+

lemma discard_law:
  assumes "queue_laws capacity queued released d send send_isr receive discard"
  shows "queued (discard e w) = queued w" "released (discard e w) = released w @ [e]"
  using assms unfolding queue_laws_def by blast+

lemma drain_loop_laws:
  assumes laws: "queue_laws capacity queued released d send send_isr receive discard"
  shows "\<exists>w'. drain_loop receive d (Some discard) n w = Some (n + word_of_nat (length (queued w)), w') \<and>
    queued w' = [] \<and> released w' = released w @ queued w"
proof (induction "queued w" arbitrary: n w)
  case Nil
  obtain got w' where recv: "receive d w = (got, w')" by (cases "receive d w")
  show ?case using receive_law [OF laws recv] Nil [symmetric] recv by (simp add: drain_loop.simps [of receive d])
next
  case (Cons e es)
  obtain got w1 where recv: "receive d w = (got, w1)" by (cases "receive d w")
  note got = receive_law [OF laws recv, folded Cons.hyps(2), simplified]
  have "es = queued (discard e w1)" using got discard_law [OF laws] by simp
  from Cons.hyps(1) [OF this, of "n + 1"] obtain w' where
    w': "drain_loop receive d (Some discard) (n + 1) (discard e w1) = Some (n + 1 + word_of_nat (length es), w')"
      "queued w' = []" "released w' = released w @ e # es"
    using discard_law [OF laws] got by auto
  have "drain_loop receive d (Some discard) n w = drain_loop receive d (Some discard) (n + 1) (discard e w1)"
    using recv got(1) by (subst drain_loop.simps) (simp add: dropped_event_def)
  then show ?case using w' Cons.hyps(2) [symmetric] by (simp add: add.assoc)
qed

section \<open>The specification\<close>

text \<open>
  A bounded FIFO that loses the oldest or the newest event when it is full: the events in it, the
  events whose resources were freed, and the number of lost ones.
\<close>

record 'e bounded_fifo =
  items :: "'e list"
  freed :: "'e list"
  lost :: u32

datatype 'e event_call = From_Task bool 'e | From_Callback 'e | From_Isr 'e | Receive | Drain

datatype 'e event_answer = Sent bool | Received "'e option" | Drained u32

fun fifo_put :: "nat \<Rightarrow> bool \<Rightarrow> 'e \<Rightarrow> 'e bounded_fifo \<Rightarrow> 'e event_answer \<times> 'e bounded_fifo" where
  "fifo_put capacity drop_oldest e q =
     (if length (items q) < capacity then (Sent True, q\<lparr>items := items q @ [e]\<rparr>)
      else if drop_oldest then (Sent True, q\<lparr>items := tl (items q) @ [e], freed := freed q @ [hd (items q)], lost := lost q + 1\<rparr>)
      else (Sent False, q\<lparr>lost := lost q + 1\<rparr>))"

fun bounded_apply :: "nat \<Rightarrow> 'e event_call \<Rightarrow> 'e bounded_fifo \<Rightarrow> 'e event_answer \<times> 'e bounded_fifo" where
  "bounded_apply capacity (From_Task drop_oldest e) q = fifo_put capacity drop_oldest e q"
| "bounded_apply capacity (From_Callback e) q = fifo_put capacity False e q"
| "bounded_apply capacity (From_Isr e) q = fifo_put capacity False e q"
| "bounded_apply capacity Receive q =
     (Received (case items q of [] \<Rightarrow> None | e # _ \<Rightarrow> Some e), q\<lparr>items := tl (items q)\<rparr>)"
| "bounded_apply capacity Drain q = (Drained (word_of_nat (length (items q))), q\<lparr>items := [], freed := freed q @ items q\<rparr>)"

text \<open>The code with its parameters; a loop that does not end has no answer.\<close>

fun event_apply :: "'d \<Rightarrow> ('d, 'e, 'w) event_send \<Rightarrow> ('d, 'e, 'w) event_send_isr \<Rightarrow> ('d, 'e, 'w) event_receive \<Rightarrow>
    ('e, 'w) event_drop \<Rightarrow> 'e event_call \<Rightarrow> u32 \<times> 'w \<Rightarrow> 'e event_answer option \<times> u32 \<times> 'w" where
  "event_apply d send send_isr receive discard (From_Task drop_oldest e) (n, w) =
     (let (sent, n', w') = event_queue_enqueue (Some d) (Some e) True drop_oldest (Some send) (Some receive) (Some discard) (Some n) w
      in (Some (Sent sent), the n', w'))"
| "event_apply d send send_isr receive discard (From_Callback e) (n, w) =
     (let (sent, n', w') = enqueue_from_callback (Some d) (Some e) (Some send) (Some n) w in (Some (Sent sent), the n', w'))"
| "event_apply d send send_isr receive discard (From_Isr e) (n, w) =
     (let (sent, woken, n', w') = enqueue_from_isr (Some d) (Some e) (Some send_isr) (Some 0) (Some n) w
      in (Some (Sent sent), the n', w'))"
| "event_apply d send send_isr receive discard Receive (n, w) = (let (got, w') = receive d w in (Some (Received got), n, w'))"
| "event_apply d send send_isr receive discard Drain (n, w) =
     (case event_queue_drain (Some d) True (Some receive) (Some discard) w of
        None \<Rightarrow> (None, n, w)
      | Some (count, w') \<Rightarrow> (Some (Drained count), n, w'))"

lemma enqueue_step:
  assumes laws: "queue_laws capacity queued released d send send_isr receive discard"
    and "0 < capacity" "length (queued w) \<le> capacity"
    and eq: "event_queue_enqueue (Some d) (Some e) True drop_oldest (Some send) (Some receive) (Some discard) (Some n) w = (sent, n', w')"
  shows "fifo_put capacity drop_oldest e \<lparr>items = queued w, freed = released w, lost = n\<rparr> =
      (Sent sent, \<lparr>items = queued w', freed = released w', lost = the n'\<rparr>)"
proof -
  obtain sent1 w1 where s1: "send d e w = (sent1, w1)" by (cases "send d e w")
  note l1 = send_law [OF laws s1]
  show ?thesis
  proof (cases "sent1 \<or> \<not> drop_oldest")
    case True
    then show ?thesis using eq s1 l1 by (auto simp: event_queue_enqueue_def add_dropped_def split: if_splits)
  next
    case False
    obtain got w2 where r: "receive d w1 = (got, w2)" by (cases "receive d w1")
    note l2 = receive_law [OF laws r]
    have full: "length (queued w) = capacity" using False l1(1) assms(3) by simp
    then obtain old rest where q: "queued w = old # rest" using assms(2) by (cases "queued w") auto
    then have got: "got = Some old" "queued w2 = rest" using False l1(2) l2(1,2) by simp_all
    obtain sent3 w3 where s3: "send d e (discard old w2) = (sent3, w3)" by (cases "send d e (discard old w2)")
    note l3 = send_law [OF laws s3]
    have "sent3" "queued w3 = rest @ [e]" using l3(1,2) discard_law [OF laws] got(2) full q by auto
    moreover have "released w3 = released w @ [old]" using l3(3) discard_law [OF laws] l2(3) l1(3) by simp
    ultimately show ?thesis
      using eq False s1 r got(1) s3 full q by (auto simp: event_queue_enqueue_def dropped_event_def add_dropped_def)
  qed
qed

definition fifo_of :: "('w \<Rightarrow> 'e list) \<Rightarrow> ('w \<Rightarrow> 'e list) \<Rightarrow> u32 \<times> 'w \<Rightarrow> 'e bounded_fifo" where
  "fifo_of queued released s = \<lparr>items = queued (snd s), freed = released (snd s), lost = fst s\<rparr>"

lemma event_step:
  assumes laws: "queue_laws capacity queued released d send send_isr receive discard"
    and cap: "0 < capacity" "length (queued (snd s)) \<le> capacity"
    and call: "event_apply d send send_isr receive discard c s = (r, s')"
  shows "r = Some (fst (bounded_apply capacity c (fifo_of queued released s))) \<and>
    fifo_of queued released s' = snd (bounded_apply capacity c (fifo_of queued released s)) \<and> length (queued (snd s')) \<le> capacity"
proof -
  obtain n w where s: "s = (n, w)" by (cases s)
  have less: "length (items (snd (bounded_apply capacity c (fifo_of queued released s)))) \<le> capacity"
    using cap by (cases c) (auto simp: fifo_of_def)
  have "r = Some (fst (bounded_apply capacity c (fifo_of queued released s))) \<and>
    fifo_of queued released s' = snd (bounded_apply capacity c (fifo_of queued released s))"
  proof (cases c)
    case (From_Task drop_oldest e)
    show ?thesis
      using call enqueue_step [OF laws cap(1) cap(2) [unfolded s snd_conv], where drop_oldest = drop_oldest and e = e and n = n]
      by (auto simp: From_Task s fifo_of_def split: prod.splits)
  next
    case (From_Callback e)
    obtain sent w1 where s1: "send d e w = (sent, w1)" by (cases "send d e w")
    show ?thesis using call s1 send_law [OF laws s1]
      by (auto simp: From_Callback s fifo_of_def enqueue_from_callback_def add_dropped_def)
  next
    case (From_Isr e)
    obtain sent woken w1 where s1: "send_isr d e w = (sent, woken, w1)" by (cases "send_isr d e w")
    show ?thesis using call s1 send_isr_law [OF laws s1]
      by (auto simp: From_Isr s fifo_of_def enqueue_from_isr_def add_dropped_def Let_def)
  next
    case Receive
    obtain got w1 where r: "receive d w = (got, w1)" by (cases "receive d w")
    show ?thesis using call r receive_law [OF laws r] by (auto simp: Receive s fifo_of_def split: list.split)
  next
    case Drain
    obtain w1 where "drain_loop receive d (Some discard) 0 w = Some (0 + word_of_nat (length (queued w)), w1)"
      "queued w1 = []" "released w1 = released w @ queued w"
      using drain_loop_laws [OF laws, of 0 w] by blast
    then show ?thesis using call by (auto simp: Drain s fifo_of_def event_queue_drain_def)
  qed
  then show ?thesis using less by (metis (no_types, lifting) bounded_fifo.select_convs(1) fifo_of_def)
qed

section \<open>Properties\<close>

text \<open>
  C6: with a queue of fixed length from the operating system, whatever is enqueued from tasks,
  callbacks and interrupts, received and drained, the answers are those of a bounded FIFO: an
  event is refused only when the queue is full and the oldest must not be lost; every lost event is
  counted; the events evicted and drained are freed exactly once each, in their order; and the
  drain ends with the queue empty and returns how many events it took.
\<close>

theorem event_queue_refines_bounded_fifo:
  assumes "queue_laws capacity queued released d send send_isr receive discard" "0 < capacity"
    and "length (queued w) \<le> capacity"
  shows "call_outputs (event_apply d send send_isr receive discard) calls (n, w) =
      map Some (call_outputs (bounded_apply capacity) calls \<lparr>items = queued w, freed = released w, lost = n\<rparr>) \<and>
    fifo_of queued released (after_calls (event_apply d send send_isr receive discard) calls (n, w)) =
      after_calls (bounded_apply capacity) calls \<lparr>items = queued w, freed = released w, lost = n\<rparr>"
  using assms(3)
proof (induction calls arbitrary: n w)
  case (Cons c calls)
  obtain r n1 w1 where call: "event_apply d send send_isr receive discard c (n, w) = (r, n1, w1)"
    by (cases "event_apply d send send_isr receive discard c (n, w)")
  note step = event_step [OF assms(1,2) _ call, unfolded snd_conv, OF Cons.prems]
  then show ?case
    using Cons.IH [of w1 n1] call by (auto simp: fifo_of_def case_prod_unfold Let_def)
qed (simp add: fifo_of_def)

text \<open>A queue of two numbers: the world is the queue and the list of freed events.\<close>

definition put2 :: "unit \<Rightarrow> nat \<Rightarrow> nat list \<times> nat list \<Rightarrow> bool \<times> nat list \<times> nat list" where
  "put2 d e w = (if length (fst w) < 2 then (True, fst w @ [e], snd w) else (False, w))"

definition put2_isr :: "unit \<Rightarrow> nat \<Rightarrow> nat list \<times> nat list \<Rightarrow> bool \<times> int \<times> nat list \<times> nat list" where
  "put2_isr d e w = (let (ok, w') = put2 d e w in (ok, 0, w'))"

definition get2 :: "unit \<Rightarrow> nat list \<times> nat list \<Rightarrow> nat option \<times> nat list \<times> nat list" where
  "get2 d w = (case fst w of [] \<Rightarrow> (None, w) | e # es \<Rightarrow> (Some e, es, snd w))"

definition free2 :: "nat \<Rightarrow> nat list \<times> nat list \<Rightarrow> nat list \<times> nat list" where
  "free2 e w = (fst w, snd w @ [e])"

lemma event_queue_refines_bounded_fifo_witness:
  "call_outputs (event_apply () put2 put2_isr get2 free2)
      [From_Task True 1, From_Isr 2, From_Callback 3, From_Task True 4, Receive, Drain, Drain] (0, [], []) =
    map Some [Sent True, Sent True, Sent False, Sent True, Received (Some 2), Drained 1, Drained 0]"
proof -
  have "queue_laws 2 fst snd () put2 put2_isr get2 free2"
    by (auto simp: queue_laws_def put2_def put2_isr_def get2_def free2_def split: list.split)
  from event_queue_refines_bounded_fifo [OF this, of "([], [])"
      "[From_Task True 1, From_Isr 2, From_Callback 3, From_Task True 4, Receive, Drain, Drain]" 0]
  show ?thesis by simp
qed

end
