(* ===== verification/Native_Resources.thy ===== *)
theory Native_Resources
  imports Prelude
begin

text \<open>
  The sets of native resources that a component creates together and gives back together:
  \<open>esp32_mquickjs_event_queue_resources.c\<close>, \<open>esp32_mquickjs_future_runtime_resources.c\<close>,
  \<open>esp32_mquickjs_timer_resource.c\<close>, and the replacement of a file,
  \<open>esp32_mquickjs_fs_atomic_write.c\<close>.  The operations are parameters: tables of functions of
  the world, any of which may be missing.  A resource is a handle, \<open>None\<close> the null pointer.
\<close>

section \<open>An event queue\<close>

record 'h event_queue_resources =
  drain_scratch :: "'h option"
  overflow_scratch :: "'h option"
  send_lock :: "'h option"
  events :: "'h option"

record ('h, 'w) event_queue_ops =
  eq_allocate :: "(u32 \<Rightarrow> 'w \<Rightarrow> 'h option \<times> 'w) option"
  eq_release :: "('h \<Rightarrow> 'w \<Rightarrow> 'w) option"
  eq_create_lock :: "('w \<Rightarrow> 'h option \<times> 'w) option"
  eq_delete_lock :: "('h \<Rightarrow> 'w \<Rightarrow> 'w) option"
  eq_create_queue :: "(u32 \<Rightarrow> u32 \<Rightarrow> 'w \<Rightarrow> 'h option \<times> 'w) option"
  eq_delete_queue :: "('h \<Rightarrow> 'w \<Rightarrow> 'w) option"

definition no_event_resources :: "'h event_queue_resources" where
  "no_event_resources = \<lparr>drain_scratch = None, overflow_scratch = None, send_lock = None, events = None\<rparr>"

text \<open>\<open>if (resource != NULL && delete != NULL) delete(resource)\<close>\<close>

definition give_back :: "('h \<Rightarrow> 'w \<Rightarrow> 'w) option \<Rightarrow> 'h option \<Rightarrow> 'w \<Rightarrow> 'w" where
  "give_back delete h w = (case (h, delete) of (Some h, Some f) \<Rightarrow> f h w | _ \<Rightarrow> w)"

definition event_queue_resources_deinit ::
  "('h, 'w) event_queue_ops \<Rightarrow> 'h event_queue_resources \<Rightarrow> 'w \<Rightarrow> 'h event_queue_resources \<times> 'w" where
  "event_queue_resources_deinit ops r w =
     (let w = give_back (eq_delete_queue ops) (events r) w;
          w = give_back (eq_delete_lock ops) (send_lock r) w;
          w = give_back (eq_release ops) (overflow_scratch r) w;
          w = give_back (eq_release ops) (drain_scratch r) w
      in (no_event_resources, w))"

definition event_queue_resources_init ::
  "('h, 'w) event_queue_ops \<Rightarrow> u32 \<Rightarrow> u32 \<Rightarrow> bool \<Rightarrow> 'h event_queue_resources \<Rightarrow> 'w \<Rightarrow> bool \<times> 'h event_queue_resources \<times> 'w" where
  "event_queue_resources_init ops event_size capacity needs_overflow_scratch r w =
     (case (eq_allocate ops, eq_release ops, eq_create_lock ops, eq_delete_lock ops, eq_create_queue ops, eq_delete_queue ops) of
        (Some allocate, Some _, Some create_lock, Some _, Some create_queue, Some _) \<Rightarrow>
          if event_size = 0 \<or> capacity = 0 then (False, r, w)
          else
            let r = no_event_resources;
                (h, w) = allocate event_size w;
                r = r\<lparr>drain_scratch := h\<rparr>
            in if h = None then (False, event_queue_resources_deinit ops r w) else
            let (h, w) = (if needs_overflow_scratch then allocate event_size w else (None, w));
                r = (if needs_overflow_scratch then r\<lparr>overflow_scratch := h\<rparr> else r)
            in if needs_overflow_scratch \<and> h = None then (False, event_queue_resources_deinit ops r w) else
            let (h, w) = create_lock w;
                r = r\<lparr>send_lock := h\<rparr>
            in if h = None then (False, event_queue_resources_deinit ops r w) else
            let (h, w) = create_queue capacity event_size w;
                r = r\<lparr>events := h\<rparr>
            in if h = None then (False, event_queue_resources_deinit ops r w) else (True, r, w)
      | _ \<Rightarrow> (False, r, w))"

section \<open>The future runtime\<close>

record 'h future_resources =
  runtime_state :: "'h option"
  slots :: "'h option"
  submissions :: "'h option"
  ready :: "'h option"

record ('h, 'w) future_ops =
  fr_allocate :: "(u32 \<Rightarrow> u32 \<Rightarrow> 'w \<Rightarrow> 'h option \<times> 'w) option"
  fr_release :: "('h \<Rightarrow> 'w \<Rightarrow> 'w) option"
  fr_queue_create :: "(u32 \<Rightarrow> u32 \<Rightarrow> 'w \<Rightarrow> 'h option \<times> 'w) option"
  fr_queue_delete :: "('h \<Rightarrow> 'w \<Rightarrow> 'w) option"

definition no_future_resources :: "'h future_resources" where
  "no_future_resources = \<lparr>runtime_state = None, slots = None, submissions = None, ready = None\<rparr>"

text \<open>A resource whose operation is missing stays in the record.\<close>

definition kept :: "('h \<Rightarrow> 'w \<Rightarrow> 'w) option \<Rightarrow> 'h option \<Rightarrow> 'h option" where
  "kept delete h = (if delete \<noteq> None then None else h)"

definition future_resources_deinit ::
  "('h, 'w) future_ops \<Rightarrow> 'h future_resources \<Rightarrow> 'w \<Rightarrow> 'h future_resources \<times> 'w" where
  "future_resources_deinit ops r w =
     (let w = give_back (fr_queue_delete ops) (ready r) w;
          r = r\<lparr>ready := kept (fr_queue_delete ops) (ready r)\<rparr>;
          w = give_back (fr_queue_delete ops) (submissions r) w;
          r = r\<lparr>submissions := kept (fr_queue_delete ops) (submissions r)\<rparr>;
          w = give_back (fr_release ops) (slots r) w;
          r = r\<lparr>slots := kept (fr_release ops) (slots r)\<rparr>;
          w = give_back (fr_release ops) (runtime_state r) w;
          r = r\<lparr>runtime_state := kept (fr_release ops) (runtime_state r)\<rparr>
      in (r, w))"

definition future_resources_init ::
  "('h, 'w) future_ops \<Rightarrow> u32 \<Rightarrow> u32 \<Rightarrow> u32 \<Rightarrow> u32 \<Rightarrow> u32 \<Rightarrow> 'h future_resources \<Rightarrow> 'w \<Rightarrow>
   bool \<times> 'h future_resources \<times> 'w" where
  "future_resources_init ops runtime_state_size slot_count slot_size ready_queue_length token_size r w =
     (case (fr_allocate ops, fr_release ops, fr_queue_create ops, fr_queue_delete ops) of
        (Some allocate, Some _, Some queue_create, Some _) \<Rightarrow>
          if runtime_state_size = 0 \<or> slot_count = 0 \<or> slot_size = 0 \<or> ready_queue_length = 0 \<or> token_size = 0
          then (False, r, w)
          else
            let (h, w) = allocate 1 runtime_state_size w;
                r = no_future_resources\<lparr>runtime_state := h\<rparr>
            in if h = None then (False, future_resources_deinit ops r w) else
            let (h, w) = allocate slot_count slot_size w;
                r = r\<lparr>slots := h\<rparr>
            in if h = None then (False, future_resources_deinit ops r w) else
            let (h, w) = queue_create slot_count token_size w;
                r = r\<lparr>submissions := h\<rparr>
            in if h = None then (False, future_resources_deinit ops r w) else
            let (h, w) = queue_create ready_queue_length token_size w;
                r = r\<lparr>ready := h\<rparr>
            in if h = None then (False, future_resources_deinit ops r w) else (True, r, w)
      | _ \<Rightarrow> (False, r, w))"

section \<open>A timer\<close>

record 'h timer_resource =
  timer :: "'h option"
  started :: bool

record ('h, 'w) timer_ops =
  tm_create :: "('w \<Rightarrow> int \<times> 'h option \<times> 'w) option"
  tm_start :: "('h \<Rightarrow> 'w \<Rightarrow> int \<times> 'w) option"
  tm_stop :: "('h \<Rightarrow> 'w \<Rightarrow> 'w) option"
  tm_delete :: "('h \<Rightarrow> 'w \<Rightarrow> 'w) option"

definition TIMER_RESOURCE_INVALID :: int where "TIMER_RESOURCE_INVALID = - 1"

definition timer_resource_stop :: "('h, 'w) timer_ops \<Rightarrow> 'h timer_resource \<Rightarrow> 'w \<Rightarrow> 'h timer_resource \<times> 'w" where
  "timer_resource_stop ops r w =
     (if timer r = None \<or> \<not> started r then (r, w) else (r\<lparr>started := False\<rparr>, give_back (tm_stop ops) (timer r) w))"

definition timer_resource_deinit :: "('h, 'w) timer_ops \<Rightarrow> 'h timer_resource \<Rightarrow> 'w \<Rightarrow> 'h timer_resource \<times> 'w" where
  "timer_resource_deinit ops r w =
     (if timer r = None then (r\<lparr>started := False\<rparr>, w)
      else let (r, w) = timer_resource_stop ops r w
        in case tm_delete ops of
             None \<Rightarrow> (r, w)
           | Some delete \<Rightarrow> (r\<lparr>timer := None\<rparr>, delete (the (timer r)) w))"

text \<open>
  The creation writes the handle through a pointer; a failed one may leave what was there, which
  is the null pointer.
\<close>

definition timer_resource_acquire :: "('h, 'w) timer_ops \<Rightarrow> 'h timer_resource \<Rightarrow> 'w \<Rightarrow> int \<times> 'h timer_resource \<times> 'w" where
  "timer_resource_acquire ops r w =
     (case tm_create ops of
        None \<Rightarrow> (TIMER_RESOURCE_INVALID, r, w)
      | Some create \<Rightarrow>
          if tm_stop ops = None \<or> tm_delete ops = None \<or> timer r \<noteq> None then (TIMER_RESOURCE_INVALID, r, w)
          else let r = r\<lparr>started := False\<rparr>;
                   (result, h, w) = create w;
                   r = r\<lparr>timer := h\<rparr>
            in if result \<noteq> 0 \<or> h = None
               then (if result = 0 then TIMER_RESOURCE_INVALID else result, timer_resource_deinit ops r w)
               else (0, r, w))"

definition timer_resource_start :: "('h, 'w) timer_ops \<Rightarrow> 'h timer_resource \<Rightarrow> 'w \<Rightarrow> int \<times> 'h timer_resource \<times> 'w" where
  "timer_resource_start ops r w =
     (case (tm_start ops, timer r) of
        (Some start, Some h) \<Rightarrow>
          if started r then (TIMER_RESOURCE_INVALID, r, w)
          else let (result, w) = start h w
            in if result \<noteq> 0 then (result, r, w) else (0, r\<lparr>started := True\<rparr>, w)
      | _ \<Rightarrow> (TIMER_RESOURCE_INVALID, r, w))"

definition timer_resource_init :: "('h, 'w) timer_ops \<Rightarrow> 'h timer_resource \<Rightarrow> 'w \<Rightarrow> int \<times> 'h timer_resource \<times> 'w" where
  "timer_resource_init ops r w =
     (let r = \<lparr>timer = None, started = False\<rparr>;
          (result, r, w) = timer_resource_acquire ops r w;
          (result, r, w) = (if result = 0 then timer_resource_start ops r w else (result, r, w))
      in (result, if result \<noteq> 0 then timer_resource_deinit ops r w else (r, w)))"

section \<open>The replacement of a file\<close>

record ('h, 'w) atomic_write_ops =
  aw_open_temp :: "(string \<Rightarrow> nat \<Rightarrow> 'w \<Rightarrow> int \<times> string \<times> 'h option \<times> 'w) option"
  aw_write_sync_close :: "('h \<Rightarrow> bytes option \<Rightarrow> nat \<Rightarrow> 'w \<Rightarrow> int \<times> 'w) option"
  aw_replace :: "(string \<Rightarrow> string \<Rightarrow> 'w \<Rightarrow> int \<times> 'w) option"
  aw_remove_temp :: "(string \<Rightarrow> 'w \<Rightarrow> 'w) option"

text \<open>The error numbers of the C library.\<close>

definition EINVAL :: int where "EINVAL = 22"
definition EIO :: int where "EIO = 5"

text \<open>The opening operation writes the temporary path into the caller's buffer of the given size.\<close>

definition fs_atomic_write ::
  "('h, 'w) atomic_write_ops \<Rightarrow> string option \<Rightarrow> bytes option \<Rightarrow> nat \<Rightarrow> nat \<Rightarrow> 'w \<Rightarrow> int \<times> 'w" where
  "fs_atomic_write ops target_path data data_length temp_path_size w =
     (case (target_path, aw_open_temp ops, aw_write_sync_close ops, aw_replace ops, aw_remove_temp ops) of
        (Some target, Some open_temp, Some write_sync_close, Some replace, Some remove_temp) \<Rightarrow>
          if (data = None \<and> data_length \<noteq> 0) \<or> temp_path_size = 0 then (EINVAL, w)
          else let (result, temp_path, handle, w) = open_temp target temp_path_size w
            in if result \<noteq> 0 then (result, w)
               else (case handle of
                   None \<Rightarrow> (EIO, remove_temp temp_path w)
                 | Some handle \<Rightarrow>
                     let (result, w) = write_sync_close handle data data_length w;
                         (result, w) = (if result = 0 then replace temp_path target w else (result, w))
                     in (result, if result \<noteq> 0 then remove_temp temp_path w else w))
      | _ \<Rightarrow> (EINVAL, w))"

section \<open>Live resources\<close>

text \<open>
  \<open>live\<close> reads the live handles off the world: a creation adds a new one or nothing, a
  deletion removes its handle.
\<close>

definition creates :: "('w \<Rightarrow> 'h set) \<Rightarrow> ('w \<Rightarrow> 'h option \<times> 'w) \<Rightarrow> bool" where
  "creates live f \<longleftrightarrow> (\<forall>w. set_option (fst (f w)) \<inter> live w = {} \<and> live (snd (f w)) = live w \<union> set_option (fst (f w)))"

definition deletes :: "('w \<Rightarrow> 'h set) \<Rightarrow> ('h \<Rightarrow> 'w \<Rightarrow> 'w) option \<Rightarrow> bool" where
  "deletes live f \<longleftrightarrow> (\<exists>g. f = Some g \<and> (\<forall>h w. live (g h w) = live w - {h}))"

lemma createsD: "creates live f \<Longrightarrow> f w = (h, w') \<Longrightarrow> set_option h \<inter> live w = {} \<and> live w' = live w \<union> set_option h"
  unfolding creates_def by (metis fst_conv snd_conv)

lemma deletes_live: "deletes live f \<Longrightarrow> live (give_back f h w) = live w - set_option h"
  by (auto simp: deletes_def give_back_def split: option.split)

lemma deletes_kept: "deletes live f \<Longrightarrow> kept f h = None"
  by (auto simp: deletes_def kept_def)

definition event_ops_ok :: "('w \<Rightarrow> 'h set) \<Rightarrow> ('h, 'w) event_queue_ops \<Rightarrow> bool" where
  "event_ops_ok live ops \<longleftrightarrow> (\<exists>allocate create_lock create_queue.
     eq_allocate ops = Some allocate \<and> eq_create_lock ops = Some create_lock \<and> eq_create_queue ops = Some create_queue \<and>
     (\<forall>n. creates live (allocate n)) \<and> creates live create_lock \<and> (\<forall>n m. creates live (create_queue n m)) \<and>
     deletes live (eq_release ops) \<and> deletes live (eq_delete_lock ops) \<and> deletes live (eq_delete_queue ops))"

definition future_ops_ok :: "('w \<Rightarrow> 'h set) \<Rightarrow> ('h, 'w) future_ops \<Rightarrow> bool" where
  "future_ops_ok live ops \<longleftrightarrow> (\<exists>allocate queue_create.
     fr_allocate ops = Some allocate \<and> fr_queue_create ops = Some queue_create \<and>
     (\<forall>n m. creates live (allocate n m)) \<and> (\<forall>n m. creates live (queue_create n m)) \<and>
     deletes live (fr_release ops) \<and> deletes live (fr_queue_delete ops))"

definition event_handles :: "'h event_queue_resources \<Rightarrow> 'h option list" where
  "event_handles r = [drain_scratch r, overflow_scratch r, send_lock r, events r]"

definition future_handles :: "'h future_resources \<Rightarrow> 'h option list" where
  "future_handles r = [runtime_state r, slots r, submissions r, ready r]"

lemma handles_of [simp]:
  "event_handles \<lparr>drain_scratch = a, overflow_scratch = b, send_lock = c, events = d\<rparr> = [a, b, c, d]"
  "future_handles \<lparr>runtime_state = a, slots = b, submissions = c, ready = d\<rparr> = [a, b, c, d]"
  by (simp_all add: event_handles_def future_handles_def)

text \<open>The handles of a list of pointers, and when they are exactly what a successful creation added.\<close>

definition handles :: "'h option list \<Rightarrow> 'h list" where
  "handles hs = concat (map (\<lambda>h. case h of None \<Rightarrow> [] | Some h \<Rightarrow> [h]) hs)"

lemma handles_simps [simp]:
  "handles [] = []" "handles (None # hs) = handles hs" "handles (Some h # hs) = h # handles hs"
  by (simp_all add: handles_def)

definition all_or_nothing :: "('w \<Rightarrow> 'h set) \<Rightarrow> 'w \<Rightarrow> nat \<Rightarrow> bool \<Rightarrow> 'h option list \<Rightarrow> 'w \<Rightarrow> bool" where
  "all_or_nothing live w n ok hs w' \<longleftrightarrow>
     length (handles hs) = (if ok then n else 0) \<and> distinct (handles hs) \<and>
     set (handles hs) \<inter> live w = {} \<and> live w' = live w \<union> set (handles hs)"

lemma event_deinit_live:
  assumes "event_ops_ok live ops"
  shows "fst (event_queue_resources_deinit ops r w) = no_event_resources \<and>
    live (snd (event_queue_resources_deinit ops r w)) = live w - set (handles (event_handles r))"
proof -
  obtain "deletes live (eq_release ops)" "deletes live (eq_delete_lock ops)" "deletes live (eq_delete_queue ops)"
    using assms by (auto simp: event_ops_ok_def)
  then show ?thesis
    by (cases "drain_scratch r"; cases "overflow_scratch r"; cases "send_lock r"; cases "events r")
      (auto simp: event_queue_resources_deinit_def Let_def deletes_live event_handles_def)
qed

lemma future_deinit_live:
  assumes "future_ops_ok live ops"
  shows "fst (future_resources_deinit ops r w) = no_future_resources \<and>
    live (snd (future_resources_deinit ops r w)) = live w - set (handles (future_handles r))"
proof -
  obtain "deletes live (fr_release ops)" "deletes live (fr_queue_delete ops)" using assms by (auto simp: future_ops_ok_def)
  then show ?thesis
    by (cases "runtime_state r"; cases "slots r"; cases "submissions r"; cases "ready r")
      (auto simp: future_resources_deinit_def Let_def deletes_live deletes_kept future_handles_def no_future_resources_def)
qed

text \<open>What is held after a number of creations, each of which added its handle or nothing.\<close>

definition acquired :: "('w \<Rightarrow> 'h set) \<Rightarrow> 'w \<Rightarrow> 'h option list \<Rightarrow> 'w \<Rightarrow> bool" where
  "acquired live w hs v \<longleftrightarrow> distinct (handles hs) \<and> set (handles hs) \<inter> live w = {} \<and> live v = live w \<union> set (handles hs)"

lemma handles_append: "handles (hs @ hs') = handles hs @ handles hs'"
  by (simp add: handles_def)

lemma acquired_start: "acquired live w [] w"
  by (simp add: acquired_def)

lemma acquired_next:
  assumes "acquired live w hs v" "creates live f" "f v = (h, v')"
  shows "acquired live w (hs @ [h]) v'"
  using assms(1) createsD [OF assms(2,3)] by (cases h) (auto simp: acquired_def handles_append)

lemma acquired_skip: "acquired live w hs v \<Longrightarrow> acquired live w (hs @ [None]) v"
  by (simp add: acquired_def handles_append)

lemma acquired_same: "acquired live w hs v \<Longrightarrow> handles hs' = handles hs \<Longrightarrow> acquired live w hs' v"
  by (simp add: acquired_def)

lemma acquired_all: "acquired live w hs v \<Longrightarrow> length (handles hs) = n \<Longrightarrow> all_or_nothing live w n True hs v"
  by (simp add: acquired_def all_or_nothing_def)

lemma acquired_undone:
  assumes "acquired live w hs v" "handles hs' = []" "live v' = live v - set (handles hs)"
  shows "all_or_nothing live w n False hs' v'"
  using assms by (auto simp: acquired_def all_or_nothing_def)

lemma event_undone:
  assumes "event_ops_ok live ops" "acquired live w (event_handles q) v" "event_queue_resources_deinit ops q v = (r', w')"
  shows "all_or_nothing live w n False (event_handles r') w'"
  using event_deinit_live [OF assms(1), of q v] assms(2,3)
  by (intro acquired_undone [OF assms(2)]) (auto simp: no_event_resources_def)

lemma future_undone:
  assumes "future_ops_ok live ops" "acquired live w (future_handles q) v" "future_resources_deinit ops q v = (r', w')"
  shows "all_or_nothing live w n False (future_handles r') w'"
  using future_deinit_live [OF assms(1), of q v] assms(2,3)
  by (intro acquired_undone [OF assms(2)]) (auto simp: no_future_resources_def)

lemma event_init_all_or_nothing:
  assumes ok: "event_ops_ok live ops" and sizes: "event_size \<noteq> 0" "capacity \<noteq> 0"
    and init: "event_queue_resources_init ops event_size capacity overflow r w = (result, r', w')"
  shows "all_or_nothing live w (if overflow then 4 else 3) result (event_handles r') w'"
proof -
  obtain allocate create_lock create_queue release delete_lock delete_queue where ops:
    "eq_allocate ops = Some allocate" "eq_create_lock ops = Some create_lock" "eq_create_queue ops = Some create_queue"
    "eq_release ops = Some release" "eq_delete_lock ops = Some delete_lock" "eq_delete_queue ops = Some delete_queue"
    and laws: "creates live (allocate event_size)" "creates live create_lock" "creates live (create_queue capacity event_size)"
    using ok by (auto simp: event_ops_ok_def deletes_def)
  obtain h1 w1 where c1: "allocate event_size w = (h1, w1)" by (cases "allocate event_size w")
  obtain h2 w2 where c2: "(if overflow then allocate event_size w1 else (None, w1)) = (h2, w2)"
    by (cases "if overflow then allocate event_size w1 else (None, w1)")
  obtain h3 w3 where c3: "create_lock w2 = (h3, w3)" by (cases "create_lock w2")
  obtain h4 w4 where c4: "create_queue capacity event_size w3 = (h4, w4)" by (cases "create_queue capacity event_size w3")
  have a1: "acquired live w [h1] w1" using acquired_next [OF acquired_start laws(1) c1] by simp
  have a2: "acquired live w [h1, h2] w2"
    using acquired_next [OF a1 laws(1)] acquired_skip [OF a1] c2 by (auto split: if_splits)
  note a3 = acquired_next [OF a2 laws(2) c3, simplified] and a4 = acquired_next [OF acquired_next [OF a2 laws(2) c3] laws(3) c4, simplified]
  have eq: "(result, r', w') =
     (if h1 = None then (False, event_queue_resources_deinit ops \<lparr>drain_scratch = h1, overflow_scratch = None, send_lock = None, events = None\<rparr> w1)
      else if overflow \<and> h2 = None then (False, event_queue_resources_deinit ops \<lparr>drain_scratch = h1, overflow_scratch = h2, send_lock = None, events = None\<rparr> w2)
      else if h3 = None then (False, event_queue_resources_deinit ops \<lparr>drain_scratch = h1, overflow_scratch = h2, send_lock = h3, events = None\<rparr> w3)
      else if h4 = None then (False, event_queue_resources_deinit ops \<lparr>drain_scratch = h1, overflow_scratch = h2, send_lock = h3, events = h4\<rparr> w4)
      else (True, \<lparr>drain_scratch = h1, overflow_scratch = h2, send_lock = h3, events = h4\<rparr>, w4))"
    using init [unfolded event_queue_resources_init_def ops] c1 c2 c3 c4 sizes
    by (simp add: Let_def no_event_resources_def split: if_splits)
  note undone = event_undone [OF ok]
  show ?thesis
    using eq a1 a2 a3 a4 c2
    by (auto split: if_splits intro!: undone acquired_all elim: acquired_same)
qed

lemma future_init_all_or_nothing:
  assumes ok: "future_ops_ok live ops"
    and sizes: "state_size \<noteq> 0" "slot_count \<noteq> 0" "slot_size \<noteq> 0" "queue_length \<noteq> 0" "token_size \<noteq> 0"
    and init: "future_resources_init ops state_size slot_count slot_size queue_length token_size r w = (result, r', w')"
  shows "all_or_nothing live w 4 result (future_handles r') w'"
proof -
  obtain allocate queue_create release queue_delete where ops:
    "fr_allocate ops = Some allocate" "fr_queue_create ops = Some queue_create"
    "fr_release ops = Some release" "fr_queue_delete ops = Some queue_delete"
    and laws: "creates live (allocate 1 state_size)" "creates live (allocate slot_count slot_size)"
      "creates live (queue_create slot_count token_size)" "creates live (queue_create queue_length token_size)"
    using ok by (auto simp: future_ops_ok_def deletes_def)
  obtain h1 w1 where c1: "allocate 1 state_size w = (h1, w1)" by (cases "allocate 1 state_size w")
  obtain h2 w2 where c2: "allocate slot_count slot_size w1 = (h2, w2)" by (cases "allocate slot_count slot_size w1")
  obtain h3 w3 where c3: "queue_create slot_count token_size w2 = (h3, w3)" by (cases "queue_create slot_count token_size w2")
  obtain h4 w4 where c4: "queue_create queue_length token_size w3 = (h4, w4)" by (cases "queue_create queue_length token_size w3")
  note a1 = acquired_next [OF acquired_start laws(1) c1, simplified]
  note a2 = acquired_next [OF a1 laws(2) c2, simplified]
  note a3 = acquired_next [OF a2 laws(3) c3, simplified]
  note a4 = acquired_next [OF a3 laws(4) c4, simplified]
  have eq: "(result, r', w') =
     (if h1 = None then (False, future_resources_deinit ops \<lparr>runtime_state = h1, slots = None, submissions = None, ready = None\<rparr> w1)
      else if h2 = None then (False, future_resources_deinit ops \<lparr>runtime_state = h1, slots = h2, submissions = None, ready = None\<rparr> w2)
      else if h3 = None then (False, future_resources_deinit ops \<lparr>runtime_state = h1, slots = h2, submissions = h3, ready = None\<rparr> w3)
      else if h4 = None then (False, future_resources_deinit ops \<lparr>runtime_state = h1, slots = h2, submissions = h3, ready = h4\<rparr> w4)
      else (True, \<lparr>runtime_state = h1, slots = h2, submissions = h3, ready = h4\<rparr>, w4))"
    using init [unfolded future_resources_init_def ops] c1 c2 c3 c4 sizes
    by (simp add: Let_def no_future_resources_def split: if_splits)
  note undone = future_undone [OF ok]
  show ?thesis
    using eq a1 a2 a3 a4 by (auto split: if_splits intro!: undone acquired_all elim: acquired_same)
qed

text \<open>The timer: whatever its creation and its start answer, it runs or it is gone.\<close>

definition timer_ops_ok :: "('w \<Rightarrow> 'h set) \<Rightarrow> ('h, 'w) timer_ops \<Rightarrow> bool" where
  "timer_ops_ok live ops \<longleftrightarrow> (\<exists>create start stop.
     tm_create ops = Some create \<and> tm_start ops = Some start \<and> tm_stop ops = Some stop \<and>
     creates live (\<lambda>w. snd (create w)) \<and> (\<forall>h w. live (snd (start h w)) = live w) \<and> (\<forall>h w. live (stop h w) = live w) \<and>
     deletes live (tm_delete ops))"

lemma timer_deinit_live:
  assumes "timer_ops_ok live ops"
  shows "timer_resource_deinit ops r w = (r', w') \<Longrightarrow>
    r' = \<lparr>timer = None, started = False\<rparr> \<and> live w' = live w - set_option (timer r)"
  using assms
  by (cases r) (auto simp: timer_ops_ok_def deletes_def timer_resource_deinit_def timer_resource_stop_def give_back_def
      split: if_splits option.splits)

lemma timer_init_all_or_nothing:
  assumes ok: "timer_ops_ok live ops" and init: "timer_resource_init ops r w = (result, r', w')"
  shows "all_or_nothing live w 1 (result = 0) [timer r'] w' \<and> started r' = (result = 0)"
proof -
  obtain create start stop delete where ops:
    "tm_create ops = Some create" "tm_start ops = Some start" "tm_stop ops = Some stop" "tm_delete ops = Some delete"
    and laws: "creates live (\<lambda>w. snd (create w))" "\<And>h w. live (snd (start h w)) = live w"
    using ok by (auto simp: timer_ops_ok_def deletes_def)
  obtain c h w1 where c: "create w = (c, h, w1)" by (cases "create w")
  have h: "set_option h \<inter> live w = {}" "live w1 = live w \<union> set_option h" using createsD [OF laws(1), of w h w1] c by simp_all
  note undo = timer_deinit_live [OF ok]
  show ?thesis
  proof (cases "c = 0 \<and> h \<noteq> None")
    case False
    obtain q v where d: "timer_resource_deinit ops \<lparr>timer = h, started = False\<rparr> w1 = (q, v)"
      by (cases "timer_resource_deinit ops \<lparr>timer = h, started = False\<rparr> w1")
    note q = undo [OF d]
    obtain q' v' where d': "timer_resource_deinit ops q v = (q', v')" by (cases "timer_resource_deinit ops q v")
    note q' = undo [OF d']
    have "(if c = 0 then TIMER_RESOURCE_INVALID else c) \<noteq> 0" by (simp add: TIMER_RESOURCE_INVALID_def)
    then show ?thesis
      using init False c d d' q q' h ops
      by (auto simp: timer_resource_init_def timer_resource_acquire_def Let_def all_or_nothing_def split: if_splits)
  next
    case True
    then obtain k where k: "h = Some k" by auto
    obtain c' w2 where s: "start k w1 = (c', w2)" by (cases "start k w1")
    obtain q v where d: "timer_resource_deinit ops \<lparr>timer = h, started = False\<rparr> w2 = (q, v)"
      by (cases "timer_resource_deinit ops \<lparr>timer = h, started = False\<rparr> w2")
    note q = undo [OF d]
    have "live w2 = live w1" using laws(2) [of k w1] s by simp
    then show ?thesis
      using init True k c s d q h ops
      by (auto simp: timer_resource_init_def timer_resource_acquire_def timer_resource_start_def Let_def all_or_nothing_def
          split: if_splits)
  qed
qed

section \<open>Files\<close>

text \<open>
  \<open>files\<close> reads the contents of the files off the world, \<open>temp_of\<close> is the path a handle
  was opened for.  Opening creates a new file; the write changes that file only, and when it
  succeeds the file holds the data; a replacement moves the file or does nothing.
\<close>

definition atomic_laws ::
  "('w \<Rightarrow> string \<rightharpoonup> bytes) \<Rightarrow> ('h \<Rightarrow> string) \<Rightarrow> (string \<Rightarrow> nat \<Rightarrow> 'w \<Rightarrow> int \<times> string \<times> 'h option \<times> 'w) \<Rightarrow>
   ('h \<Rightarrow> bytes option \<Rightarrow> nat \<Rightarrow> 'w \<Rightarrow> int \<times> 'w) \<Rightarrow> (string \<Rightarrow> string \<Rightarrow> 'w \<Rightarrow> int \<times> 'w) \<Rightarrow> (string \<Rightarrow> 'w \<Rightarrow> 'w) \<Rightarrow> bool" where
  "atomic_laws files temp_of open_temp wsc mv unlink \<longleftrightarrow>
     (\<forall>target n w result temp h w'. open_temp target n w = (result, temp, h, w') \<longrightarrow>
        (if result = 0 then files w temp = None \<and> (\<exists>b. files w' = (files w)(temp := b)) \<and> (h = None \<or> temp_of (the h) = temp)
         else files w' = files w)) \<and>
     (\<forall>h data n w result w'. wsc h data n w = (result, w') \<longrightarrow>
        (\<exists>b. files w' = (files w)(temp_of h := b) \<and> (result \<noteq> 0 \<or> b = Some (bytes_at data n)))) \<and>
     (\<forall>temp target w result w'. mv temp target w = (result, w') \<longrightarrow>
        files w' = (if result = 0 then ((files w)(temp := None))(target := files w temp) else files w)) \<and>
     (\<forall>temp w. files (unlink temp w) = (files w)(temp := None))"

lemma atomic_lawsD:
  assumes "atomic_laws files temp_of open_temp wsc mv unlink"
  shows "open_temp target n w = (result, temp, h, w') \<Longrightarrow>
      (if result = 0 then files w temp = None \<and> (\<exists>b. files w' = (files w)(temp := b)) \<and> (h = None \<or> temp_of (the h) = temp)
       else files w' = files w)"
    "wsc k data m w = (result, w') \<Longrightarrow> \<exists>b. files w' = (files w)(temp_of k := b) \<and> (result \<noteq> 0 \<or> b = Some (bytes_at data m))"
    "mv temp target w = (result, w') \<Longrightarrow>
      files w' = (if result = 0 then ((files w)(temp := None))(target := files w temp) else files w)"
    "files (unlink temp w) = (files w)(temp := None)"
  using assms unfolding atomic_laws_def by blast+

lemma restored: "files w1 = (files w)(temp := b) \<Longrightarrow> files w temp = None \<Longrightarrow> (files w1)(temp := None) = files w"
  by auto

section \<open>Properties\<close>

text \<open>
  C33: the native resources of an event queue, of the future runtime and of a timer are created
  all or not at all.  After a creation that succeeded every pointer of the component holds its own
  new resource; after one that failed, at whichever step, no pointer is left and nothing that was
  created on the way is still alive.  Giving them back leaves the world as it was.
\<close>

theorem native_resources_all_or_nothing:
  assumes "event_ops_ok live ops" "event_size \<noteq> 0" "capacity \<noteq> 0"
    and "event_queue_resources_init ops event_size capacity overflow r w = (ok, r', w')"
    and "future_ops_ok live fops" "state_size \<noteq> 0" "slot_count \<noteq> 0" "slot_size \<noteq> 0" "queue_length \<noteq> 0" "token_size \<noteq> 0"
    and "future_resources_init fops state_size slot_count slot_size queue_length token_size f w' = (fok, f', w'')"
    and "timer_ops_ok live tops" "timer_resource_init tops t w'' = (result, t', w''')"
  shows "all_or_nothing live w (if overflow then 4 else 3) ok (event_handles r') w' \<and>
    all_or_nothing live w' 4 fok (future_handles f') w'' \<and>
    all_or_nothing live w'' 1 (result = 0) [timer t'] w''' \<and>
    live (snd (event_queue_resources_deinit ops r' (snd (future_resources_deinit fops f'
      (snd (timer_resource_deinit tops t' w''')))))) = live w"
proof -
  note e = event_init_all_or_nothing [OF assms(1-4)]
  note f = future_init_all_or_nothing [OF assms(5-11)]
  note t = timer_init_all_or_nothing [OF assms(12,13), THEN conjunct1]
  obtain t2 w2 where d: "timer_resource_deinit tops t' w''' = (t2, w2)" by (cases "timer_resource_deinit tops t' w'''")
  have "live w2 = live w''"
    using timer_deinit_live [OF assms(12) d] t by (cases "timer t'") (auto simp: all_or_nothing_def)
  then show ?thesis
    using e f t d event_deinit_live [OF assms(1)] future_deinit_live [OF assms(5)] by (auto simp: all_or_nothing_def)
qed

text \<open>A world with room for seven resources, which are numbers that are not in use.\<close>

definition make7 :: "nat list \<Rightarrow> nat option \<times> nat list" where
  "make7 w = (if length w < 7 then (Some (Suc (sum_list w)), Suc (sum_list w) # w) else (None, w))"

definition drop7 :: "nat \<Rightarrow> nat list \<Rightarrow> nat list" where
  "drop7 h w = filter (\<lambda>k. k \<noteq> h) w"

lemma make7_creates: "creates set make7"
proof -
  have "h \<le> sum_list w" if "h \<in> set w" for h :: nat and w using that by (intro member_le_sum_list) simp_all
  then have "Suc (sum_list w) \<notin> set w" for w :: "nat list" by (metis not_less_eq_eq order_refl)
  then show ?thesis by (auto simp: creates_def make7_def)
qed

lemma drop7_deletes: "deletes set (Some drop7)"
  by (auto simp: deletes_def drop7_def)

definition event_ops7 :: "(nat, nat list) event_queue_ops" where
  "event_ops7 = \<lparr>eq_allocate = Some (\<lambda>n. make7), eq_release = Some drop7, eq_create_lock = Some make7,
     eq_delete_lock = Some drop7, eq_create_queue = Some (\<lambda>n m. make7), eq_delete_queue = Some drop7\<rparr>"

definition future_ops7 :: "(nat, nat list) future_ops" where
  "future_ops7 = \<lparr>fr_allocate = Some (\<lambda>n m. make7), fr_release = Some drop7, fr_queue_create = Some (\<lambda>n m. make7),
     fr_queue_delete = Some drop7\<rparr>"

definition timer_ops7 :: "(nat, nat list) timer_ops" where
  "timer_ops7 = \<lparr>tm_create = Some (\<lambda>w. (0, make7 w)), tm_start = Some (\<lambda>h w. (0, w)), tm_stop = Some (\<lambda>h w. w), tm_delete = Some drop7\<rparr>"

lemma native_resources_all_or_nothing_witness:
  "\<exists>r' f' t'. event_queue_resources_init event_ops7 12 8 True no_event_resources [] = (True, r', [8, 4, 2, 1]) \<and>
    future_resources_init future_ops7 64 8 100 17 4 no_future_resources [8, 4, 2, 1] = (False, f', [8, 4, 2, 1]) \<and>
    timer_resource_init timer_ops7 \<lparr>timer = None, started = False\<rparr> [8, 4, 2, 1] = (0, t', [16, 8, 4, 2, 1]) \<and>
    all_or_nothing set [8, 4, 2, 1 :: nat] 4 False (future_handles f') [8, 4, 2, 1]"
proof -
  have e: "\<exists>r'. event_queue_resources_init event_ops7 12 8 True no_event_resources [] = (True, r', [8, 4, 2, 1])"
    by (simp add: event_queue_resources_init_def event_ops7_def make7_def no_event_resources_def)
  have f: "\<exists>f'. future_resources_init future_ops7 64 8 100 17 4 no_future_resources [8, 4, 2, 1] = (False, f', [8, 4, 2, 1])"
    by (simp add: future_resources_init_def future_resources_deinit_def give_back_def kept_def drop7_def future_ops7_def make7_def
        no_future_resources_def Let_def)
  have t: "\<exists>t'. timer_resource_init timer_ops7 \<lparr>timer = None, started = False\<rparr> [8, 4, 2, 1] = (0, t', [16, 8, 4, 2, 1])"
    by (simp add: timer_resource_init_def timer_resource_acquire_def timer_resource_start_def timer_ops7_def make7_def Let_def)
  obtain r' where r': "event_queue_resources_init event_ops7 12 8 True no_event_resources [] = (True, r', [8, 4, 2, 1])" using e by blast
  obtain f' where f': "future_resources_init future_ops7 64 8 100 17 4 no_future_resources [8, 4, 2, 1] = (False, f', [8, 4, 2, 1])"
    using f by blast
  obtain t' where t': "timer_resource_init timer_ops7 \<lparr>timer = None, started = False\<rparr> [8, 4, 2, 1] = (0, t', [16, 8, 4, 2, 1])"
    using t by blast
  have ok: "event_ops_ok set event_ops7" "future_ops_ok set future_ops7" "timer_ops_ok set timer_ops7"
    using make7_creates drop7_deletes
    by (simp_all add: event_ops_ok_def event_ops7_def future_ops_ok_def future_ops7_def timer_ops_ok_def timer_ops7_def)
  show ?thesis
    using native_resources_all_or_nothing [OF ok(1) _ _ r' ok(2) _ _ _ _ _ f' ok(3) t'] r' f' t' by auto
qed

text \<open>
  C34: the replacement of a file is atomic whatever fails: when it reports success the target
  holds exactly the new data and every other file is unchanged, and when it reports an error every
  file, the target included, is as it was, and the temporary file is gone.
\<close>

theorem fs_atomic_write_atomic:
  assumes "atomic_laws files temp_of open_temp wsc mv unlink"
    and "fs_atomic_write \<lparr>aw_open_temp = Some open_temp, aw_write_sync_close = Some wsc, aw_replace = Some mv, aw_remove_temp = Some unlink\<rparr>
      target_path data data_length temp_path_size w = (result, w')"
  shows "files w' = (if result = 0 then (files w)(the target_path \<mapsto> bytes_at data data_length) else files w)"
proof -
  note laws = atomic_lawsD [OF assms(1)]
  note removed = laws(4)
  note def = assms(2) [unfolded fs_atomic_write_def, simplified]
  show ?thesis
  proof (cases "target_path = None \<or> (data = None \<and> data_length \<noteq> 0) \<or> temp_path_size = 0")
    case True
    then show ?thesis using def by (auto simp: EINVAL_def split: option.splits)
  next
    case False
    then obtain target where target: "target_path = Some target" by auto
    have valid: "\<not> (data = None \<and> 0 < data_length)" "0 < temp_path_size" using False by auto
    obtain r1 temp h w1 where o: "open_temp target temp_path_size w = (r1, temp, h, w1)"
      by (cases "open_temp target temp_path_size w")
    show ?thesis
    proof (cases "r1 = 0")
      case r1: False
      then show ?thesis using def valid target o laws(1) [OF o] by auto
    next
      case r1: True
      note o' = laws(1) [OF o, unfolded r1, simplified]
      then obtain b where b: "files w1 = (files w)(temp := b)" by blast
      show ?thesis
      proof (cases h)
        case None
        then show ?thesis using def valid target o r1 removed [of temp w1] restored [of files w1 w temp b] b o' by (auto simp: EIO_def)
      next
        case (Some k)
        obtain r2 w2 where wr: "wsc k data data_length w1 = (r2, w2)" by (cases "wsc k data data_length w1")
        obtain c where c: "files w2 = (files w)(temp := c)" "r2 \<noteq> 0 \<or> c = Some (bytes_at data data_length)"
          using laws(2) [OF wr] o' b Some by auto
        obtain r3 w3 where re: "mv temp target w2 = (r3, w3)" by (cases "mv temp target w2")
        note re' = laws(3) [OF re]
        show ?thesis
        proof (cases "r2 = 0 \<and> r3 = 0")
          case True
          then have "files w3 = (files w)(target \<mapsto> bytes_at data data_length)"
            using re' c restored [of files w2 w temp c] o' by simp
          then show ?thesis using def valid target o r1 Some wr re True by simp
        next
          case bad: False
          then have "files (if r2 = 0 then w3 else w2) = (files w)(temp := c)" using re' c(1) by simp
          then have "files (unlink temp (if r2 = 0 then w3 else w2)) = files w"
            unfolding removed using restored [of files _ w temp c] o' by blast
          then show ?thesis using def valid target o r1 Some wr re bad by (auto split: if_splits)
        qed
      qed
    qed
  qed
qed

text \<open>
  A file system whose world is the map of the files; the replacement works unless the target is
  read-only, which is a file with the single byte 0.
\<close>

definition open_map :: "string \<Rightarrow> nat \<Rightarrow> (string \<rightharpoonup> bytes) \<Rightarrow> int \<times> string \<times> string option \<times> (string \<rightharpoonup> bytes)" where
  "open_map target n w = (if w (target @ ''.tmp'') \<noteq> None then (17, [], None, w)
     else (0, target @ ''.tmp'', Some (target @ ''.tmp''), w(target @ ''.tmp'' \<mapsto> [])))"

definition write_map :: "string \<Rightarrow> bytes option \<Rightarrow> nat \<Rightarrow> (string \<rightharpoonup> bytes) \<Rightarrow> int \<times> (string \<rightharpoonup> bytes)" where
  "write_map h data n w = (0, w(h \<mapsto> bytes_at data n))"

definition move_map :: "string \<Rightarrow> string \<Rightarrow> (string \<rightharpoonup> bytes) \<Rightarrow> int \<times> (string \<rightharpoonup> bytes)" where
  "move_map temp target w = (if w target = Some [0] then (30, w) else (0, (w(temp := None))(target := w temp)))"

lemma fs_atomic_write_atomic_witness:
  "\<exists>w1 w2. fs_atomic_write \<lparr>aw_open_temp = Some open_map, aw_write_sync_close = Some write_map, aw_replace = Some move_map,
        aw_remove_temp = Some (\<lambda>temp w. w(temp := None))\<rparr> (Some ''a'') (Some [1, 2]) 2 64 [''a'' \<mapsto> [7]] = (0, w1) \<and>
      w1 = [''a'' \<mapsto> [1, 2]] \<and>
    fs_atomic_write \<lparr>aw_open_temp = Some open_map, aw_write_sync_close = Some write_map, aw_replace = Some move_map,
        aw_remove_temp = Some (\<lambda>temp w. w(temp := None))\<rparr> (Some ''a'') (Some [1, 2]) 2 64 [''a'' \<mapsto> [0]] = (30, w2) \<and>
      w2 = [''a'' \<mapsto> [0]]"
proof -
  define ops where "ops = \<lparr>aw_open_temp = Some open_map, aw_write_sync_close = Some write_map, aw_replace = Some move_map,
      aw_remove_temp = Some (\<lambda>temp w. w(temp := None))\<rparr>"
  note defs = fs_atomic_write_def ops_def open_map_def write_map_def move_map_def
  have laws: "atomic_laws (\<lambda>w. w) (\<lambda>h. h) open_map write_map move_map (\<lambda>temp w. w(temp := None))"
    by (auto simp: atomic_laws_def open_map_def write_map_def move_map_def)
  have "fst (fs_atomic_write ops (Some ''a'') (Some [1, 2]) 2 64 [''a'' \<mapsto> [7]]) = 0" by (simp add: defs)
  then obtain w1 where w1: "fs_atomic_write ops (Some ''a'') (Some [1, 2]) 2 64 [''a'' \<mapsto> [7]] = (0, w1)" by (metis prod.collapse)
  have "fst (fs_atomic_write ops (Some ''a'') (Some [1, 2]) 2 64 [''a'' \<mapsto> [0]]) = 30" by (simp add: defs)
  then obtain w2 where w2: "fs_atomic_write ops (Some ''a'') (Some [1, 2]) 2 64 [''a'' \<mapsto> [0]] = (30, w2)" by (metis prod.collapse)
  show ?thesis
    using fs_atomic_write_atomic [OF laws w1 [unfolded ops_def]] fs_atomic_write_atomic [OF laws w2 [unfolded ops_def]] w1 w2
    by (auto simp: ops_def)
qed

end
