(* ===== verification/Raw_Tx_Queue.thy ===== *)
theory Raw_Tx_Queue
  imports Prelude "HOL-Library.Monad_Syntax"
begin

text \<open>
  \<open>esp32_mquickjs_wifi_raw_tx_queue.c\<close>: the queue of raw frames that wait for the radio.
  Packets live in the slots of an array; those that wait are linked through \<open>next\<close> from the
  head to the tail, in batches that are admitted and evicted together; those in flight were handed
  to the driver and come back in any order; flush watches count what becomes of everything that was
  admitted before them.

  An access outside an array is \<open>None\<close>, and so is a loop that does not end.  An index that
  may be \<open>NONE\<close> is an option.  The counters are natural numbers: the last sequence number
  stays below \<open>2 ^ 32\<close> by the guard of \<open>admit\<close>, the others below it or below the capacity.
  A payload is the address and the length of its bytes, which the queue never reads.  Whether the
  objects of a caller overlap is an argument, the outcome of the code's address comparisons;
  payloads are compared by their addresses.
\<close>

section \<open>Data\<close>

definition UINT32_MAX :: nat where "UINT32_MAX = 2 ^ 32 - 1"
definition TX_MAX_PACKETS :: nat where "TX_MAX_PACKETS = 128"
definition TX_MAX_FLUSHES :: nat where "TX_MAX_FLUSHES = 8"
definition TX_MIN_FRAME_BYTES :: nat where "TX_MIN_FRAME_BYTES = 24"
definition TX_MAX_FRAME_BYTES :: nat where "TX_MAX_FRAME_BYTES = 1500"
definition TX_DEFAULT_MAX_IN_FLIGHT :: nat where "TX_DEFAULT_MAX_IN_FLIGHT = 1"

lemmas tx_limits = UINT32_MAX_def TX_MAX_PACKETS_def TX_MAX_FLUSHES_def TX_MIN_FRAME_BYTES_def
  TX_MAX_FRAME_BYTES_def TX_DEFAULT_MAX_IN_FLIGHT_def

record tx_payload =
  pl_data :: u32
  pl_length :: nat

record tx_ticket =
  tk_generation :: u32
  tk_sequence :: nat

datatype tx_result = TX_OK | TX_INVALID | TX_FULL | TX_CLOSED | TX_EXHAUSTED

datatype tx_overflow = REJECT_NEWEST | DROP_OLDEST_BATCH

datatype tx_outcome = OUT_SUCCESS | OUT_FAILED | OUT_UNKNOWN | OUT_REJECTED | OUT_ABORTED

record tx_totals =
  t_admitted :: nat
  t_submitted :: nat
  t_settled :: nat
  t_succeeded :: nat
  t_failed :: nat
  t_unknown :: nat
  t_rejected :: nat
  t_aborted :: nat
  t_dropped :: nat

record tx_admission =
  ad_generation :: u32
  ad_first_sequence :: nat
  ad_last_sequence :: nat
  ad_batch_sequence :: nat
  ad_admitted_packets :: nat
  ad_evicted_packets :: nat
  ad_evicted_batches :: nat

record tx_flush_token =
  ft_generation :: u32
  ft_identity :: u32
  ft_index :: nat

record tx_flush_status =
  fs_generation :: u32
  fs_fence :: nat
  fs_pending :: nat
  fs_totals :: tx_totals

record tx_slot =
  sl_payload :: tx_payload
  sl_sequence :: nat
  sl_batch :: nat
  sl_next :: "nat option"
  sl_allocated :: bool
  sl_accepted :: bool
  sl_in_flight :: bool
  sl_started :: bool

record tx_flush_watch =
  fw_identity :: u32
  fw_status :: tx_flush_status

record tx_queue =
  q_initialized :: bool
  q_closed :: bool
  q_generation :: u32
  q_last_sequence :: nat
  q_next_flush :: u32
  q_active_batch :: nat
  q_capacity :: nat
  q_head :: "nat option"
  q_tail :: "nat option"
  q_active :: "nat option"
  q_queued :: nat
  q_free :: nat
  q_max_in_flight :: nat
  q_in_flight :: nat
  q_capacity_bytes :: nat
  q_used_bytes :: nat
  q_high_water :: nat
  q_slots :: "tx_slot list"
  q_totals :: tx_totals
  q_flushes :: "tx_flush_watch list"

text \<open>What \<open>memset\<close> leaves: the next index is 0, not \<open>NONE\<close>.\<close>

definition no_payload :: tx_payload where "no_payload = \<lparr>pl_data = 0, pl_length = 0\<rparr>"
definition no_ticket :: tx_ticket where "no_ticket = \<lparr>tk_generation = 0, tk_sequence = 0\<rparr>"
definition no_token :: tx_flush_token where "no_token = \<lparr>ft_generation = 0, ft_identity = 0, ft_index = 0\<rparr>"
definition no_totals :: tx_totals where
  "no_totals = \<lparr>t_admitted = 0, t_submitted = 0, t_settled = 0, t_succeeded = 0, t_failed = 0, t_unknown = 0,
     t_rejected = 0, t_aborted = 0, t_dropped = 0\<rparr>"
definition no_watch :: tx_flush_watch where
  "no_watch = \<lparr>fw_identity = 0, fw_status = \<lparr>fs_generation = 0, fs_fence = 0, fs_pending = 0, fs_totals = no_totals\<rparr>\<rparr>"
definition free_slot :: tx_slot where
  "free_slot = \<lparr>sl_payload = no_payload, sl_sequence = 0, sl_batch = 0, sl_next = Some 0, sl_allocated = False,
     sl_accepted = False, sl_in_flight = False, sl_started = False\<rparr>"
definition zero_queue :: tx_queue where
  "zero_queue = \<lparr>q_initialized = False, q_closed = False, q_generation = 0, q_last_sequence = 0, q_next_flush = 0,
     q_active_batch = 0, q_capacity = 0, q_head = Some 0, q_tail = Some 0, q_active = Some 0, q_queued = 0, q_free = 0,
     q_max_in_flight = 0, q_in_flight = 0, q_capacity_bytes = 0, q_used_bytes = 0, q_high_water = 0, q_slots = [],
     q_totals = no_totals, q_flushes = replicate 8 no_watch\<rparr>"

text \<open>Access to the arrays.\<close>

definition slot_at :: "tx_slot list \<Rightarrow> nat \<Rightarrow> tx_slot option" where
  "slot_at ss i = (if i < length ss then Some (ss ! i) else None)"

definition put_at :: "'a list \<Rightarrow> nat \<Rightarrow> 'a \<Rightarrow> 'a list option" where
  "put_at xs i x = (if i < length xs then Some (xs[i := x]) else None)"

section \<open>Checks\<close>

definition overlaps :: "u32 \<Rightarrow> u32 \<Rightarrow> u32 \<Rightarrow> u32 \<Rightarrow> bool" where
  "overlaps a an b bn =
     (if a = 0 \<or> b = 0 \<or> an > - 1 - a \<or> bn > - 1 - b then True else a < b + bn \<and> b < a + an)"

definition payloads_overlap :: "tx_payload \<Rightarrow> tx_payload \<Rightarrow> bool" where
  "payloads_overlap p r = overlaps (pl_data p) (of_nat (pl_length p)) (pl_data r) (of_nat (pl_length r))"

definition queue_valid :: "tx_queue \<Rightarrow> bool" where
  "queue_valid q \<longleftrightarrow> q_initialized q \<and> q_generation q \<noteq> 0 \<and> q_capacity q \<noteq> 0 \<and> q_capacity q \<le> TX_MAX_PACKETS"

text \<open>The payload part of \<open>aliases_queue\<close>: the bytes overlap those of an allocated slot.\<close>

definition aliases_payloads :: "tx_queue \<Rightarrow> tx_payload \<Rightarrow> bool" where
  "aliases_payloads q p \<longleftrightarrow>
     list_ex (\<lambda>i. sl_allocated (q_slots q ! i) \<and> payloads_overlap (sl_payload (q_slots q ! i)) p) [0..<q_capacity q]"

definition empty_outputs :: "tx_queue \<Rightarrow> tx_payload list option \<Rightarrow> bool" where
  "empty_outputs q removed \<longleftrightarrow>
     (case removed of
        None \<Rightarrow> False
      | Some rs \<Rightarrow> length rs \<ge> q_capacity q \<and>
          list_all (\<lambda>i. pl_data (rs ! i) = 0 \<and> pl_length (rs ! i) = 0) [0..<q_capacity q])"

section \<open>Set-up\<close>

definition tx_queue_init :: "bool \<Rightarrow> tx_slot list option \<Rightarrow> nat \<Rightarrow> u32 \<Rightarrow> tx_queue \<Rightarrow> bool \<times> tx_queue" where
  "tx_queue_init objects_overlap slots capacity generation q =
     (if slots = None \<or> capacity = 0 \<or> capacity > TX_MAX_PACKETS \<or> generation = 0 \<or> q_initialized q \<or> objects_overlap
      then (False, q)
      else (True, \<lparr>q_initialized = True, q_closed = False, q_generation = generation, q_last_sequence = 0, q_next_flush = 1,
        q_active_batch = 0, q_capacity = capacity, q_head = None, q_tail = None, q_active = None, q_queued = 0,
        q_free = capacity, q_max_in_flight = TX_DEFAULT_MAX_IN_FLIGHT, q_in_flight = 0,
        q_capacity_bytes = capacity * TX_MAX_FRAME_BYTES, q_used_bytes = 0, q_high_water = 0,
        q_slots = replicate capacity free_slot @ drop capacity (the slots), q_totals = no_totals,
        q_flushes = replicate TX_MAX_FLUSHES no_watch\<rparr>))"

definition tx_queue_limits :: "nat \<Rightarrow> nat \<Rightarrow> tx_queue \<Rightarrow> bool \<times> tx_queue" where
  "tx_queue_limits byte_limit window q =
     (if \<not> queue_valid q \<or> q_closed q \<or> q_last_sequence q \<noteq> 0 \<or> byte_limit < TX_MIN_FRAME_BYTES \<or>
         byte_limit > q_capacity q * TX_MAX_FRAME_BYTES \<or> window = 0 \<or> window > q_capacity q then (False, q)
      else (True, q\<lparr>q_capacity_bytes := byte_limit, q_max_in_flight := window\<rparr>))"

definition tx_queue_writable :: "nat \<Rightarrow> nat \<Rightarrow> tx_queue \<Rightarrow> bool" where
  "tx_queue_writable packets byte_count q \<longleftrightarrow>
     queue_valid q \<and> \<not> q_closed q \<and> packets \<noteq> 0 \<and> packets \<le> q_free q \<and>
     packets \<le> UINT32_MAX - q_last_sequence q \<and> byte_count \<le> q_capacity_bytes q - q_used_bytes q"

section \<open>Accounting\<close>

definition count_terminal :: "tx_outcome \<Rightarrow> bool \<Rightarrow> tx_totals \<Rightarrow> tx_totals" where
  "count_terminal outcome was_dropped t =
     (let t = t\<lparr>t_settled := t_settled t + 1\<rparr>
      in if was_dropped then t\<lparr>t_dropped := t_dropped t + 1\<rparr>
         else case outcome of
             OUT_SUCCESS \<Rightarrow> t\<lparr>t_succeeded := t_succeeded t + 1\<rparr>
           | OUT_FAILED \<Rightarrow> t\<lparr>t_failed := t_failed t + 1\<rparr>
           | OUT_UNKNOWN \<Rightarrow> t\<lparr>t_unknown := t_unknown t + 1\<rparr>
           | OUT_REJECTED \<Rightarrow> t\<lparr>t_rejected := t_rejected t + 1\<rparr>
           | OUT_ABORTED \<Rightarrow> t\<lparr>t_aborted := t_aborted t + 1\<rparr>)"

definition settle_watch :: "nat \<Rightarrow> tx_outcome \<Rightarrow> bool \<Rightarrow> tx_flush_watch \<Rightarrow> tx_flush_watch" where
  "settle_watch sequence outcome was_dropped watch =
     (if fw_identity watch = 0 \<or> sequence > fs_fence (fw_status watch) then watch
      else watch\<lparr>fw_status := (fw_status watch)
        \<lparr>fs_totals := count_terminal outcome was_dropped (fs_totals (fw_status watch)),
         fs_pending := fs_pending (fw_status watch) - 1\<rparr>\<rparr>)"

definition settle :: "nat \<Rightarrow> tx_outcome \<Rightarrow> bool \<Rightarrow> tx_queue \<Rightarrow> tx_queue" where
  "settle sequence outcome was_dropped q =
     q\<lparr>q_totals := count_terminal outcome was_dropped (q_totals q),
       q_flushes := map (settle_watch sequence outcome was_dropped) (q_flushes q)\<rparr>"

definition drop_slot :: "nat \<Rightarrow> tx_queue \<Rightarrow> (tx_payload \<times> tx_queue) option" where
  "drop_slot i q = do {
     slot \<leftarrow> slot_at (q_slots q) i;
     let q = q\<lparr>q_used_bytes := q_used_bytes q - pl_length (sl_payload slot)\<rparr>;
     let q = settle (sl_sequence slot) OUT_ABORTED True q;
     Some (sl_payload slot, q\<lparr>q_slots := (q_slots q)[i := free_slot], q_free := q_free q + 1, q_queued := q_queued q - 1\<rparr>)
   }"

section \<open>Eviction\<close>

text \<open>The packets of started batches, which stay: the last of them and the first of the others.\<close>

partial_function (option) skip_started :: "tx_slot list \<Rightarrow> nat option \<Rightarrow> nat option \<Rightarrow> (nat option \<times> nat option) option" where
  "skip_started ss previous first =
     (case first of
        None \<Rightarrow> Some (previous, None)
      | Some i \<Rightarrow> do {
          s \<leftarrow> slot_at ss i;
          (if sl_started s then skip_started ss first (sl_next s) else Some (previous, first))
        })"

partial_function (option) drop_batch ::
  "nat \<Rightarrow> nat option \<Rightarrow> tx_queue \<Rightarrow> tx_payload list \<Rightarrow> nat \<Rightarrow> (nat option \<times> tx_queue \<times> tx_payload list \<times> nat) option" where
  "drop_batch batch at q removed n =
     (case at of
        None \<Rightarrow> Some (None, q, removed, n)
      | Some i \<Rightarrow> do {
          s \<leftarrow> slot_at (q_slots q) i;
          (if sl_batch s = batch
           then do {
             (p, q) \<leftarrow> drop_slot i q;
             removed \<leftarrow> put_at removed n p;
             drop_batch batch (sl_next s) q removed (n + 1)
           }
           else Some (at, q, removed, n))
        })"

definition set_next :: "nat \<Rightarrow> nat option \<Rightarrow> tx_queue \<Rightarrow> tx_queue option" where
  "set_next i next_index q = do {
     s \<leftarrow> slot_at (q_slots q) i;
     Some (q\<lparr>q_slots := (q_slots q)[i := s\<lparr>sl_next := next_index\<rparr>]\<rparr>)
   }"

definition evict_batch ::
  "tx_queue \<times> tx_payload list \<times> tx_admission \<Rightarrow> (tx_queue \<times> tx_payload list \<times> tx_admission) option" where
  "evict_batch s = (case s of (q, removed, result) \<Rightarrow> do {
     (previous, first) \<leftarrow> skip_started (q_slots q) None (q_head q);
     first_index \<leftarrow> first;
     first_slot \<leftarrow> slot_at (q_slots q) first_index;
     (at, q, removed, n) \<leftarrow> drop_batch (sl_batch first_slot) first q removed (ad_evicted_packets result);
     q \<leftarrow> (case previous of None \<Rightarrow> Some (q\<lparr>q_head := at\<rparr>) | Some p \<Rightarrow> set_next p at q);
     let q = (if at = None then q\<lparr>q_tail := previous\<rparr> else q);
     Some (q, removed, result\<lparr>ad_evicted_packets := n, ad_evicted_batches := ad_evicted_batches result + 1\<rparr>)
   })"

section \<open>Admission\<close>

text \<open>The checks of the frames and the sum of their lengths; \<open>None\<close> is a frame that is refused.\<close>

definition bad_frame :: "(tx_payload \<Rightarrow> bool) \<Rightarrow> tx_queue \<Rightarrow> tx_payload list \<Rightarrow> tx_payload \<Rightarrow> bool" where
  "bad_frame in_objects q earlier f \<longleftrightarrow>
     pl_data f = 0 \<or> pl_length f < TX_MIN_FRAME_BYTES \<or> pl_length f > TX_MAX_FRAME_BYTES \<or>
     aliases_payloads q f \<or> in_objects f \<or> list_ex (payloads_overlap f) earlier"

fun check_frames :: "(tx_payload \<Rightarrow> bool) \<Rightarrow> tx_queue \<Rightarrow> tx_payload list \<Rightarrow> tx_payload list \<Rightarrow> nat \<Rightarrow> nat option" where
  "check_frames in_objects q earlier [] incoming_bytes = Some incoming_bytes"
| "check_frames in_objects q earlier (f # fs) incoming_bytes =
     (if bad_frame in_objects q earlier f then None
      else check_frames in_objects q (earlier @ [f]) fs (incoming_bytes + pl_length f))"

partial_function (option) count_evictable :: "tx_slot list \<Rightarrow> nat option \<Rightarrow> nat \<Rightarrow> nat \<Rightarrow> (nat \<times> nat) option" where
  "count_evictable ss at evictable evictable_bytes =
     (case at of
        None \<Rightarrow> Some (evictable, evictable_bytes)
      | Some i \<Rightarrow> do {
          s \<leftarrow> slot_at ss i;
          (if \<not> sl_started s
           then count_evictable ss (sl_next s) (evictable + 1) (evictable_bytes + pl_length (sl_payload s))
           else count_evictable ss (sl_next s) evictable evictable_bytes)
        })"

definition no_room :: "nat \<Rightarrow> nat \<Rightarrow> tx_queue \<Rightarrow> bool" where
  "no_room count incoming_bytes q \<longleftrightarrow> q_free q < count \<or> incoming_bytes > q_capacity_bytes q - q_used_bytes q"

partial_function (option) evict_loop ::
  "nat \<Rightarrow> nat \<Rightarrow> tx_queue \<times> tx_payload list \<times> tx_admission \<Rightarrow> (tx_queue \<times> tx_payload list \<times> tx_admission) option" where
  "evict_loop count incoming_bytes s =
     (if no_room count incoming_bytes (fst s) then do {
        s \<leftarrow> evict_batch s;
        evict_loop count incoming_bytes s
      } else Some s)"

function first_free :: "tx_slot list \<Rightarrow> nat \<Rightarrow> nat option" where
  "first_free ss i =
     (if i \<ge> length ss then None else if sl_allocated (ss ! i) then first_free ss (i + 1) else Some i)"
  by pat_completeness auto
termination by (relation "measure (\<lambda>(ss, i). length ss - i)") auto

declare first_free.simps [simp del]

definition insert_frame :: "tx_payload \<Rightarrow> nat \<Rightarrow> nat \<Rightarrow> tx_queue \<Rightarrow> tx_queue option" where
  "insert_frame f sequence batch q = do {
     i \<leftarrow> first_free (q_slots q) 0;
     let q = q\<lparr>q_slots := (q_slots q)[i := \<lparr>sl_payload = f, sl_sequence = sequence, sl_batch = batch, sl_next = None,
       sl_allocated = True, sl_accepted = False, sl_in_flight = False, sl_started = False\<rparr>]\<rparr>;
     q \<leftarrow> (case q_tail q of None \<Rightarrow> Some (q\<lparr>q_head := Some i\<rparr>) | Some t \<Rightarrow> set_next t (Some i) q);
     Some (q\<lparr>q_tail := Some i, q_queued := q_queued q + 1, q_free := q_free q - 1\<rparr>)
   }"

fun insert_frames :: "tx_payload list \<Rightarrow> nat \<Rightarrow> nat \<Rightarrow> tx_queue \<Rightarrow> tx_queue option" where
  "insert_frames [] sequence batch q = Some q"
| "insert_frames (f # fs) sequence batch q = do {
     q \<leftarrow> insert_frame f sequence batch q;
     insert_frames fs (sequence + 1) batch q
   }"

text \<open>
  The result: the answer, the caller's frame descriptors, the removed payloads, the admission that
  was written, and the queue.
\<close>

definition tx_queue_admit ::
  "bool \<Rightarrow> (tx_payload \<Rightarrow> bool) \<Rightarrow> tx_payload list option \<Rightarrow> tx_overflow \<Rightarrow> tx_payload list option \<Rightarrow> tx_queue \<Rightarrow>
   (tx_result \<times> tx_payload list option \<times> tx_payload list option \<times> tx_admission option \<times> tx_queue) option" where
  "tx_queue_admit objects_overlap in_objects frames overflow removed q =
     (let refuse = (\<lambda>r. Some (r, frames, removed, None, q));
          fs = (case frames of None \<Rightarrow> [] | Some fs \<Rightarrow> fs);
          count = length fs
      in if \<not> queue_valid q \<or> frames = None \<or> count = 0 \<or> count > q_capacity q \<or> objects_overlap \<or> \<not> empty_outputs q removed
         then refuse TX_INVALID
         else if q_closed q then refuse TX_CLOSED
         else if count > UINT32_MAX - q_last_sequence q then refuse TX_EXHAUSTED
         else case check_frames in_objects q [] fs 0 of
             None \<Rightarrow> refuse TX_INVALID
           | Some incoming_bytes \<Rightarrow>
               if incoming_bytes > q_capacity_bytes q then refuse TX_FULL
               else do {
                 full \<leftarrow> (if no_room count incoming_bytes q
                   then if overflow = REJECT_NEWEST then Some True
                        else do {
                          (evictable, evictable_bytes) \<leftarrow> count_evictable (q_slots q) (q_head q) 0 0;
                          Some (q_free q + evictable < count \<or>
                            incoming_bytes > q_capacity_bytes q - q_used_bytes q + evictable_bytes)
                        }
                   else Some False);
                 (if full then refuse TX_FULL
                  else do {
                    let result = \<lparr>ad_generation = q_generation q, ad_first_sequence = q_last_sequence q + 1,
                      ad_last_sequence = q_last_sequence q + count, ad_batch_sequence = q_last_sequence q + 1,
                      ad_admitted_packets = count, ad_evicted_packets = 0, ad_evicted_batches = 0\<rparr>;
                    (q, rs, result) \<leftarrow> evict_loop count incoming_bytes (q, the removed, result);
                    q \<leftarrow> insert_frames fs (ad_first_sequence result) (ad_batch_sequence result) q;
                    let q = q\<lparr>q_used_bytes := q_used_bytes q + incoming_bytes\<rparr>;
                    let q = (if q_used_bytes q > q_high_water q then q\<lparr>q_high_water := q_used_bytes q\<rparr> else q);
                    let q = q\<lparr>q_last_sequence := ad_last_sequence result,
                      q_totals := (q_totals q)\<lparr>t_admitted := t_admitted (q_totals q) + count\<rparr>\<rparr>;
                    Some (TX_OK, Some (replicate count no_payload), Some rs, Some result, q)
                  })
               })"

section \<open>Transmission\<close>

definition active_index :: "tx_ticket \<Rightarrow> tx_queue \<Rightarrow> nat option" where
  "active_index ticket q =
     (if \<not> queue_valid q \<or> tk_generation ticket \<noteq> q_generation q \<or> tk_sequence ticket = 0 then None
      else find (\<lambda>i. sl_in_flight (q_slots q ! i) \<and> sl_sequence (q_slots q ! i) = tk_sequence ticket) [0..<q_capacity q])"

definition start_batch :: "nat \<Rightarrow> nat \<Rightarrow> tx_slot list \<Rightarrow> tx_slot list" where
  "start_batch capacity batch ss =
     map (\<lambda>s. if sl_allocated s \<and> sl_batch s = batch then s\<lparr>sl_started := True\<rparr> else s) (take capacity ss) @ drop capacity ss"

definition tx_queue_take ::
  "bool \<Rightarrow> tx_ticket \<Rightarrow> tx_payload \<Rightarrow> tx_queue \<Rightarrow> (bool \<times> tx_ticket \<times> tx_payload \<times> tx_queue) option" where
  "tx_queue_take objects_overlap ticket borrowed q =
     (case q_head q of
        None \<Rightarrow> Some (False, ticket, borrowed, q)
      | Some i \<Rightarrow>
          if \<not> queue_valid q \<or> q_closed q \<or> q_in_flight q \<ge> q_max_in_flight q \<or> ticket \<noteq> no_ticket \<or>
             borrowed \<noteq> no_payload \<or> objects_overlap then Some (False, ticket, borrowed, q)
          else do {
            slot \<leftarrow> slot_at (q_slots q) i;
            let q = (if q_active q = None then q\<lparr>q_active := Some i\<rparr> else q);
            let q = q\<lparr>q_slots := (q_slots q)[i := slot\<lparr>sl_in_flight := True\<rparr>], q_in_flight := q_in_flight q + 1\<rparr>;
            let q = q\<lparr>q_slots := start_batch (q_capacity q) (sl_batch slot) (q_slots q)\<rparr>;
            let q = q\<lparr>q_head := sl_next slot\<rparr>;
            let q = (if q_head q = None then q\<lparr>q_tail := None\<rparr> else q);
            q \<leftarrow> set_next i None q;
            Some (True, \<lparr>tk_generation = q_generation q, tk_sequence = sl_sequence slot\<rparr>, sl_payload slot,
              q\<lparr>q_queued := q_queued q - 1, q_active_batch := sl_batch slot\<rparr>)
          })"

definition accept_watch :: "nat \<Rightarrow> tx_flush_watch \<Rightarrow> tx_flush_watch" where
  "accept_watch sequence watch =
     (if fw_identity watch \<noteq> 0 \<and> sequence \<le> fs_fence (fw_status watch)
      then watch\<lparr>fw_status := (fw_status watch)
        \<lparr>fs_totals := (fs_totals (fw_status watch))\<lparr>t_submitted := t_submitted (fs_totals (fw_status watch)) + 1\<rparr>\<rparr>\<rparr>
      else watch)"

definition tx_queue_accept :: "bool \<Rightarrow> tx_ticket \<Rightarrow> tx_queue \<Rightarrow> bool \<times> tx_queue" where
  "tx_queue_accept objects_overlap ticket q =
     (case active_index ticket q of
        None \<Rightarrow> (False, q)
      | Some i \<Rightarrow>
          if objects_overlap \<or> sl_accepted (q_slots q ! i) then (False, q)
          else (True, q\<lparr>q_slots := (q_slots q)[i := (q_slots q ! i)\<lparr>sl_accepted := True\<rparr>],
            q_totals := (q_totals q)\<lparr>t_submitted := t_submitted (q_totals q) + 1\<rparr>,
            q_flushes := map (accept_watch (tk_sequence ticket)) (q_flushes q)\<rparr>))"

definition tx_queue_finish ::
  "bool \<Rightarrow> tx_ticket \<Rightarrow> tx_outcome \<Rightarrow> tx_payload \<Rightarrow> tx_queue \<Rightarrow> (bool \<times> tx_ticket \<times> tx_payload \<times> tx_queue) option" where
  "tx_queue_finish objects_overlap ticket outcome retired q =
     (case active_index ticket q of
        None \<Rightarrow> Some (False, ticket, retired, q)
      | Some i \<Rightarrow>
          if retired \<noteq> no_payload \<or> objects_overlap then Some (False, ticket, retired, q)
          else do {
            slot \<leftarrow> slot_at (q_slots q) i;
            (if (outcome \<in> {OUT_SUCCESS, OUT_FAILED, OUT_UNKNOWN} \<and> \<not> sl_accepted slot) \<or>
                (outcome = OUT_REJECTED \<and> sl_accepted slot) then Some (False, ticket, retired, q)
             else do {
               let q = q\<lparr>q_used_bytes := q_used_bytes q - pl_length (sl_payload slot), q_in_flight := q_in_flight q - 1\<rparr>;
               let q = settle (sl_sequence slot) outcome False q;
               let q = q\<lparr>q_slots := (q_slots q)[i := free_slot], q_free := q_free q + 1\<rparr>;
               let q = q\<lparr>q_active := find (\<lambda>i. sl_in_flight (q_slots q ! i)) [0..<q_capacity q]\<rparr>;
               head_batch \<leftarrow> (case q_head q of None \<Rightarrow> Some None | Some h \<Rightarrow> map_option (Some \<circ> sl_batch) (slot_at (q_slots q) h));
               Some (True, no_ticket, sl_payload slot,
                 if head_batch \<noteq> Some (q_active_batch q) then q\<lparr>q_active_batch := 0\<rparr> else q)
             })
          })"

section \<open>Close\<close>

partial_function (option) close_loop :: "tx_queue \<Rightarrow> tx_payload list \<Rightarrow> nat \<Rightarrow> (tx_queue \<times> tx_payload list \<times> nat) option" where
  "close_loop q removed count =
     (case q_head q of
        None \<Rightarrow> Some (q, removed, count)
      | Some i \<Rightarrow> do {
          s \<leftarrow> slot_at (q_slots q) i;
          (p, q) \<leftarrow> drop_slot i (q\<lparr>q_head := sl_next s\<rparr>);
          removed \<leftarrow> put_at removed count p;
          close_loop q removed (count + 1)
        })"

definition tx_queue_close ::
  "bool \<Rightarrow> tx_payload list option \<Rightarrow> nat \<Rightarrow> tx_queue \<Rightarrow> (bool \<times> tx_payload list option \<times> nat \<times> tx_queue) option" where
  "tx_queue_close objects_overlap removed removed_count q =
     (if \<not> queue_valid q \<or> \<not> empty_outputs q removed \<or> objects_overlap then Some (False, removed, removed_count, q)
      else do {
        (q, rs, count) \<leftarrow> close_loop q (the removed) 0;
        let q = q\<lparr>q_tail := None, q_closed := True\<rparr>;
        Some (True, Some rs, count, if q_active q = None then q\<lparr>q_active_batch := 0\<rparr> else q)
      })"

section \<open>Flush\<close>

definition tx_flush_begin :: "bool \<Rightarrow> tx_flush_token \<Rightarrow> tx_queue \<Rightarrow> tx_result \<times> tx_flush_token \<times> tx_queue" where
  "tx_flush_begin objects_overlap token q =
     (if \<not> queue_valid q \<or> token \<noteq> no_token \<or> objects_overlap then (TX_INVALID, token, q)
      else if q_next_flush q = 0 then (TX_EXHAUSTED, token, q)
      else case find (\<lambda>i. fw_identity (q_flushes q ! i) = 0) [0..<TX_MAX_FLUSHES] of
          None \<Rightarrow> (TX_FULL, token, q)
        | Some i \<Rightarrow>
            let watch = \<lparr>fw_identity = q_next_flush q, fw_status = \<lparr>fs_generation = q_generation q,
              fs_fence = q_last_sequence q, fs_pending = (t_admitted (q_totals q) - t_settled (q_totals q)) mod 2 ^ 16,
              fs_totals = q_totals q\<rparr>\<rparr>
            in (TX_OK, \<lparr>ft_generation = q_generation q, ft_identity = q_next_flush q, ft_index = i\<rparr>,
                q\<lparr>q_flushes := (q_flushes q)[i := watch], q_next_flush := q_next_flush q + 1\<rparr>))"

definition flush_token :: "tx_flush_token \<Rightarrow> tx_queue \<Rightarrow> bool" where
  "flush_token token q \<longleftrightarrow>
     queue_valid q \<and> ft_generation token = q_generation q \<and> ft_identity token \<noteq> 0 \<and>
     ft_index token < TX_MAX_FLUSHES \<and> fw_identity (q_flushes q ! ft_index token) = ft_identity token"

definition tx_flush_get :: "bool \<Rightarrow> tx_flush_token \<Rightarrow> tx_queue \<Rightarrow> tx_flush_status option" where
  "tx_flush_get objects_overlap token q =
     (if \<not> flush_token token q \<or> objects_overlap then None else Some (fw_status (q_flushes q ! ft_index token)))"

definition tx_flush_release :: "bool \<Rightarrow> tx_flush_token \<Rightarrow> tx_queue \<Rightarrow> bool \<times> tx_flush_token \<times> tx_queue" where
  "tx_flush_release objects_overlap token q =
     (if \<not> flush_token token q \<or> objects_overlap then (False, token, q)
      else (True, no_token, q\<lparr>q_flushes := (q_flushes q)[ft_index token := no_watch]\<rparr>))"

definition tx_queue_deinit :: "tx_queue \<Rightarrow> bool \<times> tx_queue" where
  "tx_queue_deinit q =
     (if \<not> queue_valid q \<or> \<not> q_closed q \<or> q_active q \<noteq> None \<or> q_queued q \<noteq> 0 \<or> q_free q \<noteq> q_capacity q then (False, q)
      else if list_ex (\<lambda>i. fw_identity (q_flushes q ! i) \<noteq> 0) [0..<TX_MAX_FLUSHES] then (False, q)
      else (True, zero_queue))"

end
