(* ===== verification/Raw_Tx_Model.thy ===== *)
theory Raw_Tx_Model
  imports Raw_Tx_Queue Simulation
begin

text \<open>
  What \<open>Raw_Tx_Queue\<close> promises: a list of packets that wait, a list of packets in flight, and
  the history of what became of all others.  Counters, totals and flush watches are not part of the
  state but are read off the lists.
\<close>

record tx_packet =
  pk_payload :: tx_payload
  pk_sequence :: nat
  pk_batch :: nat
  pk_started :: bool
  pk_accepted :: bool

record tx_model =
  m_generation :: u32
  m_capacity :: nat
  m_capacity_bytes :: nat
  m_max_in_flight :: nat
  m_closed :: bool
  m_last :: nat
  m_pending :: "tx_packet list"
  m_flight :: "tx_packet list"
  m_history :: "(nat \<times> tx_outcome \<times> bool) list"
  m_accepted :: "nat list"
  m_watches :: "(u32 \<times> nat) option list"
  m_next_watch :: u32

definition new_model :: "nat \<Rightarrow> u32 \<Rightarrow> tx_model" where
  "new_model capacity generation =
     \<lparr>m_generation = generation, m_capacity = capacity, m_capacity_bytes = capacity * TX_MAX_FRAME_BYTES, m_max_in_flight = 1,
      m_closed = False, m_last = 0, m_pending = [], m_flight = [], m_history = [], m_accepted = [],
      m_watches = replicate TX_MAX_FLUSHES None, m_next_watch = 1\<rparr>"

section \<open>What is read off the lists\<close>

definition packet_bytes :: "tx_packet list \<Rightarrow> nat" where
  "packet_bytes ps = sum_list (map (pl_length \<circ> pk_payload) ps)"

definition live :: "tx_model \<Rightarrow> tx_packet list" where
  "live m = m_pending m @ m_flight m"

definition ended :: "(tx_outcome \<Rightarrow> bool \<Rightarrow> bool) \<Rightarrow> nat \<Rightarrow> (nat \<times> tx_outcome \<times> bool) list \<Rightarrow> nat" where
  "ended P fence history = length (filter (\<lambda>(s, outcome, was_dropped). s \<le> fence \<and> P outcome was_dropped) history)"

text \<open>The totals over the packets up to a sequence number.\<close>

definition totals_upto :: "nat \<Rightarrow> tx_model \<Rightarrow> tx_totals" where
  "totals_upto fence m =
     \<lparr>t_admitted = fence,
      t_submitted = length (filter (\<lambda>s. s \<le> fence) (m_accepted m)),
      t_settled = ended (\<lambda>_ _. True) fence (m_history m),
      t_succeeded = ended (\<lambda>r d. r = OUT_SUCCESS \<and> \<not> d) fence (m_history m),
      t_failed = ended (\<lambda>r d. r = OUT_FAILED \<and> \<not> d) fence (m_history m),
      t_unknown = ended (\<lambda>r d. r = OUT_UNKNOWN \<and> \<not> d) fence (m_history m),
      t_rejected = ended (\<lambda>r d. r = OUT_REJECTED \<and> \<not> d) fence (m_history m),
      t_aborted = ended (\<lambda>r d. r = OUT_ABORTED \<and> \<not> d) fence (m_history m),
      t_dropped = ended (\<lambda>r d. d) fence (m_history m)\<rparr>"

definition watch_status :: "nat \<Rightarrow> tx_model \<Rightarrow> tx_flush_status" where
  "watch_status fence m =
     \<lparr>fs_generation = m_generation m, fs_fence = fence,
      fs_pending = length (filter (\<lambda>p. pk_sequence p \<le> fence) (live m)), fs_totals = totals_upto fence m\<rparr>"

definition model_free :: "tx_model \<Rightarrow> nat" where
  "model_free m = m_capacity m - length (live m)"

definition model_room :: "nat \<Rightarrow> nat \<Rightarrow> tx_model \<Rightarrow> bool" where
  "model_room count incoming m \<longleftrightarrow> count \<le> model_free m \<and> incoming \<le> m_capacity_bytes m - packet_bytes (live m)"

section \<open>Operations\<close>

definition drop_packets :: "tx_packet list \<Rightarrow> tx_model \<Rightarrow> tx_model" where
  "drop_packets ps m = m\<lparr>m_history := m_history m @ map (\<lambda>p. (pk_sequence p, OUT_ABORTED, True)) ps\<rparr>"

text \<open>The oldest batch of which nothing was sent.\<close>

definition oldest_batch :: "tx_packet list \<Rightarrow> tx_packet list" where
  "oldest_batch ps = (let unsent = dropWhile pk_started ps in takeWhile (\<lambda>p. pk_batch p = pk_batch (hd unsent)) unsent)"

definition without_oldest_batch :: "tx_packet list \<Rightarrow> tx_packet list" where
  "without_oldest_batch ps =
     (let unsent = dropWhile pk_started ps in takeWhile pk_started ps @ dropWhile (\<lambda>p. pk_batch p = pk_batch (hd unsent)) unsent)"

text \<open>Oldest batches are dropped, whole, until there is room: the dropped packets, how many batches.\<close>

function model_evict :: "nat \<Rightarrow> nat \<Rightarrow> tx_model \<Rightarrow> tx_packet list \<times> nat \<times> tx_model" where
  "model_evict count incoming m =
     (if model_room count incoming m \<or> dropWhile pk_started (m_pending m) = [] then ([], 0, m)
      else
        let b = oldest_batch (m_pending m);
            (ps, n, m') = model_evict count incoming (drop_packets b (m\<lparr>m_pending := without_oldest_batch (m_pending m)\<rparr>))
        in (b @ ps, n + 1, m'))"
  by pat_completeness auto
termination
proof (relation "measure (\<lambda>(count, incoming, m). length (m_pending m))")
  fix count incoming :: nat and m b
  assume b: "b = oldest_batch (m_pending m)" and "\<not> (model_room count incoming m \<or> dropWhile pk_started (m_pending m) = [])"
  then obtain p ps where "dropWhile pk_started (m_pending m) = p # ps" by (cases "dropWhile pk_started (m_pending m)") auto
  moreover have "length (takeWhile pk_started (m_pending m)) + length (dropWhile pk_started (m_pending m)) = length (m_pending m)"
    by (metis length_append takeWhile_dropWhile_id)
  moreover have "length (dropWhile (\<lambda>q. pk_batch q = pk_batch p) ps) \<le> length ps" by (rule length_dropWhile_le)
  ultimately have "length (without_oldest_batch (m_pending m)) < length (m_pending m)"
    by (simp add: without_oldest_batch_def Let_def)
  then show "((count, incoming, drop_packets b (m\<lparr>m_pending := without_oldest_batch (m_pending m)\<rparr>)),
      (count, incoming, m)) \<in> measure (\<lambda>(count, incoming, m). length (m_pending m))"
    by (simp add: drop_packets_def)
qed simp

declare model_evict.simps [simp del]

definition model_bad_frame :: "(tx_payload \<Rightarrow> bool) \<Rightarrow> tx_model \<Rightarrow> tx_payload list \<Rightarrow> tx_payload \<Rightarrow> bool" where
  "model_bad_frame in_objects m earlier f \<longleftrightarrow>
     pl_data f = 0 \<or> pl_length f < TX_MIN_FRAME_BYTES \<or> pl_length f > TX_MAX_FRAME_BYTES \<or>
     list_ex (\<lambda>p. payloads_overlap (pk_payload p) f) (live m) \<or> in_objects f \<or> list_ex (payloads_overlap f) earlier"

definition model_frames_ok :: "(tx_payload \<Rightarrow> bool) \<Rightarrow> tx_model \<Rightarrow> tx_payload list \<Rightarrow> bool" where
  "model_frames_ok in_objects m fs \<longleftrightarrow> list_all (\<lambda>i. \<not> model_bad_frame in_objects m (take i fs) (fs ! i)) [0..<length fs]"

definition frame_bytes :: "tx_payload list \<Rightarrow> nat" where "frame_bytes fs = sum_list (map pl_length fs)"

definition new_packets :: "nat \<Rightarrow> tx_payload list \<Rightarrow> tx_packet list" where
  "new_packets before fs = map (\<lambda>k. \<lparr>pk_payload = fs ! k, pk_sequence = before + 1 + k, pk_batch = before + 1, pk_started = False,
     pk_accepted = False\<rparr>) [0..<length fs]"

text \<open>Whether the array for the removed payloads is there, long enough and empty.\<close>

definition outputs_ok :: "nat \<Rightarrow> tx_payload list option \<Rightarrow> bool" where
  "outputs_ok capacity removed \<longleftrightarrow>
     (case removed of None \<Rightarrow> False | Some rs \<Rightarrow> length rs \<ge> capacity \<and> list_all (\<lambda>r. r = no_payload) (take capacity rs))"

definition written :: "tx_packet list \<Rightarrow> tx_payload list \<Rightarrow> tx_payload list" where
  "written ps rs = map pk_payload ps @ drop (length ps) rs"

definition model_enough :: "nat \<Rightarrow> nat \<Rightarrow> tx_model \<Rightarrow> bool" where
  "model_enough count incoming m \<longleftrightarrow>
     (let unsent = filter (Not \<circ> pk_started) (m_pending m)
      in count \<le> model_free m + length unsent \<and> incoming \<le> m_capacity_bytes m - packet_bytes (live m) + packet_bytes unsent)"

datatype tx_call =
  Admit bool "tx_payload \<Rightarrow> bool" "tx_payload list option" tx_overflow "tx_payload list option"
| Limits nat nat
| Writable nat nat
| Take bool tx_ticket tx_payload
| Accept bool tx_ticket
| Finish bool tx_ticket tx_outcome tx_payload
| Close bool "tx_payload list option" nat
| Flush_Begin bool tx_flush_token
| Flush_Status bool tx_flush_token
| Flush_Release bool tx_flush_token
| Observe

datatype tx_answer =
  Admitted tx_result "tx_payload list option" "tx_payload list option" "tx_admission option"
| Answer bool
| Handed bool tx_ticket tx_payload
| Closed bool "tx_payload list option" nat
| Flush tx_result tx_flush_token
| Status "tx_flush_status option"
| Released bool tx_flush_token
| Observed nat nat nat nat tx_totals

definition model_admit ::
  "bool \<Rightarrow> (tx_payload \<Rightarrow> bool) \<Rightarrow> tx_payload list option \<Rightarrow> tx_overflow \<Rightarrow> tx_payload list option \<Rightarrow> tx_model \<Rightarrow> tx_answer \<times> tx_model" where
  "model_admit overlap in_objects frames overflow removed m =
     (let fs = (case frames of None \<Rightarrow> [] | Some fs \<Rightarrow> fs); n = length fs; refuse = (\<lambda>r. (Admitted r frames removed None, m))
      in if frames = None \<or> n = 0 \<or> n > m_capacity m \<or> overlap \<or> \<not> outputs_ok (m_capacity m) removed then refuse TX_INVALID
         else if m_closed m then refuse TX_CLOSED
         else if n > UINT32_MAX - m_last m then refuse TX_EXHAUSTED
         else if \<not> model_frames_ok in_objects m fs then refuse TX_INVALID
         else if frame_bytes fs > m_capacity_bytes m then refuse TX_FULL
         else if \<not> model_room n (frame_bytes fs) m \<and> (overflow = REJECT_NEWEST \<or> \<not> model_enough n (frame_bytes fs) m)
           then refuse TX_FULL
         else
           let (evicted, batches, m') = model_evict n (frame_bytes fs) m
           in (Admitted TX_OK (Some (replicate n no_payload)) (Some (written evicted (the removed)))
                 (Some \<lparr>ad_generation = m_generation m, ad_first_sequence = m_last m + 1, ad_last_sequence = m_last m + n,
                   ad_batch_sequence = m_last m + 1, ad_admitted_packets = n, ad_evicted_packets = length evicted,
                   ad_evicted_batches = batches\<rparr>),
               m'\<lparr>m_pending := m_pending m' @ new_packets (m_last m) fs, m_last := m_last m + n\<rparr>))"

definition mark_started :: "nat \<Rightarrow> tx_packet \<Rightarrow> tx_packet" where
  "mark_started batch p = (if pk_batch p = batch then p\<lparr>pk_started := True\<rparr> else p)"

definition in_flight :: "tx_ticket \<Rightarrow> tx_model \<Rightarrow> tx_packet option" where
  "in_flight ticket m =
     (if tk_generation ticket \<noteq> m_generation m \<or> tk_sequence ticket = 0 then None
      else find (\<lambda>p. pk_sequence p = tk_sequence ticket) (m_flight m))"

definition watch_of :: "tx_flush_token \<Rightarrow> tx_model \<Rightarrow> nat option" where
  "watch_of token m =
     (if ft_generation token = m_generation m \<and> ft_index token < TX_MAX_FLUSHES
      then case m_watches m ! ft_index token of
          Some (ident, fence) \<Rightarrow> if ident = ft_identity token then Some fence else None
        | None \<Rightarrow> None
      else None)"

fun model_apply :: "tx_call \<Rightarrow> tx_model \<Rightarrow> tx_answer \<times> tx_model" where
  "model_apply (Admit overlap in_objects frames overflow removed) m = model_admit overlap in_objects frames overflow removed m"
| "model_apply (Limits byte_limit window) m =
     (if m_closed m \<or> m_last m \<noteq> 0 \<or> byte_limit < TX_MIN_FRAME_BYTES \<or> byte_limit > m_capacity m * TX_MAX_FRAME_BYTES \<or>
         window = 0 \<or> window > m_capacity m
      then (Answer False, m) else (Answer True, m\<lparr>m_capacity_bytes := byte_limit, m_max_in_flight := window\<rparr>))"
| "model_apply (Writable packets byte_count) m =
     (Answer (\<not> m_closed m \<and> packets \<noteq> 0 \<and> packets \<le> UINT32_MAX - m_last m \<and> model_room packets byte_count m), m)"
| "model_apply (Take overlap ticket borrowed) m =
     (case m_pending m of
        [] \<Rightarrow> (Handed False ticket borrowed, m)
      | p # ps \<Rightarrow>
          if m_closed m \<or> length (m_flight m) \<ge> m_max_in_flight m \<or> ticket \<noteq> no_ticket \<or> borrowed \<noteq> no_payload \<or> overlap
          then (Handed False ticket borrowed, m)
          else (Handed True \<lparr>tk_generation = m_generation m, tk_sequence = pk_sequence p\<rparr> (pk_payload p),
            m\<lparr>m_pending := map (mark_started (pk_batch p)) ps, m_flight := map (mark_started (pk_batch p)) (m_flight m @ [p])\<rparr>))"
| "model_apply (Accept overlap ticket) m =
     (case in_flight ticket m of
        None \<Rightarrow> (Answer False, m)
      | Some p \<Rightarrow>
          if overlap \<or> pk_accepted p then (Answer False, m)
          else (Answer True, m\<lparr>m_flight := map (\<lambda>r. if pk_sequence r = pk_sequence p then r\<lparr>pk_accepted := True\<rparr> else r) (m_flight m),
            m_accepted := m_accepted m @ [pk_sequence p]\<rparr>))"
| "model_apply (Finish overlap ticket outcome retired) m =
     (case in_flight ticket m of
        None \<Rightarrow> (Handed False ticket retired, m)
      | Some p \<Rightarrow>
          if retired \<noteq> no_payload \<or> overlap \<or> (outcome \<in> {OUT_SUCCESS, OUT_FAILED, OUT_UNKNOWN} \<and> \<not> pk_accepted p) \<or>
             (outcome = OUT_REJECTED \<and> pk_accepted p) then (Handed False ticket retired, m)
          else (Handed True no_ticket (pk_payload p),
            m\<lparr>m_flight := filter (\<lambda>r. pk_sequence r \<noteq> pk_sequence p) (m_flight m),
              m_history := m_history m @ [(pk_sequence p, outcome, False)]\<rparr>))"
| "model_apply (Close overlap removed removed_count) m =
     (if \<not> outputs_ok (m_capacity m) removed \<or> overlap then (Closed False removed removed_count, m)
      else (Closed True (Some (written (m_pending m) (the removed))) (length (m_pending m)),
        drop_packets (m_pending m) (m\<lparr>m_pending := [], m_closed := True\<rparr>)))"
| "model_apply (Flush_Begin overlap token) m =
     (if token \<noteq> no_token \<or> overlap then (Flush TX_INVALID token, m)
      else if m_next_watch m = 0 then (Flush TX_EXHAUSTED token, m)
      else case find (\<lambda>i. m_watches m ! i = None) [0..<TX_MAX_FLUSHES] of
          None \<Rightarrow> (Flush TX_FULL token, m)
        | Some i \<Rightarrow> (Flush TX_OK \<lparr>ft_generation = m_generation m, ft_identity = m_next_watch m, ft_index = i\<rparr>,
            m\<lparr>m_watches := (m_watches m)[i := Some (m_next_watch m, m_last m)], m_next_watch := m_next_watch m + 1\<rparr>))"
| "model_apply (Flush_Status overlap token) m =
     (Status (if overlap then None else map_option (\<lambda>fence. watch_status fence m) (watch_of token m)), m)"
| "model_apply (Flush_Release overlap token) m =
     (if watch_of token m = None \<or> overlap then (Released False token, m)
      else (Released True no_token, m\<lparr>m_watches := (m_watches m)[ft_index token := None]\<rparr>))"
| "model_apply Observe m =
     (Observed (model_free m) (length (m_pending m)) (length (m_flight m)) (packet_bytes (live m)) (totals_upto (m_last m) m), m)"

text \<open>The code; \<open>None\<close> is an access outside an array or a loop that does not end.\<close>

fun queue_apply :: "tx_call \<Rightarrow> tx_queue \<Rightarrow> tx_answer option \<times> tx_queue" where
  "queue_apply (Admit overlap in_objects frames overflow removed) q =
     (case tx_queue_admit overlap in_objects frames overflow removed q of
        None \<Rightarrow> (None, q)
      | Some (r, frames', removed', admission, q') \<Rightarrow> (Some (Admitted r frames' removed' admission), q'))"
| "queue_apply (Limits byte_limit window) q = (let (ok, q') = tx_queue_limits byte_limit window q in (Some (Answer ok), q'))"
| "queue_apply (Writable packets byte_count) q = (Some (Answer (tx_queue_writable packets byte_count q)), q)"
| "queue_apply (Take overlap ticket borrowed) q =
     (case tx_queue_take overlap ticket borrowed q of
        None \<Rightarrow> (None, q) | Some (ok, ticket', p, q') \<Rightarrow> (Some (Handed ok ticket' p), q'))"
| "queue_apply (Accept overlap ticket) q = (let (ok, q') = tx_queue_accept overlap ticket q in (Some (Answer ok), q'))"
| "queue_apply (Finish overlap ticket outcome retired) q =
     (case tx_queue_finish overlap ticket outcome retired q of
        None \<Rightarrow> (None, q) | Some (ok, ticket', p, q') \<Rightarrow> (Some (Handed ok ticket' p), q'))"
| "queue_apply (Close overlap removed removed_count) q =
     (case tx_queue_close overlap removed removed_count q of
        None \<Rightarrow> (None, q) | Some (ok, removed', n, q') \<Rightarrow> (Some (Closed ok removed' n), q'))"
| "queue_apply (Flush_Begin overlap token) q = (let (r, token', q') = tx_flush_begin overlap token q in (Some (Flush r token'), q'))"
| "queue_apply (Flush_Status overlap token) q = (Some (Status (tx_flush_get overlap token q)), q)"
| "queue_apply (Flush_Release overlap token) q =
     (let (ok, token', q') = tx_flush_release overlap token q in (Some (Released ok token'), q'))"
| "queue_apply Observe q = (Some (Observed (q_free q) (q_queued q) (q_in_flight q) (q_used_bytes q) (q_totals q)), q)"

end
