(* ===== verification/Raw_Tx_Links.thy ===== *)
theory Raw_Tx_Links
  imports Raw_Tx_Model
begin

text \<open>
  The linked list of waiting packets inside the slot array: what the loops that follow it compute,
  in terms of the list of its indices, and how it changes.
\<close>

section \<open>Paths\<close>

fun path :: "tx_slot list \<Rightarrow> nat option \<Rightarrow> nat list \<Rightarrow> nat option \<Rightarrow> bool" where
  "path ss x [] y \<longleftrightarrow> x = y"
| "path ss x (i # is) y \<longleftrightarrow> x = Some i \<and> i < length ss \<and> path ss (sl_next (ss ! i)) is y"

definition first_of :: "nat list \<Rightarrow> nat option" where
  "first_of is = (case is of [] \<Rightarrow> None | i # _ \<Rightarrow> Some i)"

definition last_of :: "nat list \<Rightarrow> nat option" where
  "last_of is = (if is = [] then None else Some (last is))"

lemma first_of_simps [simp]: "first_of [] = None" "first_of (i # is) = Some i"
  by (simp_all add: first_of_def)

lemma first_of_None [simp]: "first_of is = None \<longleftrightarrow> is = []"
  by (cases "is") auto

lemma last_of_simps [simp]: "last_of [] = None" "last_of (is @ [i]) = Some i"
  by (simp_all add: last_of_def)

lemma path_None: "path ss None is y \<longleftrightarrow> is = [] \<and> y = None"
  by (cases "is") auto

lemma path_first: "path ss x is None \<Longrightarrow> x = first_of is"
  by (cases "is") auto

lemma path_range: "path ss x is y \<Longrightarrow> i \<in> set is \<Longrightarrow> i < length ss"
  by (induction "is" arbitrary: x) auto

lemma path_append: "path ss x (is @ js) y \<longleftrightarrow> (\<exists>z. path ss x is z \<and> path ss z js y)"
  by (induction "is" arbitrary: x) auto

lemma path_cong:
  assumes "length ss' = length ss" "\<And>i. i \<in> set is \<Longrightarrow> sl_next (ss' ! i) = sl_next (ss ! i)"
  shows "path ss' x is y = path ss x is y"
  using assms(2) by (induction "is" arbitrary: x) (auto simp: assms(1))

lemma nth_other: "i \<in> set is \<Longrightarrow> j \<notin> set is \<Longrightarrow> ss[j := s] ! i = ss ! i"
  by (cases "i = j") auto

lemma path_update: "j \<notin> set is \<Longrightarrow> path (ss[j := s]) x is y = path ss x is y"
  by (rule path_cong) (simp_all add: nth_other)

text \<open>The end of a path can be tied to another place.\<close>

lemma path_tie:
  assumes "path ss x (is @ [i]) y" "distinct (is @ [i])"
  shows "path (ss[i := (ss ! i)\<lparr>sl_next := z\<rparr>]) x (is @ [i]) z"
  using assms by (auto simp: path_append path_update)

section \<open>Loops\<close>

lemma slot_at_in: "i < length ss \<Longrightarrow> slot_at ss i = Some (ss ! i)"
  by (simp add: slot_at_def)

lemma skip_started_step:
  "skip_started ss previous None = Some (previous, None)"
  "i < length ss \<Longrightarrow> skip_started ss previous (Some i) =
    (if sl_started (ss ! i) then skip_started ss (Some i) (sl_next (ss ! i)) else Some (previous, Some i))"
  by (subst skip_started.simps, simp add: slot_at_in)+

lemma count_evictable_step:
  "count_evictable ss None n b = Some (n, b)"
  "i < length ss \<Longrightarrow> count_evictable ss (Some i) n b =
    (if \<not> sl_started (ss ! i) then count_evictable ss (sl_next (ss ! i)) (n + 1) (b + pl_length (sl_payload (ss ! i)))
     else count_evictable ss (sl_next (ss ! i)) n b)"
  by (subst count_evictable.simps, simp add: slot_at_in)+

lemma skip_started_path:
  "path ss x is None \<Longrightarrow>
   skip_started ss previous x =
     Some (if takeWhile (\<lambda>i. sl_started (ss ! i)) is = [] then previous else last_of (takeWhile (\<lambda>i. sl_started (ss ! i)) is),
       first_of (dropWhile (\<lambda>i. sl_started (ss ! i)) is))"
proof (induction "is" arbitrary: x previous)
  case Nil
  then show ?case by (simp add: skip_started_step)
next
  case (Cons i "is")
  then have i: "x = Some i" "i < length ss" "path ss (sl_next (ss ! i)) is None" by auto
  then show ?case
    using Cons.IH [OF i(3), of x] by (simp add: skip_started_step last_of_def)
qed

lemma count_evictable_path:
  "path ss x is None \<Longrightarrow>
   count_evictable ss x n b =
     Some (n + length (filter (\<lambda>i. \<not> sl_started (ss ! i)) is),
       b + sum_list (map (\<lambda>i. pl_length (sl_payload (ss ! i))) (filter (\<lambda>i. \<not> sl_started (ss ! i)) is)))"
proof (induction "is" arbitrary: x n b)
  case Nil
  then show ?case by (simp add: count_evictable_step)
next
  case (Cons i "is")
  then have i: "x = Some i" "i < length ss" "path ss (sl_next (ss ! i)) is None" by auto
  then show ?case
    using Cons.IH [OF i(3)] by (simp add: count_evictable_step)
qed

text \<open>What is left of a queue when slots are dropped one after the other.\<close>

definition drop_state :: "nat \<Rightarrow> tx_queue \<Rightarrow> tx_queue" where
  "drop_state i q =
     (let s = q_slots q ! i;
          q = settle (sl_sequence s) OUT_ABORTED True (q\<lparr>q_used_bytes := q_used_bytes q - pl_length (sl_payload s)\<rparr>)
      in q\<lparr>q_slots := (q_slots q)[i := free_slot], q_free := q_free q + 1, q_queued := q_queued q - 1\<rparr>)"

lemma drop_slot_state: "i < length (q_slots q) \<Longrightarrow> drop_slot i q = Some (sl_payload (q_slots q ! i), drop_state i q)"
  by (simp add: drop_slot_def slot_at_in drop_state_def Let_def settle_def)

lemma drop_state_simps [simp]:
  "q_slots (drop_state i q) = (q_slots q)[i := free_slot]"
  "q_head (drop_state i q) = q_head q" "q_tail (drop_state i q) = q_tail q"
  "drop_state i (q\<lparr>q_head := h\<rparr>) = (drop_state i q)\<lparr>q_head := h\<rparr>"
  by (simp_all add: drop_state_def Let_def settle_def)

definition write_from :: "nat \<Rightarrow> 'a list \<Rightarrow> 'a list \<Rightarrow> 'a list" where
  "write_from n xs rs = take n rs @ xs @ drop (n + length xs) rs"

lemma write_from_Cons:
  "n < length rs \<Longrightarrow> write_from (Suc n) xs (rs[n := x]) = write_from n (x # xs) rs"
  by (simp add: write_from_def take_Suc_conv_app_nth)

lemma write_from_Nil [simp]: "write_from n [] rs = rs"
  by (simp add: write_from_def)

lemma drop_batch_path:
  assumes "path (q_slots q) x is None" "distinct is" "n + length (takeWhile (\<lambda>i. sl_batch (q_slots q ! i) = batch) is) \<le> length rs"
  shows "drop_batch batch x q rs n =
    (let ds = takeWhile (\<lambda>i. sl_batch (q_slots q ! i) = batch) is
     in Some (first_of (dropWhile (\<lambda>i. sl_batch (q_slots q ! i) = batch) is), fold drop_state ds q,
         write_from n (map (\<lambda>i. sl_payload (q_slots q ! i)) ds) rs, n + length ds))"
  using assms
proof (induction "is" arbitrary: x q rs n)
  case Nil
  then show ?case by (simp add: drop_batch.simps)
next
  case (Cons i "is")
  then have i: "x = Some i" "i < length (q_slots q)" "path (q_slots q) (sl_next (q_slots q ! i)) is None"
    "i \<notin> set is" "distinct is" by auto
  show ?case
  proof (cases "sl_batch (q_slots q ! i) = batch")
    case False
    then show ?thesis using i by (subst drop_batch.simps) (simp add: slot_at_in)
  next
    case True
    let ?q = "drop_state i q" and ?rs = "rs[n := sl_payload (q_slots q ! i)]"
    have other: "(q_slots q)[i := free_slot] ! j = q_slots q ! j" if "j \<in> set is" for j
      using that i(4) by (rule nth_other)
    have same: "takeWhile (\<lambda>j. sl_batch (q_slots ?q ! j) = batch) is = takeWhile (\<lambda>j. sl_batch (q_slots q ! j) = batch) is"
      "dropWhile (\<lambda>j. sl_batch (q_slots ?q ! j) = batch) is = dropWhile (\<lambda>j. sl_batch (q_slots q ! j) = batch) is"
      using other by (auto intro: takeWhile_cong dropWhile_cong)
    have payloads: "map (\<lambda>j. sl_payload (q_slots ?q ! j)) (takeWhile (\<lambda>j. sl_batch (q_slots q ! j) = batch) is) =
        map (\<lambda>j. sl_payload (q_slots q ! j)) (takeWhile (\<lambda>j. sl_batch (q_slots q ! j) = batch) is)"
      using other by (auto dest: set_takeWhileD)
    have n: "n < length rs" "Suc n + length (takeWhile (\<lambda>j. sl_batch (q_slots q ! j) = batch) is) \<le> length ?rs"
      using Cons.prems(3) True by simp_all
    have path: "path (q_slots ?q) (sl_next (q_slots q ! i)) is None" using i(3,4) by (simp add: path_update)
    have "drop_batch batch x q rs n = drop_batch batch (sl_next (q_slots q ! i)) ?q ?rs (Suc n)"
      using i n True by (subst drop_batch.simps) (simp add: slot_at_in drop_slot_state put_at_def)
    then show ?thesis
      using Cons.IH [OF path i(5), of "Suc n" ?rs, unfolded same Let_def payloads, OF n(2)] n(1) True
      by (simp add: Let_def write_from_Cons del: drop_state_simps)
  qed
qed

lemma fold_drop_length [simp]: "length (q_slots (fold drop_state ds q)) = length (q_slots q)"
  by (induction ds arbitrary: q) simp_all

lemma fold_drop_head: "fold drop_state ds (q\<lparr>q_head := h\<rparr>) = (fold drop_state ds q)\<lparr>q_head := h\<rparr>"
  by (induction ds arbitrary: q) simp_all

lemma close_loop_path:
  assumes "path (q_slots q) (q_head q) is None" "distinct is" "n + length is \<le> length rs"
  shows "close_loop q rs n =
    Some ((fold drop_state is q)\<lparr>q_head := None\<rparr>, write_from n (map (\<lambda>i. sl_payload (q_slots q ! i)) is) rs, n + length is)"
  using assms
proof (induction "is" arbitrary: q rs n)
  case Nil
  then show ?case by (simp add: close_loop.simps)
next
  case (Cons i "is")
  then have i: "q_head q = Some i" "i < length (q_slots q)" "path (q_slots q) (sl_next (q_slots q ! i)) is None"
    "i \<notin> set is" "distinct is" by auto
  let ?q = "drop_state i (q\<lparr>q_head := sl_next (q_slots q ! i)\<rparr>)" and ?rs = "rs[n := sl_payload (q_slots q ! i)]"
  have path: "path (q_slots ?q) (q_head ?q) is None" using i(3,4) by (simp add: path_update)
  have n: "n < length rs" "Suc n + length is \<le> length ?rs" using Cons.prems(3) by simp_all
  have payloads: "map (\<lambda>j. sl_payload (q_slots ?q ! j)) is = map (\<lambda>j. sl_payload (q_slots q ! j)) is"
    using i(4) by (simp add: nth_other)
  have "close_loop q rs n = close_loop ?q ?rs (Suc n)"
    using i n by (subst close_loop.simps) (simp add: slot_at_in drop_slot_state put_at_def del: drop_state_simps(4))
  then show ?case
    using Cons.IH [OF path i(5) n(2), unfolded payloads] n(1) by (simp add: write_from_Cons fold_drop_head)
qed

lemma first_free_found:
  assumes "\<exists>k. i \<le> k \<and> k < length ss \<and> \<not> sl_allocated (ss ! k)"
  shows "\<exists>k. first_free ss i = Some k \<and> k < length ss \<and> \<not> sl_allocated (ss ! k)"
  using assms
proof (induction ss i rule: first_free.induct)
  case (1 ss i)
  obtain k where k: "i \<le> k" "k < length ss" "\<not> sl_allocated (ss ! k)" using 1(2) by blast
  show ?case
  proof (cases "sl_allocated (ss ! i)")
    case True
    then have "i + 1 \<le> k" using k by (metis Suc_eq_plus1 Suc_leI le_neq_implies_less)
    then show ?thesis using 1(1) True k by (auto simp: first_free.simps [of ss i])
  next
    case False
    then show ?thesis using k by (simp add: first_free.simps [of ss i])
  qed
qed

end
