(* ===== verification/Raw_Tx_Relation.thy ===== *)
theory Raw_Tx_Relation
  imports Raw_Tx_Links "HOL-Library.Multiset"
begin

text \<open>
  How the queue of \<open>Raw_Tx_Queue\<close> holds the lists of \<open>Raw_Tx_Model\<close>: which slots wait
  and in which order, which are in flight, and that counters, totals and flush watches agree with
  the lists.  Dropping a packet, evicting a batch and inserting a frame keep the two in step.
\<close>

section \<open>The relation\<close>

definition packet_of :: "tx_slot \<Rightarrow> tx_packet" where
  "packet_of s = \<lparr>pk_payload = sl_payload s, pk_sequence = sl_sequence s, pk_batch = sl_batch s,
     pk_started = sl_started s, pk_accepted = sl_accepted s\<rparr>"

abbreviation packets :: "tx_slot list \<Rightarrow> nat list \<Rightarrow> tx_packet list" where
  "packets ss is \<equiv> map (\<lambda>i. packet_of (ss ! i)) is"

text \<open>The slots: \<open>is\<close> waits, \<open>js\<close> is in flight, nothing else is allocated.\<close>

definition shape :: "nat list \<Rightarrow> nat list \<Rightarrow> tx_queue \<Rightarrow> bool" where
  "shape is js q \<longleftrightarrow>
     length (q_slots q) = q_capacity q \<and> distinct (is @ js) \<and> set (is @ js) \<subseteq> {..<q_capacity q} \<and>
     (\<forall>i < q_capacity q. sl_allocated (q_slots q ! i) \<longleftrightarrow> i \<in> set (is @ js)) \<and>
     (\<forall>i < q_capacity q. sl_in_flight (q_slots q ! i) \<longleftrightarrow> i \<in> set js) \<and>
     q_queued q = length is \<and> q_in_flight q = length js \<and> q_free q + length is + length js = q_capacity q \<and>
     (q_active q = None \<longleftrightarrow> js = [])"

definition links :: "nat list \<Rightarrow> tx_queue \<Rightarrow> bool" where
  "links is q \<longleftrightarrow> path (q_slots q) (q_head q) is None \<and> q_tail q = last_of is"

definition watch_for :: "tx_model \<Rightarrow> (u32 \<times> nat) option \<Rightarrow> tx_flush_watch" where
  "watch_for m w = (case w of None \<Rightarrow> no_watch | Some (ident, fence) \<Rightarrow> \<lparr>fw_identity = ident, fw_status = watch_status fence m\<rparr>)"

definition view :: "nat list \<Rightarrow> nat list \<Rightarrow> tx_model \<Rightarrow> tx_queue \<Rightarrow> bool" where
  "view is js m q \<longleftrightarrow>
     queue_valid q \<and> q_generation q = m_generation m \<and> q_capacity q = m_capacity m \<and> q_capacity_bytes q = m_capacity_bytes m \<and>
     q_max_in_flight q = m_max_in_flight m \<and> q_closed q = m_closed m \<and> q_last_sequence q = m_last m \<and>
     q_next_flush q = m_next_watch m \<and> m_pending m = packets (q_slots q) is \<and> m_flight m = packets (q_slots q) js \<and>
     q_used_bytes q = packet_bytes (live m) \<and> q_totals q = totals_upto (m_last m) m \<and>
     q_flushes q = map (watch_for m) (m_watches m)"

definition watch_ok :: "nat \<Rightarrow> (u32 \<times> nat) option \<Rightarrow> bool" where
  "watch_ok n w \<longleftrightarrow> (\<forall>ident fence. w = Some (ident, fence) \<longrightarrow> ident \<noteq> 0 \<and> fence \<le> n)"

text \<open>
  Every sequence number up to the last is either in the history or still live, exactly once.
\<close>

definition model_ok :: "tx_model \<Rightarrow> bool" where
  "model_ok m \<longleftrightarrow>
     mset (map fst (m_history m) @ map pk_sequence (live m)) = mset [1..<Suc (m_last m)] \<and> m_last m \<le> UINT32_MAX \<and>
     packet_bytes (live m) \<le> m_capacity_bytes m \<and> (\<forall>s \<in> set (m_accepted m). s \<le> m_last m) \<and> length (m_watches m) = TX_MAX_FLUSHES \<and>
          (\<forall>w \<in> set (m_watches m). watch_ok (m_last m) w)"

definition tx_rel :: "tx_model \<Rightarrow> tx_queue \<Rightarrow> bool" where
  "tx_rel m q \<longleftrightarrow> model_ok m \<and> (\<exists>is js. shape is js q \<and> links is q \<and> view is js m q)"

section \<open>Sequence numbers\<close>

lemma model_ok_sequences:
  assumes "model_ok m"
  shows "distinct (map fst (m_history m) @ map pk_sequence (live m))"
    "set (map fst (m_history m) @ map pk_sequence (live m)) = {1..m_last m}"
    "length (m_history m) + length (live m) = m_last m"
proof -
  let ?s = "map fst (m_history m) @ map pk_sequence (live m)"
  have eq: "mset ?s = mset [1..<Suc (m_last m)]" using assms by (simp add: model_ok_def)
  show "distinct ?s" using mset_eq_imp_distinct_iff [OF eq] by (simp del: upt_Suc)
  show "set ?s = {1..m_last m}" using mset_eq_setD [OF eq] by (auto simp del: upt_Suc)
  show "length (m_history m) + length (live m) = m_last m" using mset_eq_length [OF eq] by (simp del: upt_Suc)
qed

lemma ended_append: "ended P f (h @ h') = ended P f h + ended P f h'"
  by (simp add: ended_def)

lemma ended_one: "ended P f [(s, r, d)] = (if s \<le> f \<and> P r d then 1 else 0)"
  by (simp add: ended_def)

text \<open>A packet leaves: what the totals and the watches say afterwards.\<close>

definition leaves :: "nat \<Rightarrow> tx_outcome \<Rightarrow> bool \<Rightarrow> tx_model \<Rightarrow> tx_model \<Rightarrow> bool" where
  "leaves s r d m m' \<longleftrightarrow>
     m_history m' = m_history m @ [(s, r, d)] \<and> m_accepted m' = m_accepted m \<and> m_generation m' = m_generation m \<and>
     (\<forall>f. length (filter (\<lambda>p. pk_sequence p \<le> f) (live m)) =
        length (filter (\<lambda>p. pk_sequence p \<le> f) (live m')) + (if s \<le> f then 1 else 0))"

lemma leaves_totals:
  assumes "leaves s r d m m'"
  shows "totals_upto f m' = (if s \<le> f then count_terminal r d (totals_upto f m) else totals_upto f m)"
  using assms
  by (cases r; cases d) (auto simp: leaves_def totals_upto_def count_terminal_def ended_append ended_one)

lemma leaves_watch:
  assumes "leaves s r d m m'" "watch_ok n w"
  shows "settle_watch s r d (watch_for m w) = watch_for m' w"
proof (cases w)
  case None
  then show ?thesis by (simp add: watch_for_def settle_watch_def no_watch_def)
next
  case (Some iw)
  then obtain ident fence where w: "w = Some (ident, fence)" by (cases iw) auto
  show ?thesis
    using assms leaves_totals [OF assms(1), of fence] unfolding w
    by (auto simp: watch_for_def settle_watch_def watch_status_def leaves_def watch_ok_def)
qed

lemma settle_leaves:
  assumes "leaves s r d m m'" "model_ok m" "s \<le> m_last m" "q_totals q = totals_upto (m_last m) m"
    "q_flushes q = map (watch_for m) (m_watches m)"
  shows "settle s r d q = q\<lparr>q_totals := totals_upto (m_last m) m', q_flushes := map (watch_for m') (m_watches m)\<rparr>"
proof -
  have "settle_watch s r d (watch_for m w) = watch_for m' w" if "w \<in> set (m_watches m)" for w
    using assms(2) that by (intro leaves_watch [OF assms(1), of "m_last m"]) (auto simp: model_ok_def)
  then show ?thesis
    using leaves_totals [OF assms(1), of "m_last m"] assms(3-5) by (simp add: settle_def)
qed

section \<open>Dropping a waiting packet\<close>

lemma live_bytes_split: "packet_bytes (xs @ p # ys) = packet_bytes (xs @ ys) + pl_length (pk_payload p)"
  by (simp add: packet_bytes_def)

definition without :: "tx_packet list \<Rightarrow> tx_packet \<Rightarrow> tx_packet list \<Rightarrow> tx_model \<Rightarrow> tx_model" where
  "without xs p ys m = drop_packets [p] (m\<lparr>m_pending := xs @ ys\<rparr>)"

lemma without_leaves:
  assumes "m_pending m = xs @ p # ys"
  shows "leaves (pk_sequence p) OUT_ABORTED True m (without xs p ys m)"
  using assms by (simp add: leaves_def without_def drop_packets_def live_def)

lemma without_ok:
  assumes "model_ok m" "m_pending m = xs @ p # ys"
  shows "model_ok (without xs p ys m) \<and> pk_sequence p \<le> m_last m"
proof -
  have "pk_sequence p \<in> {1..m_last m}" unfolding model_ok_sequences(2) [OF assms(1), symmetric] by (simp add: live_def assms(2))
  then show ?thesis using assms live_bytes_split [of xs p "ys @ m_flight m"]
    by (auto simp: model_ok_def without_def drop_packets_def live_def)
qed

lemma drop_shape:
  assumes "shape (xs @ i # ys) js q"
  shows "shape (xs @ ys) js (drop_state i q)"
proof -
  have i: "i < q_capacity q" "i \<notin> set (xs @ ys)" "i \<notin> set js" "length (q_slots q) = q_capacity q"
    using assms by (auto simp: shape_def)
  show ?thesis using assms i
    by (auto simp: shape_def drop_state_def Let_def settle_def nth_list_update free_slot_def)
qed

lemma packets_update: "i \<notin> set is \<Longrightarrow> packets (ss[i := s]) is = packets ss is"
  by (simp add: nth_other)

lemma drop_view:
  assumes "shape (xs @ i # ys) js q" "view (xs @ i # ys) js m q" "model_ok m"
  shows "view (xs @ ys) js (without (packets (q_slots q) xs) (packet_of (q_slots q ! i)) (packets (q_slots q) ys) m) (drop_state i q)"
proof -
  let ?p = "packet_of (q_slots q ! i)" and ?xs = "packets (q_slots q) xs" and ?ys = "packets (q_slots q) ys"
  have i: "i \<notin> set xs" "i \<notin> set ys" "i \<notin> set js" using assms(1) by (auto simp: shape_def)
  have pending: "m_pending m = ?xs @ ?p # ?ys" using assms(2) by (simp add: view_def)
  note ok = without_ok [OF assms(3) pending]
  have settled: "settle (pk_sequence ?p) OUT_ABORTED True q =
      q\<lparr>q_totals := totals_upto (m_last m) (without ?xs ?p ?ys m), q_flushes := map (watch_for (without ?xs ?p ?ys m)) (m_watches m)\<rparr>"
    using assms(2) ok by (intro settle_leaves [OF without_leaves [OF pending] assms(3)]) (simp_all add: view_def)
  have seq: "sl_sequence (q_slots q ! i) = pk_sequence ?p" "sl_payload (q_slots q ! i) = pk_payload ?p"
    by (simp_all add: packet_of_def)
  have bytes: "packet_bytes (live m) = packet_bytes (?xs @ ?ys @ m_flight m) + pl_length (pk_payload ?p)"
    using live_bytes_split [of ?xs ?p "?ys @ m_flight m"] pending by (simp add: live_def)
  have state: "drop_state i q = (settle (pk_sequence ?p) OUT_ABORTED True q)
      \<lparr>q_used_bytes := q_used_bytes q - pl_length (pk_payload ?p), q_slots := (q_slots q)[i := free_slot],
       q_free := q_free q + 1, q_queued := q_queued q - 1\<rparr>"
    by (simp add: drop_state_def Let_def seq settle_def)
  show ?thesis
    unfolding state settled using assms(2) i bytes
    by (auto simp: view_def without_def drop_packets_def live_def packets_update queue_valid_def)
qed

text \<open>A run of waiting packets.\<close>

definition without_all :: "tx_packet list \<Rightarrow> tx_packet list \<Rightarrow> tx_packet list \<Rightarrow> tx_model \<Rightarrow> tx_model" where
  "without_all xs ps ys m = drop_packets ps (m\<lparr>m_pending := xs @ ys\<rparr>)"

lemma fold_drop:
  assumes "shape (xs @ ds @ ys) js q" "view (xs @ ds @ ys) js m q" "model_ok m"
  shows "shape (xs @ ys) js (fold drop_state ds q) \<and>
    view (xs @ ys) js (without_all (packets (q_slots q) xs) (packets (q_slots q) ds) (packets (q_slots q) ys) m) (fold drop_state ds q) \<and>
    model_ok (without_all (packets (q_slots q) xs) (packets (q_slots q) ds) (packets (q_slots q) ys) m) \<and>
    (\<forall>j. j \<notin> set ds \<longrightarrow> q_slots (fold drop_state ds q) ! j = q_slots q ! j) \<and>
    q_head (fold drop_state ds q) = q_head q \<and> q_tail (fold drop_state ds q) = q_tail q"
  using assms
proof (induction ds arbitrary: q m)
  case Nil
  have "m_pending m = packets (q_slots q) xs @ packets (q_slots q) ys" using Nil.prems(2) by (simp add: view_def)
  then have "without_all (packets (q_slots q) xs) [] (packets (q_slots q) ys) m = m"
    by (simp add: without_all_def drop_packets_def)
  then show ?case using Nil.prems by simp
next
  case (Cons i ds)
  let ?ss = "q_slots q"
  let ?m = "without (packets ?ss xs) (packet_of (?ss ! i)) (packets ?ss (ds @ ys)) m"
  have pre: "shape (xs @ i # (ds @ ys)) js q" "view (xs @ i # (ds @ ys)) js m q" using Cons.prems by simp_all
  have i: "i \<notin> set xs" "i \<notin> set ds" "i \<notin> set ys" using pre(1) by (auto simp: shape_def)
  have pending: "m_pending m = packets ?ss xs @ packet_of (?ss ! i) # packets ?ss (ds @ ys)" using pre(2) by (simp add: view_def)
  have m: "without_all (packets ?ss xs) (packets ?ss ds) (packets ?ss ys) ?m =
      without_all (packets ?ss xs) (packets ?ss (i # ds)) (packets ?ss ys) m"
    by (simp add: without_all_def without_def drop_packets_def)
  have slots: "packets (q_slots (drop_state i q)) xs = packets ?ss xs" "packets (q_slots (drop_state i q)) ds = packets ?ss ds"
    "packets (q_slots (drop_state i q)) ys = packets ?ss ys" using i by (simp_all add: packets_update)
  note IH = Cons.IH [OF drop_shape [OF pre(1)] drop_view [OF pre Cons.prems(3)] conjunct1 [OF without_ok [OF Cons.prems(3) pending]],
      unfolded slots m]
  show ?case using IH by (auto simp: nth_list_update_neq)
qed

section \<open>Eviction\<close>

lemma shape_ends [simp]:
  "shape is js (q\<lparr>q_head := h\<rparr>) = shape is js q" "shape is js (q\<lparr>q_tail := t\<rparr>) = shape is js q"
  by (simp_all add: shape_def)

lemma view_ends [simp]:
  "view is js m (q\<lparr>q_head := h\<rparr>) = view is js m q" "view is js m (q\<lparr>q_tail := t\<rparr>) = view is js m q"
  by (simp_all add: view_def queue_valid_def)

abbreviation relinked :: "nat \<Rightarrow> nat option \<Rightarrow> tx_queue \<Rightarrow> tx_queue" where
  "relinked i z q \<equiv> q\<lparr>q_slots := (q_slots q)[i := (q_slots q ! i)\<lparr>sl_next := z\<rparr>]\<rparr>"

lemma set_next_relinked: "i < length (q_slots q) \<Longrightarrow> set_next i z q = Some (relinked i z q)"
  by (simp add: set_next_def slot_at_in)

lemma relinked_nth: "ss[i := (ss ! i)\<lparr>sl_next := z\<rparr>] ! j = (if i = j \<and> i < length ss then (ss ! j)\<lparr>sl_next := z\<rparr> else ss ! j)"
  by (cases "i < length ss"; cases "i = j") (simp_all add: list_update_beyond not_less)

lemma relinked_slot:
  "packet_of (ss[i := (ss ! i)\<lparr>sl_next := z\<rparr>] ! j) = packet_of (ss ! j)"
  "sl_allocated (ss[i := (ss ! i)\<lparr>sl_next := z\<rparr>] ! j) = sl_allocated (ss ! j)"
  "sl_in_flight (ss[i := (ss ! i)\<lparr>sl_next := z\<rparr>] ! j) = sl_in_flight (ss ! j)"
  by (simp_all add: relinked_nth packet_of_def)

lemma relinked_shape [simp]: "shape is js (relinked i z q) = shape is js q"
  by (simp add: shape_def relinked_slot)

lemma relinked_view [simp]: "view is js m (relinked i z q) = view is js m q"
  by (simp add: view_def queue_valid_def relinked_slot)

text \<open>Cutting a stretch out of the list.\<close>

lemma links_cut:
  assumes "links (as @ bs @ ds) q" "distinct (as @ bs @ ds)" "\<And>j. j \<notin> set bs \<Longrightarrow> q_slots r ! j = q_slots q ! j"
    and "length (q_slots r) = length (q_slots q)" "q_head r = q_head q" "q_tail r = q_tail q" "bs \<noteq> []"
  shows "\<exists>r'. (case last_of as of None \<Rightarrow> Some (r\<lparr>q_head := first_of ds\<rparr>) | Some p \<Rightarrow> set_next p (first_of ds) r) = Some r' \<and>
    links (as @ ds) (if first_of ds = None then r'\<lparr>q_tail := last_of as\<rparr> else r') \<and>
    (\<forall>is js m. shape is js r' = shape is js r \<and> view is js m r' = view is js m r)"
proof -
  obtain y z where paths: "path (q_slots q) (q_head q) as y" "path (q_slots q) y bs z" "path (q_slots q) z ds None"
    using assms(1) by (auto simp: links_def path_append)
  have z: "z = first_of ds" using paths(3) by (rule path_first)
  have same: "path (q_slots r) x is w = path (q_slots q) x is w" if "set is \<inter> set bs = {}" for x "is" w
  proof (rule path_cong [OF assms(4)])
    fix i assume "i \<in> set is"
    then have "i \<notin> set bs" using that by blast
    then show "sl_next (q_slots r ! i) = sl_next (q_slots q ! i)" by (simp add: assms(3))
  qed
  have as: "path (q_slots r) (q_head q) as y" and ds: "path (q_slots r) (first_of ds) ds None"
  proof -
    have "set as \<inter> set bs = {}" "set ds \<inter> set bs = {}" using assms(2) by auto
    then show "path (q_slots r) (q_head q) as y" "path (q_slots r) (first_of ds) ds None"
      using paths(1,3) same z by simp_all
  qed
  have tail: "q_tail r = last_of (as @ bs @ ds)" using assms(1,6) by (simp add: links_def)
  show ?thesis
  proof (cases as rule: rev_cases)
    case Nil
    then show ?thesis using ds tail assms(5) by (cases ds rule: rev_cases) (auto simp: links_def last_of_def)
  next
    case (snoc as' a)
    have a: "a < length (q_slots r)" "a \<notin> set ds" using path_range [OF as, of a] assms(2) snoc by auto
    have "path (q_slots (relinked a (first_of ds) r)) (q_head r) (as @ ds) None"
      unfolding path_append using path_tie [of "q_slots r" "q_head q" as' a y "first_of ds"] as ds a assms(2,5) snoc
      by (auto simp: path_update)
    then show ?thesis using tail a snoc set_next_relinked [OF a(1), of "first_of ds"]
      by (cases ds rule: rev_cases) (auto simp: links_def last_of_def)
  qed
qed

lemma evict_batch_rel:
  assumes rel: "shape is js q" "links is q" "view is js m q" "model_ok m"
    and unsent: "dropWhile pk_started (m_pending m) \<noteq> []"
    and room: "ad_evicted_packets a + length (oldest_batch (m_pending m)) \<le> length rs"
  shows "\<exists>q'. evict_batch (q, rs, a) =
      Some (q', write_from (ad_evicted_packets a) (map pk_payload (oldest_batch (m_pending m))) rs,
        a\<lparr>ad_evicted_packets := ad_evicted_packets a + length (oldest_batch (m_pending m)),
          ad_evicted_batches := ad_evicted_batches a + 1\<rparr>) \<and>
    tx_rel (drop_packets (oldest_batch (m_pending m)) (m\<lparr>m_pending := without_oldest_batch (m_pending m)\<rparr>)) q'"
proof -
  let ?ss = "q_slots q"
  define as where "as = takeWhile (\<lambda>i. sl_started (?ss ! i)) is"
  define us where "us = dropWhile (\<lambda>i. sl_started (?ss ! i)) is"
  have pending: "m_pending m = packets ?ss is" using rel(3) by (simp add: view_def)
  have started: "pk_started \<circ> (\<lambda>i. packet_of (?ss ! i)) = (\<lambda>i. sl_started (?ss ! i))" by (auto simp: packet_of_def)
  have as_us: "is = as @ us" "takeWhile pk_started (m_pending m) = packets ?ss as" "dropWhile pk_started (m_pending m) = packets ?ss us"
    unfolding pending takeWhile_map dropWhile_map started as_def us_def by simp_all
  obtain u us' where u: "us = u # us'" using unsent as_us(3) by (cases us) auto
  define b where "b = sl_batch (?ss ! u)"
  define bs where "bs = takeWhile (\<lambda>i. sl_batch (?ss ! i) = b) us"
  define ds where "ds = dropWhile (\<lambda>i. sl_batch (?ss ! i) = b) us"
  have hd_batch: "pk_batch (hd (packets ?ss us)) = b" by (simp add: u b_def packet_of_def)
  have batch: "(\<lambda>p. pk_batch p = b) \<circ> (\<lambda>i. packet_of (?ss ! i)) = (\<lambda>i. sl_batch (?ss ! i) = b)" by (auto simp: packet_of_def)
  have cut: "us = bs @ ds" "oldest_batch (m_pending m) = packets ?ss bs" "without_oldest_batch (m_pending m) = packets ?ss (as @ ds)"
    unfolding oldest_batch_def without_oldest_batch_def Let_def as_us hd_batch takeWhile_map dropWhile_map batch bs_def ds_def by simp_all
  have bs: "bs \<noteq> []" by (simp add: bs_def u b_def)
  have is3: "is = as @ bs @ ds" using as_us(1) cut(1) by simp
  have "distinct is" using rel(1) by (simp add: shape_def)
  then have dist: "distinct (as @ bs @ ds)" by (simp only: is3)
  obtain y where y: "path ?ss (q_head q) as y" "path ?ss y us None"
    using rel(2) as_us(1) by (auto simp: links_def path_append)
  have "y = Some u" using path_first [OF y(2)] by (simp add: u)
  note upath = y(2) [unfolded this]
  have u_in: "u < length ?ss" using path_range [OF upath, of u] u by simp
  have skip: "skip_started ?ss None (q_head q) = Some (last_of as, Some u)"
    using skip_started_path [of ?ss "q_head q" "is" None] rel(2)
    unfolding as_def [symmetric] us_def [symmetric] by (simp add: links_def u last_of_def)
  have drop: "drop_batch b (Some u) q rs (ad_evicted_packets a) =
      Some (first_of ds, fold drop_state bs q, write_from (ad_evicted_packets a) (map (\<lambda>i. sl_payload (?ss ! i)) bs) rs,
        ad_evicted_packets a + length bs)"
  proof -
    have "distinct us" using dist cut(1) by simp
    moreover have "ad_evicted_packets a + length bs \<le> length rs" using room by (simp add: cut(2))
    ultimately show ?thesis
      using drop_batch_path [OF upath, of "ad_evicted_packets a" b rs] unfolding bs_def [symmetric] ds_def [symmetric] by (simp add: Let_def)
  qed
  note dropped = fold_drop [OF rel(1,3) [unfolded is3] rel(4)]
  obtain r' where r': "(case last_of as of None \<Rightarrow> Some ((fold drop_state bs q)\<lparr>q_head := first_of ds\<rparr>)
        | Some p \<Rightarrow> set_next p (first_of ds) (fold drop_state bs q)) = Some r'"
      "links (as @ ds) (if first_of ds = None then r'\<lparr>q_tail := last_of as\<rparr> else r')"
      "\<And>is js m. shape is js r' = shape is js (fold drop_state bs q) \<and> view is js m r' = view is js m (fold drop_state bs q)"
    using links_cut [OF rel(2) [unfolded is3] dist dropped [THEN conjunct2, THEN conjunct2, THEN conjunct2, THEN conjunct1, rule_format]
        fold_drop_length dropped [THEN conjunct2, THEN conjunct2, THEN conjunct2, THEN conjunct2, THEN conjunct1]
        dropped [THEN conjunct2, THEN conjunct2, THEN conjunct2, THEN conjunct2, THEN conjunct2] bs] by blast
  let ?q = "if first_of ds = None then r'\<lparr>q_tail := last_of as\<rparr> else r'"
  let ?m = "drop_packets (oldest_batch (m_pending m)) (m\<lparr>m_pending := without_oldest_batch (m_pending m)\<rparr>)"
  have m: "without_all (packets ?ss as) (packets ?ss bs) (packets ?ss ds) m = ?m"
    by (simp add: without_all_def cut)
  have "shape (as @ ds) js ?q" "view (as @ ds) js ?m ?q" using dropped r'(3) m by auto
  then have "tx_rel ?m ?q" using dropped [unfolded m] r'(2) unfolding tx_rel_def by blast
  moreover have "evict_batch (q, rs, a) =
      Some (?q, write_from (ad_evicted_packets a) (map pk_payload (oldest_batch (m_pending m))) rs,
        a\<lparr>ad_evicted_packets := ad_evicted_packets a + length (oldest_batch (m_pending m)), ad_evicted_batches := ad_evicted_batches a + 1\<rparr>)"
    using skip drop r'(1) u_in by (simp add: evict_batch_def slot_at_in b_def [symmetric] cut(2) packet_of_def comp_def)
  ultimately show ?thesis by blast
qed

lemma write_from_append:
  "n + length xs + length ys \<le> length rs \<Longrightarrow> write_from (n + length xs) ys (write_from n xs rs) = write_from n (xs @ ys) rs"
proof -
  assume fits: "n + length xs + length ys \<le> length rs"
  then have "take (n + length xs) (write_from n xs rs) = take n rs @ xs"
    "drop (n + length xs + length ys) (write_from n xs rs) = drop (n + length xs + length ys) rs"
    by (simp_all add: write_from_def add.commute)
  then show ?thesis by (simp add: write_from_def [of "n + length xs"]) (simp add: write_from_def add.assoc)
qed

lemma length_write_from: "n + length xs \<le> length rs \<Longrightarrow> length (write_from n xs rs) = length rs"
  by (simp add: write_from_def)

lemma rel_live_length:
  assumes "shape is js q" "view is js m q"
  shows "length (live m) \<le> m_capacity m \<and> q_free q = model_free m \<and> length (m_pending m) \<le> m_capacity m"
  using assms by (auto simp: shape_def view_def live_def model_free_def)

lemma rel_room:
  assumes "shape is js q" "view is js m q"
  shows "no_room need incoming q \<longleftrightarrow> \<not> model_room need incoming m"
  using assms rel_live_length [OF assms] by (auto simp: no_room_def model_room_def view_def)

text \<open>One eviction in the model.\<close>

definition evicted_once :: "tx_model \<Rightarrow> tx_model" where
  "evicted_once m = drop_packets (oldest_batch (m_pending m)) (m\<lparr>m_pending := without_oldest_batch (m_pending m)\<rparr>)"

lemma pending_cut:
  obtains as bs ds where "m_pending m = as @ bs @ ds" "oldest_batch (m_pending m) = bs" "without_oldest_batch (m_pending m) = as @ ds"
    "\<forall>p \<in> set as. pk_started p"
proof -
  let ?as = "takeWhile pk_started (m_pending m)" and ?us = "dropWhile pk_started (m_pending m)"
  let ?P = "\<lambda>p. pk_batch p = pk_batch (hd ?us)"
  show thesis
  proof (rule that [of ?as "takeWhile ?P ?us" "dropWhile ?P ?us"])
    show "m_pending m = ?as @ takeWhile ?P ?us @ dropWhile ?P ?us" by simp
  qed (auto simp: oldest_batch_def without_oldest_batch_def Let_def dest: set_takeWhileD)
qed

lemma evicted_once_fields [simp]:
  "m_last (evicted_once m) = m_last m" "m_capacity (evicted_once m) = m_capacity m"
  "m_capacity_bytes (evicted_once m) = m_capacity_bytes m" "m_generation (evicted_once m) = m_generation m"
  "m_flight (evicted_once m) = m_flight m" "m_pending (evicted_once m) = without_oldest_batch (m_pending m)"
  "m_closed (evicted_once m) = m_closed m" "m_watches (evicted_once m) = m_watches m"
  by (simp_all add: evicted_once_def drop_packets_def)

lemma evicted_once_length: "length (oldest_batch (m_pending m)) + length (m_pending (evicted_once m)) = length (m_pending m)"
  by (cases rule: pending_cut [of m]) simp

lemma enough_evict:
  assumes "model_enough need incoming m" "length (live m) \<le> m_capacity m" "packet_bytes (live m) \<le> m_capacity_bytes m"
  shows "model_enough need incoming (evicted_once m)"
proof -
  obtain as bs ds where cut: "m_pending m = as @ bs @ ds" "oldest_batch (m_pending m) = bs" "without_oldest_batch (m_pending m) = as @ ds"
    "\<forall>p \<in> set as. pk_started p" by (rule pending_cut)
  have as: "filter (Not \<circ> pk_started) as = []" using cut(4) by (simp add: filter_empty_conv)
  have bs: "length (filter (Not \<circ> pk_started) bs) \<le> length bs" by simp
  have "packet_bytes (filter P bs) \<le> packet_bytes bs" for P
    by (induction bs) (simp_all add: packet_bytes_def)
  note bytes = this [of "Not \<circ> pk_started"]
  have app: "packet_bytes (xs @ ys) = packet_bytes xs + packet_bytes ys" for xs ys by (simp add: packet_bytes_def)
  define m2 where "m2 = evicted_once m"
  have m2: "m_pending m2 = as @ ds" "m_flight m2 = m_flight m" "m_capacity m2 = m_capacity m" "m_capacity_bytes m2 = m_capacity_bytes m"
    using cut(3) by (simp_all add: m2_def)
  show ?thesis
    using assms bs bytes as unfolding m2_def [symmetric]
    by (simp add: model_enough_def Let_def model_free_def live_def m2 cut(1) app) (elim conjE, intro conjI; use bs in linarith)
qed

lemma enough_unsent:
  assumes "model_enough need incoming m" "\<not> model_room need incoming m"
  shows "dropWhile pk_started (m_pending m) \<noteq> []"
proof
  assume "dropWhile pk_started (m_pending m) = []"
  then have "filter (Not \<circ> pk_started) (m_pending m) = []" by (simp add: filter_empty_conv)
  then show False using assms by (simp add: model_enough_def model_room_def packet_bytes_def)
qed

lemma model_evict_step:
  assumes "\<not> model_room need incoming m" "dropWhile pk_started (m_pending m) \<noteq> []"
  shows "model_evict need incoming m =
    (let (ps, n, m') = model_evict need incoming (evicted_once m) in (oldest_batch (m_pending m) @ ps, n + 1, m'))"
  using assms by (subst model_evict.simps) (simp only: evicted_once_def Let_def simp_thms if_False)

lemma evict_loop_rel:
  assumes "tx_rel m q" "model_enough need incoming m \<or> model_room need incoming m"
    "ad_evicted_packets a + length (m_pending m) \<le> length rs" "model_evict need incoming m = (ps, n, m')"
  shows "\<exists>q'. evict_loop need incoming (q, rs, a) =
      Some (q', write_from (ad_evicted_packets a) (map pk_payload ps) rs,
        a\<lparr>ad_evicted_packets := ad_evicted_packets a + length ps, ad_evicted_batches := ad_evicted_batches a + n\<rparr>) \<and>
    tx_rel m' q' \<and> model_room need incoming m' \<and> ad_evicted_packets a + length ps \<le> length rs \<and>
    m_last m' = m_last m \<and> m_capacity m' = m_capacity m \<and> m_capacity_bytes m' = m_capacity_bytes m \<and>
    m_generation m' = m_generation m \<and> m_closed m' = m_closed m"
  using assms
proof (induction need incoming m arbitrary: q a rs ps n rule: model_evict.induct)
  case (1 need incoming m)
  obtain "is" js where rel: "shape is js q" "links is q" "view is js m q" "model_ok m" using "1.prems"(1) by (auto simp: tx_rel_def)
  show ?case
  proof (cases "model_room need incoming m")
    case True
    then show ?thesis using "1.prems" rel_room [OF rel(1,3)]
      by (subst evict_loop.simps) (simp add: model_evict.simps [of _ _ m] write_from_def)
  next
    case False
    let ?b = "oldest_batch (m_pending m)"
    have enough: "model_enough need incoming m" using "1.prems"(2) False by blast
    note unsent = enough_unsent [OF enough False]
    have room: "ad_evicted_packets a + length ?b \<le> length rs" using "1.prems"(3) evicted_once_length [of m] by linarith
    obtain q1 where q1: "evict_batch (q, rs, a) = Some (q1, write_from (ad_evicted_packets a) (map pk_payload ?b) rs,
        a\<lparr>ad_evicted_packets := ad_evicted_packets a + length ?b, ad_evicted_batches := ad_evicted_batches a + 1\<rparr>)"
      "tx_rel (evicted_once m) q1"
      using evict_batch_rel [OF rel unsent room] unfolding evicted_once_def by blast
    obtain ps1 n1 where nxt: "model_evict need incoming (evicted_once m) = (ps1, n1, m')" "ps = ?b @ ps1" "n = n1 + 1"
      using "1.prems"(4) unfolding model_evict_step [OF False unsent] by (auto simp: Let_def split: prod.splits)
    let ?a = "a\<lparr>ad_evicted_packets := ad_evicted_packets a + length ?b, ad_evicted_batches := ad_evicted_batches a + 1\<rparr>"
    let ?rs = "write_from (ad_evicted_packets a) (map pk_payload ?b) rs"
    have rs: "length ?rs = length rs" using room by (simp add: length_write_from)
    have live: "length (live m) \<le> m_capacity m" "packet_bytes (live m) \<le> m_capacity_bytes m"
      using rel_live_length [OF rel(1,3)] rel(4) by (simp_all add: model_ok_def)
    have "ad_evicted_packets ?a + length (m_pending (evicted_once m)) \<le> length ?rs"
      using "1.prems"(3) evicted_once_length [of m] rs by simp
    note IH = "1.IH" [OF _ refl, unfolded evicted_once_def [symmetric], OF _ q1(2) disjI1 [OF enough_evict [OF enough live]] this nxt(1)]
    have "evict_loop need incoming (q, rs, a) = evict_loop need incoming (q1, ?rs, ?a)"
      using False rel_room [OF rel(1,3)] q1(1) by (subst evict_loop.simps) simp
    then show ?thesis
      using IH False unsent rs write_from_append [of "ad_evicted_packets a" "map pk_payload ?b" "map pk_payload ps1" rs]
      by (auto simp: nxt add.assoc)
  qed
qed

section \<open>Admission\<close>

abbreviation new_packet :: "tx_payload \<Rightarrow> nat \<Rightarrow> nat \<Rightarrow> tx_packet" where
  "new_packet f s b \<equiv> \<lparr>pk_payload = f, pk_sequence = s, pk_batch = b, pk_started = False, pk_accepted = False\<rparr>"

fun packets_from :: "nat \<Rightarrow> nat \<Rightarrow> tx_payload list \<Rightarrow> tx_packet list" where
  "packets_from s b [] = []"
| "packets_from s b (f # fs) = new_packet f s b # packets_from (s + 1) b fs"

lemma packets_from_upt: "packets_from s b fs = map (\<lambda>k. new_packet (fs ! k) (s + k) b) [0..<length fs]"
  by (induction fs arbitrary: s) (simp_all add: map_upt_Suc del: upt_Suc)

lemma new_packets_from: "new_packets before fs = packets_from (before + 1) (before + 1) fs"
  by (simp add: packets_from_upt new_packets_def)

text \<open>An insertion changes the slots, the ends and two counters only.\<close>

definition inserted :: "tx_queue \<Rightarrow> tx_queue \<Rightarrow> bool" where
  "inserted q q' \<longleftrightarrow>
     (\<exists>ss h t n f. q' = q\<lparr>q_slots := ss, q_head := h, q_tail := t, q_queued := n, q_free := f\<rparr>)"

lemma inserted_refl: "inserted q q"
  unfolding inserted_def
  by (intro exI [of _ "q_slots q"] exI [of _ "q_head q"] exI [of _ "q_tail q"] exI [of _ "q_queued q"] exI [of _ "q_free q"]) simp

lemma insertedI:
  "q' = q\<lparr>q_slots := q_slots q', q_head := q_head q', q_tail := q_tail q', q_queued := q_queued q', q_free := q_free q'\<rparr> \<Longrightarrow>
   inserted q q'"
  unfolding inserted_def by blast

lemma inserted_trans: "inserted q r \<Longrightarrow> inserted r s \<Longrightarrow> inserted q s"
  by (fastforce simp: inserted_def)

lemma shape_free_slot:
  assumes "shape is js q" "0 < q_free q"
  shows "\<exists>k < q_capacity q. \<not> sl_allocated (q_slots q ! k)"
proof (rule ccontr)
  assume "\<not> ?thesis"
  then have "{..<q_capacity q} \<subseteq> set (is @ js)" using assms(1) by (auto simp: shape_def)
  then have "q_capacity q \<le> card (set (is @ js))" using card_mono [of "set (is @ js)" "{..<q_capacity q}"] by simp
  also have "\<dots> \<le> length (is @ js)" by (rule card_length)
  finally show False using assms by (simp add: shape_def)
qed

lemma insert_frame_rel:
  assumes "shape is js q" "links is q" "0 < q_free q"
  shows "\<exists>i q'. insert_frame f s b q = Some q' \<and> shape (is @ [i]) js q' \<and> links (is @ [i]) q' \<and>
    packets (q_slots q') is = packets (q_slots q) is \<and> packets (q_slots q') js = packets (q_slots q) js \<and>
    packet_of (q_slots q' ! i) = new_packet f s b \<and> inserted q q' \<and> q_free q' = q_free q - 1"
proof -
  have len: "length (q_slots q) = q_capacity q" using assms(1) by (simp add: shape_def)
  obtain i where i: "first_free (q_slots q) 0 = Some i" "i < q_capacity q" "\<not> sl_allocated (q_slots q ! i)"
    using first_free_found [of 0 "q_slots q"] shape_free_slot [OF assms(1,3)] len by auto
  have fresh: "i \<notin> set is" "i \<notin> set js" using assms(1) i(2,3) by (auto simp: shape_def)
  define slot where "slot = \<lparr>sl_payload = f, sl_sequence = s, sl_batch = b, sl_next = None, sl_allocated = True,
    sl_accepted = False, sl_in_flight = False, sl_started = False\<rparr>"
  define q1 where "q1 = q\<lparr>q_slots := (q_slots q)[i := slot]\<rparr>"
  define q2 where "q2 = (case q_tail q1 of None \<Rightarrow> q1\<lparr>q_head := Some i\<rparr> | Some t \<Rightarrow> relinked t (Some i) q1)"
  define q3 where "q3 = q2\<lparr>q_tail := Some i, q_queued := q_queued q + 1, q_free := q_free q - 1\<rparr>"
  have path: "path (q_slots q1) (q_head q) is None" "q_tail q = last_of is"
    using assms(2) fresh by (simp_all add: links_def q1_def path_update)
  have one: "q_slots q1 ! i = slot" "length (q_slots q1) = q_capacity q" using i(2) len by (simp_all add: q1_def)
  have eq: "insert_frame f s b q = Some q3 \<and> path (q_slots q3) (q_head q3) (is @ [i]) None"
  proof (cases "is" rule: rev_cases)
    case Nil
    then have "q3 = q1\<lparr>q_head := Some i, q_tail := Some i, q_queued := q_queued q + 1, q_free := q_free q - 1\<rparr>"
      using path by (simp add: q3_def q2_def q1_def)
    then show ?thesis using Nil i(1,2) path one
      by (simp add: insert_frame_def slot_def [symmetric] q1_def [symmetric]) (simp add: q1_def slot_def)
  next
    case (snoc xs t)
    have t: "t < length (q_slots q1)" "t \<noteq> i" using path_range [OF path(1), of t] snoc fresh by auto
    have "distinct (xs @ [t])" using assms(1) snoc by (simp add: shape_def)
    note tied = path_tie [OF path(1) [unfolded snoc] this, of "Some i"]
    have q3: "q3 = (relinked t (Some i) q1)\<lparr>q_tail := Some i, q_queued := q_queued q + 1, q_free := q_free q - 1\<rparr>"
      using path snoc by (simp add: q3_def q2_def q1_def)
    have "insert_frame f s b q = Some q3"
      using i(1) path(2) snoc set_next_relinked [OF t(1), of "Some i"]
      by (simp add: insert_frame_def slot_def [symmetric] q1_def [symmetric] q3) (simp add: q1_def)
    moreover have "path (q_slots q3) (q_head q3) (is @ [i]) None"
      using tied t one i(2) snoc by (simp add: q3 path_append) (auto simp: q1_def slot_def)
    ultimately show ?thesis by blast
  qed
  have slots: "packet_of (q_slots q3 ! j) = packet_of (q_slots q1 ! j)" "sl_allocated (q_slots q3 ! j) = sl_allocated (q_slots q1 ! j)"
    "sl_in_flight (q_slots q3 ! j) = sl_in_flight (q_slots q1 ! j)" for j
    by (cases "q_tail q1"; simp add: q3_def q2_def relinked_slot)+
  have fields: "q_capacity q3 = q_capacity q" "length (q_slots q3) = q_capacity q" "q_queued q3 = q_queued q + 1"
    "q_free q3 = q_free q - 1" "q_in_flight q3 = q_in_flight q" "q_active q3 = q_active q"
    by (cases "q_tail q1"; simp add: q3_def q2_def q1_def len)+
  have alloc: "sl_allocated (q_slots q3 ! j) \<longleftrightarrow> j = i \<or> sl_allocated (q_slots q ! j)"
    "sl_in_flight (q_slots q3 ! j) \<longleftrightarrow> j \<noteq> i \<and> sl_in_flight (q_slots q ! j)" if "j < q_capacity q" for j
    unfolding slots using that len by (cases "j = i"; simp add: q1_def slot_def)+
  have flight: "\<not> sl_in_flight (q_slots q ! i)" using assms(1) i(2) fresh(2) by (simp add: shape_def)
  have "shape (is @ [i]) js q3"
    using assms(1,3) i(2) fresh flight unfolding shape_def fields
    by (intro conjI allI impI) (auto simp: alloc)
  moreover have "packets (q_slots q3) is = packets (q_slots q) is" "packets (q_slots q3) js = packets (q_slots q) js"
    unfolding slots using fresh by (simp_all add: q1_def packets_update)
  moreover have "packet_of (q_slots q3 ! i) = new_packet f s b" unfolding slots one by (simp add: slot_def packet_of_def)
  moreover have "inserted q q3"
    by (rule insertedI, rule tx_queue.equality; cases "q_tail q1"; simp add: q3_def q2_def q1_def)
  moreover have "links (is @ [i]) q3" using eq by (simp add: links_def) (simp add: q3_def)
  moreover have "q_free q3 = q_free q - 1" by (simp add: q3_def)
  ultimately show ?thesis using eq by blast
qed

lemma insert_frames_rel:
  assumes "shape is js q" "links is q" "length fs \<le> q_free q"
  shows "\<exists>ks q'. insert_frames fs s b q = Some q' \<and> shape (is @ ks) js q' \<and> links (is @ ks) q' \<and>
    packets (q_slots q') is = packets (q_slots q) is \<and> packets (q_slots q') js = packets (q_slots q) js \<and>
    packets (q_slots q') ks = packets_from s b fs \<and> inserted q q'"
  using assms
proof (induction fs arbitrary: s q "is")
  case Nil
  then show ?case by (intro exI [of _ "[]"] exI [of _ q]) (simp add: inserted_refl)
next
  case (Cons f fs)
  obtain i q1 where q1: "insert_frame f s b q = Some q1" "shape (is @ [i]) js q1" "links (is @ [i]) q1"
    "packets (q_slots q1) is = packets (q_slots q) is" "packets (q_slots q1) js = packets (q_slots q) js"
    "packet_of (q_slots q1 ! i) = new_packet f s b" "inserted q q1" "q_free q1 = q_free q - 1"
    using insert_frame_rel [OF Cons.prems(1,2), of f s b] Cons.prems(3) by auto
  have "length fs \<le> q_free q1" using q1(8) Cons.prems(3) by simp
  from Cons.IH [OF q1(2,3) this, of "s + 1"] obtain ks q' where q': "insert_frames fs (s + 1) b q1 = Some q'"
    "shape ((is @ [i]) @ ks) js q'" "links ((is @ [i]) @ ks) q'" "packets (q_slots q') (is @ [i]) = packets (q_slots q1) (is @ [i])"
    "packets (q_slots q') js = packets (q_slots q1) js" "packets (q_slots q') ks = packets_from (s + 1) b fs" "inserted q1 q'"
    by blast
  show ?case
    using q' q1 inserted_trans [OF q1(7) q'(7)] by (intro exI [of _ "i # ks"] exI [of _ q']) simp
qed

end
