(* ===== verification/Raw_Tx_Admission.thy ===== *)
theory Raw_Tx_Admission
  imports Raw_Tx_Relation
begin

text \<open>
  The call that admits a batch of frames: the checks of the queue are those of the model, and the
  eviction loop ends with the room that the checks found.
\<close>

definition call_ok :: "tx_call \<Rightarrow> tx_model \<Rightarrow> tx_queue \<Rightarrow> bool" where
  "call_ok c m q \<longleftrightarrow>
     fst (queue_apply c q) = Some (fst (model_apply c m)) \<and> tx_rel (snd (model_apply c m)) (snd (queue_apply c q))"

section \<open>Admission\<close>

lemma frames_checked:
  "check_frames in_objects q earlier fs b =
     (if \<forall>i < length fs. \<not> bad_frame in_objects q (earlier @ take i fs) (fs ! i) then Some (b + frame_bytes fs) else None)"
proof (induction fs arbitrary: earlier b)
  case Nil
  then show ?case by (simp add: frame_bytes_def)
next
  case (Cons f fs)
  have "(\<forall>i < length (f # fs). \<not> bad_frame in_objects q (earlier @ take i (f # fs)) ((f # fs) ! i)) \<longleftrightarrow>
      \<not> bad_frame in_objects q earlier f \<and> (\<forall>i < length fs. \<not> bad_frame in_objects q ((earlier @ [f]) @ take i fs) (fs ! i))"
    by (simp only: length_Cons All_less_Suc2) simp
  then show ?case by (simp only: check_frames.simps Cons.IH) (simp add: frame_bytes_def)
qed

lemma aliases_live:
  assumes "shape is js q" "view is js m q"
  shows "aliases_payloads q f \<longleftrightarrow> list_ex (\<lambda>p. payloads_overlap (pk_payload p) f) (live m)"
proof -
  have "i < q_capacity q \<and> sl_allocated (q_slots q ! i) \<longleftrightarrow> i \<in> set (is @ js)" for i
    using assms(1) unfolding shape_def by blast
  note allocated = this
  have "aliases_payloads q f \<longleftrightarrow>
      (\<exists>i. (i < q_capacity q \<and> sl_allocated (q_slots q ! i)) \<and> payloads_overlap (sl_payload (q_slots q ! i)) f)"
    by (auto simp: aliases_payloads_def list_ex_iff)
  also have "\<dots> \<longleftrightarrow> (\<exists>i \<in> set (is @ js). payloads_overlap (sl_payload (q_slots q ! i)) f)"
    unfolding allocated Bex_def ..
  also have "\<dots> \<longleftrightarrow> list_ex (\<lambda>p. payloads_overlap (pk_payload p) f) (live m)"
  proof -
    have "live m = packets (q_slots q) (is @ js)" using assms(2) by (simp add: live_def view_def)
    then show ?thesis by (simp only: list_ex_iff set_map bex_simps) (simp add: packet_of_def)
  qed
  finally show ?thesis .
qed

lemma frames_ok:
  assumes "shape is js q" "view is js m q"
  shows "check_frames in_objects q [] fs 0 = (if model_frames_ok in_objects m fs then Some (frame_bytes fs) else None)"
  by (simp add: frames_checked model_frames_ok_def list_all_iff bad_frame_def model_bad_frame_def aliases_live [OF assms])

lemma outputs_same: "view is js m q \<Longrightarrow> empty_outputs q removed \<longleftrightarrow> outputs_ok (m_capacity m) removed"
  by (auto simp: empty_outputs_def outputs_ok_def view_def no_payload_def list_all_iff all_set_conv_all_nth split: option.splits)

lemma enough_counted:
  assumes "shape is js q" "links is q" "view is js m q"
  shows "\<exists>n b. count_evictable (q_slots q) (q_head q) 0 0 = Some (n, b) \<and>
    (q_free q + n < need \<or> incoming > q_capacity_bytes q - q_used_bytes q + b \<longleftrightarrow> \<not> model_enough need incoming m)"
proof -
  let ?ss = "q_slots q"
  have "filter (Not \<circ> pk_started) (m_pending m) = packets ?ss (filter (\<lambda>i. \<not> sl_started (?ss ! i)) is)"
    using assms(3) by (simp add: view_def filter_map comp_def packet_of_def)
  moreover have "q_free q = model_free m" using rel_live_length [OF assms(1,3)] by simp
  ultimately show ?thesis
    using count_evictable_path [of ?ss "q_head q" "is" 0 0] assms(2,3)
    by (auto simp: links_def model_enough_def view_def packet_bytes_def comp_def packet_of_def)
qed

lemma packet_bytes_append: "packet_bytes (xs @ ys) = packet_bytes xs + packet_bytes ys"
  by (simp add: packet_bytes_def)

lemma new_packets_facts:
  "packet_bytes (new_packets before fs) = frame_bytes fs"
  "map pk_sequence (new_packets before fs) = [Suc before..<Suc (before + length fs)]"
  "length (new_packets before fs) = length fs"
proof -
  have "map (\<lambda>k. pl_length (fs ! k)) [0..<length fs] = map pl_length fs" by (rule nth_equalityI) simp_all
  then show "packet_bytes (new_packets before fs) = frame_bytes fs"
    by (simp add: new_packets_def packet_bytes_def frame_bytes_def comp_def)
  show "map pk_sequence (new_packets before fs) = [Suc before..<Suc (before + length fs)]"
    by (rule nth_equalityI) (simp_all add: new_packets_def del: upt_Suc)
qed (simp add: new_packets_def)

definition grown :: "tx_payload list \<Rightarrow> tx_model \<Rightarrow> tx_model" where
  "grown fs m = m\<lparr>m_pending := m_pending m @ new_packets (m_last m) fs, m_last := m_last m + length fs\<rparr>"

lemma grown_ok:
  assumes "model_ok m" "length fs \<le> UINT32_MAX - m_last m" "packet_bytes (live m) + frame_bytes fs \<le> m_capacity_bytes m"
  shows "model_ok (grown fs m)"
proof -
  have "[1..<Suc (m_last m + length fs)] = [1..<Suc (m_last m)] @ [Suc (m_last m)..<Suc (m_last m + length fs)]"
    using upt_add_eq_append [of 1 "Suc (m_last m)" "length fs"] by simp
  then have "mset (map fst (m_history m) @ map pk_sequence (live (grown fs m))) = mset [1..<Suc (m_last m + length fs)]"
    using assms(1) by (simp add: model_ok_def grown_def live_def new_packets_facts del: upt_Suc)
  moreover have "watch_ok (m_last m + length fs) w" if "watch_ok (m_last m) w" for w
    using that by (auto simp: watch_ok_def intro: trans_le_add1)
  moreover have "packet_bytes (live (grown fs m)) = packet_bytes (live m) + frame_bytes fs"
    by (simp add: grown_def live_def packet_bytes_append new_packets_facts)
  moreover have "m_last m + length fs \<le> UINT32_MAX" using assms(1,2) unfolding model_ok_def by linarith
  moreover have "m_last (grown fs m) = m_last m + length fs" "m_capacity_bytes (grown fs m) = m_capacity_bytes m"
    "m_accepted (grown fs m) = m_accepted m" "m_watches (grown fs m) = m_watches m"
    "m_history (grown fs m) = m_history m" by (simp_all add: grown_def)
  ultimately show ?thesis
    using assms(1,3) unfolding model_ok_def by (simp add: trans_le_add1 del: upt_Suc)
qed

lemma ended_all: "\<forall>x \<in> set h. fst x \<le> a \<Longrightarrow> a \<le> b \<Longrightarrow> ended P b h = ended P a h"
  unfolding ended_def by (rule arg_cong [of _ _ length], rule filter_cong) auto

lemma history_below:
  assumes "model_ok m"
  shows "\<forall>x \<in> set (m_history m). fst x \<le> m_last m"
proof
  fix x assume "x \<in> set (m_history m)"
  then have "fst x \<in> {1..m_last m}" unfolding model_ok_sequences(2) [OF assms, symmetric] by simp
  then show "fst x \<le> m_last m" by simp
qed

lemma grown_totals:
  assumes "model_ok m"
  shows "totals_upto (m_last m + length fs) (grown fs m) = (totals_upto (m_last m) m)\<lparr>t_admitted := m_last m + length fs\<rparr>"
proof -
  note hist = history_below [OF assms]
  have "filter (\<lambda>s. s \<le> m_last m + length fs) (m_accepted m) = filter (\<lambda>s. s \<le> m_last m) (m_accepted m)"
    using assms by (intro filter_cong) (auto simp: model_ok_def)
  then show ?thesis by (simp add: totals_upto_def grown_def ended_all [OF hist le_add1])
qed

lemma grown_watch:
  assumes "watch_ok (m_last m) w"
  shows "watch_for (grown fs m) w = watch_for m w"
proof (cases w)
  case (Some iw)
  then obtain ident fence where w: "w = Some (ident, fence)" by (cases iw) auto
  then have "fence \<le> m_last m" using assms by (auto simp: watch_ok_def)
  then have "filter (\<lambda>p. pk_sequence p \<le> fence) (new_packets (m_last m) fs) = []"
    by (auto simp: filter_empty_conv new_packets_def)
  then show ?thesis by (simp add: w watch_for_def watch_status_def totals_upto_def grown_def live_def)
qed (simp add: watch_for_def)

text \<open>All that follows the eviction, once there is room.\<close>

definition admit_rest :: "nat \<Rightarrow> nat \<Rightarrow> tx_queue \<Rightarrow> tx_queue" where
  "admit_rest n incoming q =
     (let q = q\<lparr>q_used_bytes := q_used_bytes q + incoming\<rparr>;
          q = (if q_used_bytes q > q_high_water q then q\<lparr>q_high_water := q_used_bytes q\<rparr> else q)
      in q\<lparr>q_last_sequence := q_last_sequence q + n,
           q_totals := (q_totals q)\<lparr>t_admitted := t_admitted (q_totals q) + n\<rparr>\<rparr>)"

lemma admit_rest_fields [simp]:
  "q_slots (admit_rest n b q) = q_slots q" "q_head (admit_rest n b q) = q_head q" "q_tail (admit_rest n b q) = q_tail q"
  "q_capacity (admit_rest n b q) = q_capacity q" "q_queued (admit_rest n b q) = q_queued q" "q_free (admit_rest n b q) = q_free q"
  "q_in_flight (admit_rest n b q) = q_in_flight q" "q_active (admit_rest n b q) = q_active q"
  "q_used_bytes (admit_rest n b q) = q_used_bytes q + b" "q_last_sequence (admit_rest n b q) = q_last_sequence q + n"
  "q_totals (admit_rest n b q) = (q_totals q)\<lparr>t_admitted := t_admitted (q_totals q) + n\<rparr>"
  "q_flushes (admit_rest n b q) = q_flushes q" "q_generation (admit_rest n b q) = q_generation q"
  "q_capacity_bytes (admit_rest n b q) = q_capacity_bytes q" "q_max_in_flight (admit_rest n b q) = q_max_in_flight q"
  "q_closed (admit_rest n b q) = q_closed q" "q_next_flush (admit_rest n b q) = q_next_flush q"
  "queue_valid (admit_rest n b q) = queue_valid q"
  by (simp_all add: admit_rest_def Let_def queue_valid_def)

lemma insert_all_rel:
  assumes "tx_rel m q" "model_room (length fs) (frame_bytes fs) m" "length fs \<le> UINT32_MAX - m_last m"
  shows "\<exists>q'. insert_frames fs (m_last m + 1) (m_last m + 1) q = Some q' \<and> q_last_sequence q' = m_last m \<and>
    t_admitted (q_totals q') = m_last m \<and> tx_rel (grown fs m) (admit_rest (length fs) (frame_bytes fs) q')"
proof -
  obtain "is" js where rel: "shape is js q" "links is q" "view is js m q" and ok: "model_ok m"
    using assms(1) by (auto simp: tx_rel_def)
  have "length fs \<le> q_free q" using assms(2) rel_live_length [OF rel(1,3)] by (simp add: model_room_def)
  from insert_frames_rel [OF rel(1,2) this, of "m_last m + 1" "m_last m + 1"]
  obtain ks q' where q': "insert_frames fs (m_last m + 1) (m_last m + 1) q = Some q'" "shape (is @ ks) js q'" "links (is @ ks) q'"
    "packets (q_slots q') is = packets (q_slots q) is" "packets (q_slots q') js = packets (q_slots q) js"
    "packets (q_slots q') ks = new_packets (m_last m) fs" "inserted q q'"
    unfolding new_packets_from by blast
  have bytes: "packet_bytes (live m) + frame_bytes fs \<le> m_capacity_bytes m"
    using assms(2) ok unfolding model_room_def model_ok_def by linarith
  have watches: "map (watch_for (grown fs m)) (m_watches m) = map (watch_for m) (m_watches m)"
    using ok grown_watch by (auto simp: model_ok_def)
  have same: "q_last_sequence q' = m_last m" "q_totals q' = totals_upto (m_last m) m" "q_used_bytes q' = packet_bytes (live m)"
    "q_flushes q' = map (watch_for m) (m_watches m)" "q_generation q' = m_generation m" "q_capacity q' = m_capacity m"
    "q_capacity_bytes q' = m_capacity_bytes m" "q_max_in_flight q' = m_max_in_flight m" "q_closed q' = m_closed m"
    "q_next_flush q' = m_next_watch m" "queue_valid q'"
    using q'(7) rel(3) by (auto simp: inserted_def view_def queue_valid_def)
  have "view (is @ ks) js (grown fs m) (admit_rest (length fs) (frame_bytes fs) q')"
    using same rel(3) q'(4-6) grown_totals [OF ok, of fs] watches
    by (simp add: view_def live_def packet_bytes_append new_packets_facts) (simp add: grown_def totals_upto_def live_def packet_bytes_append new_packets_facts)
  moreover have "shape (is @ ks) js (admit_rest (length fs) (frame_bytes fs) q')" "links (is @ ks) (admit_rest (length fs) (frame_bytes fs) q')"
    using q'(2,3) by (simp_all add: shape_def links_def)
  ultimately show ?thesis
    using q'(1) same(1,2) grown_ok [OF ok assms(3) bytes] unfolding tx_rel_def by (auto simp: totals_upto_def)
qed

text \<open>The whole admission: the room that the checks found is made.\<close>

lemma admit_makes_room:
  assumes "tx_rel m q" "model_enough (length fs) (frame_bytes fs) m \<or> model_room (length fs) (frame_bytes fs) m"
    "m_capacity m \<le> length rs" "length fs \<le> UINT32_MAX - m_last m"
    "model_evict (length fs) (frame_bytes fs) m = (evicted, batches, m')"
    "ad_evicted_packets a = 0" "ad_evicted_batches a = 0"
  shows "\<exists>q1 q2. evict_loop (length fs) (frame_bytes fs) (q, rs, a) =
      Some (q1, written evicted rs, a\<lparr>ad_evicted_packets := length evicted, ad_evicted_batches := batches\<rparr>) \<and>
    insert_frames fs (m_last m + 1) (m_last m + 1) q1 = Some q2 \<and> q_last_sequence q2 = m_last m \<and>
    t_admitted (q_totals q2) = m_last m \<and>
    tx_rel (m'\<lparr>m_pending := m_pending m' @ new_packets (m_last m) fs, m_last := m_last m + length fs\<rparr>)
      (admit_rest (length fs) (frame_bytes fs) q2)"
proof -
  obtain "is" js where rel: "shape is js q" "view is js m q" using assms(1) by (auto simp: tx_rel_def)
  have "ad_evicted_packets a + length (m_pending m) \<le> length rs" using rel_live_length [OF rel] assms(3,6) by linarith
  from evict_loop_rel [OF assms(1,2) this assms(5)] obtain q1 where q1:
    "evict_loop (length fs) (frame_bytes fs) (q, rs, a) =
      Some (q1, written evicted rs, a\<lparr>ad_evicted_packets := length evicted, ad_evicted_batches := batches\<rparr>)"
    "tx_rel m' q1" "model_room (length fs) (frame_bytes fs) m'" "m_last m' = m_last m"
    using assms(6,7) by (auto simp: write_from_def written_def)
  from insert_all_rel [OF q1(2,3)] show ?thesis using q1(1,4) assms(4) by (auto simp: grown_def)
qed

lemma admit_checks:
  assumes "tx_rel m q"
  shows "queue_valid q" "q_capacity q = m_capacity m" "q_capacity_bytes q = m_capacity_bytes m" "q_closed q = m_closed m"
    "q_last_sequence q = m_last m" "q_generation q = m_generation m" "empty_outputs q removed = outputs_ok (m_capacity m) removed"
    "check_frames in_objects q [] fs 0 = (if model_frames_ok in_objects m fs then Some (frame_bytes fs) else None)"
    "no_room need incoming q = (\<not> model_room need incoming m)"
    "\<exists>n b. count_evictable (q_slots q) (q_head q) 0 0 = Some (n, b) \<and>
      (q_free q + n < need \<or> incoming > m_capacity_bytes m - q_used_bytes q + b \<longleftrightarrow> \<not> model_enough need incoming m)"
proof -
  obtain "is" js where rel: "shape is js q" "links is q" "view is js m q" using assms by (auto simp: tx_rel_def)
  show "queue_valid q" "q_capacity q = m_capacity m" "q_capacity_bytes q = m_capacity_bytes m" "q_closed q = m_closed m"
    "q_last_sequence q = m_last m" "q_generation q = m_generation m"
    using rel(3) by (simp_all add: view_def)
  show "empty_outputs q removed = outputs_ok (m_capacity m) removed" using rel(3) by (rule outputs_same)
  show "check_frames in_objects q [] fs 0 = (if model_frames_ok in_objects m fs then Some (frame_bytes fs) else None)"
    using rel(1,3) by (rule frames_ok)
  show "no_room need incoming q = (\<not> model_room need incoming m)" using rel(1,3) by (rule rel_room)
  show "\<exists>n b. count_evictable (q_slots q) (q_head q) 0 0 = Some (n, b) \<and>
      (q_free q + n < need \<or> incoming > m_capacity_bytes m - q_used_bytes q + b \<longleftrightarrow> \<not> model_enough need incoming m)"
    using enough_counted [OF rel] rel(3) by (simp add: view_def)
qed

lemma full_or_not:
  assumes "tx_rel m q"
  shows "(if no_room need incoming q then if overflow = REJECT_NEWEST then Some True
      else do { (evictable, evictable_bytes) \<leftarrow> count_evictable (q_slots q) (q_head q) 0 0;
        Some (q_free q + evictable < need \<or> incoming > m_capacity_bytes m - q_used_bytes q + evictable_bytes) }
      else Some False) =
    Some (\<not> model_room need incoming m \<and> (overflow = REJECT_NEWEST \<or> \<not> model_enough need incoming m))"
  using admit_checks(9,10) [OF assms, of need incoming] by auto

lemma admit_call:
  assumes "tx_rel m q"
  shows "call_ok (Admit overlap in_objects frames overflow removed) m q"
proof (cases "frames = None \<or> length (the frames) = 0 \<or> length (the frames) > m_capacity m \<or> overlap \<or>
    \<not> outputs_ok (m_capacity m) removed \<or> m_closed m \<or> length (the frames) > UINT32_MAX - m_last m \<or>
    \<not> model_frames_ok in_objects m (the frames) \<or> frame_bytes (the frames) > m_capacity_bytes m \<or>
    (\<not> model_room (length (the frames)) (frame_bytes (the frames)) m \<and>
      (overflow = REJECT_NEWEST \<or> \<not> model_enough (length (the frames)) (frame_bytes (the frames)) m))")
  case True
  note checks = admit_checks(1-8) [OF assms]
  have "\<exists>r. model_admit overlap in_objects frames overflow removed m = (Admitted r frames removed None, m) \<and>
      tx_queue_admit overlap in_objects frames overflow removed q = Some (r, frames, removed, None, q)"
  proof (cases frames)
    case None
    then show ?thesis by (simp add: model_admit_def tx_queue_admit_def)
  next
    case (Some fs)
    then show ?thesis using True
      unfolding model_admit_def tx_queue_admit_def Let_def checks full_or_not [OF assms] by (simp add: checks(1)) blast
  qed
  then show ?thesis using assms by (auto simp: call_ok_def)
next
  case False
  then obtain fs rs where fs: "frames = Some fs" "removed = Some rs" "m_capacity m \<le> length rs" by (auto simp: outputs_ok_def split: option.splits)
  obtain evicted batches m' where ev: "model_evict (length fs) (frame_bytes fs) m = (evicted, batches, m')" by (cases "model_evict (length fs) (frame_bytes fs) m") auto
  let ?a = "\<lparr>ad_generation = m_generation m, ad_first_sequence = m_last m + 1, ad_last_sequence = m_last m + length fs,
    ad_batch_sequence = m_last m + 1, ad_admitted_packets = length fs, ad_evicted_packets = 0, ad_evicted_batches = 0\<rparr>"
  let ?m = "m'\<lparr>m_pending := m_pending m' @ new_packets (m_last m) fs, m_last := m_last m + length fs\<rparr>"
  have room: "model_enough (length fs) (frame_bytes fs) m \<or> model_room (length fs) (frame_bytes fs) m"
    and fits: "length fs \<le> UINT32_MAX - m_last m" using False fs by auto
  obtain q1 q2 where q: "evict_loop (length fs) (frame_bytes fs) (q, rs, ?a) =
      Some (q1, written evicted rs, ?a\<lparr>ad_evicted_packets := length evicted, ad_evicted_batches := batches\<rparr>)"
    "insert_frames fs (m_last m + 1) (m_last m + 1) q1 = Some q2" "q_last_sequence q2 = m_last m"
    "t_admitted (q_totals q2) = m_last m" "tx_rel ?m (admit_rest (length fs) (frame_bytes fs) q2)"
    using admit_makes_room [OF assms room fs(3) fits ev, of ?a] by auto
  let ?r = "?a\<lparr>ad_evicted_packets := length evicted, ad_evicted_batches := batches\<rparr>"
  have "tx_queue_admit overlap in_objects frames overflow removed q =
      Some (TX_OK, Some (replicate (length fs) no_payload), Some (written evicted rs), Some ?r, admit_rest (length fs) (frame_bytes fs) q2)"
    unfolding tx_queue_admit_def Let_def admit_checks(1-8) [OF assms] full_or_not [OF assms] using False fs q
    by (simp add: admit_rest_def Let_def admit_checks(1) [OF assms])
  moreover have "model_admit overlap in_objects frames overflow removed m =
      (Admitted TX_OK (Some (replicate (length fs) no_payload)) (Some (written evicted rs)) (Some ?r), ?m)"
    unfolding model_admit_def Let_def using False fs ev by simp
  ultimately show ?thesis using q(5) by (simp add: call_ok_def)
qed

end
