(* ===== verification/Raw_Tx_Flush.thy ===== *)
theory Raw_Tx_Flush
  imports Raw_Tx_Admission
begin

text \<open>
  The calls that neither add nor remove a packet: limits, counters and the flush watches, whose
  pending count and totals are those that the model reads off its lists.
\<close>

section \<open>What the totals and the watches depend on\<close>

lemma filter_sequences: "length (filter (\<lambda>p. pk_sequence p \<le> f) ps) = size (filter_mset (\<lambda>s. s \<le> f) (mset (map pk_sequence ps)))"
  by (induction ps) simp_all

lemma totals_cong: "m_history m' = m_history m \<Longrightarrow> m_accepted m' = m_accepted m \<Longrightarrow> totals_upto f m' = totals_upto f m"
  by (simp add: totals_upto_def)

lemma watch_cong:
  assumes "m_history m' = m_history m" "m_accepted m' = m_accepted m" "m_generation m' = m_generation m"
    "mset (map pk_sequence (live m')) = mset (map pk_sequence (live m))"
  shows "watch_for m' = watch_for m"
proof
  fix w
  show "watch_for m' w = watch_for m w"
    using assms(3,4) by (simp add: watch_for_def watch_status_def filter_sequences totals_cong [OF assms(1,2)] split: option.splits)
qed

lemma tx_relD:
  assumes "tx_rel m q"
  obtains "is" js where "shape is js q" "links is q" "view is js m q" "model_ok m"
  using assms by (auto simp: tx_rel_def)

lemma queue_valid_updates [simp]:
  "queue_valid (q\<lparr>q_capacity_bytes := b\<rparr>) = queue_valid q" "queue_valid (q\<lparr>q_max_in_flight := w\<rparr>) = queue_valid q"
  "queue_valid (q\<lparr>q_flushes := fs\<rparr>) = queue_valid q" "queue_valid (q\<lparr>q_next_flush := k\<rparr>) = queue_valid q"
  "queue_valid (q\<lparr>q_slots := ss\<rparr>) = queue_valid q" "queue_valid (q\<lparr>q_totals := t\<rparr>) = queue_valid q"
  "queue_valid (q\<lparr>q_closed := c\<rparr>) = queue_valid q" "queue_valid (q\<lparr>q_queued := n\<rparr>) = queue_valid q"
  "queue_valid (q\<lparr>q_in_flight := n\<rparr>) = queue_valid q" "queue_valid (q\<lparr>q_active := x\<rparr>) = queue_valid q"
  "queue_valid (q\<lparr>q_active_batch := n\<rparr>) = queue_valid q" "queue_valid (q\<lparr>q_head := x\<rparr>) = queue_valid q"
  "queue_valid (q\<lparr>q_tail := x\<rparr>) = queue_valid q" "queue_valid (q\<lparr>q_free := n\<rparr>) = queue_valid q"
  "queue_valid (q\<lparr>q_used_bytes := n\<rparr>) = queue_valid q"
  by (simp_all add: queue_valid_def)

section \<open>Limits and counters\<close>

lemma limits_call:
  assumes "tx_rel m q"
  shows "call_ok (Limits byte_limit window) m q"
proof (cases "m_closed m \<or> m_last m \<noteq> 0 \<or> byte_limit < TX_MIN_FRAME_BYTES \<or> byte_limit > m_capacity m * TX_MAX_FRAME_BYTES \<or>
    window = 0 \<or> window > m_capacity m")
  case True
  then show ?thesis using assms admit_checks(1-5) [OF assms] by (auto simp: call_ok_def tx_queue_limits_def)
next
  case False
  let ?m = "m\<lparr>m_capacity_bytes := byte_limit, m_max_in_flight := window\<rparr>"
  let ?q = "q\<lparr>q_capacity_bytes := byte_limit, q_max_in_flight := window\<rparr>"
  obtain "is" js where rel: "shape is js q" "links is q" "view is js m q" "model_ok m" using assms by (rule tx_relD)
  have live: "live m = []" using model_ok_sequences(3) [OF rel(4)] False by simp
  have same: "watch_for ?m = watch_for m" by (rule watch_cong) (simp_all add: live_def)
  have "model_ok ?m" using rel(4) live by (simp add: model_ok_def live_def packet_bytes_def)
  moreover have "shape is js ?q" "links is ?q" using rel(1,2) by (simp_all add: shape_def links_def)
  moreover have "view is js ?m ?q" using rel(3) by (simp add: view_def same live_def totals_cong [of ?m m])
  ultimately have "tx_rel ?m ?q" unfolding tx_rel_def by blast
  then show ?thesis using False admit_checks(1-5) [OF assms] by (simp add: call_ok_def tx_queue_limits_def)
qed

lemma writable_call:
  assumes "tx_rel m q"
  shows "call_ok (Writable need byte_count) m q"
proof -
  have "need \<le> q_free q \<and> byte_count \<le> q_capacity_bytes q - q_used_bytes q \<longleftrightarrow> model_room need byte_count m"
    using admit_checks(9) [OF assms, of need byte_count] by (auto simp: no_room_def)
  then show ?thesis using assms admit_checks(1-5) [OF assms] by (auto simp: call_ok_def tx_queue_writable_def)
qed

lemma observe_call:
  assumes "tx_rel m q"
  shows "call_ok Observe m q"
proof -
  obtain "is" js where rel: "shape is js q" "links is q" "view is js m q" "model_ok m" using assms by (rule tx_relD)
  then show ?thesis using assms rel_live_length [OF rel(1,3)] by (auto simp: call_ok_def shape_def view_def)
qed

section \<open>Flush watches\<close>

lemma watch_identity:
  assumes "watch_ok n w"
  shows "fw_identity (watch_for m w) = (case w of None \<Rightarrow> 0 | Some (ident, fence) \<Rightarrow> ident)" "fw_identity (watch_for m w) = 0 \<longleftrightarrow> w = None"
  using assms by (auto simp: watch_for_def no_watch_def watch_ok_def split: option.splits)

lemma watch_slots:
  assumes "view is js m q" "model_ok m" "i < TX_MAX_FLUSHES"
  shows "q_flushes q ! i = watch_for m (m_watches m ! i)" "watch_ok (m_last m) (m_watches m ! i)"
  using assms by (auto simp: view_def model_ok_def)

lemma token_watch:
  assumes "tx_rel m q"
  shows "flush_token token q \<longleftrightarrow> watch_of token m \<noteq> None"
    "watch_of token m = Some fence \<Longrightarrow> fw_status (q_flushes q ! ft_index token) = watch_status fence m"
proof -
  obtain "is" js where rel: "shape is js q" "links is q" "view is js m q" "model_ok m" using assms by (rule tx_relD)
  have valid: "queue_valid q" "q_generation q = m_generation m" using rel(3) by (simp_all add: view_def)
  show "flush_token token q \<longleftrightarrow> watch_of token m \<noteq> None"
  proof (cases "ft_index token < TX_MAX_FLUSHES")
    case True
    note w = watch_slots [OF rel(3,4) True]
    show ?thesis using True w(2) valid by (auto simp: flush_token_def watch_of_def w(1) watch_identity(1) [OF w(2)] watch_ok_def split: option.splits)
  qed (simp add: flush_token_def watch_of_def)
  show "fw_status (q_flushes q ! ft_index token) = watch_status fence m" if "watch_of token m = Some fence"
    using that watch_slots(1) [OF rel(3,4), of "ft_index token"]
    by (auto simp: watch_of_def watch_for_def split: if_splits option.splits)
qed

lemma flush_status_call:
  assumes "tx_rel m q"
  shows "call_ok (Flush_Status overlap token) m q"
  using assms token_watch [OF assms, of token] by (cases "watch_of token m") (auto simp: call_ok_def tx_flush_get_def)

text \<open>A watch is set or cleared.\<close>

lemma watches_rel:
  assumes "tx_rel m q" "watch_ok (m_last m) w" "i < TX_MAX_FLUSHES"
  shows "tx_rel (m\<lparr>m_watches := (m_watches m)[i := w], m_next_watch := k\<rparr>)
    (q\<lparr>q_flushes := (q_flushes q)[i := watch_for m w], q_next_flush := k\<rparr>)" (is "tx_rel ?m ?q")
proof -
  obtain "is" js where rel: "shape is js q" "links is q" "view is js m q" "model_ok m" using assms(1) by (rule tx_relD)
  have same: "watch_for ?m = watch_for m" by (rule watch_cong) (simp_all add: live_def)
  have "shape is js ?q" "links is ?q" using rel(1,2) by (simp_all add: shape_def links_def)
  moreover have "view is js ?m ?q" using rel(3) by (simp add: view_def same live_def totals_cong [of ?m m] map_update)
  moreover have "\<forall>v \<in> set ((m_watches m)[i := w]). watch_ok (m_last m) v"
    using rel(4) assms(2) set_update_subset_insert [of "m_watches m" i w] by (auto simp: model_ok_def)
  then have "model_ok ?m" using rel(4) by (simp add: model_ok_def live_def)
  ultimately show ?thesis unfolding tx_rel_def by blast
qed

lemma flush_release_call:
  assumes "tx_rel m q"
  shows "call_ok (Flush_Release overlap token) m q"
proof (cases "watch_of token m = None \<or> overlap")
  case True
  then show ?thesis using assms token_watch(1) [OF assms, of token] by (auto simp: call_ok_def tx_flush_release_def)
next
  case False
  then have index: "ft_index token < TX_MAX_FLUSHES" by (auto simp: watch_of_def split: if_splits)
  have next_same: "q_next_flush q = m_next_watch m" using assms by (auto simp: tx_rel_def view_def)
  have unchanged: "q\<lparr>q_flushes := F, q_next_flush := m_next_watch m\<rparr> = q\<lparr>q_flushes := F\<rparr>" for F
    by (simp add: next_same [symmetric])
  have "watch_ok (m_last m) None" by (simp add: watch_ok_def)
  from watches_rel [OF assms this index, of "m_next_watch m"]
  have "tx_rel (m\<lparr>m_watches := (m_watches m)[ft_index token := None]\<rparr>) (q\<lparr>q_flushes := (q_flushes q)[ft_index token := no_watch]\<rparr>)"
    by (simp add: watch_for_def unchanged)
  then show ?thesis using False token_watch(1) [OF assms, of token] by (auto simp: call_ok_def tx_flush_release_def)
qed

lemma pending_counted:
  assumes "tx_rel m q"
  shows "(t_admitted (q_totals q) - t_settled (q_totals q)) mod 2 ^ 16 = fs_pending (watch_status (m_last m) m)"
proof -
  obtain "is" js where rel: "shape is js q" "links is q" "view is js m q" "model_ok m" using assms by (rule tx_relD)
  have seqs: "x \<le> m_last m" if "x \<in> set (map fst (m_history m) @ map pk_sequence (live m))" for x
    using that unfolding model_ok_sequences(2) [OF rel(4)] by simp
  have "filter (\<lambda>p. pk_sequence p \<le> m_last m) (live m) = live m" using seqs by (intro filter_True) auto
  moreover have "filter (\<lambda>(s, outcome, was_dropped). s \<le> m_last m \<and> True) (m_history m) = m_history m"
    using history_below [OF rel(4)] by (intro filter_True) auto
  moreover have "length (live m) < 2 ^ 16"
    using rel_live_length [OF rel(1,3)] rel(3) by (simp add: view_def queue_valid_def TX_MAX_PACKETS_def)
  ultimately show ?thesis
    using rel(3) model_ok_sequences(3) [OF rel(4)]
    by (simp add: view_def totals_upto_def ended_def watch_status_def)
qed

lemma flush_begin_call:
  assumes "tx_rel m q"
  shows "call_ok (Flush_Begin overlap token) m q"
proof -
  obtain "is" js where rel: "shape is js q" "links is q" "view is js m q" "model_ok m" using assms by (rule tx_relD)
  have free: "find (\<lambda>i. fw_identity (q_flushes q ! i) = 0) [0..<TX_MAX_FLUSHES] = find (\<lambda>i. m_watches m ! i = None) [0..<TX_MAX_FLUSHES]"
  proof (rule find_cong)
    fix i assume "i \<in> set [0..<TX_MAX_FLUSHES]"
    then have "i < TX_MAX_FLUSHES" by simp
    note w = watch_slots [OF rel(3,4) this]
    show "fw_identity (q_flushes q ! i) = 0 \<longleftrightarrow> m_watches m ! i = None" unfolding w(1) by (rule watch_identity(2) [OF w(2)])
  qed simp
  have same: "q_generation q = m_generation m" "q_next_flush q = m_next_watch m" "queue_valid q" "q_last_sequence q = m_last m"
    "q_totals q = totals_upto (m_last m) m"
    using rel(3) by (simp_all add: view_def)
  have watch: "\<lparr>fw_identity = k, fw_status = \<lparr>fs_generation = q_generation q, fs_fence = q_last_sequence q,
      fs_pending = (t_admitted (q_totals q) - t_settled (q_totals q)) mod 2 ^ 16, fs_totals = q_totals q\<rparr>\<rparr> = watch_for m (Some (k, m_last m))" for k
    unfolding pending_counted [OF assms] by (simp add: same watch_for_def watch_status_def)
  show ?thesis
  proof (cases "token \<noteq> no_token \<or> overlap \<or> m_next_watch m = 0 \<or> find (\<lambda>i. m_watches m ! i = None) [0..<TX_MAX_FLUSHES] = None")
    case True
    then show ?thesis using assms same by (auto simp: call_ok_def tx_flush_begin_def free)
  next
    case False
    then obtain i where i: "find (\<lambda>i. m_watches m ! i = None) [0..<TX_MAX_FLUSHES] = Some i" by auto
    have "watch_ok (m_last m) (Some (m_next_watch m, m_last m))" using False by (simp add: watch_ok_def)
    from watches_rel [OF assms this, of i "m_next_watch m + 1"] find_index_Some [OF i]
    have "tx_rel (m\<lparr>m_watches := (m_watches m)[i := Some (m_next_watch m, m_last m)], m_next_watch := m_next_watch m + 1\<rparr>)
      (q\<lparr>q_flushes := (q_flushes q)[i := watch_for m (Some (m_next_watch m, m_last m))], q_next_flush := m_next_watch m + 1\<rparr>)" by simp
    moreover have "tx_flush_begin overlap token q = (TX_OK, \<lparr>ft_generation = m_generation m, ft_identity = m_next_watch m, ft_index = i\<rparr>,
        q\<lparr>q_flushes := (q_flushes q)[i := watch_for m (Some (m_next_watch m, m_last m))], q_next_flush := m_next_watch m + 1\<rparr>)"
      using False i same unfolding tx_flush_begin_def Let_def free watch by simp
    ultimately show ?thesis using False i by (simp add: call_ok_def)
  qed
qed

end
