(* ===== verification/Raw_Tx_Refines.thy ===== *)
theory Raw_Tx_Refines
  imports Raw_Tx_Flush
begin

text \<open>
  Transmission and close, and the theorem: the queue of \<open>Raw_Tx_Queue\<close> keeps the promises of
  \<open>Raw_Tx_Model\<close>.  Every sequence of calls gets the answers of the model, so no access leaves an
  array and every loop ends.
\<close>

section \<open>The packet of a ticket\<close>

lemma packets_sequences: "map pk_sequence (packets ss is) = map (\<lambda>i. sl_sequence (ss ! i)) is"
  by (simp add: packet_of_def)

text \<open>Another slot in flight has another sequence number.\<close>

lemma flight_sequence:
  assumes "view is js m q" "model_ok m" "i \<in> set js" "j \<in> set js"
  shows "sl_sequence (q_slots q ! i) = sl_sequence (q_slots q ! j) \<longleftrightarrow> i = j"
proof -
  have "distinct (map pk_sequence (m_flight m))" using model_ok_sequences(1) [OF assms(2)] by (simp add: live_def)
  moreover have "m_flight m = packets (q_slots q) js" using assms(1) by (simp add: view_def)
  ultimately have "inj_on (\<lambda>i. sl_sequence (q_slots q ! i)) (set js)" by (simp only: packets_sequences distinct_map)
  then show ?thesis using assms(3,4) by (auto dest: inj_onD)
qed

lemma sequence_below:
  assumes "view is js m q" "model_ok m" "i \<in> set (is @ js)"
  shows "sl_sequence (q_slots q ! i) \<le> m_last m"
proof -
  have "live m = packets (q_slots q) (is @ js)" using assms(1) by (simp add: live_def view_def)
  then have "map pk_sequence (live m) = map (\<lambda>i. sl_sequence (q_slots q ! i)) (is @ js)" by (simp only: packets_sequences)
  then have "sl_sequence (q_slots q ! i) \<in> set (map fst (m_history m) @ map pk_sequence (live m))" using assms(3) by auto
  then show ?thesis unfolding model_ok_sequences(2) [OF assms(2)] by simp
qed

lemma flight_slots: "shape is js q \<Longrightarrow> i < q_capacity q \<and> sl_in_flight (q_slots q ! i) \<longleftrightarrow> i \<in> set js"
  by (auto simp: shape_def)

lemma flight_index:
  assumes "shape is js q" "view is js m q" "model_ok m"
  shows "active_index ticket q = None \<longleftrightarrow> in_flight ticket m = None"
    "active_index ticket q = Some i \<Longrightarrow> i \<in> set js \<and> in_flight ticket m = Some (packet_of (q_slots q ! i)) \<and>
       sl_sequence (q_slots q ! i) = tk_sequence ticket"
proof -
  let ?P = "\<lambda>i. sl_in_flight (q_slots q ! i) \<and> sl_sequence (q_slots q ! i) = tk_sequence ticket"
  note js = flight_slots [OF assms(1)]
  have flight: "m_flight m = packets (q_slots q) js" "queue_valid q" "q_generation q = m_generation m" using assms(2) by (simp_all add: view_def)
  have seq: "pk_sequence (packet_of s) = sl_sequence s" for s by (simp add: packet_of_def)
  have none: "find ?P [0..<q_capacity q] = None \<longleftrightarrow> find (\<lambda>p. pk_sequence p = tk_sequence ticket) (m_flight m) = None"
    using js by (auto simp: find_None_iff flight seq)
  then show "active_index ticket q = None \<longleftrightarrow> in_flight ticket m = None"
    using flight(2,3) by (simp add: active_index_def in_flight_def)
  assume some: "active_index ticket q = Some i"
  then have found: "find ?P [0..<q_capacity q] = Some i" "tk_generation ticket = m_generation m" "tk_sequence ticket \<noteq> 0"
    using flight(3) by (auto simp: active_index_def split: if_splits)
  note i = find_index_Some [OF found(1)]
  then have "i \<in> set js" using js by blast
  moreover obtain p where p: "find (\<lambda>p. pk_sequence p = tk_sequence ticket) (m_flight m) = Some p" using none found(1) by auto
  then obtain j where j: "j \<in> set js" "p = packet_of (q_slots q ! j)" "sl_sequence (q_slots q ! j) = tk_sequence ticket"
    by (auto simp: find_Some_iff flight seq) (blast intro: nth_mem)
  have "i = j" using flight_sequence [OF assms(2,3) \<open>i \<in> set js\<close> j(1)] j(3) i by simp
  ultimately show "i \<in> set js \<and> in_flight ticket m = Some (packet_of (q_slots q ! i)) \<and> sl_sequence (q_slots q ! i) = tk_sequence ticket"
    using p j found(2,3) i by (simp add: in_flight_def)
qed

section \<open>Acceptance\<close>

lemma accepted_comp [simp]:
  "pk_sequence \<circ> (\<lambda>r. if pk_sequence r = s then r\<lparr>pk_accepted := True\<rparr> else r) = pk_sequence"
  "(\<lambda>p. pk_sequence p \<le> f) \<circ> (\<lambda>r. if pk_sequence r = s then r\<lparr>pk_accepted := True\<rparr> else r) = (\<lambda>p. pk_sequence p \<le> f)"
  by (auto simp: fun_eq_iff)

lemma accept_watch_for:
  assumes "watch_ok n w"
  shows "accept_watch s (watch_for m w) =
    watch_for (m\<lparr>m_flight := map (\<lambda>r. if pk_sequence r = s then r\<lparr>pk_accepted := True\<rparr> else r) (m_flight m),
      m_accepted := m_accepted m @ [s]\<rparr>) w"
proof (cases w)
  case None
  then show ?thesis by (simp add: accept_watch_def watch_for_def no_watch_def)
next
  case (Some iw)
  then obtain ident fence where w: "w = Some (ident, fence)" by (cases iw) auto
  show ?thesis using assms
    by (auto simp: w watch_ok_def accept_watch_def watch_for_def watch_status_def totals_upto_def live_def filter_map)
qed

lemma accept_call:
  assumes "tx_rel m q"
  shows "call_ok (Accept overlap ticket) m q"
proof -
  obtain "is" js where rel: "shape is js q" "links is q" "view is js m q" "model_ok m" using assms by (rule tx_relD)
  note index = flight_index [OF rel(1,3,4), of ticket]
  show ?thesis
  proof (cases "active_index ticket q")
    case None
    then show ?thesis using assms index(1) by (simp add: call_ok_def tx_queue_accept_def)
  next
    case (Some i)
    let ?s = "q_slots q ! i"
    have i: "i \<in> set js" "in_flight ticket m = Some (packet_of ?s)" "sl_sequence ?s = tk_sequence ticket" using index(2) Some by auto
    show ?thesis
    proof (cases "overlap \<or> sl_accepted ?s")
      case True
      then show ?thesis using assms Some i by (auto simp: call_ok_def tx_queue_accept_def packet_of_def)
    next
      case False
      let ?m = "m\<lparr>m_flight := map (\<lambda>r. if pk_sequence r = sl_sequence ?s then r\<lparr>pk_accepted := True\<rparr> else r) (m_flight m),
        m_accepted := m_accepted m @ [sl_sequence ?s]\<rparr>"
      let ?q = "q\<lparr>q_slots := (q_slots q)[i := ?s\<lparr>sl_accepted := True\<rparr>],
        q_totals := (q_totals q)\<lparr>t_submitted := t_submitted (q_totals q) + 1\<rparr>,
        q_flushes := map (accept_watch (sl_sequence ?s)) (q_flushes q)\<rparr>"
      have bounds: "i < length (q_slots q)" "i \<notin> set is" using rel(1) i(1) by (auto simp: shape_def)
      have fields: "sl_next (q_slots ?q ! j) = sl_next (q_slots q ! j)" "sl_allocated (q_slots ?q ! j) = sl_allocated (q_slots q ! j)"
        "sl_in_flight (q_slots ?q ! j) = sl_in_flight (q_slots q ! j)" for j
        using bounds(1) by (cases "j = i"; simp)+
      have shape: "shape is js ?q" using rel(1) unfolding shape_def fields by simp
      have links: "links is ?q" using rel(2) path_cong [of "q_slots ?q" "q_slots q" "is"] fields(1) by (simp add: links_def)
      have "packet_bytes (map (\<lambda>r. if pk_sequence r = s then r\<lparr>pk_accepted := True\<rparr> else r) ps) = packet_bytes ps" for s ps
        by (induction ps) (simp_all add: packet_bytes_def)
      then have bytes: "packet_bytes (live ?m) = packet_bytes (live m)" by (simp add: live_def packet_bytes_append)
      have flight: "m_flight ?m = packets (q_slots ?q) js"
      proof -
        have "(if pk_sequence (packet_of (q_slots q ! j)) = sl_sequence ?s then (packet_of (q_slots q ! j))\<lparr>pk_accepted := True\<rparr>
            else packet_of (q_slots q ! j)) = packet_of (q_slots ?q ! j)" if "j \<in> set js" for j
          using flight_sequence [OF rel(3,4) that i(1)] bounds(1) by (cases "j = i") (auto simp: packet_of_def)
        then show ?thesis using rel(3) by (simp add: view_def)
      qed
      have below: "sl_sequence ?s \<le> m_last m"
        using sequence_below [OF rel(3,4)] i(1) by simp
      have totals: "totals_upto (m_last m) ?m = (totals_upto (m_last m) m)\<lparr>t_submitted := t_submitted (totals_upto (m_last m) m) + 1\<rparr>"
        using below by (simp add: totals_upto_def)
      have watches: "map (accept_watch (sl_sequence ?s)) (q_flushes q) = map (watch_for ?m) (m_watches m)"
        using rel(3,4) accept_watch_for by (auto simp: view_def model_ok_def)
      have pending: "m_pending m = packets (q_slots ?q) is" using rel(3) bounds(2) by (simp add: view_def packets_update)
      have "view is js ?m ?q" using rel(3) flight totals watches pending bytes by (simp add: view_def)
      moreover have "model_ok ?m" using rel(4) below bytes by (auto simp: model_ok_def live_def simp del: upt_Suc)
      ultimately have "tx_rel ?m ?q" using shape links unfolding tx_rel_def by blast
      then show ?thesis using False Some i(2,3) by (simp add: call_ok_def tx_queue_accept_def packet_of_def)
    qed
  qed
qed

section \<open>Completion\<close>

text \<open>A packet in flight is retired.\<close>

definition retired :: "tx_packet list \<Rightarrow> tx_packet \<Rightarrow> tx_packet list \<Rightarrow> tx_outcome \<Rightarrow> tx_model \<Rightarrow> tx_model" where
  "retired xs p ys r m = m\<lparr>m_flight := xs @ ys, m_history := m_history m @ [(pk_sequence p, r, False)]\<rparr>"

lemma retired_leaves: "m_flight m = xs @ p # ys \<Longrightarrow> leaves (pk_sequence p) r False m (retired xs p ys r m)"
  by (simp add: leaves_def retired_def live_def)

lemma retired_ok:
  assumes "model_ok m" "m_flight m = xs @ p # ys"
  shows "model_ok (retired xs p ys r m)"
  using assms live_bytes_split [of "m_pending m @ xs" p ys] by (auto simp: model_ok_def retired_def live_def)

lemma freed_flags:
  assumes "i < length ss"
  shows "sl_allocated (ss[i := free_slot] ! j) \<longleftrightarrow> j \<noteq> i \<and> sl_allocated (ss ! j)"
    "sl_in_flight (ss[i := free_slot] ! j) \<longleftrightarrow> j \<noteq> i \<and> sl_in_flight (ss ! j)"
  using assms by (cases "j = i"; simp add: free_slot_def)+

lemma retire_rel:
  fixes r :: tx_outcome and a :: "nat option" and b :: nat
  assumes "shape is (xs @ i # ys) q" "links is q" "view is (xs @ i # ys) m q" "model_ok m"
  defines "s \<equiv> q_slots q ! i"
  defines "m' \<equiv> retired (packets (q_slots q) xs) (packet_of s) (packets (q_slots q) ys) r m"
  defines "q' \<equiv> (settle (sl_sequence s) r False q)\<lparr>q_used_bytes := q_used_bytes q - pl_length (sl_payload s), q_in_flight := q_in_flight q - 1,
    q_slots := (q_slots q)[i := free_slot], q_free := q_free q + 1\<rparr>"
  assumes "a = None \<longleftrightarrow> xs @ ys = []"
  shows "tx_rel m' (q'\<lparr>q_active := a, q_active_batch := b\<rparr>)"
proof -
  have i: "i \<notin> set xs" "i \<notin> set ys" "i \<notin> set is" "i < q_capacity q" "length (q_slots q) = q_capacity q"
    using assms(1) by (auto simp: shape_def)
  have flight: "m_flight m = packets (q_slots q) xs @ packet_of s # packets (q_slots q) ys" using assms(3) by (simp add: view_def s_def)
  have seq: "sl_sequence s = pk_sequence (packet_of s)" by (simp add: packet_of_def)
  have below: "pk_sequence (packet_of s) \<le> m_last m" using sequence_below [OF assms(3,4), of i] by (simp add: s_def packet_of_def)
  have settled: "settle (sl_sequence s) r False q =
      q\<lparr>q_totals := totals_upto (m_last m) m', q_flushes := map (watch_for m') (m_watches m)\<rparr>"
    unfolding seq m'_def using assms(3) by (intro settle_leaves [OF retired_leaves [OF flight] assms(4) below]) (simp_all add: view_def)
  have bytes: "packet_bytes (live m) = packet_bytes (live m') + pl_length (sl_payload s)"
    using live_bytes_split [of "m_pending m @ packets (q_slots q) xs" "packet_of s" "packets (q_slots q) ys"] flight
    by (simp add: live_def m'_def retired_def packet_of_def)
  let ?q = "q'\<lparr>q_active := a, q_active_batch := b\<rparr>"
  have slots: "q_slots ?q = (q_slots q)[i := free_slot]" "q_capacity ?q = q_capacity q" by (simp_all add: q'_def settled)
  have "shape is (xs @ ys) ?q"
    using assms(1,8) i unfolding shape_def slots by (intro conjI) (auto simp: q'_def settled freed_flags)
  moreover have "links is ?q" using assms(2) i(3) by (simp add: links_def slots path_update) (simp add: q'_def settled)
  moreover have "view is (xs @ ys) m' ?q"
    using assms(3) bytes i(1-3) by (simp add: view_def slots packets_update) (simp add: q'_def settled m'_def retired_def)
  ultimately show ?thesis using retired_ok [OF assms(4) flight] unfolding tx_rel_def m'_def by blast
qed

lemma finish_call:
  assumes "tx_rel m q"
  shows "call_ok (Finish overlap ticket outcome out) m q"
proof -
  obtain "is" js where rel: "shape is js q" "links is q" "view is js m q" "model_ok m" using assms by (rule tx_relD)
  note index = flight_index [OF rel(1,3,4), of ticket]
  show ?thesis
  proof (cases "active_index ticket q")
    case None
    then show ?thesis using assms index(1) by (simp add: call_ok_def tx_queue_finish_def)
  next
    case (Some i)
    let ?s = "q_slots q ! i"
    have i: "i \<in> set js" "in_flight ticket m = Some (packet_of ?s)" "sl_sequence ?s = tk_sequence ticket" using index(2) Some by auto
    have bounds: "i < length (q_slots q)" using rel(1) i(1) by (auto simp: shape_def)
    obtain xs ys where js: "js = xs @ i # ys" using i(1) by (auto simp: in_set_conv_decomp)
    show ?thesis
    proof (cases "out \<noteq> no_payload \<or> overlap \<or> (outcome \<in> {OUT_SUCCESS, OUT_FAILED, OUT_UNKNOWN} \<and> \<not> sl_accepted ?s) \<or>
        (outcome = OUT_REJECTED \<and> sl_accepted ?s)")
      case True
      then show ?thesis using assms Some i bounds by (auto simp: call_ok_def tx_queue_finish_def packet_of_def slot_at_in)
    next
      case False
      let ?q = "(settle (sl_sequence ?s) outcome False q)\<lparr>q_used_bytes := q_used_bytes q - pl_length (sl_payload ?s),
        q_in_flight := q_in_flight q - 1, q_slots := (q_slots q)[i := free_slot], q_free := q_free q + 1\<rparr>"
      let ?a = "find (\<lambda>j. sl_in_flight ((q_slots q)[i := free_slot] ! j)) [0..<q_capacity q]"
      have "?a = None \<longleftrightarrow> xs @ ys = []"
      proof -
        have "j < q_capacity q \<and> sl_in_flight ((q_slots q)[i := free_slot] ! j) \<longleftrightarrow> j \<in> set js \<and> j \<noteq> i" for j
          using flight_slots [OF rel(1)] unfolding freed_flags [OF bounds] by blast
        moreover have "(\<exists>j. j \<in> set js \<and> j \<noteq> i) \<longleftrightarrow> xs @ ys \<noteq> []"
          using rel(1) by (cases xs; cases ys) (auto simp: js shape_def)
        ultimately show ?thesis unfolding find_index_None by blast
      qed
      note retire = retire_rel [OF rel(1,2,3) [unfolded js] rel(4) this]
      have others: "filter (\<lambda>r. pk_sequence r \<noteq> sl_sequence ?s) (m_flight m) = packets (q_slots q) xs @ packets (q_slots q) ys"
      proof -
        have "i \<notin> set xs" "i \<notin> set ys" using rel(1) js by (auto simp: shape_def)
        then have "\<forall>j \<in> set (xs @ ys). sl_sequence (q_slots q ! j) \<noteq> sl_sequence ?s"
          using flight_sequence [OF rel(3,4)] js by auto
        then show ?thesis using rel(3) js by (simp add: view_def filter_map comp_def packet_of_def)
      qed
      have "\<exists>hb. (case q_head q of None \<Rightarrow> Some None
          | Some h \<Rightarrow> map_option (Some \<circ> sl_batch) (slot_at ((q_slots q)[i := free_slot]) h)) = Some hb"
        using rel(2) by (cases "is") (auto simp: links_def slot_at_in)
      then obtain hb where hb: "(case q_head q of None \<Rightarrow> Some None
          | Some h \<Rightarrow> map_option (Some \<circ> sl_batch) (slot_at ((q_slots q)[i := free_slot]) h)) = Some hb" by blast
      have "tx_queue_finish overlap ticket outcome out q = Some (True, no_ticket, sl_payload ?s,
          ?q\<lparr>q_active := ?a, q_active_batch := if hb \<noteq> Some (q_active_batch q) then 0 else q_active_batch q\<rparr>)"
      proof (cases "q_head q")
        case None
        then show ?thesis using False Some bounds hb
          by (cases "hb = Some (q_active_batch q)";
              simp add: tx_queue_finish_def slot_at_in settle_def Let_def cong: if_cong; (rule tx_queue.equality; simp)?)
      next
        case h: (Some h)
        then obtain z where "slot_at ((q_slots q)[i := free_slot]) h = Some z" "hb = Some (sl_batch z)" using hb by auto
        then show ?thesis using False Some bounds h
          by (cases "sl_batch z = q_active_batch q";
              simp add: tx_queue_finish_def slot_at_in settle_def Let_def cong: if_cong; (rule tx_queue.equality; simp)?)
      qed
      then show ?thesis
        using False i retire [of outcome] others by (simp add: call_ok_def packet_of_def retired_def)
    qed
  qed
qed

section \<open>Close\<close>

lemma drop_packets_fields [simp]:
  "m_pending (drop_packets ps m) = m_pending m" "m_flight (drop_packets ps m) = m_flight m" "live (drop_packets ps m) = live m"
  "m_history (drop_packets ps m) = m_history m @ map (\<lambda>p. (pk_sequence p, OUT_ABORTED, True)) ps"
  "m_accepted (drop_packets ps m) = m_accepted m" "m_generation (drop_packets ps m) = m_generation m"
  "m_capacity (drop_packets ps m) = m_capacity m" "m_capacity_bytes (drop_packets ps m) = m_capacity_bytes m"
  "m_max_in_flight (drop_packets ps m) = m_max_in_flight m" "m_closed (drop_packets ps m) = m_closed m"
  "m_last (drop_packets ps m) = m_last m" "m_watches (drop_packets ps m) = m_watches m"
  "m_next_watch (drop_packets ps m) = m_next_watch m"
  by (simp_all add: drop_packets_def live_def)

lemma close_call:
  assumes "tx_rel m q"
  shows "call_ok (Close overlap removed removed_count) m q"
proof (cases "\<not> outputs_ok (m_capacity m) removed \<or> overlap")
  case True
  then show ?thesis using assms admit_checks(1,7) [OF assms] by (auto simp: call_ok_def tx_queue_close_def)
next
  case False
  then obtain rs where rs: "removed = Some rs" "m_capacity m \<le> length rs" by (auto simp: outputs_ok_def split: option.splits)
  obtain "is" js where rel: "shape is js q" "links is q" "view is js m q" "model_ok m" using assms by (rule tx_relD)
  have pending: "m_pending m = packets (q_slots q) is" using rel(3) by (simp add: view_def)
  have "distinct is" "path (q_slots q) (q_head q) is None" using rel(1,2) by (simp_all add: shape_def links_def)
  moreover have "0 + length is \<le> length rs" using rel_live_length [OF rel(1,3)] rs(2) pending by simp
  ultimately have loop: "close_loop q rs 0 = Some ((fold drop_state is q)\<lparr>q_head := None\<rparr>, written (m_pending m) rs, length is)"
    using close_loop_path [of q "is" 0 rs] by (simp add: write_from_def written_def pending packet_of_def comp_def)
  let ?q = "fold drop_state is q" and ?m = "drop_packets (m_pending m) (m\<lparr>m_pending := []\<rparr>)"
  have dropped: "shape [] js ?q" "view [] js ?m ?q" "model_ok ?m"
    using fold_drop [of "[]" "is" "[]" js q m] rel pending by (simp_all add: without_all_def)
  let ?q' = "?q\<lparr>q_head := None, q_tail := None, q_closed := True\<rparr>" and ?m' = "drop_packets (m_pending m) (m\<lparr>m_pending := [], m_closed := True\<rparr>)"
  have same: "watch_for ?m' = watch_for ?m" by (rule watch_cong) (simp_all add: live_def)
  have view: "view [] js ?m' ?q'" using dropped(2) 
    by (simp add: view_def same totals_cong [of ?m' ?m]) (simp add: live_def)
  have ok: "model_ok ?m'" using dropped(3) by (simp add: model_ok_def live_def)
  have links: "links [] ?q'" by (simp add: links_def)
  have shape: "shape [] js ?q'" using dropped(1) by (simp add: shape_def)
  have "tx_rel ?m' (?q'\<lparr>q_active_batch := b\<rparr>)" for b
  proof -
    have "shape [] js (?q'\<lparr>q_active_batch := b\<rparr>)" "links [] (?q'\<lparr>q_active_batch := b\<rparr>)" "view [] js ?m' (?q'\<lparr>q_active_batch := b\<rparr>)"
      using shape links view by (simp_all add: shape_def links_def view_def)
    then show ?thesis using ok unfolding tx_rel_def by blast
  qed
  moreover have "tx_rel ?m' ?q'" using ok shape links view unfolding tx_rel_def by blast
  ultimately show ?thesis
    using False rs loop pending admit_checks(1,7) [OF assms] by (simp add: call_ok_def tx_queue_close_def Let_def)
qed

section \<open>Transmission\<close>

definition taken :: "nat \<Rightarrow> nat \<Rightarrow> tx_slot list \<Rightarrow> tx_slot list" where
  "taken capacity i ss =
     (let ss' = start_batch capacity (sl_batch (ss ! i)) (ss[i := (ss ! i)\<lparr>sl_in_flight := True\<rparr>])
      in ss'[i := (ss' ! i)\<lparr>sl_next := None\<rparr>])"

lemma taken_slot:
  assumes "i < length ss" "length ss = capacity" "j < capacity"
  shows "taken capacity i ss ! j = (ss ! j)\<lparr>sl_next := if j = i then None else sl_next (ss ! j),
    sl_in_flight := sl_in_flight (ss ! j) \<or> j = i,
    sl_started := sl_started (ss ! j) \<or> (sl_allocated (ss ! j) \<and> sl_batch (ss ! j) = sl_batch (ss ! i))\<rparr>"
  by (rule tx_slot.equality; use assms in \<open>cases "j = i"; auto simp: taken_def start_batch_def Let_def\<close>)

lemma taken_length: "length ss = capacity \<Longrightarrow> length (taken capacity i ss) = capacity"
  by (simp add: taken_def start_batch_def Let_def)

lemma taken_packets:
  assumes "i < length ss" "length ss = capacity" "\<forall>j \<in> set js. j < capacity \<and> sl_allocated (ss ! j)"
  shows "packets (taken capacity i ss) js = map (mark_started (sl_batch (ss ! i))) (packets ss js)"
  using assms(3) by (auto simp: taken_slot [OF assms(1,2)] mark_started_def packet_of_def)

lemma mark_started_simps [simp]:
  "map pk_sequence (map (mark_started b) ps) = map pk_sequence ps"
  "packet_bytes (map (mark_started b) ps) = packet_bytes ps"
  by (simp_all add: mark_started_def packet_bytes_def comp_def if_distrib cong: if_cong)

lemma take_call:
  assumes "tx_rel m q"
  shows "call_ok (Take overlap ticket borrowed) m q"
proof -
  obtain "is" js where rel: "shape is js q" "links is q" "view is js m q" "model_ok m" using assms by (rule tx_relD)
  have pending: "m_pending m = packets (q_slots q) is" "m_flight m = packets (q_slots q) js" using rel(3) by (simp_all add: view_def)
  have window: "q_in_flight q \<ge> q_max_in_flight q \<longleftrightarrow> length (m_flight m) \<ge> m_max_in_flight m"
    using rel(1,3) by (simp add: shape_def view_def)
  show ?thesis
  proof (cases "is")
    case Nil
    then have "q_head q = None" "m_pending m = []" using rel(2) pending by (simp_all add: links_def)
    then show ?thesis using assms by (simp add: call_ok_def tx_queue_take_def)
  next
    case (Cons i xs)
    then have head: "q_head q = Some i" "i < length (q_slots q)" "path (q_slots q) (sl_next (q_slots q ! i)) xs None"
      using rel(2) by (simp_all add: links_def)
    have len: "length (q_slots q) = q_capacity q" using rel(1) by (simp add: shape_def)
    let ?s = "q_slots q ! i"
    show ?thesis
    proof (cases "m_closed m \<or> length (m_flight m) \<ge> m_max_in_flight m \<or> ticket \<noteq> no_ticket \<or> borrowed \<noteq> no_payload \<or> overlap")
      case True
      then show ?thesis using assms head(1) window pending Cons admit_checks(1,4) [OF assms]
        by (auto simp: call_ok_def tx_queue_take_def)
    next
      case False
      let ?ss = "taken (q_capacity q) i (q_slots q)"
      let ?q = "q\<lparr>q_active := (if q_active q = None then Some i else q_active q), q_slots := ?ss, q_in_flight := q_in_flight q + 1,
        q_head := sl_next ?s, q_tail := (if sl_next ?s = None then None else q_tail q), q_queued := q_queued q - 1,
        q_active_batch := sl_batch ?s\<rparr>"
      have take: "tx_queue_take overlap ticket borrowed q =
          Some (True, \<lparr>tk_generation = q_generation q, tk_sequence = sl_sequence ?s\<rparr>, sl_payload ?s, ?q)"
        using False head window admit_checks(1,4) [OF assms] len
        by (cases "q_active q") (auto simp: tx_queue_take_def slot_at_in taken_def set_next_def start_batch_def Let_def)
      let ?f = "map (mark_started (sl_batch ?s))"
      let ?m = "m\<lparr>m_pending := ?f (packets (q_slots q) xs), m_flight := ?f (packets (q_slots q) (js @ [i]))\<rparr>"
      have flags: "sl_allocated (?ss ! j) = sl_allocated (q_slots q ! j)" "sl_in_flight (?ss ! j) \<longleftrightarrow> sl_in_flight (q_slots q ! j) \<or> j = i"
        "j \<noteq> i \<Longrightarrow> sl_next (?ss ! j) = sl_next (q_slots q ! j)" if "j < q_capacity q" for j
        using taken_slot [OF head(2) len that] by simp_all
      have inside: "\<forall>j \<in> set (xs @ js @ [i]). j < q_capacity q \<and> sl_allocated (q_slots q ! j)"
        using rel(1) Cons by (auto simp: shape_def)
      have fresh: "i \<notin> set xs" "i \<notin> set js" using rel(1) Cons by (auto simp: shape_def)
      have tail: "path ?ss (sl_next ?s) xs None"
      proof -
        have "sl_next (?ss ! j) = sl_next (q_slots q ! j)" if "j \<in> set xs" for j
          using that inside fresh(1) by (intro flags(3)) auto
        then show ?thesis using head(3) path_cong [of ?ss "q_slots q" xs] by (simp add: taken_length [OF len] len)
      qed
      have shape: "shape xs (js @ [i]) ?q"
        using rel(1) Cons unfolding shape_def by (intro conjI) (auto simp: taken_length [OF len] flags)
      have links: "links xs ?q"
        using rel(2) Cons tail path_first [OF tail] by (auto simp: links_def last_of_def)
      have packets: "packets ?ss xs = ?f (packets (q_slots q) xs)" "packets ?ss (js @ [i]) = ?f (packets (q_slots q) (js @ [i]))"
        using inside by (intro taken_packets [OF head(2) len]; simp)+
      have live: "map pk_sequence (live ?m) = map pk_sequence (packets (q_slots q) (xs @ js @ [i]))"
        "packet_bytes (live ?m) = packet_bytes (packets (q_slots q) (xs @ js @ [i]))"
      proof -
        have "live ?m = ?f (packets (q_slots q) (xs @ js @ [i]))" by (simp add: live_def)
        then show "map pk_sequence (live ?m) = map pk_sequence (packets (q_slots q) (xs @ js @ [i]))"
          "packet_bytes (live ?m) = packet_bytes (packets (q_slots q) (xs @ js @ [i]))"
          by (simp_all only: mark_started_simps)
      qed
      have old: "live m = packets (q_slots q) (i # xs @ js)" using pending Cons by (simp add: live_def)
      have same: "mset (map pk_sequence (live ?m)) = mset (map pk_sequence (live m))" "packet_bytes (live ?m) = packet_bytes (live m)"
        unfolding live old by (simp_all add: packet_bytes_def)
      have watches: "watch_for ?m = watch_for m" by (rule watch_cong [OF _ _ _ same(1)]) simp_all
      have "view xs (js @ [i]) ?m ?q"
        using rel(3) packets same(2) watches totals_cong [of ?m m] by (simp add: view_def)
      moreover have "model_ok ?m" using rel(4) same by (simp add: model_ok_def)
      ultimately have "tx_rel ?m ?q" using shape links unfolding tx_rel_def by blast
      then show ?thesis using False take pending Cons rel(3) by (simp add: call_ok_def view_def packet_of_def)
    qed
  qed
qed

section \<open>Refinement\<close>

lemma every_call: "tx_rel m q \<Longrightarrow> call_ok c m q"
  by (cases c)
    (simp_all add: admit_call limits_call writable_call take_call accept_call finish_call close_call flush_begin_call
      flush_status_call flush_release_call observe_call)

interpretation raw_tx: simulation "\<lambda>c m. (Some (fst (model_apply c m)), snd (model_apply c m))" queue_apply "\<lambda>n. tx_rel"
proof
  fix n m q c
  assume "tx_rel m q"
  then have "call_ok c m q" by (rule every_call)
  then show "fst (queue_apply c q) = fst (Some (fst (model_apply c m)), snd (model_apply c m))"
    "tx_rel (snd (Some (fst (model_apply c m)), snd (model_apply c m))) (snd (queue_apply c q))"
    by (simp_all add: call_ok_def)
qed

lemma init_rel:
  assumes "tx_queue_init False (Some slots) capacity generation q = (True, q')" "length slots = capacity"
  shows "tx_rel (new_model capacity generation) q'"
proof -
  let ?m = "new_model capacity generation"
  have q': "q' = \<lparr>q_initialized = True, q_closed = False, q_generation = generation, q_last_sequence = 0, q_next_flush = 1,
        q_active_batch = 0, q_capacity = capacity, q_head = None, q_tail = None, q_active = None, q_queued = 0,
        q_free = capacity, q_max_in_flight = TX_DEFAULT_MAX_IN_FLIGHT, q_in_flight = 0,
        q_capacity_bytes = capacity * TX_MAX_FRAME_BYTES, q_used_bytes = 0, q_high_water = 0,
        q_slots = replicate capacity free_slot, q_totals = no_totals, q_flushes = replicate TX_MAX_FLUSHES no_watch\<rparr>"
    and ok: "capacity \<noteq> 0" "capacity \<le> TX_MAX_PACKETS" "generation \<noteq> 0"
    using assms by (auto simp: tx_queue_init_def split: if_splits)
  have "shape [] [] q'" by (simp add: q' shape_def free_slot_def)
  moreover have "links [] q'" by (simp add: q' links_def)
  moreover have "view [] [] ?m q'"
    using ok by (simp add: q' view_def queue_valid_def new_model_def live_def packet_bytes_def totals_upto_def ended_def no_totals_def
        watch_for_def TX_DEFAULT_MAX_IN_FLIGHT_def)
  moreover have "model_ok ?m" by (simp add: model_ok_def new_model_def live_def packet_bytes_def watch_ok_def)
  ultimately show ?thesis unfolding tx_rel_def by blast
qed

text \<open>
  C8: a transmit queue that was set up over an array of \<open>capacity\<close> slots answers every sequence of
  calls, admissions that evict, completions in any order, flush watches and close included, as the
  model does: packets leave in the order of admission, only whole batches of which nothing was sent
  are evicted and the oldest first, no sequence number is used twice, and the counters and flush
  totals count what became of the packets.  No call reads or writes outside an array, and every loop
  ends.
\<close>

theorem raw_tx_queue_refines:
  assumes "tx_queue_init False (Some slots) capacity generation q = (True, q')" and "length slots = capacity"
  shows "call_outputs queue_apply calls q' = map Some (call_outputs model_apply calls (new_model capacity generation))"
proof -
  have some: "call_outputs (\<lambda>c m. (Some (fst (model_apply c m)), snd (model_apply c m))) cs m = map Some (call_outputs model_apply cs m)" for cs m
    by (induction cs arbitrary: m) (simp_all add: case_prod_unfold Let_def)
  show ?thesis using raw_tx.same_outputs [OF init_rel [OF assms]] unfolding some .
qed

lemma raw_tx_queue_refines_witness:
  "call_outputs queue_apply [Observe]
     (snd (tx_queue_init False (Some (replicate 4 free_slot)) 4 7 zero_queue)) =
   map Some (call_outputs model_apply [Observe] (new_model 4 7))"
  by (rule raw_tx_queue_refines [of "replicate 4 free_slot" 4 7 zero_queue])
    (simp_all add: tx_queue_init_def zero_queue_def TX_MAX_PACKETS_def)

end
