(* ===== verification/Raw_Tx_Lane.thy ===== *)
theory Raw_Tx_Lane
  imports Simulation
begin

text \<open>
  \<open>modules/wifi_raw_tx/esp32_mquickjs_wifi_raw_tx_lane.c\<close>: the arbiter that gives the one transmit
  lane of the radio to a session at a time.  The static state is explicit; a critical section is one
  step.  A token is a value that callers copy and keep; \<open>None\<close> is a null pointer, and the active
  index \<open>NO_ACTIVE\<close> is \<open>None\<close> too.
\<close>

section \<open>The arbiter\<close>

definition LANE_CAPACITY :: nat where "LANE_CAPACITY = 9"

record lane_token =
  lt_identity :: u32
  lt_index :: nat

datatype lane_result = LANE_OK | LANE_FULL | LANE_EXHAUSTED | LANE_INVALID

record lane_status =
  ls_active_identity :: u32
  ls_waiting :: nat
  ls_exhausted :: bool

record tx_lane =
  ln_requests :: "u32 list"
  ln_next_identity :: u32
  ln_active :: "nat option"

definition lane_initial :: tx_lane where
  "lane_initial = \<lparr>ln_requests = replicate LANE_CAPACITY 0, ln_next_identity = 1, ln_active = None\<rparr>"

definition empty_token :: lane_token where "empty_token = \<lparr>lt_identity = 0, lt_index = 0\<rparr>"

definition lane_exact :: "lane_token option \<Rightarrow> tx_lane \<Rightarrow> bool" where
  "lane_exact token l =
     (case token of
        None \<Rightarrow> False
      | Some t \<Rightarrow> lt_identity t \<noteq> 0 \<and> lt_index t < LANE_CAPACITY \<and> ln_requests l ! lt_index t = lt_identity t)"

definition lane_request :: "lane_token option \<Rightarrow> tx_lane \<Rightarrow> lane_result \<times> lane_token option \<times> tx_lane" where
  "lane_request token l =
     (if token \<noteq> Some empty_token then (LANE_INVALID, token, l)
      else if ln_next_identity l = 0 then (LANE_EXHAUSTED, token, l)
      else case find (\<lambda>i. ln_requests l ! i = 0) [0..<LANE_CAPACITY] of
          None \<Rightarrow> (LANE_FULL, token, l)
        | Some i \<Rightarrow>
            let identity = ln_next_identity l
            in (LANE_OK, Some \<lparr>lt_identity = identity, lt_index = i\<rparr>,
                l\<lparr>ln_next_identity := (if identity = - 1 then 0 else identity + 1), ln_requests := (ln_requests l)[i := identity]\<rparr>))"

definition lane_acquire :: "lane_token option \<Rightarrow> tx_lane \<Rightarrow> bool \<times> tx_lane" where
  "lane_acquire token l =
     (if \<not> lane_exact token l then (False, l)
      else if ln_active l \<noteq> None then (ln_active l = Some (lt_index (the token)), l)
      else if list_ex (\<lambda>i. ln_requests l ! i \<noteq> 0 \<and> ln_requests l ! i < lt_identity (the token)) [0..<LANE_CAPACITY] then (False, l)
      else (True, l\<lparr>ln_active := Some (lt_index (the token))\<rparr>))"

definition lane_remove :: "bool \<Rightarrow> lane_token option \<Rightarrow> tx_lane \<Rightarrow> bool \<times> lane_token option \<times> tx_lane" where
  "lane_remove active token l =
     (if lane_exact token l \<and> (ln_active l = Some (lt_index (the token))) = active
      then (True, Some empty_token,
        l\<lparr>ln_requests := (ln_requests l)[lt_index (the token) := 0], ln_active := (if active then None else ln_active l)\<rparr>)
      else (False, token, l))"

definition lane_withdraw :: "lane_token option \<Rightarrow> tx_lane \<Rightarrow> bool \<times> lane_token option \<times> tx_lane" where
  "lane_withdraw token l = lane_remove False token l"

definition lane_release :: "lane_token option \<Rightarrow> tx_lane \<Rightarrow> bool \<times> lane_token option \<times> tx_lane" where
  "lane_release token l = lane_remove True token l"

definition lane_status_of :: "tx_lane \<Rightarrow> lane_status" where
  "lane_status_of l =
     fold (\<lambda>i st. if ln_requests l ! i = 0 then st
                 else if ln_active l = Some i then st\<lparr>ls_active_identity := ln_requests l ! i\<rparr>
                 else st\<lparr>ls_waiting := ls_waiting st + 1\<rparr>)
       [0..<LANE_CAPACITY] \<lparr>ls_active_identity = 0, ls_waiting = 0, ls_exhausted = (ln_next_identity l = 0)\<rparr>"

section \<open>The specification\<close>

text \<open>A queue of tokens in the order of their requests; its head may hold the lane.\<close>

record fifo_lock =
  fl_queue :: "lane_token list"
  fl_held :: bool
  fl_next :: u32

datatype lane_call = Request "lane_token option" | Acquire "lane_token option" | Withdraw "lane_token option"
  | Release "lane_token option" | Lane_Status

datatype lane_answer = Requested lane_result "lane_token option" | Granted bool | Removed bool "lane_token option" | Is lane_status

definition fifo_remove :: "bool \<Rightarrow> lane_token option \<Rightarrow> fifo_lock \<Rightarrow> lane_answer \<times> fifo_lock" where
  "fifo_remove active token s =
     (case token of
        None \<Rightarrow> (Removed False token, s)
      | Some t \<Rightarrow>
          if t \<in> set (fl_queue s) \<and> (fl_held s \<and> t = hd (fl_queue s)) = active
          then (Removed True (Some empty_token),
            s\<lparr>fl_queue := filter (\<lambda>r. r \<noteq> t) (fl_queue s), fl_held := (fl_held s \<and> \<not> active)\<rparr>)
          else (Removed False token, s))"

fun fifo_apply :: "lane_call \<Rightarrow> fifo_lock \<Rightarrow> lane_answer \<times> fifo_lock" where
  "fifo_apply (Request token) s =
     (if token \<noteq> Some empty_token then (Requested LANE_INVALID token, s)
      else if fl_next s = 0 then (Requested LANE_EXHAUSTED token, s)
      else case find (\<lambda>i. i \<notin> lt_index ` set (fl_queue s)) [0..<9] of
          None \<Rightarrow> (Requested LANE_FULL token, s)
        | Some i \<Rightarrow>
            let new = \<lparr>lt_identity = fl_next s, lt_index = i\<rparr>
            in (Requested LANE_OK (Some new),
                s\<lparr>fl_queue := fl_queue s @ [new], fl_next := (if fl_next s = - 1 then 0 else fl_next s + 1)\<rparr>))"
| "fifo_apply (Acquire token) s =
     (if fl_queue s \<noteq> [] \<and> token = Some (hd (fl_queue s)) then (Granted True, s\<lparr>fl_held := True\<rparr>) else (Granted False, s))"
| "fifo_apply (Withdraw token) s = fifo_remove False token s"
| "fifo_apply (Release token) s = fifo_remove True token s"
| "fifo_apply Lane_Status s =
     (Is \<lparr>ls_active_identity = (if fl_held s then lt_identity (hd (fl_queue s)) else 0),
         ls_waiting = length (fl_queue s) - (if fl_held s then 1 else 0), ls_exhausted = (fl_next s = 0)\<rparr>, s)"

fun lane_apply :: "lane_call \<Rightarrow> tx_lane \<Rightarrow> lane_answer \<times> tx_lane" where
  "lane_apply (Request token) l = (let (r, token', l') = lane_request token l in (Requested r token', l'))"
| "lane_apply (Acquire token) l = (let (ok, l') = lane_acquire token l in (Granted ok, l'))"
| "lane_apply (Withdraw token) l = (let (ok, token', l') = lane_withdraw token l in (Removed ok token', l'))"
| "lane_apply (Release token) l = (let (ok, token', l') = lane_release token l in (Removed ok token', l'))"
| "lane_apply Lane_Status l = (Is (lane_status_of l), l)"

definition lane_rel :: "fifo_lock \<Rightarrow> tx_lane \<Rightarrow> bool" where
  "lane_rel s l \<longleftrightarrow>
     length (ln_requests l) = 9 \<and> ln_next_identity l = fl_next s \<and>
     sorted_wrt (\<lambda>a b. lt_identity a < lt_identity b) (fl_queue s) \<and>
     (\<forall>t. t \<in> set (fl_queue s) \<longleftrightarrow> lt_index t < 9 \<and> lt_identity t \<noteq> 0 \<and> ln_requests l ! lt_index t = lt_identity t) \<and>
     (\<forall>t \<in> set (fl_queue s). fl_next s \<noteq> 0 \<longrightarrow> lt_identity t < fl_next s) \<and>
     (fl_held s \<longrightarrow> fl_queue s \<noteq> []) \<and> ln_active l = (if fl_held s then Some (lt_index (hd (fl_queue s))) else None)"

section \<open>Refinement\<close>

lemma lane_relD:
  assumes "lane_rel s l"
  shows "length (ln_requests l) = 9" "ln_next_identity l = fl_next s" "sorted_wrt (\<lambda>a b. lt_identity a < lt_identity b) (fl_queue s)"
    "t \<in> set (fl_queue s) \<longleftrightarrow> lt_index t < 9 \<and> lt_identity t \<noteq> 0 \<and> ln_requests l ! lt_index t = lt_identity t"
    "t \<in> set (fl_queue s) \<Longrightarrow> fl_next s \<noteq> 0 \<Longrightarrow> lt_identity t < fl_next s"
    "fl_held s \<Longrightarrow> fl_queue s \<noteq> []" "ln_active l = (if fl_held s then Some (lt_index (hd (fl_queue s))) else None)"
  using assms unfolding lane_rel_def by blast+

lemma exact_queued: "lane_rel s l \<Longrightarrow> lane_exact token l \<longleftrightarrow> (\<exists>t. token = Some t \<and> t \<in> set (fl_queue s))"
  by (auto simp: lane_exact_def lane_relD(4) LANE_CAPACITY_def split: option.splits)

lemma occupied: "lane_rel s l \<Longrightarrow> i < 9 \<Longrightarrow> ln_requests l ! i = 0 \<longleftrightarrow> i \<notin> lt_index ` set (fl_queue s)"
proof -
  assume rel: "lane_rel s l" and i: "i < 9"
  have "ln_requests l ! i \<noteq> 0 \<Longrightarrow> \<lparr>lt_identity = ln_requests l ! i, lt_index = i\<rparr> \<in> set (fl_queue s)"
    using i by (simp add: lane_relD(4) [OF rel])
  then have "ln_requests l ! i \<noteq> 0 \<Longrightarrow> i \<in> lt_index ` set (fl_queue s)" by (metis image_eqI lane_token.select_convs(2))
  then show ?thesis using lane_relD(4) [OF rel] by auto
qed

lemma same_index: "lane_rel s l \<Longrightarrow> t \<in> set (fl_queue s) \<Longrightarrow> u \<in> set (fl_queue s) \<Longrightarrow> lt_index t = lt_index u \<longleftrightarrow> t = u"
  by (cases t; cases u) (auto simp: lane_relD(4))

lemma head_least:
  assumes "lane_rel s l" "t \<in> set (fl_queue s)"
  shows "(\<forall>u \<in> set (fl_queue s). \<not> lt_identity u < lt_identity t) \<longleftrightarrow> t = hd (fl_queue s)"
proof -
  obtain h q where q: "fl_queue s = h # q" using assms(2) by (cases "fl_queue s") auto
  then show ?thesis using lane_relD(3) [OF assms(1)] assms(2) by (auto dest: less_not_sym)
qed

lemma less_inc: "(x :: u32) \<noteq> - 1 \<Longrightarrow> x < x + 1"
proof -
  assume "x \<noteq> - 1"
  then have "x < - 1" by (simp add: word_order.not_eq_extremum)
  then show ?thesis by (simp only: word_less_nat_alt unat_inc lessI)
qed

lemma request_step:
  assumes rel: "lane_rel s l"
  shows "fst (lane_apply (Request token) l) = fst (fifo_apply (Request token) s) \<and>
    lane_rel (snd (fifo_apply (Request token) s)) (snd (lane_apply (Request token) l))"
proof (cases "token \<noteq> Some empty_token \<or> fl_next s = 0")
  case True
  then show ?thesis using rel lane_relD(2) [OF rel] by (auto simp: lane_request_def)
next
  case False
  have free: "find (\<lambda>i. ln_requests l ! i = 0) [0..<9] = find (\<lambda>i. i \<notin> lt_index ` set (fl_queue s)) [0..<9]"
    by (rule find_cong) (simp_all add: occupied [OF rel])
  show ?thesis
  proof (cases "find (\<lambda>i. i \<notin> lt_index ` set (fl_queue s)) [0..<9]")
    case None
    then show ?thesis using False rel lane_relD(2) [OF rel] by (simp add: lane_request_def LANE_CAPACITY_def free)
  next
    case (Some i)
    then have i: "i < 9" "i \<notin> lt_index ` set (fl_queue s)" using find_index_Some [OF Some] by auto
    let ?new = "\<lparr>lt_identity = fl_next s, lt_index = i\<rparr>" and ?k = "if fl_next s = - 1 then 0 else fl_next s + 1"
    let ?s = "s\<lparr>fl_queue := fl_queue s @ [?new], fl_next := ?k\<rparr>"
    let ?l = "l\<lparr>ln_next_identity := ?k, ln_requests := (ln_requests l)[i := fl_next s]\<rparr>"
    have held: "hd (fl_queue s @ [?new]) = hd (fl_queue s)" if "fl_held s" using lane_relD(6) [OF rel that] by simp
    have members: "t \<in> set (fl_queue ?s) \<longleftrightarrow> lt_index t < 9 \<and> lt_identity t \<noteq> 0 \<and> ln_requests ?l ! lt_index t = lt_identity t" for t
    proof (cases "lt_index t = i")
      case True
      then have "t \<notin> set (fl_queue s)" using i(2) by auto
      then show ?thesis using True i(1) False lane_relD(1) [OF rel] by (cases t) auto
    next
      case other: False
      then have "t \<noteq> ?new" by auto
      then show ?thesis using other lane_relD(4) [OF rel, of t] by simp
    qed
    have next_greater: "lt_identity t < ?k" if "t \<in> set (fl_queue ?s)" "?k \<noteq> 0" for t
    proof -
      have more: "fl_next s < ?k" using that(2) by (simp split: if_splits add: less_inc)
      show ?thesis
      proof (cases "t = ?new")
        case True
        show ?thesis unfolding True using more by simp
      next
        case other: False
        then have "t \<in> set (fl_queue s)" using that(1) by auto
        then have "lt_identity t < fl_next s" using lane_relD(5) [OF rel] False by blast
        then show ?thesis using more by (rule less_trans)
      qed
    qed
    have "sorted_wrt (\<lambda>a b. lt_identity a < lt_identity b) (fl_queue ?s)"
      using lane_relD(3,5) [OF rel] False by (simp add: sorted_wrt_append)
    then have "lane_rel ?s ?l"
      using lane_relD(1,7) [OF rel] members next_greater held unfolding lane_rel_def by simp
    then show ?thesis using False Some lane_relD(2) [OF rel] by (simp add: lane_request_def LANE_CAPACITY_def free Let_def)
  qed
qed

lemma acquire_step:
  assumes rel: "lane_rel s l"
  shows "fst (lane_apply (Acquire token) l) = fst (fifo_apply (Acquire token) s) \<and>
    lane_rel (snd (fifo_apply (Acquire token) s)) (snd (lane_apply (Acquire token) l))"
proof (cases "lane_exact token l")
  case False
  then have "\<not> (fl_queue s \<noteq> [] \<and> token = Some (hd (fl_queue s)))" by (auto simp: exact_queued [OF rel])
  then show ?thesis using False rel by (simp add: lane_acquire_def)
next
  case True
  then obtain t where t: "token = Some t" "t \<in> set (fl_queue s)" by (auto simp: exact_queued [OF rel])
  then have some: "fl_queue s \<noteq> []" "hd (fl_queue s) \<in> set (fl_queue s)" by (cases "fl_queue s"; force)+
  show ?thesis
  proof (cases "fl_held s")
    case held: True
    have "fst (lane_acquire token l) \<longleftrightarrow> t = hd (fl_queue s)"
      using same_index [OF rel some(2) t(2)] True held t(1) lane_relD(7) [OF rel] by (auto simp: lane_acquire_def)
    moreover have "snd (lane_acquire token l) = l" using True held lane_relD(7) [OF rel] by (simp add: lane_acquire_def)
    moreover have "s\<lparr>fl_held := True\<rparr> = s" using held by simp
    ultimately show ?thesis using rel t(1) some(1) by (simp add: case_prod_unfold)
  next
    case free: False
    have "list_ex (\<lambda>i. ln_requests l ! i \<noteq> 0 \<and> ln_requests l ! i < lt_identity t) [0..<9]
        \<longleftrightarrow> (\<exists>u \<in> set (fl_queue s). lt_identity u < lt_identity t)" (is "?earlier \<longleftrightarrow> ?older")
    proof
      assume ?earlier
      then obtain i where i: "i < 9" "ln_requests l ! i \<noteq> 0" "ln_requests l ! i < lt_identity t" by (auto simp: list_ex_iff)
      then have "\<lparr>lt_identity = ln_requests l ! i, lt_index = i\<rparr> \<in> set (fl_queue s)" by (simp add: lane_relD(4) [OF rel])
      then show ?older using i(3) by force
    next
      assume ?older
      then obtain u where "u \<in> set (fl_queue s)" "lt_identity u < lt_identity t" by blast
      then show ?earlier unfolding list_ex_iff by (intro bexI [of _ "lt_index u"]) (auto simp: lane_relD(4) [OF rel])
    qed
    then have "?earlier \<longleftrightarrow> t \<noteq> hd (fl_queue s)" using head_least [OF rel t(2)] by blast
    then have "lane_acquire token l = (if t = hd (fl_queue s) then (True, l\<lparr>ln_active := Some (lt_index t)\<rparr>) else (False, l))"
      using True free t(1) lane_relD(7) [OF rel] by (simp add: lane_acquire_def LANE_CAPACITY_def)
    moreover have "lane_rel (s\<lparr>fl_held := True\<rparr>) (l\<lparr>ln_active := Some (lt_index (hd (fl_queue s)))\<rparr>)"
      using rel some(1) by (simp add: lane_rel_def)
    ultimately show ?thesis using rel t(1) some(1) by simp
  qed
qed

lemma remove_step:
  assumes rel: "lane_rel s l"
  shows "(case lane_remove active token l of (ok, token', l') \<Rightarrow>
    Removed ok token' = fst (fifo_remove active token s) \<and> lane_rel (snd (fifo_remove active token s)) l')"
proof (cases "lane_exact token l")
  case False
  then have "fifo_remove active token s = (Removed False token, s)"
    by (auto simp: exact_queued [OF rel] fifo_remove_def split: option.split)
  then show ?thesis using False rel by (simp add: lane_remove_def)
next
  case True
  then obtain t where t: "token = Some t" "t \<in> set (fl_queue s)" by (auto simp: exact_queued [OF rel])
  have owner: "ln_active l = Some (lt_index t) \<longleftrightarrow> fl_held s \<and> t = hd (fl_queue s)"
    using lane_relD(7) [OF rel] same_index [OF rel _ t(2), of "hd (fl_queue s)"] t(2) by (cases "fl_queue s") auto
  show ?thesis
  proof (cases "(fl_held s \<and> t = hd (fl_queue s)) = active")
    case False
    then show ?thesis using True owner t rel by (auto simp: lane_remove_def fifo_remove_def)
  next
    case mode: True
    let ?q = "filter (\<lambda>r. r \<noteq> t) (fl_queue s)" and ?held = "fl_held s \<and> \<not> active"
    let ?s = "s\<lparr>fl_queue := ?q, fl_held := ?held\<rparr>"
    let ?l = "l\<lparr>ln_requests := (ln_requests l)[lt_index t := 0], ln_active := (if active then None else ln_active l)\<rparr>"
    have "r \<in> set ?q \<longleftrightarrow> lt_index r < 9 \<and> lt_identity r \<noteq> 0 \<and> (ln_requests l)[lt_index t := 0] ! lt_index r = lt_identity r" for r
    proof (cases "lt_index r = lt_index t")
      case True
      then have "r \<notin> set ?q" using same_index [OF rel _ t(2), of r] by auto
      then show ?thesis using True lane_relD(1) [OF rel] by auto
    next
      case False
      then have "r \<noteq> t" by blast
      then show ?thesis using False lane_relD(4) [OF rel, of r] by simp
    qed
    moreover have "?held \<Longrightarrow> fl_queue s \<noteq> [] \<and> hd ?q = hd (fl_queue s) \<and> ?q \<noteq> []"
      using mode lane_relD(6) [OF rel] by (cases "fl_queue s") auto
    moreover have "sorted_wrt (\<lambda>a b. lt_identity a < lt_identity b) ?q"
      using lane_relD(3) [OF rel] by (rule sorted_wrt_filter)
    ultimately have "lane_rel ?s ?l"
      using lane_relD(1,2,7) [OF rel] lane_relD(5) [OF rel] mode unfolding lane_rel_def by auto
    then show ?thesis using True owner mode t by (simp add: lane_remove_def fifo_remove_def)
  qed
qed

lemma status_fold:
  "distinct xs \<Longrightarrow>
   fold (\<lambda>i st. if r ! i = (0 :: u32) then st else if a = Some i then st\<lparr>ls_active_identity := r ! i\<rparr> else st\<lparr>ls_waiting := ls_waiting st + 1\<rparr>) xs st
   = st\<lparr>ls_active_identity := (case a of Some i \<Rightarrow> if i \<in> set xs \<and> r ! i \<noteq> 0 then r ! i else ls_active_identity st | None \<Rightarrow> ls_active_identity st),
       ls_waiting := ls_waiting st + length (filter (\<lambda>i. r ! i \<noteq> 0 \<and> a \<noteq> Some i) xs)\<rparr>"
proof (induction xs arbitrary: st)
  case Nil
  show ?case by (cases st) (simp split: option.split)
next
  case (Cons x xs)
  then show ?case by (cases st) (auto split: option.split)
qed

lemma increasing_distinct: "sorted_wrt (\<lambda>a b. lt_identity a < lt_identity b) ts \<Longrightarrow> distinct ts"
  by (induction ts) auto

lemma status_step:
  assumes rel: "lane_rel s l"
  shows "Is (lane_status_of l) = fst (fifo_apply Lane_Status s)"
proof -
  let ?q = "fl_queue s"
  have inj: "inj_on lt_index (set ?q)" by (rule inj_onI) (simp add: same_index [OF rel])
  have "distinct ?q" by (rule increasing_distinct [OF lane_relD(3) [OF rel]])
  have requested: "{i. i < 9 \<and> ln_requests l ! i \<noteq> 0} = lt_index ` set ?q"
    using occupied [OF rel] lane_relD(4) [OF rel] by auto
  let ?waiting = "filter (\<lambda>i. ln_requests l ! i \<noteq> 0 \<and> ln_active l \<noteq> Some i) [0..<9]"
  have "length ?waiting = card (set ?waiting)" by (rule distinct_card [symmetric]) simp
  also have "set ?waiting = lt_index ` set ?q - (case ln_active l of Some i \<Rightarrow> {i} | None \<Rightarrow> {})"
    unfolding requested [symmetric] by (auto split: option.splits)
  also have "card \<dots> = length ?q - (if fl_held s then 1 else 0)"
    using lane_relD(6,7) [OF rel] \<open>distinct ?q\<close> by (auto simp: card_Diff_singleton card_image [OF inj] distinct_card)
  finally have waiting: "length ?waiting = length ?q - (if fl_held s then 1 else 0)" .
  have "hd ?q \<in> set ?q" if "fl_held s" using lane_relD(6) [OF rel that] by simp
  then have active: "(case ln_active l of Some i \<Rightarrow> if i \<in> set [0..<9] \<and> ln_requests l ! i \<noteq> 0 then ln_requests l ! i else 0 | None \<Rightarrow> 0)
      = (if fl_held s then lt_identity (hd ?q) else 0)"
    using lane_relD(7) [OF rel] lane_relD(4) [OF rel, of "hd ?q"] by simp
  show ?thesis
    unfolding lane_status_of_def LANE_CAPACITY_def status_fold [OF distinct_upt] fifo_apply.simps fst_conv
      lane_status.select_convs
    using active waiting lane_relD(2) [OF rel] by simp
qed

lemma lane_step:
  assumes rel: "lane_rel s l"
  shows "fst (lane_apply c l) = fst (fifo_apply c s) \<and> lane_rel (snd (fifo_apply c s)) (snd (lane_apply c l))"
proof (cases c)
  case (Request token)
  show ?thesis unfolding Request by (rule request_step [OF rel])
next
  case (Acquire token)
  show ?thesis unfolding Acquire by (rule acquire_step [OF rel])
next
  case (Withdraw token)
  show ?thesis using remove_step [OF rel, of False token] by (simp add: Withdraw lane_withdraw_def case_prod_unfold)
next
  case (Release token)
  show ?thesis using remove_step [OF rel, of True token] by (simp add: Release lane_release_def case_prod_unfold)
next
  case Lane_Status
  show ?thesis using status_step [OF rel] rel by (simp add: Lane_Status)
qed

lemma lane_rel_initial: "lane_rel \<lparr>fl_queue = [], fl_held = False, fl_next = 1\<rparr> lane_initial"
  by (auto simp: lane_rel_def lane_initial_def LANE_CAPACITY_def)

interpretation lane: simulation fifo_apply lane_apply "\<lambda>n. lane_rel"
  by unfold_locales (simp_all add: lane_step)

text \<open>
  C12: Any sequence of requests, acquisitions, withdrawals, releases and status queries, with
  arbitrary tokens (forged, stale and null ones included), gets from the arbiter's array the answers
  of a first-in first-out lock: the lane is granted to the holder or to the oldest request alone,
  only its owner releases it, only others withdraw, a removed token never works again, and after
  \<open>2^32 - 1\<close> requests every further one is refused rather than given an old identity.
\<close>

theorem raw_tx_lane_refines:
  "call_outputs lane_apply calls lane_initial = call_outputs fifo_apply calls \<lparr>fl_queue = [], fl_held = False, fl_next = 1\<rparr>"
  by (rule lane.same_outputs [OF lane_rel_initial])

end
