(* ===== verification/Raw_Tx_Periodic.thy ===== *)
theory Raw_Tx_Periodic
  imports Simulation
begin

text \<open>
  \<open>modules/wifi_raw_tx/esp32_mquickjs_wifi_raw_tx_periodic.c\<close>: the ledger that schedules a frame
  to be sent at a fixed interval.  The counters are 32-bit words and the intermediate values of the
  schedule 64-bit words, as in the code; the two time stamps are integers, and that they stay below
  \<open>INT64_MAX\<close> is part of what is proved.  Whether the ledger and a ticket overlap in memory is an
  argument.
\<close>

section \<open>The ledger\<close>

definition PERIODIC_MIN_INTERVAL_US :: u32 where "PERIODIC_MIN_INTERVAL_US = 1000"
definition INT64_MAX :: int where "INT64_MAX = 9223372036854775807"

datatype periodic_busy_mode = BUSY_SKIP | BUSY_STOP | Other_Busy nat

record periodic_options =
  po_interval_us :: u32
  po_start_delay_us :: u32
  po_count :: u32
  po_busy :: periodic_busy_mode
  po_stop_on_error :: bool

record periodic_ticket =
  pt_generation :: u32
  pt_sequence :: u32

datatype periodic_due_result = NOT_DUE | ISSUE | SKIPPED | HALTED | INVALID

datatype periodic_outcome = SUCCESS | FAILED | UNKNOWN | REJECTED | ABORTED | DROPPED | Other_Outcome nat

record periodic =
  pe_generation :: u32
  pe_options :: periodic_options
  next_due_us :: int
  last_observed_us :: int
  pe_scheduled :: u32
  pe_issued :: u32
  pe_submitted :: u32
  pe_completed :: u32
  pe_failed :: u32
  pe_unknown :: u32
  pe_rejected :: u32
  pe_aborted :: u32
  pe_dropped :: u32
  pe_skipped_busy :: u32
  pe_skipped_late :: u32
  pe_running :: bool
  pe_closing :: bool
  pe_faulted :: bool
  pe_exhausted :: bool
  pe_uncertain :: bool
  pe_active :: periodic_ticket
  pe_active_submitted :: bool

definition no_periodic_ticket :: periodic_ticket where "no_periodic_ticket = \<lparr>pt_generation = 0, pt_sequence = 0\<rparr>"

definition periodic_started :: "u32 \<Rightarrow> periodic_options \<Rightarrow> int \<Rightarrow> periodic" where
  "periodic_started generation options now_us =
     \<lparr>pe_generation = generation, pe_options = options, next_due_us = now_us + uint (po_start_delay_us options),
      last_observed_us = now_us, pe_scheduled = 0, pe_issued = 0, pe_submitted = 0, pe_completed = 0, pe_failed = 0,
      pe_unknown = 0, pe_rejected = 0, pe_aborted = 0, pe_dropped = 0, pe_skipped_busy = 0, pe_skipped_late = 0,
      pe_running = True, pe_closing = False, pe_faulted = False, pe_exhausted = False, pe_uncertain = False,
      pe_active = no_periodic_ticket, pe_active_submitted = False\<rparr>"

definition periodic_init :: "periodic \<Rightarrow> u32 \<Rightarrow> periodic_options \<Rightarrow> int \<Rightarrow> bool \<times> periodic" where
  "periodic_init out generation options now_us =
     (if generation = 0 \<or> pe_generation out \<noteq> 0 \<or> now_us < 0 \<or> po_interval_us options < PERIODIC_MIN_INTERVAL_US \<or>
        INT64_MAX - now_us < uint (po_start_delay_us options) \<or>
        (po_busy options \<noteq> BUSY_SKIP \<and> po_busy options \<noteq> BUSY_STOP) then (False, out)
      else (True, periodic_started generation options now_us))"

definition periodic_exact :: "bool \<Rightarrow> periodic \<Rightarrow> periodic_ticket \<Rightarrow> bool" where
  "periodic_exact aliases p t \<longleftrightarrow>
     \<not> aliases \<and> pe_generation p \<noteq> 0 \<and> pt_generation t = pe_generation p \<and> pt_sequence t \<noteq> 0 \<and>
     pt_generation t = pt_generation (pe_active p) \<and> pt_sequence t = pt_sequence (pe_active p)"

definition periodic_exhausted :: "periodic \<Rightarrow> periodic" where
  "periodic_exhausted p = p\<lparr>pe_running := False, pe_faulted := True, pe_exhausted := True\<rparr>"

definition periodic_due :: "bool \<Rightarrow> periodic \<Rightarrow> int \<Rightarrow> bool \<Rightarrow> periodic_ticket \<Rightarrow> periodic_due_result \<times> periodic_ticket \<times> periodic" where
  "periodic_due aliases p now_us busy out =
     (if aliases \<or> pt_generation out \<noteq> 0 \<or> pt_sequence out \<noteq> 0 \<or> pe_generation p = 0 \<or> now_us < 0 then (INVALID, out, p)
      else if \<not> pe_running p then (HALTED, out, p)
      else if now_us < last_observed_us p then (HALTED, out, p\<lparr>pe_running := False, pe_faulted := True\<rparr>)
      else let p = p\<lparr>last_observed_us := now_us\<rparr> in
        if now_us < next_due_us p then (NOT_DUE, out, p)
        else let interval = ucast (po_interval_us (pe_options p)) :: u64;
            due = word_of_int (now_us - next_due_us p) div interval + 1;
            count = po_count (pe_options p);
            remaining = (if count \<noteq> 0 then count - pe_scheduled p else - 1 - pe_scheduled p)
          in if remaining = 0 then (HALTED, out, if count = 0 then periodic_exhausted p else p\<lparr>pe_running := False\<rparr>)
             else let due = (if ucast remaining < due then ucast remaining else due);
                 delta = due * interval;
                 limit = (due = ucast remaining)
               in if \<not> limit \<and> word_of_int (INT64_MAX - next_due_us p) < delta then (HALTED, out, periodic_exhausted p)
                  else let p = p\<lparr>pe_scheduled := pe_scheduled p + ucast due, pe_skipped_late := pe_skipped_late p + (ucast due - 1)\<rparr>;
                      p = (if \<not> limit then p\<lparr>next_due_us := next_due_us p + sint delta\<rparr>
                        else if count = 0 then periodic_exhausted p else p\<lparr>pe_running := False\<rparr>)
                    in if busy \<or> pt_sequence (pe_active p) \<noteq> 0
                       then (SKIPPED, out, p\<lparr>pe_skipped_busy := pe_skipped_busy p + 1,
                         pe_running := (pe_running p \<and> po_busy (pe_options p) \<noteq> BUSY_STOP)\<rparr>)
                       else let ticket = \<lparr>pt_generation = pe_generation p, pt_sequence = pe_scheduled p\<rparr>
                         in (ISSUE, ticket, p\<lparr>pe_issued := pe_issued p + 1, pe_active := ticket, pe_active_submitted := False\<rparr>))"

definition periodic_submitted :: "bool \<Rightarrow> periodic \<Rightarrow> periodic_ticket \<Rightarrow> bool \<times> periodic" where
  "periodic_submitted aliases p t =
     (if \<not> periodic_exact aliases p t \<or> pe_active_submitted p \<or> pe_uncertain p then (False, p)
      else (True, p\<lparr>pe_active_submitted := True, pe_submitted := pe_submitted p + 1\<rparr>))"

definition periodic_finish :: "bool \<Rightarrow> periodic \<Rightarrow> periodic_ticket \<Rightarrow> periodic_outcome \<Rightarrow> bool \<times> periodic_ticket \<times> periodic" where
  "periodic_finish aliases p t outcome =
     (if \<not> periodic_exact aliases p t \<or> (case outcome of Other_Outcome n \<Rightarrow> True | _ \<Rightarrow> False) \<or> pe_uncertain p then (False, t, p)
      else let completion = (outcome = SUCCESS \<or> outcome = FAILED \<or> outcome = UNKNOWN) in
        if completion \<noteq> pe_active_submitted p then (False, t, p)
        else let p = (if completion then p\<lparr>pe_completed := pe_completed p + 1\<rparr> else p);
            p = (if outcome = FAILED then p\<lparr>pe_failed := pe_failed p + 1\<rparr> else p);
            p = (if (outcome = FAILED \<or> outcome = REJECTED \<or> outcome = DROPPED) \<and> po_stop_on_error (pe_options p)
              then p\<lparr>pe_running := False, pe_faulted := True\<rparr> else p);
            p = (if outcome = UNKNOWN then p\<lparr>pe_unknown := pe_unknown p + 1\<rparr> else p);
            p = (if outcome = REJECTED then p\<lparr>pe_rejected := pe_rejected p + 1\<rparr> else p);
            p = (if outcome = ABORTED then p\<lparr>pe_aborted := pe_aborted p + 1\<rparr> else p);
            p = (if outcome = DROPPED then p\<lparr>pe_dropped := pe_dropped p + 1\<rparr> else p)
          in (True, no_periodic_ticket, p\<lparr>pe_active := no_periodic_ticket, pe_active_submitted := False\<rparr>))"

definition periodic_busy :: "bool \<Rightarrow> periodic \<Rightarrow> periodic_ticket \<Rightarrow> bool \<times> periodic_ticket \<times> periodic" where
  "periodic_busy aliases p t =
     (if \<not> periodic_exact aliases p t \<or> pe_active_submitted p \<or> pe_uncertain p then (False, t, p)
      else (True, no_periodic_ticket, p\<lparr>pe_issued := pe_issued p - 1, pe_skipped_busy := pe_skipped_busy p + 1,
        pe_running := (pe_running p \<and> po_busy (pe_options p) \<noteq> BUSY_STOP), pe_active := no_periodic_ticket\<rparr>))"

definition periodic_uncertain :: "bool \<Rightarrow> periodic \<Rightarrow> periodic_ticket \<Rightarrow> bool \<times> periodic" where
  "periodic_uncertain aliases p t =
     (if \<not> periodic_exact aliases p t then (False, p)
      else (True, p\<lparr>pe_running := False, pe_faulted := True, pe_uncertain := True\<rparr>))"

definition periodic_terminated :: "bool \<Rightarrow> periodic \<Rightarrow> periodic_ticket \<Rightarrow> bool \<Rightarrow> bool \<times> periodic_ticket \<times> periodic" where
  "periodic_terminated aliases p t driver_accepted =
     (if \<not> periodic_exact aliases p t \<or> pe_active_submitted p \<and> \<not> driver_accepted then (False, t, p)
      else (True, no_periodic_ticket,
        p\<lparr>pe_submitted := (if driver_accepted \<and> \<not> pe_active_submitted p then pe_submitted p + 1 else pe_submitted p),
          pe_aborted := pe_aborted p + 1, pe_running := False, pe_uncertain := False,
          pe_active := no_periodic_ticket, pe_active_submitted := False\<rparr>))"

definition periodic_stop :: "periodic \<Rightarrow> periodic" where "periodic_stop p = p\<lparr>pe_running := False\<rparr>"

definition periodic_close :: "periodic \<Rightarrow> periodic" where "periodic_close p = p\<lparr>pe_running := False, pe_closing := True\<rparr>"

definition periodic_drained :: "periodic \<Rightarrow> bool" where
  "periodic_drained p \<longleftrightarrow> pe_generation p \<noteq> 0 \<and> \<not> pe_running p \<and> pt_sequence (pe_active p) = 0"

text \<open>The calls; the time stamp of \<open>Due\<close> is a signed 64-bit word.\<close>

datatype periodic_call = Due bool u64 bool periodic_ticket | Submitted bool periodic_ticket
  | Finish bool periodic_ticket periodic_outcome | Busy bool periodic_ticket | Uncertain bool periodic_ticket
  | Terminated bool periodic_ticket bool | Stop | Close | Drained

datatype periodic_answer = Due_Answer periodic_due_result periodic_ticket | Flag bool | Flag_Ticket bool periodic_ticket | Nothing

fun periodic_apply :: "periodic_call \<Rightarrow> periodic \<Rightarrow> periodic_answer \<times> periodic" where
  "periodic_apply (Due a now busy t) p = (let (r, t', p') = periodic_due a p (sint now) busy t in (Due_Answer r t', p'))"
| "periodic_apply (Submitted a t) p = (let (ok, p') = periodic_submitted a p t in (Flag ok, p'))"
| "periodic_apply (Finish a t outcome) p = (let (ok, t', p') = periodic_finish a p t outcome in (Flag_Ticket ok t', p'))"
| "periodic_apply (Busy a t) p = (let (ok, t', p') = periodic_busy a p t in (Flag_Ticket ok t', p'))"
| "periodic_apply (Uncertain a t) p = (let (ok, p') = periodic_uncertain a p t in (Flag ok, p'))"
| "periodic_apply (Terminated a t accepted) p = (let (ok, t', p') = periodic_terminated a p t accepted in (Flag_Ticket ok t', p'))"
| "periodic_apply Stop p = (Nothing, periodic_stop p)"
| "periodic_apply Close p = (Nothing, periodic_close p)"
| "periodic_apply Drained p = (Flag (periodic_drained p), p)"

section \<open>The schedule\<close>

text \<open>How many opportunities there are in all, and when the \<open>k\<close>-th is, counted from 0.\<close>

definition opportunities :: "periodic_options \<Rightarrow> nat" where
  "opportunities options = (if po_count options = 0 then 2 ^ 32 - 1 else unat (po_count options))"

definition deadline :: "int \<Rightarrow> periodic_options \<Rightarrow> nat \<Rightarrow> int" where
  "deadline t0 options k = t0 + uint (po_start_delay_us options) + int k * uint (po_interval_us options)"

definition outstanding :: "periodic_ticket \<Rightarrow> nat" where
  "outstanding t = (if pt_sequence t = 0 then 0 else 1)"

text \<open>
  The books: every opportunity taken was issued or skipped; every ticket issued is outstanding or has
  ended in one way; a ticket that ended by completion was submitted.  \<open>k\<close> opportunities are taken but
  not served yet.
\<close>

definition periodic_books_with :: "nat \<Rightarrow> periodic \<Rightarrow> bool" where
  "periodic_books_with k p \<longleftrightarrow>
     unat (pe_scheduled p) = k + unat (pe_issued p) + unat (pe_skipped_late p) + unat (pe_skipped_busy p) \<and>
     unat (pe_scheduled p) \<le> opportunities (pe_options p) \<and>
     unat (pe_issued p) = outstanding (pe_active p) + unat (pe_completed p) + unat (pe_rejected p) + unat (pe_aborted p) + unat (pe_dropped p) \<and>
     unat (pe_failed p) + unat (pe_unknown p) \<le> unat (pe_completed p) \<and>
     unat (pe_completed p) + of_bool (pe_active_submitted p) \<le> unat (pe_submitted p) \<and>
     unat (pe_submitted p) \<le> unat (pe_completed p) + unat (pe_aborted p) + of_bool (pe_active_submitted p) \<and>
     (pe_active_submitted p \<longrightarrow> outstanding (pe_active p) = 1) \<and> (pe_uncertain p \<longrightarrow> outstanding (pe_active p) = 1 \<and> \<not> pe_running p) \<and>
     (outstanding (pe_active p) = 1 \<longrightarrow> pt_generation (pe_active p) = pe_generation p \<and> pt_sequence (pe_active p) \<le> pe_scheduled p)"

abbreviation periodic_books :: "periodic \<Rightarrow> bool" where "periodic_books \<equiv> periodic_books_with 0"

text \<open>The clock: a running ledger waits for the first opportunity that it has not taken.\<close>

definition periodic_on_time :: "int \<Rightarrow> periodic \<Rightarrow> bool" where
  "periodic_on_time t0 p \<longleftrightarrow>
     1000 \<le> uint (po_interval_us (pe_options p)) \<and> pe_generation p \<noteq> 0 \<and>
     0 \<le> next_due_us p \<and> next_due_us p \<le> INT64_MAX \<and> 0 \<le> last_observed_us p \<and> last_observed_us p \<le> INT64_MAX \<and>
     (pe_running p \<longrightarrow> unat (pe_scheduled p) < opportunities (pe_options p) \<and> next_due_us p = deadline t0 (pe_options p) (unat (pe_scheduled p)) \<and>
       (pe_scheduled p = 0 \<or> deadline t0 (pe_options p) (unat (pe_scheduled p) - 1) \<le> last_observed_us p))"

lemma opportunities_bound: "opportunities opts < 2 ^ 32" "0 < opportunities opts"
proof -
  have "unat (po_count opts) < 2 ^ LENGTH(32)" by (rule unsigned_less)
  then show "opportunities opts < 2 ^ 32" by (simp add: opportunities_def)
  show "0 < opportunities opts" by (simp add: opportunities_def unat_gt_0)
qed

lemma remaining_code:
  assumes "unat s < opportunities (pe_options p)" "s = pe_scheduled p" "count = po_count (pe_options p)"
  shows "unat (if count \<noteq> 0 then count - s else - 1 - s) = opportunities (pe_options p) - unat s"
proof (cases "count = 0")
  case True
  have "unat (- 1 - s) = unat (- 1 :: u32) - unat s" by (rule unat_sub_le) simp
  then show ?thesis using True assms by (simp add: opportunities_def unsigned_minus_1_eq_mask mask_eq_exp_minus_1)
next
  case False
  then have "s \<le> count" using assms by (simp add: opportunities_def word_le_nat_alt)
  then show ?thesis using False assms by (simp add: opportunities_def unat_sub_le)
qed

text \<open>The 64-bit computation of a due call never wraps.\<close>

lemma due_code:
  fixes interval remaining :: u32 and diff :: int
  defines "i64 \<equiv> ucast interval :: u64" and "r64 \<equiv> ucast remaining :: u64"
  defines "due \<equiv> word_of_int diff div i64 + 1" and "d \<equiv> nat (diff div uint interval) + 1"
  assumes "0 \<le> diff" "diff \<le> INT64_MAX" "interval \<noteq> 0"
  shows "unat (if r64 < due then r64 else due) = min (unat remaining) d"
    "(if r64 < due then r64 else due) = r64 \<longleftrightarrow> unat remaining \<le> d"
    "unat ((if r64 < due then r64 else due) * i64) = min (unat remaining) d * unat interval"
proof -
  have small: "unat remaining < 2 ^ 32" "unat interval < 2 ^ 32" using unsigned_less [of remaining] unsigned_less [of interval] by simp_all
  have diff: "unat (word_of_int diff :: u64) = nat diff"
  proof -
    have "diff < 2 ^ LENGTH(64)" using assms(6) by (simp add: INT64_MAX_def)
    then have "take_bit LENGTH(64) diff = diff" by (rule take_bit_int_eq_self [OF assms(5)])
    then have "uint (word_of_int diff :: u64) = diff" by (simp only: uint_word_of_int_eq)
    then show ?thesis by (metis nat_uint_eq)
  qed
  have quotient: "unat (word_of_int diff div i64) = nat (diff div uint interval)"
    using assms(5) by (simp add: unat_div diff i64_def nat_div_distrib)
  have "nat (diff div uint interval) \<le> nat diff"
    using assms(5) by (simp add: nat_div_distrib div_le_dividend)
  then have "unat (word_of_int diff div i64) + unat (1 :: u64) < 2 ^ LENGTH(64)" using assms(6) by (simp add: quotient INT64_MAX_def)
  then have due: "unat due = d" unfolding due_def by (simp add: unat_add_fits quotient d_def)
  have r: "unat r64 = unat remaining" by (simp add: r64_def)
  show m: "unat (if r64 < due then r64 else due) = min (unat remaining) d" by (simp add: word_less_nat_alt due r)
  show "(if r64 < due then r64 else due) = r64 \<longleftrightarrow> unat remaining \<le> d" by (auto simp: word_less_nat_alt word_unat_eq_iff due r)
  have "min (unat remaining) d * unat interval < 2 ^ 32 * 2 ^ 32"
    using small by (intro mult_strict_mono') auto
  then have "unat (if r64 < due then r64 else due) * unat i64 < 2 ^ LENGTH(64)" unfolding m by (simp add: i64_def)
  then show "unat ((if r64 < due then r64 else due) * i64) = min (unat remaining) d * unat interval"
    using m by (simp add: unat_word_ariths i64_def)
qed

text \<open>The opportunities a call at \<open>now\<close> takes, and the ledger after it has taken them.\<close>

definition opportunities_due :: "periodic \<Rightarrow> int \<Rightarrow> nat" where
  "opportunities_due p now = nat ((now - next_due_us p) div uint (po_interval_us (pe_options p))) + 1"

definition taken_count :: "periodic \<Rightarrow> int \<Rightarrow> nat" where
  "taken_count p now = min (opportunities (pe_options p) - unat (pe_scheduled p)) (opportunities_due p now)"

definition last_opportunity :: "periodic \<Rightarrow> int \<Rightarrow> bool" where
  "last_opportunity p now \<longleftrightarrow> opportunities (pe_options p) - unat (pe_scheduled p) \<le> opportunities_due p now"

definition periodic_take :: "periodic \<Rightarrow> int \<Rightarrow> periodic" where
  "periodic_take p now =
     (let n = taken_count p now;
        q = p\<lparr>last_observed_us := now, pe_scheduled := pe_scheduled p + of_nat n, pe_skipped_late := pe_skipped_late p + of_nat (n - 1)\<rparr>
      in if \<not> last_opportunity p now then q\<lparr>next_due_us := next_due_us p + int n * uint (po_interval_us (pe_options p))\<rparr>
         else if po_count (pe_options p) = 0 then periodic_exhausted q else q\<lparr>pe_running := False\<rparr>)"

definition periodic_serve :: "periodic \<Rightarrow> bool \<Rightarrow> periodic_ticket \<Rightarrow> periodic_due_result \<times> periodic_ticket \<times> periodic" where
  "periodic_serve p busy out =
     (if busy \<or> pt_sequence (pe_active p) \<noteq> 0
      then (SKIPPED, out, p\<lparr>pe_skipped_busy := pe_skipped_busy p + 1, pe_running := (pe_running p \<and> po_busy (pe_options p) \<noteq> BUSY_STOP)\<rparr>)
      else let ticket = \<lparr>pt_generation = pe_generation p, pt_sequence = pe_scheduled p\<rparr>
        in (ISSUE, ticket, p\<lparr>pe_issued := pe_issued p + 1, pe_active := ticket, pe_active_submitted := False\<rparr>))"

lemma word_less_of_int:
  assumes "0 \<le> k" "k \<le> INT64_MAX"
  shows "word_of_int k < (w :: u64) \<longleftrightarrow> k < int (unat w)"
proof -
  have "k < 2 ^ LENGTH(64)" using assms(2) by (simp add: INT64_MAX_def)
  then have "take_bit LENGTH(64) k = k" by (rule take_bit_int_eq_self [OF assms(1)])
  then have "uint (word_of_int k :: u64) = k" by (simp only: uint_word_of_int_eq)
  then show ?thesis by (simp add: word_less_def)
qed

lemma sint_small:
  assumes "int (unat (w :: u64)) \<le> INT64_MAX"
  shows "sint w = int (unat w)"
proof -
  have "uint w < 2 ^ (LENGTH(64) - 1)" using assms by (simp add: INT64_MAX_def)
  moreover have "- (2 ^ (LENGTH(64) - 1)) \<le> uint w" by (rule order_trans [OF _ unsigned_greater_eq]) simp
  ultimately have "signed_take_bit (LENGTH(64) - 1) (uint w) = uint w" by (intro signed_take_bit_int_eq_self)
  then show ?thesis by (simp only: sint_uint) simp
qed

lemma ucast_count: "unat (w :: u64) = n \<Longrightarrow> (ucast w :: u32) = of_nat n"
  by (auto simp: word_unat_eq_iff unsigned_ucast_eq unat_of_nat take_bit_eq_mod)

lemma due_taken:
  assumes running: "pe_running p" and books: "periodic_books p" and time: "periodic_on_time t0 p"
    and args: "\<not> aliases" "pt_generation out = 0" "pt_sequence out = 0"
    and now: "last_observed_us p \<le> now" "next_due_us p \<le> now" "now \<le> INT64_MAX"
  shows "periodic_due aliases p now busy out =
    (if \<not> last_opportunity p now \<and> INT64_MAX - next_due_us p < int (taken_count p now) * uint (po_interval_us (pe_options p))
     then (HALTED, out, periodic_exhausted (p\<lparr>last_observed_us := now\<rparr>))
     else periodic_serve (periodic_take p now) busy out)"
proof -
  define q where "q = p\<lparr>last_observed_us := now\<rparr>"
  let ?interval = "po_interval_us (pe_options p)" and ?i64 = "ucast (po_interval_us (pe_options p)) :: u64"
  define remaining where "remaining = (if po_count (pe_options p) \<noteq> 0 then po_count (pe_options p) - pe_scheduled p else - 1 - pe_scheduled p)"
  let ?r64 = "ucast remaining :: u64"
  define due where "due = word_of_int (now - next_due_us p) div ?i64 + 1"
  define least where "least = (if ?r64 < due then ?r64 else due)"
  have bounds: "pe_generation p \<noteq> 0" "0 \<le> next_due_us p" "next_due_us p \<le> INT64_MAX" "1000 \<le> uint ?interval" "0 \<le> last_observed_us p"
    "unat (pe_scheduled p) < opportunities (pe_options p)"
    using time running by (auto simp: periodic_on_time_def)
  have left: "unat remaining = opportunities (pe_options p) - unat (pe_scheduled p)" "remaining \<noteq> 0"
    using remaining_code [OF bounds(6) refl refl] bounds(6) unfolding remaining_def by auto
  have diff: "0 \<le> now - next_due_us p" "now - next_due_us p \<le> INT64_MAX" "?interval \<noteq> 0" using now bounds by auto
  note code = due_code [OF diff, of remaining, folded due_def, folded least_def]
  have n: "unat least = taken_count p now" "least = ?r64 \<longleftrightarrow> last_opportunity p now"
    "unat (least * ?i64) = taken_count p now * unat ?interval"
    using code by (simp_all add: left(1) taken_count_def last_opportunity_def opportunities_due_def)
  have product: "int (unat (least * ?i64)) = int (taken_count p now) * uint ?interval" by (simp add: n(3))
  have over: "word_of_int (INT64_MAX - next_due_us p) < least * ?i64 \<longleftrightarrow> INT64_MAX - next_due_us p < int (taken_count p now) * uint ?interval"
    using word_less_of_int [of "INT64_MAX - next_due_us p" "least * ?i64"] bounds(2,3) product by simp
  have sint: "sint (least * ?i64) = int (taken_count p now) * uint ?interval"
    if "\<not> INT64_MAX - next_due_us p < int (taken_count p now) * uint ?interval"
    using sint_small [of "least * ?i64"] that bounds(2) product by simp
  have count: "(ucast least :: u32) = of_nat (taken_count p now)" by (rule ucast_count [OF n(1)])
  have "1 \<le> taken_count p now" using bounds(6) by (simp add: taken_count_def opportunities_due_def)
  then have late: "(of_nat (taken_count p now) - 1 :: u32) = of_nat (taken_count p now - 1)" by (simp add: of_nat_diff)
  have checks: "\<not> (aliases \<or> pt_generation out \<noteq> 0 \<or> pt_sequence out \<noteq> 0 \<or> pe_generation p = 0 \<or> now < 0)"
    "\<not> \<not> pe_running p" "\<not> now < last_observed_us p" "\<not> now < next_due_us p"
    using args bounds now running by (auto simp: q_def)
  have q_sel: "pe_options q = pe_options p" "pe_scheduled q = pe_scheduled p" "next_due_us q = next_due_us p"
    "pe_skipped_late q = pe_skipped_late p"
    by (simp_all add: q_def)
  have start: "periodic_due aliases p now busy out =
      (if least \<noteq> ?r64 \<and> word_of_int (INT64_MAX - next_due_us p) < least * ?i64 then (HALTED, out, periodic_exhausted q)
       else periodic_serve (let q = q\<lparr>pe_scheduled := pe_scheduled p + ucast least, pe_skipped_late := pe_skipped_late p + (ucast least - 1)\<rparr>
         in if least \<noteq> ?r64 then q\<lparr>next_due_us := next_due_us p + sint (least * ?i64)\<rparr>
            else if po_count (pe_options p) = 0 then periodic_exhausted q else q\<lparr>pe_running := False\<rparr>) busy out)"
    unfolding periodic_due_def if_not_P [OF checks(1)] if_not_P [OF checks(2)] if_not_P [OF checks(3)] q_def [symmetric] Let_def if_not_P [OF checks(4)]
      q_sel remaining_def [symmetric] if_not_P [OF left(2)] due_def [symmetric] least_def [symmetric] periodic_serve_def
    by (cases "least = ?r64") (simp_all add: q_sel)
  show ?thesis unfolding start over n(2) count late q_def periodic_take_def Let_def using sint by simp
qed

lemma deadline_add: "deadline t0 opts (s + k) = deadline t0 opts s + int k * uint (po_interval_us opts)"
  by (simp add: deadline_def algebra_simps)

lemma take_sel [simp]:
  "pe_options (periodic_take p now) = pe_options p" "pe_generation (periodic_take p now) = pe_generation p"
  "last_observed_us (periodic_take p now) = now" "pe_scheduled (periodic_take p now) = pe_scheduled p + of_nat (taken_count p now)"
  "pe_issued (periodic_take p now) = pe_issued p" "pe_submitted (periodic_take p now) = pe_submitted p"
  "pe_completed (periodic_take p now) = pe_completed p" "pe_failed (periodic_take p now) = pe_failed p"
  "pe_unknown (periodic_take p now) = pe_unknown p" "pe_rejected (periodic_take p now) = pe_rejected p"
  "pe_aborted (periodic_take p now) = pe_aborted p" "pe_dropped (periodic_take p now) = pe_dropped p"
  "pe_skipped_busy (periodic_take p now) = pe_skipped_busy p"
  "pe_skipped_late (periodic_take p now) = pe_skipped_late p + of_nat (taken_count p now - 1)"
  "pe_uncertain (periodic_take p now) = pe_uncertain p" "pe_active (periodic_take p now) = pe_active p"
  "pe_active_submitted (periodic_take p now) = pe_active_submitted p"
  "pe_running p \<Longrightarrow> pe_running (periodic_take p now) = (\<not> last_opportunity p now)"
  "next_due_us (periodic_take p now) = (if last_opportunity p now then next_due_us p else next_due_us p + int (taken_count p now) * uint (po_interval_us (pe_options p)))"
  by (auto simp: periodic_take_def periodic_exhausted_def Let_def)

lemma take_step:
  assumes running: "pe_running p" and books: "periodic_books p" and time: "periodic_on_time t0 p"
    and now: "last_observed_us p \<le> now" "next_due_us p \<le> now" "now \<le> INT64_MAX"
    and fits: "\<not> (\<not> last_opportunity p now \<and> INT64_MAX - next_due_us p < int (taken_count p now) * uint (po_interval_us (pe_options p)))"
  defines "q \<equiv> periodic_take p now" and "n \<equiv> taken_count p now"
  shows "unat (pe_scheduled q) = unat (pe_scheduled p) + n" "1 \<le> n" "unat (pe_scheduled q) \<le> opportunities (pe_options p)"
    "unat (pe_skipped_late q) = unat (pe_skipped_late p) + (n - 1)" "periodic_on_time t0 q"
    "deadline t0 (pe_options p) (unat (pe_scheduled q) - 1) \<le> now"
    "unat (pe_scheduled q) < opportunities (pe_options p) \<Longrightarrow> now < deadline t0 (pe_options p) (unat (pe_scheduled q))"
proof -
  let ?s = "unat (pe_scheduled p)" and ?interval = "uint (po_interval_us (pe_options p))"
  have at: "?s < opportunities (pe_options p)" "next_due_us p = deadline t0 (pe_options p) ?s" "1000 \<le> ?interval" "0 \<le> next_due_us p"
    using time running by (auto simp: periodic_on_time_def)
  have n: "1 \<le> n" "n \<le> opportunities (pe_options p) - ?s" "n \<le> opportunities_due p now"
    using at(1) by (simp_all add: n_def taken_count_def opportunities_due_def)
  show "1 \<le> n" by (rule n(1))
  have unat: "unat (of_nat k :: u32) = k" if "k \<le> n" for k
    using that n(2) opportunities_bound(1) [of "pe_options p"] by (intro unat_of_nat_lt) simp
  have "?s + n \<le> opportunities (pe_options p)" using n(2) at(1) by linarith
  then have sum: "?s + unat (of_nat n :: u32) < 2 ^ LENGTH(32)" using opportunities_bound(1) [of "pe_options p"] by (simp add: unat)
  show scheduled: "unat (pe_scheduled q) = ?s + n" using unat_add_fits [OF sum] by (simp add: q_def n_def [symmetric] unat)
  show "unat (pe_scheduled q) \<le> opportunities (pe_options p)" using scheduled n(2) at(1) by linarith
  have "unat (pe_skipped_late p) \<le> ?s" using books by (simp add: periodic_books_with_def)
  then have "unat (pe_skipped_late p) + unat (of_nat (n - 1) :: u32) < 2 ^ LENGTH(32)"
    using n(2) at(1) opportunities_bound(1) [of "pe_options p"] unat [of "n - 1"] by simp
  from unat_add_fits [OF this] show "unat (pe_skipped_late q) = unat (pe_skipped_late p) + (n - 1)"
    using unat [of "n - 1"] by (simp add: q_def n_def [symmetric])
  define w where "w = (now - next_due_us p) div ?interval"
  have w: "0 \<le> w" "w * ?interval \<le> now - next_due_us p" "now - next_due_us p < w * ?interval + ?interval"
    "opportunities_due p now = nat w + 1"
  proof -
    have "w * ?interval + (now - next_due_us p) mod ?interval = now - next_due_us p" unfolding w_def by (rule div_mult_mod_eq)
    moreover have "0 \<le> (now - next_due_us p) mod ?interval" "(now - next_due_us p) mod ?interval < ?interval" using at(3) by simp_all
    ultimately show "w * ?interval \<le> now - next_due_us p" "now - next_due_us p < w * ?interval + ?interval" by linarith+
    show "0 \<le> w" using now(2) at(3) by (simp add: w_def pos_imp_zdiv_nonneg_iff)
    show "opportunities_due p now = nat w + 1" by (simp add: opportunities_due_def w_def)
  qed
  have "int (n - 1) * ?interval \<le> w * ?interval" using n(1,3) w(1,4) at(3) by (intro mult_right_mono) linarith+
  then have early: "deadline t0 (pe_options p) (?s + (n - 1)) \<le> now" using w(2) by (simp add: deadline_add at(2))
  have minus: "?s + n - 1 = ?s + (n - 1)" using n(1) by linarith
  show "deadline t0 (pe_options p) (unat (pe_scheduled q) - 1) \<le> now" unfolding scheduled minus by (rule early)
  have late: "now < deadline t0 (pe_options p) (?s + n)" if "\<not> last_opportunity p now"
  proof -
    have "n = nat w + 1" using that w(4) by (simp add: n_def taken_count_def last_opportunity_def)
    then have "int n * ?interval = w * ?interval + ?interval" using w(1) by (simp add: algebra_simps)
    then show ?thesis using w(3) by (simp add: deadline_add at(2))
  qed
  have last: "last_opportunity p now \<longleftrightarrow> \<not> ?s + n < opportunities (pe_options p)"
    using n(2) at(1) by (auto simp: last_opportunity_def n_def taken_count_def min_def)
  show "now < deadline t0 (pe_options p) (unat (pe_scheduled q))" if "unat (pe_scheduled q) < opportunities (pe_options p)"
    using late that unfolding scheduled last by blast
  have same: "pe_options q = pe_options p" by (simp add: q_def)
  have basic: "pe_generation q \<noteq> 0" "1000 \<le> uint (po_interval_us (pe_options q))" "0 \<le> last_observed_us q" "last_observed_us q \<le> INT64_MAX"
    using time [unfolded periodic_on_time_def] now(1,3) unfolding q_def take_sel by linarith+
  show "periodic_on_time t0 q"
  proof (cases "last_opportunity p now")
    case True
    then have "\<not> pe_running q" "next_due_us q = next_due_us p" using running by (simp_all add: q_def)
    then show ?thesis using basic time by (simp add: periodic_on_time_def)
  next
    case False
    then have next_due: "next_due_us q = deadline t0 (pe_options p) (?s + n)" by (simp add: q_def n_def [symmetric] deadline_add at(2))
    have "0 \<le> int n * ?interval" using at(3) by simp
    then have "0 \<le> next_due_us q" "next_due_us q \<le> INT64_MAX"
      using False fits at(2,4) unfolding next_due deadline_add by (simp_all add: n_def)
    moreover have "?s + n < opportunities (pe_options p)" using False last by blast
    moreover have "deadline t0 (pe_options p) (?s + (n - 1)) \<le> last_observed_us q" using early by (simp add: q_def)
    ultimately show ?thesis using basic unfolding periodic_on_time_def same scheduled minus next_due by simp
  qed
qed

lemma serve_step:
  fixes busy :: bool and out :: periodic_ticket
  assumes books: "periodic_books_with 1 q" and time: "periodic_on_time t0 q"
  defines "s \<equiv> periodic_serve q busy out"
  shows "periodic_books (snd (snd s))" "periodic_on_time t0 (snd (snd s))" "pe_options (snd (snd s)) = pe_options q"
    "pe_generation (snd (snd s)) = pe_generation q" "pe_scheduled (snd (snd s)) = pe_scheduled q"
    "if fst s = ISSUE then outstanding (pe_active q) = 0 \<and> fst (snd s) = \<lparr>pt_generation = pe_generation q, pt_sequence = pe_scheduled q\<rparr>
     else fst (snd s) = out"
proof -
  note sum = books [unfolded periodic_books_with_def]
  have bound: "opportunities (pe_options q) < 2 ^ 32" by (rule opportunities_bound)
  have inc: "unat (x + 1 :: u32) = unat x + 1" if "unat x < unat (pe_scheduled q)" for x
    using that unat_add_below [of x 1 "pe_scheduled q"] by simp
  have sched: "0 < unat (pe_scheduled q)" using sum by linarith
  have late: "unat (pe_skipped_busy q) < unat (pe_scheduled q)" "unat (pe_issued q) < unat (pe_scheduled q)" using sum by linarith+
  have seq: "pe_scheduled q \<noteq> 0" using sched by (simp flip: unat_gt_0)
  show "periodic_books (snd (snd s))"
  proof (cases "busy \<or> pt_sequence (pe_active q) \<noteq> 0")
    case True
    then show ?thesis using sum inc [OF late(1)]
      by (simp add: s_def periodic_serve_def periodic_books_with_def outstanding_def)
  next
    case False
    then have "outstanding (pe_active q) = 0" by (simp add: outstanding_def)
    then show ?thesis using False sum inc [OF late(2)] seq
      by (auto simp: s_def periodic_serve_def periodic_books_with_def outstanding_def Let_def)
  qed
  show "periodic_on_time t0 (snd (snd s))"
    using time by (auto simp: s_def periodic_serve_def periodic_on_time_def Let_def)
  show "pe_options (snd (snd s)) = pe_options q" "pe_generation (snd (snd s)) = pe_generation q" "pe_scheduled (snd (snd s)) = pe_scheduled q"
    by (simp_all add: s_def periodic_serve_def Let_def)
  show "if fst s = ISSUE then outstanding (pe_active q) = 0 \<and> fst (snd s) = \<lparr>pt_generation = pe_generation q, pt_sequence = pe_scheduled q\<rparr>
     else fst (snd s) = out"
    by (simp add: s_def periodic_serve_def Let_def outstanding_def)
qed

definition periodic_inv :: "int \<Rightarrow> periodic \<Rightarrow> bool" where
  "periodic_inv t0 p \<longleftrightarrow> periodic_books p \<and> periodic_on_time t0 p"

text \<open>What a due call at \<open>now\<close> that issues a ticket promises about it.\<close>

definition issue_ok :: "int \<Rightarrow> periodic \<Rightarrow> int \<Rightarrow> periodic_ticket \<Rightarrow> bool" where
  "issue_ok t0 p now t \<longleftrightarrow>
     pt_generation t = pe_generation p \<and> unat (pe_scheduled p) < unat (pt_sequence t) \<and> outstanding (pe_active p) = 0 \<and>
     deadline t0 (pe_options p) (unat (pt_sequence t) - 1) \<le> now \<and>
     (unat (pt_sequence t) < opportunities (pe_options p) \<longrightarrow> now < deadline t0 (pe_options p) (unat (pt_sequence t)))"

lemma halted_inv:
  assumes "periodic_inv t0 p"
  shows "periodic_inv t0 (p\<lparr>pe_running := False\<rparr>)" "periodic_inv t0 (p\<lparr>pe_running := False, pe_faulted := f\<rparr>)"
    "periodic_inv t0 (p\<lparr>pe_running := False, pe_closing := f\<rparr>)"
    "pe_running p \<Longrightarrow> last_observed_us p \<le> now \<Longrightarrow> now \<le> INT64_MAX \<Longrightarrow> periodic_inv t0 (periodic_exhausted (p\<lparr>last_observed_us := now\<rparr>))"
    "pe_running p \<Longrightarrow> last_observed_us p \<le> now \<Longrightarrow> now \<le> INT64_MAX \<Longrightarrow> periodic_inv t0 (p\<lparr>last_observed_us := now\<rparr>)"
  using assms by (auto simp: periodic_inv_def periodic_books_with_def periodic_on_time_def periodic_exhausted_def)

lemma due_step:
  assumes inv: "periodic_inv t0 p" and now: "now \<le> INT64_MAX"
    and step: "periodic_due aliases p now busy out = (r, t', p')"
  shows "periodic_inv t0 p' \<and> pe_options p' = pe_options p \<and> pe_generation p' = pe_generation p \<and>
    pe_scheduled p \<le> pe_scheduled p' \<and>
    (if r = ISSUE then issue_ok t0 p now t' \<and> pt_sequence t' = pe_scheduled p' else t' = out)"
proof (cases "aliases \<or> pt_generation out \<noteq> 0 \<or> pt_sequence out \<noteq> 0 \<or> pe_generation p = 0 \<or> now < 0 \<or> \<not> pe_running p \<or>
    now < last_observed_us p \<or> now < next_due_us p")
  case True
  then consider "p' = p" "r \<noteq> ISSUE" "t' = out" | "p' = p\<lparr>pe_running := False, pe_faulted := True\<rparr>" "r \<noteq> ISSUE" "t' = out"
    | "p' = p\<lparr>last_observed_us := now\<rparr>" "r \<noteq> ISSUE" "t' = out" "pe_running p" "last_observed_us p \<le> now"
  proof (cases "aliases \<or> pt_generation out \<noteq> 0 \<or> pt_sequence out \<noteq> 0 \<or> pe_generation p = 0 \<or> now < 0")
    case args: True
    have "periodic_due aliases p now busy out = (INVALID, out, p)" unfolding periodic_due_def if_P [OF args] ..
    then show ?thesis using step that(1) by simp
  next
    case args: False
    consider (stopped) "\<not> pe_running p" | (backwards) "\<not> \<not> pe_running p" "now < last_observed_us p"
      | (early) "\<not> \<not> pe_running p" "\<not> now < last_observed_us p" "now < next_due_us p" using True args by blast
    then show ?thesis
    proof cases
      case stopped
      have "periodic_due aliases p now busy out = (HALTED, out, p)"
        unfolding periodic_due_def if_not_P [OF args] if_P [OF stopped] ..
      then show ?thesis using step that(1) by simp
    next
      case backwards
      have "periodic_due aliases p now busy out = (HALTED, out, p\<lparr>pe_running := False, pe_faulted := True\<rparr>)"
        unfolding periodic_due_def if_not_P [OF args] if_not_P [OF backwards(1)] if_P [OF backwards(2)] ..
      then show ?thesis using step that(2) by simp
    next
      case early
      have "now < next_due_us (p\<lparr>last_observed_us := now\<rparr>)" using early(3) by simp
      then have "periodic_due aliases p now busy out = (NOT_DUE, out, p\<lparr>last_observed_us := now\<rparr>)"
        unfolding periodic_due_def if_not_P [OF args] if_not_P [OF early(1)] if_not_P [OF early(2)] Let_def by (rule if_P)
      then show ?thesis using step that(3) early by simp
    qed
  qed
  then show ?thesis using inv halted_inv [OF inv] now by cases simp_all
next
  case False
  then have args: "\<not> aliases" "pt_generation out = 0" "pt_sequence out = 0" and running: "pe_running p"
    and times: "last_observed_us p \<le> now" "next_due_us p \<le> now" by auto
  have books: "periodic_books p" and time: "periodic_on_time t0 p" using inv by (simp_all add: periodic_inv_def)
  note code = due_taken [OF running books time args times now, of busy]
  show ?thesis
  proof (cases "\<not> last_opportunity p now \<and> INT64_MAX - next_due_us p < int (taken_count p now) * uint (po_interval_us (pe_options p))")
    case True
    then have "p' = periodic_exhausted (p\<lparr>last_observed_us := now\<rparr>)" "r = HALTED" "t' = out" using step unfolding code by auto
    then show ?thesis using halted_inv(4) [OF inv running times(1) now] by (simp add: periodic_exhausted_def)
  next
    case fits: False
    let ?q = "periodic_take p now"
    note take = take_step [OF running books time times now fits]
    have books1: "periodic_books_with 1 ?q"
      using books take(1-4) running opportunities_bound(1) [of "pe_options p"]
      unfolding periodic_books_with_def
      by (auto simp: word_le_nat_alt)
    have s: "periodic_serve ?q busy out = (r, t', p')" using code [unfolded if_not_P [OF fits]] step by (rule trans [OF sym])
    note serve = serve_step [OF books1 take(5), of busy out, unfolded s fst_conv snd_conv]
    have "pe_scheduled p \<le> pe_scheduled p'" using serve(5) take(1) unfolding word_le_nat_alt by simp
    moreover have "issue_ok t0 p now t' \<and> pt_sequence t' = pe_scheduled p'" if "r = ISSUE"
      using serve(5,6) that take(1,2,6,7) by (auto simp: issue_ok_def outstanding_def)
    ultimately show ?thesis using serve(1-4,6) by (auto simp: periodic_inv_def)
  qed
qed

section \<open>The other calls\<close>

text \<open>An exact ticket is the outstanding one, so the counter of its end does not wrap.\<close>

lemma exact_outstanding:
  assumes "periodic_inv t0 p" "periodic_exact aliases p t"
  shows "outstanding (pe_active p) = 1" "t = pe_active p"
    "unat (pe_issued p) = unat (pe_completed p) + unat (pe_rejected p) + unat (pe_aborted p) + unat (pe_dropped p) + 1"
    "unat (pe_failed p) + unat (pe_unknown p) \<le> unat (pe_completed p)"
    "unat (pe_scheduled p) = unat (pe_issued p) + unat (pe_skipped_late p) + unat (pe_skipped_busy p)"
    "pe_active_submitted p \<Longrightarrow> unat (pe_completed p) + 1 \<le> unat (pe_submitted p) \<and> unat (pe_submitted p) \<le> unat (pe_completed p) + unat (pe_aborted p) + 1"
    "\<not> pe_active_submitted p \<Longrightarrow> unat (pe_completed p) \<le> unat (pe_submitted p) \<and> unat (pe_submitted p) \<le> unat (pe_completed p) + unat (pe_aborted p)"
  using assms by (auto simp: periodic_inv_def periodic_books_with_def periodic_exact_def outstanding_def)

lemma on_time_cong:
  assumes "periodic_on_time t0 p" "pe_options q = pe_options p" "pe_generation q = pe_generation p" "next_due_us q = next_due_us p"
    "last_observed_us q = last_observed_us p" "pe_scheduled q = pe_scheduled p" "pe_running q \<Longrightarrow> pe_running p"
  shows "periodic_on_time t0 q"
  using assms unfolding periodic_on_time_def by auto

text \<open>A ledger whose ticket has ended keeps the invariant when its sums are right.\<close>

lemma ended_inv:
  assumes inv: "periodic_inv t0 p"
    and same: "pe_options q = pe_options p" "pe_generation q = pe_generation p" "next_due_us q = next_due_us p"
      "last_observed_us q = last_observed_us p" "pe_scheduled q = pe_scheduled p" "pe_running q \<Longrightarrow> pe_running p"
    and ended: "pe_active q = no_periodic_ticket" "\<not> pe_active_submitted q" "\<not> pe_uncertain q"
    and sums: "unat (pe_issued q) + unat (pe_skipped_late q) + unat (pe_skipped_busy q) = unat (pe_scheduled p)"
      "unat (pe_issued q) = unat (pe_completed q) + unat (pe_rejected q) + unat (pe_aborted q) + unat (pe_dropped q)"
      "unat (pe_failed q) + unat (pe_unknown q) \<le> unat (pe_completed q)"
      "unat (pe_completed q) \<le> unat (pe_submitted q)" "unat (pe_submitted q) \<le> unat (pe_completed q) + unat (pe_aborted q)"
  shows "periodic_inv t0 q \<and> pe_options q = pe_options p \<and> pe_generation q = pe_generation p \<and> pe_scheduled q = pe_scheduled p"
proof -
  have "periodic_on_time t0 q" using on_time_cong [OF _ same] inv by (simp add: periodic_inv_def)
  moreover have "unat (pe_scheduled p) \<le> opportunities (pe_options p)" using inv by (simp add: periodic_inv_def periodic_books_with_def)
  then have "periodic_books q" using same ended sums by (simp add: periodic_books_with_def outstanding_def no_periodic_ticket_def)
  ultimately show ?thesis using same by (simp add: periodic_inv_def)
qed

lemma counter_inc: "unat x < unat (y :: u32) \<Longrightarrow> unat (x + 1) = unat x + 1" for x :: u32
  using unat_add_below [of x 1 y] by simp

lemma outstanding_none [simp]: "outstanding no_periodic_ticket = 0"
  by (simp add: outstanding_def no_periodic_ticket_def)

lemma finish_cases:
  assumes "periodic_finish aliases p t outcome = (ok, t', p')"
  obtains "ok = False" "p' = p"
  | q where "periodic_exact aliases p t" "\<not> pe_uncertain p" "pe_active_submitted p"
      "q = p\<lparr>pe_completed := pe_completed p + 1, pe_active := no_periodic_ticket, pe_active_submitted := False\<rparr>"
      "p' \<in> {q, q\<lparr>pe_failed := pe_failed p + 1\<rparr>, q\<lparr>pe_failed := pe_failed p + 1, pe_running := False, pe_faulted := True\<rparr>, q\<lparr>pe_unknown := pe_unknown p + 1\<rparr>}"
  | q r where "periodic_exact aliases p t" "\<not> pe_uncertain p" "\<not> pe_active_submitted p" "q = p\<lparr>pe_active := no_periodic_ticket, pe_active_submitted := False\<rparr>"
      "r \<in> {q\<lparr>pe_rejected := pe_rejected p + 1\<rparr>, q\<lparr>pe_aborted := pe_aborted p + 1\<rparr>, q\<lparr>pe_dropped := pe_dropped p + 1\<rparr>}"
      "p' \<in> {r, r\<lparr>pe_running := False, pe_faulted := True\<rparr>}"
proof (cases "\<not> periodic_exact aliases p t \<or> (case outcome of Other_Outcome n \<Rightarrow> True | _ \<Rightarrow> False) \<or> pe_uncertain p \<or>
    (outcome = SUCCESS \<or> outcome = FAILED \<or> outcome = UNKNOWN) \<noteq> pe_active_submitted p")
  case True
  have "periodic_finish aliases p t outcome = (False, t, p)"
  proof (cases "\<not> periodic_exact aliases p t \<or> (case outcome of Other_Outcome n \<Rightarrow> True | _ \<Rightarrow> False) \<or> pe_uncertain p")
    case refused: True
    show ?thesis unfolding periodic_finish_def if_P [OF refused] ..
  next
    case exact: False
    then have mismatch: "(outcome = SUCCESS \<or> outcome = FAILED \<or> outcome = UNKNOWN) \<noteq> pe_active_submitted p" using True by blast
    show ?thesis unfolding periodic_finish_def if_not_P [OF exact] Let_def if_P [OF mismatch] ..
  qed
  then show thesis using assms that(1) by simp
next
  case False
  then have exact: "periodic_exact aliases p t" and certain: "\<not> pe_uncertain p" by auto
  have stop: "po_stop_on_error (pe_options p) \<or> \<not> po_stop_on_error (pe_options p)" by blast
  show thesis
  proof (cases outcome)
    case SUCCESS
    then have "pe_active_submitted p" using False by auto
    then show thesis using assms that(2) [OF exact certain _ refl] exact certain SUCCESS by (simp add: periodic_finish_def Let_def)
  next
    case FAILED
    then have "pe_active_submitted p" using False by auto
    then show thesis using assms that(2) [OF exact certain _ refl] exact certain FAILED stop by (auto simp: periodic_finish_def Let_def)
  next
    case UNKNOWN
    then have "pe_active_submitted p" using False by auto
    then show thesis using assms that(2) [OF exact certain _ refl] exact certain UNKNOWN by (auto simp: periodic_finish_def Let_def)
  next
    case REJECTED
    then have no: "\<not> pe_active_submitted p" using False by auto
    show thesis using assms exact certain REJECTED no stop by (intro that(3) [OF exact certain no refl insertI1]) (auto simp: periodic_finish_def Let_def)
  next
    case ABORTED
    then have no: "\<not> pe_active_submitted p" using False by auto
    show thesis using assms exact certain ABORTED no by (intro that(3) [OF exact certain no refl insertI2 [OF insertI1]]) (auto simp: periodic_finish_def Let_def)
  next
    case DROPPED
    then have no: "\<not> pe_active_submitted p" using False by auto
    show thesis using assms exact certain DROPPED no stop by (intro that(3) [OF exact certain no refl insertI2 [OF insertI2 [OF insertI1]]]) (auto simp: periodic_finish_def Let_def)
  next
    case (Other_Outcome n)
    then show thesis using False by simp
  qed
qed

lemma finish_step:
  assumes inv: "periodic_inv t0 p" and step: "periodic_finish aliases p t outcome = (ok, t', p')"
  shows "periodic_inv t0 p' \<and> pe_options p' = pe_options p \<and> pe_generation p' = pe_generation p \<and> pe_scheduled p' = pe_scheduled p"
  using step
proof (cases rule: finish_cases)
  case 1
  then show ?thesis using inv by simp
next
  case (2 q)
  note out = exact_outstanding [OF inv 2(1)]
  have incs: "unat (pe_completed p + 1) = unat (pe_completed p) + 1" "unat (pe_failed p + 1) = unat (pe_failed p) + 1"
    "unat (pe_unknown p + 1) = unat (pe_unknown p) + 1"
    by (rule counter_inc [of _ "pe_issued p"]; use out(3,4) in linarith)+
  from 2(5) show ?thesis
    by (elim insertE emptyE; use inv in \<open>rule ended_inv\<close>)
      (use incs out(3,4,5) out(6) [OF 2(3)] 2(2) in \<open>simp_all add: 2(4)\<close>)
next
  case (3 q r)
  note out = exact_outstanding [OF inv 3(1)]
  have incs: "unat (pe_rejected p + 1) = unat (pe_rejected p) + 1" "unat (pe_aborted p + 1) = unat (pe_aborted p) + 1"
    "unat (pe_dropped p + 1) = unat (pe_dropped p) + 1"
    by (rule counter_inc [of _ "pe_issued p"]; use out(3,4) in linarith)+
  from 3(5) have r: "periodic_inv t0 r \<and> pe_options r = pe_options p \<and> pe_generation r = pe_generation p \<and> pe_scheduled r = pe_scheduled p"
    by (elim insertE emptyE; use inv in \<open>rule ended_inv\<close>)
      (use incs out(3,4,5) out(7) [OF 3(3)] 3(2) in \<open>simp_all add: 3(4)\<close>)
  then show ?thesis using 3(6) halted_inv(2) [of t0 r True] by auto
qed

lemma busy_step:
  assumes inv: "periodic_inv t0 p" and step: "periodic_busy aliases p t = (ok, t', p')"
  shows "periodic_inv t0 p' \<and> pe_options p' = pe_options p \<and> pe_generation p' = pe_generation p \<and> pe_scheduled p' = pe_scheduled p"
proof (cases "\<not> periodic_exact aliases p t \<or> pe_active_submitted p \<or> pe_uncertain p")
  case True
  then show ?thesis using step inv by (simp add: periodic_busy_def)
next
  case False
  then have exact: "periodic_exact aliases p t" by blast
  note out = exact_outstanding [OF inv exact]
  have "0 < pe_issued p" using out(3) by (simp add: word_less_nat_alt)
  then have dec: "unat (pe_issued p - 1) = unat (pe_issued p) - 1" by (rule unat_dec)
  have "unat (pe_skipped_busy p) < unat (pe_scheduled p)" using out(3,5) by linarith
  then have inc: "unat (pe_skipped_busy p + 1) = unat (pe_skipped_busy p) + 1" by (rule counter_inc)
  have p': "p' = p\<lparr>pe_issued := pe_issued p - 1, pe_skipped_busy := pe_skipped_busy p + 1,
        pe_running := (pe_running p \<and> po_busy (pe_options p) \<noteq> BUSY_STOP), pe_active := no_periodic_ticket\<rparr>"
    using step unfolding periodic_busy_def if_not_P [OF False] by simp
  have "\<not> pe_active_submitted p" "\<not> pe_uncertain p" using False by auto
  then show ?thesis unfolding p'
    by (intro ended_inv [OF inv]) (use out(3,4,5) out(7) dec inc in simp_all)
qed

lemma terminated_step:
  assumes inv: "periodic_inv t0 p" and step: "periodic_terminated aliases p t accepted = (ok, t', p')"
  shows "periodic_inv t0 p' \<and> pe_options p' = pe_options p \<and> pe_generation p' = pe_generation p \<and> pe_scheduled p' = pe_scheduled p"
proof (cases "\<not> periodic_exact aliases p t \<or> pe_active_submitted p \<and> \<not> accepted")
  case True
  then show ?thesis using step inv by (simp add: periodic_terminated_def)
next
  case False
  then have exact: "periodic_exact aliases p t" by blast
  note out = exact_outstanding [OF inv exact]
  have incs: "unat (pe_aborted p + 1) = unat (pe_aborted p) + 1"
    by (rule counter_inc [of _ "pe_issued p"]) (use out(3) in linarith)
  have p': "p' = p\<lparr>pe_submitted := (if accepted \<and> \<not> pe_active_submitted p then pe_submitted p + 1 else pe_submitted p),
          pe_aborted := pe_aborted p + 1, pe_running := False, pe_uncertain := False,
          pe_active := no_periodic_ticket, pe_active_submitted := False\<rparr>"
    using step unfolding periodic_terminated_def if_not_P [OF False] by simp
  show ?thesis
  proof (cases "pe_active_submitted p")
    case True
    then show ?thesis unfolding p' by (intro ended_inv [OF inv]) (use out(3,4,5) out(6) incs in simp_all)
  next
    case False
    have "unat (pe_submitted p + 1) = unat (pe_submitted p) + 1"
      by (rule counter_inc [of _ "pe_issued p"]) (use out(3) out(7) [OF False] in linarith)
    then show ?thesis unfolding p' by (intro ended_inv [OF inv]) (use out(3,4,5) out(7) False incs in simp_all)
  qed
qed

lemma submitted_step:
  assumes inv: "periodic_inv t0 p" and step: "periodic_submitted aliases p t = (ok, p')"
  shows "periodic_inv t0 p' \<and> pe_options p' = pe_options p \<and> pe_generation p' = pe_generation p \<and> pe_scheduled p' = pe_scheduled p"
proof (cases "\<not> periodic_exact aliases p t \<or> pe_active_submitted p \<or> pe_uncertain p")
  case True
  then show ?thesis using step inv by (simp add: periodic_submitted_def)
next
  case False
  then have exact: "periodic_exact aliases p t" and no: "\<not> pe_active_submitted p" "\<not> pe_uncertain p" by auto
  have p': "p' = p\<lparr>pe_active_submitted := True, pe_submitted := pe_submitted p + 1\<rparr>"
    using step unfolding periodic_submitted_def if_not_P [OF False] by simp
  note out = exact_outstanding [OF inv exact]
  have inc: "unat (pe_submitted p + 1) = unat (pe_submitted p) + 1"
    by (rule counter_inc [of _ "pe_issued p"]) (use out(3) out(7) [OF no(1)] in linarith)
  have "periodic_on_time t0 p'" using on_time_cong [of t0 p p'] inv by (simp add: p' periodic_inv_def)
  moreover have "periodic_books p" using inv by (simp add: periodic_inv_def)
  then have "periodic_books p'"
    using no out(1) inc unfolding p' periodic_books_with_def by (simp del: One_nat_def)
  ultimately show ?thesis by (simp add: periodic_inv_def p')
qed

lemma uncertain_step:
  assumes inv: "periodic_inv t0 p" and step: "periodic_uncertain aliases p t = (ok, p')"
  shows "periodic_inv t0 p' \<and> pe_options p' = pe_options p \<and> pe_generation p' = pe_generation p \<and> pe_scheduled p' = pe_scheduled p"
proof (cases "\<not> periodic_exact aliases p t")
  case True
  then show ?thesis using step inv by (simp add: periodic_uncertain_def)
next
  case False
  then have p': "p' = p\<lparr>pe_running := False, pe_faulted := True, pe_uncertain := True\<rparr>"
    using step by (simp add: periodic_uncertain_def)
  have "periodic_on_time t0 p'" using on_time_cong [of t0 p p'] inv by (simp add: p' periodic_inv_def)
  moreover have "periodic_books p'"
    using inv exact_outstanding(1) [OF inv, of aliases t] False unfolding p' periodic_inv_def periodic_books_with_def by (simp del: One_nat_def)
  ultimately show ?thesis by (simp add: periodic_inv_def p')
qed

section \<open>Runs\<close>

lemma sint_bound: "sint (w :: u64) \<le> INT64_MAX"
  using sint_less [of w] by (simp add: INT64_MAX_def)

definition step_ok :: "int \<Rightarrow> periodic \<Rightarrow> periodic_call \<Rightarrow> periodic_answer \<Rightarrow> periodic \<Rightarrow> bool" where
  "step_ok t0 p c r p' \<longleftrightarrow>
     periodic_inv t0 p' \<and> pe_options p' = pe_options p \<and> pe_generation p' = pe_generation p \<and> pe_scheduled p \<le> pe_scheduled p' \<and>
     (\<forall>a now busy t t'. c = Due a now busy t \<longrightarrow> r = Due_Answer ISSUE t' \<longrightarrow> issue_ok t0 p (sint now) t' \<and> pt_sequence t' = pe_scheduled p')"

lemma apply_step:
  assumes inv: "periodic_inv t0 p" and step: "periodic_apply c p = (r, p')"
  shows "step_ok t0 p c r p'"
proof (cases c)
  case (Due a now busy t)
  obtain d t' q where q: "periodic_due a p (sint now) busy t = (d, t', q)" by (cases "periodic_due a p (sint now) busy t")
  then have "p' = q" "r = Due_Answer d t'" using step by (simp_all add: Due)
  then show ?thesis using due_step [OF inv sint_bound q] by (auto simp: step_ok_def Due)
next
  case (Submitted a t)
  then show ?thesis using step submitted_step [OF inv, of a t] by (auto simp: step_ok_def split: prod.splits)
next
  case (Finish a t outcome)
  then show ?thesis using step finish_step [OF inv, of a t outcome] by (auto simp: step_ok_def split: prod.splits)
next
  case (Busy a t)
  then show ?thesis using step busy_step [OF inv, of a t] by (auto simp: step_ok_def split: prod.splits)
next
  case (Uncertain a t)
  then show ?thesis using step uncertain_step [OF inv, of a t] by (auto simp: step_ok_def split: prod.splits)
next
  case (Terminated a t accepted)
  then show ?thesis using step terminated_step [OF inv, of a t accepted] by (auto simp: step_ok_def split: prod.splits)
next
  case Stop
  then show ?thesis using step halted_inv(1) [OF inv] by (auto simp: step_ok_def periodic_stop_def)
next
  case Close
  then show ?thesis using step halted_inv(3) [OF inv, of True] by (auto simp: step_ok_def periodic_close_def)
next
  case Drained
  then show ?thesis using step inv by (auto simp: step_ok_def)
qed

lemma started_inv:
  assumes "periodic_init out generation options now = (True, p)"
  shows "periodic_inv now p" "pe_options p = options" "pe_generation p = generation" "pe_scheduled p = 0"
proof -
  have p: "p = periodic_started generation options now" and args: "generation \<noteq> 0" "0 \<le> now" "\<not> po_interval_us options < 1000"
      "uint (po_start_delay_us options) \<le> INT64_MAX - now"
    using assms by (auto simp: periodic_init_def PERIODIC_MIN_INTERVAL_US_def split: if_splits)
  have "1000 \<le> uint (po_interval_us options)" using args(3) by (simp add: word_less_def)
  moreover have "0 \<le> uint (po_start_delay_us options)" by simp
  then have "now \<le> INT64_MAX" using args(4) by linarith
  ultimately show "periodic_inv now p"
    using args opportunities_bound(2) [of options] unfolding p
    by (simp add: periodic_inv_def periodic_books_with_def periodic_on_time_def periodic_started_def deadline_def outstanding_def no_periodic_ticket_def)
  show "pe_options p = options" "pe_generation p = generation" "pe_scheduled p = 0" by (simp_all add: p periodic_started_def)
qed

lemma run_inv: "periodic_inv t0 p \<Longrightarrow> periodic_inv t0 (after_calls periodic_apply calls p) \<and> pe_options (after_calls periodic_apply calls p) = pe_options p"
proof (induction calls arbitrary: p)
  case (Cons c calls)
  obtain r p' where s: "periodic_apply c p = (r, p')" by (cases "periodic_apply c p")
  from apply_step [OF Cons.prems s] Cons.IH [of p'] show ?case by (simp add: step_ok_def s)
qed simp

text \<open>The tickets a run issues, with the times of the calls.\<close>

fun issue_log :: "periodic_call list \<Rightarrow> periodic_answer list \<Rightarrow> (int \<times> periodic_ticket) list" where
  "issue_log (Due a now busy t # cs) (Due_Answer ISSUE t' # rs) = (sint now, t') # issue_log cs rs"
| "issue_log (c # cs) (r # rs) = issue_log cs rs"
| "issue_log _ _ = []"

lemma issue_log_step:
  "issue_log (c # cs) (r # rs) = issue_log cs rs \<or>
   (\<exists>a now busy t t'. c = Due a now busy t \<and> r = Due_Answer ISSUE t' \<and> issue_log (c # cs) (r # rs) = (sint now, t') # issue_log cs rs)"
  by (cases "(c # cs, r # rs)" rule: issue_log.cases) auto

definition ticket_on_time :: "int \<Rightarrow> periodic_options \<Rightarrow> u32 \<Rightarrow> int \<times> periodic_ticket \<Rightarrow> bool" where
  "ticket_on_time t0 options generation entry \<longleftrightarrow>
     (case entry of (now, t) \<Rightarrow> pt_generation t = generation \<and> 0 < unat (pt_sequence t) \<and> unat (pt_sequence t) \<le> opportunities options \<and>
        deadline t0 options (unat (pt_sequence t) - 1) \<le> now \<and>
        (unat (pt_sequence t) < opportunities options \<longrightarrow> now < deadline t0 options (unat (pt_sequence t))))"

lemma run_log:
  assumes "periodic_inv t0 p"
  defines "log \<equiv> \<lambda>cs p. issue_log cs (call_outputs periodic_apply cs p)"
  shows "sorted_wrt (\<lambda>a b. pt_sequence (snd a) < pt_sequence (snd b)) (log calls p) \<and>
    (\<forall>e \<in> set (log calls p). pe_scheduled p < pt_sequence (snd e) \<and> ticket_on_time t0 (pe_options p) (pe_generation p) e)"
  using assms(1)
proof (induction calls arbitrary: p)
  case (Cons c calls)
  obtain r p' where s: "periodic_apply c p = (r, p')" by (cases "periodic_apply c p")
  have ok: "step_ok t0 p c r p'" by (rule apply_step [OF Cons.prems s])
  then have IH: "sorted_wrt (\<lambda>a b. pt_sequence (snd a) < pt_sequence (snd b)) (log calls p')"
    "\<forall>e \<in> set (log calls p'). pe_scheduled p' < pt_sequence (snd e) \<and> ticket_on_time t0 (pe_options p) (pe_generation p) e"
    using Cons.IH [of p'] by (auto simp: step_ok_def)
  have mono: "pe_scheduled p \<le> pe_scheduled p'" using ok by (simp add: step_ok_def)
  have out: "call_outputs periodic_apply (c # calls) p = r # call_outputs periodic_apply calls p'" by (simp add: s)
  consider "log (c # calls) p = log calls p'"
    | a now busy t t' where "c = Due a now busy t" "r = Due_Answer ISSUE t'" "log (c # calls) p = (sint now, t') # log calls p'"
    using issue_log_step [of c calls r "call_outputs periodic_apply calls p'"] unfolding log_def out by blast
  then show ?case
  proof cases
    case 1
    then show ?thesis using IH mono by (auto intro: order.strict_trans1)
  next
    case 2
    then have issue: "issue_ok t0 p (sint now) t'" "pt_sequence t' = pe_scheduled p'" using ok by (auto simp: step_ok_def)
    have "periodic_books p'" using ok by (simp add: step_ok_def periodic_inv_def)
    then have "unat (pe_scheduled p') \<le> opportunities (pe_options p')" unfolding periodic_books_with_def by blast
    then have "ticket_on_time t0 (pe_options p) (pe_generation p) (sint now, t')"
      using issue ok by (auto simp: ticket_on_time_def issue_ok_def step_ok_def)
    moreover have "pe_scheduled p < pt_sequence t'" using issue(1) by (simp add: issue_ok_def word_less_nat_alt)
    ultimately show ?thesis unfolding 2(3) using IH mono issue(2) by (auto intro: order.strict_trans1)
  qed
qed (simp add: log_def)

section \<open>Properties\<close>

text \<open>
  C20: The ledger never drifts and never loses count.  After any calls, at any times and with any
  tickets, while it runs the next deadline is exactly the start plus the opportunities taken times the
  interval, and all earlier ones lie in the past; every opportunity taken was issued or counted as
  skipped, every ticket is outstanding (at most one) or has ended in one way, and no counter and no
  time stamp has overflowed.
\<close>

theorem raw_tx_periodic_never_drifts:
  assumes "periodic_init out generation options now = (True, p)"
  shows "periodic_on_time now (after_calls periodic_apply calls p) \<and> periodic_books (after_calls periodic_apply calls p)"
  using run_inv [OF started_inv(1) [OF assms]] by (simp add: periodic_inv_def)

text \<open>
  C21: Every ticket a run issues is on time.  Ticket number \<open>k\<close> is issued no earlier than the \<open>k\<close>-th
  deadline and, unless it is the last one, before the next, so a late caller gets only the newest
  opportunity; numbers strictly increase and stay within the requested count.
\<close>

theorem raw_tx_periodic_issues_on_time:
  assumes "periodic_init out generation options now = (True, p)"
  shows "sorted_wrt (\<lambda>a b. pt_sequence (snd a) < pt_sequence (snd b)) (issue_log calls (call_outputs periodic_apply calls p)) \<and>
    (\<forall>e \<in> set (issue_log calls (call_outputs periodic_apply calls p)). ticket_on_time now options generation e)"
  using run_log [OF started_inv(1) [OF assms], of calls] started_inv(2,3) [OF assms] by simp

text \<open>Every 2000 microseconds, five times, starting 500 microseconds after time 10.\<close>

definition example_options :: periodic_options where
  "example_options = \<lparr>po_interval_us = 2000, po_start_delay_us = 500, po_count = 5, po_busy = BUSY_SKIP, po_stop_on_error = False\<rparr>"

definition example_empty :: periodic where
  "example_empty = (periodic_started 0 example_options 0)"

lemma example_init: "periodic_init example_empty 7 example_options 10 = (True, periodic_started 7 example_options 10)"
  by (simp add: periodic_init_def example_empty_def periodic_started_def example_options_def PERIODIC_MIN_INTERVAL_US_def INT64_MAX_def)

lemma raw_tx_periodic_never_drifts_witness:
  "periodic_on_time 10 (after_calls periodic_apply [Due False 9000 False no_periodic_ticket, Stop] (periodic_started 7 example_options 10)) \<and>
   periodic_books (after_calls periodic_apply [Due False 9000 False no_periodic_ticket, Stop] (periodic_started 7 example_options 10))"
  by (rule raw_tx_periodic_never_drifts [OF example_init])

definition example_calls :: "periodic_call list" where
  "example_calls = [Due False 400 False no_periodic_ticket, Due False 3000 False no_periodic_ticket, Due False 3100 True no_periodic_ticket]"

lemma raw_tx_periodic_issues_on_time_witness:
  "issue_log example_calls (call_outputs periodic_apply example_calls (periodic_started 7 example_options 10)) =
      [(3000, \<lparr>pt_generation = 7, pt_sequence = 2\<rparr>)] \<and>
    ticket_on_time 10 example_options 7 (3000, \<lparr>pt_generation = 7, pt_sequence = 2\<rparr>)"
proof -
  have log: "issue_log example_calls (call_outputs periodic_apply example_calls (periodic_started 7 example_options 10)) =
      [(3000, \<lparr>pt_generation = 7, pt_sequence = 2\<rparr>)]" by code_simp
  with raw_tx_periodic_issues_on_time [OF example_init, of example_calls] show ?thesis by simp
qed

end
