(* ===== verification/Wifi_Rx.thy ===== *)
theory Wifi_Rx
  imports Prelude "HOL-Library.Monad_Syntax"
begin

text \<open>
  \<open>modules/wifi_common/esp32_mquickjs_wifi_rx.c\<close>: the parser of IEEE 802.11 MAC headers that
  every received packet and every raw frame to be sent goes through.  The bytes behind the pointer
  are a list; a read outside of it, which C leaves undefined, makes the whole result \<open>None\<close>.
\<close>

section \<open>Headers\<close>

datatype packet_type = MANAGEMENT | CONTROL | DATA | MISC | UNKNOWN

datatype parse_status = PARSED | INVALID_ARGUMENT | SHORT_HEADER | UNSUPPORTED_VERSION | UNSUPPORTED_LAYOUT | INVALID_FLAGS

datatype rx_address = SOURCE | DESTINATION | TRANSMITTER | RECEIVER | BSSID

fun rx_address_index :: "rx_address \<Rightarrow> nat" where
  "rx_address_index SOURCE = 0"
| "rx_address_index DESTINATION = 1"
| "rx_address_index TRANSMITTER = 2"
| "rx_address_index RECEIVER = 3"
| "rx_address_index BSSID = 4"

definition ADDRESS_COUNT :: nat where "ADDRESS_COUNT = 5"

record rx_header =
  rx_status :: parse_status
  rx_type :: packet_type
  rx_version :: u8
  rx_subtype :: u8
  rx_address_mask :: u8
  rx_addresses :: "bytes list"
  frame_control_valid :: bool
  duration_valid :: bool
  sequence_valid :: bool
  qos_valid :: bool
  ht_valid :: bool
  frame_control :: u16
  duration_id :: u16
  sequence_control :: u16
  qos_control :: u16
  ht_control :: u32
  header_length :: nat

definition s_management_names :: "string option list" where
  "s_management_names =
    [Some ''association-request'', Some ''association-response'', Some ''reassociation-request'', Some ''reassociation-response'',
     Some ''probe-request'', Some ''probe-response'', Some ''timing-advertisement'', None,
     Some ''beacon'', Some ''atim'', Some ''disassociation'', Some ''authentication'', Some ''deauthentication'',
     Some ''action'', Some ''action-no-ack'', None]"

definition s_control_names :: "string option list" where
  "s_control_names =
    [None, None, None, None, None, Some ''vht-ndp-announcement'', None, Some ''control-wrapper'',
     Some ''block-ack-request'', Some ''block-ack'', Some ''ps-poll'', Some ''rts'', Some ''cts'', Some ''ack'',
     Some ''cf-end'', Some ''cf-end-cf-ack'']"

definition s_data_names :: "string option list" where
  "s_data_names =
    [Some ''data'', Some ''data-cf-ack'', Some ''data-cf-poll'', Some ''data-cf-ack-cf-poll'',
     Some ''null'', Some ''cf-ack'', Some ''cf-poll'', Some ''cf-ack-cf-poll'',
     Some ''qos-data'', Some ''qos-data-cf-ack'', Some ''qos-data-cf-poll'', Some ''qos-data-cf-ack-cf-poll'',
     Some ''qos-null'', None, Some ''qos-cf-poll'', Some ''qos-cf-ack-cf-poll'']"

fun subtype_name :: "packet_type \<Rightarrow> u8 \<Rightarrow> string option" where
  "subtype_name type subtype =
     (if 16 \<le> subtype then None
      else case type of
          MANAGEMENT \<Rightarrow> s_management_names ! unat subtype
        | CONTROL \<Rightarrow> s_control_names ! unat subtype
        | DATA \<Rightarrow> s_data_names ! unat subtype
        | _ \<Rightarrow> None)"

declare subtype_name.simps [simp del]

section \<open>Reads\<close>

definition wifi_rx_u16 :: "bytes \<Rightarrow> nat \<Rightarrow> u16 option" where
  "wifi_rx_u16 bytes off =
     (if off + 1 < length bytes then Some (ucast (bytes ! off) OR push_bit 8 (ucast (bytes ! (off + 1)))) else None)"

definition wifi_rx_u32 :: "bytes \<Rightarrow> nat \<Rightarrow> u32 option" where
  "wifi_rx_u32 bytes off =
     (if off + 3 < length bytes
      then Some (ucast (bytes ! off) OR push_bit 8 (ucast (bytes ! (off + 1))) OR
        push_bit 16 (ucast (bytes ! (off + 2))) OR push_bit 24 (ucast (bytes ! (off + 3))))
      else None)"

definition wifi_rx_address :: "rx_header \<Rightarrow> rx_address \<Rightarrow> bytes \<Rightarrow> nat \<Rightarrow> rx_header option" where
  "wifi_rx_address h role bytes off =
     (if off + 6 \<le> length bytes
      then Some (h\<lparr>rx_addresses := (rx_addresses h)[rx_address_index role := take 6 (drop off bytes)],
        rx_address_mask := rx_address_mask h OR push_bit (rx_address_index role) 1\<rparr>)
      else None)"

section \<open>The parser\<close>

definition rx_header_reset :: rx_header where
  "rx_header_reset =
     \<lparr>rx_status = SHORT_HEADER, rx_type = UNKNOWN, rx_version = 0, rx_subtype = 0, rx_address_mask = 0,
      rx_addresses = replicate ADDRESS_COUNT (replicate 6 0), frame_control_valid = False, duration_valid = False,
      sequence_valid = False, qos_valid = False, ht_valid = False, frame_control = 0, duration_id = 0,
      sequence_control = 0, qos_control = 0, ht_control = 0, header_length = 0\<rparr>"

text \<open>The length of the header and the offsets of its optional fields, 0 for an absent one.\<close>

definition rx_layout :: "packet_type \<Rightarrow> u8 \<Rightarrow> bool \<Rightarrow> bool \<Rightarrow> bool \<Rightarrow> nat \<times> nat \<times> nat" where
  "rx_layout type subtype to_ds from_ds order =
     (if type = CONTROL
      then (if subtype = 12 \<or> subtype = 13 then 10 else 16, 0, if subtype = 7 then 12 else 0)
      else if type = DATA
      then let len = (if to_ds \<and> from_ds then 24 + 6 else 24)
           in if subtype AND 8 \<noteq> 0
              then (if order then (len + 2 + 4, len, len + 2) else (len + 2, len, 0))
              else (len, 0, 0)
      else if order then (24 + 4, 0, 24) else (24, 0, 0))"

definition rx_read_fields :: "rx_header \<Rightarrow> bytes \<Rightarrow> bool \<Rightarrow> bool \<Rightarrow> nat \<Rightarrow> nat \<Rightarrow> rx_header option" where
  "rx_read_fields h bytes to_ds from_ds qos_offset ht_offset =
     do {
       h \<leftarrow> wifi_rx_address h RECEIVER bytes 4;
       h \<leftarrow> (if rx_type h = CONTROL
         then do {
           h \<leftarrow> wifi_rx_address h DESTINATION bytes 4;
           if rx_subtype h \<noteq> 7 \<and> header_length h = 16
           then do {
             h \<leftarrow> wifi_rx_address h TRANSMITTER bytes 10;
             h \<leftarrow> wifi_rx_address h SOURCE bytes 10;
             if rx_subtype h = 10 then wifi_rx_address h BSSID bytes 4
             else if rx_subtype h = 14 \<or> rx_subtype h = 15 then wifi_rx_address h BSSID bytes 10
             else Some h
           }
           else Some h
         }
         else do {
           h \<leftarrow> wifi_rx_address h TRANSMITTER bytes 10;
           seq \<leftarrow> wifi_rx_u16 bytes 22;
           let h = h\<lparr>sequence_control := seq, sequence_valid := True\<rparr>;
           if \<not> to_ds \<and> \<not> from_ds
           then do {
             h \<leftarrow> wifi_rx_address h DESTINATION bytes 4;
             h \<leftarrow> wifi_rx_address h SOURCE bytes 10;
             wifi_rx_address h BSSID bytes 16
           }
           else if to_ds \<and> from_ds
           then do {
             h \<leftarrow> wifi_rx_address h DESTINATION bytes 16;
             wifi_rx_address h SOURCE bytes 24
           }
           else if to_ds
           then do {
             h \<leftarrow> wifi_rx_address h DESTINATION bytes 16;
             h \<leftarrow> wifi_rx_address h SOURCE bytes 10;
             wifi_rx_address h BSSID bytes 4
           }
           else do {
             h \<leftarrow> wifi_rx_address h DESTINATION bytes 4;
             h \<leftarrow> wifi_rx_address h SOURCE bytes 16;
             wifi_rx_address h BSSID bytes 10
           }
         });
       h \<leftarrow> (if qos_offset \<noteq> 0
         then do { v \<leftarrow> wifi_rx_u16 bytes qos_offset; Some (h\<lparr>qos_control := v, qos_valid := True\<rparr>) }
         else Some h);
       h \<leftarrow> (if ht_offset \<noteq> 0
         then do { v \<leftarrow> wifi_rx_u32 bytes ht_offset; Some (h\<lparr>ht_control := v, ht_valid := True\<rparr>) }
         else Some h);
       Some (h\<lparr>rx_status := PARSED\<rparr>)
     }"

fun packet_type_of :: "u8 \<Rightarrow> packet_type" where
  "packet_type_of type = (if type = 0 then MANAGEMENT else if type = 1 then CONTROL else DATA)"

definition wifi_rx_parse_header :: "bytes option \<Rightarrow> nat \<Rightarrow> rx_header option" where
  "wifi_rx_parse_header pointer readable_length =
     (case pointer of
        None \<Rightarrow> Some (if readable_length \<noteq> 0 then rx_header_reset\<lparr>rx_status := INVALID_ARGUMENT\<rparr> else rx_header_reset)
      | Some bytes \<Rightarrow>
        if readable_length < 2 then Some rx_header_reset
        else do {
          fc \<leftarrow> wifi_rx_u16 bytes 0;
          let h = rx_header_reset\<lparr>frame_control := fc, frame_control_valid := True, rx_version := ucast (fc AND 3)\<rparr>;
          if rx_version h \<noteq> 0 then Some (h\<lparr>rx_status := UNSUPPORTED_VERSION\<rparr>)
          else do {
            let type = (ucast (drop_bit 2 fc AND 3) :: u8);
            let h = h\<lparr>rx_subtype := ucast (drop_bit 4 fc AND 15)\<rparr>;
            if type = 3 then Some (h\<lparr>rx_status := UNSUPPORTED_LAYOUT\<rparr>)
            else do {
              let h = h\<lparr>rx_type := packet_type_of type\<rparr>;
              h \<leftarrow> (if 4 \<le> readable_length
                then do { v \<leftarrow> wifi_rx_u16 bytes 2; Some (h\<lparr>duration_id := v, duration_valid := True\<rparr>) }
                else Some h);
              if subtype_name (rx_type h) (rx_subtype h) = None then Some (h\<lparr>rx_status := UNSUPPORTED_LAYOUT\<rparr>)
              else do {
                let to_ds = (fc AND 0x0100 \<noteq> 0);
                let from_ds = (fc AND 0x0200 \<noteq> 0);
                let order = (fc AND 0x8000 \<noteq> 0);
                if rx_type h \<noteq> DATA \<and> (to_ds \<or> from_ds) then Some (h\<lparr>rx_status := INVALID_FLAGS\<rparr>)
                else do {
                  let (len, qos_offset, ht_offset) = rx_layout (rx_type h) (rx_subtype h) to_ds from_ds order;
                  let h = h\<lparr>header_length := len\<rparr>;
                  if readable_length < len then Some h
                  else rx_read_fields h bytes to_ds from_ds qos_offset ht_offset
                }
              }
            }
          }
        })"

section \<open>The format\<close>

text \<open>
  The headers of IEEE 802.11 as a grammar: which fields a header has, in their order on the air, and
  which of its addresses plays which role.
\<close>

datatype mac_field = Frame_Control | Duration | Address1 | Address2 | Address3 | Sequence | Address4 | Qos
  | Carried_Control | Ht_Control

record mac_values =
  mv_control :: u16
  mv_duration :: u16
  mv_address1 :: bytes
  mv_address2 :: bytes
  mv_address3 :: bytes
  mv_address4 :: bytes
  mv_sequence :: u16
  mv_qos :: u16
  mv_carried :: u16
  mv_ht :: u32

definition le16 :: "u16 \<Rightarrow> bytes" where
  "le16 w = [ucast w, ucast (drop_bit 8 w)]"

definition le32 :: "u32 \<Rightarrow> bytes" where
  "le32 w = [ucast w, ucast (drop_bit 8 w), ucast (drop_bit 16 w), ucast (drop_bit 24 w)]"

fun field_bytes :: "mac_values \<Rightarrow> mac_field \<Rightarrow> bytes" where
  "field_bytes v Frame_Control = le16 (mv_control v)"
| "field_bytes v Duration = le16 (mv_duration v)"
| "field_bytes v Address1 = mv_address1 v"
| "field_bytes v Address2 = mv_address2 v"
| "field_bytes v Address3 = mv_address3 v"
| "field_bytes v Address4 = mv_address4 v"
| "field_bytes v Sequence = le16 (mv_sequence v)"
| "field_bytes v Qos = le16 (mv_qos v)"
| "field_bytes v Carried_Control = le16 (mv_carried v)"
| "field_bytes v Ht_Control = le32 (mv_ht v)"

definition mac_type :: "u16 \<Rightarrow> packet_type" where
  "mac_type fc = (let type = drop_bit 2 fc AND 3 in
     if type = 0 then MANAGEMENT else if type = 1 then CONTROL else if type = 2 then DATA else UNKNOWN)"

definition mac_subtype :: "u16 \<Rightarrow> u8" where "mac_subtype fc = ucast (drop_bit 4 fc AND 15)"
definition to_ds :: "u16 \<Rightarrow> bool" where "to_ds fc \<longleftrightarrow> bit fc 8"
definition from_ds :: "u16 \<Rightarrow> bool" where "from_ds fc \<longleftrightarrow> bit fc 9"
definition order_flag :: "u16 \<Rightarrow> bool" where "order_flag fc \<longleftrightarrow> bit fc 15"

definition mac_layout :: "u16 \<Rightarrow> mac_field list" where
  "mac_layout fc = [Frame_Control, Duration, Address1] @
     (if mac_type fc = CONTROL
      then (if mac_subtype fc \<in> {12, 13} then [] else if mac_subtype fc = 7 then [Carried_Control, Ht_Control] else [Address2])
      else [Address2, Address3, Sequence] @
        (if mac_type fc = DATA
         then (if to_ds fc \<and> from_ds fc then [Address4] else []) @
           (if bit (mac_subtype fc) 3 then Qos # (if order_flag fc then [Ht_Control] else []) else [])
         else if order_flag fc then [Ht_Control] else []))"

definition mac_role :: "u16 \<Rightarrow> rx_address \<Rightarrow> mac_field option" where
  "mac_role fc role =
     (case role of
        RECEIVER \<Rightarrow> Some Address1
      | TRANSMITTER \<Rightarrow> if Address2 \<in> set (mac_layout fc) then Some Address2 else None
      | DESTINATION \<Rightarrow> if to_ds fc then Some Address3 else Some Address1
      | SOURCE \<Rightarrow>
          if from_ds fc then (if to_ds fc then Some Address4 else Some Address3)
          else if Address2 \<in> set (mac_layout fc) then Some Address2 else None
      | BSSID \<Rightarrow>
          if mac_type fc = CONTROL
          then (if mac_subtype fc = 10 then Some Address1 else if mac_subtype fc \<in> {14, 15} then Some Address2 else None)
          else if to_ds fc then (if from_ds fc then None else Some Address1)
          else if from_ds fc then Some Address2 else Some Address3)"

definition mac_supported :: "u16 \<Rightarrow> bool" where
  "mac_supported fc \<longleftrightarrow> fc AND 3 = 0 \<and> subtype_name (mac_type fc) (mac_subtype fc) \<noteq> None \<and>
     (mac_type fc \<noteq> DATA \<longrightarrow> \<not> to_ds fc \<and> \<not> from_ds fc)"

definition mac_bytes :: "mac_values \<Rightarrow> bytes" where
  "mac_bytes v = concat (map (field_bytes v) (mac_layout (mv_control v)))"

definition addresses_sized :: "mac_values \<Rightarrow> bool" where
  "addresses_sized v \<longleftrightarrow> (\<forall>a \<in> {Address1, Address2, Address3, Address4}. length (field_bytes v a) = 6)"

definition mac_header :: "mac_values \<Rightarrow> rx_header" where
  "mac_header v =
     (let fc = mv_control v; roles = [SOURCE, DESTINATION, TRANSMITTER, RECEIVER, BSSID]; has = (\<lambda>f. f \<in> set (mac_layout fc))
      in \<lparr>rx_status = PARSED, rx_type = mac_type fc, rx_version = 0, rx_subtype = mac_subtype fc,
          rx_address_mask = fold (\<lambda>role m. if mac_role fc role = None then m else m OR push_bit (rx_address_index role) 1) roles 0,
          rx_addresses = map (\<lambda>role. case mac_role fc role of None \<Rightarrow> replicate 6 0 | Some f \<Rightarrow> field_bytes v f) roles,
          frame_control_valid = True, duration_valid = True, sequence_valid = has Sequence, qos_valid = has Qos,
          ht_valid = has Ht_Control, frame_control = fc, duration_id = mv_duration v,
          sequence_control = (if has Sequence then mv_sequence v else 0), qos_control = (if has Qos then mv_qos v else 0),
          ht_control = (if has Ht_Control then mv_ht v else 0), header_length = length (mac_bytes v)\<rparr>)"

section \<open>The parser reads the format\<close>

lemma length_le [simp]: "length (le16 w) = 2" "length (le32 d) = 4"
  by (simp_all add: le16_def le32_def)

lemma le16_read [simp]: "ucast (le16 w ! 0) OR push_bit 8 (ucast (le16 w ! Suc 0)) = w"
  unfolding le16_def
  by (rule bit_word_eqI) (auto simp: bit_or_iff bit_push_bit_iff bit_ucast_iff bit_drop_bit_eq dest: bit_imp_le_length)

lemma le32_read [simp]:
  "ucast (le32 w ! 0) OR push_bit 8 (ucast (le32 w ! Suc 0)) OR push_bit 16 (ucast (le32 w ! 2)) OR push_bit 24 (ucast (le32 w ! 3)) = w"
    (is "?w = w")
proof (rule bit_word_eqI)
  fix n assume n: "n < LENGTH(32)"
  consider "n < 8" | "8 \<le> n" "n < 16" | "16 \<le> n" "n < 24" | "24 \<le> n" by linarith
  then show "bit ?w n \<longleftrightarrow> bit w n"
    using n by cases (auto simp: le32_def bit_or_iff bit_push_bit_iff bit_ucast_iff bit_drop_bit_eq)
qed

lemma flag_bit: "w AND 2 ^ n \<noteq> 0 \<longleftrightarrow> bit w n" for w :: "'a::len word"
  by (auto simp: bit_iff_and_push_bit_not_eq_0 push_bit_eq_mult)

lemma flag_tests:
  "fc AND 0x0100 \<noteq> 0 \<longleftrightarrow> to_ds fc" "fc AND 0x0200 \<noteq> 0 \<longleftrightarrow> from_ds fc" "fc AND 0x8000 \<noteq> 0 \<longleftrightarrow> order_flag fc"
  "sub AND 8 \<noteq> 0 \<longleftrightarrow> bit (sub :: u8) 3"
  using flag_bit [of fc 8] flag_bit [of fc 9] flag_bit [of fc 15] flag_bit [of sub 3]
  by (simp_all add: to_ds_def from_ds_def order_flag_def)

lemma type_bits:
  fixes fc :: u16
  shows "unat (drop_bit 2 fc AND 3) < 4" "unat (ucast (drop_bit 2 fc AND 3) :: u8) = unat (drop_bit 2 fc AND 3)"
proof -
  have "drop_bit 2 fc AND 3 \<le> 3" by (rule word_and_le1)
  then show less: "unat (drop_bit 2 fc AND 3) < 4" by (simp add: word_le_nat_alt)
  show "unat (ucast (drop_bit 2 fc AND 3) :: u8) = unat (drop_bit 2 fc AND 3)"
    using less by (simp add: unsigned_ucast_eq take_bit_nat_eq_self)
qed

lemma mac_type_code:
  fixes fc :: u16
  defines "type \<equiv> ucast (drop_bit 2 fc AND 3) :: u8"
  shows "type = 3 \<longleftrightarrow> mac_type fc = UNKNOWN" "type \<noteq> 3 \<Longrightarrow> packet_type_of type = mac_type fc"
proof -
  have code: "(type = n) \<longleftrightarrow> (drop_bit 2 fc AND 3) = ucast n" if "unat n < 4" for n :: u8
    using that type_bits(2) [of fc] unfolding type_def by (auto simp: word_unat_eq_iff)
  define x where "x = drop_bit 2 fc AND 3"
  consider "unat x = 0" | "unat x = 1" | "unat x = 2" | "unat x = 3"
    using type_bits(1) [of fc] unfolding x_def by linarith
  then have "drop_bit 2 fc AND 3 \<in> {0, 1, 2, 3}"
    unfolding x_def [symmetric] by cases (simp_all add: word_unat_eq_iff)
  then show "type = 3 \<longleftrightarrow> mac_type fc = UNKNOWN" "type \<noteq> 3 \<Longrightarrow> packet_type_of type = mac_type fc"
    using code [of 0] code [of 1] code [of 3] by (auto simp: mac_type_def Let_def)
qed

lemma field_sizes: "addresses_sized v \<Longrightarrow> length (field_bytes v f) = (case f of Frame_Control \<Rightarrow> 2 | Duration \<Rightarrow> 2 | Sequence \<Rightarrow> 2 | Qos \<Rightarrow> 2
    | Carried_Control \<Rightarrow> 2 | Ht_Control \<Rightarrow> 4 | _ \<Rightarrow> 6)"
  by (cases f) (simp_all add: addresses_sized_def)

lemma five_entries:
  "replicate 5 x = [x, x, x, x, x]" "[a, b, c, d, e][2 := x] = [a, b, x, d, e]" "[a, b, c, d, e][3 := x] = [a, b, c, x, e]"
  "[a, b, c, d, e][4 := x] = [a, b, c, d, x]"
  by (simp_all add: numeral_eq_Suc)

text \<open>The header when its fields are about to be read.\<close>

definition rx_header_started :: "mac_values \<Rightarrow> nat \<Rightarrow> rx_header" where
  "rx_header_started v len = rx_header_reset\<lparr>frame_control := mv_control v, frame_control_valid := True, rx_version := 0,
     rx_subtype := mac_subtype (mv_control v), rx_type := mac_type (mv_control v), duration_id := mv_duration v,
     duration_valid := True, header_length := len\<rparr>"

lemma read_fields_mac:
  assumes fc: "mv_control v = fc" "mac_supported fc" and sized: "addresses_sized v"
    and layout: "rx_layout (mac_type fc) (mac_subtype fc) (to_ds fc) (from_ds fc) (order_flag fc) = (len, qos, ht)"
  shows "len = length (mac_bytes v) \<and>
    rx_read_fields (rx_header_started v len) (mac_bytes v @ body) (to_ds fc) (from_ds fc) qos ht = Some (mac_header v)"
proof -
  have a: "length (mv_address1 v) = 6" "length (mv_address2 v) = 6" "length (mv_address3 v) = 6" "length (mv_address4 v) = 6"
    using sized by (simp_all add: addresses_sized_def)
  note reads = rx_header_started_def rx_header_reset_def ADDRESS_COUNT_def five_entries rx_read_fields_def wifi_rx_address_def wifi_rx_u16_def wifi_rx_u32_def nth_append numeral_2_eq_2 [symmetric]
  consider (control) "mac_type fc = CONTROL" | (management) "mac_type fc = MANAGEMENT" | (data) "mac_type fc = DATA"
    using fc(2) by (cases "mac_type fc") (auto simp: mac_supported_def subtype_name.simps split: if_splits)
  then show ?thesis
  proof cases
    case control
    have ds: "\<not> to_ds fc" "\<not> from_ds fc" using fc(2) control by (simp_all add: mac_supported_def)
    consider "mac_subtype fc = 12" | "mac_subtype fc = 13" | "mac_subtype fc = 7" | "mac_subtype fc = 10" | "mac_subtype fc = 14"
      | "mac_subtype fc = 15" | "mac_subtype fc \<notin> {7, 10, 12, 13, 14, 15}" by blast
    then show ?thesis
      using control ds fc(1) layout a
      by cases (simp_all add: mac_layout_def mac_bytes_def mac_header_def mac_role_def rx_layout_def Let_def reads)
  next
    case management
    have ds: "\<not> to_ds fc" "\<not> from_ds fc" using fc(2) management by (simp_all add: mac_supported_def)
    show ?thesis
      using management ds fc(1) layout a
      by (cases "order_flag fc") (simp_all add: mac_layout_def mac_bytes_def mac_header_def mac_role_def rx_layout_def Let_def reads)
  next
    case data
    show ?thesis
      using data fc(1) layout a
      by (cases "to_ds fc"; cases "from_ds fc"; cases "bit (mac_subtype fc) 3"; cases "order_flag fc")
        (simp_all add: mac_layout_def mac_bytes_def mac_header_def mac_role_def rx_layout_def flag_tests Let_def reads)
  qed
qed

lemma mac_bytes_prefix: "\<exists>rest. mac_bytes v = le16 (mv_control v) @ le16 (mv_duration v) @ mv_address1 v @ rest"
  by (simp add: mac_bytes_def mac_layout_def)

lemma supported_known:
  assumes "mac_supported fc"
  shows "fc AND 3 = 0" "subtype_name (mac_type fc) (mac_subtype fc) \<noteq> None" "mac_type fc \<noteq> UNKNOWN"
    "mac_type fc \<noteq> DATA \<Longrightarrow> \<not> to_ds fc \<and> \<not> from_ds fc"
  using assms by (auto simp: mac_supported_def subtype_name.simps split: if_splits)

lemma parse_roundtrip:
  assumes v: "mac_supported (mv_control v)" and sized: "addresses_sized v" and n: "length (mac_bytes v) \<le> n"
  shows "wifi_rx_parse_header (Some (mac_bytes v @ body)) n = Some (mac_header v)"
proof -
  let ?fc = "mv_control v" and ?bytes = "mac_bytes v @ body"
  obtain len qos ht where layout: "rx_layout (mac_type ?fc) (mac_subtype ?fc) (to_ds ?fc) (from_ds ?fc) (order_flag ?fc) = (len, qos, ht)"
    by (cases "rx_layout (mac_type ?fc) (mac_subtype ?fc) (to_ds ?fc) (from_ds ?fc) (order_flag ?fc)") blast
  have fields: "len = length (mac_bytes v)"
    "rx_read_fields (rx_header_started v len) ?bytes (to_ds ?fc) (from_ds ?fc) qos ht = Some (mac_header v)"
    using read_fields_mac [OF refl v sized layout] by blast+
  obtain rest where rest: "mac_bytes v = le16 ?fc @ le16 (mv_duration v) @ mv_address1 v @ rest" using mac_bytes_prefix by blast
  have a1: "length (mv_address1 v) = 6" using sized by (simp add: addresses_sized_def)
  have reads: "wifi_rx_u16 ?bytes 0 = Some ?fc" "wifi_rx_u16 ?bytes 2 = Some (mv_duration v)" "4 \<le> n" "\<not> n < 2"
    using n a1 unfolding rest by (simp_all add: wifi_rx_u16_def nth_append numeral_2_eq_2 [symmetric])
  have known: "(ucast (drop_bit 2 ?fc AND 3) :: u8) \<noteq> 3" "packet_type_of (ucast (drop_bit 2 ?fc AND 3)) = mac_type ?fc"
    using supported_known(3) [OF v] mac_type_code [of ?fc] by blast+
  have sub: "ucast (drop_bit 4 ?fc AND 15) = mac_subtype ?fc" by (simp add: mac_subtype_def)
  obtain name where name: "subtype_name (mac_type ?fc) (mac_subtype ?fc) = Some name" using supported_known(2) [OF v] by blast
  have code: "wifi_rx_parse_header (Some ?bytes) n = rx_read_fields (rx_header_started v len) ?bytes (to_ds ?fc) (from_ds ?fc) qos ht"
    if "mac_type ?fc = DATA \<or> \<not> to_ds ?fc \<and> \<not> from_ds ?fc"
  proof -
    have flags: "(mac_type ?fc \<noteq> DATA \<and> (to_ds ?fc \<or> from_ds ?fc)) = False" using that by blast
    show ?thesis
      using fields(1) n reads supported_known(1) [OF v] name known layout
      by (simp add: wifi_rx_parse_header_def Let_def flag_tests sub rx_header_started_def rx_header_reset_def flags
          del: packet_type_of.simps de_Morgan_conj de_Morgan_disj)
  qed
  show ?thesis using code fields(2) supported_known(4) [OF v] by metis
qed

section \<open>Every header is one of the format\<close>

fun field_width :: "mac_field \<Rightarrow> nat" where
  "field_width Ht_Control = 4"
| "field_width f = (if f \<in> {Address1, Address2, Address3, Address4} then 6 else 2)"

definition field_offset :: "mac_field list \<Rightarrow> mac_field \<Rightarrow> nat" where
  "field_offset fs f = sum_list (map field_width (takeWhile (\<lambda>g. g \<noteq> f) fs))"

lemma slices_concat:
  assumes "distinct fs" "k + sum_list (map field_width fs) \<le> length bs"
    and "\<And>f. f \<in> set fs \<Longrightarrow> part f = take (field_width f) (drop (k + field_offset fs f) bs)"
  shows "concat (map part fs) = take (sum_list (map field_width fs)) (drop k bs)"
  using assms
proof (induction fs arbitrary: k)
  case (Cons f fs)
  have "part g = take (field_width g) (drop (k + field_width f + field_offset fs g) bs)" if "g \<in> set fs" for g
  proof -
    have "g \<noteq> f" using that Cons.prems(1) by auto
    then have "field_offset (f # fs) g = field_width f + field_offset fs g" by (simp add: field_offset_def)
    then show ?thesis using Cons.prems(3) [of g] that by (simp add: add.assoc)
  qed
  then have "concat (map part fs) = take (sum_list (map field_width fs)) (drop (k + field_width f) bs)"
    using Cons.prems(1,2) by (intro Cons.IH) simp_all
  moreover have "part f = take (field_width f) (drop k bs)" using Cons.prems(3) [of f] by (simp add: field_offset_def)
  ultimately show ?case by (simp add: take_add add.commute)
qed simp

definition de16 :: "bytes \<Rightarrow> u16" where "de16 bs = ucast (bs ! 0) OR push_bit 8 (ucast (bs ! 1))"

definition de32 :: "bytes \<Rightarrow> u32" where
  "de32 bs = ucast (bs ! 0) OR push_bit 8 (ucast (bs ! 1)) OR push_bit 16 (ucast (bs ! 2)) OR push_bit 24 (ucast (bs ! 3))"

lemma byte_of_word:
  fixes a b c d :: u8
  shows "ucast (ucast a OR push_bit 8 (ucast b) :: u16) = a" "ucast (drop_bit 8 (ucast a OR push_bit 8 (ucast b) :: u16)) = b"
    "ucast (ucast a OR push_bit 8 (ucast b) OR push_bit 16 (ucast c) OR push_bit 24 (ucast d) :: u32) = a"
    "ucast (drop_bit 8 (ucast a OR push_bit 8 (ucast b) OR push_bit 16 (ucast c) OR push_bit 24 (ucast d) :: u32)) = b"
    "ucast (drop_bit 16 (ucast a OR push_bit 8 (ucast b) OR push_bit 16 (ucast c) OR push_bit 24 (ucast d) :: u32)) = c"
    "ucast (drop_bit 24 (ucast a OR push_bit 8 (ucast b) OR push_bit 16 (ucast c) OR push_bit 24 (ucast d) :: u32)) = d"
  by (rule bit_word_eqI; auto simp: bit_or_iff bit_push_bit_iff bit_ucast_iff bit_drop_bit_eq dest: bit_imp_le_length)+

lemma le_de [simp]: "length bs = 2 \<Longrightarrow> le16 (de16 bs) = bs" "length cs = 4 \<Longrightarrow> le32 (de32 cs) = cs"
proof -
  assume "length bs = 2"
  then obtain a b where "bs = [a, b]" by (auto simp: length_Suc_conv numeral_eq_Suc)
  moreover have "de16 [a, b] = ucast a OR push_bit 8 (ucast b)" by (simp add: de16_def)
  ultimately show "le16 (de16 bs) = bs" by (simp only: le16_def byte_of_word)
next
  assume "length cs = 4"
  then obtain a b c d where "cs = [a, b, c, d]" by (auto simp: length_Suc_conv numeral_eq_Suc)
  moreover have "de32 [a, b, c, d] = ucast a OR push_bit 8 (ucast b) OR push_bit 16 (ucast c) OR push_bit 24 (ucast d)"
    by (simp add: de32_def)
  ultimately show "le32 (de32 cs) = cs" by (simp only: le32_def byte_of_word)
qed

lemma layout_distinct: "distinct (mac_layout fc)"
  by (auto simp: mac_layout_def)

lemma field_offset_split: "f \<notin> set pre \<Longrightarrow> field_offset (pre @ f # post) f = sum_list (map field_width pre)"
proof -
  assume "f \<notin> set pre"
  then have "takeWhile (\<lambda>g. g \<noteq> f) (pre @ f # post) = pre" by (induction pre) auto
  then show ?thesis by (simp only: field_offset_def)
qed

lemma mac_bytes_surj:
  assumes n: "sum_list (map field_width (mac_layout fc)) \<le> length bs" and fc: "take 2 bs = le16 fc"
  shows "\<exists>v. mv_control v = fc \<and> addresses_sized v \<and> mac_bytes v = take (sum_list (map field_width (mac_layout fc))) bs"
proof -
  let ?fs = "mac_layout fc" and ?six = "\<lambda>p. if length p = 6 then p else replicate 6 0"
  define part where "part f = take (field_width f) (drop (field_offset ?fs f) bs)" for f
  define v where "v = \<lparr>mv_control = fc, mv_duration = de16 (part Duration), mv_address1 = ?six (part Address1), mv_address2 = ?six (part Address2),
    mv_address3 = ?six (part Address3), mv_address4 = ?six (part Address4), mv_sequence = de16 (part Sequence), mv_qos = de16 (part Qos),
    mv_carried = de16 (part Carried_Control), mv_ht = de32 (part Ht_Control)\<rparr>"
  have inside: "length (part f) = field_width f" if f: "f \<in> set ?fs" for f
  proof -
    obtain pre post where split: "?fs = pre @ f # post" "f \<notin> set pre" using split_list_first [OF f] by blast
    have "field_offset ?fs f + field_width f \<le> length bs"
      using n unfolding split(1) field_offset_split [OF split(2)] by simp
    then show ?thesis by (simp add: part_def)
  qed
  have first: "part Frame_Control = le16 fc" using fc by (simp add: part_def field_offset_def mac_layout_def)
  have "field_bytes v f = part f" if "f \<in> set ?fs" for f
    using inside [OF that] first by (cases f) (simp_all add: v_def)
  then have "mac_bytes v = concat (map part ?fs)" by (simp add: mac_bytes_def v_def cong: map_cong)
  also have "\<dots> = take (sum_list (map field_width ?fs)) (drop 0 bs)"
    using n by (intro slices_concat) (simp_all add: layout_distinct part_def)
  finally have "mac_bytes v = take (sum_list (map field_width ?fs)) bs" by simp
  moreover have "addresses_sized v" by (simp add: addresses_sized_def v_def)
  ultimately show ?thesis by (intro exI [of _ v]) (simp add: v_def)
qed

definition no_fields :: "rx_header \<Rightarrow> bool" where
  "no_fields h \<longleftrightarrow> rx_address_mask h = 0 \<and> rx_addresses h = replicate 5 (replicate 6 0) \<and>
     \<not> sequence_valid h \<and> \<not> qos_valid h \<and> \<not> ht_valid h \<and> sequence_control h = 0 \<and> qos_control h = 0 \<and> ht_control h = 0"

text \<open>What a header says of the first \<open>n\<close> bytes behind the pointer, by its status.\<close>

definition rx_header_ok :: "bytes option \<Rightarrow> nat \<Rightarrow> rx_header \<Rightarrow> bool" where
  "rx_header_ok pointer n h \<longleftrightarrow>
     (if rx_status h = PARSED
      then header_length h \<le> n \<and> (\<exists>v. mac_supported (mv_control v) \<and> addresses_sized v \<and> h = mac_header v \<and>
        mac_bytes v = take (header_length h) (the pointer))
      else no_fields h \<and>
        (case rx_status h of
           INVALID_ARGUMENT \<Rightarrow> pointer = None \<and> n \<noteq> 0
         | SHORT_HEADER \<Rightarrow> n < 2 \<or> mac_supported (frame_control h) \<and> n < header_length h
         | UNSUPPORTED_VERSION \<Rightarrow> frame_control h AND 3 \<noteq> 0
         | UNSUPPORTED_LAYOUT \<Rightarrow> subtype_name (mac_type (frame_control h)) (mac_subtype (frame_control h)) = None
         | INVALID_FLAGS \<Rightarrow> mac_type (frame_control h) \<noteq> DATA \<and> (to_ds (frame_control h) \<or> from_ds (frame_control h))
         | PARSED \<Rightarrow> False))"

lemma layout_length:
  assumes "mac_supported fc" "rx_layout (mac_type fc) (mac_subtype fc) (to_ds fc) (from_ds fc) (order_flag fc) = (len, qos, ht)"
  shows "len = sum_list (map field_width (mac_layout fc))"
proof -
  define bs where "bs = le16 fc @ replicate (sum_list (map field_width (mac_layout fc))) 0"
  obtain v where v: "mv_control v = fc" "addresses_sized v" "mac_bytes v = take (sum_list (map field_width (mac_layout fc))) bs"
    using mac_bytes_surj [of fc bs] by (auto simp: bs_def)
  have "len = length (mac_bytes v)" using read_fields_mac [OF v(1) assms(1) v(2) assms(2)] by blast
  then show ?thesis by (simp add: v(3) bs_def)
qed

lemma version_code: "ucast (fc AND 3) = (0 :: u8) \<longleftrightarrow> fc AND 3 = 0" for fc :: u16
proof -
  have "fc AND 3 \<le> 3" by (rule word_and_le1)
  then have "unat (ucast (fc AND 3) :: u8) = unat (fc AND 3)"
    by (simp add: word_le_nat_alt unsigned_ucast_eq take_bit_nat_eq_self)
  then show ?thesis by (metis unat_eq_0)
qed

lemma parse_typed:
  assumes n: "2 \<le> n" "n \<le> length bytes"
  shows "\<exists>h. wifi_rx_parse_header (Some bytes) n = Some h \<and> rx_header_ok (Some bytes) n h"
proof -
  define fc where "fc = de16 bytes"
  obtain a b rest where ab: "bytes = a # b # rest" using n by (cases bytes; cases "tl bytes") auto
  have two: "take 2 bytes = le16 fc" using le_de(1) [of "[a, b]"] by (simp add: ab fc_def de16_def)
  have read: "wifi_rx_u16 bytes 0 = Some fc" by (simp add: wifi_rx_u16_def fc_def de16_def ab)
  define dur where "dur = (if 4 \<le> n then the (wifi_rx_u16 bytes 2) else 0)"
  have dur: "4 \<le> n \<Longrightarrow> wifi_rx_u16 bytes 2 = Some dur" using n(2) by (simp add: dur_def wifi_rx_u16_def)
  have sub: "ucast (drop_bit 4 fc AND 15) = mac_subtype fc" by (simp add: mac_subtype_def)
  note code = wifi_rx_parse_header_def read dur flag_tests sub version_code rx_header_ok_def no_fields_def rx_header_reset_def
    ADDRESS_COUNT_def Let_def
  show ?thesis
  proof (cases "fc AND 3 = 0 \<and> mac_type fc \<noteq> UNKNOWN")
    case False
    then show ?thesis using n(1) mac_type_code(1) [of fc]
      by (cases "fc AND 3 = 0") (simp_all add: code subtype_name.simps)
  next
    case True
    then have known: "(ucast (drop_bit 2 fc AND 3) :: u8) \<noteq> 3" "packet_type_of (ucast (drop_bit 2 fc AND 3)) = mac_type fc"
      using mac_type_code [of fc] by blast+
    let ?fields = "\<lambda>st. rx_header_reset\<lparr>rx_status := st, frame_control := fc, frame_control_valid := True, rx_version := 0,
      rx_subtype := mac_subtype fc, rx_type := mac_type fc, duration_id := dur, duration_valid := (4 \<le> n)\<rparr>"
    show ?thesis
    proof (cases "subtype_name (mac_type fc) (mac_subtype fc)")
      case None
      then show ?thesis using True known n(1) by (cases "4 \<le> n") (simp_all add: code del: packet_type_of.simps)
    next
      case (Some name)
      show ?thesis
      proof (cases "mac_type fc = DATA \<or> \<not> to_ds fc \<and> \<not> from_ds fc")
        case False
        then show ?thesis using True Some known n(1) by (cases "4 \<le> n") (simp_all add: code del: packet_type_of.simps)
      next
        case flags: True
        then have supported: "mac_supported fc" using True Some by (auto simp: mac_supported_def)
        obtain len qos ht where layout: "rx_layout (mac_type fc) (mac_subtype fc) (to_ds fc) (from_ds fc) (order_flag fc) = (len, qos, ht)"
          by (cases "rx_layout (mac_type fc) (mac_subtype fc) (to_ds fc) (from_ds fc) (order_flag fc)") blast
        show ?thesis
        proof (cases "n < len")
          case short: True
          have "(mac_type fc \<noteq> DATA \<and> (to_ds fc \<or> from_ds fc)) = False" using flags by blast
          then show ?thesis using True Some known n(1) short supported
            by (cases "4 \<le> n") (simp_all add: code layout del: packet_type_of.simps de_Morgan_conj de_Morgan_disj)
        next
          case False
          then obtain v where v: "mv_control v = fc" "addresses_sized v" "mac_bytes v = take len bytes"
            using mac_bytes_surj [of fc bytes] two n(2) layout_length [OF supported layout] by fastforce
          have len: "length (mac_bytes v) = len" using False n(2) v(3) by simp
          have "bytes = mac_bytes v @ drop len bytes" by (simp add: v(3))
          then have "wifi_rx_parse_header (Some bytes) n = Some (mac_header v)"
            using parse_roundtrip [of v n "drop len bytes"] supported v(1,2) False len by simp
          moreover have "rx_header_ok (Some bytes) n (mac_header v)"
          proof -
            have "rx_status (mac_header v) = PARSED" "header_length (mac_header v) = len"
              by (simp_all add: mac_header_def Let_def len)
            then show ?thesis using supported v False unfolding rx_header_ok_def by auto
          qed
          ultimately show ?thesis by blast
        qed
      qed
    qed
  qed
qed

text \<open>
  C23: Every result of the parser is a well-formed header.  Whatever the bytes, as long as \<open>n\<close> of
  them are readable, no read leaves them, and the status says exactly what they are: \<open>PARSED\<close> only
  when they begin with a header of the format, whose fields, addresses, roles and length the result
  then holds; \<open>SHORT_HEADER\<close> only for a supported header longer than \<open>n\<close>, whose length it reports;
  any other status only for its reason.  A header that is not parsed holds no field.
\<close>

theorem wifi_rx_header_typed:
  assumes "case pointer of None \<Rightarrow> True | Some bytes \<Rightarrow> n \<le> length bytes"
  shows "\<exists>h. wifi_rx_parse_header pointer n = Some h \<and> rx_header_ok pointer n h"
proof (cases pointer)
  case None
  then show ?thesis
    by (simp add: wifi_rx_parse_header_def rx_header_ok_def no_fields_def rx_header_reset_def ADDRESS_COUNT_def)
next
  case (Some bytes)
  show ?thesis
  proof (cases "n < 2")
    case True
    then show ?thesis
      by (simp add: Some wifi_rx_parse_header_def rx_header_ok_def no_fields_def rx_header_reset_def ADDRESS_COUNT_def)
  next
    case False
    then show ?thesis using parse_typed [of n bytes] assms by (simp add: Some)
  qed
qed

lemma wifi_rx_header_typed_witness:
  "\<exists>h. wifi_rx_parse_header (Some (le16 0x00d4 @ replicate 7 0xff)) 9 = Some h \<and>
    rx_header_ok (Some (le16 0x00d4 @ replicate 7 0xff)) 9 h"
  by (rule wifi_rx_header_typed) simp

text \<open>
  C24: A frame written from its fields parses back to them: for every supported frame control word the
  parser finds each field of the format where the format puts it, with any body after the header.
\<close>

theorem wifi_rx_header_roundtrip:
  assumes "mac_supported (mv_control v)" "addresses_sized v" "length (mac_bytes v) \<le> n"
  shows "wifi_rx_parse_header (Some (mac_bytes v @ body)) n = Some (mac_header v)"
  using assms by (rule parse_roundtrip)

text \<open>A QoS data frame to a distribution system, with an HT control field.\<close>

definition example_values :: mac_values where
  "example_values = \<lparr>mv_control = 0x8188, mv_duration = 44, mv_address1 = [1, 2, 3, 4, 5, 6], mv_address2 = [2, 2, 2, 2, 2, 2],
     mv_address3 = [3, 3, 3, 3, 3, 3], mv_address4 = [0, 0, 0, 0, 0, 0], mv_sequence = 0x1230, mv_qos = 5, mv_carried = 0, mv_ht = 0x01020304\<rparr>"

lemma wifi_rx_header_roundtrip_witness:
  "wifi_rx_parse_header (Some (mac_bytes example_values @ [9, 9])) 34 = Some (mac_header example_values)"
  by (rule wifi_rx_header_roundtrip) code_simp+

end
