(* ===== verification/Raw_Tx_Validate.thy ===== *)
theory Raw_Tx_Validate
  imports Wifi_Rx
begin

text \<open>
  \<open>modules/wifi_raw_tx/esp32_mquickjs_wifi_raw_tx_validate.c\<close>: which frames JavaScript may hand to
  the radio.  The addresses and sizes of the caller's objects are arguments, since the code refuses
  an output that overlaps its inputs; \<open>extended\<close> is the build option that admits every management
  frame.  As in \<open>Wifi_Rx\<close> the whole result is \<open>None\<close> when a read leaves the frame.
\<close>

definition RAW_TX_MIN_FRAME_BYTES :: nat where "RAW_TX_MIN_FRAME_BYTES = 24"
definition RAW_TX_MAX_FRAME_BYTES :: nat where "RAW_TX_MAX_FRAME_BYTES = 1500"

datatype raw_tx_validation = VALID | INVALID_ARG | INVALID_LENGTH | UNSUPPORTED_FRAME | PROTECTED_FRAME | QOS_FRAME | INVALID_HEADER

datatype raw_tx_interface = STATION | ACCESS_POINT | Other_Interface nat

datatype raw_tx_frame_type = BEACON | PROBE_REQUEST | PROBE_RESPONSE | ACTION | NON_QOS_DATA
  | ASSOCIATION_REQUEST | ASSOCIATION_RESPONSE | REASSOCIATION_REQUEST | REASSOCIATION_RESPONSE | TIMING_ADVERTISEMENT
  | ATIM | DISASSOCIATION | AUTHENTICATION | DEAUTHENTICATION | ACTION_NO_ACK

record validation_policy =
  vp_interface :: raw_tx_interface
  vp_driver_sequence :: bool

record validated_frame =
  vf_frame_type :: raw_tx_frame_type
  vf_byte_length :: u16
  vf_header :: rx_header

text \<open>Where the caller's objects are, and the sizes of the two structures.\<close>

record validation_memory =
  at_bytes :: u32
  at_policy :: u32
  at_output :: u32
  size_policy :: u32
  size_output :: u32

definition raw_tx_overlaps :: "u32 \<Rightarrow> u32 \<Rightarrow> u32 \<Rightarrow> u32 \<Rightarrow> bool" where
  "raw_tx_overlaps first a_length second b_length =
     (if - 1 - first < a_length \<or> - 1 - second < b_length then True
      else first < second + b_length \<and> second < first + a_length)"

definition management_frame_type :: "bool \<Rightarrow> u8 \<Rightarrow> raw_tx_frame_type option" where
  "management_frame_type extended subtype =
     (if subtype = 8 then Some BEACON
      else if subtype = 4 then Some PROBE_REQUEST
      else if subtype = 5 then Some PROBE_RESPONSE
      else if subtype = 13 then Some ACTION
      else if \<not> extended then None
      else if subtype = 0 then Some ASSOCIATION_REQUEST
      else if subtype = 1 then Some ASSOCIATION_RESPONSE
      else if subtype = 2 then Some REASSOCIATION_REQUEST
      else if subtype = 3 then Some REASSOCIATION_RESPONSE
      else if subtype = 6 then Some TIMING_ADVERTISEMENT
      else if subtype = 9 then Some ATIM
      else if subtype = 10 then Some DISASSOCIATION
      else if subtype = 11 then Some AUTHENTICATION
      else if subtype = 12 then Some DEAUTHENTICATION
      else if subtype = 14 then Some ACTION_NO_ACK
      else None)"

text \<open>The frame type, or the reason to refuse the frame, by its type and subtype fields.\<close>

definition raw_tx_frame_type_of :: "bool \<Rightarrow> u8 \<Rightarrow> u8 \<Rightarrow> raw_tx_validation + raw_tx_frame_type" where
  "raw_tx_frame_type_of extended type subtype =
     (if type = 0
      then (case management_frame_type extended subtype of None \<Rightarrow> Inl UNSUPPORTED_FRAME | Some t \<Rightarrow> Inr t)
      else if type = 2
      then (if subtype AND 8 \<noteq> 0 then Inl QOS_FRAME else if subtype \<noteq> 0 then Inl UNSUPPORTED_FRAME else Inr NON_QOS_DATA)
      else Inl UNSUPPORTED_FRAME)"

definition raw_tx_validate ::
  "bool \<Rightarrow> validation_memory \<Rightarrow> bytes option \<Rightarrow> nat \<Rightarrow> validation_policy option \<Rightarrow> validated_frame option \<Rightarrow>
    (raw_tx_validation \<times> validated_frame option) option" where
  "raw_tx_validate extended mem pointer len policy out =
     (if pointer = None \<or> policy = None \<or> out = None then Some (INVALID_ARG, out)
      else if len < RAW_TX_MIN_FRAME_BYTES \<or> RAW_TX_MAX_FRAME_BYTES < len then Some (INVALID_LENGTH, out)
      else if raw_tx_overlaps (at_output mem) (size_output mem) (at_bytes mem) (of_nat len) \<or>
        raw_tx_overlaps (at_output mem) (size_output mem) (at_policy mem) (size_policy mem) then Some (INVALID_ARG, out)
      else if vp_interface (the policy) \<noteq> STATION \<and> vp_interface (the policy) \<noteq> ACCESS_POINT then Some (INVALID_ARG, out)
      else do {
        fc \<leftarrow> wifi_rx_u16 (the pointer) 0;
        if fc AND 3 \<noteq> 0 then Some (INVALID_HEADER, out)
        else if fc AND 0x4000 \<noteq> 0 then Some (PROTECTED_FRAME, out)
        else case raw_tx_frame_type_of extended (ucast (drop_bit 2 fc AND 3)) (ucast (drop_bit 4 fc AND 15)) of
            Inl error \<Rightarrow> Some (error, out)
          | Inr frame_type \<Rightarrow> do {
              header \<leftarrow> wifi_rx_parse_header pointer len;
              if rx_status header \<noteq> PARSED then Some (INVALID_HEADER, out)
              else Some (VALID, Some \<lparr>vf_frame_type = frame_type, vf_byte_length = of_nat len, vf_header = header\<rparr>)
            }
      })"

section \<open>Which frames are valid\<close>

definition protected_flag :: "u16 \<Rightarrow> bool" where "protected_flag fc \<longleftrightarrow> bit fc 14"

text \<open>The frames of the allow list.\<close>

definition frame_allowed :: "bool \<Rightarrow> u16 \<Rightarrow> bool" where
  "frame_allowed extended fc \<longleftrightarrow> \<not> protected_flag fc \<and>
     (mac_type fc = MANAGEMENT \<and> mac_subtype fc \<in> (if extended then {0 .. 14} - {7} else {4, 5, 8, 13}) \<or>
      mac_type fc = DATA \<and> mac_subtype fc = 0)"

text \<open>Two spans of memory that neither wrap around nor meet.\<close>

definition spans_apart :: "u32 \<Rightarrow> u32 \<Rightarrow> u32 \<Rightarrow> u32 \<Rightarrow> bool" where
  "spans_apart a la b lb \<longleftrightarrow> unat a + unat la < 2 ^ 32 \<and> unat b + unat lb < 2 ^ 32 \<and>
     (unat a + unat la \<le> unat b \<or> unat b + unat lb \<le> unat a)"

definition call_ok :: "validation_memory \<Rightarrow> nat \<Rightarrow> validation_policy \<Rightarrow> bool" where
  "call_ok mem len policy \<longleftrightarrow> 24 \<le> len \<and> len \<le> 1500 \<and> vp_interface policy \<in> {STATION, ACCESS_POINT} \<and>
     spans_apart (at_output mem) (size_output mem) (at_bytes mem) (of_nat len) \<and>
     spans_apart (at_output mem) (size_output mem) (at_policy mem) (size_policy mem)"

text \<open>The first \<open>len\<close> bytes are a frame that may be sent, with the header \<open>v\<close>.\<close>

definition sendable :: "bool \<Rightarrow> bytes \<Rightarrow> nat \<Rightarrow> mac_values \<Rightarrow> bool" where
  "sendable extended bytes len v \<longleftrightarrow> mac_supported (mv_control v) \<and> addresses_sized v \<and> frame_allowed extended (mv_control v) \<and>
     length (mac_bytes v) \<le> len \<and> take (length (mac_bytes v)) bytes = mac_bytes v"

lemma raw_tx_overlaps_iff: "raw_tx_overlaps a la b lb \<longleftrightarrow> \<not> spans_apart a la b lb"
proof (cases "unat a + unat la < 2 ^ 32 \<and> unat b + unat lb < 2 ^ 32")
  case True
  then have sums: "unat (a + la) = unat a + unat la" "unat (b + lb) = unat b + unat lb"
    by (auto intro: unat_add_fits)
  have "raw_tx_overlaps a la b lb \<longleftrightarrow> a < b + lb \<and> b < a + la"
    using True unfolding span_guard [symmetric] raw_tx_overlaps_def by presburger
  also have "\<dots> \<longleftrightarrow> unat a < unat b + unat lb \<and> unat b < unat a + unat la"
    unfolding word_less_nat_alt sums ..
  finally show ?thesis using True unfolding spans_apart_def by linarith
next
  case False
  then show ?thesis unfolding spans_apart_def raw_tx_overlaps_def span_guard [symmetric] by presburger
qed

lemma protected_code: "fc AND 0x4000 \<noteq> 0 \<longleftrightarrow> protected_flag fc" for fc :: u16
  using flag_bit [of fc 14] by (simp add: protected_flag_def)

lemma type_code:
  fixes fc :: u16
  shows "(ucast (drop_bit 2 fc AND 3) :: u8) = 0 \<longleftrightarrow> mac_type fc = MANAGEMENT"
    "(ucast (drop_bit 2 fc AND 3) :: u8) = 2 \<longleftrightarrow> mac_type fc = DATA"
proof -
  have "(ucast (drop_bit 2 fc AND 3) :: u8) = n \<longleftrightarrow> drop_bit 2 fc AND 3 = ucast n" if "unat n < 4" for n
    using that type_bits(2) [of fc] by (auto simp: word_unat_eq_iff)
  from this [of 0] this [of 2] show "(ucast (drop_bit 2 fc AND 3) :: u8) = 0 \<longleftrightarrow> mac_type fc = MANAGEMENT"
    "(ucast (drop_bit 2 fc AND 3) :: u8) = 2 \<longleftrightarrow> mac_type fc = DATA"
    by (simp_all add: mac_type_def Let_def)
qed

lemma subtype_small: "unat (mac_subtype fc) < 16"
proof -
  have "drop_bit 4 fc AND 15 \<le> 15" by (rule word_and_le1)
  then have "unat (drop_bit 4 fc AND 15) \<le> 15" by (simp add: word_le_nat_alt)
  then show ?thesis by (simp add: mac_subtype_def unsigned_ucast_eq take_bit_nat_eq_self)
qed

lemma below_sixteen: "n < 16 \<Longrightarrow> n \<in> {0, 1, 2, 3, 4, 5, 6, 7, 8, 9, 10, 11, 12, 13, 14, 15}" for n :: nat
  by (auto simp: numeral_eq_Suc less_Suc_eq)

lemma subtype_cases: "mac_subtype fc \<in> {0, 1, 2, 3, 4, 5, 6, 7, 8, 9, 10, 11, 12, 13, 14, 15}"
  using below_sixteen [OF subtype_small [of fc]] by (simp add: word_unat_eq_iff)

lemma frame_type_allowed:
  "(\<exists>t. raw_tx_frame_type_of extended (ucast (drop_bit 2 fc AND 3)) (mac_subtype fc) = Inr t) \<and> \<not> protected_flag fc
     \<longleftrightarrow> frame_allowed extended fc"
  using subtype_cases [of fc]
  by (auto simp: raw_tx_frame_type_of_def management_frame_type_def frame_allowed_def type_code split: option.split)

lemma validate_step:
  assumes readable: "len \<le> length bytes" and ok: "call_ok mem len policy"
  defines "fc \<equiv> de16 bytes"
  shows "raw_tx_validate extended mem (Some bytes) len (Some policy) (Some out) =
    (if fc AND 3 \<noteq> 0 then Some (INVALID_HEADER, Some out)
     else if protected_flag fc then Some (PROTECTED_FRAME, Some out)
     else case raw_tx_frame_type_of extended (ucast (drop_bit 2 fc AND 3)) (mac_subtype fc) of
         Inl error \<Rightarrow> Some (error, Some out)
       | Inr t \<Rightarrow> (let header = the (wifi_rx_parse_header (Some bytes) len)
           in if rx_status header \<noteq> PARSED then Some (INVALID_HEADER, Some out)
              else Some (VALID, Some \<lparr>vf_frame_type = t, vf_byte_length = of_nat len, vf_header = header\<rparr>)))"
proof -
  have len: "24 \<le> len" "len \<le> 1500" using ok by (auto simp: call_ok_def)
  have "1 < length bytes" using readable len(1) by linarith
  then have fc: "wifi_rx_u16 bytes 0 = Some fc" unfolding fc_def by (simp add: wifi_rx_u16_def de16_def)
  obtain h where h: "wifi_rx_parse_header (Some bytes) len = Some h"
    using parse_typed [of len bytes] len(1) readable by auto
  have interface: "\<not> (vp_interface policy \<noteq> STATION \<and> vp_interface policy \<noteq> ACCESS_POINT)"
    using ok by (auto simp: call_ok_def)
  have apart: "\<not> (raw_tx_overlaps (at_output mem) (size_output mem) (at_bytes mem) (of_nat len) \<or>
      raw_tx_overlaps (at_output mem) (size_output mem) (at_policy mem) (size_policy mem))"
    using ok by (simp add: call_ok_def raw_tx_overlaps_iff)
  have sub: "ucast (drop_bit 4 fc AND 15) = mac_subtype fc" by (simp add: mac_subtype_def)
  have bounds: "\<not> (len < RAW_TX_MIN_FRAME_BYTES \<or> RAW_TX_MAX_FRAME_BYTES < len)"
    using len by (simp add: RAW_TX_MIN_FRAME_BYTES_def RAW_TX_MAX_FRAME_BYTES_def)
  show ?thesis
    unfolding raw_tx_validate_def if_not_P [OF apart] if_not_P [OF bounds] option.sel if_not_P [OF interface]
    by (simp add: fc h protected_code sub Let_def cong: sum.case_cong)
qed

lemma sendable_control: "sendable extended bytes len v \<Longrightarrow> mv_control v = de16 bytes"
proof -
  assume "sendable extended bytes len v"
  then have "take (length (mac_bytes v)) bytes = mac_bytes v" by (simp add: sendable_def)
  then obtain body where body: "bytes = mac_bytes v @ body" by (metis append_take_drop_id)
  obtain rest where "mac_bytes v = le16 (mv_control v) @ rest" using mac_bytes_prefix by blast
  then have "wifi_rx_u16 ([] @ le16 (mv_control v) @ (rest @ body)) 0 = Some (de16 bytes)"
    using body by (simp add: wifi_rx_u16_def de16_def le16_def)
  moreover have "de16 (le16 (mv_control v) @ rest @ body) = mv_control v"
    unfolding de16_def using le16_read [of "mv_control v"] by (simp add: nth_append)
  ultimately show ?thesis using body \<open>mac_bytes v = le16 (mv_control v) @ rest\<close> by simp
qed

lemma sendable_parses:
  assumes "len \<le> length bytes" "sendable extended bytes len v"
  shows "wifi_rx_parse_header (Some bytes) len = Some (mac_header v)"
proof -
  have v: "mac_supported (mv_control v)" "addresses_sized v" "length (mac_bytes v) \<le> len" "take (length (mac_bytes v)) bytes = mac_bytes v"
    using assms(2) by (simp_all add: sendable_def)
  have "bytes = mac_bytes v @ drop (length (mac_bytes v)) bytes" using v(4) by (metis append_take_drop_id)
  then show ?thesis using parse_roundtrip [OF v(1-3)] by metis
qed

lemma parsed_sendable:
  assumes readable: "2 \<le> len" "len \<le> length bytes" and h: "wifi_rx_parse_header (Some bytes) len = Some h" "rx_status h = PARSED"
    and allowed: "frame_allowed extended (de16 bytes)"
  shows "\<exists>v. sendable extended bytes len v"
proof -
  have "rx_header_ok (Some bytes) len h" using parse_typed [OF readable] h(1) by auto
  then obtain v where v: "header_length h \<le> len" "mac_supported (mv_control v)" "addresses_sized v" "h = mac_header v"
      "mac_bytes v = take (header_length h) bytes"
    using h(2) unfolding rx_header_ok_def by auto
  then have length: "length (mac_bytes v) = header_length h" using readable(2) by simp
  obtain body where body: "bytes = mac_bytes v @ body" using v(5) by (metis append_take_drop_id)
  obtain rest where rest: "mac_bytes v = le16 (mv_control v) @ rest" using mac_bytes_prefix by blast
  have "de16 bytes = mv_control v" unfolding body rest de16_def using le16_read [of "mv_control v"] by (simp add: nth_append)
  then show ?thesis using v length allowed by (auto simp: sendable_def)
qed

lemma validate_refuses_call:
  assumes "\<not> call_ok mem len policy"
  shows "\<exists>r. raw_tx_validate extended mem (Some bytes) len (Some policy) (Some out) = Some (r, Some out) \<and> r \<noteq> VALID"
  using assms
  by (auto simp: raw_tx_validate_def call_ok_def raw_tx_overlaps_iff RAW_TX_MIN_FRAME_BYTES_def RAW_TX_MAX_FRAME_BYTES_def)

lemma frame_type_error: "raw_tx_frame_type_of extended type sub = Inl r \<Longrightarrow> r \<noteq> VALID"
  by (auto simp: raw_tx_frame_type_of_def split: if_splits option.splits)

text \<open>
  C25: The validator accepts exactly the frames of its allow list that fit: an unprotected management
  frame of an admitted subtype or a plain data frame, of 24 to 1500 bytes, whose complete header is in
  them, for a known interface, with an output apart from its inputs.  It then describes the frame by
  its type, its length and its parsed header; otherwise the output keeps its value.  It reads no byte
  outside of the frame.
\<close>

theorem raw_tx_validate_exact:
  assumes "len \<le> length bytes"
  shows "if call_ok mem len policy \<and> (\<exists>v. sendable extended bytes len v)
    then \<exists>v t. sendable extended bytes len v \<and> raw_tx_frame_type_of extended (ucast (drop_bit 2 (mv_control v) AND 3)) (mac_subtype (mv_control v)) = Inr t \<and>
      raw_tx_validate extended mem (Some bytes) len (Some policy) (Some out) =
        Some (VALID, Some \<lparr>vf_frame_type = t, vf_byte_length = of_nat len, vf_header = mac_header v\<rparr>)
    else \<exists>r. raw_tx_validate extended mem (Some bytes) len (Some policy) (Some out) = Some (r, Some out) \<and> r \<noteq> VALID"
proof (cases "call_ok mem len policy")
  case False
  then show ?thesis using validate_refuses_call [OF False] by simp
next
  case ok: True
  then have len: "2 \<le> len" by (simp add: call_ok_def)
  let ?fc = "de16 bytes"
  note step = validate_step [OF assms ok]
  show ?thesis
  proof (cases "\<exists>v. sendable extended bytes len v")
    case True
    then obtain v where v: "sendable extended bytes len v" by blast
    then have fc: "mv_control v = ?fc" by (rule sendable_control)
    have allowed: "frame_allowed extended ?fc" "?fc AND 3 = 0" using v fc by (auto simp: sendable_def mac_supported_def)
    then obtain t where t: "raw_tx_frame_type_of extended (ucast (drop_bit 2 ?fc AND 3)) (mac_subtype ?fc) = Inr t" "\<not> protected_flag ?fc"
      using frame_type_allowed [of extended ?fc] by blast
    have "rx_status (mac_header v) = PARSED" by (simp add: mac_header_def Let_def)
    then show ?thesis
      using v True ok t allowed(2) sendable_parses [OF assms v] by (auto simp: step fc Let_def)
  next
    case False
    obtain h where h: "wifi_rx_parse_header (Some bytes) len = Some h" using parse_typed [OF len assms] by blast
    have "frame_allowed extended ?fc \<Longrightarrow> rx_status h \<noteq> PARSED" using parsed_sendable [OF len assms h] False by blast
    then show ?thesis
      using False frame_type_error frame_type_allowed [of extended ?fc] by (auto simp: step h Let_def split: sum.split)
  qed
qed

text \<open>A beacon of 26 bytes, and a place for each object.\<close>

definition beacon_values :: mac_values where
  "beacon_values = example_values\<lparr>mv_control := 0x0080\<rparr>"

definition example_memory :: validation_memory where
  "example_memory = \<lparr>at_bytes = 0x1000, at_policy = 0x2000, at_output = 0x3000, size_policy = 8, size_output = 64\<rparr>"

definition example_policy :: validation_policy where
  "example_policy = \<lparr>vp_interface = STATION, vp_driver_sequence = True\<rparr>"

definition example_output :: validated_frame where
  "example_output = \<lparr>vf_frame_type = ATIM, vf_byte_length = 0, vf_header = rx_header_reset\<rparr>"

lemma raw_tx_validate_exact_witness:
  "\<exists>v t. raw_tx_validate False example_memory (Some (mac_bytes beacon_values @ [0, 0])) 26 (Some example_policy) (Some example_output) =
    Some (VALID, Some \<lparr>vf_frame_type = t, vf_byte_length = 26, vf_header = mac_header v\<rparr>)"
proof -
  let ?bytes = "mac_bytes beacon_values @ [0, 0]"
  have "26 \<le> length ?bytes" by code_simp
  note exact = raw_tx_validate_exact [OF this, of example_memory example_policy False example_output]
  have "call_ok example_memory 26 example_policy"
    by (simp add: call_ok_def spans_apart_def example_memory_def example_policy_def)
  moreover have "sendable False ?bytes 26 beacon_values" by code_simp
  ultimately have "call_ok example_memory 26 example_policy \<and> (\<exists>v. sendable False ?bytes 26 v)" by blast
  from exact [unfolded if_P [OF this]] show ?thesis by auto
qed

end
