(* ===== verification/Wifi_Rx_Filter.thy ===== *)
theory Wifi_Rx_Filter
  imports Wifi_Rx Simulation
begin

text \<open>
  \<open>modules/wifi_common/esp32_mquickjs_wifi_rx_filter.c\<close>: which received packets a capture admits.
  Of the driver's metadata the records hold what the filter reads.  \<open>None\<close> is a null pointer.
\<close>

section \<open>The filter\<close>

definition FILTER_MAC_CAPACITY :: u8 where "FILTER_MAC_CAPACITY = 8"
definition FILTER_TYPE_MASK :: u32 where "FILTER_TYPE_MASK = 0x0f"

record mac_filter =
  mf_count :: u8
  mf_values :: "bytes list"

record rx_filter =
  fi_type_mask :: u8
  fi_subtype_filter :: bool
  fi_minimum_rssi_set :: bool
  fi_valid_only :: bool
  fi_subtype_mask :: u16
  fi_frame_filter :: bool
  fi_frame_subtype_masks :: "u16 list"
  fi_minimum_rssi :: u8
  fi_source :: mac_filter
  fi_destination :: mac_filter
  fi_bssid :: mac_filter
  fi_sample_every :: u32
  fi_maximum_rate_hz :: u32

record filter_state =
  sample_phase :: u32
  last_admitted_set :: bool
  last_admitted_us :: u64

datatype filter_result = ACCEPT | INVALID_CONFIG | INVALID_CALLBACK | BAD_HEADER | RX_ERROR | WRONG_TYPE | WRONG_SUBTYPE
  | WRONG_MAC | WEAK_RSSI | DECIMATION | RATE

datatype span_status = SPAN_PACKET | SPAN_METADATA_ONLY | SPAN_INVALID_ARGUMENT | SPAN_UNKNOWN_TYPE | SPAN_INVALID_LENGTH

record rx_metadata =
  md_type :: packet_type
  md_available :: bool
  md_rssi :: u8
  md_rx_state :: u8

record rx_view =
  vw_status :: span_status
  vw_metadata :: rx_metadata
  vw_header :: rx_header
  vw_header_type_matches :: bool

fun packet_type_index :: "packet_type \<Rightarrow> nat" where
  "packet_type_index MANAGEMENT = 0"
| "packet_type_index CONTROL = 1"
| "packet_type_index DATA = 2"
| "packet_type_index MISC = 3"
| "packet_type_index UNKNOWN = 4"

definition rx_filter_valid :: "rx_filter option \<Rightarrow> bool" where
  "rx_filter_valid pointer =
     (case pointer of
        None \<Rightarrow> False
      | Some f \<Rightarrow> ucast (fi_type_mask f) AND NOT FILTER_TYPE_MASK = 0 \<and>
          mf_count (fi_source f) \<le> FILTER_MAC_CAPACITY \<and> mf_count (fi_destination f) \<le> FILTER_MAC_CAPACITY \<and>
          mf_count (fi_bssid f) \<le> FILTER_MAC_CAPACITY \<and> fi_sample_every f \<noteq> 0 \<and> fi_maximum_rate_hz f \<le> 1000000)"

definition rx_filter_mac :: "mac_filter \<Rightarrow> rx_view \<Rightarrow> rx_address \<Rightarrow> bool" where
  "rx_filter_mac list view role =
     (if mf_count list = 0 then True
      else if \<not> vw_header_type_matches view \<or> rx_status (vw_header view) \<noteq> PARSED \<or>
        ucast (rx_address_mask (vw_header view)) AND push_bit (rx_address_index role) (1 :: u32) = 0 then False
      else list_ex (\<lambda>i. mf_values list ! i = rx_addresses (vw_header view) ! rx_address_index role) [0..<unat (mf_count list)])"

text \<open>The checks that look at one packet alone: the reason to refuse it, if any.\<close>

definition static_verdict :: "rx_filter \<Rightarrow> rx_view \<Rightarrow> filter_result option" where
  "static_verdict f view =
     (let header = vw_header view; meta = vw_metadata view in
      if (ucast (fi_type_mask f) :: u32) AND push_bit (packet_type_index (md_type meta)) 1 = 0 then Some WRONG_TYPE
      else if fi_valid_only f \<and> md_rx_state meta \<noteq> 0 then Some RX_ERROR
      else if fi_valid_only f \<and> (vw_status view \<noteq> SPAN_PACKET \<or> \<not> vw_header_type_matches view \<or> rx_status header \<noteq> PARSED)
        then Some BAD_HEADER
      else if fi_subtype_filter f \<and> (\<not> vw_header_type_matches view \<or> 16 \<le> rx_subtype header \<or>
          (ucast (fi_subtype_mask f) :: u32) AND push_bit (unat (rx_subtype header)) 1 = 0) then Some WRONG_SUBTYPE
      else if fi_frame_filter f \<and> (\<not> frame_control_valid header \<or> rx_version header \<noteq> 0 \<or> \<not> vw_header_type_matches view) then Some WRONG_SUBTYPE
      else if fi_frame_filter f \<and>
          (ucast (fi_frame_subtype_masks f ! unat (drop_bit 2 (frame_control header) AND 3)) :: u32)
            AND push_bit (unat (drop_bit 4 (frame_control header) AND 15)) 1 = 0 then Some WRONG_SUBTYPE
      else if \<not> rx_filter_mac (fi_source f) view SOURCE \<or> \<not> rx_filter_mac (fi_destination f) view DESTINATION \<or>
          \<not> rx_filter_mac (fi_bssid f) view BSSID then Some WRONG_MAC
      else if fi_minimum_rssi_set f \<and> sint (md_rssi meta) < sint (fi_minimum_rssi f) then Some WEAK_RSSI
      else None)"

definition callback_valid :: "rx_view option \<Rightarrow> bool" where
  "callback_valid pointer =
     (case pointer of
        None \<Rightarrow> False
      | Some view \<Rightarrow> md_available (vw_metadata view) \<and> (vw_status view = SPAN_PACKET \<or> vw_status view = SPAN_METADATA_ONLY) \<and>
          packet_type_index (md_type (vw_metadata view)) \<le> packet_type_index MISC)"

definition rx_filter_evaluate :: "rx_filter option \<Rightarrow> filter_state \<Rightarrow> rx_view option \<Rightarrow> u64 \<Rightarrow> filter_result \<times> filter_state" where
  "rx_filter_evaluate fp st vp now_us =
     (if \<not> rx_filter_valid fp \<or> fi_sample_every (the fp) \<le> sample_phase st then (INVALID_CONFIG, st)
      else if \<not> callback_valid vp then (INVALID_CALLBACK, st)
      else let f = the fp in
        case static_verdict f (the vp) of
          Some reason \<Rightarrow> (reason, st)
        | None \<Rightarrow>
            let sampled = (sample_phase st = 0);
              st = st\<lparr>sample_phase := (if sample_phase st = fi_sample_every f - 1 then 0 else sample_phase st + 1)\<rparr>
            in if \<not> sampled then (DECIMATION, st)
               else if fi_maximum_rate_hz f \<noteq> 0 \<and> last_admitted_set st \<and>
                 (let interval = (1000000 + fi_maximum_rate_hz f - 1) div fi_maximum_rate_hz f
                  in now_us < last_admitted_us st \<or> now_us - last_admitted_us st < ucast interval)
               then (RATE, st)
               else (ACCEPT, st\<lparr>last_admitted_set := True, last_admitted_us := now_us\<rparr>))"

definition filter_state_initial :: filter_state where
  "filter_state_initial = \<lparr>sample_phase = 0, last_admitted_set = False, last_admitted_us = 0\<rparr>"

section \<open>Decimation and rate on whole runs\<close>

text \<open>
  The specification counts the packets that pass the static checks with an unbounded number, and
  keeps the time of the last admission.
\<close>

type_synonym sampler = "nat \<times> nat option"

definition rate_interval :: "rx_filter \<Rightarrow> nat" where
  "rate_interval f = (if fi_maximum_rate_hz f = 0 then 0 else (1000000 + unat (fi_maximum_rate_hz f) - 1) div unat (fi_maximum_rate_hz f))"

fun sampler_apply :: "rx_filter \<Rightarrow> rx_view option \<times> u64 \<Rightarrow> sampler \<Rightarrow> filter_result \<times> sampler" where
  "sampler_apply f (vp, now) (k, at) =
     (if \<not> callback_valid vp then (INVALID_CALLBACK, (k, at))
      else case static_verdict f (the vp) of
          Some reason \<Rightarrow> (reason, (k, at))
        | None \<Rightarrow>
            if k mod unat (fi_sample_every f) \<noteq> 0 then (DECIMATION, (k + 1, at))
            else if fi_maximum_rate_hz f \<noteq> 0 \<and> (case at of None \<Rightarrow> False | Some t \<Rightarrow> unat now < t + rate_interval f) then (RATE, (k + 1, at))
            else (ACCEPT, (k + 1, Some (unat now))))"

fun filter_apply :: "rx_filter \<Rightarrow> rx_view option \<times> u64 \<Rightarrow> filter_state \<Rightarrow> filter_result \<times> filter_state" where
  "filter_apply f (vp, now) st = rx_filter_evaluate (Some f) st vp now"

definition sampler_rel :: "rx_filter \<Rightarrow> sampler \<Rightarrow> filter_state \<Rightarrow> bool" where
  "sampler_rel f s st \<longleftrightarrow> unat (sample_phase st) = fst s mod unat (fi_sample_every f) \<and>
     snd s = (if last_admitted_set st then Some (unat (last_admitted_us st)) else None)"

lemma interval_code:
  assumes "r \<le> 1000000" "r \<noteq> (0 :: u32)"
  shows "unat ((1000000 + r - 1) div r) = (1000000 + unat r - 1) div unat r"
proof -
  have r: "unat r \<le> 1000000" using assms(1) by (simp add: word_le_nat_alt)
  have "unat (999999 + r) = 999999 + unat r" using unat_add_fits [of "999999 :: u32" r] r by simp
  then show ?thesis by (simp add: unat_div)
qed

lemma elapsed_code: "now < last \<or> now - last < ucast i \<longleftrightarrow> unat now < unat last + unat i" for now last :: u64 and i :: u32
proof (cases "now < last")
  case True
  then show ?thesis by (simp add: word_less_nat_alt)
next
  case False
  then have "unat (now - last) = unat now - unat last" "unat last \<le> unat now" by (simp_all add: unat_sub_le not_less word_le_nat_alt)
  then show ?thesis using False by (simp add: word_less_nat_alt) linarith
qed

lemma too_soon_code:
  fixes now last :: u64
  assumes "r \<le> 1000000" "r \<noteq> (0 :: u32)"
  shows "now < last \<or> now - last < ucast ((1000000 + r - 1) div r) \<longleftrightarrow> unat now < unat last + (1000000 + unat r - 1) div unat r"
  unfolding elapsed_code interval_code [OF assms] ..

lemma phase_step:
  assumes "unat p = k mod unat n" "n \<noteq> (0 :: u32)"
  shows "unat (if p = n - 1 then 0 else p + 1) = (k + 1) mod unat n"
proof -
  have n: "0 < unat n" using assms(2) by (simp add: unat_gt_0)
  have less: "unat p < unat n" using assms(1) n by simp
  have last: "p = n - 1 \<longleftrightarrow> unat p = unat n - 1"
    using unat_dec [of n] assms(2) by (metis word_neq_0_conv word_unat_eq_iff)
  show ?thesis
  proof (cases "p = n - 1")
    case True
    then have "Suc (k mod unat n) = unat n" using last assms(1) n by simp
    then show ?thesis using True by (simp add: mod_Suc)
  next
    case False
    then have "Suc (k mod unat n) \<noteq> unat n" using last assms(1) by simp
    moreover have "unat (p + 1) = unat p + 1" using less unat_add_below [of p 1 n] by simp
    ultimately show ?thesis using False assms(1) by (simp add: mod_Suc)
  qed
qed

lemma filter_step:
  assumes valid: "rx_filter_valid (Some f)" and rel: "sampler_rel f s st"
  shows "fst (filter_apply f c st) = fst (sampler_apply f c s) \<and> sampler_rel f (snd (sampler_apply f c s)) (snd (filter_apply f c st))"
proof -
  obtain vp now where c: "c = (vp, now)" by (cases c)
  obtain k at where s: "s = (k, at)" by (cases s)
  have n: "fi_sample_every f \<noteq> 0" and rate: "fi_maximum_rate_hz f \<le> 1000000" using valid by (simp_all add: rx_filter_valid_def)
  have phase: "unat (sample_phase st) = k mod unat (fi_sample_every f)"
    and admitted: "at = (if last_admitted_set st then Some (unat (last_admitted_us st)) else None)"
    using rel by (simp_all add: sampler_rel_def s)
  have "k mod unat (fi_sample_every f) < unat (fi_sample_every f)" using n by (simp add: unat_gt_0)
  then have config: "\<not> (\<not> rx_filter_valid (Some f) \<or> fi_sample_every f \<le> sample_phase st)"
    using valid phase by (simp add: word_le_nat_alt)
  have sampled: "sample_phase st = 0 \<longleftrightarrow> k mod unat (fi_sample_every f) = 0" using phase by (simp flip: unat_eq_0)
  have soon: "(let interval = (1000000 + fi_maximum_rate_hz f - 1) div fi_maximum_rate_hz f
      in now < last_admitted_us st \<or> now - last_admitted_us st < ucast interval)
      \<longleftrightarrow> unat now < unat (last_admitted_us st) + rate_interval f" if "fi_maximum_rate_hz f \<noteq> 0"
    unfolding Let_def too_soon_code [OF rate that] using that by (simp add: rate_interval_def)
  define st' where "st' = st\<lparr>sample_phase := (if sample_phase st = fi_sample_every f - 1 then 0 else sample_phase st + 1)\<rparr>"
  have next_phase: "unat (sample_phase st') = (k + 1) mod unat (fi_sample_every f)"
    using phase_step [OF phase n] by (simp add: st'_def)
  have rest: "last_admitted_set st' = last_admitted_set st" "last_admitted_us st' = last_admitted_us st" by (simp_all add: st'_def)
  show ?thesis
  proof (cases "callback_valid vp")
    case False
    then show ?thesis using rel unfolding c s filter_apply.simps rx_filter_evaluate_def option.sel if_not_P [OF config] by simp
  next
    case callback: True
    show ?thesis
    proof (cases "static_verdict f (the vp)")
      case (Some reason)
      then show ?thesis using rel callback unfolding c s filter_apply.simps rx_filter_evaluate_def option.sel if_not_P [OF config] by simp
    next
      case None
      have code: "filter_apply f c st = (if sample_phase st \<noteq> 0 then (DECIMATION, st')
          else if fi_maximum_rate_hz f \<noteq> 0 \<and> last_admitted_set st \<and> unat now < unat (last_admitted_us st) + rate_interval f then (RATE, st')
          else (ACCEPT, st'\<lparr>last_admitted_set := True, last_admitted_us := now\<rparr>))"
        using callback None soon unfolding c filter_apply.simps rx_filter_evaluate_def option.sel if_not_P [OF config] rest [symmetric]
        by (simp add: st'_def [symmetric] rest Let_def cong: conj_cong)
      show ?thesis
        using callback None next_phase unfolding c s code [unfolded c] sampler_rel_def
        by (simp add: sampled admitted rest)
    qed
  qed
qed

lemma sampler_rel_initial: "sampler_rel f (0, None) filter_state_initial"
  by (simp add: sampler_rel_def filter_state_initial_def)

section \<open>The rate\<close>

text \<open>The times at which a run admits packets.\<close>

fun admitted_times :: "filter_result list \<Rightarrow> (rx_view option \<times> u64) list \<Rightarrow> nat list" where
  "admitted_times (r # rs) ((vp, now) # calls) = (if r = ACCEPT then unat now # admitted_times rs calls else admitted_times rs calls)"
| "admitted_times _ _ = []"

lemma static_not_accept: "static_verdict f view \<noteq> Some ACCEPT"
  by (simp add: static_verdict_def Let_def)

lemma sampler_gaps:
  assumes "fi_maximum_rate_hz f \<noteq> 0"
  shows "sorted_wrt (\<lambda>a b. a + rate_interval f \<le> b) (admitted_times (call_outputs (sampler_apply f) calls (k, at)) calls) \<and>
    (\<forall>t. at = Some t \<longrightarrow> (\<forall>a \<in> set (admitted_times (call_outputs (sampler_apply f) calls (k, at)) calls). t + rate_interval f \<le> a))"
proof (induction calls arbitrary: k at)
  case (Cons c calls)
  obtain vp now where c: "c = (vp, now)" by (cases c)
  obtain r k' at' where step: "sampler_apply f c (k, at) = (r, (k', at'))" by (metis prod_cases3)
  have at': "if r = ACCEPT then at' = Some (unat now) \<and> (\<forall>t. at = Some t \<longrightarrow> t + rate_interval f \<le> unat now) else at' = at"
    using step assms static_not_accept by (auto simp: c split: if_splits option.splits)
  define T where "T = admitted_times (call_outputs (sampler_apply f) calls (k', at')) calls"
  have times: "admitted_times (call_outputs (sampler_apply f) (c # calls) (k, at)) (c # calls) = (if r = ACCEPT then unat now # T else T)"
    using step unfolding c T_def by (simp del: sampler_apply.simps)
  have IH: "sorted_wrt (\<lambda>a b. a + rate_interval f \<le> b) T" "at' = Some t \<Longrightarrow> a \<in> set T \<Longrightarrow> t + rate_interval f \<le> a" for t a
    using Cons.IH [of k' at'] unfolding T_def by blast+
  show ?case
  proof (cases "r = ACCEPT")
    case True
    then have "\<forall>a \<in> set T. unat now + rate_interval f \<le> a" "\<forall>t. at = Some t \<longrightarrow> t + rate_interval f \<le> unat now"
      using IH(2) at' by auto
    then show ?thesis unfolding times using True IH(1) by fastforce
  next
    case False
    then show ?thesis unfolding times using IH at' by simp
  qed
qed simp

lemma gaps_last: "sorted_wrt (\<lambda>a b. a + d \<le> b) (x # xs) \<Longrightarrow> x + d * length xs \<le> last (x # xs)" for d :: nat
proof (induction xs arbitrary: x)
  case (Cons y ys)
  then have "y + d * length ys \<le> last (y # ys)" "x + d \<le> y" by auto
  then show ?case by simp
qed simp

lemma gaps_count:
  assumes "sorted_wrt (\<lambda>a b. a + d \<le> b) (xs :: nat list)" "\<forall>x \<in> set xs. lo \<le> x \<and> x < lo + d * n"
  shows "length xs \<le> n"
proof (cases xs)
  case (Cons y ys)
  have "y + d * length ys \<le> last (y # ys)" using assms(1) gaps_last by (simp add: Cons)
  moreover have "last (y # ys) < lo + d * n" "lo \<le> y" using assms(2) last_in_set [of "y # ys"] by (auto simp: Cons)
  ultimately have "d * length ys < d * n" by linarith
  then show ?thesis by (simp add: Cons)
qed simp

lemma interval_rate: "fi_maximum_rate_hz f \<noteq> 0 \<Longrightarrow> 1000000 \<le> rate_interval f * unat (fi_maximum_rate_hz f)"
proof -
  assume rate: "fi_maximum_rate_hz f \<noteq> 0"
  define r where "r = unat (fi_maximum_rate_hz f)"
  have r: "0 < r" using rate by (simp add: r_def unat_gt_0)
  define q where "q = (1000000 + r - 1) div r"
  have "1000000 + r - 1 = q * r + (1000000 + r - 1) mod r" unfolding q_def by (rule div_mult_mod_eq [symmetric])
  moreover have "(1000000 + r - 1) mod r < r" using r by simp
  ultimately have "1000000 \<le> q * r" by linarith
  then show ?thesis using rate by (simp add: rate_interval_def q_def r_def)
qed

interpretation filter_run: simulation "sampler_apply f" "filter_apply f" "\<lambda>n s st. rx_filter_valid (Some f) \<and> sampler_rel f s st"
  by unfold_locales (simp_all add: filter_step)

section \<open>Properties\<close>

text \<open>
  C28: Over a whole run of packets from a fresh state the filter gives the results of its
  specification: a packet that fails a static check is refused for the first reason in their order
  and changes nothing; of the others exactly the first and then every \<open>sample_every\<close>-th is a
  candidate, however many there are, and a candidate is admitted unless it comes less than the rate
  interval after the last admitted one, or before it.
\<close>

theorem wifi_rx_filter_refines:
  assumes "rx_filter_valid (Some f)"
  shows "call_outputs (filter_apply f) calls filter_state_initial = call_outputs (sampler_apply f) calls (0, None)"
  using assms by (intro filter_run.same_outputs) (simp add: sampler_rel_initial)

text \<open>
  C29: The rate limit holds in every window: whatever packets arrive and however the clock jumps, a run
  admits at most \<open>maximum_rate_hz\<close> packets with times in any one second.
\<close>

theorem wifi_rx_filter_rate:
  assumes "rx_filter_valid (Some f)" "fi_maximum_rate_hz f \<noteq> 0"
  shows "length (filter (\<lambda>t. lo \<le> t \<and> t < lo + 1000000)
      (admitted_times (call_outputs (filter_apply f) calls filter_state_initial) calls)) \<le> unat (fi_maximum_rate_hz f)"
proof (rule gaps_count)
  have run: "call_outputs (filter_apply f) calls filter_state_initial = call_outputs (sampler_apply f) calls (0, None)"
    using assms(1) by (intro filter_run.same_outputs) (simp add: sampler_rel_initial)
  show "sorted_wrt (\<lambda>a b. a + rate_interval f \<le> b)
      (filter (\<lambda>t. lo \<le> t \<and> t < lo + 1000000) (admitted_times (call_outputs (filter_apply f) calls filter_state_initial) calls))"
    unfolding run using sampler_gaps [OF assms(2)] by (intro sorted_wrt_filter) blast
  show "\<forall>x \<in> set (filter (\<lambda>t. lo \<le> t \<and> t < lo + 1000000) (admitted_times (call_outputs (filter_apply f) calls filter_state_initial) calls)).
      lo \<le> x \<and> x < lo + rate_interval f * unat (fi_maximum_rate_hz f)"
    using interval_rate [OF assms(2)] by auto
qed

text \<open>A filter for data frames, one in three, at most two each second.\<close>

definition example_filter :: rx_filter where
  "example_filter =
     \<lparr>fi_type_mask = 4, fi_subtype_filter = False, fi_minimum_rssi_set = False, fi_valid_only = False, fi_subtype_mask = 0,
      fi_frame_filter = False, fi_frame_subtype_masks = [0, 0, 0, 0], fi_minimum_rssi = 0, fi_source = \<lparr>mf_count = 0, mf_values = []\<rparr>,
      fi_destination = \<lparr>mf_count = 0, mf_values = []\<rparr>, fi_bssid = \<lparr>mf_count = 0, mf_values = []\<rparr>,
      fi_sample_every = 3, fi_maximum_rate_hz = 2\<rparr>"

definition example_view :: "rx_view option" where
  "example_view = Some \<lparr>vw_status = SPAN_METADATA_ONLY, vw_metadata = \<lparr>md_type = DATA, md_available = True, md_rssi = 0, md_rx_state = 0\<rparr>,
     vw_header = rx_header_reset, vw_header_type_matches = False\<rparr>"

lemma wifi_rx_filter_refines_witness:
  "call_outputs (filter_apply example_filter) [(example_view, 10), (example_view, 20), (None, 30), (example_view, 40), (example_view, 50)]
      filter_state_initial = [ACCEPT, DECIMATION, INVALID_CALLBACK, DECIMATION, RATE]"
proof -
  have "rx_filter_valid (Some example_filter)" by code_simp
  from wifi_rx_filter_refines [OF this] show ?thesis by simp code_simp
qed

lemma wifi_rx_filter_rate_witness:
  "length (filter (\<lambda>t. 0 \<le> t \<and> t < 0 + 1000000)
      (admitted_times (call_outputs (filter_apply example_filter) (replicate 9 (example_view, 7)) filter_state_initial) (replicate 9 (example_view, 7)))) \<le> 2"
proof -
  have "rx_filter_valid (Some example_filter)" "fi_maximum_rate_hz example_filter \<noteq> 0" by code_simp+
  from wifi_rx_filter_rate [OF this, of 0] show ?thesis by (simp add: example_filter_def)
qed

end
