(* ===== verification/Rx_Wire.thy ===== *)
theory Rx_Wire
  imports Wifi_Rx
begin

text \<open>
  \<open>modules/wifi_common/esp32_mquickjs_wifi_rx_wire.c\<close>: the binary form in which batches of
  received frames leave the device: a header, a directory entry and a metadata record per frame, then
  the payloads at 4-byte boundaries.  The preflight computes every offset in 32 bits with checked
  sums; an operation that returns false is \<open>None\<close>.
\<close>

section \<open>Constants and data\<close>

definition WIRE_HEADER_BYTES :: u32 where "WIRE_HEADER_BYTES = 32"
definition WIRE_METADATA_BYTES :: u32 where "WIRE_METADATA_BYTES = 256"
definition WIRE_MAX_FRAMES :: u32 where "WIRE_MAX_FRAMES = 128"
definition WIRE_CSI_DIRECTORY_BYTES :: u32 where "WIRE_CSI_DIRECTORY_BYTES = 40"
definition WIRE_MONITOR_DIRECTORY_BYTES :: u32 where "WIRE_MONITOR_DIRECTORY_BYTES = 24"
definition WIRE_CANONICAL :: u32 where "WIRE_CANONICAL = 1"

definition WIRE_PACKET_PRESENT :: u16 where "WIRE_PACKET_PRESENT = 0x01"
definition WIRE_PACKET_TRUNCATED :: u16 where "WIRE_PACKET_TRUNCATED = 0x02"
definition WIRE_PACKET_HEADER_ONLY :: u16 where "WIRE_PACKET_HEADER_ONLY = 0x04"
definition WIRE_PACKET_PARSED :: u16 where "WIRE_PACKET_PARSED = 0x08"
definition WIRE_PACKET_POINTER_VALID :: u16 where "WIRE_PACKET_POINTER_VALID = 0x10"
definition WIRE_RECORD_FLAGS :: u16 where "WIRE_RECORD_FLAGS = 0x1f"

datatype wire_kind = CSI | MONITOR | Other_Kind nat

record wire_frame =
  wf_csi_length :: u32
  wf_packet_length :: u32
  wf_driver_payload_length :: u32
  wf_packet_readable_length :: u32
  wf_sequence :: u32
  wf_captured_header_length :: u16
  wf_flags :: u16

record wire_layout =
  wl_frame_count :: u32
  wl_directory_bytes :: u32
  wl_metadata_base :: u32
  wl_control_bytes :: u32
  wl_total_bytes :: u32

record wire_offsets =
  wo_metadata_offset :: u32
  wo_csi_offset :: u32
  wo_packet_offset :: u32
  wo_end_offset :: u32

section \<open>The preflight\<close>

definition rx_wire_add :: "u32 \<Rightarrow> u32 \<Rightarrow> u32 option" where
  "rx_wire_add left right = (if - 1 - right < left then None else Some (left + right))"

definition rx_wire_align :: "u32 \<Rightarrow> u32 option" where
  "rx_wire_align offset = rx_wire_add offset ((4 - (offset AND 3)) AND 3)"

definition rx_wire_frame_valid :: "wire_kind \<Rightarrow> wire_frame \<Rightarrow> bool" where
  "rx_wire_frame_valid kind frame =
     (if wf_flags frame AND NOT WIRE_RECORD_FLAGS \<noteq> 0 \<or>
        wf_packet_length frame < ucast (wf_captured_header_length frame) \<or>
        wf_packet_readable_length frame < wf_packet_length frame \<or>
        kind = MONITOR \<and> wf_csi_length frame \<noteq> 0 then False
      else let present = (wf_flags frame AND WIRE_PACKET_PRESENT \<noteq> 0);
          header_only = (wf_flags frame AND WIRE_PACKET_HEADER_ONLY \<noteq> 0);
          truncated = (wf_flags frame AND WIRE_PACKET_TRUNCATED \<noteq> 0)
        in if present \<noteq> (wf_packet_length frame \<noteq> 0) then False
           else let pointer_valid = (wf_flags frame AND WIRE_PACKET_POINTER_VALID \<noteq> 0);
               parsed = (wf_flags frame AND WIRE_PACKET_PARSED \<noteq> 0)
             in if parsed \<and> \<not> pointer_valid then False
                else if \<not> present then \<not> header_only \<and> \<not> truncated \<and> wf_captured_header_length frame = 0
                else if \<not> pointer_valid then False
                else if header_only
                then \<not> (truncated \<or> ucast (wf_captured_header_length frame) \<noteq> wf_packet_length frame \<or>
                  wf_flags frame AND WIRE_PACKET_PARSED = 0)
                else \<not> (wf_packet_length frame < wf_packet_readable_length frame \<and> \<not> truncated))"

text \<open>The offsets of one frame's CSI and packet, and the cursor behind them.\<close>

definition rx_wire_advance :: "wire_frame \<Rightarrow> u32 \<Rightarrow> (u32 \<times> u32 \<times> u32) option" where
  "rx_wire_advance frame cursor =
     do {
       let csi_offset = (if wf_csi_length frame \<noteq> 0 then cursor else 0);
       cursor \<leftarrow> rx_wire_add cursor (wf_csi_length frame);
       cursor \<leftarrow> rx_wire_align cursor;
       let packet_offset = (if wf_packet_length frame \<noteq> 0 then cursor else 0);
       cursor \<leftarrow> rx_wire_add cursor (wf_packet_length frame);
       cursor \<leftarrow> rx_wire_align cursor;
       Some (csi_offset, packet_offset, cursor)
     }"

fun layout_loop :: "wire_kind \<Rightarrow> wire_frame list \<Rightarrow> u32 \<Rightarrow> u32 option" where
  "layout_loop kind [] cursor = Some cursor"
| "layout_loop kind (frame # frames) cursor =
     (if \<not> rx_wire_frame_valid kind frame then None
      else do {
        (csi, packet, cursor) \<leftarrow> rx_wire_advance frame cursor;
        layout_loop kind frames cursor
      })"

definition rx_wire_layout :: "wire_kind \<Rightarrow> wire_frame list option \<Rightarrow> u32 \<Rightarrow> wire_layout option" where
  "rx_wire_layout kind pointer frame_count =
     (if pointer = None \<or> frame_count = 0 \<or> WIRE_MAX_FRAMES < frame_count \<or> (kind \<noteq> CSI \<and> kind \<noteq> MONITOR) then None
      else do {
        let directory = (if kind = CSI then WIRE_CSI_DIRECTORY_BYTES else WIRE_MONITOR_DIRECTORY_BYTES);
        let metadata_base = WIRE_HEADER_BYTES + frame_count * directory;
        let control = metadata_base + frame_count * WIRE_METADATA_BYTES;
        total \<leftarrow> layout_loop kind (take (unat frame_count) (the pointer)) control;
        Some \<lparr>wl_frame_count = frame_count, wl_directory_bytes = directory, wl_metadata_base = metadata_base,
          wl_control_bytes = control, wl_total_bytes = total\<rparr>
      })"

text \<open>The loop up to \<open>index\<close>: the offsets of the last frame it takes.\<close>

fun offsets_loop :: "wire_frame list \<Rightarrow> u32 \<Rightarrow> (u32 \<times> u32 \<times> u32) \<Rightarrow> (u32 \<times> u32 \<times> u32) option" where
  "offsets_loop [] cursor result = Some result"
| "offsets_loop (frame # frames) cursor result =
     do {
       (csi, packet, cursor) \<leftarrow> rx_wire_advance frame cursor;
       offsets_loop frames cursor (csi, packet, cursor)
     }"

definition rx_wire_offsets :: "wire_kind \<Rightarrow> wire_frame list option \<Rightarrow> u32 \<Rightarrow> u32 \<Rightarrow> wire_offsets option" where
  "rx_wire_offsets kind pointer frame_count index =
     (if frame_count \<le> index then None
      else do {
        layout \<leftarrow> rx_wire_layout kind pointer frame_count;
        (csi, packet, cursor) \<leftarrow> offsets_loop (take (unat index + 1) (the pointer)) (wl_control_bytes layout) (0, 0, 0);
        Some \<lparr>wo_metadata_offset = wl_metadata_base layout + index * WIRE_METADATA_BYTES, wo_csi_offset = csi,
          wo_packet_offset = packet, wo_end_offset = cursor\<rparr>
      })"

section \<open>The control block\<close>

definition rx_wire_u16 :: "bytes \<Rightarrow> nat \<Rightarrow> u16 \<Rightarrow> bytes option" where
  "rx_wire_u16 out off v = write_at out off [ucast v, ucast (drop_bit 8 v)]"

definition rx_wire_u32 :: "bytes \<Rightarrow> nat \<Rightarrow> u32 \<Rightarrow> bytes option" where
  "rx_wire_u32 out off v = write_at out off [ucast v, ucast (drop_bit 8 v), ucast (drop_bit 16 v), ucast (drop_bit 24 v)]"

definition write_directory_entry :: "wire_kind \<Rightarrow> wire_frame \<Rightarrow> u32 \<Rightarrow> u32 \<times> u32 \<times> u32 \<Rightarrow> bytes \<Rightarrow> nat \<Rightarrow> bytes option" where
  "write_directory_entry kind frame metadata offsets out directory =
     (case offsets of (csi_offset, packet_offset, end_offset) \<Rightarrow> do {
        out \<leftarrow> rx_wire_u32 out directory metadata;
        if kind = CSI
        then do {
          out \<leftarrow> rx_wire_u32 out (directory + 4) csi_offset;
          out \<leftarrow> rx_wire_u32 out (directory + 8) (wf_csi_length frame);
          out \<leftarrow> rx_wire_u32 out (directory + 12) packet_offset;
          out \<leftarrow> rx_wire_u32 out (directory + 16) (wf_packet_length frame);
          out \<leftarrow> rx_wire_u16 out (directory + 20) (wf_captured_header_length frame);
          out \<leftarrow> rx_wire_u16 out (directory + 22) (wf_flags frame);
          out \<leftarrow> rx_wire_u32 out (directory + 24) (wf_driver_payload_length frame);
          out \<leftarrow> rx_wire_u32 out (directory + 28) (wf_packet_readable_length frame);
          rx_wire_u32 out (directory + 32) (wf_sequence frame)
        }
        else do {
          out \<leftarrow> rx_wire_u32 out (directory + 4) packet_offset;
          out \<leftarrow> rx_wire_u32 out (directory + 8) (wf_packet_length frame);
          out \<leftarrow> rx_wire_u32 out (directory + 12) (wf_driver_payload_length frame);
          out \<leftarrow> rx_wire_u32 out (directory + 16) (wf_packet_readable_length frame);
          out \<leftarrow> rx_wire_u16 out (directory + 20) (wf_captured_header_length frame);
          rx_wire_u16 out (directory + 22) (wf_flags frame)
        }
      })"

fun write_directory :: "wire_kind \<Rightarrow> wire_layout \<Rightarrow> wire_frame list \<Rightarrow> nat \<Rightarrow> u32 \<Rightarrow> bytes \<Rightarrow> bytes option" where
  "write_directory kind layout [] i cursor out = Some out"
| "write_directory kind layout (frame # frames) i cursor out =
     do {
       (csi, packet, cursor) \<leftarrow> rx_wire_advance frame cursor;
       out \<leftarrow> write_directory_entry kind frame (wl_metadata_base layout + of_nat i * WIRE_METADATA_BYTES) (csi, packet, cursor) out
         (unat WIRE_HEADER_BYTES + i * unat (wl_directory_bytes layout));
       write_directory kind layout frames (i + 1) cursor out
     }"

definition wire_magic :: "wire_kind \<Rightarrow> bytes" where
  "wire_magic kind = map (\<lambda>c. of_nat (of_char c)) (if kind = CSI then ''E32QCSI1'' else ''E32QMON1'')"

definition write_header :: "wire_kind \<Rightarrow> wire_layout \<Rightarrow> bytes \<Rightarrow> bytes option" where
  "write_header kind layout out =
     do {
       out \<leftarrow> write_at out 0 (replicate (unat (wl_control_bytes layout)) 0);
       out \<leftarrow> write_at out 0 (wire_magic kind);
       out \<leftarrow> rx_wire_u16 out 8 1;
       out \<leftarrow> rx_wire_u16 out 10 (ucast WIRE_HEADER_BYTES);
       out \<leftarrow> rx_wire_u32 out 12 (wl_frame_count layout);
       out \<leftarrow> rx_wire_u16 out 16 (ucast (wl_directory_bytes layout));
       out \<leftarrow> rx_wire_u16 out 18 (ucast WIRE_METADATA_BYTES);
       out \<leftarrow> rx_wire_u32 out 20 WIRE_CANONICAL;
       rx_wire_u32 out 24 (wl_total_bytes layout)
     }"

text \<open>
  The addresses of the frames and of the output and the size of a frame are arguments, for the check
  that they are apart.  The outer option is \<open>None\<close> when a write leaves the output, which C leaves
  undefined.
\<close>

definition control_apart :: "u32 \<Rightarrow> u32 \<Rightarrow> u32 \<Rightarrow> u32 \<Rightarrow> bool" where
  "control_apart input_start input_bytes output_start control_bytes \<longleftrightarrow>
     \<not> (- 1 - input_bytes < input_start \<or> - 1 - control_bytes < output_start \<or>
       input_start < output_start + control_bytes \<and> output_start < input_start + input_bytes)"

definition rx_wire_write_control ::
  "u32 \<Rightarrow> u32 \<Rightarrow> u32 \<Rightarrow> wire_kind \<Rightarrow> wire_frame list option \<Rightarrow> u32 \<Rightarrow> bytes option \<Rightarrow> u32 \<Rightarrow> (bool \<times> bytes option) option" where
  "rx_wire_write_control frames_at out_at frame_size kind pointer frame_count out output_capacity =
     (if out = None then Some (False, out)
      else case rx_wire_layout kind pointer frame_count of
          None \<Rightarrow> Some (False, out)
        | Some layout \<Rightarrow>
            if output_capacity < wl_control_bytes layout then Some (False, out)
            else if \<not> control_apart frames_at (frame_count * frame_size) out_at (wl_control_bytes layout) then Some (False, out)
            else do {
              written \<leftarrow> write_header kind layout (the out);
              written \<leftarrow> write_directory kind layout (take (unat frame_count) (the pointer)) 0 (wl_control_bytes layout) written;
              Some (True, Some written)
            })"

section \<open>Where the payloads go\<close>

definition pad4 :: "nat \<Rightarrow> nat" where "pad4 n = (n + 3) div 4 * 4"

text \<open>The layout in unbounded numbers: where the CSI and the packet of each frame start, and the end.\<close>

definition place_frame :: "wire_frame \<Rightarrow> nat \<Rightarrow> nat \<times> nat" where
  "place_frame f c = (let p = pad4 (c + unat (wf_csi_length f)) in (p, pad4 (p + unat (wf_packet_length f))))"

fun place_frames :: "wire_frame list \<Rightarrow> nat \<Rightarrow> nat" where
  "place_frames [] c = c"
| "place_frames (f # fs) c = place_frames fs (snd (place_frame f c))"

lemma pad4_bounds: "n \<le> pad4 n" "pad4 n < n + 4" "4 dvd pad4 n"
proof -
  have "(n + 3) div 4 * 4 + (n + 3) mod 4 = n + 3" by (rule div_mult_mod_eq)
  moreover have "(n + 3) mod 4 < 4" by simp
  ultimately show "n \<le> pad4 n" "pad4 n < n + 4" unfolding pad4_def by linarith+
  show "4 dvd pad4 n" by (simp add: pad4_def)
qed

lemma pad4_unfold: "pad4 n = n + (4 - n mod 4) mod 4"
proof -
  have "n = n div 4 * 4 + n mod 4" by simp
  moreover have "n mod 4 < 4" by simp
  then consider "n mod 4 = 0" | "n mod 4 = 1" | "n mod 4 = 2" | "n mod 4 = 3" by linarith
  then show ?thesis by cases (simp_all add: pad4_def; presburger)+
qed

lemma rx_wire_add_spec: "rx_wire_add a b = (if unat a + unat b < 2 ^ 32 then Some (a + b) else None)"
  using span_guard [of b a] unfolding rx_wire_add_def by (simp only: add.commute) presburger

lemma padding_code: "unat ((4 - (w AND 3)) AND 3) = (4 - unat w mod 4) mod 4" for w :: u32
proof -
  have mask: "unat (x AND 3) = unat x mod 4" for x :: u32
  proof -
    have "x AND 3 = take_bit 2 x" by (simp add: take_bit_eq_mask mask_eq_exp_minus_1)
    then have "unat (x AND 3) = take_bit 2 (unat x)" by (simp only: unsigned_take_bit_eq)
    then show ?thesis by (simp add: take_bit_eq_mod)
  qed
  have "unat (w AND 3) \<le> 4" using mask [of w] by simp
  then have "unat (4 - (w AND 3)) = 4 - unat w mod 4" using unat_sub_le [of "w AND 3" 4] mask [of w] by (simp add: word_le_nat_alt)
  then show ?thesis by (simp add: mask)
qed

lemma rx_wire_align_spec: "rx_wire_align w = (if pad4 (unat w) < 2 ^ 32 then Some (of_nat (pad4 (unat w))) else None)"
proof -
  have "w + ((4 - (w AND 3)) AND 3) = of_nat (unat w + (4 - unat w mod 4) mod 4)"
    unfolding padding_code [symmetric] by simp
  then show ?thesis unfolding rx_wire_align_def rx_wire_add_spec padding_code pad4_unfold by simp
qed

lemma rx_wire_advance_spec:
  assumes "unat cursor = c"
  shows "rx_wire_advance f cursor =
    (if snd (place_frame f c) < 2 ^ 32
     then Some (if wf_csi_length f \<noteq> 0 then cursor else 0, if wf_packet_length f \<noteq> 0 then of_nat (fst (place_frame f c)) else 0,
       of_nat (snd (place_frame f c)))
     else None)"
proof -
  let ?p = "pad4 (c + unat (wf_csi_length f))"
  let ?e = "pad4 (?p + unat (wf_packet_length f))"
  have order: "c + unat (wf_csi_length f) \<le> ?p" "?p + unat (wf_packet_length f) \<le> ?e" by (rule pad4_bounds)+
  have unat: "unat (of_nat n :: u32) = n" if "n < 2 ^ 32" for n using that by (intro unat_of_nat_lt) simp
  have sum: "unat (a + b) = unat a + unat b" if "unat a + unat b < 2 ^ 32" for a b :: u32 using that by (intro unat_add_fits) simp
  consider "c + unat (wf_csi_length f) \<ge> 2 ^ 32" | "c + unat (wf_csi_length f) < 2 ^ 32" "?p \<ge> 2 ^ 32"
    | "c + unat (wf_csi_length f) < 2 ^ 32" "?p < 2 ^ 32" "?p + unat (wf_packet_length f) \<ge> 2 ^ 32"
    | "c + unat (wf_csi_length f) < 2 ^ 32" "?p < 2 ^ 32" "?p + unat (wf_packet_length f) < 2 ^ 32" by linarith
  then show ?thesis
  proof cases
    case 1
    then have "\<not> ?e < 2 ^ 32" using order by linarith
    then show ?thesis using 1 assms by (simp add: rx_wire_advance_def rx_wire_add_spec place_frame_def Let_def)
  next
    case 2
    then have "\<not> ?e < 2 ^ 32" using order by linarith
    then show ?thesis using 2 assms sum [of cursor "wf_csi_length f"]
      by (simp add: rx_wire_advance_def rx_wire_add_spec rx_wire_align_spec place_frame_def Let_def)
  next
    case 3
    then have "\<not> ?e < 2 ^ 32" using order by linarith
    then show ?thesis using 3 assms sum [of cursor "wf_csi_length f"] unat [of ?p]
      by (simp add: rx_wire_advance_def rx_wire_add_spec rx_wire_align_spec place_frame_def Let_def)
  next
    case 4
    then show ?thesis using assms sum [of cursor "wf_csi_length f"] sum [of "of_nat ?p" "wf_packet_length f"] unat [of ?p]
      by (simp add: rx_wire_advance_def rx_wire_add_spec rx_wire_align_spec place_frame_def Let_def)
  qed
qed

lemma place_frame_order:
  "c \<le> fst (place_frame f c)" "c + unat (wf_csi_length f) \<le> fst (place_frame f c)"
    "fst (place_frame f c) + unat (wf_packet_length f) \<le> snd (place_frame f c)" "4 dvd fst (place_frame f c)" "4 dvd snd (place_frame f c)"
  using pad4_bounds [of "c + unat (wf_csi_length f)"] pad4_bounds [of "pad4 (c + unat (wf_csi_length f)) + unat (wf_packet_length f)"]
  by (auto simp: place_frame_def Let_def)

lemma place_frames_ge: "c \<le> place_frames fs c"
proof (induction fs arbitrary: c)
  case (Cons f fs)
  have "c \<le> snd (place_frame f c)" using place_frame_order(2,3) [where c = c and f = f] by linarith
  also have "\<dots> \<le> place_frames fs (snd (place_frame f c))" by (rule Cons.IH)
  finally show ?case by simp
qed simp

lemma layout_loop_spec:
  assumes "unat cursor = c"
  shows "layout_loop kind fs cursor = (if (\<forall>f \<in> set fs. rx_wire_frame_valid kind f) \<and> place_frames fs c < 2 ^ 32 then Some (of_nat (place_frames fs c)) else None)"
  using assms
proof (induction fs arbitrary: cursor c)
  case Nil
  have "unat cursor < 2 ^ LENGTH(32)" by (rule unsigned_less)
  then have "c < 2 ^ 32" using Nil by simp
  then show ?case using Nil by auto
next
  case (Cons f fs)
  show ?case
  proof (cases "snd (place_frame f c) < 2 ^ 32")
    case True
    then have "unat (of_nat (snd (place_frame f c)) :: u32) = snd (place_frame f c)" by (intro unat_of_nat_lt) simp
    from Cons.IH [OF this] show ?thesis using True by (simp add: rx_wire_advance_spec [OF Cons.prems])
  next
    case False
    then have "\<not> place_frames fs (snd (place_frame f c)) < 2 ^ 32" using place_frames_ge [of "snd (place_frame f c)" fs] by linarith
    then show ?thesis using False by (simp add: rx_wire_advance_spec [OF Cons.prems])
  qed
qed

text \<open>The offsets the layout gives to frames from \<open>c\<close> on, with metadata records from \<open>m\<close> on.\<close>

definition frame_offsets :: "wire_frame \<Rightarrow> nat \<Rightarrow> nat \<Rightarrow> wire_offsets" where
  "frame_offsets f m c =
     \<lparr>wo_metadata_offset = of_nat m, wo_csi_offset = (if wf_csi_length f \<noteq> 0 then of_nat c else 0),
      wo_packet_offset = (if wf_packet_length f \<noteq> 0 then of_nat (fst (place_frame f c)) else 0), wo_end_offset = of_nat (snd (place_frame f c))\<rparr>"

fun all_offsets :: "wire_frame list \<Rightarrow> nat \<Rightarrow> nat \<Rightarrow> wire_offsets list" where
  "all_offsets [] m c = []"
| "all_offsets (f # fs) m c = frame_offsets f m c # all_offsets fs (m + 256) (snd (place_frame f c))"

text \<open>The stretches of the output that hold payload: start and length.\<close>

definition frame_spans :: "wire_frame \<Rightarrow> wire_offsets \<Rightarrow> (nat \<times> nat) list" where
  "frame_spans f off =
     (if wf_csi_length f \<noteq> 0 then [(unat (wo_csi_offset off), unat (wf_csi_length f))] else []) @
     (if wf_packet_length f \<noteq> 0 then [(unat (wo_packet_offset off), unat (wf_packet_length f))] else [])"

definition before :: "nat \<times> nat \<Rightarrow> nat \<times> nat \<Rightarrow> bool" where
  "before s t \<longleftrightarrow> fst s + snd s \<le> fst t"

lemma place_frames_append: "place_frames (xs @ ys) c = place_frames ys (place_frames xs c)"
  by (induction xs arbitrary: c) simp_all

lemma place_frames_take: "place_frames (take i fs) c \<le> place_frames fs c"
proof -
  have "place_frames fs c = place_frames (drop i fs) (place_frames (take i fs) c)"
    using place_frames_append [of "take i fs" "drop i fs" c] by simp
  then show ?thesis by (simp add: place_frames_ge)
qed

lemma length_all_offsets [simp]: "length (all_offsets fs m c) = length fs"
  by (induction fs arbitrary: m c) simp_all

lemma nth_all_offsets: "i < length fs \<Longrightarrow> all_offsets fs m c ! i = frame_offsets (fs ! i) (m + 256 * i) (place_frames (take i fs) c)"
proof (induction fs arbitrary: i m c)
  case (Cons f fs)
  then show ?case by (cases i) (simp_all add: algebra_simps)
qed simp

lemma offsets_loop_spec:
  assumes "unat cursor = c" "place_frames (fs @ [f]) c < 2 ^ 32"
  shows "offsets_loop (fs @ [f]) cursor r = (let off = frame_offsets f 0 (place_frames fs c) in Some (wo_csi_offset off, wo_packet_offset off, wo_end_offset off))"
  using assms
proof (induction fs arbitrary: cursor c r)
  case Nil
  have cursor: "of_nat c = cursor" using Nil(1) by auto
  show ?case using Nil(2) by (simp add: rx_wire_advance_spec [OF Nil(1)] frame_offsets_def cursor)
next
  case (Cons g fs)
  have "snd (place_frame g c) < 2 ^ 32" using Cons.prems(2) place_frames_ge [of "snd (place_frame g c)" "fs @ [f]"] by simp
  moreover from this have "unat (of_nat (snd (place_frame g c)) :: u32) = snd (place_frame g c)" by (intro unat_of_nat_lt) simp
  ultimately show ?case using Cons.IH Cons.prems(2) by (simp add: rx_wire_advance_spec [OF Cons.prems(1)])
qed

lemma spans_in_order:
  assumes "place_frames fs c < 2 ^ 32" "4 dvd c"
  shows "sorted_wrt before (concat (map2 frame_spans fs (all_offsets fs m c))) \<and>
    (\<forall>s \<in> set (concat (map2 frame_spans fs (all_offsets fs m c))). 4 dvd fst s \<and> c \<le> fst s \<and> fst s + snd s \<le> place_frames fs c)"
  using assms
proof (induction fs arbitrary: m c)
  case (Cons f fs)
  let ?e = "snd (place_frame f c)" and ?p = "fst (place_frame f c)"
  let ?rest = "concat (map2 frame_spans fs (all_offsets fs (m + 256) ?e))"
  have order: "c + unat (wf_csi_length f) \<le> ?p" "?p + unat (wf_packet_length f) \<le> ?e" "4 dvd ?p" "4 dvd ?e"
    using place_frame_order [where c = c and f = f] by blast+
  have total: "place_frames (f # fs) c = place_frames fs ?e" "?e \<le> place_frames fs ?e" by (simp_all add: place_frames_ge)
  then have fits: "c < 2 ^ 32" "?p < 2 ^ 32" using order Cons.prems(1) by linarith+
  then have "unat (of_nat c :: u32) = c" "unat (of_nat ?p :: u32) = ?p" by (auto intro: unat_of_nat_lt)
  then have spans: "frame_spans f (frame_offsets f m c) = (if wf_csi_length f \<noteq> 0 then [(c, unat (wf_csi_length f))] else []) @
      (if wf_packet_length f \<noteq> 0 then [(?p, unat (wf_packet_length f))] else [])"
    by (simp add: frame_spans_def frame_offsets_def)
  have first: "sorted_wrt before (frame_spans f (frame_offsets f m c))"
    "\<forall>s \<in> set (frame_spans f (frame_offsets f m c)). 4 dvd fst s \<and> c \<le> fst s \<and> fst s + snd s \<le> ?e"
    unfolding spans using order Cons.prems(2) by (auto simp: before_def)
  have rest: "sorted_wrt before ?rest" "\<forall>s \<in> set ?rest. 4 dvd fst s \<and> ?e \<le> fst s \<and> fst s + snd s \<le> place_frames fs ?e"
    using Cons.IH [of ?e "m + 256"] Cons.prems(1) order(4) total(1) by auto
  have all: "concat (map2 frame_spans (f # fs) (all_offsets (f # fs) m c)) = frame_spans f (frame_offsets f m c) @ ?rest" by simp
  have "c \<le> ?e" using order by linarith
  then show ?case unfolding all sorted_wrt_append set_append total(1)
    using first rest total(2) by (fastforce simp: before_def)
qed simp

section \<open>The preflight is right\<close>

definition directory_size :: "wire_kind \<Rightarrow> nat" where "directory_size kind = (if kind = CSI then 40 else 24)"
definition metadata_start :: "wire_kind \<Rightarrow> nat \<Rightarrow> nat" where "metadata_start kind n = 32 + n * directory_size kind"
definition payload_start :: "wire_kind \<Rightarrow> nat \<Rightarrow> nat" where "payload_start kind n = metadata_start kind n + n * 256"

definition batch_ok :: "wire_kind \<Rightarrow> wire_frame list \<Rightarrow> bool" where
  "batch_ok kind fs \<longleftrightarrow> kind \<in> {CSI, MONITOR} \<and> 0 < length fs \<and> length fs \<le> 128 \<and> (\<forall>f \<in> set fs. rx_wire_frame_valid kind f) \<and>
     place_frames fs (payload_start kind (length fs)) < 2 ^ 32"

definition layout_of :: "wire_kind \<Rightarrow> wire_frame list \<Rightarrow> wire_layout" where
  "layout_of kind fs =
     \<lparr>wl_frame_count = of_nat (length fs), wl_directory_bytes = of_nat (directory_size kind),
      wl_metadata_base = of_nat (metadata_start kind (length fs)), wl_control_bytes = of_nat (payload_start kind (length fs)),
      wl_total_bytes = of_nat (place_frames fs (payload_start kind (length fs)))\<rparr>"

lemma layout_spec:
  assumes "unat count \<le> length frames"
  defines "fs \<equiv> take (unat count) frames"
  shows "rx_wire_layout kind (Some frames) count = (if batch_ok kind fs then Some (layout_of kind fs) else None)"
proof (cases "count = 0 \<or> WIRE_MAX_FRAMES < count \<or> (kind \<noteq> CSI \<and> kind \<noteq> MONITOR)")
  case True
  have "length fs = unat count" using assms by simp
  then have "\<not> batch_ok kind fs" using True by (auto simp: batch_ok_def WIRE_MAX_FRAMES_def word_less_nat_alt)
  then show ?thesis using True by (auto simp: rx_wire_layout_def)
next
  case False
  define n where "n = unat count"
  have len: "length fs = n" using assms by (simp add: n_def)
  have n: "0 < n" "n \<le> 128" using False by (auto simp: n_def WIRE_MAX_FRAMES_def word_less_nat_alt unat_gt_0 not_less)
  have kind: "kind = CSI \<or> kind = MONITOR" using False by blast
  have count: "count = of_nat n" by (simp add: n_def)
  have control: "WIRE_HEADER_BYTES + count * (if kind = CSI then WIRE_CSI_DIRECTORY_BYTES else WIRE_MONITOR_DIRECTORY_BYTES) = of_nat (metadata_start kind n)"
    "of_nat (metadata_start kind n) + count * WIRE_METADATA_BYTES = (of_nat (payload_start kind n) :: u32)"
    by (simp_all add: count metadata_start_def payload_start_def directory_size_def WIRE_HEADER_BYTES_def WIRE_CSI_DIRECTORY_BYTES_def
        WIRE_MONITOR_DIRECTORY_BYTES_def WIRE_METADATA_BYTES_def)
  have "payload_start kind n < 2 ^ 32" using n by (simp add: payload_start_def metadata_start_def directory_size_def)
  then have start: "unat (of_nat (payload_start kind n) :: u32) = payload_start kind n" by (intro unat_of_nat_lt) simp
  have "rx_wire_layout kind (Some frames) count = do {
      total \<leftarrow> layout_loop kind fs (of_nat (payload_start kind n));
      Some (layout_of kind fs\<lparr>wl_total_bytes := total\<rparr>) }"
  proof -
    have args: "\<not> (Some frames = None \<or> count = 0 \<or> WIRE_MAX_FRAMES < count \<or> (kind \<noteq> CSI \<and> kind \<noteq> MONITOR))" using False by blast
    have fs: "take (unat count) frames = fs" by (simp add: fs_def)
    have directory: "(if kind = CSI then WIRE_CSI_DIRECTORY_BYTES else WIRE_MONITOR_DIRECTORY_BYTES) = of_nat (directory_size kind)"
      by (simp add: directory_size_def WIRE_CSI_DIRECTORY_BYTES_def WIRE_MONITOR_DIRECTORY_BYTES_def)
    show ?thesis
      unfolding rx_wire_layout_def if_not_P [OF args] Let_def control option.sel fs
      by (simp add: layout_of_def len count [symmetric] directory)
  qed
  then show ?thesis
    using n kind by (auto simp: layout_loop_spec [OF start] batch_ok_def len layout_of_def)
qed

lemma batch_small:
  assumes "batch_ok kind fs"
  shows "length fs \<le> 128" "payload_start kind (length fs) < 2 ^ 32" "metadata_start kind (length fs) + 256 * length fs = payload_start kind (length fs)"
    "4 dvd payload_start kind (length fs)"
  using assms by (auto simp: batch_ok_def payload_start_def metadata_start_def directory_size_def)

lemma offsets_spec:
  assumes readable: "unat count \<le> length frames" and ok: "batch_ok kind (take (unat count) frames)" and i: "index < count"
  defines "fs \<equiv> take (unat count) frames"
  shows "rx_wire_offsets kind (Some frames) count index =
    Some (all_offsets fs (metadata_start kind (length fs)) (payload_start kind (length fs)) ! unat index)"
proof -
  let ?c = "payload_start kind (length fs)" and ?m = "metadata_start kind (length fs)" and ?i = "unat index"
  have layout: "rx_wire_layout kind (Some frames) count = Some (layout_of kind fs)"
    unfolding layout_spec [OF readable] using ok by (simp add: fs_def)
  have index: "?i < length fs" "?i < unat count" using i readable by (auto simp: fs_def word_less_nat_alt)
  have small: "?c < 2 ^ 32" using batch_small [OF ok] unfolding fs_def by blast
  then have start: "unat (of_nat ?c :: u32) = ?c" by (intro unat_of_nat_lt) simp
  have split: "take (?i + 1) frames = take ?i fs @ [fs ! ?i]"
    using index readable by (simp add: fs_def take_Suc_conv_app_nth min_def)
  have "place_frames fs ?c < 2 ^ 32" using ok by (simp add: batch_ok_def fs_def)
  moreover have "take ?i fs @ [fs ! ?i] = take (?i + 1) fs" using index(1) by (simp add: take_Suc_conv_app_nth)
  ultimately have "place_frames (take ?i fs @ [fs ! ?i]) ?c < 2 ^ 32"
    using place_frames_take [of "?i + 1" fs ?c] by (simp only:)
  note loop = offsets_loop_spec [OF start this]
  have metadata: "of_nat ?m + index * WIRE_METADATA_BYTES = (of_nat (?m + 256 * ?i) :: u32)" by (simp add: WIRE_METADATA_BYTES_def)
  have "\<not> count \<le> index" using i by simp
  then show ?thesis
    using layout
    by (simp only: rx_wire_offsets_def split option.sel if_False bind.bind_lunit nth_all_offsets [OF index(1)])
      (simp add: layout_of_def loop frame_offsets_def Let_def metadata)
qed

text \<open>
  C31: The preflight of a batch is right for every list of frames.  It succeeds exactly for 1 to 128
  valid frames of a known kind whose layout ends below \<open>2^32\<close>; then the control block has the size of
  its parts, the metadata records follow one another in front of the payload, and the stretches of
  all CSI and packet bytes of all frames start at multiples of 4, follow one another without overlap,
  and lie between the end of the control block and the total size.
\<close>

theorem wifi_rx_wire_layout_spans:
  assumes "unat count \<le> length frames"
  defines "fs \<equiv> take (unat count) frames" and "n \<equiv> unat count"
  shows "if batch_ok kind fs
    then \<exists>l offs. rx_wire_layout kind (Some frames) count = Some l \<and>
      map (\<lambda>i. rx_wire_offsets kind (Some frames) count (of_nat i)) [0..<n] = map Some offs \<and>
      unat (wl_control_bytes l) = 32 + n * directory_size kind + n * 256 \<and>
      (\<forall>i < n. unat (wo_metadata_offset (offs ! i)) = 32 + n * directory_size kind + i * 256) \<and>
      sorted_wrt before (concat (map2 frame_spans fs offs)) \<and>
      (\<forall>s \<in> set (concat (map2 frame_spans fs offs)).
        4 dvd fst s \<and> unat (wl_control_bytes l) \<le> fst s \<and> fst s + snd s \<le> unat (wl_total_bytes l))
    else rx_wire_layout kind (Some frames) count = None"
proof (cases "batch_ok kind fs")
  case False
  then show ?thesis using layout_spec [OF assms(1), of kind] by (simp add: fs_def)
next
  case ok: True
  have len: "length fs = n" using assms(1) by (simp add: fs_def n_def)
  let ?c = "payload_start kind n" and ?m = "metadata_start kind n"
  let ?offs = "all_offsets fs ?m ?c"
  have layout: "rx_wire_layout kind (Some frames) count = Some (layout_of kind fs)"
    using layout_spec [OF assms(1), of kind] ok by (simp add: fs_def)
  have total: "place_frames fs ?c < 2 ^ 32" using ok by (simp add: batch_ok_def len)
  note small = batch_small [OF ok, unfolded len]
  have nats: "unat (of_nat k :: u32) = k" if "k < 2 ^ 32" for k using that by (intro unat_of_nat_lt) simp
  have sizes: "unat (wl_control_bytes (layout_of kind fs)) = ?c" "unat (wl_total_bytes (layout_of kind fs)) = place_frames fs ?c"
    using nats [OF small(2)] nats [OF total] by (simp_all add: layout_of_def len)
  have each: "rx_wire_offsets kind (Some frames) count (of_nat i) = Some (?offs ! i)" if "i < n" for i
  proof -
    have "i < 2 ^ 32" using that small(1) by simp
    then have i: "unat (of_nat i :: u32) = i" by (rule nats)
    then have "of_nat i < count" using that by (simp add: word_less_nat_alt n_def)
    from offsets_spec [OF assms(1) ok [unfolded fs_def] this] show ?thesis by (simp add: i fs_def [symmetric] len)
  qed
  have offs: "map (\<lambda>i. rx_wire_offsets kind (Some frames) count (of_nat i)) [0..<n] = map Some ?offs"
    by (rule nth_equalityI) (simp_all add: each len)
  have metadata: "unat (wo_metadata_offset (?offs ! i)) = ?m + i * 256" if "i < n" for i
  proof -
    have "?m + 256 * i < 2 ^ 32" using that small(2,3) by linarith
    from nats [OF this] show ?thesis using that by (simp add: nth_all_offsets len frame_offsets_def)
  qed
  have spans: "sorted_wrt before (concat (map2 frame_spans fs ?offs))"
    "\<forall>s \<in> set (concat (map2 frame_spans fs ?offs)). 4 dvd fst s \<and> ?c \<le> fst s \<and> fst s + snd s \<le> place_frames fs ?c"
    using spans_in_order [OF total small(4), of ?m] by blast+
  have m: "?m = 32 + n * directory_size kind" "?c = 32 + n * directory_size kind + n * 256"
    by (simp_all add: payload_start_def metadata_start_def)
  show ?thesis unfolding if_P [OF ok]
  proof (intro exI conjI)
    show "rx_wire_layout kind (Some frames) count = Some (layout_of kind fs)" by (rule layout)
    show "map (\<lambda>i. rx_wire_offsets kind (Some frames) count (of_nat i)) [0..<n] = map Some ?offs" by (rule offs)
    show "unat (wl_control_bytes (layout_of kind fs)) = 32 + n * directory_size kind + n * 256" unfolding sizes by (rule m(2))
    show "\<forall>i < n. unat (wo_metadata_offset (?offs ! i)) = 32 + n * directory_size kind + i * 256" using metadata by (simp add: m(1))
    show "sorted_wrt before (concat (map2 frame_spans fs ?offs))" by (rule spans(1))
    show "\<forall>s \<in> set (concat (map2 frame_spans fs ?offs)). 4 dvd fst s \<and> unat (wl_control_bytes (layout_of kind fs)) \<le> fst s \<and>
        fst s + snd s \<le> unat (wl_total_bytes (layout_of kind fs))"
      unfolding sizes by (rule spans(2))
  qed
qed

section \<open>The control block is right\<close>

text \<open>The bytes of a directory entry and of the whole control block.\<close>

definition entry_bytes :: "wire_kind \<Rightarrow> wire_frame \<Rightarrow> wire_offsets \<Rightarrow> bytes" where
  "entry_bytes kind f off = le32 (wo_metadata_offset off) @
     (if kind = CSI
      then le32 (wo_csi_offset off) @ le32 (wf_csi_length f) @ le32 (wo_packet_offset off) @ le32 (wf_packet_length f) @
        le16 (wf_captured_header_length f) @ le16 (wf_flags f) @ le32 (wf_driver_payload_length f) @
        le32 (wf_packet_readable_length f) @ le32 (wf_sequence f) @ replicate 4 0
      else le32 (wo_packet_offset off) @ le32 (wf_packet_length f) @ le32 (wf_driver_payload_length f) @
        le32 (wf_packet_readable_length f) @ le16 (wf_captured_header_length f) @ le16 (wf_flags f))"

definition header_bytes :: "wire_kind \<Rightarrow> wire_layout \<Rightarrow> bytes" where
  "header_bytes kind l = wire_magic kind @ le16 1 @ le16 32 @ le32 (wl_frame_count l) @ le16 (ucast (wl_directory_bytes l)) @ le16 256 @
     le32 1 @ le32 (wl_total_bytes l) @ replicate 4 0"

definition control_block :: "wire_kind \<Rightarrow> wire_frame list \<Rightarrow> wire_layout \<Rightarrow> wire_offsets list \<Rightarrow> bytes" where
  "control_block kind fs l offs = header_bytes kind l @ concat (map2 (entry_bytes kind) fs offs) @ replicate (256 * length fs) 0"

lemma write_zeros:
  assumes "length pre = off" "length bs = k"
  shows "write_at (pre @ replicate (k + n) 0 @ post) off bs = Some (pre @ bs @ replicate n 0 @ post)"
  using assms by (simp add: write_at_def replicate_add)

lemma length_wire_magic [simp]: "length (wire_magic kind) = 8"
  by (simp add: wire_magic_def)

lemma write_le:
  "rx_wire_u16 out off w = write_at out off (le16 w)" "rx_wire_u32 out off d = write_at out off (le32 d)"
  by (simp_all add: rx_wire_u16_def rx_wire_u32_def le16_def le32_def)

text \<open>Consecutive fields written into zeros: each field in turn replaces its share of them.\<close>

fun write_fields :: "bytes \<Rightarrow> nat \<Rightarrow> bytes list \<Rightarrow> bytes option" where
  "write_fields out off [] = Some out"
| "write_fields out off (b # bs) = do { out \<leftarrow> write_at out off b; write_fields out (off + length b) bs }"

lemma write_fields_zeros:
  "length pre = off \<Longrightarrow> write_fields (pre @ replicate (length (concat bs) + n) 0 @ post) off bs = Some (pre @ concat bs @ replicate n 0 @ post)"
proof (induction bs arbitrary: pre off)
  case (Cons b bs)
  have "write_at (pre @ replicate (length b + (length (concat bs) + n)) 0 @ post) off b
      = Some (pre @ b @ replicate (length (concat bs) + n) 0 @ post)"
    by (rule write_zeros) (simp_all add: Cons.prems)
  then show ?case using Cons.IH [of "pre @ b" "off + length b"] Cons.prems by (simp add: add.assoc)
qed simp

lemma entry_fields:
  "write_directory_entry kind f (wo_metadata_offset off) (wo_csi_offset off, wo_packet_offset off, e) out d =
    write_fields out d (le32 (wo_metadata_offset off) #
      (if kind = CSI
       then [le32 (wo_csi_offset off), le32 (wf_csi_length f), le32 (wo_packet_offset off), le32 (wf_packet_length f),
         le16 (wf_captured_header_length f), le16 (wf_flags f), le32 (wf_driver_payload_length f),
         le32 (wf_packet_readable_length f), le32 (wf_sequence f)]
       else [le32 (wo_packet_offset off), le32 (wf_packet_length f), le32 (wf_driver_payload_length f),
         le32 (wf_packet_readable_length f), le16 (wf_captured_header_length f), le16 (wf_flags f)]))"
  by (simp add: write_directory_entry_def write_le add.commute)

lemma write_entry:
  assumes "length pre = d"
  shows "write_directory_entry kind f (wo_metadata_offset off) (wo_csi_offset off, wo_packet_offset off, e)
      (pre @ replicate (directory_size kind + n) 0 @ post) d = Some (pre @ entry_bytes kind f off @ replicate n 0 @ post)"
proof (cases "kind = CSI")
  case True
  have "(40 + n) = 36 + (4 + n)" by simp
  then show ?thesis
    unfolding entry_fields directory_size_def if_P [OF True]
    using write_fields_zeros [OF assms, of "le32 (wo_metadata_offset off) # [le32 (wo_csi_offset off), le32 (wf_csi_length f), le32 (wo_packet_offset off), le32 (wf_packet_length f),
         le16 (wf_captured_header_length f), le16 (wf_flags f), le32 (wf_driver_payload_length f),
         le32 (wf_packet_readable_length f), le32 (wf_sequence f)]" "4 + n" post]
    by (simp add: entry_bytes_def True replicate_add del: write_fields.simps)
next
  case False
  then show ?thesis
    unfolding entry_fields directory_size_def if_not_P [OF False]
    using write_fields_zeros [OF assms, of "le32 (wo_metadata_offset off) # [le32 (wo_packet_offset off), le32 (wf_packet_length f), le32 (wf_driver_payload_length f),
         le32 (wf_packet_readable_length f), le16 (wf_captured_header_length f), le16 (wf_flags f)]" n post]
    by (simp add: entry_bytes_def False del: write_fields.simps)
qed

lemma length_entry [simp]: "length (entry_bytes kind f off) = directory_size kind"
  by (simp add: entry_bytes_def directory_size_def)

lemma length_header [simp]: "length (header_bytes kind l) = 32"
  by (simp add: header_bytes_def)

lemma write_header_spec:
  assumes "unat (wl_control_bytes l) = 32 + n" "32 + n \<le> length out"
  shows "write_header kind l out = Some (header_bytes kind l @ replicate n 0 @ drop (32 + n) out)"
proof -
  let ?fields = "[wire_magic kind, le16 1, le16 32, le32 (wl_frame_count l), le16 (ucast (wl_directory_bytes l)), le16 256, le32 1, le32 (wl_total_bytes l)]"
  have zero: "write_at out 0 (replicate (32 + n) 0) = Some (replicate (32 + n) 0 @ drop (32 + n) out)" using assms(2) by (simp add: write_at_def)
  have "write_header kind l out = write_fields (replicate (32 + n) 0 @ drop (32 + n) out) 0 ?fields"
    unfolding write_header_def assms(1) zero bind.bind_lunit write_le
    by (simp add: WIRE_HEADER_BYTES_def WIRE_METADATA_BYTES_def WIRE_CANONICAL_def)
  also have "\<dots> = write_fields ([] @ replicate (length (concat ?fields) + (4 + n)) 0 @ drop (32 + n) out) 0 ?fields" by simp
  also have "\<dots> = Some ([] @ concat ?fields @ replicate (4 + n) 0 @ drop (32 + n) out)" by (rule write_fields_zeros) simp
  finally show ?thesis by (simp add: header_bytes_def replicate_add)
qed

lemma write_directory_spec:
  assumes "unat cursor = c" "place_frames fs c < 2 ^ 32" "length pre = 32 + i * directory_size kind"
    and l: "wl_metadata_base l = of_nat m" "unat (wl_directory_bytes l) = directory_size kind"
  shows "write_directory kind l fs i cursor (pre @ replicate (length fs * directory_size kind + n) 0 @ post) =
    Some (pre @ concat (map2 (entry_bytes kind) fs (all_offsets fs (m + 256 * i) c)) @ replicate n 0 @ post)"
  using assms(1-3)
proof (induction fs arbitrary: i cursor c pre)
  case (Cons f fs)
  let ?e = "snd (place_frame f c)" and ?off = "frame_offsets f (m + 256 * i) c" and ?d = "32 + i * directory_size kind"
  have total: "place_frames fs ?e < 2 ^ 32" "?e < 2 ^ 32" using Cons.prems(2) place_frames_ge [of ?e fs] by simp_all
  then have e: "unat (of_nat ?e :: u32) = ?e" by (intro unat_of_nat_lt) simp
  have cursor: "of_nat c = cursor" using Cons.prems(1) by auto
  have advance: "rx_wire_advance f cursor = Some (wo_csi_offset ?off, wo_packet_offset ?off, of_nat ?e)"
    using total(2) by (simp add: rx_wire_advance_spec [OF Cons.prems(1)] frame_offsets_def cursor)
  have metadata: "wl_metadata_base l + of_nat i * WIRE_METADATA_BYTES = wo_metadata_offset ?off"
    by (simp add: l WIRE_METADATA_BYTES_def frame_offsets_def)
  have zeros: "length (f # fs) * directory_size kind + n = directory_size kind + (length fs * directory_size kind + n)" by simp
  have entry: "write_directory_entry kind f (wo_metadata_offset ?off) (wo_csi_offset ?off, wo_packet_offset ?off, of_nat ?e)
      (pre @ replicate (directory_size kind + (length fs * directory_size kind + n)) 0 @ post) ?d
    = Some ((pre @ entry_bytes kind f ?off) @ replicate (length fs * directory_size kind + n) 0 @ post)"
    using write_entry [OF Cons.prems(3)] by simp
  have header: "unat WIRE_HEADER_BYTES + i * unat (wl_directory_bytes l) = ?d" by (simp add: WIRE_HEADER_BYTES_def l)
  have next_pre: "length (pre @ entry_bytes kind f ?off) = 32 + (i + 1) * directory_size kind" using Cons.prems(3) by simp
  show ?case
    unfolding write_directory.simps zeros advance bind.bind_lunit prod.case metadata header entry Cons.IH [OF e total(1) next_pre]
    by (simp add: add.assoc add.commute [of 256])
qed simp

lemma layout_of_nats:
  assumes "batch_ok kind fs"
  shows "unat (wl_control_bytes (layout_of kind fs)) = payload_start kind (length fs)"
    "unat (wl_directory_bytes (layout_of kind fs)) = directory_size kind"
proof -
  have "payload_start kind (length fs) < 2 ^ LENGTH(32)" using batch_small(2) [OF assms] by simp
  then show "unat (wl_control_bytes (layout_of kind fs)) = payload_start kind (length fs)" by (simp add: layout_of_def unat_of_nat_lt)
  show "unat (wl_directory_bytes (layout_of kind fs)) = directory_size kind" by (simp add: layout_of_def directory_size_def)
qed

lemma control_block_written:
  assumes "batch_ok kind fs" "payload_start kind (length fs) \<le> length out"
  shows "do {
      written \<leftarrow> write_header kind (layout_of kind fs) out;
      written \<leftarrow> write_directory kind (layout_of kind fs) fs 0 (wl_control_bytes (layout_of kind fs)) written;
      Some (True, Some written)
    } = Some (True, Some (control_block kind fs (layout_of kind fs)
        (all_offsets fs (metadata_start kind (length fs)) (payload_start kind (length fs))) @ drop (payload_start kind (length fs)) out))"
proof -
  let ?l = "layout_of kind fs" and ?n = "length fs * directory_size kind + 256 * length fs" and ?c = "payload_start kind (length fs)"
  have c: "?c = 32 + ?n" by (simp add: payload_start_def metadata_start_def)
  note nats = layout_of_nats [OF assms(1)]
  have header: "write_header kind ?l out = Some (header_bytes kind ?l @ replicate ?n 0 @ drop ?c out)"
    using write_header_spec [OF nats(1) [unfolded c], of out kind] assms(2) unfolding c by blast
  have total: "place_frames fs ?c < 2 ^ 32" using assms(1) by (simp add: batch_ok_def)
  have "write_directory kind ?l fs 0 (wl_control_bytes ?l) (header_bytes kind ?l @ replicate ?n 0 @ drop ?c out) =
    Some (header_bytes kind ?l @ concat (map2 (entry_bytes kind) fs (all_offsets fs (metadata_start kind (length fs) + 256 * 0) ?c)) @
      replicate (256 * length fs) 0 @ drop ?c out)"
    by (rule write_directory_spec [OF nats(1) total]) (simp_all add: layout_of_def nats(2) [unfolded layout_of_def, simplified])
  then show ?thesis unfolding header bind.bind_lunit by (simp add: control_block_def)
qed

text \<open>
  The control block is written whole or not at all.  When the batch is valid, the block fits the
  capacity and the output is apart from the frames, the output begins with the block of the format
  (magic, version, counts, one directory entry per frame with the preflight's offsets, zeroed metadata
  records) and keeps every byte behind it; otherwise it is unchanged.  No write leaves the output.
\<close>

lemma wifi_rx_wire_control_block:
  assumes "unat count \<le> length frames" "unat capacity \<le> length out"
  defines "fs \<equiv> take (unat count) frames" and "n \<equiv> unat count"
  shows "rx_wire_write_control frames_at out_at frame_size kind (Some frames) count (Some out) capacity =
    (if batch_ok kind fs \<and> payload_start kind n \<le> unat capacity \<and>
       control_apart frames_at (count * frame_size) out_at (of_nat (payload_start kind n))
     then Some (True, Some (control_block kind fs (layout_of kind fs)
       (map (\<lambda>i. the (rx_wire_offsets kind (Some frames) count (of_nat i))) [0..<n]) @ drop (payload_start kind n) out))
     else Some (False, Some out))"
proof (cases "batch_ok kind fs")
  case False
  then show ?thesis using layout_spec [OF assms(1), of kind] by (simp add: rx_wire_write_control_def fs_def)
next
  case ok: True
  let ?l = "layout_of kind fs" and ?c = "payload_start kind n"
  have len: "length fs = n" using assms(1) by (simp add: fs_def n_def)
  have layout: "rx_wire_layout kind (Some frames) count = Some ?l"
    using layout_spec [OF assms(1), of kind] ok by (simp add: fs_def)
  have control: "wl_control_bytes ?l = of_nat ?c" "unat (wl_control_bytes ?l) = ?c"
    using layout_of_nats(1) [OF ok] by (simp_all add: layout_of_def len)
  have offs: "map (\<lambda>i. the (rx_wire_offsets kind (Some frames) count (of_nat i))) [0..<n] = all_offsets fs (metadata_start kind n) ?c"
  proof (rule nth_equalityI)
    fix i assume "i < length (map (\<lambda>i. the (rx_wire_offsets kind (Some frames) count (of_nat i))) [0..<n])"
    then have i: "i < n" by simp
    then have "unat (of_nat i :: u32) = i" using batch_small(1) [OF ok] by (intro unat_of_nat_lt) (simp add: len)
    moreover from this have "of_nat i < count" using i by (simp add: word_less_nat_alt n_def)
    ultimately show "map (\<lambda>i. the (rx_wire_offsets kind (Some frames) count (of_nat i))) [0..<n] ! i = all_offsets fs (metadata_start kind n) ?c ! i"
      using offsets_spec [OF assms(1) ok [unfolded fs_def], of "of_nat i"] i by (simp add: fs_def [symmetric] len)
  qed (simp add: len)
  have capacity: "capacity < wl_control_bytes ?l \<longleftrightarrow> \<not> ?c \<le> unat capacity" by (simp add: word_less_nat_alt control(2) not_le)
  have fs: "take (unat count) frames = fs" by (simp add: fs_def)
  show ?thesis
  proof (cases "?c \<le> unat capacity \<and> control_apart frames_at (count * frame_size) out_at (of_nat ?c)")
    case True
    then have "?c \<le> length out" using assms(2) by simp
    note written = control_block_written [OF ok, unfolded len, OF this]
    show ?thesis
      using True ok capacity layout
      by (simp only: rx_wire_write_control_def option.simps option.sel control(1) [symmetric] offs fs written if_True if_False simp_thms)
  next
    case False
    then show ?thesis using ok capacity layout
      by (auto simp: rx_wire_write_control_def control(1) [symmetric])
  qed
qed

text \<open>Two CSI frames, the first without a packet.\<close>

definition example_frames :: "wire_frame list" where
  "example_frames =
    [\<lparr>wf_csi_length = 5, wf_packet_length = 0, wf_driver_payload_length = 90, wf_packet_readable_length = 0, wf_sequence = 1,
      wf_captured_header_length = 0, wf_flags = 0\<rparr>,
     \<lparr>wf_csi_length = 2, wf_packet_length = 30, wf_driver_payload_length = 90, wf_packet_readable_length = 30, wf_sequence = 2,
      wf_captured_header_length = 24, wf_flags = 0x19\<rparr>]"

lemma example_batch: "batch_ok CSI example_frames"
proof -
  have "\<forall>f \<in> set example_frames. rx_wire_frame_valid CSI f" by code_simp
  moreover have "place_frames example_frames (payload_start CSI (length example_frames)) = 668" by code_simp
  ultimately show ?thesis by (simp add: batch_ok_def) (simp add: example_frames_def)
qed

lemma wifi_rx_wire_layout_spans_witness:
  "\<exists>l offs. rx_wire_layout CSI (Some example_frames) 2 = Some l \<and>
    map (\<lambda>i. rx_wire_offsets CSI (Some example_frames) 2 (of_nat i)) [0..<2] = map Some offs \<and>
    unat (wl_control_bytes l) = 624 \<and> sorted_wrt before (concat (map2 frame_spans example_frames offs))"
proof -
  have "unat (2 :: u32) \<le> length example_frames" "take (unat (2 :: u32)) example_frames = example_frames" by (simp_all add: example_frames_def)
  from wifi_rx_wire_layout_spans [OF this(1), of CSI, unfolded this(2) if_P [OF example_batch]]
  show ?thesis by (auto simp: directory_size_def)
qed

lemma wifi_rx_wire_control_block_witness:
  "rx_wire_write_control 0x1000 0x8000 28 CSI (Some example_frames) 2 (Some (replicate 700 7)) 624 =
    Some (True, Some (control_block CSI example_frames (layout_of CSI example_frames)
      (map (\<lambda>i. the (rx_wire_offsets CSI (Some example_frames) 2 (of_nat i))) [0..<2]) @ replicate 76 7))"
proof -
  have frames: "unat (2 :: u32) \<le> length example_frames" "take (unat (2 :: u32)) example_frames = example_frames" by (simp_all add: example_frames_def)
  have start: "payload_start CSI 2 = 624" by (simp add: payload_start_def metadata_start_def directory_size_def)
  have "control_apart 0x1000 (2 * 28) 0x8000 624" by (simp add: control_apart_def)
  then show ?thesis
    using wifi_rx_wire_control_block [OF frames(1), of 624 "replicate 700 7" "0x1000" "0x8000" 28 CSI] example_batch
    by (simp add: frames(2) [simplified] start)
qed

end
