(* ===== verification/Promiscuous_Broker.thy ===== *)
theory Promiscuous_Broker
  imports Wifi_Rx_Filter
begin

text \<open>
  \<open>modules/wifi_common/esp32_mquickjs_wifi_promiscuous_broker.c\<close>: the registry through which the
  receive task hands packets to capture sessions, while other tasks reserve, activate and close them.
  A critical section is one step; between two steps of a dispatch anything else may happen.  The
  subscribers live in memory of their owners: a map from addresses to objects, whose owner may free
  an object that no slot holds.  The view of the packet comes from the driver and is an argument.
\<close>

section \<open>The registry\<close>

definition MAX_SUBSCRIBERS :: nat where "MAX_SUBSCRIBERS = 8"

datatype slot_phase = VACANT | RESERVED | ACTIVE | CLOSING

record subscriber =
  sb_filter :: rx_filter
  sb_filter_state :: filter_state
  sb_sink :: nat
  sb_context :: nat

record promiscuous_slot =
  ps_identity :: u32
  ps_phase :: slot_phase
  ps_entered :: u8
  ps_subscriber :: "nat option"

record promiscuous =
  pr_slots :: "promiscuous_slot list"
  pr_next_identity :: u32
  pr_overlapping :: u32
  pr_dispatch_busy :: bool

type_synonym subscribers = "nat \<Rightarrow> subscriber option"

datatype promiscuous_result = OK | INVALID_ARGUMENT | INVALID_TOKEN | INVALID_STATE | CAPACITY | IDENTITY_EXHAUSTED | DRAINING

record promiscuous_snapshot =
  sn_reserved :: nat
  sn_active :: nat
  sn_closing :: nat
  sn_dispatch_busy :: bool
  sn_identity_exhausted :: bool
  sn_entered :: nat
  sn_overlapping :: u32
  sn_required_types :: u8
  sn_required_control_subtypes :: u16
  sn_require_error_frames :: bool

definition vacant_slot :: promiscuous_slot where
  "vacant_slot = \<lparr>ps_identity = 0, ps_phase = VACANT, ps_entered = 0, ps_subscriber = None\<rparr>"

definition promiscuous_initial :: promiscuous where
  "promiscuous_initial = \<lparr>pr_slots = replicate MAX_SUBSCRIBERS vacant_slot, pr_next_identity = 1, pr_overlapping = 0, pr_dispatch_busy = False\<rparr>"

definition promiscuous_find :: "u32 \<Rightarrow> promiscuous \<Rightarrow> nat option" where
  "promiscuous_find identity b =
     (if identity = 0 then None else find (\<lambda>i. ps_identity (pr_slots b ! i) = identity) [0..<MAX_SUBSCRIBERS])"

text \<open>The loop of reserve: the first vacant slot, or \<open>None\<close> inside when the subscriber is registered.\<close>

definition find_vacant :: "nat \<Rightarrow> promiscuous \<Rightarrow> nat option option" where
  "find_vacant p b =
     (if list_ex (\<lambda>i. ps_subscriber (pr_slots b ! i) = Some p) [0..<MAX_SUBSCRIBERS] then None
      else Some (find (\<lambda>i. ps_identity (pr_slots b ! i) = 0) [0..<MAX_SUBSCRIBERS]))"

definition promiscuous_reserve ::
  "nat option \<Rightarrow> rx_filter option \<Rightarrow> nat option \<Rightarrow> nat \<Rightarrow> u32 \<Rightarrow> promiscuous \<times> subscribers \<Rightarrow>
    promiscuous_result \<times> u32 \<times> promiscuous \<times> subscribers" where
  "promiscuous_reserve pointer f sink context out s =
     (case s of (b, mem) \<Rightarrow>
        if pointer = None \<or> sink = None \<or> \<not> rx_filter_valid f then (INVALID_ARGUMENT, out, b, mem)
        else if out \<noteq> 0 then (INVALID_STATE, out, b, mem)
        else case find_vacant (the pointer) b of
            None \<Rightarrow> (INVALID_STATE, out, b, mem)
          | Some None \<Rightarrow> (CAPACITY, out, b, mem)
          | Some (Some i) \<Rightarrow>
              if pr_next_identity b = 0 then (IDENTITY_EXHAUSTED, out, b, mem)
              else let identity = pr_next_identity b;
                  mem = mem(the pointer \<mapsto> \<lparr>sb_filter = the f, sb_filter_state = filter_state_initial, sb_sink = the sink, sb_context = context\<rparr>)
                in (OK, identity,
                    b\<lparr>pr_slots := (pr_slots b)[i := \<lparr>ps_identity = identity, ps_phase = RESERVED, ps_entered = 0, ps_subscriber = pointer\<rparr>],
                      pr_next_identity := (if identity = - 1 then 0 else identity + 1)\<rparr>, mem))"

definition promiscuous_activate :: "u32 \<Rightarrow> promiscuous \<Rightarrow> promiscuous_result \<times> promiscuous" where
  "promiscuous_activate token b =
     (case promiscuous_find token b of
        None \<Rightarrow> (INVALID_TOKEN, b)
      | Some i \<Rightarrow>
          let slot = pr_slots b ! i
          in if ps_phase slot = RESERVED \<or> ps_phase slot = ACTIVE
             then (OK, b\<lparr>pr_slots := (pr_slots b)[i := slot\<lparr>ps_phase := ACTIVE\<rparr>]\<rparr>)
             else (INVALID_STATE, b))"

definition promiscuous_begin_close :: "u32 \<Rightarrow> promiscuous \<Rightarrow> promiscuous_result \<times> promiscuous" where
  "promiscuous_begin_close token b =
     (case promiscuous_find token b of
        None \<Rightarrow> (INVALID_TOKEN, b)
      | Some i \<Rightarrow> (OK, b\<lparr>pr_slots := (pr_slots b)[i := (pr_slots b ! i)\<lparr>ps_phase := CLOSING\<rparr>]\<rparr>))"

definition promiscuous_finish_close :: "u32 \<Rightarrow> promiscuous \<Rightarrow> promiscuous_result \<times> u32 \<times> promiscuous" where
  "promiscuous_finish_close token b =
     (case promiscuous_find token b of
        None \<Rightarrow> (INVALID_TOKEN, token, b)
      | Some i \<Rightarrow>
          if ps_phase (pr_slots b ! i) \<noteq> CLOSING then (INVALID_STATE, token, b)
          else if ps_entered (pr_slots b ! i) = 0
          then (OK, 0, b\<lparr>pr_slots := (pr_slots b)[i := vacant_slot]\<rparr>)
          else (DRAINING, token, b))"

text \<open>A snapshot reads the filters of subscribers; \<open>None\<close> is a read of freed memory.\<close>

definition snapshot_slot :: "subscribers \<Rightarrow> promiscuous_slot \<Rightarrow> promiscuous_snapshot \<Rightarrow> promiscuous_snapshot option" where
  "snapshot_slot mem slot out =
     (if ps_identity slot = 0 then Some out
      else let out = out\<lparr>sn_entered := sn_entered out + unat (ps_entered slot)\<rparr>
        in if ps_phase slot \<noteq> RESERVED \<and> ps_phase slot \<noteq> ACTIVE then Some (out\<lparr>sn_closing := sn_closing out + 1\<rparr>)
           else let out = (if ps_phase slot = RESERVED then out\<lparr>sn_reserved := sn_reserved out + 1\<rparr> else out\<lparr>sn_active := sn_active out + 1\<rparr>)
             in case Option.bind (ps_subscriber slot) mem of
                  None \<Rightarrow> None
                | Some sb \<Rightarrow>
                    let f = sb_filter sb;
                      out = out\<lparr>sn_required_types := sn_required_types out OR fi_type_mask f\<rparr>;
                      out = (if (ucast (fi_type_mask f) :: u32) AND push_bit (packet_type_index CONTROL) 1 \<noteq> 0
                        then out\<lparr>sn_required_control_subtypes := sn_required_control_subtypes out OR
                          (if fi_subtype_filter f then fi_subtype_mask f else - 1)\<rparr>
                        else out)
                    in Some (if \<not> fi_valid_only f \<and> fi_type_mask f \<noteq> 0 then out\<lparr>sn_require_error_frames := True\<rparr> else out))"

fun snapshot_loop :: "subscribers \<Rightarrow> promiscuous_slot list \<Rightarrow> promiscuous_snapshot \<Rightarrow> promiscuous_snapshot option" where
  "snapshot_loop mem [] out = Some out"
| "snapshot_loop mem (slot # slots) out = Option.bind (snapshot_slot mem slot out) (snapshot_loop mem slots)"

definition snapshot_cleared :: promiscuous_snapshot where
  "snapshot_cleared = \<lparr>sn_reserved = 0, sn_active = 0, sn_closing = 0, sn_dispatch_busy = False, sn_identity_exhausted = False,
     sn_entered = 0, sn_overlapping = 0, sn_required_types = 0, sn_required_control_subtypes = 0, sn_require_error_frames = False\<rparr>"

definition promiscuous_snapshot_of :: "promiscuous \<times> subscribers \<Rightarrow> promiscuous_snapshot option" where
  "promiscuous_snapshot_of s =
     snapshot_loop (snd s) (pr_slots (fst s))
       (snapshot_cleared\<lparr>sn_dispatch_busy := pr_dispatch_busy (fst s), sn_overlapping := pr_overlapping (fst s),
          sn_identity_exhausted := (pr_next_identity (fst s) = 0)\<rparr>)"

fun tokens_owned :: "u32 list \<Rightarrow> u32 list \<Rightarrow> promiscuous \<Rightarrow> bool" where
  "tokens_owned seen [] b = True"
| "tokens_owned seen (token # tokens) b =
     (case promiscuous_find token b of
        None \<Rightarrow> False
      | Some i \<Rightarrow> ps_phase (pr_slots b ! i) \<noteq> CLOSING \<and> token \<notin> set seen \<and> tokens_owned (token # seen) tokens b)"

definition promiscuous_owned_requirements :: "u32 list \<Rightarrow> promiscuous \<times> subscribers \<Rightarrow> (bool \<times> promiscuous_snapshot) option" where
  "promiscuous_owned_requirements tokens s =
     (if MAX_SUBSCRIBERS < length tokens \<or> \<not> tokens_owned [] tokens (fst s) then Some (False, snapshot_cleared)
      else case promiscuous_snapshot_of s of
          None \<Rightarrow> None
        | Some out \<Rightarrow> if length tokens = sn_reserved out + sn_active out then Some (True, out) else Some (False, snapshot_cleared))"

section \<open>Dispatch\<close>

text \<open>
  Where a dispatch stands: the slots it still has to serve, the subscriber it has just evaluated and
  is about to call, or the slot it is about to leave.
\<close>

datatype dispatch_at = Idle
  | Serving "nat list" rx_view u64
  | Calling nat nat filter_result "nat list" rx_view u64
  | Leaving nat "nat list" rx_view u64

definition dispatch_enter :: "rx_view \<Rightarrow> u64 \<Rightarrow> promiscuous \<Rightarrow> dispatch_at \<times> promiscuous" where
  "dispatch_enter view now b =
     (if pr_dispatch_busy b
      then (Idle, if pr_overlapping b \<noteq> - 1 then b\<lparr>pr_overlapping := pr_overlapping b + 1\<rparr> else b)
      else (Serving (filter (\<lambda>i. ps_phase (pr_slots b ! i) = ACTIVE) [0..<MAX_SUBSCRIBERS]) view now,
            b\<lparr>pr_dispatch_busy := True,
              pr_slots := map (\<lambda>slot. if ps_phase slot = ACTIVE then slot\<lparr>ps_entered := 1\<rparr> else slot) (pr_slots b)\<rparr>))"

text \<open>One step of a dispatch; \<open>None\<close> is an access to memory that is not there.\<close>

fun dispatch_step :: "dispatch_at \<Rightarrow> promiscuous \<times> subscribers \<Rightarrow> (dispatch_at \<times> promiscuous \<times> subscribers) option" where
  "dispatch_step Idle s = Some (Idle, s)"
| "dispatch_step (Serving [] view now) (b, mem) = Some (Idle, b\<lparr>pr_dispatch_busy := False\<rparr>, mem)"
| "dispatch_step (Serving (i # rest) view now) (b, mem) =
     (case ps_subscriber (pr_slots b ! i) of
        None \<Rightarrow> None
      | Some p \<Rightarrow>
          (case mem p of
             None \<Rightarrow> None
           | Some sb \<Rightarrow>
               let (result, st) = rx_filter_evaluate (Some (sb_filter sb)) (sb_filter_state sb) (Some view) now
               in Some (Calling i p result rest view now, b, mem(p \<mapsto> sb\<lparr>sb_filter_state := st\<rparr>))))"
| "dispatch_step (Calling i p result rest view now) (b, mem) =
     (case mem p of None \<Rightarrow> None | Some sb \<Rightarrow> Some (Leaving i rest view now, b, mem))"
| "dispatch_step (Leaving i rest view now) (b, mem) =
     Some (Serving rest view now, b\<lparr>pr_slots := (pr_slots b)[i := (pr_slots b ! i)\<lparr>ps_entered := 0\<rparr>]\<rparr>, mem)"

section \<open>The system\<close>

text \<open>
  Any number of receive tasks dispatch while any number of others call the registry.  The owner of a
  subscriber may free or reuse its memory (\<open>reuse\<close>) when no slot holds it, which is the contract of
  the header file.  An access to missing memory sets \<open>sy_fault\<close>.
\<close>

record system =
  sy_registry :: promiscuous
  sy_memory :: subscribers
  sy_at :: "nat \<Rightarrow> dispatch_at"
  sy_fault :: bool

datatype broker_event = Reserved nat u32 | Activated u32 | Closed u32 | Delivered nat | Silent

definition delivery :: "dispatch_at \<Rightarrow> broker_event" where
  "delivery a = (case a of Calling i p result rest view now \<Rightarrow> Delivered p | _ \<Rightarrow> Silent)"

inductive broker_step :: "system \<Rightarrow> broker_event \<Rightarrow> system \<Rightarrow> bool" where
  reserve: "promiscuous_reserve pointer f sink context out (sy_registry s, sy_memory s) = (r, out', b, m) \<Longrightarrow>
    broker_step s (if r = OK then Reserved (the pointer) out' else Silent) (s\<lparr>sy_registry := b, sy_memory := m\<rparr>)"
| activate: "promiscuous_activate token (sy_registry s) = (r, b) \<Longrightarrow>
    broker_step s (if r = OK then Activated token else Silent) (s\<lparr>sy_registry := b\<rparr>)"
| begin_close: "promiscuous_begin_close token (sy_registry s) = (r, b) \<Longrightarrow> broker_step s Silent (s\<lparr>sy_registry := b\<rparr>)"
| finish_close: "promiscuous_finish_close token (sy_registry s) = (r, token', b) \<Longrightarrow>
    broker_step s (if r = OK then Closed token else Silent) (s\<lparr>sy_registry := b\<rparr>)"
| snapshot: "broker_step s Silent (s\<lparr>sy_fault := (sy_fault s \<or> promiscuous_snapshot_of (sy_registry s, sy_memory s) = None)\<rparr>)"
| requirements: "broker_step s Silent
    (s\<lparr>sy_fault := (sy_fault s \<or> promiscuous_owned_requirements tokens (sy_registry s, sy_memory s) = None)\<rparr>)"
| enter: "sy_at s t = Idle \<Longrightarrow> dispatch_enter view now (sy_registry s) = (a, b) \<Longrightarrow>
    broker_step s Silent (s\<lparr>sy_registry := b, sy_at := (sy_at s)(t := a)\<rparr>)"
| dispatch: "dispatch_step (sy_at s t) (sy_registry s, sy_memory s) = Some (a, b, m) \<Longrightarrow>
    broker_step s (delivery (sy_at s t)) (s\<lparr>sy_registry := b, sy_memory := m, sy_at := (sy_at s)(t := a)\<rparr>)"
| fault: "dispatch_step (sy_at s t) (sy_registry s, sy_memory s) = None \<Longrightarrow>
    broker_step s (delivery (sy_at s t)) (s\<lparr>sy_fault := True\<rparr>)"
| reuse: "\<forall>slot \<in> set (pr_slots (sy_registry s)). ps_subscriber slot \<noteq> Some p \<Longrightarrow>
    broker_step s Silent (s\<lparr>sy_memory := (sy_memory s)(p := content)\<rparr>)"

definition system_initial :: system where
  "system_initial = \<lparr>sy_registry = promiscuous_initial, sy_memory = (\<lambda>p. None), sy_at = (\<lambda>t. Idle), sy_fault = False\<rparr>"

text \<open>The runs of the system, with their events, the latest first.\<close>

inductive broker_run :: "broker_event list \<Rightarrow> system \<Rightarrow> bool" where
  start: "broker_run [] system_initial"
| run_step: "broker_run es s \<Longrightarrow> broker_step s e s' \<Longrightarrow> broker_run (e # es) s'"

section \<open>The invariant\<close>

definition used_identity :: "u32 \<Rightarrow> promiscuous \<Rightarrow> bool" where
  "used_identity identity b \<longleftrightarrow> identity \<noteq> 0 \<and> (pr_next_identity b = 0 \<or> identity < pr_next_identity b)"

definition broker_slot_ok :: "broker_event list \<Rightarrow> promiscuous \<Rightarrow> subscribers \<Rightarrow> promiscuous_slot \<Rightarrow> bool" where
  "broker_slot_ok es b mem slot \<longleftrightarrow>
     (if ps_identity slot = 0 then slot = vacant_slot
      else used_identity (ps_identity slot) b \<and> Closed (ps_identity slot) \<notin> set es \<and> ps_phase slot \<noteq> VACANT \<and>
        (\<exists>p. ps_subscriber slot = Some p \<and> mem p \<noteq> None \<and> Reserved p (ps_identity slot) \<in> set es) \<and>
        (ps_phase slot = ACTIVE \<or> ps_entered slot \<noteq> 0 \<longrightarrow> Activated (ps_identity slot) \<in> set es) \<and>
        (ps_phase slot = RESERVED \<longrightarrow> ps_entered slot = 0))"

fun pending :: "dispatch_at \<Rightarrow> nat list" where
  "pending Idle = []"
| "pending (Serving rest view now) = rest"
| "pending (Calling i p result rest view now) = i # rest"
| "pending (Leaving i rest view now) = i # rest"

definition broker_registry_ok :: "broker_event list \<Rightarrow> promiscuous \<Rightarrow> subscribers \<Rightarrow> bool" where
  "broker_registry_ok es b mem \<longleftrightarrow> length (pr_slots b) = MAX_SUBSCRIBERS \<and>
     (\<forall>i < MAX_SUBSCRIBERS. broker_slot_ok es b mem (pr_slots b ! i)) \<and>
     (\<forall>i < MAX_SUBSCRIBERS. \<forall>j < MAX_SUBSCRIBERS. i \<noteq> j \<longrightarrow> ps_identity (pr_slots b ! i) \<noteq> 0 \<longrightarrow>
        ps_identity (pr_slots b ! i) \<noteq> ps_identity (pr_slots b ! j) \<and> ps_subscriber (pr_slots b ! i) \<noteq> ps_subscriber (pr_slots b ! j)) \<and>
     (\<forall>identity. Closed identity \<in> set es \<or> (\<exists>p. Reserved p identity \<in> set es) \<longrightarrow> used_identity identity b)"

definition dispatch_ok :: "promiscuous \<Rightarrow> dispatch_at \<Rightarrow> bool" where
  "dispatch_ok b a \<longleftrightarrow> distinct (pending a) \<and> (\<forall>i \<in> set (pending a). i < MAX_SUBSCRIBERS) \<and>
     (\<forall>i < MAX_SUBSCRIBERS. ps_entered (pr_slots b ! i) \<noteq> 0 \<longleftrightarrow> i \<in> set (pending a)) \<and>
     (case a of Calling i p result rest view now \<Rightarrow> ps_subscriber (pr_slots b ! i) = Some p | _ \<Rightarrow> True)"

text \<open>At most one dispatch is under way, exactly when the registry says so.\<close>

definition dispatches_ok :: "promiscuous \<Rightarrow> (nat \<Rightarrow> dispatch_at) \<Rightarrow> bool" where
  "dispatches_ok b ats \<longleftrightarrow>
     (if pr_dispatch_busy b
      then \<exists>t. ats t \<noteq> Idle \<and> (\<forall>u. u \<noteq> t \<longrightarrow> ats u = Idle) \<and> dispatch_ok b (ats t)
      else (\<forall>t. ats t = Idle) \<and> dispatch_ok b Idle)"

definition broker_inv :: "broker_event list \<Rightarrow> system \<Rightarrow> bool" where
  "broker_inv es s \<longleftrightarrow> \<not> sy_fault s \<and> broker_registry_ok es (sy_registry s) (sy_memory s) \<and>
     dispatches_ok (sy_registry s) (sy_at s)"

lemma registry_okD:
  assumes "broker_registry_ok es b mem"
  shows "length (pr_slots b) = MAX_SUBSCRIBERS" "i < MAX_SUBSCRIBERS \<Longrightarrow> broker_slot_ok es b mem (pr_slots b ! i)"
    "i < MAX_SUBSCRIBERS \<Longrightarrow> j < MAX_SUBSCRIBERS \<Longrightarrow> ps_identity (pr_slots b ! i) \<noteq> 0 \<Longrightarrow>
      ps_identity (pr_slots b ! i) = ps_identity (pr_slots b ! j) \<or> ps_subscriber (pr_slots b ! i) = ps_subscriber (pr_slots b ! j) \<Longrightarrow> i = j"
    "Closed identity \<in> set es \<Longrightarrow> used_identity identity b" "Reserved p identity \<in> set es \<Longrightarrow> used_identity identity b"
  using assms unfolding broker_registry_ok_def by blast+

text \<open>
  How a change of one slot keeps the registry in order: the other slots stay, the new one is in order
  and clashes with none of them.
\<close>

lemma update_slot:
  assumes ok: "broker_registry_ok es b mem" and i: "i < MAX_SUBSCRIBERS"
    and slots: "pr_slots b' = (pr_slots b)[i := slot]"
    and new: "broker_slot_ok es' b' mem' slot"
    and others: "\<And>j. j < MAX_SUBSCRIBERS \<Longrightarrow> j \<noteq> i \<Longrightarrow> broker_slot_ok es' b' mem' (pr_slots b ! j)"
    and apart: "\<And>j. j < MAX_SUBSCRIBERS \<Longrightarrow> j \<noteq> i \<Longrightarrow> ps_identity slot \<noteq> 0 \<or> ps_identity (pr_slots b ! j) \<noteq> 0 \<Longrightarrow>
      ps_identity (pr_slots b ! j) \<noteq> ps_identity slot \<and> ps_subscriber (pr_slots b ! j) \<noteq> ps_subscriber slot"
    and closed: "\<And>identity p. Closed identity \<in> set es' \<or> Reserved p identity \<in> set es' \<Longrightarrow> used_identity identity b'"
  shows "broker_registry_ok es' b' mem'"
proof -
  have len: "length (pr_slots b) = MAX_SUBSCRIBERS" by (rule registry_okD(1) [OF ok])
  have at: "pr_slots b' ! j = (if j = i then slot else pr_slots b ! j)" if "j < MAX_SUBSCRIBERS" for j
    using that len by (simp add: slots nth_list_update)
  show ?thesis
    unfolding broker_registry_ok_def
  proof (intro conjI allI impI)
    show "length (pr_slots b') = MAX_SUBSCRIBERS" by (simp add: slots len)
    show "broker_slot_ok es' b' mem' (pr_slots b' ! j)" if "j < MAX_SUBSCRIBERS" for j
      using at [OF that] new others [OF that] by simp
    show "ps_identity (pr_slots b' ! j) \<noteq> ps_identity (pr_slots b' ! k)" "ps_subscriber (pr_slots b' ! j) \<noteq> ps_subscriber (pr_slots b' ! k)"
      if "j < MAX_SUBSCRIBERS" "k < MAX_SUBSCRIBERS" "j \<noteq> k" "ps_identity (pr_slots b' ! j) \<noteq> 0" for j k
      using that at [OF that(1)] at [OF that(2)] apart [of j] apart [of k] registry_okD(3) [OF ok, of j k] by (auto split: if_splits)
    show "used_identity identity b'" if "Closed identity \<in> set es' \<or> (\<exists>p. Reserved p identity \<in> set es')" for identity
      using that closed by blast
  qed
qed

lemma slot_ok_mono:
  assumes "broker_slot_ok es b mem slot" "set es \<subseteq> set es'" "ps_identity slot \<noteq> 0 \<Longrightarrow> Closed (ps_identity slot) \<notin> set es'"
    "\<And>identity. used_identity identity b \<Longrightarrow> used_identity identity b'"
    "\<And>p. ps_subscriber slot = Some p \<Longrightarrow> mem p \<noteq> None \<Longrightarrow> mem' p \<noteq> None"
  shows "broker_slot_ok es' b' mem' slot"
  using assms unfolding broker_slot_ok_def by (fastforce split: if_splits)

text \<open>A step that leaves the slots alone, and adds no event but a delivery.\<close>

lemma registry_ok_kept:
  assumes "broker_registry_ok es b mem" "pr_slots b' = pr_slots b" "pr_next_identity b' = pr_next_identity b"
    "\<And>p slot. slot \<in> set (pr_slots b) \<Longrightarrow> ps_subscriber slot = Some p \<Longrightarrow> mem p \<noteq> None \<Longrightarrow> mem' p \<noteq> None"
    "set es' \<subseteq> set es \<union> {Silent} \<union> range Delivered \<union> range Activated" "set es \<subseteq> set es'"
  shows "broker_registry_ok es' b' mem'"
proof -
  note ok = registry_okD [OF assms(1)]
  have used: "used_identity identity b' = used_identity identity b" for identity
    using assms(3) by (simp add: used_identity_def)
  have "broker_slot_ok es' b' mem' (pr_slots b ! i)" if i: "i < MAX_SUBSCRIBERS" for i
  proof (rule slot_ok_mono [OF ok(2) [OF i] assms(6)])
    show "Closed (ps_identity (pr_slots b ! i)) \<notin> set es'" if "ps_identity (pr_slots b ! i) \<noteq> 0"
      using that ok(2) [OF i] assms(5) by (auto simp: broker_slot_ok_def)
    show "mem' p \<noteq> None" if "ps_subscriber (pr_slots b ! i) = Some p" "mem p \<noteq> None" for p
      by (rule assms(4) [OF _ that]) (simp add: i ok(1))
  qed (simp add: used)
  moreover have "Closed identity \<in> set es' \<Longrightarrow> Closed identity \<in> set es" "Reserved p identity \<in> set es' \<Longrightarrow> Reserved p identity \<in> set es"
    for identity p using assms(5) by auto
  ultimately show ?thesis
    using assms(1) unfolding broker_registry_ok_def assms(2) used by blast
qed

lemma find_slot:
  assumes "promiscuous_find token b = Some i"
  shows "i < MAX_SUBSCRIBERS" "ps_identity (pr_slots b ! i) = token" "token \<noteq> 0"
  using assms by (auto simp: promiscuous_find_def find_Some_iff split: if_splits)

text \<open>A step that changes one used slot: its identity and subscriber stay.\<close>

lemma change_slot:
  assumes ok: "broker_registry_ok es b mem" and i: "i < MAX_SUBSCRIBERS"
    and b': "pr_slots b' = (pr_slots b)[i := slot]" "pr_next_identity b' = pr_next_identity b"
    and same: "ps_identity slot = ps_identity (pr_slots b ! i)" "ps_subscriber slot = ps_subscriber (pr_slots b ! i)"
    and new: "broker_slot_ok (e # es) b mem slot" and e: "e \<in> {Silent} \<union> range Delivered \<union> range Activated"
  shows "broker_registry_ok (e # es) b' mem"
proof (rule update_slot [OF ok i b'(1)])
  note reg = registry_okD [OF ok]
  have used: "used_identity identity b' = used_identity identity b" for identity
    using b'(2) by (simp add: used_identity_def)
  show "broker_slot_ok (e # es) b' mem slot" by (rule new [unfolded broker_slot_ok_def, folded used, folded broker_slot_ok_def])
  show "broker_slot_ok (e # es) b' mem (pr_slots b ! j)" if "j < MAX_SUBSCRIBERS" for j
    using reg(2) [OF that] e by (auto intro!: slot_ok_mono [OF reg(2) [OF that]] simp: used broker_slot_ok_def)
  show "ps_identity (pr_slots b ! j) \<noteq> ps_identity slot \<and> ps_subscriber (pr_slots b ! j) \<noteq> ps_subscriber slot"
    if "j < MAX_SUBSCRIBERS" "j \<noteq> i" "ps_identity slot \<noteq> 0 \<or> ps_identity (pr_slots b ! j) \<noteq> 0" for j
    using that reg(3) [OF that(1) i] reg(3) [OF i that(1)] same by auto
  show "used_identity identity b'" if "Closed identity \<in> set (e # es) \<or> Reserved p identity \<in> set (e # es)" for identity p
    using that reg(4,5) e by (auto simp: used)
qed

lemma dispatch_ok_kept:
  assumes "dispatch_ok b a"
    "\<And>i. i < MAX_SUBSCRIBERS \<Longrightarrow> (ps_entered (pr_slots b' ! i) \<noteq> 0) = (ps_entered (pr_slots b ! i) \<noteq> 0)"
    "\<And>i. i < MAX_SUBSCRIBERS \<Longrightarrow> ps_entered (pr_slots b ! i) \<noteq> 0 \<Longrightarrow> ps_subscriber (pr_slots b' ! i) = ps_subscriber (pr_slots b ! i)"
  shows "dispatch_ok b' a"
  using assms by (cases a) (simp_all add: dispatch_ok_def)

lemma dispatches_kept:
  assumes "dispatches_ok b ats" "pr_dispatch_busy b' = pr_dispatch_busy b"
    "\<And>i. i < MAX_SUBSCRIBERS \<Longrightarrow> (ps_entered (pr_slots b' ! i) \<noteq> 0) = (ps_entered (pr_slots b ! i) \<noteq> 0)"
    "\<And>i. i < MAX_SUBSCRIBERS \<Longrightarrow> ps_entered (pr_slots b ! i) \<noteq> 0 \<Longrightarrow> ps_subscriber (pr_slots b' ! i) = ps_subscriber (pr_slots b ! i)"
  shows "dispatches_ok b' ats"
proof -
  have "dispatch_ok b' a" if "dispatch_ok b a" for a using dispatch_ok_kept [OF that assms(3,4)] .
  then show ?thesis using assms(1,2) unfolding dispatches_ok_def by (auto split: if_splits)
qed

lemma dispatches_change:
  assumes "dispatches_ok b ats" "broker_registry_ok es b mem" "pr_dispatch_busy b' = pr_dispatch_busy b" "pr_slots b' = (pr_slots b)[i := slot]"
    "(ps_entered slot \<noteq> 0) = (ps_entered (pr_slots b ! i) \<noteq> 0)"
    "ps_entered slot \<noteq> 0 \<Longrightarrow> ps_subscriber slot = ps_subscriber (pr_slots b ! i)"
  shows "dispatches_ok b' ats"
proof (rule dispatches_kept [OF assms(1,3)])
  have at: "pr_slots b' ! j = (if j = i then slot else pr_slots b ! j)" if "j < MAX_SUBSCRIBERS" for j
    using that registry_okD(1) [OF assms(2)] by (simp add: assms(4))
  show "(ps_entered (pr_slots b' ! j) \<noteq> 0) = (ps_entered (pr_slots b ! j) \<noteq> 0)" if "j < MAX_SUBSCRIBERS" for j
    using at [OF that] assms(5) by simp
  show "ps_subscriber (pr_slots b' ! j) = ps_subscriber (pr_slots b ! j)"
    if "j < MAX_SUBSCRIBERS" "ps_entered (pr_slots b ! j) \<noteq> 0" for j
    using that at [OF that(1)] assms(5,6) by auto
qed

text \<open>A call that leaves the registry as it is.\<close>

lemma registry_stays:
  assumes "broker_inv es s" "e \<in> {Silent} \<union> range Delivered \<union> range Activated"
  shows "broker_inv (e # es) s"
proof -
  have "broker_registry_ok (e # es) (sy_registry s) (sy_memory s)"
    by (rule registry_ok_kept [of es _ "sy_memory s"]) (use assms in \<open>auto simp: broker_inv_def\<close>)
  then show ?thesis using assms(1) by (simp add: broker_inv_def)
qed

lemma activate_keeps:
  assumes "broker_inv es s" "promiscuous_activate token (sy_registry s) = (r, b)"
  shows "broker_inv ((if r = OK then Activated token else Silent) # es) (s\<lparr>sy_registry := b\<rparr>)"
proof -
  have ok: "broker_registry_ok es (sy_registry s) (sy_memory s)" and at: "dispatches_ok (sy_registry s) (sy_at s)"
    using assms(1) by (simp_all add: broker_inv_def)
  consider (same) "b = sy_registry s" "r \<noteq> OK"
    | (change) i where "promiscuous_find token (sy_registry s) = Some i" "r = OK"
      "b = sy_registry s\<lparr>pr_slots := (pr_slots (sy_registry s))[i := (pr_slots (sy_registry s) ! i)\<lparr>ps_phase := ACTIVE\<rparr>]\<rparr>"
    using assms(2) by (auto simp: promiscuous_activate_def Let_def split: option.splits if_splits)
  then show ?thesis
  proof cases
    case same
    then show ?thesis using registry_stays [OF assms(1)] by simp
  next
    case change
    note i = find_slot [OF change(1)]
    have "broker_slot_ok (Activated token # es) (sy_registry s) (sy_memory s) ((pr_slots (sy_registry s) ! i)\<lparr>ps_phase := ACTIVE\<rparr>)"
      using registry_okD(2) [OF ok i(1)] i by (auto simp: broker_slot_ok_def)
    then have "broker_registry_ok (Activated token # es) b (sy_memory s)"
      by (rule change_slot [OF ok i(1), rotated 4]) (simp_all add: change(3))
    moreover have "dispatches_ok b (sy_at s)"
      by (rule dispatches_change [OF at ok, of _ i "(pr_slots (sy_registry s) ! i)\<lparr>ps_phase := ACTIVE\<rparr>"]) (simp_all add: change(3))
    ultimately show ?thesis using assms(1) change(2) by (simp add: broker_inv_def)
  qed
qed

lemma begin_close_keeps:
  assumes "broker_inv es s" "promiscuous_begin_close token (sy_registry s) = (r, b)"
  shows "broker_inv (Silent # es) (s\<lparr>sy_registry := b\<rparr>)"
proof -
  have ok: "broker_registry_ok es (sy_registry s) (sy_memory s)" and at: "dispatches_ok (sy_registry s) (sy_at s)"
    using assms(1) by (simp_all add: broker_inv_def)
  consider (same) "b = sy_registry s"
    | (change) i where "promiscuous_find token (sy_registry s) = Some i"
      "b = sy_registry s\<lparr>pr_slots := (pr_slots (sy_registry s))[i := (pr_slots (sy_registry s) ! i)\<lparr>ps_phase := CLOSING\<rparr>]\<rparr>"
    using assms(2) by (auto simp: promiscuous_begin_close_def split: option.splits)
  then show ?thesis
  proof cases
    case same
    then show ?thesis using registry_stays [OF assms(1)] by simp
  next
    case change
    note i = find_slot [OF change(1)]
    have "broker_slot_ok (Silent # es) (sy_registry s) (sy_memory s) ((pr_slots (sy_registry s) ! i)\<lparr>ps_phase := CLOSING\<rparr>)"
      using registry_okD(2) [OF ok i(1)] i by (auto simp: broker_slot_ok_def)
    then have "broker_registry_ok (Silent # es) b (sy_memory s)"
      by (rule change_slot [OF ok i(1), rotated 4]) (simp_all add: change(2))
    moreover have "dispatches_ok b (sy_at s)"
      by (rule dispatches_change [OF at ok, of _ i "(pr_slots (sy_registry s) ! i)\<lparr>ps_phase := CLOSING\<rparr>"]) (simp_all add: change(2))
    ultimately show ?thesis using assms(1) by (simp add: broker_inv_def)
  qed
qed

lemma finish_close_cases:
  assumes "promiscuous_finish_close token b0 = (r, token', b)"
  obtains (same) "b = b0" "r \<noteq> OK"
    | (change) i where "promiscuous_find token b0 = Some i" "r = OK" "ps_entered (pr_slots b0 ! i) = 0"
      "b = b0\<lparr>pr_slots := (pr_slots b0)[i := vacant_slot]\<rparr>"
proof (cases "promiscuous_find token b0")
  case None
  then show ?thesis using assms same by (simp add: promiscuous_finish_close_def)
next
  case (Some i)
  show ?thesis
  proof (cases "ps_phase (pr_slots b0 ! i) = CLOSING \<and> ps_entered (pr_slots b0 ! i) = 0")
    case True
    then show ?thesis using assms Some change [OF Some] by (simp add: promiscuous_finish_close_def)
  next
    case False
    then show ?thesis
      using assms Some same by (cases "ps_phase (pr_slots b0 ! i) = CLOSING") (simp_all add: promiscuous_finish_close_def)
  qed
qed

lemma finish_close_keeps:
  assumes "broker_inv es s" "promiscuous_finish_close token (sy_registry s) = (r, token', b)"
  shows "broker_inv ((if r = OK then Closed token else Silent) # es) (s\<lparr>sy_registry := b\<rparr>)"
proof -
  let ?b = "sy_registry s"
  have ok: "broker_registry_ok es ?b (sy_memory s)" and at: "dispatches_ok ?b (sy_at s)"
    using assms(1) by (simp_all add: broker_inv_def)
  note reg = registry_okD [OF ok]
  consider (same) "b = ?b" "r \<noteq> OK"
    | (change) i where "promiscuous_find token ?b = Some i" "r = OK" "ps_entered (pr_slots ?b ! i) = 0"
      "b = ?b\<lparr>pr_slots := (pr_slots ?b)[i := vacant_slot]\<rparr>"
    by (rule finish_close_cases [OF assms(2)])
  then show ?thesis
  proof cases
    case same
    then show ?thesis using registry_stays [OF assms(1)] by simp
  next
    case change
    note i = find_slot [OF change(1)]
    have used: "used_identity identity b = used_identity identity ?b" for identity by (simp add: change(4) used_identity_def)
    have apart: "ps_identity (pr_slots ?b ! j) \<noteq> token" if "j < MAX_SUBSCRIBERS" "j \<noteq> i" for j
      using reg(3) [OF i(1) that(1)] i(2,3) that(2) by auto
    have "broker_registry_ok (Closed token # es) b (sy_memory s)"
    proof (rule update_slot [OF ok i(1)])
      show "pr_slots b = (pr_slots ?b)[i := vacant_slot]" by (simp add: change(4))
      show "broker_slot_ok (Closed token # es) b (sy_memory s) vacant_slot" by (simp add: broker_slot_ok_def vacant_slot_def)
      show "broker_slot_ok (Closed token # es) b (sy_memory s) (pr_slots ?b ! j)" if "j < MAX_SUBSCRIBERS" "j \<noteq> i" for j
      proof (rule slot_ok_mono [OF reg(2) [OF that(1)]])
        show "Closed (ps_identity (pr_slots ?b ! j)) \<notin> set (Closed token # es)" if "ps_identity (pr_slots ?b ! j) \<noteq> 0"
          using reg(2) [OF \<open>j < MAX_SUBSCRIBERS\<close>] apart [OF \<open>j < MAX_SUBSCRIBERS\<close> \<open>j \<noteq> i\<close>] that by (simp add: broker_slot_ok_def)
        show "used_identity identity b" if "used_identity identity ?b" for identity using that by (simp only: used)
      qed auto
      show "ps_identity (pr_slots ?b ! j) \<noteq> ps_identity vacant_slot \<and> ps_subscriber (pr_slots ?b ! j) \<noteq> ps_subscriber vacant_slot"
        if "j < MAX_SUBSCRIBERS" "j \<noteq> i" "ps_identity vacant_slot \<noteq> 0 \<or> ps_identity (pr_slots ?b ! j) \<noteq> 0" for j
        using reg(2) [OF that(1)] that(3) by (auto simp: broker_slot_ok_def vacant_slot_def)
      show "used_identity identity b" if "Closed identity \<in> set (Closed token # es) \<or> Reserved p identity \<in> set (Closed token # es)"
        for identity p
        using that reg(4,5) reg(2) [OF i(1)] i by (auto simp: used broker_slot_ok_def)
    qed
    moreover have "dispatches_ok b (sy_at s)"
      by (rule dispatches_change [OF at ok, of _ i vacant_slot]) (simp_all add: change(3,4) vacant_slot_def)
    ultimately show ?thesis using assms(1) change(2) by (simp add: broker_inv_def)
  qed
qed

lemma reserve_cases:
  assumes "promiscuous_reserve pointer f sink context out (b0, m0) = (r, out', b, m)"
  obtains (same) "b = b0" "m = m0" "r \<noteq> OK"
    | (change) i p sb where "i < MAX_SUBSCRIBERS" "ps_identity (pr_slots b0 ! i) = 0" "pointer = Some p"
      "\<And>j. j < MAX_SUBSCRIBERS \<Longrightarrow> ps_subscriber (pr_slots b0 ! j) \<noteq> Some p" "pr_next_identity b0 \<noteq> 0"
      "r = OK" "out' = pr_next_identity b0" "m = m0(p \<mapsto> sb)"
      "b = b0\<lparr>pr_slots := (pr_slots b0)[i := \<lparr>ps_identity = out', ps_phase = RESERVED, ps_entered = 0, ps_subscriber = Some p\<rparr>],
        pr_next_identity := (if out' = - 1 then 0 else out' + 1)\<rparr>"
proof (cases "r = OK")
  case False
  then show ?thesis
    using assms same by (auto simp: promiscuous_reserve_def Let_def split: if_splits option.splits)
next
  case True
  then obtain i p where *: "pointer = Some p" "find_vacant p b0 = Some (Some i)" "pr_next_identity b0 \<noteq> 0"
    "out' = pr_next_identity b0"
    "m = m0(p \<mapsto> \<lparr>sb_filter = the f, sb_filter_state = filter_state_initial, sb_sink = the sink, sb_context = context\<rparr>)"
    "b = b0\<lparr>pr_slots := (pr_slots b0)[i := \<lparr>ps_identity = out', ps_phase = RESERVED, ps_entered = 0, ps_subscriber = Some p\<rparr>],
      pr_next_identity := (if out' = - 1 then 0 else out' + 1)\<rparr>"
    using assms by (auto simp: promiscuous_reserve_def Let_def split: if_splits option.splits)
  have "i < MAX_SUBSCRIBERS" "ps_identity (pr_slots b0 ! i) = 0" "j < MAX_SUBSCRIBERS \<Longrightarrow> ps_subscriber (pr_slots b0 ! j) \<noteq> Some p" for j
    using *(2) by (auto simp: find_vacant_def list_ex_iff find_Some_iff split: if_splits)
  then show ?thesis using change [of i p] * True by blast
qed

lemma used_next:
  fixes b :: promiscuous
  assumes "pr_next_identity b \<noteq> 0" "pr_next_identity b' = (if pr_next_identity b = - 1 then 0 else pr_next_identity b + 1)"
  shows "used_identity identity b' \<longleftrightarrow> used_identity identity b \<or> identity = pr_next_identity b"
    "\<not> used_identity (pr_next_identity b) b"
proof -
  have "x < n + 1 \<longleftrightarrow> x \<le> n" if "n \<noteq> - 1" for x n :: u32
  proof -
    have "1 + n \<noteq> 0" using that by (metis add_eq_0_iff)
    then have "unat (n + 1) = Suc (unat n)" by (simp add: unatSuc add.commute [of n])
    then show ?thesis by (simp add: word_less_nat_alt word_le_nat_alt less_Suc_eq_le)
  qed
  moreover have "n + 1 \<noteq> 0" if "n \<noteq> - 1" for n :: u32 using that by (metis add.commute add_eq_0_iff)
  moreover have "x \<le> - 1" for x :: u32 by (simp add: word_order.extremum)
  ultimately show "used_identity identity b' \<longleftrightarrow> used_identity identity b \<or> identity = pr_next_identity b"
    "\<not> used_identity (pr_next_identity b) b"
    using assms by (auto simp: used_identity_def order.order_iff_strict)
qed

lemma reserve_keeps:
  assumes "broker_inv es s" "promiscuous_reserve pointer f sink context out (sy_registry s, sy_memory s) = (r, out', b, m)"
  shows "broker_inv ((if r = OK then Reserved (the pointer) out' else Silent) # es) (s\<lparr>sy_registry := b, sy_memory := m\<rparr>)"
proof -
  let ?b = "sy_registry s"
  have ok: "broker_registry_ok es ?b (sy_memory s)" and at: "dispatches_ok ?b (sy_at s)"
    using assms(1) by (simp_all add: broker_inv_def)
  note reg = registry_okD [OF ok]
  show ?thesis
    using assms(2)
  proof (cases rule: reserve_cases)
    case same
    then show ?thesis using registry_stays [OF assms(1)] by simp
  next
    case (change i p sb)
    let ?slot = "\<lparr>ps_identity = out', ps_phase = RESERVED, ps_entered = 0, ps_subscriber = Some p\<rparr>"
    let ?es = "Reserved p out' # es"
    have "pr_next_identity b = (if pr_next_identity ?b = - 1 then 0 else pr_next_identity ?b + 1)"
      unfolding change(9) change(7) by simp
    note used = used_next [OF change(5) this, folded change(7)]
    have vacant: "pr_slots ?b ! i = vacant_slot" using reg(2) [OF change(1)] change(2) by (simp add: broker_slot_ok_def)
    have apart: "ps_identity (pr_slots ?b ! j) \<noteq> out'" if "j < MAX_SUBSCRIBERS" for j
      using reg(2) [OF that] used(2) change(5,7) by (auto simp: broker_slot_ok_def)
    have "broker_registry_ok ?es b m"
    proof (rule update_slot [OF ok change(1)])
      show "pr_slots b = (pr_slots ?b)[i := ?slot]" by (simp add: change(9))
      have "Closed out' \<notin> set es" using reg(4) used(2) by blast
      then show "broker_slot_ok ?es b m ?slot" using change(5,7,8) by (simp add: broker_slot_ok_def used(1))
      show "broker_slot_ok ?es b m (pr_slots ?b ! j)" if "j < MAX_SUBSCRIBERS" "j \<noteq> i" for j
      proof (rule slot_ok_mono [OF reg(2) [OF that(1)]])
        show "Closed (ps_identity (pr_slots ?b ! j)) \<notin> set ?es" if "ps_identity (pr_slots ?b ! j) \<noteq> 0"
          using reg(2) [OF \<open>j < MAX_SUBSCRIBERS\<close>] that by (simp add: broker_slot_ok_def)
        show "used_identity identity b" if "used_identity identity ?b" for identity using that used(1) by blast
        show "m q \<noteq> None" if "sy_memory s q \<noteq> None" for q using that by (simp add: change(8))
      qed auto
      show "ps_identity (pr_slots ?b ! j) \<noteq> ps_identity ?slot \<and> ps_subscriber (pr_slots ?b ! j) \<noteq> ps_subscriber ?slot"
        if "j < MAX_SUBSCRIBERS" for j using apart [OF that] change(4) [OF that] by simp
      show "used_identity identity b" if "Closed identity \<in> set ?es \<or> Reserved q identity \<in> set ?es" for identity q
        using that reg(4,5) by (auto simp: used(1))
    qed
    moreover have "dispatches_ok b (sy_at s)"
      by (rule dispatches_change [OF at ok, of _ i ?slot]) (simp_all add: change(9) vacant vacant_slot_def)
    ultimately show ?thesis using assms(1) change(3,6) by (simp add: broker_inv_def)
  qed
qed

text \<open>The filters of the slots are there to be read.\<close>

lemma snapshot_slot_reads:
  assumes "broker_slot_ok es b mem slot"
  shows "snapshot_slot mem slot out \<noteq> None"
  using assms by (auto simp: broker_slot_ok_def snapshot_slot_def Let_def split: if_splits)

lemma snapshot_loop_reads: "(\<And>slot. slot \<in> set slots \<Longrightarrow> broker_slot_ok es b mem slot) \<Longrightarrow> snapshot_loop mem slots out \<noteq> None"
proof (induction slots arbitrary: out)
  case (Cons slot slots)
  then obtain out' where "snapshot_slot mem slot out = Some out'" using snapshot_slot_reads [of es b mem slot out] by auto
  then show ?case using Cons by simp
qed simp

lemma snapshot_reads:
  assumes "broker_registry_ok es b mem"
  shows "promiscuous_snapshot_of (b, mem) \<noteq> None"
proof -
  have "broker_slot_ok es b mem slot" if "slot \<in> set (pr_slots b)" for slot
    using that registry_okD(1,2) [OF assms] by (auto simp: in_set_conv_nth)
  then show ?thesis unfolding promiscuous_snapshot_of_def fst_conv snd_conv by (rule snapshot_loop_reads)
qed

lemma requirements_reads:
  assumes "broker_registry_ok es b mem"
  shows "promiscuous_owned_requirements tokens (b, mem) \<noteq> None"
  using snapshot_reads [OF assms] by (auto simp: promiscuous_owned_requirements_def split: option.splits)

text \<open>What a dispatch may rely on: while it runs it is the only one, and what it still has to serve is held.\<close>

lemma dispatching:
  assumes "broker_inv es s" "sy_at s t \<noteq> Idle"
  shows "pr_dispatch_busy (sy_registry s)" "u \<noteq> t \<Longrightarrow> sy_at s u = Idle" "dispatch_ok (sy_registry s) (sy_at s t)"
  using assms unfolding broker_inv_def dispatches_ok_def by (metis (full_types))+

lemma held_slot:
  assumes "broker_registry_ok es b mem" "dispatch_ok b a" "i \<in> set (pending a)"
  shows "\<exists>p identity. ps_subscriber (pr_slots b ! i) = Some p \<and> mem p \<noteq> None \<and>
    Reserved p identity \<in> set es \<and> Activated identity \<in> set es \<and> Closed identity \<notin> set es"
proof -
  have i: "i < MAX_SUBSCRIBERS" "ps_entered (pr_slots b ! i) \<noteq> 0" using assms(2,3) by (auto simp: dispatch_ok_def)
  then show ?thesis
    using registry_okD(2) [OF assms(1) i(1)] by (fastforce simp: broker_slot_ok_def vacant_slot_def split: if_splits)
qed

lemma enter_keeps:
  assumes "broker_inv es s" "sy_at s t = Idle" "dispatch_enter view now (sy_registry s) = (a, b)"
  shows "broker_inv (Silent # es) (s\<lparr>sy_registry := b, sy_at := (sy_at s)(t := a)\<rparr>)"
proof -
  let ?b = "sy_registry s"
  have ok: "broker_registry_ok es ?b (sy_memory s)" and ats: "dispatches_ok ?b (sy_at s)"
    using assms(1) by (simp_all add: broker_inv_def)
  note reg = registry_okD [OF ok]
  show ?thesis
  proof (cases "pr_dispatch_busy ?b")
    case True
    then have a: "a = Idle" "pr_slots b = pr_slots ?b" "pr_next_identity b = pr_next_identity ?b" "pr_dispatch_busy b"
      using assms(3) by (auto simp: dispatch_enter_def)
    moreover have "(sy_at s)(t := Idle) = sy_at s" using assms(2) by auto
    moreover have "broker_registry_ok (Silent # es) b (sy_memory s)" by (rule registry_ok_kept [OF ok a(2,3)]) auto
    moreover have "dispatches_ok b (sy_at s)" by (rule dispatches_kept [OF ats]) (simp_all add: a True)
    ultimately show ?thesis using assms(1) by (simp add: broker_inv_def)
  next
    case False
    let ?slots = "map (\<lambda>slot. if ps_phase slot = ACTIVE then slot\<lparr>ps_entered := 1\<rparr> else slot) (pr_slots ?b)"
    let ?rest = "filter (\<lambda>i. ps_phase (pr_slots ?b ! i) = ACTIVE) [0..<MAX_SUBSCRIBERS]"
    have a: "a = Serving ?rest view now" and b: "b = ?b\<lparr>pr_dispatch_busy := True, pr_slots := ?slots\<rparr>"
      using assms(3) False by (simp_all add: dispatch_enter_def)
    have idle: "sy_at s u = Idle" for u using ats False by (simp add: dispatches_ok_def)
    have none: "ps_entered (pr_slots ?b ! i) = 0" if "i < MAX_SUBSCRIBERS" for i
      using ats False that by (simp add: dispatches_ok_def dispatch_ok_def)
    have at: "pr_slots b ! i = (if ps_phase (pr_slots ?b ! i) = ACTIVE then (pr_slots ?b ! i)\<lparr>ps_entered := 1\<rparr> else pr_slots ?b ! i)"
      if "i < MAX_SUBSCRIBERS" for i using that reg(1) by (simp add: b)
    have slot: "broker_slot_ok (Silent # es) b (sy_memory s) (pr_slots b ! i)" if "i < MAX_SUBSCRIBERS" for i
      using reg(2) [OF that] unfolding at [OF that] by (auto simp: broker_slot_ok_def vacant_slot_def b used_identity_def)
    have "broker_registry_ok (Silent # es) b (sy_memory s)"
      unfolding broker_registry_ok_def
    proof (intro conjI allI impI)
      show "length (pr_slots b) = MAX_SUBSCRIBERS" by (simp add: b reg(1))
      show "broker_slot_ok (Silent # es) b (sy_memory s) (pr_slots b ! i)" if "i < MAX_SUBSCRIBERS" for i by (rule slot [OF that])
      show "ps_identity (pr_slots b ! i) \<noteq> ps_identity (pr_slots b ! j)" "ps_subscriber (pr_slots b ! i) \<noteq> ps_subscriber (pr_slots b ! j)"
        if "i < MAX_SUBSCRIBERS" "j < MAX_SUBSCRIBERS" "i \<noteq> j" "ps_identity (pr_slots b ! i) \<noteq> 0" for i j
        using that reg(3) [OF that(1,2)] by (auto simp: at split: if_splits)
      show "used_identity identity b" if "Closed identity \<in> set (Silent # es) \<or> (\<exists>p. Reserved p identity \<in> set (Silent # es))" for identity
        using that reg(4,5) by (auto simp: b used_identity_def)
    qed
    moreover have "dispatch_ok b a"
      using none by (auto simp: dispatch_ok_def a at)
    ultimately show ?thesis
      using assms(1) idle by (auto simp: broker_inv_def dispatches_ok_def a b)
  qed
qed

text \<open>One step of the dispatch that is under way.\<close>

lemma dispatches_next:
  assumes "broker_inv es s" "sy_at s t \<noteq> Idle" "broker_registry_ok (e # es) b m" "pr_dispatch_busy b = pr_dispatch_busy (sy_registry s)"
    "dispatch_ok b a" "a \<noteq> Idle"
  shows "broker_inv (e # es) (s\<lparr>sy_registry := b, sy_memory := m, sy_at := (sy_at s)(t := a)\<rparr>)"
proof -
  note d = dispatching [OF assms(1,2)]
  have "\<forall>u. u \<noteq> t \<longrightarrow> ((sy_at s)(t := a)) u = Idle" using d(2) by simp
  then have "dispatches_ok b ((sy_at s)(t := a))"
    using assms(4,5,6) d(1) unfolding dispatches_ok_def by (intro if_P [THEN iffD2]) (auto intro!: exI [of _ t])
  then show ?thesis using assms(1,3) by (simp add: broker_inv_def)
qed

lemma dispatch_keeps:
  assumes inv: "broker_inv es s"
  obtains a b m where "dispatch_step (sy_at s t) (sy_registry s, sy_memory s) = Some (a, b, m)"
    "broker_inv (delivery (sy_at s t) # es) (s\<lparr>sy_registry := b, sy_memory := m, sy_at := (sy_at s)(t := a)\<rparr>)"
proof -
  let ?b = "sy_registry s"
  let ?m = "sy_memory s"
  have ok: "broker_registry_ok es ?b ?m" and ats: "dispatches_ok ?b (sy_at s)"
    using inv by (simp_all add: broker_inv_def)
  have events: "delivery (sy_at s t) \<in> {Silent} \<union> range Delivered \<union> range Activated"
    by (simp add: delivery_def split: dispatch_at.split)
  note d = dispatching [OF inv, of t]
  have kept: "broker_registry_ok (delivery (sy_at s t) # es) ?b m" if "\<And>p. ?m p \<noteq> None \<Longrightarrow> m p \<noteq> None" for m
    by (rule registry_ok_kept [OF ok refl refl]) (use that events in auto)
  show ?thesis
  proof (cases "sy_at s t" rule: pending.cases)
    case 1
    moreover have "(sy_at s)(t := Idle) = sy_at s" using 1 by auto
    ultimately show ?thesis using that [of Idle ?b ?m] registry_stays [OF inv] by (simp add: delivery_def)
  next
    case (2 rest view now)
    show ?thesis
    proof (cases rest)
      case Nil
      have "dispatch_ok (?b\<lparr>pr_dispatch_busy := False\<rparr>) Idle" using d(3) 2 Nil by (simp add: dispatch_ok_def)
      moreover have "broker_registry_ok (Silent # es) (?b\<lparr>pr_dispatch_busy := False\<rparr>) ?m"
        by (rule registry_ok_kept [OF ok]) auto
      ultimately show ?thesis
        using that [of Idle "?b\<lparr>pr_dispatch_busy := False\<rparr>" ?m] d(2) 2 Nil inv by (simp add: broker_inv_def dispatches_ok_def delivery_def)
    next
      case (Cons i rest')
      have at: "dispatch_ok ?b (sy_at s t)" and busy: "sy_at s t \<noteq> Idle" using d(3) 2 by simp_all
      obtain p sb where p: "ps_subscriber (pr_slots ?b ! i) = Some p" "?m p = Some sb"
        using held_slot [OF ok at, of i] 2 Cons by auto
      obtain result st where r: "rx_filter_evaluate (Some (sb_filter sb)) (sb_filter_state sb) (Some view) now = (result, st)"
        by (cases "rx_filter_evaluate (Some (sb_filter sb)) (sb_filter_state sb) (Some view) now")
      let ?a = "Calling i p result rest' view now"
      have "dispatch_ok ?b ?a" using at p(1) by (simp add: dispatch_ok_def 2 Cons)
      from dispatches_next [OF inv busy kept _ this, of "?m(p \<mapsto> sb\<lparr>sb_filter_state := st\<rparr>)"]
      show ?thesis using that [of ?a ?b "?m(p \<mapsto> sb\<lparr>sb_filter_state := st\<rparr>)"] p r by (simp add: 2 Cons)
    qed
  next
    case (3 i p result rest view now)
    have at: "dispatch_ok ?b (sy_at s t)" and busy: "sy_at s t \<noteq> Idle" using d(3) 3 by simp_all
    have "ps_subscriber (pr_slots ?b ! i) = Some p" using at by (simp add: dispatch_ok_def 3)
    then obtain sb where sb: "?m p = Some sb" using held_slot [OF ok at, of i] 3 by auto
    let ?a = "Leaving i rest view now"
    have "dispatch_ok ?b ?a" using at by (simp add: dispatch_ok_def 3)
    from dispatches_next [OF inv busy kept _ this, of ?m] show ?thesis using that [of ?a ?b ?m] sb by (simp add: 3)
  next
    case (4 i rest view now)
    have at: "dispatch_ok ?b (sy_at s t)" and busy: "sy_at s t \<noteq> Idle" using d(3) 4 by simp_all
    have i: "i < MAX_SUBSCRIBERS" "i \<notin> set rest" using at by (auto simp: dispatch_ok_def 4)
    let ?slot = "(pr_slots ?b ! i)\<lparr>ps_entered := 0\<rparr>"
    let ?b' = "?b\<lparr>pr_slots := (pr_slots ?b)[i := ?slot]\<rparr>"
    have "broker_slot_ok (delivery (sy_at s t) # es) ?b ?m ?slot"
      using registry_okD(2) [OF kept i(1), of ?m] by (auto simp: broker_slot_ok_def vacant_slot_def)
    then have reg: "broker_registry_ok (delivery (sy_at s t) # es) ?b' ?m"
      by (rule change_slot [OF ok i(1), rotated 4]) (use events in simp_all)
    have "dispatch_ok ?b' (Serving rest view now)"
      using at i registry_okD(1) [OF ok] by (simp add: dispatch_ok_def 4 nth_list_update)
    from dispatches_next [OF inv busy reg _ this]
    show ?thesis using that [of "Serving rest view now" ?b' ?m] by (simp add: 4)
  qed
qed

lemma broker_step_keeps:
  assumes "broker_inv es s" "broker_step s e s'"
  shows "broker_inv (e # es) s'"
  using assms(2)
proof cases
  case (reserve pointer f sink ctx out r out' b m)
  then show ?thesis using reserve_keeps [OF assms(1)] by simp
next
  case (activate token r b)
  then show ?thesis using activate_keeps [OF assms(1)] by simp
next
  case (begin_close token r b)
  then show ?thesis using begin_close_keeps [OF assms(1)] by simp
next
  case (finish_close token r token' b)
  then show ?thesis using finish_close_keeps [OF assms(1)] by simp
next
  case snapshot
  have "s\<lparr>sy_fault := sy_fault s\<rparr> = s" by simp
  then show ?thesis
    using snapshot registry_stays [OF assms(1)] snapshot_reads [of es "sy_registry s" "sy_memory s"] assms(1) by (simp add: broker_inv_def)
next
  case (requirements tokens)
  have "s\<lparr>sy_fault := sy_fault s\<rparr> = s" by simp
  then show ?thesis
    using requirements registry_stays [OF assms(1)] requirements_reads [of es "sy_registry s" "sy_memory s" tokens] assms(1)
    by (simp add: broker_inv_def)
next
  case (enter t view now a b)
  then show ?thesis using enter_keeps [OF assms(1)] by simp
next
  case (dispatch t a b m)
  then show ?thesis using dispatch_keeps [OF assms(1), of t] by (metis option.inject prod.inject)
next
  case (fault t)
  then show ?thesis using dispatch_keeps [OF assms(1), of t] by (metis option.distinct(1))
next
  case (reuse p content)
  have "broker_registry_ok (e # es) (sy_registry s) ((sy_memory s)(p := content))"
    by (rule registry_ok_kept [of es _ "sy_memory s"]) (use assms(1) reuse in \<open>auto simp: broker_inv_def\<close>)
  then show ?thesis using assms(1) reuse by (simp add: broker_inv_def)
qed

lemma broker_inv_initial: "broker_inv [] system_initial"
  by (simp add: broker_inv_def broker_registry_ok_def dispatches_ok_def dispatch_ok_def system_initial_def promiscuous_initial_def
      broker_slot_ok_def vacant_slot_def)

lemma broker_run_inv: "broker_run es s \<Longrightarrow> broker_inv es s"
  by (induction rule: broker_run.induct) (simp add: broker_inv_initial, rule broker_step_keeps)

text \<open>A packet goes to a subscriber that has been reserved and activated and whose close has not finished.\<close>

lemma delivered_open:
  assumes "broker_inv es s" "broker_step s (Delivered p) s'"
  shows "\<exists>identity. Reserved p identity \<in> set es \<and> Activated identity \<in> set es \<and> Closed identity \<notin> set es"
proof -
  obtain t where t: "delivery (sy_at s t) = Delivered p" using assms(2) by cases (auto split: if_splits)
  then obtain i result rest view now where at: "sy_at s t = Calling i p result rest view now"
    by (auto simp: delivery_def split: dispatch_at.splits)
  then have ok: "dispatch_ok (sy_registry s) (sy_at s t)" using dispatching(3) [OF assms(1), of t] by simp
  then have "ps_subscriber (pr_slots (sy_registry s) ! i) = Some p" by (simp add: dispatch_ok_def at)
  then show ?thesis using held_slot [OF _ ok, of es "sy_memory s" i] assms(1) at by (auto simp: broker_inv_def)
qed

text \<open>No token is ever handed out twice.\<close>

lemma reserved_fresh:
  assumes "broker_inv es s" "broker_step s (Reserved p identity) s'"
  shows "Reserved q identity \<notin> set es"
proof -
  have ok: "broker_registry_ok es (sy_registry s) (sy_memory s)" using assms(1) by (simp add: broker_inv_def)
  have "\<not> used_identity identity (sy_registry s)"
    using assms(2)
  proof cases
    case (reserve pointer f sink ctx out r out' b m)
    from reserve(3) show ?thesis
      by (cases rule: reserve_cases) (use reserve(1) in \<open>auto simp: used_identity_def split: if_splits\<close>)
  qed (auto simp: delivery_def split: if_splits dispatch_at.splits)
  then show ?thesis using registry_okD(5) [OF ok] by blast
qed

text \<open>
  C16: in every interleaving of reserve, activate, the two halves of close, snapshots, dispatches and the
  reuse of memory that no slot holds, no operation touches memory that is not a live subscriber; at most
  one dispatch is under way; no token is handed out twice; every packet goes to a subscriber that was
  reserved and activated and whose close had not finished; and when no dispatch is under way a close
  that has begun finishes at once.
\<close>

theorem wifi_promiscuous_delivery_safe:
  assumes "broker_run es s"
  shows "\<not> sy_fault s \<and> (\<forall>t u. sy_at s t \<noteq> Idle \<and> sy_at s u \<noteq> Idle \<longrightarrow> t = u) \<and>
    (\<forall>later p identity earlier q. es = later @ Reserved p identity # earlier \<longrightarrow> Reserved q identity \<notin> set earlier) \<and>
    (\<forall>later p earlier. es = later @ Delivered p # earlier \<longrightarrow>
      (\<exists>identity. Reserved p identity \<in> set earlier \<and> Activated identity \<in> set earlier \<and> Closed identity \<notin> set earlier)) \<and>
    ((\<forall>t. sy_at s t = Idle) \<longrightarrow> (\<forall>token. fst (promiscuous_finish_close token (sy_registry s)) \<noteq> DRAINING))"
proof (intro conjI allI impI)
  note inv = broker_run_inv [OF assms]
  show "\<not> sy_fault s" using inv by (simp add: broker_inv_def)
  show "t = u" if "sy_at s t \<noteq> Idle \<and> sy_at s u \<noteq> Idle" for t u using dispatching(2) [OF inv, of t u] that by blast
  have step: "\<exists>s0 s1. broker_run earlier s0 \<and> broker_step s0 e s1" if "es = later @ e # earlier" for later e earlier
    using assms that
  proof (induction arbitrary: later rule: broker_run.induct)
    case (run_step es s e' s')
    then show ?case by (cases later) auto
  qed simp
  show "Reserved q identity \<notin> set earlier" if "es = later @ Reserved p identity # earlier" for later p identity earlier q
    using step [OF that] reserved_fresh broker_run_inv by blast
  show "\<exists>identity. Reserved p identity \<in> set earlier \<and> Activated identity \<in> set earlier \<and> Closed identity \<notin> set earlier"
    if "es = later @ Delivered p # earlier" for later p earlier
    using step [OF that] delivered_open broker_run_inv by blast
  show "fst (promiscuous_finish_close token (sy_registry s)) \<noteq> DRAINING" if idle: "\<forall>t. sy_at s t = Idle" for token
  proof -
    have "ps_entered (pr_slots (sy_registry s) ! i) = 0" if "i < MAX_SUBSCRIBERS" for i
      using inv that idle by (auto simp: broker_inv_def dispatches_ok_def dispatch_ok_def split: if_splits)
    then show ?thesis
      by (auto simp: promiscuous_finish_close_def dest: find_slot split: option.splits)
  qed
qed

text \<open>A run in which a packet is delivered.\<close>

definition example_subscriber :: subscriber where
  "example_subscriber = \<lparr>sb_filter = example_filter, sb_filter_state = filter_state_initial, sb_sink = 9, sb_context = 0\<rparr>"

definition example_registry :: "slot_phase \<Rightarrow> u8 \<Rightarrow> bool \<Rightarrow> promiscuous" where
  "example_registry phase entered busy =
     \<lparr>pr_slots = \<lparr>ps_identity = 1, ps_phase = phase, ps_entered = entered, ps_subscriber = Some 5\<rparr> # replicate 7 vacant_slot,
      pr_next_identity = 2, pr_overlapping = 0, pr_dispatch_busy = busy\<rparr>"

definition example_system :: "slot_phase \<Rightarrow> u8 \<Rightarrow> dispatch_at \<Rightarrow> subscriber \<Rightarrow> system" where
  "example_system phase entered a sb =
     \<lparr>sy_registry = example_registry phase entered (a \<noteq> Idle), sy_memory = [5 \<mapsto> sb], sy_at = (\<lambda>t. Idle)(0 := a), sy_fault = False\<rparr>"

lemma example_run:
  "\<exists>s. broker_run [Delivered 5, Silent, Silent, Activated 1, Reserved 5 1] s"
proof -
  let ?v = "the example_view"
  have eight: "MAX_SUBSCRIBERS = 8" "[0..<8] = [0, 1, 2, 3, 4, 5, 6, 7::nat]" by (simp_all add: MAX_SUBSCRIBERS_def upt_rec)
  have idle: "(\<lambda>t. Idle)(0 := Idle) = (\<lambda>t::nat. Idle)" by auto
  have "rx_filter_valid (Some example_filter)" by code_simp
  then have "promiscuous_reserve (Some 5) (Some example_filter) (Some 9) 0 0 (sy_registry system_initial, sy_memory system_initial) =
      (OK, 1, example_registry RESERVED 0 False, [5 \<mapsto> example_subscriber])"
    by (simp add: promiscuous_reserve_def find_vacant_def eight system_initial_def promiscuous_initial_def
        example_registry_def example_subscriber_def vacant_slot_def numeral_eq_Suc)
  from broker_run.run_step [OF broker_run.start broker_step.reserve [OF this]]
  have "broker_run [Reserved 5 1] (example_system RESERVED 0 Idle example_subscriber)"
    by (simp add: example_system_def system_initial_def idle)
  moreover have "promiscuous_activate 1 (example_registry RESERVED 0 False) = (OK, example_registry ACTIVE 0 False)" by code_simp
  ultimately have "broker_run [Activated 1, Reserved 5 1] (example_system ACTIVE 0 Idle example_subscriber)"
    using broker_run.run_step [OF _ broker_step.activate [of 1 "example_system RESERVED 0 Idle example_subscriber" OK]]
    by (force simp: example_system_def)
  moreover have "dispatch_enter ?v 10 (example_registry ACTIVE 0 False) = (Serving [0] ?v 10, example_registry ACTIVE 1 True)"
    by code_simp
  ultimately have "broker_run [Silent, Activated 1, Reserved 5 1] (example_system ACTIVE 1 (Serving [0] ?v 10) example_subscriber)"
    using broker_run.run_step [OF _ broker_step.enter [of "example_system ACTIVE 0 Idle example_subscriber" 0 ?v 10]]
    by (force simp: example_system_def)
  moreover obtain result st where r: "rx_filter_evaluate (Some example_filter) filter_state_initial (Some ?v) 10 = (result, st)"
    by (cases "rx_filter_evaluate (Some example_filter) filter_state_initial (Some ?v) 10")
  ultimately have "broker_run [Silent, Silent, Activated 1, Reserved 5 1]
      (example_system ACTIVE 1 (Calling 0 5 result [] ?v 10) (example_subscriber\<lparr>sb_filter_state := st\<rparr>))"
    using broker_run.run_step [OF _ broker_step.dispatch [of "example_system ACTIVE 1 (Serving [0] ?v 10) example_subscriber" 0]]
    by (force simp: example_system_def example_registry_def example_subscriber_def delivery_def)
  from broker_run.run_step [OF this broker_step.dispatch [of _ 0]]
  show ?thesis by (force simp: example_system_def delivery_def)
qed

lemma wifi_promiscuous_delivery_safe_witness:
  "\<exists>s. broker_run [Delivered 5, Silent, Silent, Activated 1, Reserved 5 1] s \<and> \<not> sy_fault s \<and>
    (\<exists>identity. Reserved 5 identity \<in> set [Silent, Silent, Activated 1, Reserved 5 1] \<and>
       Activated identity \<in> set [Silent, Silent, Activated 1, Reserved 5 1])"
proof -
  obtain s where run: "broker_run [Delivered 5, Silent, Silent, Activated 1, Reserved 5 1] s" using example_run by blast
  have split: "[Delivered 5, Silent, Silent, Activated 1, Reserved 5 1] = [] @ Delivered 5 # [Silent, Silent, Activated 1, Reserved 5 1]"
    by simp
  from wifi_promiscuous_delivery_safe [OF run] run split show ?thesis by metis
qed

end
