(* ===== verification/Wifi_Interval.thy ===== *)
theory Wifi_Interval
  imports Simulation
begin

text \<open>
  \<open>modules/wifi_radio/esp32_mquickjs_wifi_interval.c\<close>: who may change a global interval of the Wi-Fi
  driver.  An owner borrows it from the application's policy, changes it, and gives back the value
  from before.  The driver's setter is a parameter, a function of the value and of the world; a call
  returns its result record, whose error is also the return value of the C function.  Calls are
  serialized by the radio's mutex, as the header file demands.  A null pointer is \<open>None\<close>.
\<close>

section \<open>State and operations\<close>

record interval_token =
  it_generation :: u32
  it_owner_identity :: u32
  it_identity :: u32

record interval_state =
  iv_owner :: interval_token
  iv_generation :: u32
  iv_revision :: u32
  iv_value :: u16
  iv_previous :: u16
  iv_error :: esp_err
  iv_restore_error :: esp_err
  iv_known :: bool
  iv_uncertain :: bool
  iv_restore_pending :: bool

record interval_result =
  ir_revision :: u32
  ir_error :: esp_err
  ir_attempted :: bool
  ir_accepted :: bool

record interval_snapshot =
  is_generation :: u32
  is_revision :: u32
  is_value :: u16

type_synonym 'w writer = "u16 \<Rightarrow> 'w \<Rightarrow> esp_err \<times> 'w"

definition interval_no_token :: interval_token where
  "interval_no_token = \<lparr>it_generation = 0, it_owner_identity = 0, it_identity = 0\<rparr>"

definition interval_cleared :: interval_state where
  "interval_cleared = \<lparr>iv_owner = interval_no_token, iv_generation = 0, iv_revision = 0, iv_value = 0, iv_previous = 0,
     iv_error = ESP_OK, iv_restore_error = ESP_OK, iv_known = False, iv_uncertain = False, iv_restore_pending = False\<rparr>"

definition interval_refused :: "esp_err \<Rightarrow> interval_result" where
  "interval_refused err = \<lparr>ir_revision = 0, ir_error = err, ir_attempted = False, ir_accepted = False\<rparr>"

definition interval_token_valid :: "interval_token \<Rightarrow> interval_state \<Rightarrow> bool" where
  "interval_token_valid t s \<longleftrightarrow> it_generation t \<noteq> 0 \<and> it_owner_identity t \<noteq> 0 \<and> it_identity t \<noteq> 0 \<and>
     iv_generation s = it_generation t \<and> it_generation (iv_owner s) = it_generation t \<and>
     it_owner_identity (iv_owner s) = it_owner_identity t \<and> it_identity (iv_owner s) = it_identity t \<and> iv_restore_pending s"

definition interval_apply ::
  "u16 \<Rightarrow> bool \<Rightarrow> 'w writer \<Rightarrow> interval_state \<times> 'w \<Rightarrow> interval_result \<times> interval_state \<times> 'w" where
  "interval_apply v restoring writer sw =
     (case sw of (s, w) \<Rightarrow>
        if iv_revision s = - 1 then (interval_refused ESP_ERR_INVALID_STATE, s, w)
        else let revision = iv_revision s + 1;
            (err, w) = writer v w;
            s = s\<lparr>iv_revision := revision\<rparr>;
            s = (if restoring then s\<lparr>iv_restore_error := err\<rparr> else s\<lparr>iv_error := err, iv_restore_error := ESP_OK\<rparr>);
            s = s\<lparr>iv_known := (err = ESP_OK), iv_uncertain := (err \<noteq> ESP_OK), iv_value := (if err = ESP_OK then v else iv_value s)\<rparr>
          in (\<lparr>ir_revision = revision, ir_error = err, ir_attempted = True, ir_accepted = (err = ESP_OK)\<rparr>, s, w))"

definition interval_write ::
  "u32 \<Rightarrow> u16 \<Rightarrow> 'w writer option \<Rightarrow> interval_state \<times> 'w \<Rightarrow> interval_result \<times> interval_state \<times> 'w" where
  "interval_write generation v writer sw =
     (case sw of (s, w) \<Rightarrow>
        if generation = 0 \<or> writer = None then (interval_refused ESP_ERR_INVALID_ARG, s, w)
        else if it_identity (iv_owner s) \<noteq> 0 \<or> iv_restore_pending s \<or>
            (iv_generation s \<noteq> 0 \<and> iv_generation s \<noteq> generation) \<or> iv_revision s = - 1
        then (interval_refused ESP_ERR_INVALID_STATE, s, w)
        else interval_apply v False (the writer) (s\<lparr>iv_generation := generation\<rparr>, w))"

definition interval_acquire ::
  "u32 \<Rightarrow> u32 \<Rightarrow> u16 \<Rightarrow> 'w writer option \<Rightarrow> interval_token option \<Rightarrow> interval_state \<times> 'w \<Rightarrow>
    interval_result \<times> interval_token option \<times> interval_state \<times> 'w" where
  "interval_acquire generation owner v writer token sw =
     (case sw of (s, w) \<Rightarrow>
        if token = None \<or> generation = 0 \<or> owner = 0 \<or> writer = None then (interval_refused ESP_ERR_INVALID_ARG, token, s, w)
        else if token \<noteq> Some interval_no_token \<or> iv_generation s \<noteq> generation \<or> \<not> iv_known s \<or> iv_uncertain s \<or>
            it_identity (iv_owner s) \<noteq> 0 \<or> iv_restore_pending s \<or> - 1 - 2 < iv_revision s
        then (interval_refused ESP_ERR_INVALID_STATE, token, s, w)
        else let new = \<lparr>it_generation = generation, it_owner_identity = owner, it_identity = iv_revision s + 1\<rparr>;
            (r, s, w) = interval_apply v False (the writer)
              (s\<lparr>iv_previous := iv_value s, iv_owner := new, iv_restore_pending := True\<rparr>, w)
          in (r, Some new, s, w))"

definition interval_update ::
  "interval_token option \<Rightarrow> u16 \<Rightarrow> 'w writer option \<Rightarrow> interval_state \<times> 'w \<Rightarrow> interval_result \<times> interval_state \<times> 'w" where
  "interval_update token v writer sw =
     (case sw of (s, w) \<Rightarrow>
        if token = None \<or> writer = None then (interval_refused ESP_ERR_INVALID_ARG, s, w)
        else if \<not> interval_token_valid (the token) s \<or> \<not> iv_known s \<or> iv_uncertain s \<or> - 1 - 2 < iv_revision s
        then (interval_refused ESP_ERR_INVALID_STATE, s, w)
        else interval_apply v False (the writer) (s, w))"

definition interval_release ::
  "interval_token option \<Rightarrow> 'w writer option \<Rightarrow> interval_state \<times> 'w \<Rightarrow>
    interval_result \<times> interval_token option \<times> interval_state \<times> 'w" where
  "interval_release token writer sw =
     (case sw of (s, w) \<Rightarrow>
        if token = None \<or> writer = None then (interval_refused ESP_ERR_INVALID_ARG, token, s, w)
        else if token = Some interval_no_token then (interval_refused ESP_OK, token, s, w)
        else if \<not> interval_token_valid (the token) s then (interval_refused ESP_ERR_INVALID_STATE, token, s, w)
        else case interval_apply (iv_previous s) True (the writer) (s, w) of
            (r, s, w) \<Rightarrow>
              if ir_error r \<noteq> ESP_OK then (r, token, s, w)
              else (r, Some interval_no_token, s\<lparr>iv_owner := interval_no_token, iv_previous := 0, iv_restore_pending := False\<rparr>, w))"

definition snapshot_empty :: interval_snapshot where
  "snapshot_empty = \<lparr>is_generation = 0, is_revision = 0, is_value = 0\<rparr>"

definition interval_capture :: "u32 \<Rightarrow> interval_state \<Rightarrow> esp_err \<times> interval_snapshot" where
  "interval_capture generation s =
     (if generation = 0 then (ESP_ERR_INVALID_ARG, snapshot_empty)
      else if iv_generation s \<noteq> generation \<or> \<not> iv_known s \<or> iv_uncertain s \<or> it_identity (iv_owner s) \<noteq> 0 \<or>
          iv_restore_pending s \<or> iv_revision s = 0 \<or> - 1 - 2 < iv_revision s
      then (ESP_ERR_INVALID_STATE, snapshot_empty)
      else (ESP_OK, \<lparr>is_generation = generation, is_revision = iv_revision s, is_value = iv_value s\<rparr>))"

definition interval_replay ::
  "u32 \<Rightarrow> interval_snapshot option \<Rightarrow> 'w writer option \<Rightarrow> interval_state \<times> 'w \<Rightarrow> interval_result \<times> interval_state \<times> 'w" where
  "interval_replay generation snapshot writer sw =
     (case sw of (s, w) \<Rightarrow>
        if snapshot = None \<or> generation = 0 \<or> writer = None then (interval_refused ESP_ERR_INVALID_ARG, s, w)
        else if is_generation (the snapshot) = 0 \<or> is_generation (the snapshot) = generation \<or> is_revision (the snapshot) = 0 \<or>
            iv_generation s \<noteq> generation \<or> \<not> iv_known s \<or> iv_uncertain s \<or> it_identity (iv_owner s) \<noteq> 0 \<or>
            iv_restore_pending s \<or> iv_revision s \<le> is_revision (the snapshot)
        then (interval_refused ESP_ERR_INVALID_STATE, s, w)
        else interval_write generation (is_value (the snapshot)) writer (s, w))"

definition interval_invalidate :: "u32 \<Rightarrow> interval_state \<Rightarrow> bool \<times> interval_state" where
  "interval_invalidate generation s =
     (if generation = 0 \<or> it_identity (iv_owner s) \<noteq> 0 \<or> iv_restore_pending s \<or>
         (iv_generation s \<noteq> 0 \<and> iv_generation s \<noteq> generation)
      then (False, s) else (True, interval_cleared\<lparr>iv_revision := iv_revision s\<rparr>))"

section \<open>Calls\<close>

text \<open>Any call with any arguments; tokens are values that callers may copy, keep or forge.\<close>

datatype interval_call = Write u32 u16 | Acquire u32 u32 u16 "interval_token option" | Update "interval_token option" u16
  | Release "interval_token option" | Capture u32 | Replay u32 "interval_snapshot option" | Invalidate u32

datatype interval_answer = Done interval_result | Owned interval_result "interval_token option"
  | Captured esp_err interval_snapshot | Invalidated bool

fun interval_call_apply :: "'w writer option \<Rightarrow> interval_call \<Rightarrow> interval_state \<times> 'w \<Rightarrow> interval_answer \<times> interval_state \<times> 'w" where
  "interval_call_apply writer (Write generation v) sw = (case interval_write generation v writer sw of (r, sw) \<Rightarrow> (Done r, sw))"
| "interval_call_apply writer (Acquire generation owner v token) sw =
     (case interval_acquire generation owner v writer token sw of (r, token, sw) \<Rightarrow> (Owned r token, sw))"
| "interval_call_apply writer (Update token v) sw = (case interval_update token v writer sw of (r, sw) \<Rightarrow> (Done r, sw))"
| "interval_call_apply writer (Release token) sw = (case interval_release token writer sw of (r, token, sw) \<Rightarrow> (Owned r token, sw))"
| "interval_call_apply writer (Capture generation) sw = (case interval_capture generation (fst sw) of (err, p) \<Rightarrow> (Captured err p, sw))"
| "interval_call_apply writer (Replay generation p) sw = (case interval_replay generation p writer sw of (r, sw) \<Rightarrow> (Done r, sw))"
| "interval_call_apply writer (Invalidate generation) sw =
     (case interval_invalidate generation (fst sw) of (ok, s) \<Rightarrow> (Invalidated ok, s, snd sw))"

section \<open>What a call can do\<close>

text \<open>The state after a write that the driver has answered with \<open>err\<close>.\<close>

definition interval_written :: "u16 \<Rightarrow> bool \<Rightarrow> esp_err \<Rightarrow> interval_state \<Rightarrow> interval_state" where
  "interval_written v restoring err s =
     s\<lparr>iv_revision := iv_revision s + 1, iv_error := (if restoring then iv_error s else err),
       iv_restore_error := (if restoring then err else ESP_OK), iv_known := (err = ESP_OK), iv_uncertain := (err \<noteq> ESP_OK),
       iv_value := (if err = ESP_OK then v else iv_value s)\<rparr>"

lemma apply_written:
  assumes "iv_revision s \<noteq> - 1" "writer v w = (err, w')"
  shows "interval_apply v restoring writer (s, w) =
    (\<lparr>ir_revision = iv_revision s + 1, ir_error = err, ir_attempted = True, ir_accepted = (err = ESP_OK)\<rparr>, interval_written v restoring err s, w')"
  using assms by (simp add: interval_apply_def interval_written_def Let_def)

definition restored :: "interval_state \<Rightarrow> interval_state" where
  "restored s = s\<lparr>iv_owner := interval_no_token, iv_previous := 0, iv_restore_pending := False\<rparr>"

definition borrowing :: "interval_token \<Rightarrow> interval_state \<Rightarrow> interval_state" where
  "borrowing t s = s\<lparr>iv_previous := iv_value s, iv_owner := t, iv_restore_pending := True\<rparr>"

definition unowned :: "interval_state \<Rightarrow> bool" where
  "unowned s \<longleftrightarrow> it_identity (iv_owner s) = 0 \<and> \<not> iv_restore_pending s"

text \<open>The effects of a call, each with the guards that let it happen.\<close>

inductive interval_effect :: "'w writer \<Rightarrow> interval_call \<Rightarrow> interval_state \<times> 'w \<Rightarrow> interval_state \<times> 'w \<Rightarrow> bool" for writer where
  none: "interval_effect writer c sw sw"
| reset: "unowned s \<Longrightarrow> interval_effect writer c (s, w) (interval_cleared\<lparr>iv_revision := iv_revision s\<rparr>, w)"
| policy: "unowned s \<Longrightarrow> generation \<noteq> 0 \<Longrightarrow> iv_revision s \<noteq> - 1 \<Longrightarrow> writer v w = (err, w') \<Longrightarrow>
    interval_effect writer c (s, w) (interval_written v False err (s\<lparr>iv_generation := generation\<rparr>), w')"
| borrow: "unowned s \<Longrightarrow> iv_generation s \<noteq> 0 \<Longrightarrow> owner \<noteq> 0 \<Longrightarrow> iv_known s \<Longrightarrow> iv_revision s \<le> - 1 - 2 \<Longrightarrow> writer v w = (err, w') \<Longrightarrow>
    t = \<lparr>it_generation = iv_generation s, it_owner_identity = owner, it_identity = iv_revision s + 1\<rparr> \<Longrightarrow>
    interval_effect writer (Acquire (iv_generation s) owner v (Some interval_no_token)) (s, w) (interval_written v False err (borrowing t s), w')"
| change: "interval_token_valid t s \<Longrightarrow> iv_known s \<Longrightarrow> iv_revision s \<le> - 1 - 2 \<Longrightarrow> writer v w = (err, w') \<Longrightarrow>
    interval_effect writer (Update (Some t) v) (s, w) (interval_written v False err s, w')"
| fail: "interval_token_valid t s \<Longrightarrow> iv_revision s \<noteq> - 1 \<Longrightarrow> writer (iv_previous s) w = (err, w') \<Longrightarrow> err \<noteq> ESP_OK \<Longrightarrow>
    interval_effect writer (Release (Some t)) (s, w) (interval_written (iv_previous s) True err s, w')"
| restore: "interval_token_valid t s \<Longrightarrow> iv_revision s \<noteq> - 1 \<Longrightarrow> writer (iv_previous s) w = (ESP_OK, w') \<Longrightarrow>
    interval_effect writer (Release (Some t)) (s, w) (restored (interval_written (iv_previous s) True ESP_OK s), w')"

lemma below_limit: "(x :: u32) \<le> - 1 - 2 \<Longrightarrow> x \<noteq> - 1 \<and> x + 1 \<noteq> - 1 \<and> x + 1 \<noteq> 0"
proof -
  assume "x \<le> - 1 - 2"
  then have "unat x \<le> 4294967293" by (simp add: word_le_nat_alt)
  then have "unat (x + 1) = unat x + 1" by (simp add: unat_add_fits)
  moreover have "unat (- 1 :: u32) = 4294967295" by (simp add: unsigned_minus_1_eq_mask mask_eq_exp_minus_1)
  ultimately show ?thesis using \<open>unat x \<le> 4294967293\<close> by (auto simp: word_unat_eq_iff)
qed

lemma write_effect: "interval_effect writer c (s, w) (snd (interval_write generation v (Some writer) (s, w)))"
proof (cases "generation = 0 \<or> it_identity (iv_owner s) \<noteq> 0 \<or> iv_restore_pending s \<or>
    (iv_generation s \<noteq> 0 \<and> iv_generation s \<noteq> generation) \<or> iv_revision s = - 1")
  case True
  then show ?thesis by (auto simp: interval_write_def intro: interval_effect.none)
next
  case False
  obtain err w' where "writer v w = (err, w')" by fastforce
  then show ?thesis
    using False interval_effect.policy [of s generation writer v w err w' c] by (auto simp: interval_write_def apply_written unowned_def)
qed

lemma interval_call_effect: "interval_effect writer c (s, w) (snd (interval_call_apply (Some writer) c (s, w)))"
proof (cases c)
  case (Write generation v)
  then show ?thesis using write_effect [of writer c s w generation v] by (simp add: case_prod_unfold)
next
  case (Acquire generation owner v token)
  show ?thesis
  proof (cases "token = Some interval_no_token \<and> generation \<noteq> 0 \<and> owner \<noteq> 0 \<and> iv_generation s = generation \<and> iv_known s \<and> unowned s \<and>
      \<not> iv_uncertain s \<and> iv_revision s \<le> - 1 - 2")
    case False
    then have "snd (interval_call_apply (Some writer) c (s, w)) = (s, w)"
      by (auto simp: Acquire interval_acquire_def unowned_def not_le)
    then show ?thesis by (simp only: interval_effect.none)
  next
    case True
    obtain err w' where wr: "writer v w = (err, w')" by fastforce
    let ?t = "\<lparr>it_generation = iv_generation s, it_owner_identity = owner, it_identity = iv_revision s + 1\<rparr>"
    have "iv_revision (borrowing ?t s) \<noteq> - 1" using True below_limit by (simp add: borrowing_def)
    note applied = apply_written [of _ writer v w err w' False, OF this wr, unfolded borrowing_def]
    have "snd (interval_call_apply (Some writer) c (s, w)) = (interval_written v False err (borrowing ?t s), w')"
      using True applied by (auto simp: Acquire interval_acquire_def borrowing_def unowned_def Let_def not_le [symmetric])
    then show ?thesis using interval_effect.borrow [where writer = writer and v = v and w = w and err = err and w' = w' and s = s and owner = owner] wr True by (simp add: Acquire)
  qed
next
  case (Update token v)
  show ?thesis
  proof (cases "\<exists>t. token = Some t \<and> interval_token_valid t s \<and> iv_known s \<and> \<not> iv_uncertain s \<and> iv_revision s \<le> - 1 - 2")
    case False
    then have "snd (interval_call_apply (Some writer) c (s, w)) = (s, w)"
      by (cases token) (auto simp: Update interval_update_def not_le)
    then show ?thesis by (simp only: interval_effect.none)
  next
    case True
    then obtain t where t: "token = Some t" "interval_token_valid t s" "iv_known s" "\<not> iv_uncertain s" "iv_revision s \<le> - 1 - 2" by blast
    obtain err w' where wr: "writer v w = (err, w')" by fastforce
    show ?thesis
      using interval_effect.change [OF t(2,3,5), of writer v w err w'] wr t apply_written [of s writer v w err w'] below_limit [OF t(5)]
      by (auto simp: Update interval_update_def)
  qed
next
  case (Release token)
  show ?thesis
  proof (cases "\<exists>t. token = Some t \<and> interval_token_valid t s \<and> iv_revision s \<noteq> - 1")
    case False
    then have "snd (interval_call_apply (Some writer) c (s, w)) = (s, w)"
      by (cases token) (auto simp: Release interval_release_def interval_apply_def interval_refused_def)
    then show ?thesis by (simp only: interval_effect.none)
  next
    case True
    then obtain t where t: "token = Some t" "interval_token_valid t s" "iv_revision s \<noteq> - 1" by blast
    obtain err w' where wr: "writer (iv_previous s) w = (err, w')" by fastforce
    have "t \<noteq> interval_no_token" using t(2) by (auto simp: interval_token_valid_def interval_no_token_def)
    then show ?thesis
      using interval_effect.fail [OF t(2,3), of writer w err w'] interval_effect.restore [OF t(2,3), of writer w w'] wr t
        apply_written [OF t(3), of writer "iv_previous s" w err w']
      by (cases "err = ESP_OK") (simp_all add: Release interval_release_def restored_def)
  qed
next
  case (Capture generation)
  then show ?thesis by (simp add: case_prod_unfold interval_effect.none)
next
  case (Replay generation p)
  then show ?thesis
    using write_effect [of writer c s w generation "is_value (the p)"]
    by (auto simp: case_prod_unfold interval_replay_def intro: interval_effect.none)
next
  case (Invalidate generation)
  then show ?thesis
    by (auto simp: case_prod_unfold interval_invalidate_def unowned_def intro: interval_effect.none interval_effect.reset)
qed

lemma interval_call_effect': "interval_effect writer c sw (snd (interval_call_apply (Some writer) c sw))"
  by (cases sw) (simp add: interval_call_effect del: interval_call_apply.simps)

section \<open>The contract\<close>

text \<open>An accepted write takes effect; of a refused one nothing is assumed.\<close>

definition writer_law :: "('w \<Rightarrow> u16) \<Rightarrow> 'w writer \<Rightarrow> bool" where
  "writer_law hardware writer \<longleftrightarrow> (\<forall>v w w'. writer v w = (ESP_OK, w') \<longrightarrow> hardware w' = v)"

definition interval_inv :: "('w \<Rightarrow> u16) \<Rightarrow> interval_state \<times> 'w \<Rightarrow> bool" where
  "interval_inv hardware sw \<longleftrightarrow> (case sw of (s, w) \<Rightarrow>
     (iv_known s \<longrightarrow> hardware w = iv_value s) \<and>
     (if iv_restore_pending s
      then it_identity (iv_owner s) \<noteq> 0 \<and> it_owner_identity (iv_owner s) \<noteq> 0 \<and> iv_generation s \<noteq> 0 \<and>
        it_generation (iv_owner s) = iv_generation s \<and> it_identity (iv_owner s) \<le> iv_revision s \<and>
        (iv_restore_error s = ESP_OK \<longrightarrow> iv_revision s \<noteq> - 1)
      else iv_owner s = interval_no_token))"

lemma not_limit: "(x :: u32) \<noteq> - 1 \<Longrightarrow> x + 1 \<noteq> 0 \<and> x < x + 1"
proof -
  assume x: "x \<noteq> - 1"
  then have "x < - 1" by (simp add: word_order.not_eq_extremum)
  then have "x < x + 1" by (simp only: word_less_nat_alt unat_inc lessI)
  moreover have "x + 1 \<noteq> 0" using x by (metis add.commute add_eq_0_iff)
  ultimately show ?thesis by simp
qed

lemma valid_owner: "interval_token_valid t s \<Longrightarrow> iv_owner s = t \<and> iv_restore_pending s \<and> iv_generation s = it_generation t"
  by (cases t; cases "iv_owner s") (simp add: interval_token_valid_def)

lemma interval_effect_inv:
  assumes "interval_effect writer c sw sw'" "writer_law hardware writer" "interval_inv hardware sw"
  shows "interval_inv hardware sw'"
  using assms(1)
proof cases
  case none
  then show ?thesis using assms(3) by simp
next
  case (reset s w)
  then show ?thesis by (simp add: interval_inv_def interval_cleared_def)
next
  case (policy s generation v w err w')
  then show ?thesis using assms(2,3) by (auto simp: interval_inv_def interval_written_def unowned_def writer_law_def)
next
  case (borrow s owner v w err w' t)
  then show ?thesis using assms(2,3) below_limit [OF borrow(8)] by (auto simp: interval_inv_def interval_written_def borrowing_def writer_law_def)
next
  case (change t s v w err w')
  then show ?thesis
    using assms(2,3) below_limit [OF change(6)] not_limit [of "iv_revision s"] valid_owner [OF change(4)]
    by (auto simp: interval_inv_def interval_written_def writer_law_def)
next
  case (fail t s w err w')
  then show ?thesis
    using assms(3) not_limit [of "iv_revision s"] valid_owner [OF fail(4)] by (auto simp: interval_inv_def interval_written_def)
next
  case (restore t s w w')
  then show ?thesis using assms(2) by (simp add: interval_inv_def interval_written_def restored_def writer_law_def)
qed

text \<open>A token that has been given out: it owns the interval and the value from before is kept, or it is dead for ever.\<close>

definition borrowed :: "interval_token \<Rightarrow> u16 \<Rightarrow> interval_state \<Rightarrow> bool" where
  "borrowed t before s \<longleftrightarrow> it_identity t \<noteq> 0 \<and> it_identity t \<le> iv_revision s \<and>
     (if it_identity (iv_owner s) = it_identity t then iv_owner s = t \<and> iv_restore_pending s \<and> iv_previous s = before else True)"

lemma effect_borrowed:
  assumes "interval_effect writer c sw sw'" "borrowed t before (fst sw)"
  shows "borrowed t before (fst sw')"
  using assms(1)
proof cases
  case none
  then show ?thesis using assms(2) by simp
next
  case (reset s w)
  then show ?thesis using assms(2) by (simp add: borrowed_def interval_cleared_def interval_no_token_def)
next
  case (policy s generation v w err w')
  then show ?thesis using assms(2) not_limit [of "iv_revision s"] by (auto simp: borrowed_def interval_written_def unowned_def)
next
  case (borrow s owner v w err w' new)
  then show ?thesis
    using assms(2) below_limit [OF borrow(8)] not_limit [of "iv_revision s"] by (auto simp: borrowed_def interval_written_def borrowing_def)
next
  case (change u s v w err w')
  then show ?thesis
    using assms(2) below_limit [OF change(6)] not_limit [of "iv_revision s"] by (auto simp: borrowed_def interval_written_def)
next
  case (fail u s w err w')
  then show ?thesis using assms(2) not_limit [of "iv_revision s"] by (auto simp: borrowed_def interval_written_def)
next
  case (restore u s w w')
  then show ?thesis
    using assms(2) not_limit [of "iv_revision s"] by (auto simp: borrowed_def interval_written_def restored_def interval_no_token_def)
qed

abbreviation interval_run :: "'w writer \<Rightarrow> interval_call list \<Rightarrow> interval_state \<times> 'w \<Rightarrow> interval_state \<times> 'w" where
  "interval_run writer \<equiv> after_calls (interval_call_apply (Some writer))"

lemma interval_run_inv: "writer_law hardware writer \<Longrightarrow> interval_inv hardware sw \<Longrightarrow> interval_inv hardware (interval_run writer cs sw)"
proof (induction cs arbitrary: sw)
  case (Cons c cs)
  from Cons.IH [OF Cons.prems(1) interval_effect_inv [OF interval_call_effect' Cons.prems]] show ?case by simp
qed simp

lemma run_borrowed: "borrowed t before (fst sw) \<Longrightarrow> borrowed t before (fst (interval_run writer cs sw))"
proof (induction cs arbitrary: sw)
  case (Cons c cs)
  from Cons.IH [OF effect_borrowed [OF interval_call_effect' Cons.prems]] show ?case by simp
qed simp

lemma inv_cleared: "interval_inv hardware (interval_cleared, w)"
  by (simp add: interval_inv_def interval_cleared_def)

text \<open>A dead token stays dead.\<close>

definition dead :: "interval_token \<Rightarrow> interval_state \<Rightarrow> bool" where
  "dead t s \<longleftrightarrow> it_identity t \<noteq> 0 \<and> it_identity t \<le> iv_revision s \<and> it_identity (iv_owner s) \<noteq> it_identity t"

lemma effect_dead:
  assumes "interval_effect writer c sw sw'" "dead t (fst sw)"
  shows "dead t (fst sw')"
  using assms(1)
proof cases
  case (borrow s owner v w err w' new)
  then show ?thesis
    using assms(2) below_limit [OF borrow(8)] not_limit [of "iv_revision s"] by (auto simp: dead_def interval_written_def borrowing_def)
next
  case (change u s v w err w')
  then show ?thesis using assms(2) below_limit [OF change(6)] not_limit [of "iv_revision s"] by (auto simp: dead_def interval_written_def)
qed (use assms(2) not_limit in \<open>auto simp: dead_def interval_written_def restored_def interval_no_token_def interval_cleared_def
    intro: order.trans [OF _ less_imp_le]\<close>)

lemma run_dead: "dead t (fst sw) \<Longrightarrow> dead t (fst (interval_run writer cs sw))"
proof (induction cs arbitrary: sw)
  case (Cons c cs)
  from Cons.IH [OF effect_dead [OF interval_call_effect' Cons.prems]] show ?case by simp
qed simp

text \<open>While a token owns the interval, only calls with that token reach the driver.\<close>

lemma owner_alone:
  assumes "interval_token_valid t s" "snd (snd (interval_call_apply (Some writer) c (s, w))) \<noteq> w"
  shows "\<exists>v. c = Update (Some t) v \<or> c = Release (Some t)"
  using interval_call_effect [of writer c s w]
proof cases
  case (change u v err w')
  then show ?thesis using valid_owner [OF assms(1)] valid_owner [OF change(3)] by auto
next
  case (fail u err w')
  then show ?thesis using valid_owner [OF assms(1)] valid_owner [OF fail(3)] by auto
next
  case (restore u w')
  then show ?thesis using valid_owner [OF assms(1)] valid_owner [OF restore(3)] by auto
qed (use assms in \<open>auto simp: interval_token_valid_def unowned_def\<close>)

text \<open>What an acquisition hands out.\<close>

lemma acquire_borrows:
  assumes "interval_acquire generation owner v (Some writer) (Some interval_no_token) (s, w) = (r, Some t, s1, w1)" "t \<noteq> interval_no_token"
  shows "iv_known s" "borrowed t (iv_value s) s1"
proof -
  have ok: "generation \<noteq> 0 \<and> owner \<noteq> 0 \<and> iv_generation s = generation \<and> iv_known s \<and> \<not> iv_uncertain s \<and>
      it_identity (iv_owner s) = 0 \<and> \<not> iv_restore_pending s \<and> \<not> - 1 - 2 < iv_revision s"
    using assms unfolding interval_acquire_def by (simp split: if_splits)
  then show "iv_known s" by simp
  obtain err w' where wr: "writer v w = (err, w')" by fastforce
  have below: "iv_revision s \<noteq> - 1 \<and> iv_revision s + 1 \<noteq> 0" using below_limit ok by (simp add: not_less)
  show "borrowed t (iv_value s) s1"
    using assms(1) ok below
    by (auto simp: interval_acquire_def apply_written [where writer = writer and v = v and w = w and err = err and w' = w'] wr Let_def borrowed_def interval_written_def)
qed

text \<open>What the return of a token does.\<close>

lemma release_cases:
  assumes "interval_release (Some t) (Some writer) (s, w) = (r, t', s', w')" "t \<noteq> interval_no_token"
  obtains (refused) "ir_error r \<noteq> ESP_OK" "t' = Some t" "s' = s" "\<not> interval_token_valid t s \<or> iv_revision s = - 1"
    | (failed) err where "interval_token_valid t s" "ir_error r \<noteq> ESP_OK" "ir_attempted r" "t' = Some t" "s' = interval_written (iv_previous s) True err s"
    | (given) "interval_token_valid t s" "writer (iv_previous s) w = (ESP_OK, w')" "ir_attempted r" "t' = Some interval_no_token"
      "s' = restored (interval_written (iv_previous s) True ESP_OK s)" "iv_revision s \<noteq> - 1" "ir_error r = ESP_OK"
proof (cases "interval_token_valid t s \<and> iv_revision s \<noteq> - 1")
  case False
  then show ?thesis
    using assms by (intro refused) (auto simp: interval_release_def interval_refused_def interval_apply_def split: if_splits)
next
  case True
  obtain err w1 where wr: "writer (iv_previous s) w = (err, w1)" by fastforce
  note applied = apply_written [of s writer "iv_previous s" w err w1 True]
  show ?thesis
  proof (cases "err = ESP_OK")
    case ok: True
    then show ?thesis using assms True wr applied by (intro given) (auto simp: interval_release_def restored_def)
  next
    case bad: False
    then show ?thesis using assms True wr applied by (intro failed [of err]) (auto simp: interval_release_def)
  qed
qed

text \<open>
  C19: whatever calls with whatever tokens came before and come between, an owner that gives its
  token back with success leaves the interval of the driver as it was before it acquired it, and the
  token never works again.  A failed attempt keeps the token for the next one; the first attempt
  always reaches the driver; and while the token is valid no call with another one does.
\<close>

theorem wifi_interval_release_restores:
  assumes law: "writer_law hardware writer"
    and start: "interval_run writer calls_before (interval_cleared, w0) = (s0, w)"
    and acquired: "interval_acquire generation owner v (Some writer) (Some interval_no_token) (s0, w) = (r, Some t, s1, w1)" "t \<noteq> interval_no_token"
    and between: "interval_run writer calls_between (s1, w1) = (s2, w2)"
    and released: "interval_release (Some t) (Some writer) (s2, w2) = (r', t', s3, w3)"
  shows "(ir_error r' = ESP_OK \<longrightarrow> hardware w3 = hardware w \<and> t' = Some interval_no_token \<and>
      (\<forall>calls. \<not> interval_token_valid t (fst (interval_run writer calls (s3, w3))))) \<and>
    (ir_error r' \<noteq> ESP_OK \<longrightarrow> t' = Some t \<and> interval_token_valid t s3 = interval_token_valid t s2) \<and>
    (interval_token_valid t s2 \<and> iv_restore_error s2 = ESP_OK \<longrightarrow> ir_attempted r') \<and>
    (interval_token_valid t s2 \<longrightarrow> (\<forall>c. snd (snd (interval_call_apply (Some writer) c (s2, w2))) \<noteq> w2 \<longrightarrow>
      (\<exists>v. c = Update (Some t) v \<or> c = Release (Some t))))"
proof -
  have inv: "interval_inv hardware (s0, w)" using interval_run_inv [OF law inv_cleared, of calls_before w0] start by simp
  note got = acquire_borrows [OF acquired]
  have value0: "iv_value s0 = hardware w" using inv got(1) by (simp add: interval_inv_def)
  have bor: "borrowed t (hardware w) s2" using run_borrowed [of t _ "(s1, w1)" writer calls_between] got(2) between value0 by simp
  have "interval_inv hardware (s1, w1)"
    using interval_effect_inv [OF interval_call_effect law inv, of "Acquire generation owner v (Some interval_no_token)"] acquired(1) by simp
  then have inv2: "interval_inv hardware (s2, w2)" using interval_run_inv [OF law, of "(s1, w1)" calls_between] between by simp
  note alone = owner_alone [of t s2 writer _ w2]
  have first: "iv_revision s2 \<noteq> - 1" if "interval_token_valid t s2" "iv_restore_error s2 = ESP_OK"
    using inv2 that by (simp add: interval_inv_def interval_token_valid_def)
  show ?thesis
    using released acquired(2)
  proof (cases rule: release_cases)
    case refused
    then show ?thesis using alone first by blast
  next
    case (failed err)
    then have "interval_token_valid t s3 = interval_token_valid t s2" by (simp add: interval_written_def interval_token_valid_def)
    then show ?thesis using failed alone by blast
  next
    case given
    have "iv_previous s2 = hardware w" using bor valid_owner [OF given(1)] by (simp add: borrowed_def)
    then have restored: "hardware w3 = hardware w" using law given(2) by (simp add: writer_law_def)
    have "dead t s3" using bor given(5,6) not_limit [of "iv_revision s2"]
      by (auto simp: dead_def borrowed_def restored_def interval_written_def interval_no_token_def)
    then have "\<not> interval_token_valid t (fst (interval_run writer calls (s3, w3)))" for calls
      using run_dead [of t "(s3, w3)" writer calls] by (auto simp: dead_def interval_token_valid_def)
    then show ?thesis using restored given alone by blast
  qed
qed

text \<open>An interval is set to 100, borrowed, changed and given back; an early attempt is refused by the driver.\<close>

definition example_writer :: "(nat \<times> u16) writer" where
  "example_writer v w = (if fst w = 3 then (ESP_ERR_OTHER 1, (4, 7)) else (ESP_OK, (fst w + 1, v)))"

definition example_token :: interval_token where
  "example_token = \<lparr>it_generation = 5, it_owner_identity = 6, it_identity = 2\<rparr>"

definition example_start :: "interval_state \<times> nat \<times> u16" where
  "example_start = interval_run example_writer [Write 5 100] (interval_cleared, 0, 0)"

definition example_acquired :: "interval_result \<times> interval_token option \<times> interval_state \<times> nat \<times> u16" where
  "example_acquired = interval_acquire 5 6 50 (Some example_writer) (Some interval_no_token) example_start"

definition example_between :: "interval_state \<times> nat \<times> u16" where
  "example_between = interval_run example_writer
     [Update (Some example_token) 20, Acquire 5 9 1 (Some interval_no_token), Release (Some example_token), Write 5 1] (snd (snd example_acquired))"

definition example_released :: "interval_result \<times> interval_token option \<times> interval_state \<times> nat \<times> u16" where
  "example_released = interval_release (Some example_token) (Some example_writer) example_between"

lemma wifi_interval_release_restores_witness:
  "snd (snd example_between) = 7 \<and> ir_error (fst example_released) = ESP_OK \<and>
    snd (snd (snd (snd example_released))) = snd (snd example_start) \<and> snd (snd example_start) = 100"
proof -
  have law: "writer_law snd example_writer" by (auto simp: writer_law_def example_writer_def split: if_splits)
  have "fst (snd example_acquired) = Some example_token" by code_simp
  then have acquired: "interval_acquire 5 6 50 (Some example_writer) (Some interval_no_token) (fst example_start, snd example_start) =
      (fst example_acquired, Some example_token, fst (snd (snd example_acquired)), snd (snd (snd example_acquired)))"
    by (simp add: prod_eq_iff example_acquired_def)
  have token: "example_token \<noteq> interval_no_token" by code_simp
  have start: "interval_run example_writer [Write 5 100] (interval_cleared, 0, 0) = (fst example_start, snd example_start)"
    by (simp only: prod.collapse example_start_def)
  have between: "interval_run example_writer
      [Update (Some example_token) 20, Acquire 5 9 1 (Some interval_no_token), Release (Some example_token), Write 5 1]
      (fst (snd (snd example_acquired)), snd (snd (snd example_acquired))) = (fst example_between, snd example_between)"
    by (simp only: prod.collapse example_between_def)
  have released: "interval_release (Some example_token) (Some example_writer) (fst example_between, snd example_between) =
      (fst example_released, fst (snd example_released), fst (snd (snd example_released)), snd (snd (snd example_released)))"
    by (simp only: prod.collapse example_released_def)
  have ok: "ir_error (fst example_released) = ESP_OK" by code_simp
  have "snd (snd example_between) = 7" "snd (snd example_start) = 100" by code_simp+
  moreover have "snd (snd (snd (snd example_released))) = snd (snd example_start)"
    using wifi_interval_release_restores [OF law start acquired token between released] ok by blast
  ultimately show ?thesis using ok by simp
qed

end
