(* ===== verification/Wifi_Action_Lane.thy ===== *)
theory Wifi_Action_Lane
  imports Simulation
begin

text \<open>
  \<open>modules/wifi_action/esp32_mquickjs_wifi_action_lane.c\<close>: the ledger of the one off-channel
  operation (an action frame or a remain-on-channel request) the radio may be running.  The driver
  tells of an operation by events, which may come before the call that started it returns, late, or
  twice; the ledger decides when nothing of an operation can come any more.  The numbers the driver
  gives its statuses and interfaces are an argument.  The error code is the driver's.
\<close>

section \<open>State and operations\<close>

definition ACTION_EARLY_EVENTS :: nat where "ACTION_EARLY_EVENTS = 4"

definition ACTION_SEND :: u8 where "ACTION_SEND = 1"
definition ACTION_ROC :: u8 where "ACTION_ROC = 2"

record action_token =
  at_generation :: u32
  at_identity :: u32

record action_early =
  ae_operation_id :: u8
  ae_status :: u8

record action_lane =
  al_next_identity :: u32
  al_generation :: u32
  al_identity :: u32
  al_context :: u32
  al_revision :: u32
  al_submit_error :: esp_err
  al_cancel_error :: esp_err
  al_tx_status :: u8
  al_terminal_status :: u8
  al_kind :: u8
  al_interface :: u8
  al_channel :: u8
  al_operation_id :: u8
  al_dispatching :: bool
  al_submitted :: bool
  al_cancel_requested :: bool
  al_cancel_busy :: bool
  al_cancel_written :: bool
  al_ambiguous :: bool
  al_terminal :: bool
  al_sdk_fenced :: bool
  al_event_fenced :: bool
  al_physical_termination :: bool
  al_sdk_quiescent :: bool
  al_early :: "action_early list"

text \<open>The constants of the driver's headers.\<close>

record action_sdk =
  sdk_if_ap :: u8
  sdk_duration_completed :: u32
  sdk_op_cancelled :: u32
  sdk_roc_fail :: u32

definition action_no_token :: action_token where
  "action_no_token = \<lparr>at_generation = 0, at_identity = 0\<rparr>"

definition action_cleared :: action_lane where
  "action_cleared = \<lparr>al_next_identity = 0, al_generation = 0, al_identity = 0, al_context = 0, al_revision = 0,
     al_submit_error = ESP_OK, al_cancel_error = ESP_OK, al_tx_status = 0, al_terminal_status = 0, al_kind = 0,
     al_interface = 0, al_channel = 0, al_operation_id = 0, al_dispatching = False, al_submitted = False,
     al_cancel_requested = False, al_cancel_busy = False, al_cancel_written = False, al_ambiguous = False,
     al_terminal = False, al_sdk_fenced = False, al_event_fenced = False, al_physical_termination = False,
     al_sdk_quiescent = False, al_early = []\<rparr>"

definition action_initial :: action_lane where
  "action_initial = action_cleared\<lparr>al_next_identity := 1\<rparr>"

definition action_exact :: "action_token option \<Rightarrow> action_lane \<Rightarrow> bool" where
  "action_exact token l =
     (case token of None \<Rightarrow> False
      | Some t \<Rightarrow> at_identity t \<noteq> 0 \<and> at_generation t = al_generation l \<and> at_identity t = al_identity l)"

definition action_reserve ::
  "action_sdk \<Rightarrow> u32 \<Rightarrow> u8 \<Rightarrow> u32 \<Rightarrow> u8 \<Rightarrow> u8 \<Rightarrow> action_token option \<Rightarrow> action_lane \<Rightarrow> esp_err \<times> action_token option \<times> action_lane" where
  "action_reserve sdk generation kind cx interface channel token l =
     (if token \<noteq> Some action_no_token \<or> generation = 0 \<or> cx = 0 \<or> sdk_if_ap sdk < interface \<or> channel = 0 \<or>
         (kind \<noteq> ACTION_SEND \<and> kind \<noteq> ACTION_ROC) then (ESP_ERR_INVALID_ARG, token, l)
      else if al_identity l \<noteq> 0 then (ESP_ERR_INVALID_STATE, token, l)
      else if al_next_identity l = 0 then (ESP_ERR_NO_MEM, token, l)
      else let identity = al_next_identity l in
        (ESP_OK, Some \<lparr>at_generation = generation, at_identity = identity\<rparr>,
         action_cleared\<lparr>al_next_identity := (if identity = - 1 then 0 else identity + 1), al_generation := generation,
           al_identity := identity, al_context := cx, al_kind := kind, al_interface := interface, al_channel := channel,
           al_tx_status := - 1, al_terminal_status := - 1\<rparr>))"

definition action_begin_submit :: "action_token option \<Rightarrow> action_lane \<Rightarrow> bool \<times> action_lane" where
  "action_begin_submit token l =
     (if \<not> action_exact token l \<or> al_dispatching l \<or> al_submitted l \<or> al_cancel_requested l \<or> al_physical_termination l
      then (False, l) else (True, l\<lparr>al_dispatching := True\<rparr>))"

text \<open>Every delivery takes back the proofs that nothing more can come.\<close>

definition action_unfence :: "action_lane \<Rightarrow> action_lane" where
  "action_unfence l = l\<lparr>al_sdk_quiescent := False, al_sdk_fenced := False, al_event_fenced := False\<rparr>"

definition action_record :: "action_sdk \<Rightarrow> u32 \<Rightarrow> action_lane \<Rightarrow> action_lane" where
  "action_record sdk status l =
     (let l = action_unfence l;
        l = (if al_revision l = - 1 then l\<lparr>al_ambiguous := True\<rparr> else l\<lparr>al_revision := al_revision l + 1\<rparr>);
        terminal = (al_kind l = ACTION_ROC \<or> status = sdk_duration_completed sdk \<or> status = sdk_op_cancelled sdk);
        previous = (if terminal then al_terminal_status l else al_tx_status l);
        l = (if previous \<noteq> - 1 \<and> previous \<noteq> ucast status then l\<lparr>al_ambiguous := True\<rparr>
          else if terminal then l\<lparr>al_terminal_status := ucast status\<rparr> else l\<lparr>al_tx_status := ucast status\<rparr>)
      in if terminal then l\<lparr>al_terminal := True\<rparr> else l)"

text \<open>What came before the call returned, now that the number of the operation is known.\<close>

definition action_replay :: "action_sdk \<Rightarrow> u8 \<Rightarrow> action_early list \<Rightarrow> action_lane \<Rightarrow> action_lane" where
  "action_replay sdk operation_id =
     fold (\<lambda>e l. if ae_operation_id e = operation_id then action_record sdk (ucast (ae_status e)) l else l)"

definition action_submitted :: "action_sdk \<Rightarrow> action_token option \<Rightarrow> esp_err \<Rightarrow> u8 \<Rightarrow> action_lane \<Rightarrow> bool \<times> action_lane" where
  "action_submitted sdk token err operation_id l =
     (if \<not> action_exact token l \<or> \<not> al_dispatching l \<or> al_submitted l then (False, l)
      else let l = l\<lparr>al_dispatching := False, al_submitted := True, al_submit_error := err, al_operation_id := operation_id\<rparr>;
          l = action_replay sdk operation_id (al_early l) l
        in (True, l\<lparr>al_early := []\<rparr>))"

definition action_observe ::
  "action_sdk \<Rightarrow> u8 \<Rightarrow> u32 \<Rightarrow> u8 \<Rightarrow> u8 \<Rightarrow> u8 \<Rightarrow> u32 \<Rightarrow> action_lane \<Rightarrow> bool \<times> action_lane" where
  "action_observe sdk kind cx interface channel operation_id status l =
     (if al_identity l = 0 \<or> (\<not> al_dispatching l \<and> \<not> al_submitted l) \<or> al_physical_termination l \<or> al_kind l \<noteq> kind \<or>
         al_context l \<noteq> cx \<or> al_channel l \<noteq> channel \<or> (kind = ACTION_SEND \<and> al_interface l \<noteq> interface) then (False, l)
      else if al_submitted l \<and> al_operation_id l \<noteq> operation_id then (False, l)
      else if (if kind = ACTION_ROC then sdk_roc_fail sdk else sdk_op_cancelled sdk) < status
      then (True, let l = action_unfence (l\<lparr>al_ambiguous := True\<rparr>)
              in if al_revision l \<noteq> - 1 then l\<lparr>al_revision := al_revision l + 1\<rparr> else l)
      else if al_submitted l then (True, action_record sdk status l)
      else if list_ex (\<lambda>e. ae_operation_id e = operation_id \<and> ucast (ae_status e) = status) (al_early l) then (True, l)
      else if length (al_early l) = ACTION_EARLY_EVENTS then (True, l\<lparr>al_ambiguous := True\<rparr>)
      else (True, l\<lparr>al_early := al_early l @ [\<lparr>ae_operation_id = operation_id, ae_status = ucast status\<rparr>]\<rparr>))"

definition action_request_cancel :: "action_token option \<Rightarrow> action_lane \<Rightarrow> bool \<times> action_lane" where
  "action_request_cancel token l =
     (if \<not> action_exact token l then (False, l) else (True, l\<lparr>al_cancel_requested := True\<rparr>))"

definition action_begin_cancel :: "action_token option \<Rightarrow> action_lane \<Rightarrow> bool \<times> action_lane" where
  "action_begin_cancel token l =
     (if \<not> action_exact token l \<or> \<not> al_submitted l \<or> \<not> al_cancel_requested l \<or> al_terminal l \<or> al_physical_termination l \<or>
         al_sdk_quiescent l \<or> al_cancel_busy l \<or> al_cancel_written l then (False, l)
      else (True, action_unfence (l\<lparr>al_cancel_busy := True\<rparr>)))"

definition action_cancelled :: "action_token option \<Rightarrow> esp_err \<Rightarrow> action_lane \<Rightarrow> bool \<times> action_lane" where
  "action_cancelled token err l =
     (if \<not> action_exact token l \<or> \<not> al_cancel_busy l then (False, l)
      else let l = l\<lparr>al_cancel_busy := False, al_cancel_error := err\<rparr>
        in (True, if err = ESP_OK then l\<lparr>al_cancel_written := True\<rparr> else l))"

definition action_fence_revision :: "action_token option \<Rightarrow> action_lane \<Rightarrow> u32 option" where
  "action_fence_revision token l =
     (if \<not> action_exact token l \<or> \<not> al_submitted l \<or> (\<not> al_terminal l \<and> \<not> al_sdk_quiescent l) \<or> al_dispatching l \<or>
         al_cancel_busy l \<or> (al_ambiguous l \<and> \<not> al_sdk_quiescent l) then None
      else Some (al_revision l))"

definition action_sdk_fenced :: "action_token option \<Rightarrow> u32 \<Rightarrow> action_lane \<Rightarrow> bool \<times> action_lane" where
  "action_sdk_fenced token revision l =
     (if action_fence_revision token l \<noteq> Some revision then (False, l) else (True, l\<lparr>al_sdk_fenced := True\<rparr>))"

definition action_event_fenced :: "action_token option \<Rightarrow> u32 \<Rightarrow> action_lane \<Rightarrow> bool \<times> action_lane" where
  "action_event_fenced token revision l =
     (if action_fence_revision token l \<noteq> Some revision \<or> \<not> al_sdk_fenced l then (False, l)
      else (True, l\<lparr>al_event_fenced := True\<rparr>))"

definition action_quiescent :: "action_token option \<Rightarrow> u32 \<Rightarrow> action_lane \<Rightarrow> bool \<times> action_lane" where
  "action_quiescent token revision l =
     (if \<not> action_exact token l \<or> \<not> al_submitted l \<or> al_dispatching l \<or> al_cancel_busy l \<or> al_revision l \<noteq> revision \<or>
         revision = - 1 \<or> al_physical_termination l then (False, l)
      else (True, l\<lparr>al_sdk_quiescent := True, al_sdk_fenced := True, al_event_fenced := False\<rparr>))"

definition action_terminated :: "action_token option \<Rightarrow> action_lane \<Rightarrow> bool \<times> action_lane" where
  "action_terminated token l =
     (if \<not> action_exact token l \<or> al_dispatching l \<or> al_cancel_busy l then (False, l)
      else (True, l\<lparr>al_physical_termination := True\<rparr>))"

definition action_release :: "action_token option \<Rightarrow> action_lane \<Rightarrow> bool \<times> action_token option \<times> action_lane" where
  "action_release token l =
     (if \<not> action_exact token l \<or> al_dispatching l \<or> al_cancel_busy l then (False, token, l)
      else if al_submitted l \<and> \<not> al_physical_termination l \<and>
          (((\<not> al_terminal l \<or> al_ambiguous l) \<and> \<not> al_sdk_quiescent l) \<or> \<not> al_sdk_fenced l \<or> \<not> al_event_fenced l)
      then (False, token, l)
      else (True, Some action_no_token, action_cleared\<lparr>al_next_identity := al_next_identity l\<rparr>))"

section \<open>Runs\<close>

text \<open>Any call with any arguments, forged and stale tokens included.\<close>

datatype action_call = Reserve u32 u8 u32 u8 u8 "action_token option" | Begin_submit "action_token option"
  | Submitted "action_token option" esp_err u8 | Observe u8 u32 u8 u8 u8 u32 | Request_cancel "action_token option"
  | Begin_cancel "action_token option" | Cancelled "action_token option" esp_err | Fence_revision "action_token option"
  | Sdk_fenced "action_token option" u32 | Event_fenced "action_token option" u32 | Quiescent "action_token option" u32
  | Terminated "action_token option" | Release_lane "action_token option"

datatype action_answer = Ok bool | Reserved esp_err "action_token option" | Revision "u32 option" | Released bool "action_token option"

fun action_apply :: "action_sdk \<Rightarrow> action_call \<Rightarrow> action_lane \<Rightarrow> action_answer \<times> action_lane" where
  "action_apply sdk (Reserve generation kind cx interface channel token) l =
     (case action_reserve sdk generation kind cx interface channel token l of (err, token, l) \<Rightarrow> (Reserved err token, l))"
| "action_apply sdk (Begin_submit token) l = (case action_begin_submit token l of (ok, l) \<Rightarrow> (Ok ok, l))"
| "action_apply sdk (Submitted token err operation_id) l = (case action_submitted sdk token err operation_id l of (ok, l) \<Rightarrow> (Ok ok, l))"
| "action_apply sdk (Observe kind cx interface channel operation_id status) l =
     (case action_observe sdk kind cx interface channel operation_id status l of (ok, l) \<Rightarrow> (Ok ok, l))"
| "action_apply sdk (Request_cancel token) l = (case action_request_cancel token l of (ok, l) \<Rightarrow> (Ok ok, l))"
| "action_apply sdk (Begin_cancel token) l = (case action_begin_cancel token l of (ok, l) \<Rightarrow> (Ok ok, l))"
| "action_apply sdk (Cancelled token err) l = (case action_cancelled token err l of (ok, l) \<Rightarrow> (Ok ok, l))"
| "action_apply sdk (Fence_revision token) l = (Revision (action_fence_revision token l), l)"
| "action_apply sdk (Sdk_fenced token revision) l = (case action_sdk_fenced token revision l of (ok, l) \<Rightarrow> (Ok ok, l))"
| "action_apply sdk (Event_fenced token revision) l = (case action_event_fenced token revision l of (ok, l) \<Rightarrow> (Ok ok, l))"
| "action_apply sdk (Quiescent token revision) l = (case action_quiescent token revision l of (ok, l) \<Rightarrow> (Ok ok, l))"
| "action_apply sdk (Terminated token) l = (case action_terminated token l of (ok, l) \<Rightarrow> (Ok ok, l))"
| "action_apply sdk (Release_lane token) l = (case action_release token l of (ok, token, l) \<Rightarrow> (Released ok token, l))"

type_synonym action_log = "(action_call \<times> action_answer) list"

text \<open>The runs from the start of the device, with what was called and answered, the latest first.\<close>

inductive action_run :: "action_sdk \<Rightarrow> action_log \<Rightarrow> action_lane \<Rightarrow> bool" for sdk where
  start: "action_run sdk [] action_initial"
| call: "action_run sdk es l \<Longrightarrow> action_apply sdk c l = (r, l') \<Longrightarrow> action_run sdk ((c, r) # es) l'"

text \<open>A delivery for the operation of the lane, or an order to the driver to cancel it.\<close>

definition disturbs :: "action_call \<times> action_answer \<Rightarrow> bool" where
  "disturbs e \<longleftrightarrow> snd e = Ok True \<and> (case fst e of Observe kind cx interface channel operation_id status \<Rightarrow> True | Begin_cancel token \<Rightarrow> True | _ \<Rightarrow> False)"

definition quiet :: "action_log \<Rightarrow> bool" where
  "quiet es \<longleftrightarrow> (\<forall>e \<in> set es. \<not> disturbs e)"

definition sdk_proof :: "action_token \<Rightarrow> action_call \<times> action_answer \<Rightarrow> bool" where
  "sdk_proof t e \<longleftrightarrow> (\<exists>revision. e = (Sdk_fenced (Some t) revision, Ok True) \<or> e = (Quiescent (Some t) revision, Ok True))"

lemma record_fields:
  "al_identity (action_record sdk status l) = al_identity l" "al_generation (action_record sdk status l) = al_generation l"
  "al_next_identity (action_record sdk status l) = al_next_identity l"
  "\<not> al_sdk_fenced (action_record sdk status l)" "\<not> al_event_fenced (action_record sdk status l)"
  "\<not> al_sdk_quiescent (action_record sdk status l)" "al_submitted (action_record sdk status l) = al_submitted l"
  "al_dispatching (action_record sdk status l) = al_dispatching l"
  "al_revision (action_record sdk status l) = (if al_revision l = - 1 then - 1 else al_revision l + 1)"
  "al_revision l = - 1 \<Longrightarrow> al_ambiguous (action_record sdk status l)"
  "al_ambiguous l \<Longrightarrow> al_ambiguous (action_record sdk status l)"
  by (simp_all add: action_record_def action_unfence_def Let_def)

lemma replay_step:
  "action_replay sdk k [] l = l"
  "action_replay sdk k (e # es) l = action_replay sdk k es (if ae_operation_id e = k then action_record sdk (ucast (ae_status e)) l else l)"
  by (simp_all add: action_replay_def)

lemma replay_fields:
  "al_identity (action_replay sdk k es l) = al_identity l" "al_generation (action_replay sdk k es l) = al_generation l"
  "al_next_identity (action_replay sdk k es l) = al_next_identity l" "al_submitted (action_replay sdk k es l) = al_submitted l"
  by (induction es arbitrary: l) (simp_all add: replay_step record_fields)

lemma replay_unfenced:
  "\<not> al_sdk_fenced l \<Longrightarrow> \<not> al_sdk_fenced (action_replay sdk k es l)"
  "\<not> al_event_fenced l \<Longrightarrow> \<not> al_event_fenced (action_replay sdk k es l)"
  by (induction es arbitrary: l) (simp_all add: replay_step record_fields)

text \<open>The effects of a call, each with the guards the proofs need.\<close>

definition reserved_lane :: "u32 \<Rightarrow> u8 \<Rightarrow> u32 \<Rightarrow> u8 \<Rightarrow> u8 \<Rightarrow> action_lane \<Rightarrow> action_lane" where
  "reserved_lane generation kind cx interface channel l =
     action_cleared\<lparr>al_next_identity := (if al_next_identity l = - 1 then 0 else al_next_identity l + 1), al_generation := generation,
       al_identity := al_next_identity l, al_context := cx, al_kind := kind, al_interface := interface, al_channel := channel,
       al_tx_status := - 1, al_terminal_status := - 1\<rparr>"

definition submitted_lane :: "action_sdk \<Rightarrow> esp_err \<Rightarrow> u8 \<Rightarrow> action_lane \<Rightarrow> action_lane" where
  "submitted_lane sdk err k l =
     (action_replay sdk k (al_early l) (l\<lparr>al_dispatching := False, al_submitted := True, al_submit_error := err, al_operation_id := k\<rparr>))\<lparr>al_early := []\<rparr>"

definition odd_status :: "action_lane \<Rightarrow> action_lane" where
  "odd_status l = (let l = action_unfence (l\<lparr>al_ambiguous := True\<rparr>)
     in if al_revision l \<noteq> - 1 then l\<lparr>al_revision := al_revision l + 1\<rparr> else l)"

inductive action_effect :: "action_sdk \<Rightarrow> action_call \<times> action_answer \<Rightarrow> action_lane \<Rightarrow> action_lane \<Rightarrow> bool" for sdk where
  none: "\<not> disturbs e \<Longrightarrow> action_effect sdk e l l"
| reserve: "al_identity l = 0 \<Longrightarrow> al_next_identity l \<noteq> 0 \<Longrightarrow>
    action_effect sdk (Reserve generation kind cx interface channel token, r) l (reserved_lane generation kind cx interface channel l)"
| dispatch: "\<not> al_submitted l \<Longrightarrow> action_effect sdk (Begin_submit token, r) l (l\<lparr>al_dispatching := True\<rparr>)"
| submit: "action_exact token l \<Longrightarrow> \<not> al_submitted l \<Longrightarrow>
    action_effect sdk (Submitted token err k, r) l (submitted_lane sdk err k l)"
| odd: "al_identity l \<noteq> 0 \<Longrightarrow> action_effect sdk (Observe kind cx interface channel k status, r) l (odd_status l)"
| delivery: "al_identity l \<noteq> 0 \<Longrightarrow> al_submitted l \<Longrightarrow> action_effect sdk (Observe kind cx interface channel k status, r) l (action_record sdk status l)"
| early: "al_identity l \<noteq> 0 \<Longrightarrow> \<not> al_submitted l \<Longrightarrow>
    action_effect sdk (Observe kind cx interface channel k status, r) l (l\<lparr>al_ambiguous := ambiguous, al_early := es\<rparr>)"
| request: "action_effect sdk (Request_cancel token, r) l (l\<lparr>al_cancel_requested := True\<rparr>)"
| cancel: "\<not> al_terminal l \<Longrightarrow> \<not> al_sdk_quiescent l \<Longrightarrow> action_effect sdk (Begin_cancel token, r) l (action_unfence (l\<lparr>al_cancel_busy := True\<rparr>))"
| cancelled: "action_effect sdk (Cancelled token err, r) l (l\<lparr>al_cancel_busy := False, al_cancel_error := err, al_cancel_written := written\<rparr>)"
| sdk_fence: "action_exact (Some t) l \<Longrightarrow> action_fence_revision (Some t) l = Some revision \<Longrightarrow>
    action_effect sdk (Sdk_fenced (Some t) revision, Ok True) l (l\<lparr>al_sdk_fenced := True\<rparr>)"
| event_fence: "action_exact (Some t) l \<Longrightarrow> action_fence_revision (Some t) l = Some revision \<Longrightarrow> al_sdk_fenced l \<Longrightarrow>
    action_effect sdk (Event_fenced (Some t) revision, Ok True) l (l\<lparr>al_event_fenced := True\<rparr>)"
| quiescent: "action_exact (Some t) l \<Longrightarrow> al_submitted l \<Longrightarrow> al_revision l = revision \<Longrightarrow> revision \<noteq> - 1 \<Longrightarrow>
    action_effect sdk (Quiescent (Some t) revision, Ok True) l (l\<lparr>al_sdk_quiescent := True, al_sdk_fenced := True, al_event_fenced := False\<rparr>)"
| terminated: "action_effect sdk (Terminated token, r) l (l\<lparr>al_physical_termination := True\<rparr>)"
| release: "action_exact token l \<Longrightarrow> action_effect sdk (Release_lane token, r) l (action_cleared\<lparr>al_next_identity := al_next_identity l\<rparr>)"

lemmas action_effect_intros = action_effect.intros

lemma exact_some: "action_exact token l \<Longrightarrow> \<exists>t. token = Some t"
  by (cases token) (simp_all add: action_exact_def)

lemma unexact_none: "\<not> action_exact None l"
  by (simp add: action_exact_def)

lemma observe_effect:
  assumes "action_observe sdk kind cx interface channel k status l = (ok, l')"
  shows "action_effect sdk (Observe kind cx interface channel k status, Ok ok) l l'"
proof -
  let ?foreign = "al_identity l = 0 \<or> (\<not> al_dispatching l \<and> \<not> al_submitted l) \<or> al_physical_termination l \<or> al_kind l \<noteq> kind \<or>
    al_context l \<noteq> cx \<or> al_channel l \<noteq> channel \<or> (kind = ACTION_SEND \<and> al_interface l \<noteq> interface)"
  let ?other = "al_submitted l \<and> al_operation_id l \<noteq> k"
  let ?odd = "(if kind = ACTION_ROC then sdk_roc_fail sdk else sdk_op_cancelled sdk) < status"
  let ?known = "list_ex (\<lambda>e. ae_operation_id e = k \<and> ucast (ae_status e) = status) (al_early l)"
  note early = action_effect.early [where sdk = sdk and kind = kind and cx = cx and interface = interface and channel = channel and k = k and
    status = status and r = "Ok ok"]
  note observe = assms [unfolded action_observe_def]
  show ?thesis
  proof (cases "?foreign \<or> ?other")
    case True
    have "(ok, l') = (False, l)"
    proof (cases ?foreign)
      case foreign: True
      show ?thesis using observe unfolding if_P [OF foreign] by simp
    next
      case ours: False
      with True have other: ?other by blast
      show ?thesis using observe unfolding if_not_P [OF ours] if_P [OF other] by simp
    qed
    then show ?thesis by (auto intro: action_effect.none simp: disturbs_def)
  next
    case False
    then have ours: "\<not> ?foreign" "\<not> ?other" and identity: "al_identity l \<noteq> 0" by blast+
    note observe = observe [unfolded if_not_P [OF ours(1)] if_not_P [OF ours(2)]]
    show ?thesis
    proof (cases ?odd)
      case True
      then have "l' = odd_status l" using observe unfolding if_P [OF True] odd_status_def by simp
      then show ?thesis using action_effect.odd [OF identity] by simp
    next
      case False
      note observe = observe [unfolded if_not_P [OF False]]
      show ?thesis
      proof (cases "al_submitted l")
        case True
        then have "l' = action_record sdk status l" using observe by simp
        then show ?thesis using action_effect.delivery [OF identity True] by simp
      next
        case fresh: False
        note observe = observe [unfolded if_not_P [OF fresh]]
        note early = early [OF identity fresh]
        show ?thesis
        proof (cases ?known)
          case True
          then have "l' = l" using observe by simp
          then show ?thesis using early [where ambiguous = "al_ambiguous l" and es = "al_early l"] by simp
        next
          case False
          note observe = observe [unfolded if_not_P [OF False]]
          show ?thesis
          proof (cases "length (al_early l) = ACTION_EARLY_EVENTS")
            case True
            then have "l' = l\<lparr>al_ambiguous := True\<rparr>" using observe by simp
            then show ?thesis using early [where ambiguous = "True" and es = "al_early l"] by simp
          next
            case False
            then have "l' = l\<lparr>al_early := al_early l @ [\<lparr>ae_operation_id = k, ae_status = ucast status\<rparr>]\<rparr>" using observe by simp
            then show ?thesis using early [where ambiguous = "al_ambiguous l" and es = "al_early l @ [\<lparr>ae_operation_id = k, ae_status = ucast status\<rparr>]"] by simp
          qed
        qed
      qed
    qed
  qed
qed

text \<open>The other calls: refused without a trace, or done with their guards.\<close>

lemma undisturbed: "\<not> disturbs (c, Reserved err token)" "\<not> disturbs (c, Revision n)" "\<not> disturbs (c, Released ok token)" "\<not> disturbs (c, Ok False)"
  by (simp_all add: disturbs_def)

lemma guarded:
  assumes "(if P then (False, l) else (True, x)) = (ok, l')" "\<not> P \<Longrightarrow> action_effect sdk (c, Ok True) l x"
  shows "action_effect sdk (c, Ok ok) l l'"
  using assms by (cases P) (auto intro: action_effect.none simp: undisturbed)

lemma revision_exact: "action_fence_revision token l = Some revision \<Longrightarrow>
    action_exact token l \<and> al_submitted l \<and> (al_terminal l \<or> al_sdk_quiescent l) \<and> al_revision l = revision \<and>
    (al_ambiguous l \<longrightarrow> al_sdk_quiescent l)"
  by (simp add: action_fence_revision_def split: if_splits)

lemma submitted_unfold:
  "action_submitted sdk token err k l = (if \<not> action_exact token l \<or> \<not> al_dispatching l \<or> al_submitted l then (False, l) else (True, submitted_lane sdk err k l))"
  by (simp add: action_submitted_def submitted_lane_def Let_def)

lemma cancelled_unfold:
  "action_cancelled token err l = (if \<not> action_exact token l \<or> \<not> al_cancel_busy l then (False, l)
    else (True, l\<lparr>al_cancel_busy := False, al_cancel_error := err, al_cancel_written := (if err = ESP_OK then True else al_cancel_written l)\<rparr>))"
  by (simp add: action_cancelled_def)

lemma action_call_effect:
  assumes "action_apply sdk c l = (r, l')"
  shows "action_effect sdk (c, r) l l'"
proof (cases c)
  case (Reserve generation kind cx interface channel token)
  then have "action_reserve sdk generation kind cx interface channel token l = (case r of Reserved err t \<Rightarrow> err, case r of Reserved err t \<Rightarrow> t, l')"
    "\<exists>err t. r = Reserved err t" using assms by (auto split: prod.splits)
  then show ?thesis
    using action_effect.reserve [of l sdk generation kind cx interface channel token r] action_effect.none [of "(c, r)" sdk l]
    unfolding Reserve action_reserve_def reserved_lane_def by (auto simp: Let_def undisturbed split: if_splits)
next
  case (Observe kind cx interface channel k status)
  then show ?thesis using assms observe_effect by (auto split: prod.splits)
next
  case (Fence_revision token)
  then show ?thesis using assms by (auto intro: action_effect.none simp: undisturbed)
next
  case (Release_lane token)
  then obtain ok t where r: "r = Released ok t" "action_release token l = (ok, t, l')" using assms by (auto split: prod.splits)
  show ?thesis
  proof (cases "action_exact token l \<and> ok")
    case True
    then have "l' = action_cleared\<lparr>al_next_identity := al_next_identity l\<rparr>" using r(2) unfolding action_release_def by (simp split: if_splits)
    then show ?thesis using True action_effect.release by (simp add: Release_lane)
  next
    case False
    then have "l' = l" using r(2) unfolding action_release_def by (auto split: if_splits)
    then show ?thesis by (auto intro: action_effect.none simp: r(1) undisturbed)
  qed
next
  case (Begin_submit token)
  then obtain ok where r: "r = Ok ok" and eq: "action_begin_submit token l = (ok, l')" using assms by (auto split: prod.splits)
  show ?thesis unfolding Begin_submit r by (rule guarded [OF eq [unfolded action_begin_submit_def]]) (simp add: action_effect.dispatch)
next
  case (Submitted token err k)
  then obtain ok where r: "r = Ok ok" and eq: "action_submitted sdk token err k l = (ok, l')" using assms by (auto split: prod.splits)
  show ?thesis unfolding Submitted r by (rule guarded [OF eq [unfolded submitted_unfold]]) (simp add: action_effect.submit)
next
  case (Request_cancel token)
  then obtain ok where r: "r = Ok ok" and eq: "action_request_cancel token l = (ok, l')" using assms by (auto split: prod.splits)
  show ?thesis unfolding Request_cancel r by (rule guarded [OF eq [unfolded action_request_cancel_def]]) (simp add: action_effect.request)
next
  case (Begin_cancel token)
  then obtain ok where r: "r = Ok ok" and eq: "action_begin_cancel token l = (ok, l')" using assms by (auto split: prod.splits)
  show ?thesis unfolding Begin_cancel r by (rule guarded [OF eq [unfolded action_begin_cancel_def]]) (simp add: action_effect.cancel)
next
  case (Cancelled token err)
  then obtain ok where r: "r = Ok ok" and eq: "action_cancelled token err l = (ok, l')" using assms by (auto split: prod.splits)
  show ?thesis unfolding Cancelled r by (rule guarded [OF eq [unfolded cancelled_unfold]]) (rule action_effect.cancelled)
next
  case (Sdk_fenced token revision)
  then obtain ok where r: "r = Ok ok" and eq: "action_sdk_fenced token revision l = (ok, l')" using assms by (auto split: prod.splits)
  show ?thesis
    unfolding Sdk_fenced r
    by (rule guarded [OF eq [unfolded action_sdk_fenced_def]])
      (use exact_some [of token l] in \<open>auto dest: revision_exact intro: action_effect_intros\<close>)
next
  case (Event_fenced token revision)
  then obtain ok where r: "r = Ok ok" and eq: "action_event_fenced token revision l = (ok, l')" using assms by (auto split: prod.splits)
  show ?thesis
    unfolding Event_fenced r
    by (rule guarded [OF eq [unfolded action_event_fenced_def]])
      (use exact_some [of token l] in \<open>auto dest: revision_exact intro: action_effect_intros\<close>)
next
  case (Quiescent token revision)
  then obtain ok where r: "r = Ok ok" and eq: "action_quiescent token revision l = (ok, l')" using assms by (auto split: prod.splits)
  show ?thesis
    unfolding Quiescent r
    by (rule guarded [OF eq [unfolded action_quiescent_def]])
      (use exact_some [of token l] in \<open>auto dest: revision_exact intro: action_effect_intros\<close>)
next
  case (Terminated token)
  then obtain ok where r: "r = Ok ok" and eq: "action_terminated token l = (ok, l')" using assms by (auto split: prod.splits)
  show ?thesis unfolding Terminated r by (rule guarded [OF eq [unfolded action_terminated_def]]) (simp add: action_effect.terminated)
qed

section \<open>The fences\<close>

definition action_inv :: "action_lane \<Rightarrow> bool" where
  "action_inv l \<longleftrightarrow> (al_sdk_fenced l \<or> al_event_fenced l \<or> al_sdk_quiescent l \<or> al_terminal l \<longrightarrow> al_submitted l) \<and>
     (al_event_fenced l \<longrightarrow> al_sdk_fenced l) \<and>
     (al_submitted l \<longrightarrow> al_identity l \<noteq> 0) \<and> (al_identity l \<noteq> 0 \<longrightarrow> al_next_identity l = 0 \<or> al_identity l < al_next_identity l)"

lemma inv_initial: "action_inv action_initial"
  by (simp add: action_inv_def action_initial_def action_cleared_def)

lemma next_greater: "(x :: u32) \<noteq> - 1 \<Longrightarrow> x < x + 1"
proof -
  assume "x \<noteq> - 1"
  then have "x < - 1" by (simp add: word_order.not_eq_extremum)
  then show ?thesis by (simp only: word_less_nat_alt unat_inc lessI)
qed

lemma submitted_fields:
  "al_identity (submitted_lane sdk err k l) = al_identity l" "al_generation (submitted_lane sdk err k l) = al_generation l"
  "al_next_identity (submitted_lane sdk err k l) = al_next_identity l" "al_submitted (submitted_lane sdk err k l)"
  "\<not> al_sdk_fenced l \<Longrightarrow> \<not> al_sdk_fenced (submitted_lane sdk err k l)"
  "\<not> al_event_fenced l \<Longrightarrow> \<not> al_event_fenced (submitted_lane sdk err k l)"
  by (simp_all add: submitted_lane_def replay_fields replay_unfenced)

lemma odd_fields:
  "al_identity (odd_status l) = al_identity l" "al_generation (odd_status l) = al_generation l"
  "al_next_identity (odd_status l) = al_next_identity l" "al_submitted (odd_status l) = al_submitted l"
  "\<not> al_sdk_fenced (odd_status l)" "\<not> al_event_fenced (odd_status l)" "\<not> al_sdk_quiescent (odd_status l)" "al_terminal (odd_status l) = al_terminal l"
  "al_ambiguous (odd_status l)" "al_revision (odd_status l) = (if al_revision l = - 1 then - 1 else al_revision l + 1)"
  by (simp_all add: odd_status_def action_unfence_def Let_def)

lemma action_effect_inv:
  assumes "action_effect sdk e l l'" "action_inv l"
  shows "action_inv l'"
  using assms(1)
proof cases
  case (reserve generation kind cx interface channel token r)
  then show ?thesis using next_greater [of "al_next_identity l"] by (simp add: reserved_lane_def action_inv_def action_cleared_def)
next
  case (submit token err k r)
  have "\<not> al_sdk_fenced l" "\<not> al_event_fenced l" "al_identity l \<noteq> 0"
    using submit assms(2) by (auto simp: action_inv_def action_exact_def split: option.splits)
  then show ?thesis using submit assms(2) by (simp add: action_inv_def submitted_fields)
next
  case (release token r)
  then show ?thesis by (simp add: action_inv_def action_cleared_def)
next
  case (sdk_fence t revision)
  then show ?thesis using assms(2) revision_exact [of "Some t" l] by (simp add: action_inv_def)
qed (use assms(2) in \<open>simp_all add: action_inv_def odd_fields record_fields action_unfence_def\<close>)

lemma action_run_inv: "action_run sdk es l \<Longrightarrow> action_inv l"
proof (induction rule: action_run.induct)
  case (call es l c r l')
  then show ?case using action_effect_inv [OF action_call_effect] by blast
qed (rule inv_initial)

text \<open>How a call moves the fences: a disturbance takes them back, and only a proof with the lane's token sets them.\<close>

lemma fences_step:
  assumes "action_effect sdk e l l'" "action_inv l"
  shows "disturbs e \<Longrightarrow> \<not> al_sdk_fenced l' \<and> \<not> al_event_fenced l'"
    "al_sdk_fenced l' \<Longrightarrow> al_identity l' = al_identity l \<and> al_generation l' = al_generation l \<and>
      (al_sdk_fenced l \<or> (\<exists>t. sdk_proof t e \<and> action_exact (Some t) l))"
    "al_event_fenced l' \<Longrightarrow> al_sdk_fenced l' \<and> (al_event_fenced l \<or>
      al_sdk_fenced l \<and> (\<exists>t revision. e = (Event_fenced (Some t) revision, Ok True) \<and> action_exact (Some t) l))"
proof -
  have *: "(disturbs e \<longrightarrow> \<not> al_sdk_fenced l' \<and> \<not> al_event_fenced l') \<and>
    (al_sdk_fenced l' \<longrightarrow> al_identity l' = al_identity l \<and> al_generation l' = al_generation l \<and>
      (al_sdk_fenced l \<or> (\<exists>t. sdk_proof t e \<and> action_exact (Some t) l))) \<and>
    (al_event_fenced l' \<longrightarrow> al_sdk_fenced l' \<and> (al_event_fenced l \<or>
      al_sdk_fenced l \<and> (\<exists>t revision. e = (Event_fenced (Some t) revision, Ok True) \<and> action_exact (Some t) l)))"
    using assms(1)
  proof cases
    case none
    then show ?thesis using assms(2) by (simp add: action_inv_def)
  next
    case (submit token err k r)
    have "\<not> al_sdk_fenced l" "\<not> al_event_fenced l" using submit assms(2) by (auto simp: action_inv_def)
    then show ?thesis using submit by (simp add: submitted_fields)
  next
    case (sdk_fence t revision)
    then show ?thesis using assms(2) by (auto simp: disturbs_def sdk_proof_def action_inv_def)
  next
    case (event_fence t revision)
    then show ?thesis by (auto simp: disturbs_def)
  next
    case (quiescent t revision)
    then show ?thesis by (auto simp: disturbs_def sdk_proof_def)
  qed (use assms(2) in \<open>simp_all add: disturbs_def odd_fields record_fields action_unfence_def reserved_lane_def action_cleared_def action_inv_def\<close>)
  then show "disturbs e \<Longrightarrow> \<not> al_sdk_fenced l' \<and> \<not> al_event_fenced l'"
    "al_sdk_fenced l' \<Longrightarrow> al_identity l' = al_identity l \<and> al_generation l' = al_generation l \<and>
      (al_sdk_fenced l \<or> (\<exists>t. sdk_proof t e \<and> action_exact (Some t) l))"
    "al_event_fenced l' \<Longrightarrow> al_sdk_fenced l' \<and> (al_event_fenced l \<or>
      al_sdk_fenced l \<and> (\<exists>t revision. e = (Event_fenced (Some t) revision, Ok True) \<and> action_exact (Some t) l))"
    by blast+
qed

text \<open>What the fences of the lane prove about the log.\<close>

definition sdk_proved :: "action_token \<Rightarrow> action_log \<Rightarrow> bool" where
  "sdk_proved t es \<longleftrightarrow> (\<exists>later e earlier. es = later @ e # earlier \<and> sdk_proof t e \<and> quiet later)"

definition both_proved :: "action_token \<Rightarrow> action_log \<Rightarrow> bool" where
  "both_proved t es \<longleftrightarrow> (\<exists>later revision earlier. es = later @ (Event_fenced (Some t) revision, Ok True) # earlier \<and> quiet later \<and> sdk_proved t earlier)"

lemma proved_later:
  assumes "\<not> disturbs e"
  shows "sdk_proved t es \<Longrightarrow> sdk_proved t (e # es)" "both_proved t es \<Longrightarrow> both_proved t (e # es)"
proof -
  have "quiet (e # later)" if "quiet later" for later using that assms by (simp add: quiet_def)
  then show "sdk_proved t es \<Longrightarrow> sdk_proved t (e # es)" "both_proved t es \<Longrightarrow> both_proved t (e # es)"
    unfolding sdk_proved_def both_proved_def by (metis append_Cons)+
qed

lemma proved_now:
  "sdk_proof t e \<Longrightarrow> sdk_proved t (e # es)"
  "sdk_proved t es \<Longrightarrow> both_proved t ((Event_fenced (Some t) revision, Ok True) # es)"
  unfolding sdk_proved_def both_proved_def quiet_def by (metis append_Nil empty_iff empty_set)+

definition lane_token_of :: "action_lane \<Rightarrow> action_token" where
  "lane_token_of l = \<lparr>at_generation = al_generation l, at_identity = al_identity l\<rparr>"

lemma exact_token: "action_exact (Some t) l \<Longrightarrow> t = lane_token_of l"
  by (cases t) (simp add: action_exact_def lane_token_of_def)

lemma fences_prove:
  assumes "action_run sdk es l"
  shows "(al_sdk_fenced l \<longrightarrow> sdk_proved (lane_token_of l) es) \<and> (al_event_fenced l \<longrightarrow> both_proved (lane_token_of l) es)"
  using assms
proof (induction rule: action_run.induct)
  case start
  show ?case by (simp add: action_initial_def action_cleared_def)
next
  case (call es l c r l')
  note step = fences_step [OF action_call_effect [OF call.hyps(2)] action_run_inv [OF call.hyps(1)]]
  show ?case
  proof (intro conjI impI)
    assume fenced: "al_sdk_fenced l'"
    then have same: "lane_token_of l' = lane_token_of l" using step(2) by (simp add: lane_token_of_def)
    have calm: "\<not> disturbs (c, r)" using step(1) fenced by blast
    show "sdk_proved (lane_token_of l') ((c, r) # es)"
      using step(2) [OF fenced] call.IH proved_later(1) [OF calm] proved_now(1) exact_token unfolding same by metis
  next
    assume fenced: "al_event_fenced l'"
    then have sdk: "al_sdk_fenced l'" and calm: "\<not> disturbs (c, r)" using step(1,3) by blast+
    then have same: "lane_token_of l' = lane_token_of l" using step(2) by (simp add: lane_token_of_def)
    show "both_proved (lane_token_of l') ((c, r) # es)"
      using step(3) [OF fenced] call.IH proved_later(2) [OF calm] proved_now(2) exact_token unfolding same by metis
  qed
qed

section \<open>Revisions and tokens\<close>

text \<open>A revision that was read, then: no event has come since; one has; the operation is over.\<close>

definition stamped :: "action_token \<Rightarrow> u32 \<Rightarrow> action_lane \<Rightarrow> bool" where
  "stamped t revision l \<longleftrightarrow> action_exact (Some t) l \<and> al_submitted l \<and> (al_terminal l \<or> al_sdk_quiescent l) \<and>
     al_revision l = revision \<and> (al_ambiguous l \<longrightarrow> al_sdk_quiescent l)"

definition outdated :: "action_token \<Rightarrow> u32 \<Rightarrow> action_lane \<Rightarrow> bool" where
  "outdated t revision l \<longleftrightarrow> action_exact (Some t) l \<and> al_submitted l \<and>
     (revision < al_revision l \<or> (al_revision l = - 1 \<and> al_ambiguous l \<and> \<not> al_sdk_quiescent l))"

definition gone :: "action_token \<Rightarrow> action_lane \<Rightarrow> bool" where
  "gone t l \<longleftrightarrow> at_identity t \<noteq> 0 \<and> at_identity t \<noteq> al_identity l \<and> (al_next_identity l = 0 \<or> at_identity t < al_next_identity l)"

lemma effect_gone:
  assumes "action_effect sdk e l l'" "gone t l"
  shows "gone t l'"
  using assms(1)
proof cases
  case (reserve generation kind cx interface channel token r)
  then show ?thesis using assms(2) next_greater [of "al_next_identity l"] by (auto simp: reserved_lane_def gone_def)
qed (use assms(2) in \<open>simp_all add: gone_def odd_fields record_fields submitted_fields action_unfence_def action_cleared_def\<close>)

lemma release_gone:
  assumes "action_exact (Some t) l" "action_inv l"
  shows "gone t (action_cleared\<lparr>al_next_identity := al_next_identity l\<rparr>)"
  using assms by (auto simp: gone_def action_exact_def action_inv_def action_cleared_def)

lemma exact_kept:
  "action_exact token (odd_status l) = action_exact token l" "action_exact token (action_record sdk status l) = action_exact token l"
  by (simp_all add: action_exact_def odd_fields record_fields split: option.split)

lemma used_identities: "stamped t revision l \<Longrightarrow> al_identity l \<noteq> 0" "outdated t revision l \<Longrightarrow> al_identity l \<noteq> 0"
  by (auto simp: stamped_def outdated_def action_exact_def)

lemma effect_stamped:
  assumes "action_effect sdk e l l'" "stamped t revision l" "action_inv l"
  shows "(\<not> disturbs e \<and> stamped t revision l') \<or> outdated t revision l' \<or> gone t l'"
  using assms(1)
proof cases
  case none
  then show ?thesis using assms(2) by simp
next
  case (reserve generation kind cx interface channel token r)
  then show ?thesis using assms(2) by (auto simp: stamped_def action_exact_def)
next
  case (odd kind cx interface channel k status r)
  then have "action_exact (Some t) l'" using assms(2) by (simp add: exact_kept stamped_def)
  then show ?thesis using assms(2) odd next_greater [of "al_revision l"] by (auto simp: outdated_def stamped_def odd_fields)
next
  case (delivery kind cx interface channel k status r)
  then have "action_exact (Some t) l'" using assms(2) by (simp add: exact_kept stamped_def)
  then show ?thesis using assms(2) delivery next_greater [of "al_revision l"] by (auto simp: outdated_def stamped_def record_fields)
next
  case (release token r)
  then show ?thesis using release_gone assms(2,3) by (simp add: stamped_def)
qed (use assms(2) used_identities(1) [OF assms(2)] in \<open>simp_all add: stamped_def disturbs_def action_exact_def\<close>)

lemma effect_outdated:
  assumes "action_effect sdk e l l'" "outdated t revision l" "action_inv l"
  shows "outdated t revision l' \<or> gone t l'"
  using assms(1)
proof cases
  case (reserve generation kind cx interface channel token r)
  then show ?thesis using assms(2) by (auto simp: outdated_def action_exact_def)
next
  case (odd kind cx interface channel k status r)
  then have "action_exact (Some t) l'" using assms(2) by (simp add: exact_kept outdated_def)
  then show ?thesis
    using assms(2) odd next_greater [of "al_revision l"] by (auto simp: outdated_def odd_fields intro: less_trans)
next
  case (delivery kind cx interface channel k status r)
  then have "action_exact (Some t) l'" using assms(2) by (simp add: exact_kept outdated_def)
  then show ?thesis
    using assms(2) delivery next_greater [of "al_revision l"] by (auto simp: outdated_def record_fields intro: less_trans)
next
  case (release token r)
  then show ?thesis using release_gone assms(2,3) by (simp add: outdated_def)
next
  case (quiescent u n)
  then show ?thesis using assms(2) by (auto simp: outdated_def action_exact_def)
qed (use assms(2) used_identities(2) [OF assms(2)] in \<open>simp_all add: outdated_def action_exact_def action_unfence_def\<close>)

lemma stamp_log:
  assumes "action_run sdk es l" "es = between @ (Fence_revision (Some t), Revision (Some revision)) # earlier"
  shows "(quiet between \<and> stamped t revision l) \<or> outdated t revision l \<or> gone t l"
  using assms
proof (induction arbitrary: between rule: action_run.induct)
  case (call es l c r l')
  show ?case
  proof (cases between)
    case Nil
    then have "action_fence_revision (Some t) l = Some revision" "l' = l" using call by auto
    then show ?thesis using Nil revision_exact [of "Some t" l revision] by (simp add: stamped_def quiet_def)
  next
    case (Cons e rest)
    then have e: "e = (c, r)" and es: "es = rest @ (Fence_revision (Some t), Revision (Some revision)) # earlier" using call.prems by simp_all
    note effect = action_call_effect [OF call.hyps(2)] and inv = action_run_inv [OF call.hyps(1)]
    from call.IH [OF es] show ?thesis
      using effect_stamped [OF effect _ inv] effect_outdated [OF effect _ inv] effect_gone [OF effect]
      by (auto simp: Cons e quiet_def)
  qed
qed simp

lemma run_split:
  assumes "action_run sdk es l" "es = later @ (c, r) # earlier"
  shows "\<exists>l0 l1. action_run sdk earlier l0 \<and> action_apply sdk c l0 = (r, l1)"
  using assms
proof (induction arbitrary: later rule: action_run.induct)
  case (call es l c' r' l')
  then show ?case by (cases later) auto
qed simp

lemma stamp_fences:
  assumes "action_run sdk es l" "es = later @ (c, Ok True) # between @ (Fence_revision (Some t), Revision (Some revision)) # earlier"
    "c = Sdk_fenced (Some t) revision \<or> c = Event_fenced (Some t) revision"
  shows "quiet between"
proof -
  obtain l0 l1 where run: "action_run sdk (between @ (Fence_revision (Some t), Revision (Some revision)) # earlier) l0"
    and applied: "action_apply sdk c l0 = (Ok True, l1)" using run_split [OF assms(1,2)] by blast
  have "action_fence_revision (Some t) l0 = Some revision"
    using applied assms(3) by (auto simp: action_sdk_fenced_def action_event_fenced_def split: if_splits)
  then have "\<not> outdated t revision l0" "\<not> gone t l0"
    using revision_exact [of "Some t" l0 revision] by (auto simp: outdated_def gone_def action_exact_def)
  then show ?thesis using stamp_log [OF run refl] by blast
qed

lemma calls_gone: "gone t l \<Longrightarrow> gone t (after_calls (action_apply sdk) cs l)"
proof (induction cs arbitrary: l)
  case (Cons c cs)
  have "gone t (snd (action_apply sdk c l))"
    by (rule effect_gone [OF action_call_effect Cons.prems]) (rule prod.collapse [symmetric])
  from Cons.IH [OF this] show ?case by simp
qed simp

text \<open>
  C14: in every run, when a token gives the lane back while its operation may still be with the
  driver, the driver has been drained and after it the event loop, both with this token, and neither
  an event of the operation nor an order to cancel it has come since the first of the two; a fence
  counts only if no event has come since the revision it names was read; and a token that has given
  the lane back never names it again, whatever is called.
\<close>

theorem wifi_action_release_safe:
  assumes "action_run sdk es l"
  shows "(\<forall>t t' l'. action_release (Some t) l = (True, t', l') \<longrightarrow>
      (al_submitted l \<and> \<not> al_physical_termination l \<longrightarrow>
        (\<exists>later revision between proof earlier. es = later @ (Event_fenced (Some t) revision, Ok True) # between @ proof # earlier \<and>
          sdk_proof t proof \<and> quiet later \<and> quiet between)) \<and>
      (\<forall>calls. \<not> action_exact (Some t) (after_calls (action_apply sdk) calls l'))) \<and>
    (\<forall>later c between t revision earlier.
      es = later @ (c, Ok True) # between @ (Fence_revision (Some t), Revision (Some revision)) # earlier \<longrightarrow>
      c = Sdk_fenced (Some t) revision \<or> c = Event_fenced (Some t) revision \<longrightarrow> quiet between)"
proof (intro conjI allI impI)
  fix t t' l'
  assume released: "action_release (Some t) l = (True, t', l')"
  then have exact: "action_exact (Some t) l" by (simp add: action_release_def split: if_splits)
  then have "gone t l'" using released release_gone [OF exact action_run_inv [OF assms]] by (simp add: action_release_def split: if_splits)
  from calls_gone [OF this] show "\<not> action_exact (Some t) (after_calls (action_apply sdk) calls l')" for calls
    by (auto simp: gone_def action_exact_def)
  assume "al_submitted l \<and> \<not> al_physical_termination l"
  then have "al_event_fenced l" using released by (simp add: action_release_def split: if_splits)
  then have "both_proved t es" using fences_prove [OF assms] exact_token [OF exact] by simp
  then show "\<exists>later revision between proof earlier. es = later @ (Event_fenced (Some t) revision, Ok True) # between @ proof # earlier \<and>
      sdk_proof t proof \<and> quiet later \<and> quiet between"
    unfolding both_proved_def sdk_proved_def by blast
qed (use stamp_fences [OF assms] in blast)

text \<open>A remain-on-channel request that ends, is fenced and given back.\<close>

definition example_sdk :: action_sdk where
  "example_sdk = \<lparr>sdk_if_ap = 1, sdk_duration_completed = 3, sdk_op_cancelled = 4, sdk_roc_fail = 1\<rparr>"

definition example_action :: action_token where
  "example_action = \<lparr>at_generation = 5, at_identity = 1\<rparr>"

definition example_action_calls :: "action_call list" where
  "example_action_calls = [Reserve 5 2 7 0 6 (Some action_no_token), Begin_submit (Some example_action), Observe 2 7 0 6 9 0,
     Submitted (Some example_action) ESP_OK 9, Fence_revision (Some example_action), Sdk_fenced (Some example_action) 1,
     Event_fenced (Some example_action) 1]"

lemma run_calls:
  "action_run sdk es l \<Longrightarrow> action_run sdk (rev (zip cs (call_outputs (action_apply sdk) cs l)) @ es) (after_calls (action_apply sdk) cs l)"
proof (induction cs arbitrary: es l)
  case (Cons c cs)
  obtain r l' where c: "action_apply sdk c l = (r, l')" by fastforce
  from Cons.IH [OF action_run.call [OF Cons.prems c]] show ?case by (simp add: c)
qed simp

definition example_log :: action_log where
  "example_log = rev (zip example_action_calls (call_outputs (action_apply example_sdk) example_action_calls action_initial))"

definition example_lane :: action_lane where
  "example_lane = after_calls (action_apply example_sdk) example_action_calls action_initial"

lemma wifi_action_release_safe_witness:
  "\<exists>later revision between proof earlier.
     example_log = later @ (Event_fenced (Some example_action) revision, Ok True) # between @ proof # earlier \<and>
     sdk_proof example_action proof \<and> quiet later \<and> quiet between"
proof -
  have run: "action_run example_sdk example_log example_lane"
    using run_calls [OF action_run.start, of example_sdk example_action_calls] by (simp add: example_log_def example_lane_def)
  have "fst (action_release (Some example_action) example_lane)" "al_submitted example_lane \<and> \<not> al_physical_termination example_lane"
    by code_simp+
  moreover obtain t' l' where "action_release (Some example_action) example_lane = (True, t', l')"
    using calculation(1) by (cases "action_release (Some example_action) example_lane") auto
  ultimately show ?thesis using wifi_action_release_safe [OF run] by blast
qed

section \<open>Events that come before the call returns\<close>

definition action_outcome :: "action_lane \<Rightarrow> u8 \<times> u8 \<times> bool \<times> bool" where
  "action_outcome l = (al_tx_status l, al_terminal_status l, al_terminal l, al_ambiguous l)"

text \<open>Events of the lane's own operation, as numbers of operations and statuses.\<close>

definition action_deliver :: "action_sdk \<Rightarrow> u8 \<Rightarrow> u32 \<Rightarrow> u8 \<Rightarrow> u8 \<Rightarrow> (u8 \<times> u32) list \<Rightarrow> action_lane \<Rightarrow> action_lane" where
  "action_deliver sdk kind cx interface channel =
     fold (\<lambda>e l. snd (action_observe sdk kind cx interface channel (fst e) (snd e) l))"

text \<open>The first occurrences of a list, without those of a set.\<close>

fun firsts :: "'a set \<Rightarrow> 'a list \<Rightarrow> 'a list" where
  "firsts seen [] = []"
| "firsts seen (x # xs) = (if x \<in> seen then firsts seen xs else x # firsts (insert x seen) xs)"

lemma set_firsts: "set (firsts seen xs) = set xs - seen" and distinct_firsts: "distinct (firsts seen xs)"
  by (induction xs arbitrary: seen) auto

lemma firsts_of_key:
  "map snd (filter (\<lambda>e. fst e = k) (firsts seen xs)) = firsts {s. (k, s) \<in> seen} (map snd (filter (\<lambda>e. fst e = k) xs))"
proof (induction xs arbitrary: seen)
  case (Cons e xs)
  have "{s. (k, s) \<in> insert e seen} = (if fst e = k then insert (snd e) {s. (k, s) \<in> seen} else {s. (k, s) \<in> seen})"
    by (cases e) auto
  then show ?case using Cons.IH by (cases e) auto
qed simp

definition unfenced :: "action_lane \<Rightarrow> bool" where
  "unfenced l \<longleftrightarrow> \<not> al_sdk_quiescent l \<and> \<not> al_sdk_fenced l \<and> \<not> al_event_fenced l"

definition is_terminal :: "action_sdk \<Rightarrow> u32 \<Rightarrow> action_lane \<Rightarrow> bool" where
  "is_terminal sdk s l \<longleftrightarrow> al_kind l = ACTION_ROC \<or> s = sdk_duration_completed sdk \<or> s = sdk_op_cancelled sdk"

text \<open>A status that has been taken in: taking it in again changes nothing but the revision.\<close>

definition absorbed :: "action_sdk \<Rightarrow> u32 \<Rightarrow> action_lane \<Rightarrow> bool" where
  "absorbed sdk s l \<longleftrightarrow>
     (if is_terminal sdk s l then al_terminal l \<and> al_terminal_status l \<noteq> - 1 \<and> (al_terminal_status l = ucast s \<or> al_ambiguous l)
      else al_tx_status l \<noteq> - 1 \<and> (al_tx_status l = ucast s \<or> al_ambiguous l))"

lemma record_unfenced: "unfenced (action_record sdk s l)" "al_kind (action_record sdk s l) = al_kind l"
  by (simp_all add: unfenced_def record_fields action_record_def action_unfence_def Let_def)

lemma terminal_kept: "is_terminal sdk s (action_record sdk s' l) = is_terminal sdk s l"
  by (simp add: is_terminal_def record_unfenced)

lemma record_split:
  assumes "al_revision l \<noteq> - 1"
  shows "action_record sdk s l = (let l' = action_unfence (l\<lparr>al_revision := al_revision l + 1\<rparr>) in
    if is_terminal sdk s l
    then if al_terminal_status l \<noteq> - 1 \<and> al_terminal_status l \<noteq> ucast s then l'\<lparr>al_ambiguous := True, al_terminal := True\<rparr>
      else l'\<lparr>al_terminal_status := ucast s, al_terminal := True\<rparr>
    else if al_tx_status l \<noteq> - 1 \<and> al_tx_status l \<noteq> ucast s then l'\<lparr>al_ambiguous := True\<rparr>
      else l'\<lparr>al_tx_status := ucast s\<rparr>)"
proof -
  have same: "al_kind (action_unfence l) = al_kind l" "al_revision (action_unfence l) = al_revision l"
    "(action_unfence l)\<lparr>al_revision := n\<rparr> = action_unfence (l\<lparr>al_revision := n\<rparr>)" for n
    by (simp_all add: action_unfence_def)
  have fields: "al_kind l' = al_kind l \<and> al_terminal_status l' = al_terminal_status l \<and> al_tx_status l' = al_tx_status l"
    if "l' = action_unfence (l\<lparr>al_revision := n\<rparr>)" for l' n using that by (simp add: action_unfence_def)
  show ?thesis
    unfolding action_record_def Let_def same if_not_P [OF assms] is_terminal_def
    using fields [OF refl, of "al_revision l + 1"]
    by (cases "al_kind l = ACTION_ROC \<or> s = sdk_duration_completed sdk \<or> s = sdk_op_cancelled sdk") (simp_all only: if_True if_False if_distrib [of "al_terminal_update (\<lambda>x. True)"])
qed

lemma absorbed_again:
  assumes "absorbed sdk s l" "unfenced l" "al_revision l \<noteq> - 1"
  shows "action_record sdk s l = l\<lparr>al_revision := al_revision l + 1\<rparr>"
  using assms(1,2) unfolding record_split [OF assms(3)] absorbed_def unfenced_def action_unfence_def Let_def
  by (cases l) (auto split: if_splits)

lemma record_outcome:
  assumes "al_revision l \<noteq> - 1"
  shows "al_terminal_status (action_record sdk s l) = (if is_terminal sdk s l \<and> al_terminal_status l = - 1 then ucast s else al_terminal_status l)"
    "al_tx_status (action_record sdk s l) = (if \<not> is_terminal sdk s l \<and> al_tx_status l = - 1 then ucast s else al_tx_status l)"
    "al_terminal (action_record sdk s l) = (al_terminal l \<or> is_terminal sdk s l)"
    "al_ambiguous (action_record sdk s l) = (al_ambiguous l \<or>
      (let previous = if is_terminal sdk s l then al_terminal_status l else al_tx_status l in previous \<noteq> - 1 \<and> previous \<noteq> ucast s))"
  unfolding record_split [OF assms] by (simp_all add: action_unfence_def Let_def)

lemma absorbed_now:
  assumes "al_revision l \<noteq> - 1" "(ucast s :: u8) \<noteq> - 1"
  shows "absorbed sdk s (action_record sdk s l)"
  using assms(2) unfolding absorbed_def terminal_kept record_outcome [OF assms(1)] Let_def by (auto split: if_splits)

lemma absorbed_kept:
  assumes "absorbed sdk s l" "al_revision l \<noteq> - 1"
  shows "absorbed sdk s (action_record sdk s' l)"
  using assms(1) unfolding absorbed_def terminal_kept record_outcome [OF assms(2)] by (auto split: if_splits)

text \<open>The revision counts events and is no part of their outcome.\<close>

lemma record_revision:
  assumes "al_revision l \<noteq> - 1" "n \<noteq> - 1"
  shows "action_record sdk s (l\<lparr>al_revision := n\<rparr>) = (action_record sdk s l)\<lparr>al_revision := n + 1\<rparr>"
proof -
  have kind: "is_terminal sdk s (l\<lparr>al_revision := n\<rparr>) = is_terminal sdk s l" by (simp add: is_terminal_def)
  have "al_revision (l\<lparr>al_revision := n\<rparr>) \<noteq> - 1" using assms(2) by simp
  note split = record_split [OF this, of sdk s] record_split [OF assms(1), of sdk s]
  show ?thesis unfolding split kind by (simp add: action_unfence_def Let_def)
qed

lemma more_revisions:
  fixes n :: u32
  assumes "unat n + Suc k < 4294967295"
  shows "n \<noteq> - 1" "unat (n + 1) + k < 4294967295"
proof -
  have max: "unat (- 1 :: u32) = 4294967295" by (simp add: unsigned_minus_1_eq_mask mask_eq_exp_minus_1)
  show "n \<noteq> - 1" using assms max by auto
  have "unat (n + 1) = unat n + 1" using assms by (simp add: unat_add_fits)
  then show "unat (n + 1) + k < 4294967295" using assms by simp
qed

text \<open>Taking in a list of statuses, or each of them once, comes to the same.\<close>

lemma once_is_enough:
  assumes "\<And>s. s \<in> seen \<Longrightarrow> absorbed sdk s l" "unfenced l" "\<And>s. s \<in> set ss \<Longrightarrow> (ucast s :: u8) \<noteq> - 1"
    "unat (al_revision l) + length ss < 4294967295" "unat n + length ss < 4294967295"
  shows "\<exists>m. fold (action_record sdk) ss (l\<lparr>al_revision := n\<rparr>) = (fold (action_record sdk) (firsts seen ss) l)\<lparr>al_revision := m\<rparr> \<and>
      unat m \<le> unat n + length ss"
  using assms
proof (induction ss arbitrary: seen l n)
  case (Cons s ss)
  have n: "n \<noteq> - 1" "unat (n + 1) + length ss < 4294967295" "unat (n + 1) = unat n + 1"
    using more_revisions [of n "length ss"] Cons.prems(5) by (simp_all add: unat_add_fits)
  have l: "al_revision l \<noteq> - 1" "unat (al_revision l + 1) + length ss < 4294967295"
    using more_revisions [of "al_revision l" "length ss"] Cons.prems(4) by simp_all
  note step = record_revision [OF l(1) n(1), of sdk s]
  show ?case
  proof (cases "s \<in> seen")
    case True
    have "action_record sdk s (l\<lparr>al_revision := n\<rparr>) = l\<lparr>al_revision := n + 1\<rparr>"
      unfolding step absorbed_again [OF Cons.prems(1) [OF True] Cons.prems(2) l(1)] by simp
    then show ?thesis
      using Cons.IH [of seen l "n + 1"] Cons.prems(1-4) n True by auto
  next
    case False
    let ?l = "action_record sdk s l"
    have "absorbed sdk s' ?l" if "s' \<in> insert s seen" for s'
      using that absorbed_now [OF l(1)] absorbed_kept [OF _ l(1)] Cons.prems(1,3) by auto
    moreover have "unat (al_revision ?l) + length ss < 4294967295" using l by (simp add: record_fields)
    ultimately show ?thesis
      using Cons.IH [of "insert s seen" ?l "n + 1"] record_unfenced(1) Cons.prems(3) n False by (auto simp: step)
  qed
qed auto

text \<open>Whose events the lane takes: those with its own kind, context, channel and interface.\<close>

definition action_limit :: "action_sdk \<Rightarrow> u8 \<Rightarrow> u32" where
  "action_limit sdk kind = (if kind = ACTION_ROC then sdk_roc_fail sdk else sdk_op_cancelled sdk)"

definition takes :: "u8 \<Rightarrow> u32 \<Rightarrow> u8 \<Rightarrow> u8 \<Rightarrow> action_lane \<Rightarrow> bool" where
  "takes kind cx interface channel l \<longleftrightarrow> al_identity l \<noteq> 0 \<and> \<not> al_physical_termination l \<and> al_kind l = kind \<and>
     al_context l = cx \<and> al_channel l = channel \<and> al_interface l = interface"

lemma record_takes:
  "takes kind cx interface channel (action_record sdk s l) = takes kind cx interface channel l"
  "al_operation_id (action_record sdk s l) = al_operation_id l"
  by (simp_all add: takes_def action_record_def action_unfence_def Let_def)

lemma deliver_step:
  "action_deliver sdk kind cx interface channel [] l = l"
  "action_deliver sdk kind cx interface channel (e # es) l =
    action_deliver sdk kind cx interface channel es (snd (action_observe sdk kind cx interface channel (fst e) (snd e) l))"
  by (simp_all add: action_deliver_def)

abbreviation statuses_of :: "u8 \<Rightarrow> (u8 \<times> u32) list \<Rightarrow> u32 list" where
  "statuses_of k es \<equiv> map snd (filter (\<lambda>e. fst e = k) es)"

lemma deliver_submitted:
  assumes "takes kind cx interface channel l" "al_submitted l" "al_operation_id l = k" "\<forall>e \<in> set es. snd e \<le> action_limit sdk kind"
  shows "action_deliver sdk kind cx interface channel es l = fold (action_record sdk) (statuses_of k es) l"
  using assms
proof (induction es arbitrary: l)
  case (Cons e es)
  have "snd (action_observe sdk kind cx interface channel (fst e) (snd e) l) = (if fst e = k then action_record sdk (snd e) l else l)"
    using Cons.prems by (auto simp: action_observe_def takes_def action_limit_def not_le [symmetric])
  then show ?case using Cons by (simp add: deliver_step record_takes record_fields)
qed (simp add: deliver_step)

definition early_of :: "(u8 \<times> u32) list \<Rightarrow> action_early list" where
  "early_of = map (\<lambda>e. \<lparr>ae_operation_id = fst e, ae_status = ucast (snd e)\<rparr>)"

lemma small_status: "s < 256 \<Longrightarrow> ucast (ucast s :: u8) = (s :: u32)"
proof -
  assume "s < 256"
  then have "unat s < 256" by (simp add: word_less_nat_alt)
  then show ?thesis by (simp add: word_unat_eq_iff unsigned_ucast_eq unsigned_take_bit_eq take_bit_nat_eq_self)
qed

lemma early_known:
  assumes "\<forall>e \<in> set kept. snd e < 256" "snd e < 256"
  shows "list_ex (\<lambda>x. ae_operation_id x = fst e \<and> ucast (ae_status x) = snd e) (early_of kept) \<longleftrightarrow> e \<in> set kept"
  using assms by (auto simp: early_of_def list_ex_iff small_status)

lemma deliver_early:
  assumes "takes kind cx interface channel l" "al_dispatching l" "\<not> al_submitted l" "al_early l = early_of kept"
    "\<forall>e \<in> set (kept @ es). snd e \<le> action_limit sdk kind" "action_limit sdk kind < 256" "distinct kept" "card (set (kept @ es)) \<le> ACTION_EARLY_EVENTS"
  shows "action_deliver sdk kind cx interface channel es l = l\<lparr>al_early := early_of (kept @ firsts (set kept) es)\<rparr>"
  using assms
proof (induction es arbitrary: l kept)
  case Nil
  then show ?case by (simp add: deliver_step)
next
  case (Cons e es)
  have small: "\<forall>x \<in> set kept. snd x < 256" "snd e < 256" using Cons.prems(5,6) by (auto intro: le_less_trans)
  have odd: "\<not> action_limit sdk kind < snd e" using Cons.prems(5) by (simp add: not_less)
  have known: "list_ex (\<lambda>x. ae_operation_id x = fst e \<and> ucast (ae_status x) = snd e) (al_early l) \<longleftrightarrow> e \<in> set kept"
    unfolding Cons.prems(4) by (rule early_known [OF small])
  have observe: "action_observe sdk kind cx interface channel (fst e) (snd e) l =
      (if e \<in> set kept then (True, l) else if length (al_early l) = ACTION_EARLY_EVENTS then (True, l\<lparr>al_ambiguous := True\<rparr>)
       else (True, l\<lparr>al_early := al_early l @ [\<lparr>ae_operation_id = fst e, ae_status = ucast (snd e)\<rparr>]\<rparr>))"
    using Cons.prems(1-3) odd known by (simp add: action_observe_def takes_def action_limit_def)
  show ?case
  proof (cases "e \<in> set kept")
    case True
    then have "set (kept @ e # es) = set (kept @ es)" by auto
    then show ?thesis using Cons.IH [of l kept] Cons.prems True observe by (simp add: deliver_step)
  next
    case False
    let ?l = "l\<lparr>al_early := al_early l @ [\<lparr>ae_operation_id = fst e, ae_status = ucast (snd e)\<rparr>]\<rparr>"
    have "Suc (length kept) = card (set (kept @ [e]))" using Cons.prems(7) False by (simp add: distinct_card)
    also have "\<dots> \<le> card (set (kept @ e # es))" by (rule card_mono) auto
    finally have "length (al_early l) \<noteq> ACTION_EARLY_EVENTS" using Cons.prems(4,8) by (simp add: early_of_def)
    then have "snd (action_observe sdk kind cx interface channel (fst e) (snd e) l) = ?l" using observe False by simp
    moreover have "action_deliver sdk kind cx interface channel es ?l = ?l\<lparr>al_early := early_of ((kept @ [e]) @ firsts (set (kept @ [e])) es)\<rparr>"
      by (rule Cons.IH) (use Cons.prems False in \<open>simp_all add: takes_def early_of_def\<close>)
    ultimately show ?thesis using False by (simp add: deliver_step)
  qed
qed

lemma replay_records:
  assumes "\<forall>e \<in> set es. snd e < 256"
  shows "action_replay sdk k (early_of es) l = fold (action_record sdk) (statuses_of k es) l"
  using assms by (induction es arbitrary: l) (simp_all add: replay_step early_of_def small_status)

lemma record_early: "action_record sdk s (l\<lparr>al_early := es\<rparr>) = (action_record sdk s l)\<lparr>al_early := es\<rparr>"
proof -
  let ?terminal = "al_kind l = ACTION_ROC \<or> s = sdk_duration_completed sdk \<or> s = sdk_op_cancelled sdk"
  show ?thesis
    unfolding action_record_def Let_def action_unfence_def
    by (cases "al_revision l = - 1"; cases ?terminal) simp_all
qed

lemma records_early: "fold (action_record sdk) ss (l\<lparr>al_early := es\<rparr>) = (fold (action_record sdk) ss l)\<lparr>al_early := es\<rparr>"
  by (induction ss arbitrary: l) (simp_all add: record_early)

lemma records_fields:
  "takes kind cx interface channel (fold (action_record sdk) ss l) = takes kind cx interface channel l"
  "al_operation_id (fold (action_record sdk) ss l) = al_operation_id l" "al_submitted (fold (action_record sdk) ss l) = al_submitted l"
  by (induction ss arbitrary: l) (simp_all add: record_takes record_fields)

lemma deliver_cleared:
  assumes "takes kind cx interface channel l" "al_submitted l" "al_operation_id l = k" "\<forall>e \<in> set es. snd e \<le> action_limit sdk kind"
  shows "action_deliver sdk kind cx interface channel es (l\<lparr>al_early := []\<rparr>) = (fold (action_record sdk) (statuses_of k es) l)\<lparr>al_early := []\<rparr>"
proof -
  have "takes kind cx interface channel (l\<lparr>al_early := []\<rparr>)" using assms(1) by (simp add: takes_def)
  from deliver_submitted [OF this, of k es sdk] assms(2-4) show ?thesis by (simp add: records_early)
qed

lemma length_firsts: "length (firsts seen xs) \<le> length xs"
  by (induction xs arbitrary: seen) (auto intro: le_SucI)

lemma revision_bound: "unat (al_revision (fold (action_record sdk) ss l)) \<le> unat (al_revision l) + length ss"
proof (induction ss arbitrary: l)
  case (Cons s ss)
  have "unat (al_revision (action_record sdk s l)) \<le> unat (al_revision l) + 1"
    using unat_plus_if_size [of "al_revision l" 1] by (simp add: record_fields split: if_splits)
  then show ?case using Cons.IH [of "action_record sdk s l"] by simp
qed simp

lemma records_revision:
  assumes "unat (al_revision l) + length ss < 4294967295" "unat n + length ss < 4294967295"
  shows "\<exists>m. fold (action_record sdk) ss (l\<lparr>al_revision := n\<rparr>) = (fold (action_record sdk) ss l)\<lparr>al_revision := m\<rparr>"
  using assms
proof (induction ss arbitrary: l n)
  case (Cons s ss)
  have n: "n \<noteq> - 1" "unat (n + 1) + length ss < 4294967295" using more_revisions [of n "length ss"] Cons.prems(2) by simp_all
  have l: "al_revision l \<noteq> - 1" "unat (al_revision l + 1) + length ss < 4294967295"
    using more_revisions [of "al_revision l" "length ss"] Cons.prems(1) by simp_all
  have "unat (al_revision (action_record sdk s l)) + length ss < 4294967295" using l by (simp add: record_fields)
  from Cons.IH [OF this n(2)] show ?case by (simp add: record_revision [OF l(1) n(1)])
qed auto

text \<open>A lane whose operation is with the driver, but has no number yet.\<close>

definition dispatched :: "u8 \<Rightarrow> u32 \<Rightarrow> u8 \<Rightarrow> u8 \<Rightarrow> action_token \<Rightarrow> action_lane \<Rightarrow> bool" where
  "dispatched kind cx interface channel t l \<longleftrightarrow> action_exact (Some t) l \<and> al_dispatching l \<and> \<not> al_submitted l \<and> unfenced l \<and>
     takes kind cx interface channel l \<and> al_early l = [] \<and> al_revision l = 0"

lemma begun_dispatched:
  assumes "action_reserve sdk generation kind cx interface channel (Some action_no_token) l0 = (ESP_OK, Some t, l1)"
    "action_begin_submit (Some t) l1 = (True, l)"
  shows "dispatched kind cx interface channel t l"
  using assms
  by (auto simp: action_reserve_def action_begin_submit_def dispatched_def unfenced_def takes_def action_exact_def action_cleared_def
      Let_def split: if_splits)

lemma submit_unfold:
  assumes "dispatched kind cx interface channel t l"
  shows "snd (action_submitted sdk (Some t) err k (l\<lparr>al_early := es\<rparr>)) =
    (action_replay sdk k es (l\<lparr>al_dispatching := False, al_submitted := True, al_submit_error := err, al_operation_id := k\<rparr>))\<lparr>al_early := []\<rparr>"
proof -
  have "action_exact (Some t) (l\<lparr>al_early := es\<rparr>)" using assms by (auto simp: dispatched_def action_exact_def)
  moreover have "action_replay sdk k es (l\<lparr>al_early := es, al_dispatching := False, al_submitted := True, al_submit_error := err, al_operation_id := k\<rparr>)
      \<lparr>al_early := []\<rparr> =
    action_replay sdk k es (l\<lparr>al_dispatching := False, al_submitted := True, al_submit_error := err, al_operation_id := k\<rparr>)\<lparr>al_early := []\<rparr>"
  proof -
    have early: "(action_replay sdk k xs (m\<lparr>al_early := ys\<rparr>))\<lparr>al_early := []\<rparr> = (action_replay sdk k xs m)\<lparr>al_early := []\<rparr>" for xs ys m
      by (induction xs arbitrary: m) (simp_all add: replay_step record_early)
    have "l\<lparr>al_early := es, al_dispatching := False, al_submitted := True, al_submit_error := err, al_operation_id := k\<rparr> =
      l\<lparr>al_dispatching := False, al_submitted := True, al_submit_error := err, al_operation_id := k, al_early := es\<rparr>"
      by (cases l) simp
    then show ?thesis by (simp only: early)
  qed
  ultimately show ?thesis using assms by (simp add: submitted_unfold submitted_lane_def dispatched_def)
qed

lemma early_in_range:
  assumes d: "dispatched kind cx interface channel t l"
    and statuses: "\<forall>e \<in> set (early @ late). snd e \<le> action_limit sdk kind" "action_limit sdk kind < 255"
    and few: "card (set early) \<le> ACTION_EARLY_EVENTS" "length early + length late < 2 ^ 32 - 1"
  shows "action_outcome (action_deliver sdk kind cx interface channel late
      (snd (action_submitted sdk (Some t) err k (action_deliver sdk kind cx interface channel early l)))) =
    action_outcome (action_deliver sdk kind cx interface channel (early @ late) (snd (action_submitted sdk (Some t) err k l)))"
proof -
  have small: "action_limit sdk kind < 256" using statuses(2) by (rule less_trans) simp
  have low: "(ucast s :: u8) \<noteq> - 1" if "s \<le> action_limit sdk kind" for s
  proof
    have "s < 255" using that statuses(2) by (rule le_less_trans)
    then have "unat s < 255" by (simp add: word_less_nat_alt)
    moreover assume "(ucast s :: u8) = - 1"
    then have "unat (ucast s :: u8) = 255" by (simp add: unsigned_minus_1_eq_mask mask_eq_exp_minus_1)
    ultimately show False by (simp add: unsigned_ucast_eq unsigned_take_bit_eq take_bit_nat_eq_self)
  qed
  let ?l = "l\<lparr>al_dispatching := False, al_submitted := True, al_submit_error := err, al_operation_id := k\<rparr>"
  let ?S = "statuses_of k early" and ?T = "statuses_of k late"
  have l: "takes kind cx interface channel ?l" "unfenced ?l" "al_revision ?l = 0" "al_early l = []"
    using d by (simp_all add: dispatched_def takes_def unfenced_def)
  have same: "l\<lparr>al_early := []\<rparr> = l" using l(4) by simp
  have before: "action_deliver sdk kind cx interface channel early l = l\<lparr>al_early := early_of (firsts {} early)\<rparr>"
    using deliver_early [of kind cx interface channel l "[]" early sdk] d statuses(1) small few(1) by (simp add: dispatched_def early_of_def)
  have once: "statuses_of k (firsts {} early) = firsts {} ?S" by (simp add: firsts_of_key)
  have replay: "action_replay sdk k (early_of (firsts {} early)) ?l = fold (action_record sdk) (firsts {} ?S) ?l"
    unfolding once [symmetric] by (rule replay_records) (use statuses(1) small set_firsts [of "{}" early] in \<open>auto intro: le_less_trans\<close>)
  let ?A = "fold (action_record sdk) (firsts {} ?S) ?l"
  have left: "action_deliver sdk kind cx interface channel late (snd (action_submitted sdk (Some t) err k (action_deliver sdk kind cx interface channel early l)))
      = (fold (action_record sdk) ?T ?A)\<lparr>al_early := []\<rparr>"
    unfolding before submit_unfold [OF d] replay
    by (rule deliver_cleared) (use statuses(1) l(1) in \<open>simp_all add: records_fields\<close>)
  have "snd (action_submitted sdk (Some t) err k l) = ?l\<lparr>al_early := []\<rparr>"
    using submit_unfold [OF d, of sdk err k "[]"] unfolding same by (simp add: replay_step)
  then have right: "action_deliver sdk kind cx interface channel (early @ late) (snd (action_submitted sdk (Some t) err k l))
      = (fold (action_record sdk) ?T (fold (action_record sdk) ?S ?l))\<lparr>al_early := []\<rparr>"
    using deliver_cleared [OF l(1), of k "early @ late" sdk] statuses(1) by simp
  have "length ?S \<le> length early" "length ?T \<le> length late" unfolding length_map by (rule length_filter_le)+
  moreover have "length early + length late < 4294967295" using few(2) by simp
  ultimately have short: "length ?S + length ?T < 4294967295" by linarith
  have zero: "?l\<lparr>al_revision := 0\<rparr> = ?l" using l(3) by simp
  have low': "(ucast s :: u8) \<noteq> - 1" if "s \<in> set ?S" for s using that low statuses(1) by auto
  have "\<exists>m. fold (action_record sdk) ?S (?l\<lparr>al_revision := 0\<rparr>) = ?A\<lparr>al_revision := m\<rparr> \<and> unat m \<le> unat (0 :: u32) + length ?S"
    by (rule once_is_enough) (use l(2,3) low' short in simp_all)
  then obtain m where m: "fold (action_record sdk) ?S ?l = ?A\<lparr>al_revision := m\<rparr>" "unat m \<le> length ?S" unfolding zero by auto
  have "unat (al_revision ?A) \<le> length ?S"
    using revision_bound [of sdk "firsts {} ?S" ?l] l(3) length_firsts [of "{}" ?S] by simp
  then obtain n where "fold (action_record sdk) ?T (?A\<lparr>al_revision := m\<rparr>) = (fold (action_record sdk) ?T ?A)\<lparr>al_revision := n\<rparr>"
    using records_revision [of ?A ?T m sdk] m(2) short by auto
  then show ?thesis unfolding left right m(1) by (simp add: action_outcome_def)
qed

text \<open>
  Events with a status outside the SDK's range.  They are not kept: all they do is make the lane
  ambiguous and count as a revision, so they can be left out of a delivery if both are marked.
\<close>

definition mark :: "bool \<Rightarrow> u32 \<Rightarrow> action_lane \<Rightarrow> action_lane" where
  "mark a n l = l\<lparr>al_ambiguous := al_ambiguous l \<or> a, al_revision := n\<rparr>"

abbreviation out_of_range :: "action_sdk \<Rightarrow> u8 \<Rightarrow> u8 \<times> u32 \<Rightarrow> bool" where
  "out_of_range sdk kind e \<equiv> action_limit sdk kind < snd e"

lemma mark_mark [simp]: "mark a n (mark a' n' l) = mark (a \<or> a') n l"
  by (simp add: mark_def disj_ac)

lemma mark_fields [simp]:
  "al_submitted (mark a n l) = al_submitted l" "al_operation_id (mark a n l) = al_operation_id l" "al_dispatching (mark a n l) = al_dispatching l"
  "al_early (mark a n l) = al_early l" "al_revision (mark a n l) = n" "al_ambiguous (mark a n l) = (al_ambiguous l \<or> a)"
  "al_tx_status (mark a n l) = al_tx_status l" "al_terminal_status (mark a n l) = al_terminal_status l" "al_terminal (mark a n l) = al_terminal l"
  "takes kind cx interface channel (mark a n l) = takes kind cx interface channel l" "unfenced (mark a n l) = unfenced l"
  "is_terminal sdk s (mark a n l) = is_terminal sdk s l" "action_exact t (mark a n l) = action_exact t l"
  by (auto simp: mark_def takes_def unfenced_def is_terminal_def action_exact_def split: option.splits)

lemma mark_same: "mark False (al_revision l) l = l"
  by (simp add: mark_def)

lemma record_mark:
  assumes "al_revision l \<noteq> - 1" "n \<noteq> - 1"
  shows "action_record sdk s (mark a n l) = mark a (n + 1) (action_record sdk s l)"
proof -
  have "al_revision (mark a n l) \<noteq> - 1" using assms(2) by simp
  note split = record_split [OF this, of sdk s] record_split [OF assms(1), of sdk s]
  show ?thesis unfolding split mark_fields
    by (cases "al_ambiguous l") (simp_all add: mark_def action_unfence_def Let_def)
qed

lemma replay_mark:
  assumes "unat (al_revision l) + length es < 4294967295" "unat n + length es < 4294967295"
  shows "\<exists>m. action_replay sdk k es (mark a n l) = mark a m (action_replay sdk k es l) \<and> unat m \<le> unat n + length es"
  using assms
proof (induction es arbitrary: l n)
  case (Cons e es)
  note n = more_revisions [of n "length es"] and l = more_revisions [of "al_revision l" "length es"]
  show ?case
  proof (cases "ae_operation_id e = k")
    case True
    have "unat (n + 1) = unat n + 1" using Cons.prems(2) by (simp add: unat_add_fits)
    then show ?thesis
      using Cons.IH [of "action_record sdk (ucast (ae_status e)) l" "n + 1"] Cons.prems n l True by (auto simp: replay_step record_mark record_fields)
  next
    case False
    then show ?thesis using Cons.IH [of l n] Cons.prems by (auto simp: replay_step)
  qed
qed (auto simp: action_replay_def)

text \<open>One event, on a lane that takes it.\<close>

definition listening :: "u8 \<Rightarrow> u32 \<Rightarrow> u8 \<Rightarrow> u8 \<Rightarrow> action_lane \<Rightarrow> bool" where
  "listening kind cx interface channel l \<longleftrightarrow> takes kind cx interface channel l \<and> unfenced l \<and> (al_dispatching l \<or> al_submitted l)"

lemma observe_listening:
  assumes "listening kind cx interface channel l"
  shows "snd (action_observe sdk kind cx interface channel (fst e) (snd e) l) =
    (if al_submitted l \<and> al_operation_id l \<noteq> fst e then l
     else if out_of_range sdk kind e then mark True (if al_revision l = - 1 then - 1 else al_revision l + 1) l
     else if al_submitted l then action_record sdk (snd e) l
     else if list_ex (\<lambda>x. ae_operation_id x = fst e \<and> ucast (ae_status x) = snd e) (al_early l) then l
     else if length (al_early l) = ACTION_EARLY_EVENTS then l\<lparr>al_ambiguous := True\<rparr>
     else l\<lparr>al_early := al_early l @ [\<lparr>ae_operation_id = fst e, ae_status = ucast (snd e)\<rparr>]\<rparr>)"
proof -
  have "action_unfence (l\<lparr>al_ambiguous := True\<rparr>) = l\<lparr>al_ambiguous := True\<rparr>"
    using assms by (cases l) (simp add: listening_def unfenced_def action_unfence_def)
  then have odd: "(let l' = action_unfence (l\<lparr>al_ambiguous := True\<rparr>) in if al_revision l' \<noteq> - 1 then l'\<lparr>al_revision := al_revision l' + 1\<rparr> else l') =
      mark True (if al_revision l = - 1 then - 1 else al_revision l + 1) l"
    by (simp add: mark_def Let_def)
  have takes: "\<not> (al_identity l = 0 \<or> (\<not> al_dispatching l \<and> \<not> al_submitted l) \<or> al_physical_termination l \<or> al_kind l \<noteq> kind \<or>
      al_context l \<noteq> cx \<or> al_channel l \<noteq> channel \<or> (kind = ACTION_SEND \<and> al_interface l \<noteq> interface))"
    using assms by (auto simp: listening_def takes_def)
  show ?thesis
    unfolding action_observe_def if_not_P [OF takes] odd action_limit_def [symmetric] by (simp add: if_distrib [of snd] cong: if_cong)
qed

lemma kept_fields:
  "listening kind cx interface channel (l\<lparr>al_early := es\<rparr>) = listening kind cx interface channel l"
  "listening kind cx interface channel (l\<lparr>al_ambiguous := x\<rparr>) = listening kind cx interface channel l"
  "listening kind cx interface channel (mark a n l) = listening kind cx interface channel l"
  by (simp_all add: listening_def) (simp_all add: takes_def unfenced_def)

lemma listening_record: "listening kind cx interface channel l \<Longrightarrow> al_submitted l \<Longrightarrow> listening kind cx interface channel (action_record sdk s l)"
  by (simp add: listening_def record_takes record_unfenced record_fields)

lemma listening_observe:
  assumes "listening kind cx interface channel l"
  shows "listening kind cx interface channel (snd (action_observe sdk kind cx interface channel i s l))"
    "al_submitted (snd (action_observe sdk kind cx interface channel i s l)) = al_submitted l"
    "al_operation_id (snd (action_observe sdk kind cx interface channel i s l)) = al_operation_id l"
  unfolding observe_listening [OF assms, of sdk "(i, s)", unfolded fst_conv snd_conv]
  using assms by (simp_all add: kept_fields listening_record record_takes record_fields)

lemma observe_mark:
  assumes "listening kind cx interface channel l" "\<not> out_of_range sdk kind e" "al_revision l \<noteq> - 1" "n \<noteq> - 1"
  shows "snd (action_observe sdk kind cx interface channel (fst e) (snd e) (mark a n l)) =
    mark a (if al_submitted l \<and> al_operation_id l = fst e then n + 1 else n) (snd (action_observe sdk kind cx interface channel (fst e) (snd e) l))"
proof -
  have "listening kind cx interface channel (mark a n l)" using assms(1) by (simp add: kept_fields)
  note steps = observe_listening [OF this, of sdk e] observe_listening [OF assms(1), of sdk e]
  show ?thesis unfolding steps using assms(2-4) by (auto simp: record_mark) (simp_all add: mark_def)
qed

text \<open>A whole delivery: its events out of range can be left out.\<close>

abbreviation heeds :: "action_lane \<Rightarrow> u8 \<times> u32 \<Rightarrow> bool" where
  "heeds l e \<equiv> al_submitted l \<longrightarrow> fst e = al_operation_id l"

lemma deliver_mark:
  assumes "listening kind cx interface channel l" "unat (al_revision l) + length es < 4294967295" "unat n + length es < 4294967295"
  shows "\<exists>m. action_deliver sdk kind cx interface channel es (mark a n l) =
      mark (a \<or> (\<exists>e \<in> set es. heeds l e \<and> out_of_range sdk kind e)) m
        (action_deliver sdk kind cx interface channel (filter (\<lambda>e. \<not> out_of_range sdk kind e) es) l) \<and>
    unat m \<le> unat n + length (filter (\<lambda>e. al_submitted l \<or> out_of_range sdk kind e) es)"
  using assms
proof (induction es arbitrary: l n a)
  case (Cons e es)
  have n: "n \<noteq> - 1" "unat (n + 1) + length es < 4294967295" "unat (n + 1) = unat n + 1"
    using more_revisions [of n "length es"] Cons.prems(3) by (simp_all add: unat_add_fits)
  have l: "al_revision l \<noteq> - 1" "unat (al_revision l + 1) + length es < 4294967295" "unat (al_revision l) + length es < 4294967295"
    using more_revisions [of "al_revision l" "length es"] Cons.prems(2) by simp_all
  have listening: "listening kind cx interface channel (mark a n l)" using Cons.prems(1) by (simp add: kept_fields)
  show ?case
  proof (cases "out_of_range sdk kind e")
    case True
    then have "snd (action_observe sdk kind cx interface channel (fst e) (snd e) (mark a n l)) =
        (if heeds l e then mark True (n + 1) l else mark a n l)"
      unfolding observe_listening [OF listening] using n(1) by auto
    then show ?thesis
      using Cons.IH [of l "n + 1" True] Cons.IH [of l n a] Cons.prems n l True by (auto simp: deliver_step)
  next
    case False
    let ?l = "snd (action_observe sdk kind cx interface channel (fst e) (snd e) l)"
    let ?n = "if al_submitted l \<and> al_operation_id l = fst e then n + 1 else n"
    have "unat (al_revision ?l) + length es < 4294967295"
      unfolding observe_listening [OF Cons.prems(1)] using l False by (auto simp: record_fields)
    moreover have "unat ?n + length es < 4294967295" "unat ?n \<le> unat n + (if al_submitted l then 1 else 0)" using Cons.prems(3) n by simp_all
    ultimately show ?thesis
      using Cons.IH [OF listening_observe(1) [OF Cons.prems(1)], of sdk "fst e" "snd e" ?n a] False
      unfolding listening_observe(2,3) [OF Cons.prems(1)] by (auto simp: deliver_step observe_mark [OF Cons.prems(1) False l(1) n(1)])
  qed
qed (auto simp: action_deliver_def)

text \<open>The call returns: what it has kept is taken in.\<close>

lemma replay_listening:
  assumes "listening kind cx interface channel l" "al_submitted l"
  shows "listening kind cx interface channel (action_replay sdk k es l) \<and> unat (al_revision (action_replay sdk k es l)) \<le> unat (al_revision l) + length es \<and>
    (al_ambiguous l \<longrightarrow> al_ambiguous (action_replay sdk k es l))"
  using assms
proof (induction es arbitrary: l)
  case (Cons e es)
  let ?l = "action_record sdk (ucast (ae_status e)) l"
  have "unat (al_revision ?l) \<le> unat (al_revision l) + 1"
    using unat_plus_if_size [of "al_revision l" 1] by (simp add: record_fields split: if_splits)
  then show ?case
    using Cons.IH [of l] Cons.IH [of ?l] Cons.prems listening_record [OF Cons.prems] by (auto simp: replay_step record_fields)
qed (simp add: action_replay_def)

lemma submitted_listening:
  assumes "listening kind cx interface channel l" "action_exact (Some t) l" "al_dispatching l" "\<not> al_submitted l"
  shows "listening kind cx interface channel (snd (action_submitted sdk (Some t) err k l))"
    "unat (al_revision (snd (action_submitted sdk (Some t) err k l))) \<le> unat (al_revision l) + length (al_early l)"
    "al_submitted (snd (action_submitted sdk (Some t) err k l))" "al_operation_id (snd (action_submitted sdk (Some t) err k l)) = k"
    "al_ambiguous l \<Longrightarrow> al_ambiguous (snd (action_submitted sdk (Some t) err k l))"
proof -
  let ?l = "l\<lparr>al_dispatching := False, al_submitted := True, al_submit_error := err, al_operation_id := k\<rparr>"
  have "listening kind cx interface channel ?l" using assms(1) by (simp add: listening_def) (simp add: takes_def unfenced_def)
  note replay = replay_listening [OF this, of sdk k "al_early l"]
  have s: "snd (action_submitted sdk (Some t) err k l) = (action_replay sdk k (al_early l) ?l)\<lparr>al_early := []\<rparr>"
    using assms(2-4) by (simp add: submitted_unfold submitted_lane_def)
  have "al_submitted (action_replay sdk k es ?l) \<and> al_operation_id (action_replay sdk k es ?l) = k" for es
  proof -
    have "al_submitted (action_replay sdk k es m) = al_submitted m \<and> al_operation_id (action_replay sdk k es m) = al_operation_id m" for m
      by (induction es arbitrary: m) (simp_all add: replay_step record_fields record_takes)
    then show ?thesis by simp
  qed
  then show "listening kind cx interface channel (snd (action_submitted sdk (Some t) err k l))"
    "unat (al_revision (snd (action_submitted sdk (Some t) err k l))) \<le> unat (al_revision l) + length (al_early l)"
    "al_submitted (snd (action_submitted sdk (Some t) err k l))" "al_operation_id (snd (action_submitted sdk (Some t) err k l)) = k"
    "al_ambiguous l \<Longrightarrow> al_ambiguous (snd (action_submitted sdk (Some t) err k l))"
    unfolding s using replay by (simp_all add: kept_fields)
qed

lemma submitted_mark:
  assumes "action_exact (Some t) l" "al_dispatching l" "\<not> al_submitted l"
    "unat (al_revision l) + length (al_early l) < 4294967295" "unat n + length (al_early l) < 4294967295"
  shows "\<exists>m. snd (action_submitted sdk (Some t) err k (mark a n l)) = mark a m (snd (action_submitted sdk (Some t) err k l)) \<and>
    unat m \<le> unat n + length (al_early l)"
proof -
  let ?l = "l\<lparr>al_dispatching := False, al_submitted := True, al_submit_error := err, al_operation_id := k\<rparr>"
  obtain m where m: "action_replay sdk k (al_early l) (mark a n ?l) = mark a m (action_replay sdk k (al_early l) ?l)"
    "unat m \<le> unat n + length (al_early l)"
    using replay_mark [of ?l "al_early l" n sdk k a] assms(4,5) by auto
  have "(mark a n l)\<lparr>al_dispatching := False, al_submitted := True, al_submit_error := err, al_operation_id := k\<rparr> = mark a n ?l"
    by (simp add: mark_def)
  then have "submitted_lane sdk err k (mark a n l) = mark a m (submitted_lane sdk err k l)"
    by (simp add: submitted_lane_def m(1)) (simp add: mark_def)
  then show ?thesis using assms(1-3) m(2) by (auto simp: submitted_unfold)
qed

lemma submitted_ambiguous:
  assumes "listening kind cx interface channel l" "al_ambiguous l"
  shows "listening kind cx interface channel (snd (action_submitted sdk (Some t) err k l)) \<and> al_ambiguous (snd (action_submitted sdk (Some t) err k l))"
proof (cases "action_exact (Some t) l \<and> al_dispatching l \<and> \<not> al_submitted l")
  case True
  then show ?thesis using submitted_listening [OF assms(1), of t sdk err k] assms(2) by simp
next
  case False
  then show ?thesis using assms by (auto simp: submitted_unfold)
qed

text \<open>Ambiguity stays, and more early events than the lane can keep cause it.\<close>

lemma deliver_ambiguous:
  assumes "listening kind cx interface channel l" "al_ambiguous l"
  shows "listening kind cx interface channel (action_deliver sdk kind cx interface channel es l) \<and>
    al_ambiguous (action_deliver sdk kind cx interface channel es l)"
  using assms
proof (induction es arbitrary: l)
  case (Cons e es)
  have "al_ambiguous (snd (action_observe sdk kind cx interface channel (fst e) (snd e) l))"
    unfolding observe_listening [OF Cons.prems(1)] using Cons.prems(2) by (simp add: record_fields)
  then show ?case unfolding deliver_step by (rule Cons.IH [OF listening_observe(1) [OF Cons.prems(1)]])
qed (simp add: deliver_step)

lemma deliver_overflow:
  assumes "listening kind cx interface channel l" "\<not> al_submitted l" "al_early l = early_of kept"
    "\<forall>e \<in> set (kept @ es). snd e \<le> action_limit sdk kind" "action_limit sdk kind < 256" "distinct kept"
    "length kept \<le> ACTION_EARLY_EVENTS" "ACTION_EARLY_EVENTS < card (set (kept @ es))"
  shows "listening kind cx interface channel (action_deliver sdk kind cx interface channel es l) \<and>
    al_ambiguous (action_deliver sdk kind cx interface channel es l)"
  using assms
proof (induction es arbitrary: l kept)
  case Nil
  then show ?case by (simp add: distinct_card)
next
  case (Cons e es)
  have small: "\<forall>x \<in> set kept. snd x < 256" "snd e < 256" using Cons.prems(4,5) by (auto intro: le_less_trans)
  have inside: "\<not> out_of_range sdk kind e" using Cons.prems(4) by (simp add: not_less)
  have known: "list_ex (\<lambda>x. ae_operation_id x = fst e \<and> ucast (ae_status x) = snd e) (al_early l) \<longleftrightarrow> e \<in> set kept"
    unfolding Cons.prems(3) by (rule early_known [OF small])
  note observe = observe_listening [OF Cons.prems(1), of sdk e, unfolded known]
  note later = listening_observe(1) [OF Cons.prems(1), of sdk "fst e" "snd e"]
  consider "e \<in> set kept" | "e \<notin> set kept" "length kept = ACTION_EARLY_EVENTS" | "e \<notin> set kept" "length kept < ACTION_EARLY_EVENTS"
    using Cons.prems(7) by linarith
  then show ?case
  proof cases
    case 1
    then have "set (kept @ e # es) = set (kept @ es)" by auto
    then show ?thesis using Cons.IH [of l kept] Cons.prems 1 observe inside by (simp add: deliver_step)
  next
    case 2
    then have "al_ambiguous (snd (action_observe sdk kind cx interface channel (fst e) (snd e) l))"
      unfolding observe using inside Cons.prems(2,3) by (simp add: early_of_def)
    then show ?thesis using deliver_ambiguous [OF later] by (simp add: deliver_step)
  next
    case 3
    let ?l = "l\<lparr>al_early := al_early l @ [\<lparr>ae_operation_id = fst e, ae_status = ucast (snd e)\<rparr>]\<rparr>"
    have "snd (action_observe sdk kind cx interface channel (fst e) (snd e) l) = ?l"
      unfolding observe using 3 inside Cons.prems(2,3) by (simp add: early_of_def)
    moreover have "listening kind cx interface channel (action_deliver sdk kind cx interface channel es ?l) \<and>
        al_ambiguous (action_deliver sdk kind cx interface channel es ?l)"
      by (rule Cons.IH [of _ "kept @ [e]"]) (use Cons.prems 3 in \<open>simp_all add: kept_fields early_of_def\<close>)
    ultimately show ?thesis by (simp add: deliver_step)
  qed
qed

text \<open>The two cases of the property: the early events are all kept, or some are lost.\<close>

lemma early_kept:
  assumes d: "dispatched kind cx interface channel t l"
    and range: "action_limit sdk kind < 255" and short: "length early + length late < 4294967295"
    and few: "card {e \<in> set early. snd e \<le> action_limit sdk kind} \<le> ACTION_EARLY_EVENTS"
  shows "\<exists>lane p. action_deliver sdk kind cx interface channel late
        (snd (action_submitted sdk (Some t) err k (action_deliver sdk kind cx interface channel early l))) =
      mark ((\<exists>e \<in> set early. out_of_range sdk kind e) \<or> (\<exists>e \<in> set late. fst e = k \<and> out_of_range sdk kind e)) p lane \<and>
    action_outcome lane = action_outcome (action_deliver sdk kind cx interface channel
      (filter (\<lambda>e. \<not> out_of_range sdk kind e) (early @ late)) (snd (action_submitted sdk (Some t) err k l)))"
proof -
  let ?E = "filter (\<lambda>e. \<not> out_of_range sdk kind e) early" and ?L = "filter (\<lambda>e. \<not> out_of_range sdk kind e) late"
  let ?deliver = "action_deliver sdk kind cx interface channel" and ?submit = "\<lambda>l. snd (action_submitted sdk (Some t) err k l)"
  let ?odd = "\<exists>e \<in> set early. out_of_range sdk kind e" and ?l = "l\<lparr>al_early := early_of (firsts {} ?E)\<rparr>"
  have l: "listening kind cx interface channel l" "al_dispatching l" "\<not> al_submitted l" "action_exact (Some t) l" "al_revision l = 0"
    using d by (simp_all add: dispatched_def listening_def)
  have parts: "length (filter (out_of_range sdk kind) early) + length ?E = length early" by (rule sum_length_filter_compl)
  have range': "action_limit sdk kind < 256" using range by (rule less_trans) simp
  have inside: "\<forall>e \<in> set (?E @ ?L). snd e \<le> action_limit sdk kind" by (auto simp: not_less)
  have E: "card (set ?E) \<le> ACTION_EARLY_EVENTS" using few by (simp add: not_less)
  obtain n where n: "?deliver early (mark False 0 l) = mark ?odd n (?deliver ?E l)" "unat n \<le> length (filter (out_of_range sdk kind) early)"
    using deliver_mark [OF l(1), of early 0 sdk False] short l(3,5) by auto
  have kept: "?deliver ?E l = ?l"
    using deliver_early [of kind cx interface channel l "[]" ?E sdk] d inside range' E by (simp add: dispatched_def early_of_def)
  have lane: "listening kind cx interface channel ?l" "action_exact (Some t) ?l" "al_dispatching ?l" "\<not> al_submitted ?l" "al_revision ?l = 0"
    using l by (simp_all add: kept_fields) (auto simp: action_exact_def)
  have count: "length (al_early ?l) \<le> length ?E" using length_firsts [of "{}" ?E] by (simp add: early_of_def)
  then have sizes: "unat n + length (al_early ?l) \<le> length early" "length (al_early ?l) \<le> length early" using n(2) parts by linarith+
  obtain m where m: "?submit (mark ?odd n ?l) = mark ?odd m (?submit ?l)" "unat m \<le> length early"
    using submitted_mark [OF lane(2-4), of n sdk err k ?odd] sizes short lane(5) by force
  note submitted = submitted_listening [OF lane(1-4), of sdk err k]
  have revision: "unat (al_revision (?submit ?l)) \<le> length early" using submitted(2) lane(5) sizes by simp
  obtain p where "?deliver late (mark ?odd m (?submit ?l)) =
      mark (?odd \<or> (\<exists>e \<in> set late. fst e = k \<and> out_of_range sdk kind e)) p (?deliver ?L (?submit ?l))"
    using deliver_mark [OF submitted(1), of late m sdk ?odd] revision m(2) short submitted(3,4) by auto
  then have "?deliver late (?submit (?deliver early l)) =
      mark (?odd \<or> (\<exists>e \<in> set late. fst e = k \<and> out_of_range sdk kind e)) p (?deliver ?L (?submit ?l))"
    using n(1) mark_same [of l] l(5) by (simp add: kept m(1))
  moreover have "length ?E + length ?L \<le> length early + length late" by (intro add_mono length_filter_le)
  then have "length ?E + length ?L < 2 ^ 32 - 1" by (rule le_less_trans) (use short in simp)
  from early_in_range [OF d inside range E this, of err k]
  have "action_outcome (?deliver ?L (?submit ?l)) = action_outcome (?deliver (?E @ ?L) (?submit l))" by (simp only: kept)
  ultimately show ?thesis by (simp only: filter_append) blast
qed

lemma all_after:
  assumes "dispatched kind cx interface channel t l" "length es < 4294967295"
  shows "\<exists>q. action_deliver sdk kind cx interface channel es (snd (action_submitted sdk (Some t) err k l)) =
    mark (\<exists>e \<in> set es. fst e = k \<and> out_of_range sdk kind e) q (action_deliver sdk kind cx interface channel
      (filter (\<lambda>e. \<not> out_of_range sdk kind e) es) (snd (action_submitted sdk (Some t) err k l)))"
proof -
  let ?s = "snd (action_submitted sdk (Some t) err k l)"
  have l: "listening kind cx interface channel l" "action_exact (Some t) l" "al_dispatching l" "\<not> al_submitted l" "al_early l = []" "al_revision l = 0"
    using assms(1) by (simp_all add: dispatched_def listening_def)
  note s = submitted_listening [OF l(1-4), of sdk err k]
  have "al_revision ?s = 0" using s(2) l(5,6) by (simp add: unat_eq_0)
  then show ?thesis using deliver_mark [OF s(1), of es 0 sdk False] mark_same [of ?s] assms(2) s(3,4) by auto
qed

lemma early_lost:
  assumes d: "dispatched kind cx interface channel t l"
    and range: "action_limit sdk kind < 255" and short: "length early + length late < 4294967295"
    and many: "\<not> card {e \<in> set early. snd e \<le> action_limit sdk kind} \<le> ACTION_EARLY_EVENTS"
  shows "al_ambiguous (action_deliver sdk kind cx interface channel late
    (snd (action_submitted sdk (Some t) err k (action_deliver sdk kind cx interface channel early l))))"
proof -
  let ?E = "filter (\<lambda>e. \<not> out_of_range sdk kind e) early"
  have l: "listening kind cx interface channel l" "\<not> al_submitted l" "al_early l = early_of []" "al_revision l = 0"
    using d by (simp_all add: dispatched_def listening_def early_of_def)
  have E: "ACTION_EARLY_EVENTS < card (set ([] @ ?E))" using many by (simp add: not_less)
  have range': "action_limit sdk kind < 256" using range by (rule less_trans) simp
  have lost: "listening kind cx interface channel (action_deliver sdk kind cx interface channel ?E l) \<and>
      al_ambiguous (action_deliver sdk kind cx interface channel ?E l)"
    by (rule deliver_overflow [OF l(1-3) _ range' _ _ E]) (auto simp: not_less)
  obtain n where "action_deliver sdk kind cx interface channel early (mark False 0 l) =
      mark (\<exists>e \<in> set early. out_of_range sdk kind e) n (action_deliver sdk kind cx interface channel ?E l)"
    using deliver_mark [OF l(1), of early 0 sdk False] short l(2,4) by auto
  then have "listening kind cx interface channel (action_deliver sdk kind cx interface channel early l)"
      "al_ambiguous (action_deliver sdk kind cx interface channel early l)"
    using lost mark_same [of l] l(4) by (simp_all add: kept_fields)
  then show ?thesis using submitted_ambiguous deliver_ambiguous by blast
qed

text \<open>
  C17: it does not matter which of its events come before the call that starts an operation returns
  with its number.  Compare a run where the events \<open>early\<close> come before the return with one
  where they come after it.  If at most four different events of \<open>early\<close> have a status in the
  SDK's range, both runs record the same two statuses and the same end, and the first is
  ambiguous exactly if the second is or an event of another operation in \<open>early\<close> has a status
  outside the range: the lane cannot tell yet that it is not its own, while afterwards it
  ignores it.  If there are more than four, one is lost, and the first run is ambiguous.  Statuses
  are arbitrary; assumed are that the SDK's own range ends below 255, the byte that stands for no
  status, and that there are less than 2^32 - 1 events, so that the revision does not stop.
\<close>

theorem wifi_action_early_events:
  assumes reserved: "action_reserve sdk generation kind cx interface channel (Some action_no_token) l0 = (ESP_OK, Some t, l1)"
    and begun: "action_begin_submit (Some t) l1 = (True, l)"
    and range: "action_limit sdk kind < 255"
    and short: "length early + length late < 2 ^ 32 - 1"
    and some_early: "early_lane = action_deliver sdk kind cx interface channel late
      (snd (action_submitted sdk (Some t) err k (action_deliver sdk kind cx interface channel early l)))"
    and all_late: "all_after_lane = action_deliver sdk kind cx interface channel (early @ late) (snd (action_submitted sdk (Some t) err k l))"
  shows "if card {e \<in> set early. snd e \<le> action_limit sdk kind} \<le> ACTION_EARLY_EVENTS
    then al_tx_status early_lane = al_tx_status all_after_lane \<and> al_terminal_status early_lane = al_terminal_status all_after_lane \<and> al_terminal early_lane = al_terminal all_after_lane \<and>
      al_ambiguous early_lane = (al_ambiguous all_after_lane \<or> (\<exists>e \<in> set early. fst e \<noteq> k \<and> action_limit sdk kind < snd e))
    else al_ambiguous early_lane"
proof -
  have d: "dispatched kind cx interface channel t l" by (rule begun_dispatched [OF reserved begun])
  have length: "length early + length late < 4294967295" "length (early @ late) < 4294967295" using short by simp_all
  obtain q where right: "all_after_lane = mark (\<exists>e \<in> set (early @ late). fst e = k \<and> out_of_range sdk kind e) q (action_deliver sdk kind cx interface channel
      (filter (\<lambda>e. \<not> out_of_range sdk kind e) (early @ late)) (snd (action_submitted sdk (Some t) err k l)))"
    using all_after [OF d length(2)] unfolding all_late by blast
  show ?thesis
  proof (cases "card {e \<in> set early. snd e \<le> action_limit sdk kind} \<le> ACTION_EARLY_EVENTS")
    case True
    from early_kept [OF d range length(1) True, of err k] obtain lane p where
      "early_lane = mark ((\<exists>e \<in> set early. out_of_range sdk kind e) \<or> (\<exists>e \<in> set late. fst e = k \<and> out_of_range sdk kind e)) p lane"
      "action_outcome lane = action_outcome (action_deliver sdk kind cx interface channel
        (filter (\<lambda>e. \<not> out_of_range sdk kind e) (early @ late)) (snd (action_submitted sdk (Some t) err k l)))"
      unfolding some_early [symmetric] by blast
    moreover have "(\<exists>e \<in> set early. out_of_range sdk kind e) \<or> (\<exists>e \<in> set late. fst e = k \<and> out_of_range sdk kind e) \<longleftrightarrow>
        (\<exists>e \<in> set (early @ late). fst e = k \<and> out_of_range sdk kind e) \<or> (\<exists>e \<in> set early. fst e \<noteq> k \<and> out_of_range sdk kind e)"
      unfolding set_append by blast
    ultimately show ?thesis using True right by (simp add: action_outcome_def del: filter_append bex_simps)
  next
    case False
    then show ?thesis using early_lost [OF d range length(1) False] by (simp add: some_early)
  qed
qed

lemma wifi_action_early_events_witness:
  "al_tx_status (action_deliver example_sdk 1 7 0 6 [(9, 4)]
      (snd (action_submitted example_sdk (Some example_action) ESP_OK 9 (action_deliver example_sdk 1 7 0 6 [(9, 1), (8, 3), (9, 1), (8, 200)]
        (snd (action_begin_submit (Some example_action) (snd (snd (action_reserve example_sdk 5 1 7 0 6 (Some action_no_token) action_initial)))))))))
    = 1 \<and>
   al_ambiguous (action_deliver example_sdk 1 7 0 6 [(9, 4)]
      (snd (action_submitted example_sdk (Some example_action) ESP_OK 9 (action_deliver example_sdk 1 7 0 6 [(9, 1), (8, 3), (9, 1), (8, 200)]
        (snd (action_begin_submit (Some example_action) (snd (snd (action_reserve example_sdk 5 1 7 0 6 (Some action_no_token) action_initial)))))))))"
proof -
  let ?l1 = "snd (snd (action_reserve example_sdk 5 1 7 0 6 (Some action_no_token) action_initial))"
  let ?early = "[(9, 1), (8, 3), (9, 1), (8, 200)] :: (u8 \<times> u32) list" and ?late = "[(9, 4)] :: (u8 \<times> u32) list"
  let ?none = "action_deliver example_sdk 1 7 0 6 (?early @ ?late)
    (snd (action_submitted example_sdk (Some example_action) ESP_OK 9 (snd (action_begin_submit (Some example_action) ?l1))))"
  have "fst (action_reserve example_sdk 5 1 7 0 6 (Some action_no_token) action_initial) = ESP_OK"
    "fst (snd (action_reserve example_sdk 5 1 7 0 6 (Some action_no_token) action_initial)) = Some example_action" by code_simp+
  then have reserved: "action_reserve example_sdk 5 1 7 0 6 (Some action_no_token) action_initial = (ESP_OK, Some example_action, ?l1)"
    by (simp only: prod_eq_iff fst_conv snd_conv)
  have "fst (action_begin_submit (Some example_action) ?l1)" by code_simp
  then have begun: "action_begin_submit (Some example_action) ?l1 = (True, snd (action_begin_submit (Some example_action) ?l1))"
    by (simp only: prod_eq_iff fst_conv snd_conv)
  have range: "action_limit example_sdk 1 < 255" by code_simp
  have short: "length ?early + length ?late < 2 ^ 32 - 1" by simp
  have "{e \<in> set ?early. snd e \<le> action_limit example_sdk 1} \<subseteq> {(9, 1), (8, 3), (8, 200)}" by auto
  then have "card {e \<in> set ?early. snd e \<le> action_limit example_sdk 1} \<le> card {(9 :: u8, 1 :: u32), (8, 3), (8, 200)}"
    by (intro card_mono) simp_all
  also have "\<dots> \<le> ACTION_EARLY_EVENTS" by (simp add: ACTION_EARLY_EVENTS_def)
  finally have few: "card {e \<in> set ?early. snd e \<le> action_limit example_sdk 1} \<le> ACTION_EARLY_EVENTS" .
  note same = wifi_action_early_events [OF reserved begun range short refl refl, of ESP_OK 9, unfolded if_P [OF few]]
  have none: "al_tx_status ?none = 1" by code_simp
  have "action_limit example_sdk 1 < 200" by code_simp
  then have odd: "\<exists>e \<in> set ?early. fst e \<noteq> 9 \<and> action_limit example_sdk 1 < snd e" by simp
  show ?thesis using conjunct1 [OF same] conjunct2 [OF conjunct2 [OF conjunct2 [OF same]]] none odd by (simp only: simp_thms)
qed

end
