(* ===== verification/Wifi_Monitor.thy ===== *)
theory Wifi_Monitor
  imports Native_Lease Wifi_Rx_Filter
begin

text \<open>
  \<open>modules/wifi_monitor/esp32_mquickjs_wifi_monitor_resources.c\<close>: the store of captured packets.
  The receive task copies a packet into a slot and offers its token to an event queue; the runtime
  task takes the token, reads the frame, keeps references to its bytes and closes it.  The slots
  and the payload are blocks of memory that \<open>init\<close> allocates and \<open>deinit\<close> frees, maps from
  addresses here; an access to a block that is not there, or outside of it, is \<open>None\<close>.  A slot is
  guarded by a lease on a pool, which only ever run inside this component's critical sections.
\<close>

section \<open>State\<close>

definition MAX_SNAP_LENGTH :: u32 where "MAX_SNAP_LENGTH = 16384"
definition FILTER_COUNTERS :: u32 where "FILTER_COUNTERS = 11"

text \<open>The driver's view of a packet; of the metadata, what the filter reads and the length.\<close>

record monitor_view = rx_view +
  vw_bytes :: "bytes option"
  vw_readable_length :: u16
  vw_driver_length :: u16

record monitor_event =
  me_generation :: u32
  me_identity :: u32
  me_index :: u16

record monitor_info =
  mi_driver :: rx_metadata
  mi_driver_length :: u16
  mi_header :: rx_header
  mi_callback_time_us :: u64
  mi_readable_length :: u16
  mi_captured_length :: u16
  mi_metadata_only :: bool
  mi_truncated :: bool
  mi_header_type_matches :: bool

datatype monitor_owner = FRAME_FREE | FRAME_WRITING | FRAME_EVENT | FRAME_PUBLIC | FRAME_CLOSED

record monitor_slot =
  ms_lease :: native_lease
  ms_info :: monitor_info
  ms_owner :: monitor_owner

datatype monitor_counter = COUNT_CALLBACKS | COUNT_ACCEPTED | COUNT_DROPPED_CLOSING | COUNT_DROPPED_POOL_FULL
  | COUNT_DROPPED_QUEUE_FULL | COUNT_INVALID_CALLBACK_DATA | COUNT_DROPPED_REQUIRED_COMPLETE | COUNT_TRUNCATED_FRAMES
  | COUNT_RECEIVED_BYTES | COUNT_CAPTURED_BYTES | COUNT_DROPPED_IDENTITY_EXHAUSTED | COUNT_FILTERED u32

record monitor =
  mn_lock_initialized :: bool
  mn_initialized :: bool
  mn_accepting :: bool
  mn_require_complete :: bool
  mn_generation :: u32
  mn_next_identity :: u32
  mn_capacity :: u16
  mn_snap_length :: u16
  mn_pool :: native_pool
  mn_slots :: "nat option"
  mn_payload :: "nat option"
  mn_counters :: "monitor_counter \<Rightarrow> u64"
  mn_leased_frames :: u32
  mn_publishers :: u32

record monitor_memory =
  mm_slots :: "nat \<Rightarrow> monitor_slot list option"
  mm_payload :: "nat \<Rightarrow> bytes option"

datatype publish_result = PUBLISH_ACCEPTED | PUBLISH_FILTERED | PUBLISH_CLOSING | PUBLISH_INVALID | PUBLISH_REQUIRED_COMPLETE
  | PUBLISH_POOL_FULL | PUBLISH_QUEUE_FULL | PUBLISH_IDENTITY_EXHAUSTED

text \<open>What \<open>calloc\<close> leaves in a slot, and the control object before its first use.\<close>

definition zero_slot :: monitor_slot where
  "zero_slot = \<lparr>ms_lease = \<lparr>lease_generation = 0, lease_slot = 0, retain_count = 0, close_requested = False, returned = False\<rparr>,
     ms_info = \<lparr>mi_driver = \<lparr>md_type = MANAGEMENT, md_available = False, md_rssi = 0, md_rx_state = 0\<rparr>, mi_driver_length = 0,
       mi_header = \<lparr>rx_status = PARSED, rx_type = MANAGEMENT, rx_version = 0, rx_subtype = 0, rx_address_mask = 0,
         rx_addresses = replicate ADDRESS_COUNT (replicate 6 0), frame_control_valid = False, duration_valid = False,
         sequence_valid = False, qos_valid = False, ht_valid = False, frame_control = 0, duration_id = 0,
         sequence_control = 0, qos_control = 0, ht_control = 0, header_length = 0\<rparr>,
       mi_callback_time_us = 0, mi_readable_length = 0, mi_captured_length = 0, mi_metadata_only = False,
       mi_truncated = False, mi_header_type_matches = False\<rparr>,
     ms_owner = FRAME_FREE\<rparr>"

definition monitor_initial :: monitor where
  "monitor_initial = \<lparr>mn_lock_initialized = False, mn_initialized = False, mn_accepting = False, mn_require_complete = False,
     mn_generation = 0, mn_next_identity = 0, mn_capacity = 0, mn_snap_length = 0,
     mn_pool = \<lparr>free_bits = replicate NATIVE_POOL_WORD_COUNT 0, pool_capacity = 0\<rparr>, mn_slots = None, mn_payload = None,
     mn_counters = (\<lambda>c. 0), mn_leased_frames = 0, mn_publishers = 0\<rparr>"

definition slot_read :: "nat option \<Rightarrow> nat \<Rightarrow> monitor_memory \<Rightarrow> monitor_slot option" where
  "slot_read p i mem = (case Option.bind p (mm_slots mem) of
      None \<Rightarrow> None | Some xs \<Rightarrow> if i < length xs then Some (xs ! i) else None)"

definition slot_write :: "nat option \<Rightarrow> nat \<Rightarrow> monitor_slot \<Rightarrow> monitor_memory \<Rightarrow> monitor_memory option" where
  "slot_write p i slot mem = (case Option.bind p (mm_slots mem) of
      None \<Rightarrow> None
    | Some xs \<Rightarrow> if i < length xs then Some (mem\<lparr>mm_slots := (mm_slots mem)(the p \<mapsto> xs[i := slot])\<rparr>) else None)"

section \<open>Control\<close>

definition monitor_reset_counters :: "monitor \<Rightarrow> monitor" where
  "monitor_reset_counters m = (if \<not> mn_lock_initialized m then m else m\<lparr>mn_counters := (\<lambda>c. 0)\<rparr>)"

definition monitor_add :: "monitor_counter \<Rightarrow> u64 \<Rightarrow> monitor \<Rightarrow> monitor" where
  "monitor_add c amount m =
     m\<lparr>mn_counters := (mn_counters m)(c := if - 1 - mn_counters m c < amount then - 1 else mn_counters m c + amount)\<rparr>"

text \<open>The size of a slot, which the compiler chooses, is an argument.\<close>

definition monitor_size :: "u32 \<Rightarrow> u32 \<Rightarrow> u32 \<Rightarrow> bool \<times> u32" where
  "monitor_size slot_size capacity snap_length =
     (if capacity = 0 \<or> NATIVE_POOL_MAX_CAPACITY < capacity \<or> snap_length = 0 \<or> MAX_SNAP_LENGTH < snap_length \<or>
         - 1 div capacity < slot_size \<or> - 1 div capacity < snap_length then (False, 0)
      else let slots = capacity * slot_size; payload = capacity * snap_length
        in if - 1 - payload < slots then (False, 0) else (True, slots + payload))"

text \<open>\<open>init\<close> looks, allocates outside of the critical section, and looks again.\<close>

definition monitor_init_begin :: "u32 \<Rightarrow> u32 \<Rightarrow> u32 \<Rightarrow> u32 \<Rightarrow> monitor \<Rightarrow> bool \<times> monitor" where
  "monitor_init_begin slot_size generation capacity snap_length m =
     (if generation = 0 \<or> \<not> fst (monitor_size slot_size capacity snap_length) then (False, m)
      else let m = m\<lparr>mn_lock_initialized := True\<rparr> in (\<not> mn_initialized m \<and> mn_generation m < generation, m))"

definition monitor_install :: "u32 \<Rightarrow> u32 \<Rightarrow> u32 \<Rightarrow> bool \<Rightarrow> nat \<Rightarrow> nat \<Rightarrow> monitor \<Rightarrow> bool \<times> monitor" where
  "monitor_install generation capacity snap_length require_complete slots payload m =
     (if \<not> (\<not> mn_initialized m \<and> mn_generation m < generation) then (False, m)
      else case native_pool_init capacity of
          None \<Rightarrow> (False, m)
        | Some pool \<Rightarrow>
            (True, m\<lparr>mn_pool := pool, mn_slots := Some slots, mn_payload := Some payload, mn_generation := generation,
               mn_next_identity := 1, mn_capacity := ucast capacity, mn_snap_length := ucast snap_length,
               mn_require_complete := require_complete, mn_accepting := False, mn_counters := (\<lambda>c. 0),
               mn_leased_frames := 0, mn_publishers := 0, mn_initialized := True\<rparr>))"

definition monitor_set_accepting :: "bool \<Rightarrow> monitor \<Rightarrow> bool \<times> monitor" where
  "monitor_set_accepting accepting m =
     (if \<not> mn_lock_initialized m then (False, m)
      else if mn_initialized m \<and> (\<not> accepting \<or> mn_next_identity m \<noteq> 0) then (True, m\<lparr>mn_accepting := accepting\<rparr>)
      else (False, m))"

text \<open>The blocks that \<open>deinit\<close> goes on to free, when it is ready.\<close>

definition monitor_deinit :: "monitor \<Rightarrow> (nat option \<times> nat option) option \<times> monitor" where
  "monitor_deinit m =
     (if \<not> mn_lock_initialized m then (None, m)
      else if mn_initialized m \<and> \<not> mn_accepting m \<and> mn_publishers m = 0 \<and> mn_leased_frames m = 0
      then (Some (mn_slots m, mn_payload m),
            m\<lparr>mn_slots := None, mn_payload := None, mn_initialized := False, mn_capacity := 0, mn_snap_length := 0\<rparr>)
      else (None, m))"

record monitor_snapshot =
  mo_initialized :: bool
  mo_accepting :: bool
  mo_identity_exhausted :: bool
  mo_generation :: u32
  mo_free_slots :: u32
  mo_allocated_bytes :: u32
  mo_counters :: "monitor_counter \<Rightarrow> u64"
  mo_leased_frames :: u32
  mo_publishers :: u32

definition monitor_snapshot_of :: "u32 \<Rightarrow> monitor \<Rightarrow> monitor_snapshot" where
  "monitor_snapshot_of slot_size m =
     (if \<not> mn_lock_initialized m
      then \<lparr>mo_initialized = False, mo_accepting = False, mo_identity_exhausted = False, mo_generation = 0, mo_free_slots = 0,
        mo_allocated_bytes = 0, mo_counters = (\<lambda>c. 0), mo_leased_frames = 0, mo_publishers = 0\<rparr>
      else \<lparr>mo_initialized = mn_initialized m, mo_accepting = mn_accepting m,
        mo_identity_exhausted = (mn_generation m \<noteq> 0 \<and> mn_next_identity m = 0), mo_generation = mn_generation m,
        mo_free_slots = (if mn_initialized m then of_nat (native_pool_available (mn_pool m)) else 0),
        mo_allocated_bytes =
          (if mn_initialized m then snd (monitor_size slot_size (ucast (mn_capacity m)) (ucast (mn_snap_length m))) else 0),
        mo_counters = mn_counters m, mo_leased_frames = mn_leased_frames m, mo_publishers = mn_publishers m\<rparr>)"

section \<open>Frames\<close>

text \<open>
  The slot a token names, read inside a critical section: \<open>None\<close> inside is the null pointer for a
  token that names nothing any more.
\<close>

definition monitor_slot_locked :: "monitor_event \<Rightarrow> monitor \<Rightarrow> monitor_memory \<Rightarrow> monitor_slot option option" where
  "monitor_slot_locked event m mem =
     (if \<not> mn_initialized m \<or> me_generation event \<noteq> mn_generation m \<or> mn_capacity m \<le> me_index event then Some None
      else case slot_read (mn_slots m) (unat (me_index event)) mem of
          None \<Rightarrow> None
        | Some slot \<Rightarrow>
            Some (if ms_owner slot = FRAME_FREE \<or> native_lease_is_stale (ms_lease slot) (me_identity event) then None
                  else Some slot))"

definition monitor_account_return :: "monitor_slot \<Rightarrow> monitor \<Rightarrow> monitor_slot \<times> monitor" where
  "monitor_account_return slot m =
     (if ms_owner slot \<noteq> FRAME_FREE \<and> returned (ms_lease slot)
      then (slot\<lparr>ms_owner := FRAME_FREE\<rparr>, m\<lparr>mn_leased_frames := mn_leased_frames m - 1\<rparr>)
      else (slot, m))"

definition monitor_close_locked :: "monitor_slot \<Rightarrow> monitor \<Rightarrow> bool \<times> monitor_slot \<times> monitor" where
  "monitor_close_locked slot m =
     (case native_lease_request_close (lease_generation (ms_lease slot)) (ms_lease slot, mn_pool m) of
        (result, lease, pool) \<Rightarrow>
          (result, monitor_account_return (slot\<lparr>ms_owner := FRAME_CLOSED, ms_lease := lease\<rparr>) (m\<lparr>mn_pool := pool\<rparr>)))"

definition monitor_change_owner ::
  "monitor_event \<Rightarrow> monitor_owner \<Rightarrow> bool \<Rightarrow> monitor \<Rightarrow> monitor_memory \<Rightarrow> (bool \<times> monitor \<times> monitor_memory) option" where
  "monitor_change_owner event expected taking m mem =
     (if \<not> mn_lock_initialized m then Some (False, m, mem)
      else case monitor_slot_locked event m mem of
          None \<Rightarrow> None
        | Some None \<Rightarrow> Some (False, m, mem)
        | Some (Some slot) \<Rightarrow>
            if ms_owner slot \<noteq> expected then Some (False, m, mem)
            else case (if taking then (True, slot\<lparr>ms_owner := FRAME_PUBLIC\<rparr>, m) else monitor_close_locked slot m) of
                (valid, slot, m) \<Rightarrow>
                  map_option (\<lambda>mem. (valid, m, mem)) (slot_write (mn_slots m) (unat (me_index event)) slot mem))"

definition monitor_take_event :: "monitor_event \<Rightarrow> monitor \<Rightarrow> monitor_memory \<Rightarrow> (bool \<times> monitor \<times> monitor_memory) option" where
  "monitor_take_event event = monitor_change_owner event FRAME_EVENT True"

definition monitor_discard_event :: "monitor_event \<Rightarrow> monitor \<Rightarrow> monitor_memory \<Rightarrow> (bool \<times> monitor \<times> monitor_memory) option" where
  "monitor_discard_event event = monitor_change_owner event FRAME_EVENT False"

definition monitor_close_frame :: "monitor_event \<Rightarrow> monitor \<Rightarrow> monitor_memory \<Rightarrow> (bool \<times> monitor \<times> monitor_memory) option" where
  "monitor_close_frame event = monitor_change_owner event FRAME_PUBLIC False"

definition monitor_frame_info :: "monitor_event \<Rightarrow> monitor \<Rightarrow> monitor_memory \<Rightarrow> monitor_info option option" where
  "monitor_frame_info event m mem =
     (if \<not> mn_lock_initialized m then Some None
      else case monitor_slot_locked event m mem of
          None \<Rightarrow> None
        | Some None \<Rightarrow> Some None
        | Some (Some slot) \<Rightarrow> Some (if ms_owner slot = FRAME_PUBLIC then Some (ms_info slot) else None))"

text \<open>A reference is the token it was made from, or \<open>None\<close> when it is zero.\<close>

definition monitor_retain_frame ::
  "monitor_event \<Rightarrow> monitor_event option \<Rightarrow> monitor \<Rightarrow> monitor_memory \<Rightarrow>
    (bool \<times> monitor_event option \<times> monitor_memory) option" where
  "monitor_retain_frame event out m mem =
     (if \<not> mn_lock_initialized m \<or> out \<noteq> None then Some (False, out, mem)
      else case monitor_slot_locked event m mem of
          None \<Rightarrow> None
        | Some None \<Rightarrow> Some (False, out, mem)
        | Some (Some slot) \<Rightarrow>
            if ms_owner slot \<noteq> FRAME_PUBLIC then Some (False, out, mem)
            else case native_lease_retain (me_identity event) (ms_lease slot) of
                (retained, lease) \<Rightarrow>
                  map_option (\<lambda>mem. (retained, if retained then Some event else out, mem))
                    (slot_write (mn_slots m) (unat (me_index event)) (slot\<lparr>ms_lease := lease\<rparr>) mem))"

text \<open>The bytes of a reference: a block, an offset in it and a length.\<close>

definition monitor_ref_data ::
  "monitor_event option \<Rightarrow> monitor \<Rightarrow> monitor_memory \<Rightarrow> (nat option \<times> nat \<times> nat) option option" where
  "monitor_ref_data ref m mem =
     (case ref of
        None \<Rightarrow> Some None
      | Some event \<Rightarrow>
          (case monitor_slot_locked event m mem of
             None \<Rightarrow> None
           | Some None \<Rightarrow> Some None
           | Some (Some slot) \<Rightarrow>
               Some (if ms_owner slot = FRAME_PUBLIC \<or> ms_owner slot = FRAME_CLOSED
                     then Some (mn_payload m, unat (me_index event) * unat (mn_snap_length m), unat (mi_captured_length (ms_info slot)))
                     else None)))"

text \<open>The reference is zero afterwards in any case.\<close>

definition monitor_release_ref ::
  "monitor_event option \<Rightarrow> monitor \<Rightarrow> monitor_memory \<Rightarrow> (bool \<times> monitor \<times> monitor_memory) option" where
  "monitor_release_ref ref m mem =
     (case ref of
        None \<Rightarrow> Some (False, m, mem)
      | Some event \<Rightarrow>
          (case monitor_slot_locked event m mem of
             None \<Rightarrow> None
           | Some None \<Rightarrow> Some (False, m, mem)
           | Some (Some slot) \<Rightarrow>
               (case native_lease_release (me_identity event) (ms_lease slot, mn_pool m) of
                  (released, lease, pool) \<Rightarrow>
                    (case (if released then monitor_account_return (slot\<lparr>ms_lease := lease\<rparr>) (m\<lparr>mn_pool := pool\<rparr>)
                           else (slot\<lparr>ms_lease := lease\<rparr>, m\<lparr>mn_pool := pool\<rparr>)) of
                       (slot, m) \<Rightarrow>
                         map_option (\<lambda>mem. (released, m, mem)) (slot_write (mn_slots m) (unat (me_index event)) slot mem)))))"

section \<open>Publishing\<close>

text \<open>What a publisher keeps between its critical sections.\<close>

record publication =
  pb_event :: monitor_event
  pb_slots :: "nat option"
  pb_payload :: "nat option"
  pb_offset :: nat
  pb_length :: u16
  pb_view :: monitor_view
  pb_callback_time_us :: u64
  pb_metadata_only :: bool
  pb_truncated :: bool

text \<open>The first critical section: count the packet and say why it is not wanted, if it is not.\<close>

definition publish_checks :: "monitor_view option \<Rightarrow> u32 \<Rightarrow> monitor \<Rightarrow> publish_result \<times> monitor + monitor_view \<times> monitor" where
  "publish_checks pointer filter_result m =
     (let m = monitor_add COUNT_CALLBACKS 1 m in
      if \<not> mn_accepting m then Inl (PUBLISH_CLOSING, monitor_add COUNT_DROPPED_CLOSING 1 m)
      else if FILTER_COUNTERS \<le> filter_result then Inl (PUBLISH_INVALID, monitor_add COUNT_INVALID_CALLBACK_DATA 1 m)
      else if filter_result \<noteq> 0 then Inl (PUBLISH_FILTERED, monitor_add (COUNT_FILTERED filter_result) 1 m)
      else case pointer of
          None \<Rightarrow> Inl (PUBLISH_INVALID, monitor_add COUNT_INVALID_CALLBACK_DATA 1 m)
        | Some view \<Rightarrow>
            let metadata_only = vw_status view = SPAN_METADATA_ONLY in
            if \<not> md_available (vw_metadata view) \<or>
               (if metadata_only then vw_bytes view \<noteq> None \<or> vw_readable_length view \<noteq> 0
                else vw_status view \<noteq> SPAN_PACKET \<or> vw_bytes view = None \<or> vw_readable_length view = 0)
            then Inl (PUBLISH_INVALID, monitor_add COUNT_INVALID_CALLBACK_DATA 1 m)
            else let m = monitor_add COUNT_RECEIVED_BYTES (ucast (vw_readable_length view)) m in
              if mn_require_complete m \<and> (metadata_only \<or> vw_readable_length view < vw_driver_length view \<or>
                  mn_snap_length m < vw_driver_length view)
              then Inl (PUBLISH_REQUIRED_COMPLETE, monitor_add COUNT_DROPPED_REQUIRED_COMPLETE 1 m)
              else if mn_next_identity m = 0
              then Inl (PUBLISH_IDENTITY_EXHAUSTED, monitor_add COUNT_DROPPED_IDENTITY_EXHAUSTED 1 m)
              else Inr (view, m))"

text \<open>Then take a slot for it.\<close>

definition publication_of :: "monitor_view \<Rightarrow> u64 \<Rightarrow> nat \<Rightarrow> monitor \<Rightarrow> publication" where
  "publication_of view callback_time_us index m =
     (let readable = vw_readable_length view; metadata_only = vw_status view = SPAN_METADATA_ONLY;
        captured = (if readable < mn_snap_length m then readable else mn_snap_length m)
      in \<lparr>pb_event = \<lparr>me_generation = mn_generation m, me_identity = mn_next_identity m, me_index = of_nat index\<rparr>,
          pb_slots = mn_slots m, pb_payload = mn_payload m, pb_offset = index * unat (mn_snap_length m),
          pb_length = captured, pb_view = view, pb_callback_time_us = callback_time_us,
          pb_metadata_only = metadata_only, pb_truncated = (\<not> metadata_only \<and> captured < vw_driver_length view)\<rparr>)"

definition publish_reserve ::
  "monitor_view \<Rightarrow> u64 \<Rightarrow> monitor \<Rightarrow> monitor_memory \<Rightarrow> ((publish_result + publication) \<times> monitor \<times> monitor_memory) option" where
  "publish_reserve view callback_time_us m mem =
     (case native_pool_acquire (mn_pool m) of
        None \<Rightarrow> Some (Inl PUBLISH_POOL_FULL, monitor_add COUNT_DROPPED_POOL_FULL 1 m, mem)
      | Some (index, pool) \<Rightarrow>
          let identity = mn_next_identity m;
            m' = m\<lparr>mn_pool := pool, mn_next_identity := (if identity = - 1 then 0 else identity + 1)\<rparr> in
          (case native_lease_init pool (of_nat index) identity of
             None \<Rightarrow> Some (Inl PUBLISH_INVALID, monitor_add COUNT_INVALID_CALLBACK_DATA 1
                 (m'\<lparr>mn_pool := snd (native_pool_release index pool)\<rparr>), mem)
           | Some lease \<Rightarrow>
               (case slot_read (mn_slots m) index mem of
                  None \<Rightarrow> None
                | Some slot \<Rightarrow> map_option (\<lambda>mem.
                    (Inr (publication_of view callback_time_us index m),
                     m'\<lparr>mn_leased_frames := mn_leased_frames m + 1, mn_publishers := mn_publishers m + 1\<rparr>, mem))
                    (slot_write (mn_slots m) index (slot\<lparr>ms_lease := lease, ms_owner := FRAME_WRITING\<rparr>) mem))))"

definition publish_begin ::
  "monitor_view option \<Rightarrow> u32 \<Rightarrow> u64 \<Rightarrow> monitor \<Rightarrow> monitor_memory \<Rightarrow>
    ((publish_result + publication) \<times> monitor \<times> monitor_memory) option" where
  "publish_begin pointer filter_result callback_time_us m mem =
     (if \<not> mn_lock_initialized m \<or> \<not> mn_initialized m then Some (Inl PUBLISH_CLOSING, m, mem)
      else case publish_checks pointer filter_result m of
          Inl (result, m) \<Rightarrow> Some (Inl result, m, mem)
        | Inr (view, m) \<Rightarrow> publish_reserve view callback_time_us m mem)"

text \<open>\<open>memcpy\<close> outside of the critical sections, a byte at a time, and the description.\<close>

definition publish_copy :: "publication \<Rightarrow> nat \<Rightarrow> monitor_memory \<Rightarrow> monitor_memory option" where
  "publish_copy p k mem =
     (case (vw_bytes (pb_view p), Option.bind (pb_payload p) (mm_payload mem)) of
        (Some source, Some block) \<Rightarrow>
          if k < length source \<and> pb_offset p + k < length block
          then Some (mem\<lparr>mm_payload := (mm_payload mem)(the (pb_payload p) \<mapsto> block[pb_offset p + k := source ! k])\<rparr>)
          else None
      | _ \<Rightarrow> None)"

definition publication_info :: "publication \<Rightarrow> monitor_info" where
  "publication_info p =
     \<lparr>mi_driver = vw_metadata (pb_view p), mi_driver_length = vw_driver_length (pb_view p), mi_header = vw_header (pb_view p),
      mi_callback_time_us = pb_callback_time_us p, mi_readable_length = vw_readable_length (pb_view p),
      mi_captured_length = pb_length p, mi_metadata_only = pb_metadata_only p, mi_truncated = pb_truncated p,
      mi_header_type_matches = vw_header_type_matches (pb_view p)\<rparr>"

definition publish_describe :: "publication \<Rightarrow> monitor_memory \<Rightarrow> monitor_memory option" where
  "publish_describe p mem =
     (case slot_read (pb_slots p) (unat (me_index (pb_event p))) mem of
        None \<Rightarrow> None
      | Some slot \<Rightarrow> slot_write (pb_slots p) (unat (me_index (pb_event p))) (slot\<lparr>ms_info := publication_info p\<rparr>) mem)"

text \<open>The second critical section: the frame becomes an event, unless the session has stopped.\<close>

definition publish_commit :: "publication \<Rightarrow> monitor \<Rightarrow> monitor_memory \<Rightarrow> (publish_result option \<times> monitor \<times> monitor_memory) option" where
  "publish_commit p m mem =
     (case slot_read (pb_slots p) (unat (me_index (pb_event p))) mem of
        None \<Rightarrow> None
      | Some slot \<Rightarrow>
          (case (if \<not> mn_accepting m
                 then case monitor_close_locked slot m of
                     (_, slot, m) \<Rightarrow> (Some PUBLISH_CLOSING, slot,
                       monitor_add COUNT_DROPPED_CLOSING 1 (m\<lparr>mn_publishers := mn_publishers m - 1\<rparr>))
                 else (None, slot\<lparr>ms_owner := FRAME_EVENT\<rparr>, m)) of
             (result, slot, m) \<Rightarrow>
               map_option (\<lambda>mem. (result, m, mem)) (slot_write (pb_slots p) (unat (me_index (pb_event p))) slot mem)))"

text \<open>The last one, after the queue has taken the event or not.\<close>

definition publish_settle :: "publication \<Rightarrow> bool \<Rightarrow> monitor \<Rightarrow> publish_result \<times> monitor" where
  "publish_settle p published m =
     (let m = m\<lparr>mn_publishers := mn_publishers m - 1\<rparr> in
      if published then
        let m = monitor_add COUNT_CAPTURED_BYTES (ucast (pb_length p)) (monitor_add COUNT_ACCEPTED 1 m)
        in (PUBLISH_ACCEPTED, if pb_truncated p then monitor_add COUNT_TRUNCATED_FRAMES 1 m else m)
      else (PUBLISH_QUEUE_FULL, monitor_add COUNT_DROPPED_QUEUE_FULL 1 m))"

section \<open>The system\<close>

text \<open>
  Tasks publish, initialise and deinitialise; where a task stands between two critical sections is
  \<open>monitor_at\<close>.  Any task may call the other operations at any time, with any token.  A reference
  object is used by one owner at a time, as the header file demands; it has a number.
\<close>

datatype monitor_at = M_idle
  | M_allocating u32 u32 u32 bool
  | M_installing u32 u32 u32 bool nat nat
  | M_freeing "nat option" "nat option"
  | M_copying publication nat
  | M_committing publication
  | M_offering publication
  | M_refused publication
  | M_settling publication bool

record monitor_system =
  my_monitor :: monitor
  my_memory :: monitor_memory
  my_at :: "monitor_at list"
  my_refs :: "monitor_event option list"

text \<open>What a run remembers of its steps.\<close>

datatype monitor_note = Quiet | Captured monitor_event monitor_info bytes | Taken monitor_event
  | Discarded monitor_event | Frame_closed monitor_event

definition publication_bytes :: "publication \<Rightarrow> bytes" where
  "publication_bytes p = bytes_at (vw_bytes (pb_view p)) (unat (pb_length p))"

definition free_blocks :: "nat option \<Rightarrow> nat option \<Rightarrow> monitor_memory \<Rightarrow> monitor_memory option" where
  "free_blocks slots payload mem =
     (if (case slots of None \<Rightarrow> False | Some a \<Rightarrow> mm_slots mem a = None) \<or>
         (case payload of None \<Rightarrow> False | Some b \<Rightarrow> mm_payload mem b = None) then None
      else Some (mem\<lparr>mm_slots := (case slots of None \<Rightarrow> mm_slots mem | Some a \<Rightarrow> (mm_slots mem)(a := None)),
                     mm_payload := (case payload of None \<Rightarrow> mm_payload mem | Some b \<Rightarrow> (mm_payload mem)(b := None))\<rparr>))"

text \<open>
  A task goes on.  \<open>published\<close> is the answer of the queue, \<open>blocks\<close> that of the allocator: two
  addresses and what the memory of the payload happens to hold, or \<open>None\<close> when one of the two fails
  and the other is freed.
\<close>

fun monitor_proceed ::
  "monitor_at \<Rightarrow> bool \<Rightarrow> (nat \<times> nat \<times> bytes) option \<Rightarrow> monitor \<Rightarrow> monitor_memory \<Rightarrow>
    (monitor_note \<times> monitor_at \<times> monitor \<times> monitor_memory) option" where
  "monitor_proceed M_idle published blocks m mem = Some (Quiet, M_idle, m, mem)"
| "monitor_proceed (M_allocating generation capacity snap complete) published None m mem = Some (Quiet, M_idle, m, mem)"
| "monitor_proceed (M_allocating generation capacity snap complete) published (Some (a, b, contents)) m mem =
     Some (Quiet, M_installing generation capacity snap complete a b, m,
       mem\<lparr>mm_slots := (mm_slots mem)(a \<mapsto> replicate (unat capacity) zero_slot), mm_payload := (mm_payload mem)(b \<mapsto> contents)\<rparr>)"
| "monitor_proceed (M_installing generation capacity snap complete a b) published blocks m mem =
     (case monitor_install generation capacity snap complete a b m of
        (available, m) \<Rightarrow> Some (Quiet, if available then M_idle else M_freeing (Some a) (Some b), m, mem))"
| "monitor_proceed (M_freeing slots payload) published blocks m mem =
     map_option (\<lambda>mem. (Quiet, M_idle, m, mem)) (free_blocks slots payload mem)"
| "monitor_proceed (M_copying p k) published blocks m mem =
     (if k < unat (pb_length p) then map_option (\<lambda>mem. (Quiet, M_copying p (k + 1), m, mem)) (publish_copy p k mem)
      else map_option (\<lambda>mem. (Quiet, M_committing p, m, mem)) (publish_describe p mem))"
| "monitor_proceed (M_committing p) published blocks m mem =
     map_option (\<lambda>(result, m, mem). (Quiet, if result = None then M_offering p else M_idle, m, mem)) (publish_commit p m mem)"
| "monitor_proceed (M_offering p) published blocks m mem =
     Some (Quiet, if published then M_settling p True else M_refused p, m, mem)"
| "monitor_proceed (M_refused p) published blocks m mem =
     map_option (\<lambda>(discarded, m, mem). (if discarded then Discarded (pb_event p) else Quiet, M_settling p False, m, mem))
       (monitor_discard_event (pb_event p) m mem)"
| "monitor_proceed (M_settling p answer) published blocks m mem =
     Some (Quiet, M_idle, snd (publish_settle p answer m), mem)"

datatype monitor_call = Reset_counters | Set_accepting bool | Take_event monitor_event | Discard_event monitor_event
  | Close_frame monitor_event | Frame_info monitor_event | Retain_frame nat monitor_event | Ref_data nat | Release_ref nat
  | Init nat u32 u32 u32 bool | Deinit nat | Publish nat "monitor_view option" u32 u64
  | Proceed nat bool "(nat \<times> nat \<times> bytes) option"

text \<open>What the callers and the platform keep to: a task makes one call at a time, memory that is
  allocated is new and of the size asked for, and the driver's view has the bytes it says.\<close>

definition monitor_allowed :: "monitor_call \<Rightarrow> monitor_system \<Rightarrow> bool" where
  "monitor_allowed c s = (case c of
      Retain_frame h event \<Rightarrow> h < length (my_refs s)
    | Ref_data h \<Rightarrow> h < length (my_refs s)
    | Release_ref h \<Rightarrow> h < length (my_refs s)
    | Init t generation capacity snap complete \<Rightarrow> t < length (my_at s) \<and> my_at s ! t = M_idle
    | Deinit t \<Rightarrow> t < length (my_at s) \<and> my_at s ! t = M_idle
    | Publish t pointer filter_result time \<Rightarrow> t < length (my_at s) \<and> my_at s ! t = M_idle \<and>
        (case pointer of None \<Rightarrow> True
         | Some view \<Rightarrow> (case vw_bytes view of None \<Rightarrow> True | Some bs \<Rightarrow> unat (vw_readable_length view) \<le> length bs))
    | Proceed t published blocks \<Rightarrow> t < length (my_at s) \<and>
        (case (my_at s ! t, blocks) of
           (M_allocating generation capacity snap complete, Some (a, b, contents)) \<Rightarrow>
             mm_slots (my_memory s) a = None \<and> mm_payload (my_memory s) b = None \<and> length contents = unat capacity * unat snap
         | _ \<Rightarrow> True)
    | _ \<Rightarrow> True)"

definition monitor_answered :: "monitor_system \<Rightarrow> monitor_note \<Rightarrow> bool \<times> monitor \<times> monitor_memory \<Rightarrow> monitor_note \<times> monitor_system" where
  "monitor_answered s note r = (case r of (valid, m, mem) \<Rightarrow> (if valid then note else Quiet, s\<lparr>my_monitor := m, my_memory := mem\<rparr>))"

text \<open>One step; \<open>None\<close> is an access to memory that is not there.\<close>

fun monitor_do :: "u32 \<Rightarrow> monitor_call \<Rightarrow> monitor_system \<Rightarrow> (monitor_note \<times> monitor_system) option" where
  "monitor_do slot_size Reset_counters s = Some (Quiet, s\<lparr>my_monitor := monitor_reset_counters (my_monitor s)\<rparr>)"
| "monitor_do slot_size (Set_accepting accepting) s =
     Some (Quiet, s\<lparr>my_monitor := snd (monitor_set_accepting accepting (my_monitor s))\<rparr>)"
| "monitor_do slot_size (Take_event event) s =
     map_option (monitor_answered s (Taken event)) (monitor_take_event event (my_monitor s) (my_memory s))"
| "monitor_do slot_size (Discard_event event) s =
     map_option (monitor_answered s (Discarded event)) (monitor_discard_event event (my_monitor s) (my_memory s))"
| "monitor_do slot_size (Close_frame event) s =
     map_option (monitor_answered s (Frame_closed event)) (monitor_close_frame event (my_monitor s) (my_memory s))"
| "monitor_do slot_size (Frame_info event) s =
     map_option (\<lambda>info. (Quiet, s)) (monitor_frame_info event (my_monitor s) (my_memory s))"
| "monitor_do slot_size (Retain_frame h event) s =
     map_option (\<lambda>(retained, ref, mem). (Quiet, s\<lparr>my_memory := mem, my_refs := (my_refs s)[h := ref]\<rparr>))
       (monitor_retain_frame event (my_refs s ! h) (my_monitor s) (my_memory s))"
| "monitor_do slot_size (Ref_data h) s =
     map_option (\<lambda>view. (Quiet, s)) (monitor_ref_data (my_refs s ! h) (my_monitor s) (my_memory s))"
| "monitor_do slot_size (Release_ref h) s =
     map_option (\<lambda>(released, m, mem). (Quiet, s\<lparr>my_monitor := m, my_memory := mem, my_refs := (my_refs s)[h := None]\<rparr>))
       (monitor_release_ref (my_refs s ! h) (my_monitor s) (my_memory s))"
| "monitor_do slot_size (Init t generation capacity snap complete) s =
     (case monitor_init_begin slot_size generation capacity snap (my_monitor s) of
        (available, m) \<Rightarrow> Some (Quiet, s\<lparr>my_monitor := m,
          my_at := (my_at s)[t := if available then M_allocating generation capacity snap complete else M_idle]\<rparr>))"
| "monitor_do slot_size (Deinit t) s =
     (case monitor_deinit (my_monitor s) of
        (blocks, m) \<Rightarrow> Some (Quiet, s\<lparr>my_monitor := m,
          my_at := (my_at s)[t := case blocks of None \<Rightarrow> M_idle | Some (slots, payload) \<Rightarrow> M_freeing slots payload]\<rparr>))"
| "monitor_do slot_size (Publish t pointer filter_result time) s =
     map_option (\<lambda>(r, m, mem).
         (case r of Inl result \<Rightarrow> Quiet | Inr p \<Rightarrow> Captured (pb_event p) (publication_info p) (publication_bytes p),
          s\<lparr>my_monitor := m, my_memory := mem, my_at := (my_at s)[t := case r of Inl result \<Rightarrow> M_idle | Inr p \<Rightarrow> M_copying p 0]\<rparr>))
       (publish_begin pointer filter_result time (my_monitor s) (my_memory s))"
| "monitor_do slot_size (Proceed t published blocks) s =
     map_option (\<lambda>(note, a, m, mem). (note, s\<lparr>my_monitor := m, my_memory := mem, my_at := (my_at s)[t := a]\<rparr>))
       (monitor_proceed (my_at s ! t) published blocks (my_monitor s) (my_memory s))"

definition monitor_system_initial :: "nat \<Rightarrow> nat \<Rightarrow> monitor_system" where
  "monitor_system_initial tasks references =
     \<lparr>my_monitor = monitor_initial, my_memory = \<lparr>mm_slots = (\<lambda>a. None), mm_payload = (\<lambda>b. None)\<rparr>,
      my_at = replicate tasks M_idle, my_refs = replicate references None\<rparr>"

text \<open>The runs, with their notes, the latest first.\<close>

inductive monitor_run :: "u32 \<Rightarrow> monitor_note list \<Rightarrow> monitor_system \<Rightarrow> bool" for slot_size where
  start: "monitor_run slot_size [] (monitor_system_initial tasks references)"
| run_step: "monitor_run slot_size es s \<Longrightarrow> monitor_allowed c s \<Longrightarrow> monitor_do slot_size c s = Some (e, s') \<Longrightarrow>
    monitor_run slot_size (e # es) s'"

end
