(* ===== verification/Monitor_Frames.thy ===== *)
theory Monitor_Frames
  imports Wifi_Monitor
begin

text \<open>
  The invariant of the store of captured packets (\<open>Wifi_Monitor\<close>): what slots, leases, pool,
  references and tasks have to do with one another, and that every step keeps it.
\<close>

section \<open>The invariant\<close>

definition event_of :: "monitor \<Rightarrow> nat \<Rightarrow> monitor_slot \<Rightarrow> monitor_event" where
  "event_of m i slot = \<lparr>me_generation = mn_generation m, me_identity = lease_generation (ms_lease slot), me_index = of_nat i\<rparr>"

text \<open>How many references were made from a token and not yet released.\<close>

definition refs_to :: "monitor_event \<Rightarrow> monitor_event option list \<Rightarrow> nat" where
  "refs_to event refs = total_of (\<lambda>ref. if ref = Some event then 1 else 0) refs"

definition frame_used :: "monitor \<Rightarrow> u32 \<Rightarrow> bool" where
  "frame_used m identity \<longleftrightarrow> identity \<noteq> 0 \<and> (mn_next_identity m = 0 \<or> identity < mn_next_identity m)"

definition slot_bytes :: "monitor \<Rightarrow> bytes \<Rightarrow> nat \<Rightarrow> bytes" where
  "slot_bytes m bs i = take (unat (mn_snap_length m)) (drop (i * unat (mn_snap_length m)) bs)"

definition lease_ok :: "nat \<Rightarrow> nat \<Rightarrow> monitor_slot \<Rightarrow> bool" where
  "lease_ok i refs slot \<longleftrightarrow> lease_slot (ms_lease slot) = of_nat i \<and> \<not> returned (ms_lease slot) \<and>
     (close_requested (ms_lease slot) \<longleftrightarrow> ms_owner slot = FRAME_CLOSED) \<and>
     unat (retain_count (ms_lease slot)) = (if ms_owner slot = FRAME_CLOSED then 0 else 1) + refs \<and>
     retain_count (ms_lease slot) \<noteq> 0"

definition history_ok :: "monitor_note list \<Rightarrow> monitor_event \<Rightarrow> monitor_owner \<Rightarrow> bool" where
  "history_ok es event owner \<longleftrightarrow>
     (owner = FRAME_WRITING \<or> owner = FRAME_EVENT \<longrightarrow> Taken event \<notin> set es \<and> Discarded event \<notin> set es) \<and>
     (owner = FRAME_PUBLIC \<longrightarrow> Taken event \<in> set es) \<and> (owner \<noteq> FRAME_CLOSED \<longrightarrow> Frame_closed event \<notin> set es)"

definition frame_ok :: "monitor_note list \<Rightarrow> monitor \<Rightarrow> monitor_event option list \<Rightarrow> bytes \<Rightarrow> nat \<Rightarrow> monitor_slot \<Rightarrow> bool" where
  "frame_ok es m refs bs i slot \<longleftrightarrow> ms_owner slot \<noteq> FRAME_FREE \<longrightarrow>
     frame_used m (lease_generation (ms_lease slot)) \<and> lease_ok i (refs_to (event_of m i slot) refs) slot \<and>
     history_ok es (event_of m i slot) (ms_owner slot) \<and>
     (ms_owner slot \<noteq> FRAME_WRITING \<longrightarrow> mi_captured_length (ms_info slot) \<le> mn_snap_length m \<and>
       Captured (event_of m i slot) (ms_info slot) (take (unat (mi_captured_length (ms_info slot))) (slot_bytes m bs i)) \<in> set es)"

definition taken_slots :: "monitor_slot list \<Rightarrow> nat" where
  "taken_slots = total_of (\<lambda>slot. if ms_owner slot = FRAME_FREE then 0 else 1)"

definition ref_ok :: "monitor \<Rightarrow> monitor_slot list \<Rightarrow> monitor_event option \<Rightarrow> bool" where
  "ref_ok m xs ref \<longleftrightarrow> (case ref of None \<Rightarrow> True
     | Some event \<Rightarrow> unat (me_index event) < length xs \<and> event = event_of m (unat (me_index event)) (xs ! unat (me_index event)) \<and>
         (ms_owner (xs ! unat (me_index event)) = FRAME_PUBLIC \<or> ms_owner (xs ! unat (me_index event)) = FRAME_CLOSED))"

definition store_ok :: "monitor_note list \<Rightarrow> monitor \<Rightarrow> monitor_event option list \<Rightarrow> monitor_slot list \<Rightarrow> bytes \<Rightarrow> bool" where
  "store_ok es m refs xs bs \<longleftrightarrow>
     length xs = unat (mn_capacity m) \<and> length xs \<le> 128 \<and> length bs = length xs * unat (mn_snap_length m) \<and>
     pool_inv (mn_pool m) \<and> pool_slots (mn_pool m) = {..<length xs} \<and>
     (\<forall>i < length xs. i \<in> pool_free (mn_pool m) \<longleftrightarrow> ms_owner (xs ! i) = FRAME_FREE) \<and>
     unat (mn_leased_frames m) = taken_slots xs \<and>
     (\<forall>i < length xs. frame_ok es m refs bs i (xs ! i)) \<and> (\<forall>ref \<in> set refs. ref_ok m xs ref)"

fun writer_of :: "monitor_at \<Rightarrow> nat option" where
  "writer_of (M_copying p k) = Some (unat (me_index (pb_event p)))"
| "writer_of (M_committing p) = Some (unat (me_index (pb_event p)))"
| "writer_of _ = None"

fun publishing :: "monitor_at \<Rightarrow> nat" where
  "publishing (M_copying p k) = 1"
| "publishing (M_committing p) = 1"
| "publishing (M_offering p) = 1"
| "publishing (M_refused p) = 1"
| "publishing (M_settling p published) = 1"
| "publishing _ = 0"

definition publication_ok :: "monitor_note list \<Rightarrow> monitor \<Rightarrow> monitor_slot list \<Rightarrow> publication \<Rightarrow> bool" where
  "publication_ok es m xs p \<longleftrightarrow> (let i = unat (me_index (pb_event p)) in
     i < length xs \<and> ms_owner (xs ! i) = FRAME_WRITING \<and> pb_event p = event_of m i (xs ! i) \<and>
     pb_slots p = mn_slots m \<and> pb_payload p = mn_payload m \<and> pb_offset p = i * unat (mn_snap_length m) \<and>
     pb_length p \<le> mn_snap_length m \<and> length (publication_bytes p) = unat (pb_length p) \<and>
     Captured (pb_event p) (publication_info p) (publication_bytes p) \<in> set es)"

fun writer_ok :: "monitor_note list \<Rightarrow> monitor \<Rightarrow> monitor_slot list \<Rightarrow> bytes \<Rightarrow> monitor_at \<Rightarrow> bool" where
  "writer_ok es m xs bs (M_copying p k) \<longleftrightarrow> publication_ok es m xs p \<and> k \<le> unat (pb_length p) \<and>
     take k (slot_bytes m bs (unat (me_index (pb_event p)))) = take k (publication_bytes p)"
| "writer_ok es m xs bs (M_committing p) \<longleftrightarrow> publication_ok es m xs p \<and>
     ms_info (xs ! unat (me_index (pb_event p))) = publication_info p \<and>
     take (unat (pb_length p)) (slot_bytes m bs (unat (me_index (pb_event p)))) = publication_bytes p"
| "writer_ok es m xs bs _ \<longleftrightarrow> True"

definition tasks_ok :: "monitor_note list \<Rightarrow> monitor \<Rightarrow> monitor_slot list \<Rightarrow> bytes \<Rightarrow> monitor_at list \<Rightarrow> bool" where
  "tasks_ok es m xs bs ats \<longleftrightarrow>
     (\<forall>t < length ats. writer_ok es m xs bs (ats ! t)) \<and>
     (\<forall>t < length ats. \<forall>u < length ats. writer_of (ats ! t) \<noteq> None \<and> writer_of (ats ! t) = writer_of (ats ! u) \<longrightarrow> t = u) \<and>
     (\<forall>i < length xs. ms_owner (xs ! i) = FRAME_WRITING \<longrightarrow> (\<exists>t < length ats. writer_of (ats ! t) = Some i))"

text \<open>The blocks of a task that is about to install or to free them.\<close>

fun own_slots :: "monitor_at \<Rightarrow> nat option" where
  "own_slots (M_installing generation capacity snap complete a b) = Some a"
| "own_slots (M_freeing a b) = a"
| "own_slots _ = None"

fun own_payload :: "monitor_at \<Rightarrow> nat option" where
  "own_payload (M_installing generation capacity snap complete a b) = Some b"
| "own_payload (M_freeing a b) = b"
| "own_payload _ = None"

definition owners_ok :: "nat option \<Rightarrow> (nat \<Rightarrow> bool) \<Rightarrow> nat option list \<Rightarrow> bool" where
  "owners_ok installed alive owned \<longleftrightarrow>
     (\<forall>t < length owned. \<forall>a. owned ! t = Some a \<longrightarrow> alive a \<and> installed \<noteq> Some a \<and>
        (\<forall>u < length owned. owned ! u = Some a \<longrightarrow> u = t))"

fun new_blocks :: "bool \<Rightarrow> monitor_memory \<Rightarrow> monitor_at \<Rightarrow> bool" where
  "new_blocks lock mem (M_allocating generation capacity snap complete) \<longleftrightarrow>
     lock \<and> capacity \<noteq> 0 \<and> capacity \<le> 128 \<and> snap \<noteq> 0 \<and> snap \<le> MAX_SNAP_LENGTH"
| "new_blocks lock mem (M_installing generation capacity snap complete a b) \<longleftrightarrow>
     lock \<and> capacity \<noteq> 0 \<and> capacity \<le> 128 \<and> snap \<noteq> 0 \<and> snap \<le> MAX_SNAP_LENGTH \<and>
     mm_slots mem a = Some (replicate (unat capacity) zero_slot) \<and>
     (\<exists>bs. mm_payload mem b = Some bs \<and> length bs = unat capacity * unat snap)"
| "new_blocks lock mem _ \<longleftrightarrow> True"

fun note_event :: "monitor_note \<Rightarrow> monitor_event option" where
  "note_event Quiet = None"
| "note_event (Captured event info bytes) = Some event"
| "note_event (Taken event) = Some event"
| "note_event (Discarded event) = Some event"
| "note_event (Frame_closed event) = Some event"

definition notes_ok :: "monitor_note list \<Rightarrow> monitor \<Rightarrow> bool" where
  "notes_ok es m \<longleftrightarrow>
     (\<forall>e \<in> set es. \<forall>event. note_event e = Some event \<longrightarrow> me_generation event \<le> mn_generation m \<and>
        (me_generation event = mn_generation m \<longrightarrow> frame_used m (me_identity event))) \<and>
     (\<forall>event info bytes info' bytes'. Captured event info bytes \<in> set es \<and> Captured event info' bytes' \<in> set es \<longrightarrow>
        info = info' \<and> bytes = bytes')"

definition monitor_inv :: "monitor_note list \<Rightarrow> monitor \<Rightarrow> monitor_memory \<Rightarrow> monitor_at list \<Rightarrow> monitor_event option list \<Rightarrow> bool" where
  "monitor_inv es m mem ats refs \<longleftrightarrow> notes_ok es m \<and>
     owners_ok (mn_slots m) (\<lambda>a. mm_slots mem a \<noteq> None) (map own_slots ats) \<and>
     owners_ok (mn_payload m) (\<lambda>b. mm_payload mem b \<noteq> None) (map own_payload ats) \<and>
     (\<forall>a \<in> set ats. new_blocks (mn_lock_initialized m) mem a) \<and> unat (mn_publishers m) = total_of publishing ats \<and>
     (if mn_initialized m
      then mn_lock_initialized m \<and> (\<exists>a b xs bs. mn_slots m = Some a \<and> mn_payload m = Some b \<and> mm_slots mem a = Some xs \<and>
        mm_payload mem b = Some bs \<and> store_ok es m refs xs bs \<and> tasks_ok es m xs bs ats)
      else mn_slots m = None \<and> mn_payload m = None \<and> mn_leased_frames m = 0 \<and> mn_publishers m = 0 \<and> (\<forall>ref \<in> set refs. ref = None))"

section \<open>One slot changes\<close>

definition same_store :: "monitor \<Rightarrow> monitor \<Rightarrow> bool" where
  "same_store m m' \<longleftrightarrow> mn_lock_initialized m' = mn_lock_initialized m \<and> mn_initialized m' = mn_initialized m \<and>
     mn_generation m' = mn_generation m \<and>
     mn_capacity m' = mn_capacity m \<and> mn_snap_length m' = mn_snap_length m \<and> mn_slots m' = mn_slots m \<and>
     mn_payload m' = mn_payload m \<and> (\<forall>identity. frame_used m identity \<longrightarrow> frame_used m' identity)"

lemma same_store_simps:
  assumes "same_store m m'"
  shows "event_of m' = event_of m" "slot_bytes m' = slot_bytes m" "mn_slots m' = mn_slots m" "mn_payload m' = mn_payload m"
    "mn_capacity m' = mn_capacity m" "mn_snap_length m' = mn_snap_length m" "mn_generation m' = mn_generation m"
    "mn_initialized m' = mn_initialized m" "mn_lock_initialized m' = mn_lock_initialized m"
    "frame_used m identity \<Longrightarrow> frame_used m' identity"
  using assms by (auto simp: same_store_def event_of_def slot_bytes_def fun_eq_iff)

definition frame_moves :: "monitor_note \<Rightarrow> monitor_note list \<Rightarrow> monitor \<Rightarrow> monitor \<Rightarrow> monitor_event option list \<Rightarrow>
    monitor_event option list \<Rightarrow> monitor_slot list \<Rightarrow> bytes \<Rightarrow> nat \<Rightarrow> monitor_slot \<Rightarrow> bool" where
  "frame_moves e es m m' refs refs' xs bs i slot \<longleftrightarrow>
     same_store m m' \<and> i < length xs \<and> pool_inv (mn_pool m') \<and> pool_slots (mn_pool m') = pool_slots (mn_pool m) \<and>
     pool_free (mn_pool m') = (if ms_owner slot = FRAME_FREE then insert i (pool_free (mn_pool m)) else pool_free (mn_pool m) - {i}) \<and>
     unat (mn_leased_frames m') + (if ms_owner (xs ! i) = FRAME_FREE then 0 else 1) =
       unat (mn_leased_frames m) + (if ms_owner slot = FRAME_FREE then 0 else 1) \<and>
     frame_ok (e # es) m' refs' bs i slot \<and>
     (\<forall>event. note_event e = Some event \<longrightarrow> unat (me_index event) = i) \<and>
     (\<forall>event. unat (me_index event) \<noteq> i \<longrightarrow> refs_to event refs' = refs_to event refs) \<and>
     (\<forall>event. Some event \<in> set refs' \<longrightarrow>
        (if unat (me_index event) = i
         then event = event_of m i slot \<and> (ms_owner slot = FRAME_PUBLIC \<or> ms_owner slot = FRAME_CLOSED)
         else Some event \<in> set refs))"

lemma index_of_event: "i < 128 \<Longrightarrow> unat (me_index (event_of m i slot)) = i"
  by (simp add: event_of_def unat_of_nat_lt)

lemma history_mono:
  assumes "history_ok es event owner" "note_event e \<noteq> Some event"
  shows "history_ok (e # es) event owner"
  using assms by (auto simp: history_ok_def)

lemma frame_mono:
  assumes ok: "frame_ok es m refs bs j slot" and same: "same_store m m'" and "note_event e \<noteq> Some (event_of m j slot)"
    "refs_to (event_of m j slot) refs' = refs_to (event_of m j slot) refs" "slot_bytes m bs' j = slot_bytes m bs j"
  shows "frame_ok (e # es) m' refs' bs' j slot"
  using ok assms(3-5) history_mono same_store_simps(10) [OF same]
  unfolding frame_ok_def same_store_simps [OF same] by auto

lemma store_okD:
  assumes "store_ok es m refs xs bs"
  shows "length xs = unat (mn_capacity m)" "length xs \<le> 128" "length bs = length xs * unat (mn_snap_length m)"
    "pool_inv (mn_pool m)" "pool_slots (mn_pool m) = {..<length xs}"
    "i < length xs \<Longrightarrow> i \<in> pool_free (mn_pool m) \<longleftrightarrow> ms_owner (xs ! i) = FRAME_FREE"
    "unat (mn_leased_frames m) = taken_slots xs" "i < length xs \<Longrightarrow> frame_ok es m refs bs i (xs ! i)"
    "ref \<in> set refs \<Longrightarrow> ref_ok m xs ref"
  using assms by (auto simp: store_ok_def)

lemma store_moves:
  assumes ok: "store_ok es m refs xs bs" and moves: "frame_moves e es m m' refs refs' xs bs i slot"
  shows "store_ok (e # es) m' refs' (xs[i := slot]) bs"
proof -
  note store = store_okD [OF ok]
  have same: "same_store m m'" and i: "i < length xs" using moves by (auto simp: frame_moves_def)
  have sum: "unat (mn_leased_frames m') + (if ms_owner (xs ! i) = FRAME_FREE then 0 else 1) =
      unat (mn_leased_frames m) + (if ms_owner slot = FRAME_FREE then 0 else 1)"
    using moves unfolding frame_moves_def by blast
  have leased: "unat (mn_leased_frames m') = taken_slots (xs[i := slot])"
    using total_of_update [OF i, of "\<lambda>slot. if ms_owner slot = FRAME_FREE then 0 else 1" slot] store(7) sum
    by (simp add: taken_slots_def)
  have frames: "frame_ok (e # es) m' refs' bs j (xs[i := slot] ! j)" if j: "j < length xs" for j
  proof (cases "j = i")
    case True
    then show ?thesis using moves i by (simp add: frame_moves_def)
  next
    case False
    have "unat (me_index (event_of m j (xs ! j))) \<noteq> i" using index_of_event [of j] store(2) j False by simp
    then show ?thesis
      using frame_mono [OF store(8) [OF j] same, of e refs' bs] moves False by (auto simp: frame_moves_def)
  qed
  have refs: "ref_ok m' (xs[i := slot]) ref" if "ref \<in> set refs'" for ref
  proof (cases ref)
    case (Some event)
    then show ?thesis
      using that moves store(9) [of ref] i unfolding ref_ok_def frame_moves_def same_store_simps [OF same]
      by (cases "unat (me_index event) = i") auto
  qed (simp add: ref_ok_def)
  have free: "j \<in> pool_free (mn_pool m') \<longleftrightarrow> ms_owner (xs[i := slot] ! j) = FRAME_FREE" if "j < length xs" for j
    using moves store(6) [OF that] i by (auto simp: frame_moves_def nth_list_update)
  have "pool_inv (mn_pool m')" "pool_slots (mn_pool m') = {..<length xs}"
    using moves store(5) by (simp_all add: frame_moves_def)
  then show ?thesis
    using store(1-3) leased frames refs free by (simp add: store_ok_def same_store_simps [OF same])
qed

text \<open>Tasks that do not write the slot that changes are not disturbed.\<close>

lemma publication_mono:
  assumes "publication_ok es m xs p" "same_store m m'" "unat (me_index (pb_event p)) \<noteq> i"
  shows "publication_ok (e # es) m' (xs[i := slot]) p"
  using assms(1,3) by (simp add: publication_ok_def Let_def same_store_simps [OF assms(2)])

lemma writer_mono:
  assumes "writer_ok es m xs bs a" "same_store m m'" "writer_of a \<noteq> Some i"
    and "\<And>j. j \<noteq> i \<Longrightarrow> j < length xs \<Longrightarrow> slot_bytes m bs' j = slot_bytes m bs j"
  shows "writer_ok (e # es) m' (xs[i := slot]) bs' a"
proof -
  have p: "publication_ok (e # es) m' (xs[i := slot]) p \<and> slot_bytes m bs' (unat (me_index (pb_event p))) = slot_bytes m bs (unat (me_index (pb_event p)))"
    if "publication_ok es m xs p" "unat (me_index (pb_event p)) \<noteq> i" for p
    using publication_mono [OF that(1) assms(2) that(2)] assms(4) [OF that(2)] that(1) by (auto simp: publication_ok_def Let_def)
  show ?thesis
    using assms(1,3) p by (cases a) (auto simp: same_store_simps [OF assms(2)])
qed

lemma tasks_okD:
  assumes "tasks_ok es m xs bs ats"
  shows "t < length ats \<Longrightarrow> writer_ok es m xs bs (ats ! t)"
    "t < length ats \<Longrightarrow> u < length ats \<Longrightarrow> writer_of (ats ! t) = Some i \<Longrightarrow> writer_of (ats ! u) = Some i \<Longrightarrow> t = u"
    "i < length xs \<Longrightarrow> ms_owner (xs ! i) = FRAME_WRITING \<Longrightarrow> \<exists>t < length ats. writer_of (ats ! t) = Some i"
  using assms by (simp_all add: tasks_ok_def)

text \<open>No task writes a slot that is not being written.\<close>

lemma writer_writing: "writer_ok es m xs bs a \<Longrightarrow> writer_of a = Some i \<Longrightarrow> ms_owner (xs ! i) = FRAME_WRITING"
  by (cases a) (auto simp: publication_ok_def Let_def)

lemma tasks_idle:
  assumes "tasks_ok es m xs bs ats" "same_store m m'" "i < length xs" "ms_owner (xs ! i) \<noteq> FRAME_WRITING" "ms_owner slot \<noteq> FRAME_WRITING"
  shows "tasks_ok (e # es) m' (xs[i := slot]) bs ats"
  unfolding tasks_ok_def
proof (intro conjI allI impI)
  note tasks = tasks_okD [OF assms(1)]
  show "writer_ok (e # es) m' (xs[i := slot]) bs (ats ! t)" if "t < length ats" for t
    by (rule writer_mono [OF tasks(1) [OF that] assms(2)]) (use writer_writing [OF tasks(1) [OF that]] assms(4) in auto)
  show "t = u" if "t < length ats" "u < length ats" "writer_of (ats ! t) \<noteq> None \<and> writer_of (ats ! t) = writer_of (ats ! u)" for t u
    using tasks(2) [OF that(1,2)] that(3) by (metis not_Some_eq)
  show "\<exists>t < length ats. writer_of (ats ! t) = Some j" if "j < length (xs[i := slot])" "ms_owner (xs[i := slot] ! j) = FRAME_WRITING" for j
    using tasks(3) [of j] that assms(3,5) by (auto simp: nth_list_update split: if_splits)
qed

text \<open>The task \<open>t\<close> goes on, while it writes slot \<open>i\<close>, or starts or stops to.\<close>

lemma tasks_step:
  assumes ok: "tasks_ok es m xs bs ats" and same: "same_store m m'" and t: "t < length ats" and i: "i < length xs"
    and mine: "writer_of (ats ! t) = Some i \<or> writer_of (ats ! t) = None \<and> ms_owner (xs ! i) \<noteq> FRAME_WRITING"
    and new: "writer_ok (e # es) m' (xs[i := slot]) bs' a" "writer_of a = (if ms_owner slot = FRAME_WRITING then Some i else None)"
    and other: "\<And>j. j \<noteq> i \<Longrightarrow> j < length xs \<Longrightarrow> slot_bytes m bs' j = slot_bytes m bs j"
  shows "tasks_ok (e # es) m' (xs[i := slot]) bs' (ats[t := a])"
  unfolding tasks_ok_def
proof (intro conjI allI impI)
  note tasks = tasks_okD [OF ok]
  have others: "writer_of (ats ! u) \<noteq> Some i" if "u < length ats" "u \<noteq> t" for u
    using mine tasks(2) [OF that(1) t] that writer_writing [OF tasks(1) [OF that(1)]] by metis
  show "writer_ok (e # es) m' (xs[i := slot]) bs' (ats[t := a] ! u)" if "u < length (ats[t := a])" for u
    using that new(1) writer_mono [OF tasks(1) same others other] by (cases "u = t") simp_all
  show "u = v" if "u < length (ats[t := a])" "v < length (ats[t := a])"
    "writer_of (ats[t := a] ! u) \<noteq> None \<and> writer_of (ats[t := a] ! u) = writer_of (ats[t := a] ! v)" for u v
    using that others [of u] others [of v] tasks(2) [of u v] t new(2)
    by (cases "u = t"; cases "v = t") (auto split: if_splits)
  show "\<exists>u < length (ats[t := a]). writer_of (ats[t := a] ! u) = Some j"
    if j: "j < length (xs[i := slot])" "ms_owner (xs[i := slot] ! j) = FRAME_WRITING" for j
  proof (cases "j = i")
    case True
    then show ?thesis using j new(2) i t by (intro exI [of _ t]) simp
  next
    case False
    then obtain u where "u < length ats" "writer_of (ats ! u) = Some j" using tasks(3) [of j] j by auto
    moreover from this False have "u \<noteq> t" using mine by auto
    ultimately show ?thesis by (intro exI [of _ u]) simp
  qed
qed

section \<open>The whole state after a change\<close>

lemma monitor_invD:
  assumes "monitor_inv es m mem ats refs"
  shows "notes_ok es m" "owners_ok (mn_slots m) (\<lambda>a. mm_slots mem a \<noteq> None) (map own_slots ats)"
    "owners_ok (mn_payload m) (\<lambda>b. mm_payload mem b \<noteq> None) (map own_payload ats)" "a \<in> set ats \<Longrightarrow> new_blocks (mn_lock_initialized m) mem a"
    "unat (mn_publishers m) = total_of publishing ats"
    "mn_initialized m \<Longrightarrow> mn_lock_initialized m"
    "\<not> mn_initialized m \<Longrightarrow> mn_slots m = None \<and> mn_payload m = None \<and> mn_leased_frames m = 0 \<and> mn_publishers m = 0 \<and> (\<forall>ref \<in> set refs. ref = None)"
  using assms unfolding monitor_inv_def by (auto split: if_splits)

lemma monitor_inv_store:
  assumes "monitor_inv es m mem ats refs" "mn_initialized m"
  obtains a b xs bs where "mn_slots m = Some a" "mn_payload m = Some b" "mm_slots mem a = Some xs" "mm_payload mem b = Some bs"
    "store_ok es m refs xs bs" "tasks_ok es m xs bs ats"
  using assms unfolding monitor_inv_def by auto

lemma owners_mono:
  assumes "owners_ok installed alive owned" "\<And>a. alive a \<Longrightarrow> alive' a"
  shows "owners_ok installed alive' owned"
  using assms unfolding owners_ok_def by blast

lemma new_blocks_mono:
  assumes "new_blocks lock mem x" "own_slots x \<noteq> Some a" "own_payload x \<noteq> Some b"
    "\<And>c. c \<noteq> a \<Longrightarrow> mm_slots mem' c = mm_slots mem c" "\<And>c. c \<noteq> b \<Longrightarrow> mm_payload mem' c = mm_payload mem c"
  shows "new_blocks lock mem' x"
  using assms by (cases x) (auto split: option.splits)

lemma owner_elsewhere:
  assumes "owners_ok (Some a) alive (map own ats)" "x \<in> set ats"
  shows "own x \<noteq> Some a"
  using assms by (auto simp: owners_ok_def in_set_conv_nth)

text \<open>The blocks in use change their contents, tasks go on without blocks of their own.\<close>

lemma monitor_inv_moves:
  assumes inv: "monitor_inv es m mem ats refs" and init: "mn_initialized m"
    and at: "mn_slots m = Some a" "mn_payload m = Some b" "mm_slots mem a = Some xs" "mm_payload mem b = Some bs"
    and same: "same_store m m'" and store: "store_ok (e # es) m' refs' xs' bs'" and tasks: "tasks_ok (e # es) m' xs' bs' ats'"
    and own: "map own_slots ats' = map own_slots ats" "map own_payload ats' = map own_payload ats"
    and new: "\<forall>x \<in> set ats'. x \<in> set ats \<or> new_blocks (mn_lock_initialized m) mem x \<and> own_slots x = None \<and> own_payload x = None"
    and publishers: "unat (mn_publishers m') = total_of publishing ats'" and remembered: "notes_ok (e # es) m'"
    and mem: "mem' = \<lparr>mm_slots = (mm_slots mem)(a \<mapsto> xs'), mm_payload = (mm_payload mem)(b \<mapsto> bs')\<rparr>"
  shows "monitor_inv (e # es) m' mem' ats' refs'"
proof -
  note i = monitor_invD [OF inv]
  note s = same_store_simps [OF same]
  have "owners_ok (Some a) (\<lambda>c. mm_slots mem' c \<noteq> None) (map own_slots ats')"
    using owners_mono [OF i(2)] at own(1) by (auto simp: mem)
  moreover have "owners_ok (Some b) (\<lambda>c. mm_payload mem' c \<noteq> None) (map own_payload ats')"
    using owners_mono [OF i(3)] at own(2) by (auto simp: mem)
  moreover have "new_blocks (mn_lock_initialized m) mem' x" if "x \<in> set ats'" for x
  proof -
    have "new_blocks (mn_lock_initialized m) mem x \<and> own_slots x \<noteq> Some a \<and> own_payload x \<noteq> Some b"
      using that new i(4) owner_elsewhere [OF i(2) [unfolded at]] owner_elsewhere [OF i(3) [unfolded at]] by (metis option.distinct(1))
    then show ?thesis using new_blocks_mono [of "mn_lock_initialized m" mem x a b mem'] by (simp add: mem)
  qed
  ultimately show ?thesis
    using remembered publishers store tasks at init i(6) [OF init] unfolding monitor_inv_def s by (simp add: s mem)
qed

section \<open>Leases\<close>

text \<open>What the lease operations do to the lease of a slot that is in use.\<close>

lemma unat_is_1: "unat w = 1 \<longleftrightarrow> w = 1" for w :: u32
  by (simp add: word_unat_eq_iff)

lemma lease_close_slot:
  assumes "\<not> returned l" "\<not> close_requested l" "lease_generation l \<noteq> 0" "unat (retain_count l) = 1 + r"
  shows "native_lease_request_close (lease_generation l) (l, p) =
    (if r = 0 then (fst (native_pool_release (unat (lease_slot l)) p),
        l\<lparr>close_requested := True, retain_count := 0, returned := True\<rparr>, snd (native_pool_release (unat (lease_slot l)) p))
     else (True, l\<lparr>close_requested := True, retain_count := retain_count l - 1\<rparr>, p))"
proof -
  have pos: "0 < retain_count l" using assms(4) by (simp add: word_less_nat_alt)
  have one: "retain_count l = 1 \<longleftrightarrow> r = 0" using assms(4) by (simp flip: unat_is_1)
  show ?thesis
    using assms pos one
    by (simp add: native_lease_request_close_def native_lease_release_def native_lease_is_stale_def Let_def case_prod_unfold)
qed

lemma lease_release_slot:
  assumes "\<not> returned l" "lease_generation l \<noteq> 0" "unat (retain_count l) = (if close_requested l then 0 else 1) + r" "0 < r"
  shows "native_lease_release (lease_generation l) (l, p) =
    (if close_requested l \<and> r = 1 then (fst (native_pool_release (unat (lease_slot l)) p),
        l\<lparr>retain_count := 0, returned := True\<rparr>, snd (native_pool_release (unat (lease_slot l)) p))
     else (True, l\<lparr>retain_count := retain_count l - 1\<rparr>, p))"
proof -
  have pos: "0 < retain_count l" using assms(3,4) by (simp add: word_less_nat_alt)
  have one: "retain_count l = 1 \<longleftrightarrow> close_requested l \<and> r = 1" using assms(3,4) by (auto simp flip: unat_is_1 split: if_splits)
  show ?thesis
    using assms(1-3) pos one
    by (simp add: native_lease_release_def native_lease_is_stale_def Let_def case_prod_unfold)
qed

lemma lease_retain_slot:
  assumes "native_lease_retain (lease_generation l) l = (ok, l')"
  shows "ok \<and> retain_count l < - 1 \<and> l' = l\<lparr>retain_count := retain_count l + 1\<rparr> \<or> \<not> ok \<and> l' = l"
  using assms by (auto simp: native_lease_retain_def split: if_splits)

lemma slot_read_here [simp]: "mm_slots mem a = Some xs \<Longrightarrow> i < length xs \<Longrightarrow> slot_read (Some a) i mem = Some (xs ! i)"
  by (simp add: slot_read_def)

lemma slot_write_here [simp]: "mm_slots mem a = Some xs \<Longrightarrow> i < length xs \<Longrightarrow>
    slot_write (Some a) i slot mem = Some (mem\<lparr>mm_slots := (mm_slots mem)(a \<mapsto> xs[i := slot])\<rparr>)"
  by (simp add: slot_write_def)

text \<open>What a token names.\<close>

lemma slot_locked:
  assumes store: "store_ok es m refs xs bs" and "mn_initialized m" "mn_slots m = Some a" "mm_slots mem a = Some xs"
  shows "monitor_slot_locked event m mem = Some None \<or>
    unat (me_index event) < length xs \<and> event = event_of m (unat (me_index event)) (xs ! unat (me_index event)) \<and>
    ms_owner (xs ! unat (me_index event)) \<noteq> FRAME_FREE \<and> monitor_slot_locked event m mem = Some (Some (xs ! unat (me_index event)))"
  using assms(2-4) store_okD(1) [OF store]
  by (auto simp: monitor_slot_locked_def event_of_def native_lease_is_stale_def word_le_nat_alt not_le)

lemma slot_lockedI:
  assumes store: "store_ok es m refs xs bs" and "mn_initialized m" "mn_slots m = Some a" "mm_slots mem a = Some xs"
    and "i < length xs" "ms_owner (xs ! i) \<noteq> FRAME_FREE"
  shows "monitor_slot_locked (event_of m i (xs ! i)) m mem = Some (Some (xs ! i))"
  using assms(2-6) store_okD [OF store]
  by (auto simp: monitor_slot_locked_def event_of_def native_lease_is_stale_def word_le_nat_alt not_le unat_of_nat_lt
      frame_ok_def frame_used_def lease_ok_def)

section \<open>Changes of one slot\<close>

lemma refs_to_update:
  "h < length refs \<Longrightarrow> refs_to event (refs[h := x]) + (if refs ! h = Some event then 1 else 0) =
    refs_to event refs + (if x = Some event then 1 else 0)"
  unfolding refs_to_def by (rule total_of_update)

lemma refs_to_pos: "h < length refs \<Longrightarrow> refs ! h = Some event \<Longrightarrow> 0 < refs_to event refs"
  using total_of_member [of h refs "\<lambda>ref. if ref = Some event then 1 else 0"] by (simp add: refs_to_def)

lemma refs_to_none: "Some event \<notin> set refs \<Longrightarrow> refs_to event refs = 0"
  by (induction refs) (auto simp: refs_to_def total_of_def)

lemma refs_none:
  assumes "store_ok es m refs xs bs" "i < length xs" "ms_owner (xs ! i) \<noteq> FRAME_PUBLIC" "ms_owner (xs ! i) \<noteq> FRAME_CLOSED"
  shows "refs_to (event_of m i slot) refs = 0"
proof (rule refs_to_none)
  show "Some (event_of m i slot) \<notin> set refs"
    using store_okD(9) [OF assms(1), of "Some (event_of m i slot)"] assms(2-4) store_okD(2) [OF assms(1)] index_of_event [of i]
    by (auto simp: ref_ok_def)
qed

lemma ref_named:
  assumes "store_ok es m refs xs bs" "Some event \<in> set refs" "unat (me_index event) = i"
  shows "event = event_of m i (xs ! i) \<and> (ms_owner (xs ! i) = FRAME_PUBLIC \<or> ms_owner (xs ! i) = FRAME_CLOSED) \<and> i < length xs"
  using store_okD(9) [OF assms(1,2)] assms(3) by (auto simp: ref_ok_def)

text \<open>The facts about a slot that is in use.\<close>

lemma frame_in_use:
  assumes "store_ok es m refs xs bs" "i < length xs" "ms_owner (xs ! i) \<noteq> FRAME_FREE"
  defines "event \<equiv> event_of m i (xs ! i)"
  shows "frame_used m (lease_generation (ms_lease (xs ! i)))" "lease_ok i (refs_to event refs) (xs ! i)"
    "history_ok es event (ms_owner (xs ! i))"
    "ms_owner (xs ! i) \<noteq> FRAME_WRITING \<Longrightarrow> mi_captured_length (ms_info (xs ! i)) \<le> mn_snap_length m \<and>
       Captured event (ms_info (xs ! i)) (take (unat (mi_captured_length (ms_info (xs ! i)))) (slot_bytes m bs i)) \<in> set es"
    "i \<notin> pool_free (mn_pool m)" "i < 128" "unat (lease_slot (ms_lease (xs ! i))) = i" "lease_generation (ms_lease (xs ! i)) \<noteq> 0"
  using store_okD(2,6,8) [OF assms(1)] assms(2,3)
  by (auto simp: frame_ok_def event_def lease_ok_def frame_used_def unat_of_nat_lt)

lemma same_store_refl: "same_store m m"
  by (simp add: same_store_def)

lemma take_moves:
  assumes store: "store_ok es m refs xs bs" and i: "i < length xs" and owner: "ms_owner (xs ! i) = FRAME_EVENT"
  shows "frame_moves (Taken (event_of m i (xs ! i))) es m m refs refs xs bs i ((xs ! i)\<lparr>ms_owner := FRAME_PUBLIC\<rparr>)"
proof -
  have used: "ms_owner (xs ! i) \<noteq> FRAME_FREE" using owner by simp
  note frame = frame_in_use [OF store i used]
  have event: "event_of m i ((xs ! i)\<lparr>ms_owner := FRAME_PUBLIC\<rparr>) = event_of m i (xs ! i)" by (simp add: event_of_def)
  have "refs_to (event_of m i (xs ! i)) refs = 0" by (rule refs_none [OF store i]) (simp_all add: owner)
  then show ?thesis
    using frame store_okD(4) [OF store] i owner ref_named [OF store _ refl] index_of_event [OF frame(6)]
    by (auto simp: frame_moves_def same_store_refl frame_ok_def event lease_ok_def history_ok_def)
qed

text \<open>Closing: the frame is free when nothing refers to it, and closed otherwise.\<close>

definition pool_given :: "nat \<Rightarrow> monitor \<Rightarrow> monitor" where
  "pool_given i m = m\<lparr>mn_pool := snd (native_pool_release i (mn_pool m)), mn_leased_frames := mn_leased_frames m - 1\<rparr>"

lemma pool_given_simps:
  assumes "store_ok es m refs xs bs" "i < length xs" "ms_owner (xs ! i) \<noteq> FRAME_FREE"
  shows "fst (native_pool_release i (mn_pool m))" "pool_inv (mn_pool (pool_given i m))"
    "pool_slots (mn_pool (pool_given i m)) = pool_slots (mn_pool m)" "pool_free (mn_pool (pool_given i m)) = insert i (pool_free (mn_pool m))"
    "unat (mn_leased_frames (pool_given i m)) + 1 = unat (mn_leased_frames m)" "same_store m (pool_given i m)"
proof -
  note store = store_okD [OF assms(1)]
  have i: "i \<in> pool_slots (mn_pool m)" "i \<notin> pool_free (mn_pool m)" using store(5,6) assms(2,3) by auto
  note free = native_pool_release_free [OF store(4) prod.collapse [symmetric], of i]
  show "fst (native_pool_release i (mn_pool m))" "pool_inv (mn_pool (pool_given i m))"
    "pool_slots (mn_pool (pool_given i m)) = pool_slots (mn_pool m)" "pool_free (mn_pool (pool_given i m)) = insert i (pool_free (mn_pool m))"
    using free i by (auto simp: pool_given_def)
  have "0 < unat (mn_leased_frames m)"
    using total_of_member [OF assms(2), of "\<lambda>slot. if ms_owner slot = FRAME_FREE then 0 else 1"] assms(3) store(7) by (simp add: taken_slots_def)
  then show "unat (mn_leased_frames (pool_given i m)) + 1 = unat (mn_leased_frames m)"
    by (simp add: pool_given_def unat_dec word_less_nat_alt)
  show "same_store m (pool_given i m)" by (simp add: same_store_def pool_given_def frame_used_def)
qed

lemma freed_moves:
  assumes store: "store_ok es m refs xs bs" and i: "i < length xs" and used: "ms_owner (xs ! i) \<noteq> FRAME_FREE"
    and slot: "ms_owner slot = FRAME_FREE" and e: "\<And>event. note_event e = Some event \<Longrightarrow> unat (me_index event) = i"
    and count: "\<And>event. unat (me_index event) \<noteq> i \<Longrightarrow> refs_to event refs' = refs_to event refs"
    and refs: "\<And>event. Some event \<in> set refs' \<Longrightarrow> unat (me_index event) \<noteq> i \<and> Some event \<in> set refs"
  shows "frame_moves e es m (pool_given i m) refs refs' xs bs i slot"
  unfolding frame_moves_def
  using pool_given_simps [OF store i used] i used slot e count refs by (auto simp: frame_ok_def)

text \<open>A frame that stays in use with another count of references.\<close>

lemma kept_moves:
  assumes store: "store_ok es m refs xs bs" and i: "i < length xs" and used: "ms_owner (xs ! i) \<noteq> FRAME_FREE"
    and slot: "ms_owner slot = FRAME_PUBLIC \<or> ms_owner slot = FRAME_CLOSED"
    and captured: "ms_owner (xs ! i) \<noteq> FRAME_WRITING" "ms_info slot = ms_info (xs ! i)"
    and lease: "lease_generation (ms_lease slot) = lease_generation (ms_lease (xs ! i))"
      "lease_ok i (refs_to (event_of m i (xs ! i)) refs') slot"
    and e: "\<And>event. note_event e = Some event \<Longrightarrow> unat (me_index event) = i"
    and history: "ms_owner slot = FRAME_PUBLIC \<Longrightarrow> e = Quiet \<and> ms_owner (xs ! i) = FRAME_PUBLIC"
    and count: "\<And>event. unat (me_index event) \<noteq> i \<Longrightarrow> refs_to event refs' = refs_to event refs"
    and refs: "\<And>event. Some event \<in> set refs' \<Longrightarrow> Some event \<in> set refs \<or> event = event_of m i (xs ! i)"
  shows "frame_moves e es m m refs refs' xs bs i slot"
proof -
  note frame = frame_in_use [OF store i used]
  have event: "event_of m i slot = event_of m i (xs ! i)" using lease(1) by (simp add: event_of_def)
  have free: "pool_free (mn_pool m) = pool_free (mn_pool m) - {i}" using frame(5) by simp
  have owner: "ms_owner slot \<noteq> FRAME_FREE" using slot by auto
  have "frame_ok (e # es) m refs' bs i slot"
    unfolding frame_ok_def event captured(2) using frame(1,3) frame(4) [OF captured(1)] lease slot history
    by (auto simp: history_ok_def)
  moreover have "event = event_of m i slot \<and> (ms_owner slot = FRAME_PUBLIC \<or> ms_owner slot = FRAME_CLOSED)"
    if "Some event \<in> set refs'" "unat (me_index event) = i" for event
    using refs [OF that(1)] that(2) ref_named [OF store, of event i] slot event by metis
  moreover have "Some event \<in> set refs" if "Some event \<in> set refs'" "unat (me_index event) \<noteq> i" for event
    using refs [OF that(1)] that(2) index_of_event [OF frame(6)] by auto
  ultimately show ?thesis
    unfolding frame_moves_def using store_okD(4) [OF store] i used owner e count free same_store_refl by simp
qed

lemma close_moves:
  assumes store: "store_ok es m refs xs bs" and i: "i < length xs" and owner: "ms_owner (xs ! i) \<noteq> FRAME_FREE" "ms_owner (xs ! i) \<noteq> FRAME_CLOSED"
    and close: "monitor_close_locked (xs ! i) m = (valid, slot, m')" and e: "note_event e = None \<or> note_event e = Some (event_of m i (xs ! i))"
  shows "valid \<and> frame_moves e es m m' refs refs xs bs i slot \<and> ms_owner slot \<noteq> FRAME_WRITING \<and> (m' = m \<or> m' = pool_given i m)"
proof -
  note frame = frame_in_use [OF store i owner(1)]
  define r where "r = refs_to (event_of m i (xs ! i)) refs"
  have lease: "\<not> returned (ms_lease (xs ! i))" "\<not> close_requested (ms_lease (xs ! i))" "unat (retain_count (ms_lease (xs ! i))) = 1 + r"
    using frame(2) owner(2) by (auto simp: lease_ok_def r_def)
  note closed = lease_close_slot [OF lease(1,2) frame(8) lease(3), of "mn_pool m", unfolded frame(7)]
  have e: "note_event e = Some event \<Longrightarrow> unat (me_index event) = i" for event
    using e index_of_event [OF frame(6)] by auto
  show ?thesis
  proof (cases "r = 0")
    case True
    then have new: "valid" "ms_owner slot = FRAME_FREE" "m' = pool_given i m"
      using close pool_given_simps(1) [OF store i owner(1)] unfolding monitor_close_locked_def closed
      by (auto simp: monitor_account_return_def pool_given_def)
    have none: "unat (me_index event) \<noteq> i \<and> Some event \<in> set refs" if "Some event \<in> set refs" for event
    proof (rule ccontr)
      assume "\<not> ?thesis"
      then have "event = event_of m i (xs ! i)" using ref_named [OF store that] that by auto
      then show False using refs_to_pos [of _ refs event] that True by (auto simp: r_def in_set_conv_nth)
    qed
    show ?thesis
      using freed_moves [where refs' = refs, OF store i owner(1) new(2) e refl none] new by simp
  next
    case False
    then have new: "valid" "slot = (xs ! i)\<lparr>ms_owner := FRAME_CLOSED, ms_lease := (ms_lease (xs ! i))\<lparr>close_requested := True,
        retain_count := retain_count (ms_lease (xs ! i)) - 1\<rparr>\<rparr>" "m' = m"
      using close lease(1) unfolding monitor_close_locked_def closed by (auto simp: monitor_account_return_def)
    have writing: "ms_owner (xs ! i) \<noteq> FRAME_WRITING" using refs_none [OF store i, of "xs ! i"] False by (auto simp: r_def)
    have "unat (retain_count (ms_lease (xs ! i)) - 1) = r"
      using lease(3) by (simp add: unat_dec word_less_nat_alt)
    then have "lease_ok i r slot" using frame(2) False lease(1) unfolding lease_ok_def new by auto
    then have "frame_moves e es m m refs refs xs bs i slot"
      by (intro kept_moves [OF store i owner(1)]) (use writing e new in \<open>auto simp: r_def\<close>)
    then show ?thesis using new by simp
  qed
qed

lemma retain_moves:
  assumes store: "store_ok es m refs xs bs" and i: "i < length xs" and owner: "ms_owner (xs ! i) = FRAME_PUBLIC"
    and h: "h < length refs" "refs ! h = None"
    and retain: "native_lease_retain (lease_generation (ms_lease (xs ! i))) (ms_lease (xs ! i)) = (True, l)"
  shows "frame_moves Quiet es m m refs (refs[h := Some (event_of m i (xs ! i))]) xs bs i ((xs ! i)\<lparr>ms_lease := l\<rparr>)"
proof -
  have used: "ms_owner (xs ! i) \<noteq> FRAME_FREE" using owner by simp
  note frame = frame_in_use [OF store i used]
  have l: "l = (ms_lease (xs ! i))\<lparr>retain_count := retain_count (ms_lease (xs ! i)) + 1\<rparr>" "retain_count (ms_lease (xs ! i)) < - 1"
    using lease_retain_slot [OF retain] by simp_all
  have count: "refs_to event (refs[h := Some (event_of m i (xs ! i))]) =
      refs_to event refs + (if event = event_of m i (xs ! i) then 1 else 0)" for event
    using refs_to_update [OF h(1), of event "Some (event_of m i (xs ! i))"] h(2) by (auto split: if_splits)
  have inc: "unat (retain_count (ms_lease (xs ! i)) + 1) = Suc (unat (retain_count (ms_lease (xs ! i))))" using l(2) by (rule unat_inc)
  then have "retain_count (ms_lease (xs ! i)) + 1 \<noteq> 0" by (metis nat.distinct(1) unsigned_0)
  then show ?thesis
    using frame(2) index_of_event [OF frame(6)] inc
    by (intro kept_moves [OF store i used]) (auto simp: owner l(1) count lease_ok_def dest: set_update_subset_insert [THEN subsetD])
qed

lemma release_moves:
  assumes store: "store_ok es m refs xs bs" and h: "h < length refs" "refs ! h = Some (event_of m i (xs ! i))" and i: "i < length xs"
    and release: "native_lease_release (lease_generation (ms_lease (xs ! i))) (ms_lease (xs ! i), mn_pool m) = (released, l, pool)"
    and account: "monitor_account_return ((xs ! i)\<lparr>ms_lease := l\<rparr>) (m\<lparr>mn_pool := pool\<rparr>) = (slot, m')"
  shows "released \<and> frame_moves Quiet es m m' refs (refs[h := None]) xs bs i slot \<and> ms_owner slot \<noteq> FRAME_WRITING \<and>
    (m' = m \<or> m' = pool_given i m)"
proof -
  have "Some (event_of m i (xs ! i)) \<in> set refs" using h by (metis nth_mem)
  moreover have "i < 128" using i store_okD(2) [OF store] by simp
  ultimately have owner: "ms_owner (xs ! i) = FRAME_PUBLIC \<or> ms_owner (xs ! i) = FRAME_CLOSED"
    using ref_named [OF store] index_of_event by blast
  then have used: "ms_owner (xs ! i) \<noteq> FRAME_FREE" by auto
  note frame = frame_in_use [OF store i used]
  define r where "r = refs_to (event_of m i (xs ! i)) refs"
  have r: "0 < r" unfolding r_def by (rule refs_to_pos [OF h])
  have lease: "\<not> returned (ms_lease (xs ! i))" "unat (retain_count (ms_lease (xs ! i))) = (if close_requested (ms_lease (xs ! i)) then 0 else 1) + r"
    "close_requested (ms_lease (xs ! i)) \<longleftrightarrow> ms_owner (xs ! i) = FRAME_CLOSED"
    using frame(2) by (auto simp: lease_ok_def r_def)
  note released = lease_release_slot [OF lease(1) frame(8) lease(2) r, of "mn_pool m", unfolded frame(7)]
  have count: "refs_to event (refs[h := None]) + (if event = event_of m i (xs ! i) then 1 else 0) = refs_to event refs" for event
    using refs_to_update [OF h(1), of event None] h(2) by (auto split: if_splits)
  have other: "refs_to event (refs[h := None]) = refs_to event refs" if "unat (me_index event) \<noteq> i" for event
    using count [of event] that index_of_event [OF frame(6), of m "xs ! i"] by (auto split: if_splits)
  have rest: "Some event \<in> set refs" if "Some event \<in> set (refs[h := None])" for event
    using that set_update_subset_insert [of refs h None] by auto
  show ?thesis
  proof (cases "close_requested (ms_lease (xs ! i)) \<and> r = 1")
    case True
    then have new: "released" "ms_owner slot = FRAME_FREE" "m' = pool_given i m"
      using release account pool_given_simps(1) [OF store i used] used unfolding released
      by (auto simp: monitor_account_return_def pool_given_def)
    have none: "unat (me_index event) \<noteq> i \<and> Some event \<in> set refs" if ref: "Some event \<in> set (refs[h := None])" for event
    proof -
      have "event \<noteq> event_of m i (xs ! i)"
        using count [of event] ref True refs_to_pos [of _ "refs[h := None]" event] by (auto simp: r_def in_set_conv_nth)
      then show ?thesis using ref_named [OF store rest [OF ref]] rest [OF ref] by auto
    qed
    have "frame_moves Quiet es m m' refs (refs[h := None]) xs bs i slot"
      unfolding new(3) by (rule freed_moves [OF store i used new(2)]) (use none other in auto)
    then show ?thesis using new by simp
  next
    case False
    then have new: "released" "slot = (xs ! i)\<lparr>ms_lease := (ms_lease (xs ! i))\<lparr>retain_count := retain_count (ms_lease (xs ! i)) - 1\<rparr>\<rparr>" "m' = m"
      using release account lease(1) unfolding released by (auto simp: monitor_account_return_def)
    have "unat (retain_count (ms_lease (xs ! i)) - 1) = unat (retain_count (ms_lease (xs ! i))) - 1"
      using lease(2) r by (intro unat_dec) (simp add: word_less_nat_alt)
    moreover have "retain_count (ms_lease (xs ! i)) \<noteq> 1"
      using False lease(2) r unfolding unat_is_1 [symmetric] by (auto split: if_splits)
    ultimately have "lease_ok i (r - 1) slot" using frame(2) lease(1,2) r unfolding lease_ok_def new by (auto split: if_splits)
    moreover have "refs_to (event_of m i (xs ! i)) (refs[h := None]) = r - 1" using count [of "event_of m i (xs ! i)"] by (simp add: r_def)
    ultimately have "frame_moves Quiet es m m refs (refs[h := None]) xs bs i slot"
      by (intro kept_moves [OF store i used]) (use owner new other rest in auto)
    then show ?thesis using new owner by auto
  qed
qed

section \<open>Publishing\<close>

lemma monitor_add_eq: "monitor_add c amount m = m\<lparr>mn_counters := mn_counters (monitor_add c amount m)\<rparr>"
  by (simp add: monitor_add_def)

lemma monitor_add_simps [simp]:
  "mn_lock_initialized (monitor_add c amount m) = mn_lock_initialized m" "mn_initialized (monitor_add c amount m) = mn_initialized m"
  "mn_accepting (monitor_add c amount m) = mn_accepting m" "mn_require_complete (monitor_add c amount m) = mn_require_complete m"
  "mn_generation (monitor_add c amount m) = mn_generation m" "mn_next_identity (monitor_add c amount m) = mn_next_identity m"
  "mn_capacity (monitor_add c amount m) = mn_capacity m" "mn_snap_length (monitor_add c amount m) = mn_snap_length m"
  "mn_pool (monitor_add c amount m) = mn_pool m" "mn_slots (monitor_add c amount m) = mn_slots m"
  "mn_payload (monitor_add c amount m) = mn_payload m" "mn_leased_frames (monitor_add c amount m) = mn_leased_frames m"
  "mn_publishers (monitor_add c amount m) = mn_publishers m"
  by (simp_all add: monitor_add_def)

text \<open>A state that differs in the counters and the switch only.\<close>

definition same_frames :: "monitor \<Rightarrow> monitor \<Rightarrow> bool" where
  "same_frames m m' \<longleftrightarrow> mn_lock_initialized m' = mn_lock_initialized m \<and> mn_initialized m' = mn_initialized m \<and>
     mn_generation m' = mn_generation m \<and> mn_next_identity m' = mn_next_identity m \<and> mn_capacity m' = mn_capacity m \<and>
     mn_snap_length m' = mn_snap_length m \<and> mn_slots m' = mn_slots m \<and> mn_payload m' = mn_payload m \<and>
     mn_pool m' = mn_pool m \<and> mn_leased_frames m' = mn_leased_frames m"

lemma publish_checks_cases:
  "(case publish_checks pointer filter_result m of
      Inl (result, m') \<Rightarrow> same_frames m m' \<and> mn_publishers m' = mn_publishers m
    | Inr (view, m') \<Rightarrow> same_frames m m' \<and> mn_publishers m' = mn_publishers m \<and> pointer = Some view \<and> mn_next_identity m \<noteq> 0 \<and>
        (vw_bytes view = None \<longrightarrow> vw_readable_length view = 0))"
  unfolding publish_checks_def Let_def by (auto simp: same_frames_def split: option.splits)

lemma unat_next: "w \<noteq> - 1 \<Longrightarrow> unat (w + 1) = Suc (unat w)" for w :: u32
  by (intro unat_inc) (simp add: word_order.not_eq_extremum)

lemma unat_next_small: "Suc (unat w) < 2 ^ 32 \<Longrightarrow> unat (w + 1) = Suc (unat w)" for w :: u32
  by (simp add: unat_word_ariths)

lemma identity_fresh:
  assumes "notes_ok es m" "e \<in> set es" "note_event e = Some event" "me_generation event = mn_generation m"
  shows "me_identity event \<noteq> mn_next_identity m"
  using assms by (auto simp: notes_ok_def frame_used_def)

text \<open>The length a publisher captures, and the bytes that come with it.\<close>

definition view_ok :: "monitor_view \<Rightarrow> bool" where
  "view_ok view \<longleftrightarrow> (case vw_bytes view of None \<Rightarrow> vw_readable_length view = 0 | Some bs \<Rightarrow> unat (vw_readable_length view) \<le> length bs)"

lemma publication_of_bytes:
  assumes "view_ok view"
  shows "pb_length (publication_of view time i m) \<le> mn_snap_length m"
    "length (publication_bytes (publication_of view time i m)) = unat (pb_length (publication_of view time i m))"
  using assms by (auto simp: publication_of_def publication_bytes_def view_ok_def Let_def not_less word_le_nat_alt word_less_nat_alt split: option.splits)

lemma publish_reserve_moves:
  assumes store: "store_ok es m refs xs bs" and remembered: "notes_ok es m" and next_identity: "mn_next_identity m \<noteq> 0"
    and at: "mn_slots m = Some a" "mm_slots mem a = Some xs"
  shows "publish_reserve view time m mem = Some (Inl PUBLISH_POOL_FULL, monitor_add COUNT_DROPPED_POOL_FULL 1 m, mem) \<or>
    (\<exists>i m' slot p e. publish_reserve view time m mem = Some (Inr p, m', mem\<lparr>mm_slots := (mm_slots mem)(a \<mapsto> xs[i := slot])\<rparr>) \<and>
       p = publication_of view time i m \<and> e = Captured (pb_event p) (publication_info p) (publication_bytes p) \<and>
       frame_moves e es m m' refs refs xs bs i slot \<and> mn_publishers m' = mn_publishers m + 1 \<and> ms_owner slot = FRAME_WRITING \<and>
       ms_owner (xs ! i) = FRAME_FREE \<and> pb_event p = event_of m i slot \<and> i < length xs)"
proof (cases "native_pool_acquire (mn_pool m)")
  case None
  then show ?thesis by (simp add: publish_reserve_def)
next
  case (Some r)
  obtain i pool where r: "r = (i, pool)" by (cases r)
  note acquired = native_pool_acquire_some [OF store_okD(4) [OF store] Some [unfolded r]]
  have "i \<in> pool_slots (mn_pool m)" using acquired(3) store_okD(4) [OF store] by (auto simp: pool_inv_def)
  then have i: "i < length xs" using store_okD(5) [OF store] by simp
  then have i128: "i < 128" using store_okD(2) [OF store] by simp
  have free: "ms_owner (xs ! i) = FRAME_FREE" using store_okD(6) [OF store i] acquired(3) by simp
  define lease where "lease = \<lparr>lease_generation = mn_next_identity m, lease_slot = of_nat i, retain_count = 1, close_requested = False, returned = False\<rparr>"
  have "i < unat (pool_capacity pool)" using i acquired(2) store_okD(5) [OF store] unfolding pool_slots_def by (metis lessThan_iff)
  then have "\<not> ucast (pool_capacity pool) \<le> (of_nat i :: u16)" using i128 by (simp add: word_le_nat_alt unat_of_nat_lt)
  then have init: "native_lease_init pool (of_nat i) (mn_next_identity m) = Some lease"
    using next_identity by (simp add: native_lease_init_def lease_def)
  define slot where "slot = (xs ! i)\<lparr>ms_lease := lease, ms_owner := FRAME_WRITING\<rparr>"
  define m' where "m' = m\<lparr>mn_pool := pool, mn_next_identity := (if mn_next_identity m = - 1 then 0 else mn_next_identity m + 1),
      mn_leased_frames := mn_leased_frames m + 1, mn_publishers := mn_publishers m + 1\<rparr>"
  define p where "p = publication_of view time i m"
  define e where "e = Captured (pb_event p) (publication_info p) (publication_bytes p)"
  have result: "publish_reserve view time m mem = Some (Inr p, m', mem\<lparr>mm_slots := (mm_slots mem)(a \<mapsto> xs[i := slot])\<rparr>)"
    using Some init at i by (simp add: publish_reserve_def r Let_def p_def slot_def m'_def)
  have event: "pb_event p = event_of m i slot" by (simp add: p_def publication_of_def event_of_def slot_def lease_def Let_def)
  have "frame_used m' identity" if "frame_used m identity" for identity
  proof -
    have "mn_next_identity m \<noteq> - 1 \<Longrightarrow> identity < mn_next_identity m \<Longrightarrow> identity < mn_next_identity m + 1"
      using unat_next [of "mn_next_identity m"] by (simp add: word_less_nat_alt)
    then show ?thesis using that next_identity by (auto simp: frame_used_def m'_def)
  qed
  then have same: "same_store m m'" by (simp add: same_store_def m'_def)
  have used: "frame_used m' (mn_next_identity m)"
    using next_identity unat_next [of "mn_next_identity m"] by (simp add: frame_used_def m'_def word_less_nat_alt)
  have leased: "unat (mn_leased_frames m') = unat (mn_leased_frames m) + 1"
  proof -
    have "taken_slots ys \<le> length ys" for ys by (induction ys) (auto simp: taken_slots_def total_of_def)
    from this [of xs] have "unat (mn_leased_frames m) \<le> 128" using store_okD(2,7) [OF store] by simp
    then show ?thesis by (simp add: m'_def unat_next_small)
  qed
  have none: "refs_to (event_of m i slot) refs = 0" by (rule refs_none [OF store i]) (simp_all add: free)
  have "Taken (event_of m i slot) \<notin> set es" "Discarded (event_of m i slot) \<notin> set es" "Frame_closed (event_of m i slot) \<notin> set es"
    using identity_fresh [OF remembered] by (force simp: event_of_def slot_def lease_def)+
  then have "frame_ok (e # es) m' refs bs i slot"
    using used none unfolding frame_ok_def lease_ok_def history_ok_def same_store_simps [OF same]
    by (simp add: slot_def lease_def e_def)
  moreover have "Some event \<in> set refs \<Longrightarrow> unat (me_index event) \<noteq> i" for event
    using ref_named [OF store, of event i] free by auto
  ultimately have "frame_moves e es m m' refs refs xs bs i slot"
    unfolding frame_moves_def using same i acquired leased free event index_of_event [OF i128, of m slot]
    by (auto simp: e_def m'_def slot_def)
  then show ?thesis using result event free i
    by (intro disjI2 exI [of _ i] exI [of _ m'] exI [of _ slot] exI [of _ p] exI [of _ e]) (simp add: p_def e_def slot_def m'_def)
qed

text \<open>The bytes of different slots do not overlap.\<close>

lemma slot_bytes_nth:
  assumes "length bs = n * unat (mn_snap_length m)" "j < n" "q < unat (mn_snap_length m)"
  shows "slot_bytes m bs j ! q = bs ! (j * unat (mn_snap_length m) + q)" "j * unat (mn_snap_length m) + q < length bs"
proof -
  have "Suc j * unat (mn_snap_length m) \<le> n * unat (mn_snap_length m)" using assms(2) by (intro mult_le_mono1) simp
  then show "j * unat (mn_snap_length m) + q < length bs" using assms(1,3) by simp
  then show "slot_bytes m bs j ! q = bs ! (j * unat (mn_snap_length m) + q)" using assms(3) by (simp add: slot_bytes_def)
qed

lemma slot_bytes_length:
  assumes "length bs = n * unat (mn_snap_length m)" "j < n"
  shows "length (slot_bytes m bs j) = unat (mn_snap_length m)"
proof -
  have "Suc j * unat (mn_snap_length m) \<le> length bs" using assms by (metis Suc_leI mult_le_mono1)
  then show ?thesis by (simp add: slot_bytes_def)
qed

lemma slot_bytes_update:
  assumes len: "length bs = n * unat (mn_snap_length m)" and i: "i < n" and k: "k < unat (mn_snap_length m)" and j: "j < n"
  shows "slot_bytes m (bs[i * unat (mn_snap_length m) + k := x]) j = (if j = i then (slot_bytes m bs j)[k := x] else slot_bytes m bs j)"
proof (rule nth_equalityI)
  let ?bs = "bs[i * unat (mn_snap_length m) + k := x]"
  have len': "length ?bs = n * unat (mn_snap_length m)" using len by simp
  show "length (slot_bytes m ?bs j) = length (if j = i then (slot_bytes m bs j)[k := x] else slot_bytes m bs j)"
    using slot_bytes_length [OF len j] slot_bytes_length [OF len' j] by auto
  fix q assume "q < length (slot_bytes m ?bs j)"
  then have q: "q < unat (mn_snap_length m)" using slot_bytes_length [OF len' j] by simp
  have "i * unat (mn_snap_length m) + k = j * unat (mn_snap_length m) + q \<longleftrightarrow> i = j \<and> k = q"
    using k q by (metis add_left_cancel div_mult_self3 div_less add.right_neutral not_less_zero)
  then show "slot_bytes m ?bs j ! q = (if j = i then (slot_bytes m bs j)[k := x] else slot_bytes m bs j) ! q"
    using slot_bytes_nth [OF len j q] slot_bytes_nth [OF len' j q] slot_bytes_length [OF len j] q
    by (auto simp: nth_list_update)
qed

lemma store_copy:
  assumes store: "store_ok es m refs xs bs" and i: "i < length xs" and owner: "ms_owner (xs ! i) = FRAME_WRITING"
    and len: "length bs' = length bs" and other: "\<And>j. j \<noteq> i \<Longrightarrow> j < length xs \<Longrightarrow> slot_bytes m bs' j = slot_bytes m bs j"
  shows "store_ok (Quiet # es) m refs xs bs'"
proof -
  have "frame_ok (Quiet # es) m refs bs' j (xs ! j)" if j: "j < length xs" for j
  proof (cases "j = i")
    case True
    then show ?thesis using store_okD(8) [OF store i] owner by (auto simp: frame_ok_def history_ok_def)
  next
    case False
    then show ?thesis using frame_mono [OF store_okD(8) [OF store j] same_store_refl _ refl other] j by simp
  qed
  then show ?thesis using store len by (auto simp: store_ok_def)
qed

lemma publication_okD:
  assumes "publication_ok es m xs p"
  obtains i where "unat (me_index (pb_event p)) = i" "i < length xs" "ms_owner (xs ! i) = FRAME_WRITING" "pb_event p = event_of m i (xs ! i)"
    "pb_slots p = mn_slots m" "pb_payload p = mn_payload m" "pb_offset p = i * unat (mn_snap_length m)"
    "pb_length p \<le> mn_snap_length m" "length (publication_bytes p) = unat (pb_length p)"
    "Captured (pb_event p) (publication_info p) (publication_bytes p) \<in> set es"
  using assms unfolding publication_ok_def Let_def by (elim conjE) (rule that, (assumption | rule refl)+)

lemma refs_elsewhere:
  "store_ok es m refs xs bs \<Longrightarrow> ms_owner (xs ! i) = FRAME_WRITING \<Longrightarrow> Some event \<in> set refs \<Longrightarrow> unat (me_index event) \<noteq> i"
  using ref_named [of es m refs xs bs event i] by auto

lemma copy_moves:
  assumes store: "store_ok es m refs xs bs" and writer: "writer_ok es m xs bs (M_copying p k)" and k: "k < unat (pb_length p)"
    and at: "mn_payload m = Some b" "mm_payload mem b = Some bs"
  obtains i bs' where "publish_copy p k mem = Some (mem\<lparr>mm_payload := (mm_payload mem)(b \<mapsto> bs')\<rparr>)" "i < length xs"
    "writer_of (M_copying p k) = Some i" "ms_owner (xs ! i) = FRAME_WRITING" "store_ok (Quiet # es) m refs xs bs'"
    "writer_ok (Quiet # es) m xs bs' (M_copying p (k + 1))" "\<And>j. j \<noteq> i \<Longrightarrow> j < length xs \<Longrightarrow> slot_bytes m bs' j = slot_bytes m bs j"
proof -
  have ok: "publication_ok es m xs p" and copied: "take k (slot_bytes m bs (unat (me_index (pb_event p)))) = take k (publication_bytes p)"
    using writer by simp_all
  from ok obtain i where p: "unat (me_index (pb_event p)) = i" "i < length xs" "ms_owner (xs ! i) = FRAME_WRITING"
    "pb_payload p = mn_payload m" "pb_offset p = i * unat (mn_snap_length m)" "pb_length p \<le> mn_snap_length m"
    "length (publication_bytes p) = unat (pb_length p)"
    by (rule publication_okD)
  note len = store_okD(3) [OF store]
  have k': "k < unat (mn_snap_length m)" using k p(6) by (simp add: word_le_nat_alt)
  obtain source where source: "vw_bytes (pb_view p) = Some source" "k < length source" "publication_bytes p ! k = source ! k"
    using p(7) k by (cases "vw_bytes (pb_view p)") (auto simp: publication_bytes_def)
  define bs' where "bs' = bs[i * unat (mn_snap_length m) + k := source ! k]"
  note update = slot_bytes_update [OF len p(2) k', of _ "source ! k", folded bs'_def]
  have "publish_copy p k mem = Some (mem\<lparr>mm_payload := (mm_payload mem)(b \<mapsto> bs')\<rparr>)"
    using source(1,2) p(4,5) at slot_bytes_nth(2) [OF len p(2) k'] by (simp add: publish_copy_def bs'_def)
  moreover have "store_ok (Quiet # es) m refs xs bs'"
    by (rule store_copy [OF store p(2,3)]) (use update in \<open>auto simp: bs'_def\<close>)
  moreover have "take (k + 1) (slot_bytes m bs' i) = take (k + 1) (publication_bytes p)"
    using copied p(1,7) k k' source(3) update [OF p(2)] slot_bytes_length [OF len p(2)]
    by (simp add: take_Suc_conv_app_nth take_update_cancel)
  moreover have "publication_ok (Quiet # es) m xs p" using ok by (simp add: publication_ok_def Let_def)
  ultimately show ?thesis using that [of bs' i] p update k by simp
qed

lemma describe_moves:
  assumes store: "store_ok es m refs xs bs" and writer: "writer_ok es m xs bs (M_copying p k)" and k: "\<not> k < unat (pb_length p)"
    and at: "mn_slots m = Some a" "mm_slots mem a = Some xs"
  obtains i slot where "publish_describe p mem = Some (mem\<lparr>mm_slots := (mm_slots mem)(a \<mapsto> xs[i := slot])\<rparr>)" "i < length xs"
    "writer_of (M_copying p k) = Some i" "ms_owner slot = FRAME_WRITING" "frame_moves Quiet es m m refs refs xs bs i slot"
    "writer_ok (Quiet # es) m (xs[i := slot]) bs (M_committing p)"
proof -
  have ok: "publication_ok es m xs p" using writer by simp
  have "k = unat (pb_length p)" using writer k by simp
  then have copied: "take (unat (pb_length p)) (slot_bytes m bs (unat (me_index (pb_event p)))) = take (unat (pb_length p)) (publication_bytes p)"
    using writer by simp
  from ok obtain i where p: "unat (me_index (pb_event p)) = i" "i < length xs" "ms_owner (xs ! i) = FRAME_WRITING"
    "pb_event p = event_of m i (xs ! i)" "pb_slots p = mn_slots m" "length (publication_bytes p) = unat (pb_length p)"
    by (rule publication_okD)
  define slot where "slot = (xs ! i)\<lparr>ms_info := publication_info p\<rparr>"
  have slot: "event_of m i slot = event_of m i (xs ! i)" "ms_owner slot = FRAME_WRITING" "ms_lease slot = ms_lease (xs ! i)"
    by (simp_all add: slot_def event_of_def p(3))
  have used: "ms_owner (xs ! i) \<noteq> FRAME_FREE" using p(3) by simp
  have "frame_moves Quiet es m m refs refs xs bs i slot"
    using frame_in_use [OF store p(2) used] refs_elsewhere [OF store p(3)] p(2,3) store_okD(4) [OF store]
    by (auto simp: frame_moves_def same_store_refl frame_ok_def slot lease_ok_def history_ok_def)
  moreover have "publish_describe p mem = Some (mem\<lparr>mm_slots := (mm_slots mem)(a \<mapsto> xs[i := slot])\<rparr>)"
    using p at by (simp add: publish_describe_def slot_def)
  moreover have "writer_ok (Quiet # es) m (xs[i := slot]) bs (M_committing p)"
    using ok copied p slot by (simp add: publication_ok_def Let_def slot_def [symmetric]) (simp add: slot_def)
  ultimately show ?thesis using that [of i slot] p slot(2) by simp
qed

lemma commit_moves:
  assumes store: "store_ok es m refs xs bs" and writer: "writer_ok es m xs bs (M_committing p)"
    and at: "mn_slots m = Some a" "mm_slots mem a = Some xs"
  obtains (closing) i slot m' where "\<not> mn_accepting m" "publish_commit p m mem = Some (Some PUBLISH_CLOSING,
      monitor_add COUNT_DROPPED_CLOSING 1 (m'\<lparr>mn_publishers := mn_publishers m - 1\<rparr>), mem\<lparr>mm_slots := (mm_slots mem)(a \<mapsto> xs[i := slot])\<rparr>)"
    "i < length xs" "writer_of (M_committing p) = Some i" "ms_owner slot \<noteq> FRAME_WRITING" "frame_moves Quiet es m m' refs refs xs bs i slot"
    "m' = m \<or> m' = pool_given i m"
  | (offered) i slot where "publish_commit p m mem = Some (None, m, mem\<lparr>mm_slots := (mm_slots mem)(a \<mapsto> xs[i := slot])\<rparr>)"
    "i < length xs" "writer_of (M_committing p) = Some i" "ms_owner slot \<noteq> FRAME_WRITING" "frame_moves Quiet es m m refs refs xs bs i slot"
proof -
  have ok: "publication_ok es m xs p" and copied: "ms_info (xs ! unat (me_index (pb_event p))) = publication_info p"
    "take (unat (pb_length p)) (slot_bytes m bs (unat (me_index (pb_event p)))) = publication_bytes p"
    using writer by simp_all
  from ok obtain i where p: "unat (me_index (pb_event p)) = i" "i < length xs" "ms_owner (xs ! i) = FRAME_WRITING"
    "pb_event p = event_of m i (xs ! i)" "pb_slots p = mn_slots m" "pb_length p \<le> mn_snap_length m"
    "Captured (pb_event p) (publication_info p) (publication_bytes p) \<in> set es"
    by (rule publication_okD)
  have used: "ms_owner (xs ! i) \<noteq> FRAME_FREE" "ms_owner (xs ! i) \<noteq> FRAME_CLOSED" using p(3) by simp_all
  note frame = frame_in_use [OF store p(2) used(1)]
  show ?thesis
  proof (cases "mn_accepting m")
    case False
    obtain valid slot m' where close: "monitor_close_locked (xs ! i) m = (valid, slot, m')" by (metis surj_pair)
    note moves = close_moves [OF store p(2) used close, of Quiet]
    then have "mn_publishers m' = mn_publishers m" by (auto simp: pool_given_def)
    then show ?thesis
      using closing [of m' i slot] False moves close p at by (simp add: publish_commit_def)
  next
    case True
    define slot where "slot = (xs ! i)\<lparr>ms_owner := FRAME_EVENT\<rparr>"
    have slot: "event_of m i slot = event_of m i (xs ! i)" "ms_owner slot = FRAME_EVENT" "ms_lease slot = ms_lease (xs ! i)"
      "ms_info slot = publication_info p"
      using copied(1) p(1) by (simp_all add: slot_def event_of_def)
    have info: "mi_captured_length (publication_info p) = pb_length p" by (simp add: publication_info_def)
    have "frame_ok (Quiet # es) m refs bs i slot"
      using frame(1-3) p copied(2) unfolding frame_ok_def slot info by (auto simp: lease_ok_def history_ok_def slot)
    then have "frame_moves Quiet es m m refs refs xs bs i slot"
      using frame(5) refs_elsewhere [OF store p(3)] p(2,3) store_okD(4) [OF store] by (auto simp: frame_moves_def same_store_refl slot)
    then show ?thesis using offered [of i slot] True p at slot(2) by (simp add: publish_commit_def slot_def)
  qed
qed

end
