(* ===== verification/Monitor_Safety.thy ===== *)
theory Monitor_Safety
  imports Monitor_Frames
begin

text \<open>
  Every step of the store of captured packets keeps its invariant, and what follows for the runs of
  any number of tasks: no access to memory that is gone, references that read what was captured,
  exact accounts, and one owner at a time for every frame.
\<close>

section \<open>Steps that leave the slots alone\<close>

lemma same_frames_store: "same_frames m m' \<Longrightarrow> same_store m m'"
  by (simp add: same_frames_def same_store_def frame_used_def)

lemma same_frames_refl: "same_frames m m"
  by (simp add: same_frames_def)

lemma store_quiet:
  assumes "store_ok es m refs xs bs" "same_frames m m'"
  shows "store_ok (Quiet # es) m' refs xs bs"
proof -
  note same = same_frames_store [OF assms(2)]
  have "frame_ok (Quiet # es) m' refs bs i (xs ! i)" if "i < length xs" for i
    using frame_mono [OF store_okD(8) [OF assms(1) that] same _ refl refl] by simp
  moreover have "ref_ok m' xs = ref_ok m xs" by (intro ext) (simp only: ref_ok_def same_store_simps(1) [OF same])
  ultimately show ?thesis using assms by (simp add: store_ok_def same_frames_def)
qed

lemma store_same:
  assumes "store_ok es m refs xs bs" "same_frames m m'"
  shows "store_ok es m' refs xs bs"
proof -
  note same = same_frames_store [OF assms(2)]
  have "frame_used m' = frame_used m" using assms(2) by (simp add: same_frames_def frame_used_def fun_eq_iff)
  then have "frame_ok es m' = frame_ok es m" "ref_ok m' = ref_ok m"
    by (intro ext, simp only: frame_ok_def ref_ok_def same_store_simps(1,2,6) [OF same])+
  then show ?thesis using assms by (simp add: store_ok_def same_frames_def)
qed

lemma tasks_same:
  assumes "tasks_ok es m xs bs ats" "same_frames m m'"
  shows "tasks_ok es m' xs bs ats"
proof -
  have "publication_ok es m' xs = publication_ok es m xs"
    by (intro ext) (simp add: publication_ok_def same_store_simps [OF same_frames_store [OF assms(2)]])
  moreover have "slot_bytes m' = slot_bytes m" by (rule same_store_simps [OF same_frames_store [OF assms(2)]])
  ultimately have "writer_ok es m' xs bs x = writer_ok es m xs bs x" for x by (cases x) auto
  then have "writer_ok es m' xs bs = writer_ok es m xs bs" by (rule ext)
  then show ?thesis using assms(1) by (simp only: tasks_ok_def)
qed

text \<open>A task that goes on without touching a slot or a block.\<close>

definition quiet_move :: "monitor_at \<Rightarrow> monitor_at \<Rightarrow> bool" where
  "quiet_move x y \<longleftrightarrow> writer_of x = None \<and> writer_of y = None \<and> own_slots x = None \<and> own_slots y = None \<and>
     own_payload x = None \<and> own_payload y = None \<and> publishing y = publishing x \<and> (\<forall>lock mem. new_blocks lock mem y)"

definition quiet_tasks :: "monitor_at list \<Rightarrow> monitor_at list \<Rightarrow> bool" where
  "quiet_tasks ats ats' \<longleftrightarrow> ats' = ats \<or> (\<exists>t a. t < length ats \<and> ats' = ats[t := a] \<and> quiet_move (ats ! t) a)"

lemma quiet_tasksI: "t < length ats \<Longrightarrow> quiet_move (ats ! t) a \<Longrightarrow> quiet_tasks ats (ats[t := a])"
  unfolding quiet_tasks_def by blast

lemma map_update_same: "t < length xs \<Longrightarrow> f y = f (xs ! t) \<Longrightarrow> map f (xs[t := y]) = map f xs"
  by (metis list_update_id map_update)

lemma quiet_tasksD:
  assumes "quiet_tasks ats ats'"
  shows "map own_slots ats' = map own_slots ats" "map own_payload ats' = map own_payload ats"
    "total_of publishing ats' = total_of publishing ats"
    "x \<in> set ats' \<Longrightarrow> x \<in> set ats \<or> (\<forall>lock mem. new_blocks lock mem x) \<and> own_slots x = None \<and> own_payload x = None"
proof -
  have "map own_slots ats' = map own_slots ats \<and> map own_payload ats' = map own_payload ats \<and> map publishing ats' = map publishing ats \<and>
      (x \<in> set ats' \<longrightarrow> x \<in> set ats \<or> (\<forall>lock mem. new_blocks lock mem x) \<and> own_slots x = None \<and> own_payload x = None)"
    using assms unfolding quiet_tasks_def quiet_move_def
    by (auto simp: map_update_same dest: set_update_subset_insert [THEN subsetD])
  then show "map own_slots ats' = map own_slots ats" "map own_payload ats' = map own_payload ats"
    "total_of publishing ats' = total_of publishing ats"
    "x \<in> set ats' \<Longrightarrow> x \<in> set ats \<or> (\<forall>lock mem. new_blocks lock mem x) \<and> own_slots x = None \<and> own_payload x = None"
    unfolding total_of_def by auto
qed

lemma tasks_calm:
  assumes ok: "tasks_ok es m xs bs ats" and t: "t < length ats" and none: "writer_of (ats ! t) = None" "writer_of a = None"
  shows "tasks_ok es m xs bs (ats[t := a])"
proof -
  have writer: "writer_ok es m xs bs a" using none(2) by (cases a) auto
  have same: "writer_of (ats[t := a] ! u) = writer_of (ats ! u)" for u using none t by (cases "u = t") simp_all
  have all: "\<forall>u < length ats. writer_ok es m xs bs (ats[t := a] ! u)"
    using tasks_okD(1) [OF ok] writer t by (auto simp: nth_list_update)
  show ?thesis
    using all ok [unfolded tasks_ok_def] unfolding tasks_ok_def same length_list_update by (elim conjE) (intro conjI)
qed

lemma tasks_quiet:
  assumes "tasks_ok es m xs bs ats" "quiet_tasks ats ats'"
  shows "tasks_ok es m xs bs ats'"
  using assms tasks_calm by (auto simp: quiet_tasks_def quiet_move_def)

lemma notes_quiet: "notes_ok es m \<Longrightarrow> same_store m m' \<Longrightarrow> notes_ok (Quiet # es) m'"
  by (auto simp: notes_ok_def same_store_def)

lemma notes_event:
  assumes "notes_ok es m" "same_store m m'" "note_event e = Some event" "me_generation event = mn_generation m"
    "frame_used m' (me_identity event)" "\<forall>info bytes info' bytes'. e = Captured event info bytes \<longrightarrow> Captured event info' bytes' \<notin> set es"
  shows "notes_ok (e # es) m'"
  using assms by (cases e) (auto simp: notes_ok_def same_store_def)

text \<open>Counters, the switch and waiting tasks.\<close>

lemma calm_inv:
  assumes inv: "monitor_inv es m mem ats refs" and same: "same_frames m m'"
    and own: "map own_slots ats' = map own_slots ats" "map own_payload ats' = map own_payload ats"
    and new: "\<forall>x \<in> set ats'. x \<in> set ats \<or> new_blocks (mn_lock_initialized m) mem x"
    and tasks: "\<And>es m xs bs. tasks_ok es m xs bs ats \<Longrightarrow> tasks_ok es m xs bs ats'"
    and publishers: "unat (mn_publishers m') = total_of publishing ats'" "\<not> mn_initialized m \<Longrightarrow> mn_publishers m' = 0"
  shows "monitor_inv (Quiet # es) m' mem ats' refs"
proof -
  note i = monitor_invD [OF inv]
  have remembered: "notes_ok (Quiet # es) m'" using notes_quiet [OF i(1) same_frames_store [OF same]] .
  have new: "\<forall>x \<in> set ats'. new_blocks (mn_lock_initialized m) mem x" using i(4) new by blast
  show ?thesis
  proof (cases "mn_initialized m")
    case True
    then obtain a b xs bs where at: "mn_slots m = Some a" "mn_payload m = Some b" "mm_slots mem a = Some xs" "mm_payload mem b = Some bs"
      "store_ok es m refs xs bs" "tasks_ok es m xs bs ats" using monitor_inv_store [OF inv] by blast
    have "tasks_ok (Quiet # es) m' xs bs ats'"
    proof -
      have "publication_ok es m xs p \<Longrightarrow> publication_ok (Quiet # es) m xs p" for p by (simp add: publication_ok_def Let_def)
      then have "writer_ok es m xs bs x \<Longrightarrow> writer_ok (Quiet # es) m xs bs x" for x by (cases x) auto
      then have "tasks_ok (Quiet # es) m xs bs ats" using at(6) unfolding tasks_ok_def by (elim conjE) (intro conjI; blast)
      from tasks_same [OF tasks [OF this] same] show ?thesis .
    qed
    then show ?thesis
      using i(2,3,6) own new remembered True at store_quiet [OF at(5) same] same publishers(1)
      unfolding monitor_inv_def by (simp add: same_frames_def)
  next
    case False
    then show ?thesis
      using i(2,3,7) own new remembered same publishers unfolding monitor_inv_def by (simp add: same_frames_def)
  qed
qed

lemma quiet_inv:
  assumes inv: "monitor_inv es m mem ats refs" and same: "same_frames m m'" and quiet: "quiet_tasks ats ats'"
    and publishers: "mn_publishers m' = mn_publishers m"
  shows "monitor_inv (Quiet # es) m' mem ats' refs"
proof (rule calm_inv [OF inv same])
  note q = quiet_tasksD [OF quiet]
  show "\<forall>x \<in> set ats'. x \<in> set ats \<or> new_blocks (mn_lock_initialized m) mem x" using q(4) by blast
  show "unat (mn_publishers m') = total_of publishing ats'" using monitor_invD(5) [OF inv] q(3) publishers by simp
  show "\<not> mn_initialized m \<Longrightarrow> mn_publishers m' = 0" using monitor_invD(7) [OF inv] publishers by simp
qed (use quiet_tasksD [OF quiet] tasks_quiet [OF _ quiet] in simp_all)

text \<open>A change of one slot, seen from the whole state.\<close>

lemma frame_inv:
  assumes inv: "monitor_inv es m mem ats refs" and init: "mn_initialized m"
    and at: "mn_slots m = Some a" "mn_payload m = Some b" "mm_slots mem a = Some xs" "mm_payload mem b = Some bs"
    and store: "store_ok es m refs xs bs" and moves: "frame_moves e es m m' refs refs' xs bs i slot" and same: "same_frames m' m''"
    and tasks: "tasks_ok (e # es) m' (xs[i := slot]) bs ats'"
    and own: "map own_slots ats' = map own_slots ats" "map own_payload ats' = map own_payload ats"
    and new: "\<forall>x \<in> set ats'. x \<in> set ats \<or> new_blocks (mn_lock_initialized m) mem x \<and> own_slots x = None \<and> own_payload x = None"
    and publishers: "unat (mn_publishers m'') = total_of publishing ats'" and remembered: "notes_ok (e # es) m'"
  shows "monitor_inv (e # es) m'' (mem\<lparr>mm_slots := (mm_slots mem)(a \<mapsto> xs[i := slot])\<rparr>) ats' refs'"
proof -
  have first: "same_store m m'" using moves by (simp add: frame_moves_def)
  then have both: "same_store m m''" using same_frames_store [OF same] by (auto simp: same_store_def)
  have "notes_ok (e # es) m''" using remembered same by (simp add: notes_ok_def same_frames_def frame_used_def)
  moreover have "mem\<lparr>mm_slots := (mm_slots mem)(a \<mapsto> xs[i := slot])\<rparr> =
      \<lparr>mm_slots = (mm_slots mem)(a \<mapsto> xs[i := slot]), mm_payload = (mm_payload mem)(b \<mapsto> bs)\<rparr>"
    using at(4) by (simp add: fun_upd_idem)
  ultimately show ?thesis
    using monitor_inv_moves [OF inv init at both store_same [OF store_moves [OF store moves] same] tasks_same [OF tasks same] own new publishers] by simp
qed

section \<open>Calls that name a frame\<close>

lemma frame_note:
  assumes inv: "monitor_inv es m mem ats refs" and moves: "frame_moves e es m m' refs refs' xs bs i slot"
    and store: "store_ok es m refs xs bs" and used: "ms_owner (xs ! i) \<noteq> FRAME_FREE"
    and e: "e = Quiet \<or> note_event e = Some (event_of m i (xs ! i)) \<and> (\<forall>info bytes. e \<noteq> Captured (event_of m i (xs ! i)) info bytes)"
  shows "notes_ok (e # es) m'"
proof -
  have same: "same_store m m'" and i: "i < length xs" using moves by (auto simp: frame_moves_def)
  note remembered = monitor_invD(1) [OF inv]
  note frame = frame_in_use [OF store i used]
  from e show ?thesis
  proof (elim disjE conjE)
    assume "e = Quiet"
    then show ?thesis using notes_quiet [OF remembered same] by simp
  next
    assume "note_event e = Some (event_of m i (xs ! i))" "\<forall>info bytes. e \<noteq> Captured (event_of m i (xs ! i)) info bytes"
    then show ?thesis
      using notes_event [OF remembered same, of e "event_of m i (xs ! i)"] same_store_simps(10) [OF same frame(1)]
      by (cases e) (auto simp: event_of_def)
  qed
qed

lemma change_owner_inv:
  assumes inv: "monitor_inv es m mem ats refs" and quiet: "quiet_tasks ats ats'"
    and expected: "expected = FRAME_EVENT \<or> expected = FRAME_PUBLIC" "taking \<Longrightarrow> expected = FRAME_EVENT \<and> e = Taken event"
    and e: "note_event e = Some event" "\<forall>info bytes. e \<noteq> Captured event info bytes"
  shows "monitor_change_owner event expected taking m mem = Some (False, m, mem) \<or>
    (\<exists>m' mem'. monitor_change_owner event expected taking m mem = Some (True, m', mem') \<and> monitor_inv (e # es) m' mem' ats' refs)"
proof (cases "mn_lock_initialized m \<and> mn_initialized m")
  case False
  then show ?thesis by (auto simp: monitor_change_owner_def monitor_slot_locked_def)
next
  case True
  then have init: "mn_initialized m" by simp
  obtain a b xs bs where at: "mn_slots m = Some a" "mn_payload m = Some b" "mm_slots mem a = Some xs" "mm_payload mem b = Some bs"
    and store: "store_ok es m refs xs bs" and tasks: "tasks_ok es m xs bs ats" using monitor_inv_store [OF inv init] by blast
  define i where "i = unat (me_index event)"
  note q = quiet_tasksD [OF quiet]
  consider "monitor_slot_locked event m mem = Some None \<or> ms_owner (xs ! i) \<noteq> expected \<and> monitor_slot_locked event m mem = Some (Some (xs ! i))"
    | "i < length xs" "event = event_of m i (xs ! i)" "ms_owner (xs ! i) = expected" "monitor_slot_locked event m mem = Some (Some (xs ! i))"
    using slot_locked [OF store init at(1,3), of event, folded i_def] by metis
  then show ?thesis
  proof cases
    case 1
    then show ?thesis using True by (auto simp: monitor_change_owner_def)
  next
    case 2
    have used: "ms_owner (xs ! i) \<noteq> FRAME_FREE" "ms_owner (xs ! i) \<noteq> FRAME_CLOSED" "ms_owner (xs ! i) \<noteq> FRAME_WRITING"
      using expected(1) 2(3) by auto
    define r where "r = (if taking then (True, (xs ! i)\<lparr>ms_owner := FRAME_PUBLIC\<rparr>, m) else monitor_close_locked (xs ! i) m)"
    obtain valid slot m' where r': "r = (valid, slot, m')" by (cases r)
    have moves: "valid \<and> frame_moves e es m m' refs refs xs bs i slot \<and> ms_owner slot \<noteq> FRAME_WRITING \<and> (m' = m \<or> m' = pool_given i m)"
    proof (cases taking)
      case True
      then show ?thesis using take_moves [OF store 2(1)] expected(2) 2(2,3) r' by (auto simp: r_def)
    next
      case False
      then show ?thesis using close_moves [OF store 2(1) used(1,2), of valid slot m' e] r' e 2(2) by (simp add: r_def)
    qed
    then have frame: "frame_moves e es m m' refs refs xs bs i slot" by simp
    have slots: "mn_slots m' = Some a" using moves at(1) by (auto simp: pool_given_def)
    have "monitor_change_owner event expected taking m mem = Some (True, m', mem\<lparr>mm_slots := (mm_slots mem)(a \<mapsto> xs[i := slot])\<rparr>)"
    proof -
      have "monitor_change_owner event expected taking m mem =
          (case r of (valid, slot, m) \<Rightarrow> map_option (\<lambda>mem. (valid, m, mem)) (slot_write (mn_slots m) i slot mem))"
        unfolding monitor_change_owner_def 2(4) r_def i_def [symmetric] using True 2(3) by (simp only: option.case) simp
      then show ?thesis using r' moves slots at(3) 2(1) by simp
    qed
    moreover have "monitor_inv (e # es) m' (mem\<lparr>mm_slots := (mm_slots mem)(a \<mapsto> xs[i := slot])\<rparr>) ats' refs"
    proof (rule frame_inv [OF inv init at store frame same_frames_refl])
      show "tasks_ok (e # es) m' (xs[i := slot]) bs ats'"
        using tasks_quiet [OF tasks_idle [OF tasks _ 2(1) used(3)] quiet] moves by (simp add: frame_moves_def)
      show "unat (mn_publishers m') = total_of publishing ats'"
        using monitor_invD(5) [OF inv] q(3) moves by (auto simp: pool_given_def)
      show "notes_ok (e # es) m'" using frame_note [OF inv frame store used(1)] e 2(2) by simp
      show "\<forall>x \<in> set ats'. x \<in> set ats \<or> new_blocks (mn_lock_initialized m) mem x \<and> own_slots x = None \<and> own_payload x = None"
        using q(4) by blast
    qed (rule q)+
    ultimately show ?thesis by blast
  qed
qed

lemma slots_unchanged: "mm_slots mem a = Some xs \<Longrightarrow> mem\<lparr>mm_slots := (mm_slots mem)(a \<mapsto> xs[i := (xs ! i)\<lparr>ms_lease := ms_lease (xs ! i)\<rparr>])\<rparr> = mem"
  by (simp add: fun_upd_idem)

lemma retain_inv:
  assumes inv: "monitor_inv es m mem ats refs" and h: "h < length refs"
  shows "\<exists>retained ref mem'. monitor_retain_frame event (refs ! h) m mem = Some (retained, ref, mem') \<and>
    monitor_inv (Quiet # es) m mem' ats (refs[h := ref])"
proof -
  have stay: "monitor_inv (Quiet # es) m mem ats (refs[h := refs ! h])"
    using quiet_inv [OF inv same_frames_refl _ refl, of ats] by (simp add: quiet_tasks_def)
  show ?thesis
  proof (cases "mn_lock_initialized m \<and> refs ! h = None \<and> mn_initialized m")
    case False
    then have "monitor_retain_frame event (refs ! h) m mem = Some (False, refs ! h, mem)"
      by (auto simp: monitor_retain_frame_def monitor_slot_locked_def)
    then show ?thesis using stay by blast
  next
    case True
    then have init: "mn_initialized m" and none: "refs ! h = None" by simp_all
    obtain a b xs bs where at: "mn_slots m = Some a" "mn_payload m = Some b" "mm_slots mem a = Some xs" "mm_payload mem b = Some bs"
      and store: "store_ok es m refs xs bs" and tasks: "tasks_ok es m xs bs ats" using monitor_inv_store [OF inv init] by blast
    define i where "i = unat (me_index event)"
    consider "monitor_slot_locked event m mem = Some None \<or> ms_owner (xs ! i) \<noteq> FRAME_PUBLIC \<and> monitor_slot_locked event m mem = Some (Some (xs ! i))"
      | "i < length xs" "event = event_of m i (xs ! i)" "ms_owner (xs ! i) = FRAME_PUBLIC" "monitor_slot_locked event m mem = Some (Some (xs ! i))"
      using slot_locked [OF store init at(1,3), of event, folded i_def] by metis
    then show ?thesis
    proof cases
      case 1
      then have "monitor_retain_frame event (refs ! h) m mem = Some (False, refs ! h, mem)"
        using True by (auto simp: monitor_retain_frame_def)
      then show ?thesis using stay by blast
    next
      case 2
      have identity: "me_identity event = lease_generation (ms_lease (xs ! i))" using 2(2) by (metis event_of_def monitor_event.select_convs(2))
      obtain ok l where retain: "native_lease_retain (lease_generation (ms_lease (xs ! i))) (ms_lease (xs ! i)) = (ok, l)"
        by (metis surj_pair)
      have result: "monitor_retain_frame event (refs ! h) m mem = Some (ok, if ok then Some event else None,
          mem\<lparr>mm_slots := (mm_slots mem)(a \<mapsto> xs[i := (xs ! i)\<lparr>ms_lease := l\<rparr>])\<rparr>)"
        unfolding monitor_retain_frame_def 2(4) identity i_def [symmetric] using True 2(1,3) retain at by simp
      show ?thesis
      proof (cases ok)
        case False
        then have "l = ms_lease (xs ! i)" using lease_retain_slot [OF retain] by simp
        then show ?thesis using result False stay none slots_unchanged [OF at(3), of i] by (intro exI conjI) (assumption, simp)
      next
        case ok: True
        have used: "ms_owner (xs ! i) \<noteq> FRAME_FREE" "ms_owner (xs ! i) \<noteq> FRAME_WRITING" using 2(3) by simp_all
        have frame: "frame_moves Quiet es m m refs (refs[h := Some event]) xs bs i ((xs ! i)\<lparr>ms_lease := l\<rparr>)"
          unfolding 2(2) by (rule retain_moves [OF store 2(1,3) h none]) (use retain ok in simp)
        have "monitor_inv (Quiet # es) m (mem\<lparr>mm_slots := (mm_slots mem)(a \<mapsto> xs[i := (xs ! i)\<lparr>ms_lease := l\<rparr>])\<rparr>) ats (refs[h := Some event])"
          by (rule frame_inv [OF inv init at store frame same_frames_refl])
            (use tasks_idle [OF tasks same_store_refl 2(1) used(2)] used 2(3) monitor_invD(5) [OF inv] frame_note [OF inv frame store used(1)] in simp_all)
        then show ?thesis using result ok by auto
      qed
    qed
  qed
qed

lemma release_ref_inv:
  assumes inv: "monitor_inv es m mem ats refs" and h: "h < length refs"
  shows "\<exists>released m' mem'. monitor_release_ref (refs ! h) m mem = Some (released, m', mem') \<and>
    monitor_inv (Quiet # es) m' mem' ats (refs[h := None])"
proof (cases "refs ! h")
  case None
  then have "refs[h := None] = refs" by (metis list_update_id)
  then show ?thesis
    using None quiet_inv [OF inv same_frames_refl _ refl, of ats] by (auto simp: quiet_tasks_def monitor_release_ref_def)
next
  case (Some event)
  then have mem: "Some event \<in> set refs" using h by (metis nth_mem)
  then have init: "mn_initialized m" using monitor_invD(7) [OF inv] by auto
  obtain a b xs bs where at: "mn_slots m = Some a" "mn_payload m = Some b" "mm_slots mem a = Some xs" "mm_payload mem b = Some bs"
    and store: "store_ok es m refs xs bs" and tasks: "tasks_ok es m xs bs ats" using monitor_inv_store [OF inv init] by blast
  define i where "i = unat (me_index event)"
  have i: "i < length xs" and event: "event = event_of m i (xs ! i)" and owner: "ms_owner (xs ! i) = FRAME_PUBLIC \<or> ms_owner (xs ! i) = FRAME_CLOSED"
    using ref_named [OF store mem, of i] by (simp_all add: i_def)
  have used: "ms_owner (xs ! i) \<noteq> FRAME_FREE" "ms_owner (xs ! i) \<noteq> FRAME_WRITING" using owner by auto
  have locked: "monitor_slot_locked event m mem = Some (Some (xs ! i))"
    unfolding event by (rule slot_lockedI [OF store init at(1,3) i used(1)])
  have identity: "me_identity event = lease_generation (ms_lease (xs ! i))" using event by (metis event_of_def monitor_event.select_convs(2))
  obtain released l pool where release: "native_lease_release (lease_generation (ms_lease (xs ! i))) (ms_lease (xs ! i), mn_pool m) = (released, l, pool)"
    by (metis surj_pair)
  obtain slot m' where account: "monitor_account_return ((xs ! i)\<lparr>ms_lease := l\<rparr>) (m\<lparr>mn_pool := pool\<rparr>) = (slot, m')"
    by (metis surj_pair)
  note moves = release_moves [OF store h Some [unfolded event] i release account]
  then have frame: "frame_moves Quiet es m m' refs (refs[h := None]) xs bs i slot" by simp
  have slots: "mn_slots m' = Some a" using moves at(1) by (auto simp: pool_given_def)
  have "monitor_release_ref (refs ! h) m mem = Some (True, m', mem\<lparr>mm_slots := (mm_slots mem)(a \<mapsto> xs[i := slot])\<rparr>)"
    unfolding monitor_release_ref_def Some option.case locked identity i_def [symmetric] using release account moves slots at(3) i by simp
  moreover have "monitor_inv (Quiet # es) m' (mem\<lparr>mm_slots := (mm_slots mem)(a \<mapsto> xs[i := slot])\<rparr>) ats (refs[h := None])"
  proof (rule frame_inv [OF inv init at store frame same_frames_refl])
    show "tasks_ok (Quiet # es) m' (xs[i := slot]) bs ats"
      using tasks_idle [OF tasks _ i used(2)] moves by (simp add: frame_moves_def)
    show "unat (mn_publishers m') = total_of publishing ats" using monitor_invD(5) [OF inv] moves by (auto simp: pool_given_def)
    show "notes_ok (Quiet # es) m'" using frame_note [OF inv frame store used(1)] by simp
  qed simp_all
  ultimately show ?thesis by blast
qed

lemma frame_info_safe:
  assumes "monitor_inv es m mem ats refs"
  shows "monitor_frame_info event m mem \<noteq> None" "monitor_ref_data ref m mem \<noteq> None"
proof -
  have locked: "monitor_slot_locked event m mem \<noteq> None" for event
  proof (cases "mn_initialized m")
    case True
    then obtain a b xs bs where "mn_slots m = Some a" "mm_slots mem a = Some xs" "store_ok es m refs xs bs"
      using monitor_inv_store [OF assms] by metis
    then show ?thesis using slot_locked [of es m refs xs bs a mem event] True by fastforce
  qed (simp add: monitor_slot_locked_def)
  show "monitor_frame_info event m mem \<noteq> None"
    using locked [of event] by (auto simp: monitor_frame_info_def split: option.splits)
  show "monitor_ref_data ref m mem \<noteq> None"
  proof (cases ref)
    case (Some event)
    then show ?thesis using locked [of event] by (auto simp: monitor_ref_data_def split: option.splits)
  qed (simp add: monitor_ref_data_def)
qed

section \<open>Publishing\<close>

lemma publish_begin_inv:
  assumes inv: "monitor_inv es m mem ats refs" and few: "length ats < 2 ^ 32" and t: "t < length ats" "ats ! t = M_idle"
    and view: "case pointer of None \<Rightarrow> True | Some view \<Rightarrow>
        (case vw_bytes view of None \<Rightarrow> True | Some bs \<Rightarrow> unat (vw_readable_length view) \<le> length bs)"
  shows "\<exists>r m' mem'. publish_begin pointer filter_result time m mem = Some (r, m', mem') \<and>
    monitor_inv ((case r of Inl result \<Rightarrow> Quiet | Inr p \<Rightarrow> Captured (pb_event p) (publication_info p) (publication_bytes p)) # es)
      m' mem' (ats[t := case r of Inl result \<Rightarrow> M_idle | Inr p \<Rightarrow> M_copying p 0]) refs"
proof -
  have refused: ?thesis if "publish_begin pointer filter_result time m mem = Some (Inl result, m', mem)" "same_frames m m'"
    "mn_publishers m' = mn_publishers m" for result m'
  proof -
    have "ats[t := M_idle] = ats" using t by (metis list_update_id)
    then show ?thesis using that quiet_inv [OF inv that(2) _ that(3), of ats] by (auto simp: quiet_tasks_def)
  qed
  show ?thesis
  proof (cases "mn_lock_initialized m \<and> mn_initialized m")
    case False
    then show ?thesis by (intro refused [of PUBLISH_CLOSING m]) (auto simp: publish_begin_def same_frames_refl)
  next
    case True
    note checks = publish_checks_cases [where pointer = pointer and filter_result = filter_result and m = m]
    show ?thesis
    proof (cases "publish_checks pointer filter_result m")
      case (Inl r)
      then show ?thesis using True checks by (intro refused [of "fst r" "snd r"]) (auto simp: publish_begin_def split: prod.splits)
    next
      case (Inr r)
      then obtain view m1 where r: "publish_checks pointer filter_result m = Inr (view, m1)" by (cases r) simp
      then have same: "same_frames m m1" and m1: "mn_publishers m1 = mn_publishers m" "mn_next_identity m1 \<noteq> 0" "pointer = Some view"
        "vw_bytes view = None \<longrightarrow> vw_readable_length view = 0" using checks by (auto simp: same_frames_def)
      have ok: "view_ok view" using m1(3,4) view by (auto simp: view_ok_def split: option.splits)
      have init: "mn_initialized m" using True by simp
      obtain a b xs bs where at: "mn_slots m = Some a" "mn_payload m = Some b" "mm_slots mem a = Some xs" "mm_payload mem b = Some bs"
        and store: "store_ok es m refs xs bs" and tasks: "tasks_ok es m xs bs ats" using monitor_inv_store [OF inv init] by blast
      have store1: "store_ok es m1 refs xs bs" by (rule store_same [OF store same])
      have begin_eq: "publish_begin pointer filter_result time m mem = publish_reserve view time m1 mem"
        using True r by (simp add: publish_begin_def)
      have notes1: "notes_ok es m1"
        using monitor_invD(1) [OF inv] same by (simp add: notes_ok_def same_frames_def frame_used_def)
      have slots1: "mn_slots m1 = Some a" using at(1) same by (simp add: same_frames_def)
      from publish_reserve_moves [OF store1 notes1 m1(2) slots1 at(3), of view time]
      show ?thesis
      proof (elim disjE exE conjE)
        assume "publish_reserve view time m1 mem = Some (Inl PUBLISH_POOL_FULL, monitor_add COUNT_DROPPED_POOL_FULL 1 m1, mem)"
        then show ?thesis using same m1(1) by (intro refused [of PUBLISH_POOL_FULL "monitor_add COUNT_DROPPED_POOL_FULL 1 m1"]) (auto simp: begin_eq same_frames_def)
      next
        fix i m' slot p e
        assume result: "publish_reserve view time m1 mem = Some (Inr p, m', mem\<lparr>mm_slots := (mm_slots mem)(a \<mapsto> xs[i := slot])\<rparr>)"
          and p: "p = publication_of view time i m1" and e: "e = Captured (pb_event p) (publication_info p) (publication_bytes p)"
          and moves: "frame_moves e es m1 m' refs refs xs bs i slot" and publishers: "mn_publishers m' = mn_publishers m1 + 1"
          and slot: "ms_owner slot = FRAME_WRITING" "ms_owner (xs ! i) = FRAME_FREE" "pb_event p = event_of m1 i slot" "i < length xs"
        have same': "same_store m1 m'" using moves by (simp add: frame_moves_def)
        have inv1: "monitor_inv es m1 mem ats refs"
          using inv monitor_invD(6) [OF inv init] notes1 store_same [OF store same] tasks_same [OF tasks same] same m1(1) at init
          unfolding monitor_inv_def by (simp add: same_frames_def)
        have i128: "i < 128" using slot(4) store_okD(2) [OF store] by simp
        have "publication_ok (e # es) m' (xs[i := slot]) p"
          using slot publication_of_bytes [OF ok, of time i m1] index_of_event [OF i128, of m1 slot]
          unfolding publication_ok_def same_store_simps [OF same'] by (simp add: e p publication_of_def Let_def)
        then have writer: "writer_ok (e # es) m' (xs[i := slot]) bs (M_copying p 0)" by simp
        have of_p: "writer_of (M_copying p 0) = Some i" using slot(3) index_of_event [OF i128, of m1 slot] by simp
        have "monitor_inv (e # es) m' (mem\<lparr>mm_slots := (mm_slots mem)(a \<mapsto> xs[i := slot])\<rparr>) (ats[t := M_copying p 0]) refs"
        proof (rule frame_inv [OF inv1 _ slots1 _ at(3,4) store1 moves same_frames_refl])
          show "mn_initialized m1" "mn_payload m1 = Some b" using same init at(2) by (simp_all add: same_frames_def)
          show "tasks_ok (e # es) m' (xs[i := slot]) bs (ats[t := M_copying p 0])"
            by (rule tasks_step [OF tasks_same [OF tasks same] same' t(1) slot(4) _ writer]) (use slot of_p t(2) in auto)
          show "map own_slots (ats[t := M_copying p 0]) = map own_slots ats" "map own_payload (ats[t := M_copying p 0]) = map own_payload ats"
            using t by (simp_all add: map_update_same)
          show "\<forall>x \<in> set (ats[t := M_copying p 0]). x \<in> set ats \<or> new_blocks (mn_lock_initialized m1) mem x \<and> own_slots x = None \<and> own_payload x = None"
            using set_update_subset_insert [of ats t "M_copying p 0"] by auto
          have sum: "total_of publishing (ats[t := M_copying p 0]) = Suc (total_of publishing ats)"
            using total_of_update [OF t(1), of publishing "M_copying p 0"] t(2) by simp
          have "total_of publishing ys \<le> length ys" for ys
          proof (induction ys)
            case (Cons y ys)
            then show ?case by (cases y) (auto simp: total_of_def)
          qed (simp add: total_of_def)
          from this [of "ats[t := M_copying p 0]"] have "Suc (total_of publishing ats) < 2 ^ 32" using few sum by simp
          then show "unat (mn_publishers m') = total_of publishing (ats[t := M_copying p 0])"
            using monitor_invD(5) [OF inv] sum publishers m1(1) by (simp add: unat_next_small)
          have fresh: "Captured (pb_event p) info bytes \<notin> set es" for info bytes
            using identity_fresh [OF notes1, of "Captured (pb_event p) info bytes" "pb_event p"] by (auto simp: p publication_of_def Let_def)
          show "notes_ok (e # es) m'"
          proof (rule notes_event [OF notes1 same', of e "pb_event p"])
            show "frame_used m' (me_identity (pb_event p))"
              using moves slot(1,3) by (simp add: frame_moves_def frame_ok_def event_of_def)
          qed (use fresh in \<open>auto simp: e p publication_of_def Let_def\<close>)
        qed
        then show ?thesis using result e by (auto simp: begin_eq)
      qed
    qed
  qed
qed

text \<open>A writer of a slot goes on.\<close>

lemma own_kept:
  assumes "t < length ats" "own_slots (ats ! t) = None" "own_payload (ats ! t) = None" "own_slots a = None" "own_payload a = None"
    "\<forall>lock mem. new_blocks lock mem a"
  shows "map own_slots (ats[t := a]) = map own_slots ats" "map own_payload (ats[t := a]) = map own_payload ats"
    "\<forall>x \<in> set (ats[t := a]). x \<in> set ats \<or> new_blocks (mn_lock_initialized m) mem x \<and> own_slots x = None \<and> own_payload x = None"
  using assms set_update_subset_insert [of ats t a] by (auto simp: map_update_same)

lemma publishing_kept:
  assumes "t < length ats"
  shows "total_of publishing (ats[t := a]) + publishing (ats ! t) = total_of publishing ats + publishing a"
  by (rule total_of_update [OF assms])

lemma publishing_initialized:
  assumes "monitor_inv es m mem ats refs" "t < length ats" "publishing (ats ! t) = 1"
  shows "mn_initialized m"
proof (rule ccontr)
  assume "\<not> mn_initialized m"
  then show False
    using total_of_member [OF assms(2), of publishing] assms(3) monitor_invD(5,7) [OF assms(1)] by simp
qed

lemma proceed_copying:
  assumes inv: "monitor_inv es m mem ats refs" and t: "t < length ats" "ats ! t = M_copying p k"
  shows "\<exists>e a m' mem'. monitor_proceed (ats ! t) published blocks m mem = Some (e, a, m', mem') \<and>
    monitor_inv (e # es) m' mem' (ats[t := a]) refs"
proof -
  have init: "mn_initialized m" by (rule publishing_initialized [OF inv t(1)]) (simp add: t(2))
  obtain a b xs bs where at: "mn_slots m = Some a" "mn_payload m = Some b" "mm_slots mem a = Some xs" "mm_payload mem b = Some bs"
    and store: "store_ok es m refs xs bs" and tasks: "tasks_ok es m xs bs ats" using monitor_inv_store [OF inv init] by blast
  have writer: "writer_ok es m xs bs (M_copying p k)" using tasks_okD(1) [OF tasks t(1)] t(2) by simp
  show ?thesis
  proof (cases "k < unat (pb_length p)")
    case True
    from copy_moves [OF store writer True at(2,4)] obtain i bs' where copy:
      "publish_copy p k mem = Some (mem\<lparr>mm_payload := (mm_payload mem)(b \<mapsto> bs')\<rparr>)" "i < length xs"
      "writer_of (M_copying p k) = Some i" "ms_owner (xs ! i) = FRAME_WRITING" "store_ok (Quiet # es) m refs xs bs'"
      "writer_ok (Quiet # es) m xs bs' (M_copying p (k + 1))" "\<And>j. j \<noteq> i \<Longrightarrow> j < length xs \<Longrightarrow> slot_bytes m bs' j = slot_bytes m bs j"
      by blast
    have same: "mem\<lparr>mm_payload := (mm_payload mem)(b \<mapsto> bs')\<rparr> = \<lparr>mm_slots = (mm_slots mem)(a \<mapsto> xs), mm_payload = (mm_payload mem)(b \<mapsto> bs')\<rparr>"
      using at(3) by (simp add: fun_upd_idem)
    have next_tasks: "tasks_ok (Quiet # es) m xs bs' (ats[t := M_copying p (k + 1)])"
      using tasks_step [OF tasks same_store_refl t(1) copy(2), of Quiet "xs ! i" bs' "M_copying p (k + 1)"] copy(3,4,6,7) t(2) by simp
    have "monitor_inv (Quiet # es) m (mem\<lparr>mm_payload := (mm_payload mem)(b \<mapsto> bs')\<rparr>) (ats[t := M_copying p (k + 1)]) refs"
      by (rule monitor_inv_moves [OF inv init at same_store_refl copy(5) next_tasks _ _ _ _ _ same])
        (use own_kept [OF t(1), of "M_copying p (k + 1)"] t(2) publishing_kept [OF t(1), of "M_copying p (k + 1)"]
          monitor_invD(5) [OF inv] notes_quiet [OF monitor_invD(1) [OF inv] same_store_refl] in simp_all)
    then show ?thesis using copy(1) True by (simp add: t(2))
  next
    case False
    from describe_moves [OF store writer False at(1,3)] obtain i slot where moves:
      "publish_describe p mem = Some (mem\<lparr>mm_slots := (mm_slots mem)(a \<mapsto> xs[i := slot])\<rparr>)" "i < length xs"
      "writer_of (M_copying p k) = Some i" "ms_owner slot = FRAME_WRITING" "frame_moves Quiet es m m refs refs xs bs i slot"
      "writer_ok (Quiet # es) m (xs[i := slot]) bs (M_committing p)" by blast
    have next_tasks: "tasks_ok (Quiet # es) m (xs[i := slot]) bs (ats[t := M_committing p])"
      by (rule tasks_step [OF tasks same_store_refl t(1) moves(2) _ moves(6)]) (use moves t(2) in simp_all)
    have "monitor_inv (Quiet # es) m (mem\<lparr>mm_slots := (mm_slots mem)(a \<mapsto> xs[i := slot])\<rparr>) (ats[t := M_committing p]) refs"
      by (rule frame_inv [OF inv init at store moves(5) same_frames_refl next_tasks])
        (use own_kept [OF t(1), of "M_committing p"] t(2) publishing_kept [OF t(1), of "M_committing p"]
          monitor_invD(5) [OF inv] notes_quiet [OF monitor_invD(1) [OF inv] same_store_refl] in simp_all)
    then show ?thesis using moves(1) False by (simp add: t(2))
  qed
qed

lemma publishers_down:
  assumes inv: "monitor_inv es m mem ats refs" and t: "t < length ats" "publishing (ats ! t) = 1" "publishing a = 0"
  shows "unat (mn_publishers m - 1) = total_of publishing (ats[t := a])"
proof -
  have sum: "total_of publishing (ats[t := a]) + 1 = unat (mn_publishers m)"
    using publishing_kept [OF t(1), of a] t(2,3) monitor_invD(5) [OF inv] by simp
  then have "0 < mn_publishers m" by (simp add: word_less_nat_alt)
  then show ?thesis using sum by (simp add: unat_dec)
qed

lemma proceed_committing:
  assumes inv: "monitor_inv es m mem ats refs" and t: "t < length ats" "ats ! t = M_committing p"
  shows "\<exists>e a m' mem'. monitor_proceed (ats ! t) published blocks m mem = Some (e, a, m', mem') \<and>
    monitor_inv (e # es) m' mem' (ats[t := a]) refs"
proof -
  have init: "mn_initialized m" by (rule publishing_initialized [OF inv t(1)]) (simp add: t(2))
  obtain a b xs bs where at: "mn_slots m = Some a" "mn_payload m = Some b" "mm_slots mem a = Some xs" "mm_payload mem b = Some bs"
    and store: "store_ok es m refs xs bs" and tasks: "tasks_ok es m xs bs ats" using monitor_inv_store [OF inv init] by blast
  have writer: "writer_ok es m xs bs (M_committing p)" using tasks_okD(1) [OF tasks t(1)] t(2) by simp
  note remembered = monitor_invD(1) [OF inv]
  show ?thesis
  proof (cases rule: commit_moves [OF store writer at(1,3)])
    case (1 i slot m')
    have same: "same_store m m'" using 1(6) by (simp add: frame_moves_def)
    define m'' where "m'' = monitor_add COUNT_DROPPED_CLOSING 1 (m'\<lparr>mn_publishers := mn_publishers m - 1\<rparr>)"
    have next_tasks: "tasks_ok (Quiet # es) m' (xs[i := slot]) bs (ats[t := M_idle])"
      by (rule tasks_step [OF tasks same t(1) 1(3)]) (use 1 t(2) in simp_all)
    have "same_frames m' m''" "mn_publishers m'' = mn_publishers m - 1" by (simp_all add: m''_def same_frames_def)
    then have "monitor_inv (Quiet # es) m'' (mem\<lparr>mm_slots := (mm_slots mem)(a \<mapsto> xs[i := slot])\<rparr>) (ats[t := M_idle]) refs"
      by (intro frame_inv [OF inv init at store 1(6) _ next_tasks])
        (use own_kept [OF t(1), of M_idle] t(2) publishers_down [OF inv t(1), of M_idle] notes_quiet [OF remembered same] in simp_all)
    then show ?thesis using 1(2) by (simp add: t(2) m''_def)
  next
    case (2 i slot)
    have next_tasks: "tasks_ok (Quiet # es) m (xs[i := slot]) bs (ats[t := M_offering p])"
      by (rule tasks_step [OF tasks same_store_refl t(1) 2(2)]) (use 2 t(2) in simp_all)
    have "monitor_inv (Quiet # es) m (mem\<lparr>mm_slots := (mm_slots mem)(a \<mapsto> xs[i := slot])\<rparr>) (ats[t := M_offering p]) refs"
      by (rule frame_inv [OF inv init at store 2(5) same_frames_refl next_tasks])
        (use own_kept [OF t(1), of "M_offering p"] t(2) publishing_kept [OF t(1), of "M_offering p"]
          monitor_invD(5) [OF inv] notes_quiet [OF remembered same_store_refl] in simp_all)
    then show ?thesis using 2(1) by (simp add: t(2))
  qed
qed

lemma proceed_offered:
  assumes inv: "monitor_inv es m mem ats refs" and t: "t < length ats"
    and at: "ats ! t = M_offering p \<or> ats ! t = M_refused p \<or> ats ! t = M_settling p answer"
  shows "\<exists>e a m' mem'. monitor_proceed (ats ! t) published blocks m mem = Some (e, a, m', mem') \<and>
    monitor_inv (e # es) m' mem' (ats[t := a]) refs"
  using at
proof (elim disjE)
  assume now: "ats ! t = M_offering p"
  have "quiet_tasks ats (ats[t := a])" if "a = M_settling p True \<or> a = M_refused p" for a
    using that by (intro quiet_tasksI [OF t]) (auto simp: now quiet_move_def)
  then show ?thesis using quiet_inv [OF inv same_frames_refl _ refl] by (simp add: now)
next
  assume now: "ats ! t = M_refused p"
  have quiet: "quiet_tasks ats (ats[t := M_settling p False])" by (intro quiet_tasksI [OF t]) (simp add: now quiet_move_def)
  consider "monitor_discard_event (pb_event p) m mem = Some (False, m, mem)"
    | m' mem' where "monitor_discard_event (pb_event p) m mem = Some (True, m', mem')"
      "monitor_inv (Discarded (pb_event p) # es) m' mem' (ats[t := M_settling p False]) refs"
    using change_owner_inv [OF inv quiet, of FRAME_EVENT False "Discarded (pb_event p)" "pb_event p"]
    by (auto simp: monitor_discard_event_def)
  then show ?thesis
  proof cases
    case 1
    then show ?thesis using quiet_inv [OF inv same_frames_refl quiet refl] by (simp add: now)
  next
    case 2
    then show ?thesis by (simp add: now)
  qed
next
  assume now: "ats ! t = M_settling p answer"
  define m' where "m' = snd (publish_settle p answer m)"
  have m': "same_frames m m'" "mn_publishers m' = mn_publishers m - 1"
    by (simp_all add: m'_def publish_settle_def Let_def same_frames_def)
  have init: "mn_initialized m" by (rule publishing_initialized [OF inv t]) (simp add: now)
  have tasks: "tasks_ok es m xs bs (ats[t := M_idle])" if "tasks_ok es m xs bs ats" for es m xs bs
    by (rule tasks_calm [OF that t]) (simp_all add: now)
  have "monitor_inv (Quiet # es) m' mem (ats[t := M_idle]) refs"
    by (rule calm_inv [OF inv m'(1) _ _ _ tasks])
      (use set_update_subset_insert [of ats t M_idle] own_kept(1,2) [OF t, of M_idle] now init publishers_down [OF inv t, of M_idle] m'(2) in auto)
  then show ?thesis by (simp add: now m'_def)
qed

section \<open>Blocks of memory\<close>

lemma owners_okD:
  assumes "owners_ok installed alive owned" "t < length owned" "owned ! t = Some a"
  shows "alive a" "installed \<noteq> Some a" "u < length owned \<Longrightarrow> owned ! u = Some a \<Longrightarrow> u = t"
  using assms unfolding owners_ok_def by blast+

lemma owners_okI:
  assumes "\<And>t a. t < length owned \<Longrightarrow> owned ! t = Some a \<Longrightarrow> alive a \<and> installed \<noteq> Some a"
    and "\<And>t u a. t < length owned \<Longrightarrow> u < length owned \<Longrightarrow> owned ! t = Some a \<Longrightarrow> owned ! u = Some a \<Longrightarrow> u = t"
  shows "owners_ok installed alive owned"
  using assms unfolding owners_ok_def by blast

lemma nth_update_other: "t < length xs \<Longrightarrow> xs[t := y] ! u = Some a \<Longrightarrow> y \<noteq> Some a \<Longrightarrow> u \<noteq> t \<and> xs ! u = Some a"
  by (cases "u = t") simp_all

lemma owners_none:
  assumes ok: "owners_ok installed alive owned" and t: "t < length owned" and alive: "\<And>a. alive a \<Longrightarrow> owned ! t \<noteq> Some a \<Longrightarrow> alive' a"
  shows "owners_ok installed alive' (owned[t := None])"
proof (rule owners_okI)
  fix u a assume u: "u < length (owned[t := None])" "owned[t := None] ! u = Some a"
  then have at: "u \<noteq> t" "owned ! u = Some a" "u < length owned" using nth_update_other [OF t u(2)] by simp_all
  then have "owned ! t \<noteq> Some a" using owners_okD(3) [OF ok at(3,2) t] by auto
  then show "alive' a \<and> installed \<noteq> Some a" using alive owners_okD(1,2) [OF ok at(3,2)] by blast
  fix v assume v: "v < length (owned[t := None])" "owned[t := None] ! v = Some a"
  then show "v = u" using owners_okD(3) [OF ok at(3,2), of v] nth_update_other [OF t v(2)] by simp
qed

lemma owners_installed:
  assumes ok: "owners_ok None alive owned" and t: "t < length owned" "owned ! t = Some a"
  shows "owners_ok (Some a) alive (owned[t := None])"
proof (rule owners_okI)
  fix u c assume u: "u < length (owned[t := None])" "owned[t := None] ! u = Some c"
  then have at: "u \<noteq> t" "owned ! u = Some c" "u < length owned" using nth_update_other [OF t(1) u(2)] by simp_all
  then show "alive c \<and> Some a \<noteq> Some c" using owners_okD(1) [OF ok at(3,2)] owners_okD(3) [OF ok t at(3)] by blast
  fix v assume v: "v < length (owned[t := None])" "owned[t := None] ! v = Some c"
  then show "v = u" using owners_okD(3) [OF ok at(3,2), of v] nth_update_other [OF t(1) v(2)] by simp
qed

lemma owners_taken:
  assumes ok: "owners_ok installed alive owned" and t: "t < length owned" and alive: "\<And>c. alive c \<Longrightarrow> alive' c" "alive' a"
    and installed: "installed' \<noteq> Some a" "\<And>c. installed' = Some c \<Longrightarrow> installed = Some c" and new: "Some a \<notin> set owned"
  shows "owners_ok installed' alive' (owned[t := Some a])"
proof (rule owners_okI)
  fix u c assume u: "u < length (owned[t := Some a])" "owned[t := Some a] ! u = Some c"
  have other: "c \<noteq> a \<Longrightarrow> v \<noteq> t \<and> owned ! v = Some c" if "owned[t := Some a] ! v = Some c" for v
    using nth_update_other [OF t that] by simp
  have mine: "v = t" if "owned[t := Some a] ! v = Some a" "v < length owned" for v
    using that new by (cases "v = t") (auto simp: in_set_conv_nth)
  show "alive' c \<and> installed' \<noteq> Some c"
  proof (cases "c = a")
    case False
    then show ?thesis using other [OF u(2)] owners_okD(1,2) [OF ok, of u c] u(1) alive(1) installed(2) by auto
  qed (use alive(2) installed(1) in simp)
  fix v assume v: "v < length (owned[t := Some a])" "owned[t := Some a] ! v = Some c"
  show "v = u"
  proof (cases "c = a")
    case True
    then show ?thesis using mine u v by auto
  next
    case False
    then show ?thesis using other [OF u(2)] other [OF v(2)] owners_okD(3) [OF ok, of u c v] u(1) v(1) by simp
  qed
qed

lemma own_update:
  "map own_slots (ats[t := x]) = (map own_slots ats)[t := own_slots x]" "map own_payload (ats[t := x]) = (map own_payload ats)[t := own_payload x]"
  by (simp_all add: map_update)

lemma owners_nth:
  assumes "owners_ok installed alive (map own ats)" "t < length ats" "own (ats ! t) = Some a"
  shows "alive a" "installed \<noteq> Some a" "u < length ats \<Longrightarrow> own (ats ! u) = Some a \<Longrightarrow> u = t"
  using owners_okD [OF assms(1), of t a] assms(2,3) by simp_all

text \<open>Nothing is initialised, and nothing becomes so.\<close>

lemma new_blocks_lock: "new_blocks lock mem x \<Longrightarrow> lock \<longrightarrow> lock' \<Longrightarrow> new_blocks lock' mem x"
  by (cases x) auto

lemma cold_inv:
  assumes inv: "monitor_inv es m mem ats refs" and cold: "\<not> mn_initialized m"
    and m': "\<not> mn_initialized m'" "mn_generation m' = mn_generation m" "mn_next_identity m' = mn_next_identity m"
      "mn_slots m' = mn_slots m" "mn_payload m' = mn_payload m" "mn_leased_frames m' = mn_leased_frames m" "mn_publishers m' = mn_publishers m"
    "mn_lock_initialized m \<longrightarrow> mn_lock_initialized m'"
    and t: "t < length ats" "quiet_move (ats ! t) a \<or> own_slots (ats ! t) = None \<and> own_payload (ats ! t) = None \<and>
      own_slots a = None \<and> own_payload a = None \<and> publishing (ats ! t) = 0 \<and> publishing a = 0" "new_blocks (mn_lock_initialized m') mem a"
  shows "monitor_inv (Quiet # es) m' mem (ats[t := a]) refs"
proof -
  note i = monitor_invD [OF inv]
  have own: "map own_slots (ats[t := a]) = map own_slots ats" "map own_payload (ats[t := a]) = map own_payload ats"
    "total_of publishing (ats[t := a]) = total_of publishing ats"
    using t publishing_kept [OF t(1), of a] by (auto simp: map_update_same quiet_move_def)
  have "notes_ok (Quiet # es) m'" using i(1) m' by (simp add: notes_ok_def frame_used_def)
  moreover have "\<forall>x \<in> set (ats[t := a]). new_blocks (mn_lock_initialized m') mem x"
    using new_blocks_lock [OF i(4)] m'(8) t(3) set_update_subset_insert [of ats t a] by blast
  ultimately show ?thesis using i(2,3,5,7) m' own cold unfolding monitor_inv_def by simp
qed

lemma init_begin_inv:
  assumes inv: "monitor_inv es m mem ats refs" and t: "t < length ats" "ats ! t = M_idle"
    and begin_eq: "monitor_init_begin slot_size generation capacity snap m = (available, m')"
  shows "monitor_inv (Quiet # es) m' mem (ats[t := if available then M_allocating generation capacity snap complete else M_idle]) refs"
proof (cases "mn_initialized m")
  case True
  then have "m' = m" "\<not> available"
    using begin_eq monitor_invD(6) [OF inv] by (auto simp: monitor_init_begin_def Let_def split: if_splits)
  moreover have "ats[t := M_idle] = ats" using t by (metis list_update_id)
  ultimately show ?thesis using quiet_inv [OF inv same_frames_refl _ refl, of ats] by (simp add: quiet_tasks_def)
next
  case False
  have m': "\<not> mn_initialized m'" "mn_generation m' = mn_generation m" "mn_next_identity m' = mn_next_identity m"
    "mn_slots m' = mn_slots m" "mn_payload m' = mn_payload m" "mn_leased_frames m' = mn_leased_frames m" "mn_publishers m' = mn_publishers m"
    using begin_eq False by (auto simp: monitor_init_begin_def Let_def split: if_splits)
  have lock: "mn_lock_initialized m \<longrightarrow> mn_lock_initialized m'"
    using begin_eq by (auto simp: monitor_init_begin_def Let_def split: if_splits)
  have "new_blocks (mn_lock_initialized m') mem (if available then M_allocating generation capacity snap complete else M_idle)"
    using begin_eq by (auto simp: monitor_init_begin_def monitor_size_def native_pool_consts Let_def split: if_splits)
  then show ?thesis by (intro cold_inv [OF inv False m' lock t(1)]) (simp_all add: t(2))
qed

lemma deinit_inv:
  assumes inv: "monitor_inv es m mem ats refs" and t: "t < length ats" "ats ! t = M_idle" and deinit: "monitor_deinit m = (r, m')"
  shows "monitor_inv (Quiet # es) m' mem (ats[t := case r of None \<Rightarrow> M_idle | Some (slots, payload) \<Rightarrow> M_freeing slots payload]) refs"
proof (cases r)
  case None
  then have "m' = m" using deinit by (auto simp: monitor_deinit_def split: if_splits)
  moreover have "ats[t := M_idle] = ats" using t by (metis list_update_id)
  ultimately show ?thesis using None quiet_inv [OF inv same_frames_refl _ refl, of ats] by (simp add: quiet_tasks_def)
next
  case (Some blocks)
  then have ready: "mn_initialized m" "mn_publishers m = 0" "mn_leased_frames m = 0" "blocks = (mn_slots m, mn_payload m)"
    "m' = m\<lparr>mn_slots := None, mn_payload := None, mn_initialized := False, mn_capacity := 0, mn_snap_length := 0\<rparr>"
    using deinit by (auto simp: monitor_deinit_def split: if_splits)
  obtain a b xs bs where at: "mn_slots m = Some a" "mn_payload m = Some b" "mm_slots mem a = Some xs" "mm_payload mem b = Some bs"
    and store: "store_ok es m refs xs bs" using monitor_inv_store [OF inv ready(1)] by metis
  note i = monitor_invD [OF inv]
  let ?ats = "ats[t := M_freeing (Some a) (Some b)]"
  have "ms_owner (xs ! j) = FRAME_FREE" if "j < length xs" for j
    using total_of_member [OF that, of "\<lambda>slot. if ms_owner slot = FRAME_FREE then 0 else 1"] store_okD(7) [OF store] ready(3)
    by (auto simp: taken_slots_def split: if_splits)
  then have none: "\<forall>ref \<in> set refs. ref = None"
    using ref_named [OF store _ refl] by (metis monitor_owner.distinct(5,7) not_None_eq)
  have "owners_ok None (\<lambda>a. mm_slots mem a \<noteq> None) (map own_slots ?ats)"
    unfolding own_update own_slots.simps
    by (rule owners_taken [OF i(2)]) (use t(1) at owner_elsewhere [OF i(2) [unfolded at]] in fastforce)+
  moreover have "owners_ok None (\<lambda>b. mm_payload mem b \<noteq> None) (map own_payload ?ats)"
    unfolding own_update own_payload.simps
    by (rule owners_taken [OF i(3)]) (use t(1) at owner_elsewhere [OF i(3) [unfolded at]] in fastforce)+
  moreover have "\<forall>x \<in> set ?ats. new_blocks (mn_lock_initialized m) mem x" using i(4) set_update_subset_insert [of ats t "M_freeing (Some a) (Some b)"] by auto
  moreover have "total_of publishing ?ats = total_of publishing ats"
    using publishing_kept [OF t(1), of "M_freeing (Some a) (Some b)"] t(2) by simp
  moreover have "notes_ok (Quiet # es) m'" using i(1) by (simp add: ready(5) notes_ok_def frame_used_def)
  ultimately show ?thesis using i(5) none ready at Some unfolding monitor_inv_def by simp
qed

lemma proceed_freeing:
  assumes inv: "monitor_inv es m mem ats refs" and t: "t < length ats" "ats ! t = M_freeing slots payload"
  shows "\<exists>mem'. free_blocks slots payload mem = Some mem' \<and> monitor_inv (Quiet # es) m mem' (ats[t := M_idle]) refs"
proof -
  note i = monitor_invD [OF inv]
  have slots: "slots = Some a \<Longrightarrow> mm_slots mem a \<noteq> None \<and> mn_slots m \<noteq> Some a" for a
    using owners_nth [OF i(2) t(1), of a] t(2) by simp
  have payload: "payload = Some b \<Longrightarrow> mm_payload mem b \<noteq> None \<and> mn_payload m \<noteq> Some b" for b
    using owners_nth [OF i(3) t(1), of b] t(2) by simp
  define mem' where "mem' = mem\<lparr>mm_slots := (case slots of None \<Rightarrow> mm_slots mem | Some a \<Rightarrow> (mm_slots mem)(a := None)),
      mm_payload := (case payload of None \<Rightarrow> mm_payload mem | Some b \<Rightarrow> (mm_payload mem)(b := None))\<rparr>"
  have free: "free_blocks slots payload mem = Some mem'" using slots payload by (auto simp: free_blocks_def mem'_def split: option.splits)
  have keep: "slots \<noteq> Some c \<Longrightarrow> mm_slots mem' c = mm_slots mem c" "payload \<noteq> Some c \<Longrightarrow> mm_payload mem' c = mm_payload mem c" for c
    by (auto simp: mem'_def split: option.splits)
  have own1: "owners_ok (mn_slots m) (\<lambda>a. mm_slots mem' a \<noteq> None) (map own_slots (ats[t := M_idle]))"
    unfolding own_update own_slots.simps by (rule owners_none [OF i(2)]) (use t keep in auto)
  have own2: "owners_ok (mn_payload m) (\<lambda>a. mm_payload mem' a \<noteq> None) (map own_payload (ats[t := M_idle]))"
    unfolding own_update own_payload.simps by (rule owners_none [OF i(3)]) (use t keep in auto)
  have new: "new_blocks (mn_lock_initialized m) mem' (ats ! u)" if u: "u < length ats" "u \<noteq> t" for u
  proof -
    have "new_blocks (mn_lock_initialized m) mem (ats ! u)" using i(4) u(1) by simp
    moreover have "own_slots (ats ! u) = Some c \<Longrightarrow> slots \<noteq> Some c" "own_payload (ats ! u) = Some c \<Longrightarrow> payload \<noteq> Some c" for c
      using owners_nth(3) [OF i(2) t(1), of c u] owners_nth(3) [OF i(3) t(1), of c u] u t(2) by auto
    ultimately show ?thesis using keep by (cases "ats ! u") auto
  qed
  then have new: "\<forall>x \<in> set (ats[t := M_idle]). new_blocks (mn_lock_initialized m) mem' x" using t(1) by (auto simp: in_set_conv_nth nth_list_update)
  have sum: "total_of publishing (ats[t := M_idle]) = total_of publishing ats" using publishing_kept [OF t(1), of M_idle] t(2) by simp
  have remembered: "notes_ok (Quiet # es) m" using notes_quiet [OF i(1) same_store_refl] .
  have "monitor_inv (Quiet # es) m mem' (ats[t := M_idle]) refs"
  proof (cases "mn_initialized m")
    case True
    then obtain a b xs bs where at: "mn_slots m = Some a" "mn_payload m = Some b" "mm_slots mem a = Some xs" "mm_payload mem b = Some bs"
      "store_ok es m refs xs bs" "tasks_ok es m xs bs ats" using monitor_inv_store [OF inv] by blast
    have "monitor_inv (Quiet # es) m mem ats refs" using quiet_inv [OF inv same_frames_refl _ refl, of ats] by (simp add: quiet_tasks_def)
    from monitor_inv_store [OF this True] at have "store_ok (Quiet # es) m refs xs bs" "tasks_ok (Quiet # es) m xs bs ats" by force+
    moreover from tasks_calm [OF this(2) t(1), of M_idle] have "tasks_ok (Quiet # es) m xs bs (ats[t := M_idle])" by (simp add: t(2))
    moreover have "mm_slots mem' a = Some xs" "mm_payload mem' b = Some bs"
      using keep [of a] keep [of b] slots [of a] payload [of b] at(1-4) by auto
    ultimately show ?thesis using own1 own2 new sum i(5,6) True at(1,2) remembered unfolding monitor_inv_def by simp
  next
    case False
    then show ?thesis using own1 own2 new sum i(5,7) remembered unfolding monitor_inv_def by simp
  qed
  then show ?thesis using free by blast
qed

lemma proceed_allocating:
  assumes inv: "monitor_inv es m mem ats refs" and t: "t < length ats" "ats ! t = M_allocating generation capacity snap complete"
    and fresh: "mm_slots mem a = None" "mm_payload mem b = None" "length contents = unat capacity * unat snap"
  defines "mem' \<equiv> mem\<lparr>mm_slots := (mm_slots mem)(a \<mapsto> replicate (unat capacity) zero_slot), mm_payload := (mm_payload mem)(b \<mapsto> contents)\<rparr>"
  shows "monitor_inv (Quiet # es) m mem' (ats[t := M_installing generation capacity snap complete a b]) refs"
proof -
  note i = monitor_invD [OF inv]
  let ?x = "M_installing generation capacity snap complete a b"
  have keep: "c \<noteq> a \<Longrightarrow> mm_slots mem' c = mm_slots mem c" "c \<noteq> b \<Longrightarrow> mm_payload mem' c = mm_payload mem c" for c
    by (simp_all add: mem'_def)
  have not_own: "own_slots x \<noteq> Some a" "own_payload x \<noteq> Some b" if "x \<in> set ats" for x
    using that owners_nth(1) [OF i(2), of _ a] owners_nth(1) [OF i(3), of _ b] fresh by (auto simp: in_set_conv_nth)
  have installed: "mn_slots m \<noteq> Some a" "mn_payload m \<noteq> Some b"
  proof -
    have "mn_slots m = None \<and> mn_payload m = None \<or> (\<exists>c d. mn_slots m = Some c \<and> mm_slots mem c \<noteq> None \<and> mn_payload m = Some d \<and> mm_payload mem d \<noteq> None)"
      using inv unfolding monitor_inv_def by (cases "mn_initialized m") auto
    then show "mn_slots m \<noteq> Some a" "mn_payload m \<noteq> Some b" using fresh by auto
  qed
  have own1: "owners_ok (mn_slots m) (\<lambda>a. mm_slots mem' a \<noteq> None) (map own_slots (ats[t := ?x]))"
    unfolding own_update own_slots.simps
    by (rule owners_taken [OF i(2)]) (use t(1) installed(1) not_own(1) in \<open>auto simp: mem'_def, metis\<close>)
  have own2: "owners_ok (mn_payload m) (\<lambda>b. mm_payload mem' b \<noteq> None) (map own_payload (ats[t := ?x]))"
    unfolding own_update own_payload.simps
    by (rule owners_taken [OF i(3)]) (use t(1) installed(2) not_own(2) in \<open>auto simp: mem'_def, metis\<close>)
  have "new_blocks (mn_lock_initialized m) mem (M_allocating generation capacity snap complete)" using i(4) t by (metis nth_mem)
  then have "new_blocks (mn_lock_initialized m) mem' ?x" using fresh(3) by (simp add: mem'_def)
  moreover have "new_blocks (mn_lock_initialized m) mem' x" if "x \<in> set ats" for x
    using new_blocks_mono [OF i(4) [OF that] not_own [OF that], of mem'] keep by blast
  ultimately have new: "\<forall>x \<in> set (ats[t := ?x]). new_blocks (mn_lock_initialized m) mem' x" using set_update_subset_insert [of ats t ?x] by blast
  have sum: "total_of publishing (ats[t := ?x]) = total_of publishing ats" using publishing_kept [OF t(1), of ?x] t(2) by simp
  have remembered: "notes_ok (Quiet # es) m" using notes_quiet [OF i(1) same_store_refl] .
  show ?thesis
  proof (cases "mn_initialized m")
    case True
    have "monitor_inv (Quiet # es) m mem ats refs" using quiet_inv [OF inv same_frames_refl _ refl, of ats] by (simp add: quiet_tasks_def)
    from monitor_inv_store [OF this True] obtain c d xs bs where at: "mn_slots m = Some c" "mn_payload m = Some d"
      "mm_slots mem c = Some xs" "mm_payload mem d = Some bs" "store_ok (Quiet # es) m refs xs bs" "tasks_ok (Quiet # es) m xs bs ats" by blast
    moreover from tasks_calm [OF this(6) t(1), of ?x] have "tasks_ok (Quiet # es) m xs bs (ats[t := ?x])" by (simp add: t(2))
    moreover have "mm_slots mem' c = Some xs" "mm_payload mem' d = Some bs" using keep [of c] keep [of d] installed at(1-4) by auto
    ultimately show ?thesis using own1 own2 new sum i(5,6) True remembered unfolding monitor_inv_def by simp
  next
    case False
    then show ?thesis using own1 own2 new sum i(5,7) remembered unfolding monitor_inv_def by simp
  qed
qed

text \<open>Memory that has just been installed.\<close>

lemma store_fresh:
  assumes pool: "native_pool_init capacity = Some (mn_pool m)" and cap: "mn_capacity m = ucast capacity" and leased: "mn_leased_frames m = 0"
    and len: "length bs = unat capacity * unat (mn_snap_length m)" and refs: "\<forall>ref \<in> set refs. ref = None"
  shows "store_ok es m refs (replicate (unat capacity) zero_slot) bs"
proof -
  note free = native_pool_init_free [OF pool]
  have "unat capacity \<le> 128" using pool by (auto simp: native_pool_init_def native_pool_consts word_less_nat_alt split: if_splits)
  moreover from this have "unat (mn_capacity m) = unat capacity"
    using cap by (simp add: unsigned_ucast_eq take_bit_nat_eq_self)
  moreover have "taken_slots (replicate n zero_slot) = 0" for n by (induction n) (simp_all add: taken_slots_def total_of_def zero_slot_def)
  moreover have "pool_slots (mn_pool m) = {..<unat capacity}" by (simp add: pool_slots_def free(3))
  moreover have "ref_ok m (replicate (unat capacity) zero_slot) ref" if "ref \<in> set refs" for ref
    using refs that by (auto simp: ref_ok_def)
  ultimately show ?thesis
    using free(1,2) leased len by (simp add: store_ok_def frame_ok_def zero_slot_def)
qed

lemma proceed_installing:
  assumes inv: "monitor_inv es m mem ats refs" and t: "t < length ats" "ats ! t = M_installing generation capacity snap complete a b"
    and install: "monitor_install generation capacity snap complete a b m = (available, m')"
  shows "monitor_inv (Quiet # es) m' mem (ats[t := if available then M_idle else M_freeing (Some a) (Some b)]) refs"
proof (cases available)
  case False
  then have same: "m' = m" using install by (auto simp: monitor_install_def split: if_splits option.splits)
  let ?x = "M_freeing (Some a) (Some b)"
  have "monitor_inv (Quiet # es) m mem (ats[t := ?x]) refs"
  proof (rule calm_inv [OF inv same_frames_refl])
    show "tasks_ok es m xs bs (ats[t := ?x])" if "tasks_ok es m xs bs ats" for es m xs bs
      by (rule tasks_calm [OF that t(1)]) (simp_all add: t(2))
    show "\<forall>x \<in> set (ats[t := ?x]). x \<in> set ats \<or> new_blocks (mn_lock_initialized m) mem x"
      using set_update_subset_insert [of ats t ?x] by auto
  qed (use t monitor_invD(5,7) [OF inv] publishing_kept [OF t(1), of ?x] in \<open>simp_all add: map_update_same\<close>)
  then show ?thesis using False same by simp
next
  case True
  then have m: "\<not> mn_initialized m" "mn_generation m < generation" and
    pool: "native_pool_init capacity = Some (mn_pool m')" and m': "mn_initialized m'" "mn_lock_initialized m' = mn_lock_initialized m"
      "mn_slots m' = Some a" "mn_payload m' = Some b" "mn_generation m' = generation" "mn_capacity m' = ucast capacity"
      "mn_snap_length m' = ucast snap" "mn_leased_frames m' = 0" "mn_publishers m' = 0"
    using install by (auto simp: monitor_install_def split: if_splits option.splits)
  note i = monitor_invD [OF inv]
  note cold = i(7) [OF m(1)]
  have new: "new_blocks (mn_lock_initialized m) mem (ats ! t)" using i(4) t(1) by simp
  then obtain bs where blocks: "mn_lock_initialized m" "mm_slots mem a = Some (replicate (unat capacity) zero_slot)" "mm_payload mem b = Some bs"
    "length bs = unat capacity * unat snap" "snap \<le> MAX_SNAP_LENGTH" by (auto simp: t(2))
  have "unat (mn_snap_length m') = unat snap"
    using blocks(5) by (simp add: m' MAX_SNAP_LENGTH_def unsigned_ucast_eq take_bit_nat_eq_self word_le_nat_alt)
  then have store: "store_ok (Quiet # es) m' refs (replicate (unat capacity) zero_slot) bs"
    by (intro store_fresh [OF pool m'(6,8)]) (use blocks(4) cold in simp_all)
  have none: "total_of publishing ats = 0" using i(5) cold by simp
  have writers: "writer_of (ats[t := M_idle] ! u) = None" if "u < length ats" for u
  proof -
    have "publishing (ats ! u) = 0" using total_of_member [OF that, of publishing] none by simp
    then show ?thesis using t(1) by (cases "u = t"; cases "ats ! u") auto
  qed
  have "writer_ok es m xs bs x" if "writer_of x = None" for es m xs bs x using that by (cases x) auto
  then have tasks: "tasks_ok (Quiet # es) m' (replicate (unat capacity) zero_slot) bs (ats[t := M_idle])"
    using writers by (simp add: tasks_ok_def zero_slot_def)
  have own1: "owners_ok (Some a) (\<lambda>a. mm_slots mem a \<noteq> None) (map own_slots (ats[t := M_idle]))"
    unfolding own_update own_slots.simps by (rule owners_installed) (use i(2) cold t in simp_all)
  have own2: "owners_ok (Some b) (\<lambda>b. mm_payload mem b \<noteq> None) (map own_payload (ats[t := M_idle]))"
    unfolding own_update own_payload.simps by (rule owners_installed) (use i(3) cold t in simp_all)
  have "total_of publishing (ats[t := M_idle]) = 0" using publishing_kept [OF t(1), of M_idle] t(2) none by simp
  moreover have "\<forall>x \<in> set (ats[t := M_idle]). new_blocks (mn_lock_initialized m) mem x"
    using i(4) set_update_subset_insert [of ats t M_idle] by auto
  moreover have "notes_ok (Quiet # es) m'" using i(1) m(2) m'(5) by (fastforce simp: notes_ok_def)
  ultimately show ?thesis
    using True store tasks own1 own2 blocks m' unfolding monitor_inv_def by simp
qed

section \<open>Runs\<close>

lemma proceed_inv:
  assumes inv: "monitor_inv es m mem ats refs" and t: "t < length ats"
    and blocks: "case (ats ! t, blocks) of
        (M_allocating generation capacity snap complete, Some (a, b, contents)) \<Rightarrow>
          mm_slots mem a = None \<and> mm_payload mem b = None \<and> length contents = unat capacity * unat snap
      | _ \<Rightarrow> True"
  shows "\<exists>e a m' mem'. monitor_proceed (ats ! t) published blocks m mem = Some (e, a, m', mem') \<and>
    monitor_inv (e # es) m' mem' (ats[t := a]) refs"
proof (cases "ats ! t")
  case M_idle
  then have "ats[t := M_idle] = ats" by (metis list_update_id)
  then show ?thesis using M_idle quiet_inv [OF inv same_frames_refl _ refl, of ats] by (simp add: quiet_tasks_def)
next
  case (M_allocating generation capacity snap complete)
  show ?thesis
  proof (cases blocks)
    case None
    have "monitor_inv (Quiet # es) m mem (ats[t := M_idle]) refs"
      by (intro quiet_inv [OF inv same_frames_refl _ refl] quiet_tasksI [OF t]) (simp add: M_allocating quiet_move_def)
    then show ?thesis using None M_allocating by simp
  next
    case (Some r)
    obtain a b contents where r: "r = (a, b, contents)" by (cases r)
    then show ?thesis using proceed_allocating [OF inv t M_allocating, of a b contents] Some M_allocating blocks by simp
  qed
next
  case (M_installing generation capacity snap complete a b)
  obtain available m' where "monitor_install generation capacity snap complete a b m = (available, m')" by (metis surj_pair)
  then show ?thesis using proceed_installing [OF inv t M_installing] M_installing by simp
next
  case (M_freeing slots payload)
  then show ?thesis using proceed_freeing [OF inv t M_freeing] by auto
next
  case (M_copying p k)
  then show ?thesis by (rule proceed_copying [OF inv t])
next
  case (M_committing p)
  then show ?thesis by (rule proceed_committing [OF inv t])
next
  case (M_offering p)
  then show ?thesis by (intro proceed_offered [OF inv t]) simp
next
  case (M_refused p)
  then show ?thesis by (intro proceed_offered [OF inv t]) simp
next
  case (M_settling p answer)
  then show ?thesis by (intro proceed_offered [OF inv t]) simp
qed

definition system_inv :: "monitor_note list \<Rightarrow> monitor_system \<Rightarrow> bool" where
  "system_inv es s \<longleftrightarrow> monitor_inv es (my_monitor s) (my_memory s) (my_at s) (my_refs s)"

lemma answered_inv:
  assumes inv: "system_inv es s" and expected: "expected = FRAME_EVENT \<or> expected = FRAME_PUBLIC" "taking \<Longrightarrow> expected = FRAME_EVENT \<and> e = Taken event"
    and e: "note_event e = Some event" "\<forall>info bytes. e \<noteq> Captured event info bytes"
  shows "\<exists>note s'. map_option (monitor_answered s e) (monitor_change_owner event expected taking (my_monitor s) (my_memory s)) = Some (note, s') \<and>
    system_inv (note # es) s' \<and> length (my_at s') = length (my_at s)"
proof -
  have quiet: "quiet_tasks (my_at s) (my_at s)" by (simp add: quiet_tasks_def)
  note stay = quiet_inv [OF inv [unfolded system_inv_def] same_frames_refl quiet refl]
  have "monitor_change_owner event expected taking (my_monitor s) (my_memory s) = Some (False, my_monitor s, my_memory s) \<or>
    (\<exists>m' mem'. monitor_change_owner event expected taking (my_monitor s) (my_memory s) = Some (True, m', mem') \<and>
       monitor_inv (e # es) m' mem' (my_at s) (my_refs s))"
    by (rule change_owner_inv [OF inv [unfolded system_inv_def] quiet expected e])
  then show ?thesis
  proof (elim disjE exE conjE)
    assume "monitor_change_owner event expected taking (my_monitor s) (my_memory s) = Some (False, my_monitor s, my_memory s)"
    then show ?thesis using stay by (simp add: monitor_answered_def system_inv_def)
  next
    fix m' mem' assume "monitor_change_owner event expected taking (my_monitor s) (my_memory s) = Some (True, m', mem')"
      "monitor_inv (e # es) m' mem' (my_at s) (my_refs s)"
    then show ?thesis by (simp add: monitor_answered_def system_inv_def)
  qed
qed

lemma monitor_do_inv:
  assumes inv: "system_inv es s" and few: "length (my_at s) < 2 ^ 32" and allowed: "monitor_allowed c s"
  shows "\<exists>e s'. monitor_do slot_size c s = Some (e, s') \<and> system_inv (e # es) s' \<and> length (my_at s') = length (my_at s)"
proof -
  note inv' = inv [unfolded system_inv_def]
  have quiet: "quiet_tasks (my_at s) (my_at s)" by (simp add: quiet_tasks_def)
  note stay = quiet_inv [OF inv' same_frames_refl quiet refl]
  show ?thesis
  proof (cases c)
    case Reset_counters
    have "monitor_inv (Quiet # es) (monitor_reset_counters (my_monitor s)) (my_memory s) (my_at s) (my_refs s)"
      by (rule quiet_inv [OF inv' _ quiet]) (simp_all add: monitor_reset_counters_def same_frames_def)
    then show ?thesis by (simp add: Reset_counters system_inv_def)
  next
    case (Set_accepting accepting)
    have "monitor_inv (Quiet # es) (snd (monitor_set_accepting accepting (my_monitor s))) (my_memory s) (my_at s) (my_refs s)"
      by (rule quiet_inv [OF inv' _ quiet]) (simp_all add: monitor_set_accepting_def same_frames_def)
    then show ?thesis by (simp add: Set_accepting system_inv_def)
  next
    case (Take_event event)
    then show ?thesis using answered_inv [OF inv, of FRAME_EVENT True "Taken event" event] by (simp add: monitor_take_event_def)
  next
    case (Discard_event event)
    then show ?thesis using answered_inv [OF inv, of FRAME_EVENT False "Discarded event" event] by (simp add: monitor_discard_event_def)
  next
    case (Close_frame event)
    then show ?thesis using answered_inv [OF inv, of FRAME_PUBLIC False "Frame_closed event" event] by (simp add: monitor_close_frame_def)
  next
    case (Frame_info event)
    then show ?thesis using frame_info_safe(1) [OF inv', of event] stay by (auto simp: system_inv_def)
  next
    case (Retain_frame h event)
    then show ?thesis using retain_inv [OF inv', of h event] allowed by (auto simp: system_inv_def monitor_allowed_def)
  next
    case (Ref_data h)
    then show ?thesis using frame_info_safe(2) [OF inv', of "my_refs s ! h"] stay by (auto simp: system_inv_def)
  next
    case (Release_ref h)
    then show ?thesis using release_ref_inv [OF inv', of h] allowed by (auto simp: system_inv_def monitor_allowed_def)
  next
    case (Init t generation capacity snap complete)
    obtain available m' where "monitor_init_begin slot_size generation capacity snap (my_monitor s) = (available, m')" by (metis surj_pair)
    then show ?thesis using init_begin_inv [OF inv'] allowed Init by (simp add: system_inv_def monitor_allowed_def)
  next
    case (Deinit t)
    obtain r m' where "monitor_deinit (my_monitor s) = (r, m')" by (metis surj_pair)
    then show ?thesis using deinit_inv [OF inv'] allowed Deinit by (simp add: system_inv_def monitor_allowed_def)
  next
    case (Publish t pointer filter_result time)
    then show ?thesis
      using publish_begin_inv [OF inv' few, of t pointer filter_result time] allowed
      by (auto simp: system_inv_def monitor_allowed_def)
  next
    case (Proceed t published blocks)
    then show ?thesis
      using proceed_inv [OF inv', of t blocks published] allowed by (auto simp: system_inv_def monitor_allowed_def)
  qed
qed

lemma system_inv_initial: "system_inv [] (monitor_system_initial tasks references)"
proof -
  have "owners_ok None alive (map own (replicate tasks M_idle))" if "own M_idle = None" for alive own
    using that by (simp add: owners_ok_def)
  moreover have "total_of publishing (replicate tasks M_idle) = 0" by (induction tasks) (simp_all add: total_of_def)
  ultimately show ?thesis
    by (simp add: system_inv_def monitor_system_initial_def monitor_inv_def monitor_initial_def notes_ok_def)
qed

lemma monitor_do_length: "monitor_do slot_size c s = Some (e, s') \<Longrightarrow> length (my_at s') = length (my_at s)"
  by (cases c) (auto simp: monitor_answered_def split: prod.splits)

lemma monitor_run_inv:
  assumes "monitor_run slot_size es s" "length (my_at s) < 2 ^ 32"
  shows "system_inv es s"
  using assms
proof (induction rule: monitor_run.induct)
  case (start tasks references)
  then show ?case using system_inv_initial by blast
next
  case (run_step es s c e s')
  have "length (my_at s) < 2 ^ 32" using monitor_do_length [OF run_step.hyps(3)] run_step.prems by simp
  from monitor_do_inv [OF run_step.IH [OF this] this run_step.hyps(2), of slot_size] show ?case using run_step.hyps(3) by auto
qed

text \<open>The frames that are open read what was captured for them.\<close>

lemma in_use_bytes:
  assumes store: "store_ok es m refs xs bs" and i: "i < length xs" and owner: "ms_owner (xs ! i) = FRAME_PUBLIC \<or> ms_owner (xs ! i) = FRAME_CLOSED"
  defines "n \<equiv> unat (mi_captured_length (ms_info (xs ! i)))" and "offset \<equiv> i * unat (mn_snap_length m)"
  shows "Captured (event_of m i (xs ! i)) (ms_info (xs ! i)) (take n (drop offset bs)) \<in> set es" "offset + n \<le> length bs"
proof -
  have "ms_owner (xs ! i) \<noteq> FRAME_FREE" "ms_owner (xs ! i) \<noteq> FRAME_WRITING" using owner by auto
  from frame_in_use(4) [OF store i this] have n: "n \<le> unat (mn_snap_length m)"
    and captured: "Captured (event_of m i (xs ! i)) (ms_info (xs ! i)) (take n (slot_bytes m bs i)) \<in> set es"
    by (simp_all add: n_def word_le_nat_alt)
  then show "Captured (event_of m i (xs ! i)) (ms_info (xs ! i)) (take n (drop offset bs)) \<in> set es"
    by (simp add: slot_bytes_def offset_def min_absorb1)
  have "Suc i * unat (mn_snap_length m) \<le> length bs" using i store_okD(3) [OF store] by (metis Suc_leI mult_le_mono1)
  then show "offset + n \<le> length bs" using n by (simp add: offset_def)
qed

lemma open_ref:
  assumes inv: "monitor_inv es m mem ats refs" and h: "h < length refs" "refs ! h = Some event"
  shows "\<exists>info bytes b block offset. Captured event info bytes \<in> set es \<and>
    monitor_ref_data (refs ! h) m mem = Some (Some (Some b, offset, length bytes)) \<and> mm_payload mem b = Some block \<and>
    offset + length bytes \<le> length block \<and> take (length bytes) (drop offset block) = bytes"
proof -
  have ref: "Some event \<in> set refs" using h by (metis nth_mem)
  then have init: "mn_initialized m" using monitor_invD(7) [OF inv] by auto
  obtain a b xs bs where at: "mn_slots m = Some a" "mn_payload m = Some b" "mm_slots mem a = Some xs" "mm_payload mem b = Some bs"
    and store: "store_ok es m refs xs bs" using monitor_inv_store [OF inv init] by metis
  define i where "i = unat (me_index event)"
  have i: "i < length xs" and event: "event = event_of m i (xs ! i)" and owner: "ms_owner (xs ! i) = FRAME_PUBLIC \<or> ms_owner (xs ! i) = FRAME_CLOSED"
    using ref_named [OF store ref, of i] by (simp_all add: i_def)
  then have locked: "monitor_slot_locked event m mem = Some (Some (xs ! i))"
    unfolding event by (intro slot_lockedI [OF store init at(1,3)]) auto
  note bytes = in_use_bytes [OF store i owner]
  have "monitor_ref_data (refs ! h) m mem = Some (Some (Some b, i * unat (mn_snap_length m), unat (mi_captured_length (ms_info (xs ! i)))))"
    using owner at(2) by (auto simp: monitor_ref_data_def h(2) locked i_def)
  then show ?thesis using bytes at(4) event
    by (intro exI [of _ "ms_info (xs ! i)"] exI [of _ "take (unat (mi_captured_length (ms_info (xs ! i)))) (drop (i * unat (mn_snap_length m)) bs)"]
        exI [of _ b] exI [of _ bs] exI [of _ "i * unat (mn_snap_length m)"]) (simp add: min_absorb1)
qed

lemma public_info:
  assumes inv: "monitor_inv es m mem ats refs" and info: "monitor_frame_info event m mem = Some (Some info)"
  shows "\<exists>bytes. Captured event info bytes \<in> set es"
proof -
  have init: "mn_initialized m" using info by (auto simp: monitor_frame_info_def monitor_slot_locked_def split: if_splits)
  obtain a b xs bs where at: "mn_slots m = Some a" "mm_slots mem a = Some xs" and store: "store_ok es m refs xs bs"
    using monitor_inv_store [OF inv init] by metis
  define i where "i = unat (me_index event)"
  have "monitor_slot_locked event m mem \<noteq> Some None" using info by (auto simp: monitor_frame_info_def split: if_splits)
  then have named: "i < length xs" "event = event_of m i (xs ! i)" "monitor_slot_locked event m mem = Some (Some (xs ! i))"
    using slot_locked [OF store init at, of event, folded i_def] by metis+
  then have "ms_owner (xs ! i) = FRAME_PUBLIC" "info = ms_info (xs ! i)"
    using info by (auto simp: monitor_frame_info_def split: if_splits)
  then show ?thesis using in_use_bytes(1) [OF store named(1)] named(2) by metis
qed

section \<open>What the store promises\<close>

text \<open>
  C10: Whatever any number of tasks do in whatever order, no step touches memory that is not there;
  the bytes of every reference that has not been released are, at every moment, exactly the bytes
  that were captured for its token, inside the block, whether the frame or the session is closed
  or not; and the description of a frame that has been taken is the one captured with it.
\<close>

theorem wifi_monitor_frames_safe:
  assumes "monitor_run slot_size es s" "length (my_at s) < 2 ^ 32"
  shows "(\<forall>c. monitor_allowed c s \<longrightarrow> monitor_do slot_size c s \<noteq> None) \<and>
    (\<forall>h event. h < length (my_refs s) \<and> my_refs s ! h = Some event \<longrightarrow>
      (\<exists>info bytes b block offset. Captured event info bytes \<in> set es \<and>
        (\<forall>info' bytes'. Captured event info' bytes' \<in> set es \<longrightarrow> info' = info \<and> bytes' = bytes) \<and>
        monitor_ref_data (my_refs s ! h) (my_monitor s) (my_memory s) = Some (Some (Some b, offset, length bytes)) \<and>
        mm_payload (my_memory s) b = Some block \<and> offset + length bytes \<le> length block \<and>
        take (length bytes) (drop offset block) = bytes)) \<and>
    (\<forall>event info. monitor_frame_info event (my_monitor s) (my_memory s) = Some (Some info) \<longrightarrow>
      (\<exists>bytes. Captured event info bytes \<in> set es))"
proof (intro conjI allI impI)
  note inv = monitor_run_inv [OF assms]
  note inv' = inv [unfolded system_inv_def]
  show "monitor_do slot_size c s \<noteq> None" if "monitor_allowed c s" for c
    using monitor_do_inv [OF inv assms(2) that, of slot_size] by auto
  show "\<exists>info bytes b block offset. Captured event info bytes \<in> set es \<and>
      (\<forall>info' bytes'. Captured event info' bytes' \<in> set es \<longrightarrow> info' = info \<and> bytes' = bytes) \<and>
      monitor_ref_data (my_refs s ! h) (my_monitor s) (my_memory s) = Some (Some (Some b, offset, length bytes)) \<and>
      mm_payload (my_memory s) b = Some block \<and> offset + length bytes \<le> length block \<and>
      take (length bytes) (drop offset block) = bytes" if "h < length (my_refs s) \<and> my_refs s ! h = Some event" for h event
    using open_ref [OF inv', of h event] that monitor_invD(1) [OF inv'] unfolding notes_ok_def by metis
  show "\<exists>bytes. Captured event info bytes \<in> set es" if "monitor_frame_info event (my_monitor s) (my_memory s) = Some (Some info)" for event info
    by (rule public_info [OF inv' that])
qed

text \<open>The accounts, in the terms of the lists that are kept.\<close>

lemma taken_slots_count: "taken_slots xs = length (filter (\<lambda>slot. ms_owner slot \<noteq> FRAME_FREE) xs)"
  by (induction xs) (auto simp: taken_slots_def total_of_def)

lemma publishing_count: "total_of publishing ats = length (filter (\<lambda>a. publishing a = 1) ats)"
proof (induction ats)
  case (Cons a ats)
  then show ?case by (cases a) (auto simp: total_of_def)
qed (simp add: total_of_def)

lemma free_slots_count:
  assumes "store_ok es m refs xs bs"
  shows "native_pool_available (mn_pool m) = length (filter (\<lambda>slot. ms_owner slot = FRAME_FREE) xs)"
proof -
  have "pool_free (mn_pool m) \<subseteq> {..<length xs}" using store_okD(4,5) [OF assms] unfolding pool_inv_def by simp
  then have "pool_free (mn_pool m) = {i. i < length xs \<and> ms_owner (xs ! i) = FRAME_FREE}"
    using store_okD(6) [OF assms] by auto
  then show ?thesis
    using native_pool_available_card [OF store_okD(4) [OF assms]] by (simp add: length_filter_conv_card)
qed

lemma closed_referred:
  assumes store: "store_ok es m refs xs bs" and i: "i < length xs" and owner: "ms_owner (xs ! i) = FRAME_CLOSED"
  shows "Some (event_of m i (xs ! i)) \<in> set refs"
proof (rule ccontr)
  assume "\<not> ?thesis"
  then have "refs_to (event_of m i (xs ! i)) refs = 0" by (rule refs_to_none)
  moreover have "ms_owner (xs ! i) \<noteq> FRAME_FREE" using owner by simp
  ultimately show False using frame_in_use(2) [OF store i] owner by (simp add: lease_ok_def unat_eq_0)
qed

text \<open>
  C15: While the store is initialised, \<open>leased_frames\<close> is the number of slots in use, the pool has
  the rest, and \<open>publishers\<close> is the number of tasks that publish; a slot that is being written has
  a task that writes it, and a closed frame is kept only while a reference to it is open, so no slot
  is lost; \<open>deinit\<close> succeeds exactly when the session has stopped, nobody publishes and every slot
  is free, and then no reference is open.
\<close>

theorem wifi_monitor_accounts:
  assumes "monitor_run slot_size es s" "length (my_at s) < 2 ^ 32" "mn_initialized (my_monitor s)"
  shows "\<exists>a xs. mn_slots (my_monitor s) = Some a \<and> mm_slots (my_memory s) a = Some xs \<and> length xs = unat (mn_capacity (my_monitor s)) \<and>
    unat (mn_leased_frames (my_monitor s)) = length (filter (\<lambda>slot. ms_owner slot \<noteq> FRAME_FREE) xs) \<and>
    native_pool_available (mn_pool (my_monitor s)) = length (filter (\<lambda>slot. ms_owner slot = FRAME_FREE) xs) \<and>
    unat (mn_publishers (my_monitor s)) = length (filter (\<lambda>task. publishing task = 1) (my_at s)) \<and>
    (\<forall>i < length xs. ms_owner (xs ! i) = FRAME_WRITING \<longrightarrow> (\<exists>task \<in> set (my_at s). writer_of task = Some i)) \<and>
    (\<forall>i < length xs. ms_owner (xs ! i) = FRAME_CLOSED \<longrightarrow> (\<exists>event. Some event \<in> set (my_refs s) \<and> unat (me_index event) = i)) \<and>
    (fst (monitor_deinit (my_monitor s)) \<noteq> None \<longleftrightarrow> \<not> mn_accepting (my_monitor s) \<and>
      (\<forall>task \<in> set (my_at s). publishing task = 0) \<and> (\<forall>slot \<in> set xs. ms_owner slot = FRAME_FREE)) \<and>
    (fst (monitor_deinit (my_monitor s)) \<noteq> None \<longrightarrow> (\<forall>ref \<in> set (my_refs s). ref = None))"
proof -
  note inv = monitor_run_inv [OF assms(1,2), unfolded system_inv_def]
  obtain a b xs bs where at: "mn_slots (my_monitor s) = Some a" "mn_payload (my_monitor s) = Some b" "mm_slots (my_memory s) a = Some xs"
    "mm_payload (my_memory s) b = Some bs" and store: "store_ok es (my_monitor s) (my_refs s) xs bs"
    and tasks: "tasks_ok es (my_monitor s) xs bs (my_at s)" using monitor_inv_store [OF inv assms(3)] by blast
  let ?m = "my_monitor s"
  have leased: "unat (mn_leased_frames ?m) = length (filter (\<lambda>slot. ms_owner slot \<noteq> FRAME_FREE) xs)"
    using store_okD(7) [OF store] taken_slots_count by simp
  have publishers: "unat (mn_publishers ?m) = length (filter (\<lambda>task. publishing task = 1) (my_at s))"
    using monitor_invD(5) [OF inv] publishing_count by simp
  have one: "publishing task \<noteq> 1 \<longleftrightarrow> publishing task = 0" for task by (cases task) auto
  have deinit: "fst (monitor_deinit ?m) \<noteq> None \<longleftrightarrow> \<not> mn_accepting ?m \<and> mn_publishers ?m = 0 \<and> mn_leased_frames ?m = 0"
    using assms(3) monitor_invD(6) [OF inv assms(3)] by (simp add: monitor_deinit_def)
  have "mn_publishers ?m = 0 \<longleftrightarrow> (\<forall>task \<in> set (my_at s). publishing task = 0)"
    using publishers one by (simp add: unat_eq_0 [symmetric] filter_empty_conv)
  moreover have free: "mn_leased_frames ?m = 0 \<longleftrightarrow> (\<forall>slot \<in> set xs. ms_owner slot = FRAME_FREE)"
    using leased by (simp add: unat_eq_0 [symmetric] filter_empty_conv)
  moreover have "ref = None" if "\<forall>slot \<in> set xs. ms_owner slot = FRAME_FREE" "ref \<in> set (my_refs s)" for ref
    using ref_named [OF store _ refl] that by (metis monitor_owner.distinct(5,7) not_None_eq nth_mem)
  moreover have "\<exists>task \<in> set (my_at s). writer_of task = Some i" if "i < length xs" "ms_owner (xs ! i) = FRAME_WRITING" for i
    using tasks_okD(3) [OF tasks that] by (metis nth_mem)
  moreover have "\<exists>event. Some event \<in> set (my_refs s) \<and> unat (me_index event) = i" if "i < length xs" "ms_owner (xs ! i) = FRAME_CLOSED" for i
    using closed_referred [OF store that] index_of_event that(1) store_okD(2) [OF store] by (metis less_le_trans)
  ultimately show ?thesis
    using at store_okD(1) [OF store] leased publishers free_slots_count [OF store] deinit
    by (intro exI [of _ a] exI [of _ xs] conjI) blast+
qed

text \<open>What a call that changes the owner of a frame found.\<close>

lemma change_owner_history:
  assumes inv: "monitor_inv es m mem ats refs" and change: "monitor_change_owner event expected taking m mem = Some (True, m', mem')"
    and expected: "expected = FRAME_EVENT \<or> expected = FRAME_PUBLIC"
  shows "history_ok es event expected \<and> (\<exists>info bytes. Captured event info bytes \<in> set es)"
proof -
  have init: "mn_initialized m" using change by (auto simp: monitor_change_owner_def monitor_slot_locked_def split: if_splits)
  obtain a b xs bs where at: "mn_slots m = Some a" "mm_slots mem a = Some xs" and store: "store_ok es m refs xs bs"
    using monitor_inv_store [OF inv init] by metis
  define i where "i = unat (me_index event)"
  have "monitor_slot_locked event m mem \<noteq> Some None" using change by (auto simp: monitor_change_owner_def split: if_splits)
  then have named: "i < length xs" "event = event_of m i (xs ! i)" "ms_owner (xs ! i) \<noteq> FRAME_FREE"
    "monitor_slot_locked event m mem = Some (Some (xs ! i))"
    using slot_locked [OF store init at, of event, folded i_def] by metis+
  have owner: "ms_owner (xs ! i) = expected" using change named(4) by (auto simp: monitor_change_owner_def split: if_splits)
  then have "ms_owner (xs ! i) \<noteq> FRAME_WRITING" using expected by auto
  then show ?thesis using frame_in_use(3,4) [OF store named(1,3)] named(2) owner by metis
qed

lemma answered_note:
  assumes "map_option (monitor_answered s e) r = Some (e', s')" "e' \<noteq> Quiet"
  shows "e' = e \<and> (\<exists>m' mem'. r = Some (True, m', mem'))"
  using assms by (cases r) (auto simp: monitor_answered_def split: prod.splits if_splits)

lemma proceed_note:
  assumes "monitor_proceed x published blocks m mem = Some (e, a, m', mem')" "e \<noteq> Quiet"
  shows "\<exists>event m' mem'. e = Discarded event \<and> monitor_discard_event event m mem = Some (True, m', mem')"
proof (cases x)
  case (M_refused p)
  then show ?thesis using assms by (auto split: if_splits)
next
  case (M_allocating generation capacity snap complete)
  then show ?thesis using assms by (cases blocks) auto
qed (use assms in \<open>auto split: if_splits prod.splits\<close>)

lemma noted_change:
  assumes step: "monitor_do slot_size c s = Some (e, s')" and e: "e = Taken event \<or> e = Discarded event \<or> e = Frame_closed event"
  shows "\<exists>taking m' mem'. monitor_change_owner event (if e = Frame_closed event then FRAME_PUBLIC else FRAME_EVENT) taking
    (my_monitor s) (my_memory s) = Some (True, m', mem')"
proof (cases c)
  case (Take_event event')
  then have "map_option (monitor_answered s (Taken event')) (monitor_take_event event' (my_monitor s) (my_memory s)) = Some (e, s')"
    using step by simp
  from answered_note [OF this] show ?thesis using e by (auto simp: monitor_take_event_def)
next
  case (Discard_event event')
  then have "map_option (monitor_answered s (Discarded event')) (monitor_discard_event event' (my_monitor s) (my_memory s)) = Some (e, s')"
    using step by simp
  from answered_note [OF this] show ?thesis using e by (auto simp: monitor_discard_event_def)
next
  case (Close_frame event')
  then have "map_option (monitor_answered s (Frame_closed event')) (monitor_close_frame event' (my_monitor s) (my_memory s)) = Some (e, s')"
    using step by simp
  from answered_note [OF this] show ?thesis using e by (auto simp: monitor_close_frame_def)
next
  case (Publish t pointer filter_result time)
  then show ?thesis using step e by (auto split: sum.splits)
next
  case (Proceed t published blocks)
  then obtain a m' mem' where "monitor_proceed (my_at s ! t) published blocks (my_monitor s) (my_memory s) = Some (e, a, m', mem')"
    using step by (auto split: prod.splits)
  from proceed_note [OF this] show ?thesis using e by (auto simp: monitor_discard_event_def)
qed (use step e in \<open>auto split: prod.splits\<close>)

lemma run_noted:
  assumes "monitor_run slot_size es s" "es = later @ e # earlier"
  shows "\<exists>c s0 s1. monitor_run slot_size earlier s0 \<and> monitor_do slot_size c s0 = Some (e, s1) \<and> length (my_at s0) = length (my_at s)"
  using assms
proof (induction arbitrary: later rule: monitor_run.induct)
  case (run_step es s c e' s')
  note len = monitor_do_length [OF run_step.hyps(3)]
  show ?case
  proof (cases later)
    case Nil
    then show ?thesis using run_step len by auto
  next
    case (Cons x xs)
    then show ?thesis using run_step.IH [of xs] run_step.prems len by auto
  qed
qed simp

text \<open>
  C18: A token is taken or discarded at most once in a run, and only after its packet was captured;
  a frame is closed at most once, and only after its token was taken.  Late, repeated and forged
  tokens change nothing.
\<close>

theorem wifi_monitor_frames_once:
  assumes run: "monitor_run slot_size es s" and few: "length (my_at s) < 2 ^ 32" and e: "es = later @ e # earlier"
  shows "(e = Taken event \<or> e = Discarded event \<longrightarrow>
      Taken event \<notin> set earlier \<and> Discarded event \<notin> set earlier \<and> (\<exists>info bytes. Captured event info bytes \<in> set earlier)) \<and>
    (e = Frame_closed event \<longrightarrow> Taken event \<in> set earlier \<and> Frame_closed event \<notin> set earlier)"
proof -
  obtain c s0 s1 where step: "monitor_run slot_size earlier s0" "monitor_do slot_size c s0 = Some (e, s1)" "length (my_at s0) = length (my_at s)"
    using run_noted [OF run e] by blast
  note inv = monitor_run_inv [OF step(1), unfolded step(3) system_inv_def, OF few]
  note history = noted_change [OF step(2), of event]
  show ?thesis
    using history change_owner_history [OF inv] by (auto simp: history_ok_def)
qed

section \<open>A run\<close>

text \<open>One task starts the store, captures two of the three bytes of a packet and closes the
  frame while a reference is open.\<close>

fun monitor_calls :: "u32 \<Rightarrow> monitor_call list \<Rightarrow> monitor_note list \<times> monitor_system \<Rightarrow> (monitor_note list \<times> monitor_system) option" where
  "monitor_calls slot_size [] r = Some r"
| "monitor_calls slot_size (c # cs) (es, s) =
     (if monitor_allowed c s
      then case monitor_do slot_size c s of None \<Rightarrow> None | Some (e, s') \<Rightarrow> monitor_calls slot_size cs (e # es, s')
      else None)"

lemma monitor_calls_run:
  "monitor_run slot_size (fst r) (snd r) \<Longrightarrow> monitor_calls slot_size cs r = Some r' \<Longrightarrow> monitor_run slot_size (fst r') (snd r')"
proof (induction slot_size cs r rule: monitor_calls.induct)
  case (2 slot_size c cs es s)
  then obtain e s' where step: "monitor_allowed c s" "monitor_do slot_size c s = Some (e, s')" "monitor_calls slot_size cs (e # es, s') = Some r'"
    by (auto split: if_splits option.splits)
  have run: "monitor_run slot_size es s" using "2.prems"(1) by simp
  have "monitor_run slot_size (e # es) s'" by (rule monitor_run.run_step [OF run step(1,2)])
  then show ?case using "2.IH" [OF step(1,2) refl] step(3) by simp
qed simp

definition example_packet :: monitor_view where
  "example_packet = \<lparr>vw_status = SPAN_PACKET, vw_metadata = (mi_driver (ms_info zero_slot))\<lparr>md_available := True\<rparr>,
     vw_header = mi_header (ms_info zero_slot), vw_header_type_matches = True, vw_bytes = Some [7, 8, 9],
     vw_readable_length = 3, vw_driver_length = 3\<rparr>"

definition example_frame :: monitor_event where
  "example_frame = \<lparr>me_generation = 1, me_identity = 1, me_index = 0\<rparr>"

definition example_captures :: "monitor_call list" where
  "example_captures = [Init 0 1 2 2 False, Proceed 0 True (Some (0, 0, [0, 0, 0, 0])), Proceed 0 True None, Set_accepting True,
     Publish 0 (Some example_packet) 0 5, Proceed 0 True None, Proceed 0 True None, Proceed 0 True None, Proceed 0 True None,
     Proceed 0 True None, Proceed 0 True None, Take_event example_frame, Retain_frame 0 example_frame, Close_frame example_frame]"

definition example_result :: "monitor_note list \<times> monitor_system" where
  "example_result = the (monitor_calls 64 example_captures ([], monitor_system_initial 1 1))"

lemma example_calls: "monitor_calls 64 example_captures ([], monitor_system_initial 1 1) \<noteq> None"
  by code_simp

lemma example_monitor_run: "monitor_run 64 (fst example_result) (snd example_result)" "length (my_at (snd example_result)) = 1"
proof -
  obtain r where r: "monitor_calls 64 example_captures ([], monitor_system_initial 1 1) = Some r" using example_calls by auto
  have "monitor_run 64 (fst ([], monitor_system_initial 1 1)) (snd ([], monitor_system_initial 1 1))" by (simp add: monitor_run.start)
  from monitor_calls_run [OF this r] have "monitor_run 64 (fst r) (snd r)" .
  moreover have "example_result = r" unfolding example_result_def r by simp
  ultimately show "monitor_run 64 (fst example_result) (snd example_result)" by simp
  show "length (my_at (snd example_result)) = 1" by code_simp
qed

lemma example_notes: "filter (\<lambda>e. e \<noteq> Quiet) (fst example_result) =
    [Frame_closed example_frame, Taken example_frame,
     Captured example_frame (publication_info (publication_of example_packet 5 0 (my_monitor (snd example_result)))) [7, 8]] \<and>
  my_refs (snd example_result) = [Some example_frame] \<and> mn_initialized (my_monitor (snd example_result))"
  by code_simp

lemma wifi_monitor_frames_safe_witness:
  "\<exists>info bytes b block offset. Captured example_frame info bytes \<in> set (fst example_result) \<and>
    monitor_ref_data (my_refs (snd example_result) ! 0) (my_monitor (snd example_result)) (my_memory (snd example_result)) =
      Some (Some (Some b, offset, length bytes)) \<and>
    mm_payload (my_memory (snd example_result)) b = Some block \<and> take (length bytes) (drop offset block) = bytes"
  using wifi_monitor_frames_safe [OF example_monitor_run(1)] example_monitor_run(2) example_notes by simp blast

lemma wifi_monitor_accounts_witness:
  "\<exists>a xs. mn_slots (my_monitor (snd example_result)) = Some a \<and> mm_slots (my_memory (snd example_result)) a = Some xs \<and>
    unat (mn_leased_frames (my_monitor (snd example_result))) = length (filter (\<lambda>slot. ms_owner slot \<noteq> FRAME_FREE) xs)"
  using wifi_monitor_accounts [OF example_monitor_run(1)] example_monitor_run(2) example_notes by simp blast

lemma example_head: "\<exists>earlier. fst example_result = Frame_closed example_frame # earlier"
proof -
  have "hd (fst example_result) = Frame_closed example_frame \<and> fst example_result \<noteq> []" by code_simp
  then show ?thesis by (metis list.collapse)
qed

lemma wifi_monitor_frames_once_witness:
  "\<exists>earlier. fst example_result = Frame_closed example_frame # earlier \<and>
    Taken example_frame \<in> set earlier \<and> Frame_closed example_frame \<notin> set earlier"
proof -
  obtain earlier where e: "fst example_result = [] @ Frame_closed example_frame # earlier" using example_head by auto
  from wifi_monitor_frames_once [OF example_monitor_run(1) _ e, of example_frame] example_monitor_run(2) e show ?thesis by simp
qed
end
