(* ===== verification/Spec2Isabelle.thy ===== *)
theory Spec2Isabelle
  imports Rpc_Roundtrip Native_Lease Memory_Budget Memory_Dma Memory_Owner Dma_Queue Wireless_Text
    Line_Framer Log_Ring Fs_Path Future_Scheduler Peripheral_Lease Reaper Wireless_Core Wireless_Registry Event_Queue Native_Resources Raw_Tx_Refines
    Raw_Tx_Lane Raw_Tx_Periodic Raw_Tx_Validate Wifi_Rx_Filter Rx_Wire
    Promiscuous_Broker Wifi_Interval Wifi_Action_Lane Monitor_Safety
begin

text \<open>
  A model of the core of ESP32QJS, the framework that runs JavaScript on ESP32 microcontrollers, and
  the theorems that make it correct.  All paths below are under
  \<open>src/components/esp32_mquickjs/\<close>; a theory names the file it models in its first text.

  \<^bold>\<open>The program.\<close>  One JavaScript runtime runs on one task.  Everything that waits is a
  future: its native driver is started when the resource it names (its lane) is free, and tells of its
  end through a bounded event queue.  Callbacks of the radio drivers come from other tasks or from
  interrupts; what they touch is taken from pools of slots and kept alive by leases.  Memory is
  admitted by ledgers before it is allocated.  Bytes leave through DMA in transfers cut from spans.
  A host talks to the device over a serial line, in RPC records or in lines of text.

  \<^bold>\<open>Conventions.\<close>  \<open>Prelude\<close> holds the types.  Machine integers are words of their
  width; where a guard of the code keeps a number small it is a natural number, and the theory says
  which guard.  A null pointer is \<open>None\<close>.  A write or a read outside a buffer is \<open>None\<close> too, so
  that a theorem whose right-hand side is \<open>Some\<close> says that there is none.  Functions of the
  platform (queues of the operating system, allocators, drivers, the constants of the SDK) are
  parameters; times in microseconds are integers, and where the code compares addresses the
  comparison is an argument; a theorem
  that relies on them has their laws as a hypothesis and a witness with concrete functions.
  \<open>Simulation\<close> is the locale of observable refinement: a relation that single calls keep gives
  equal answers for every sequence of calls.  \<open>Ring_Window\<close> is the occupied part of a circular
  buffer.

  \<^bold>\<open>Theories and sources.\<close>

  \<^item> RPC on the serial line (\<open>src/core/esp32_mquickjs_rpc_wire.c\<close>, the segment loop of
    \<open>esp32_mquickjs_rpc.c\<close>): \<open>Rpc_Crc\<close> the checksum, \<open>Rpc_Cobs\<close> the byte stuffing (an
    instance of the locale in \<open>Frame_Codec\<close>), \<open>Rpc_Wire\<close> the segment and the encoder,
    \<open>Rpc_Decoder\<close> the receiver, \<open>Rpc_Roundtrip\<close> both together.  The lemmas lead to: an encoded
    message is delivered once and unchanged however the bytes are cut into calls; the decoder never
    writes outside its buffers; it is in step again after a zero byte; a corrupted record is refused;
    bursts of up to 32 bits are always detected.
  \<^item> Slots and references (\<open>esp32_mquickjs_native_pool.c\<close>, \<open>..._native_lease.c\<close>):
    \<open>Slot_Pool\<close> is the interface, \<open>Native_Pool\<close> the lock-free bit words, \<open>Native_Lease\<close> the
    reference count.  Both have the sequential operations and a step relation of the atomic steps of
    interleaving threads; the invariants say that no slot has two owners and no holder outlives the
    return of its slot.  Memory is sequentially consistent.
  \<^item> Memory ledgers: \<open>Ledger\<close> is the interface; \<open>Memory_Budget\<close>
    (\<open>..._memory_budget.c\<close>), \<open>Memory_Owner\<close> (\<open>..._memory_owner_accounting.c\<close>) and
    \<open>Memory_Dma\<close> (\<open>..._memory_dma_accounting.c\<close>) are shown to book what was granted and not
    returned, exactly and without wrapping; no sequence of calls lets the data roles into the part
    of the internal memory that is kept for control.
  \<^item> DMA (\<open>..._dma_transfer.c\<close>): \<open>Dma_Transfer\<close> cuts a span into transfers, \<open>Dma_Queue\<close>
    orders the completions; the loop of the driver sends the bytes of the span in order, and the
    completion queue refines a FIFO.
  \<^item> Futures: \<open>Future_Scheduler\<close> (\<open>..._future_scheduler.c\<close>, \<open>..._future_timeout.c\<close>, the driver
    slots of \<open>..._future.c\<close>) is a step relation over slots; at most one driver of a lane runs, and a
    free lane does not leave a driver waiting.  \<open>Reaper\<close> (\<open>..._reaper.c\<close>) is the registry of
    clean-up callbacks, \<open>Peripheral_Lease\<close> (\<open>..._peripheral_lease.c\<close>) the table of peripheral
    owners.
  \<^item> Events: \<open>Event_Queue\<close> (\<open>..._event_queue_drain.c\<close>) over a queue of the operating system,
    \<open>Native_Resources\<close> (\<open>..._event_queue_resources.c\<close>, \<open>..._future_runtime_resources.c\<close>,
    \<open>..._timer_resource.c\<close>, \<open>..._fs_atomic_write.c\<close>) creation and clean-up, all or nothing.
  \<^item> Wireless core (\<open>..._wireless_core.c\<close>): \<open>Wireless_Text\<close>, \<open>Wireless_Core\<close>,
    \<open>Wireless_Registry\<close>.
  \<^item> Raw transmission (\<open>src/modules/wifi_raw_tx/esp32_mquickjs_wifi_raw_tx_queue.c\<close>):
    \<open>Raw_Tx_Queue\<close> is the code, \<open>Raw_Tx_Model\<close> what it promises, \<open>Raw_Tx_Links\<close> the linked list in
    the slots, \<open>Raw_Tx_Relation\<close> how the slots hold the lists, \<open>Raw_Tx_Admission\<close>,
    \<open>Raw_Tx_Flush\<close> and \<open>Raw_Tx_Refines\<close> the calls.
  \<^item> Raw transmission, around the queue (\<open>src/modules/wifi_raw_tx/\<close>): \<open>Raw_Tx_Lane\<close>
    (\<open>..._raw_tx_lane.c\<close>) keeps the driver's one frame in flight and is shown to refine a lane with
    an owner; \<open>Raw_Tx_Periodic\<close> (\<open>..._periodic.c\<close>) is the schedule of repeated frames, which never
    drifts and never issues early; \<open>Raw_Tx_Validate\<close> (\<open>..._validate.c\<close>) accepts exactly the frames
    of a written specification.
  \<^item> Reception (\<open>src/modules/wifi_common/\<close>): \<open>Wifi_Rx\<close> (\<open>..._wifi_rx.c\<close>) parses the 802.11
    header and reads nothing past the captured bytes; \<open>Wifi_Rx_Filter\<close> (\<open>..._wifi_rx_filter.c\<close>)
    decides which packets are taken, with its rate limiter; \<open>Rx_Wire\<close> (\<open>..._wifi_rx_wire.c\<close>) lays
    out a batch in one block; \<open>Promiscuous_Broker\<close> (\<open>..._wifi_promiscuous_broker.c\<close>) is the table
    of receivers that the callback of the driver reads without a lock, as a step relation of
    callbacks and control calls: no packet reaches a receiver after its removal has returned.
  \<^item> Captured packets (\<open>src/modules/wifi_monitor/esp32_mquickjs_wifi_monitor_resources.c\<close>):
    \<open>Wifi_Monitor\<close> composes the slot pool, the lease and the view of the filter into the store that
    the receive task fills and the runtime task reads, with its blocks of memory;
    \<open>Monitor_Frames\<close> is the invariant and what each operation does to one slot, \<open>Monitor_Safety\<close>
    that every step keeps it: nothing touches freed memory, an open reference reads the captured
    bytes also after its frame and session are closed, the accounts are exact, and no token acts
    twice.  The bound of 32 bits on the number of tasks is what the counter of publishers needs.
  \<^item> The radio as a shared resource: \<open>Wifi_Interval\<close>
    (\<open>src/modules/wifi_radio/esp32_mquickjs_wifi_interval.c\<close>) borrows a setting of the driver and
    puts back what was there; \<open>Wifi_Action_Lane\<close>
    (\<open>src/modules/wifi_action/esp32_mquickjs_wifi_action_lane.c\<close>) is the one off-channel operation,
    whose events may come before the call that started it has returned: they count as if they had
    come after it, an event that cannot be kept or read makes the lane ambiguous.  Both are step
    relations with a log of events, latest first.
  \<^item> Text: \<open>Line_Framer\<close> (\<open>..._line_framer.c\<close>), \<open>Log_Ring\<close> (\<open>..._log_ring.c\<close>), \<open>Fs_Path\<close>
    (\<open>src/modules/fs/esp32_mquickjs_fs_path.c\<close>).

  \<^bold>\<open>Bounds and loops.\<close>  No definition runs on fuel.  Loops are structural recursion, functions
  with a measure, or \<open>partial_function (option)\<close> where only an invariant makes them end (the linked
  lists of the raw transmit queue); there the refinement theorem gives \<open>Some\<close>.  The drain loop of the
  event queue ends because its queue is finite, which is a hypothesis on the operating system.
  Counters that wrap in the code are bounded where a theorem needs it, by a hypothesis on the number
  of calls (\<open>Peripheral_Lease\<close>) or by the guard of the code.

  \<^bold>\<open>Not modelled.\<close>  The JavaScript engine is a submodule that is not in the tree, and most
  modules are bindings: they check JavaScript values, call a driver of ESP-IDF and convert the
  result.  A statement about them would be one about parameters.  Of the
  Wi-Fi modules only the state machines and formats listed above are modelled; their sessions
  convert JavaScript values, and in part follow the layout of closed binary libraries.  Weak memory order,
  the timing of interrupts and the contents of payloads that no operation reads are not part of the
  model.  The table of boards (\<open>esp32_mquickjs_profile.c\<close>) is generated.
\<close>

end
